(* ===== verification/Prelude.thy ===== *)
theory Prelude
  imports Main "HOL-Library.Word" "HOL-Library.Monad_Syntax"
begin

section \<open>Prelude: machine types, undefined behaviour, byte memory\<close>

text \<open>
  The vocabulary the component theories share.

  \<^item> The C integer types of an LP64, little-endian, two's complement target (arm64 iOS and the
    x86-64 simulator, the targets the project's Pods are built for) are words of their width.
  \<^item> A result of type \<open>'a option\<close> is the value of a C computation, \<open>None\<close> standing for an
    execution the C standard gives no meaning to: an access to an address that is not mapped,
    a shift of an \<open>int\<close> out of its range.  Computations are sequenced with the \<open>option\<close> monad, so
    that undefined behaviour propagates as it would in the program.
  \<^item> Memory is byte addressed: \<open>m a = Some b\<close> is a mapped byte, \<open>m a = None\<close> an unmapped address.
    Multi-byte accesses are little-endian, at any alignment, and address arithmetic wraps at
    \<open>2 ^ 64\<close> as pointer arithmetic on the target does.
  \<^item> \<open>in_block a n x\<close> says that \<open>x\<close> is one of the \<open>n\<close> addresses from \<open>a\<close> on; every frame fact of
    the development is stated with it.
\<close>

unbundle bit_operations_syntax

type_synonym u8 = "8 word"
type_synonym u16 = "16 word"
type_synonym u32 = "32 word"
type_synonym u64 = "64 word"
type_synonym addr = "64 word"
type_synonym mem = "addr \<Rightarrow> u8 option"

named_theorems mem_simps \<open>reading back what was written, and what was not\<close>
named_theorems ret_simps \<open>unfolding of monadic definitions that return a value\<close>

subsection \<open>Options\<close>

lemma bind_eq_SomeE:
  assumes "Option.bind x f = Some y"
  obtains v where "x = Some v" "f v = Some y"
  using assms by (cases x) auto

lemma bind_Some_iff: "Option.bind x f = Some y \<longleftrightarrow> (\<exists>v. x = Some v \<and> f v = Some y)"
  by (cases x) auto

lemma bind_None_iff: "Option.bind x f = None \<longleftrightarrow> x = None \<or> (\<exists>v. x = Some v \<and> f v = None)"
  by (cases x) auto

subsection \<open>Blocks of addresses\<close>

definition in_block :: "addr \<Rightarrow> nat \<Rightarrow> addr \<Rightarrow> bool" where
  "in_block a n x \<longleftrightarrow> unat (x - a) < n"

lemma in_block_0 [simp]: "\<not> in_block a 0 x"
  by (simp add: in_block_def)

lemma unat_diff_Suc:
  fixes x a :: addr
  assumes "x \<noteq> a"
  shows "unat (x - a) = Suc (unat (x - (a + 1)))"
proof -
  have nz: "x - a \<noteq> 0" using assms by simp
  have "unat (x - (a + 1)) = unat (x - a) - 1"
    using unat_minus_one [OF nz] by (simp add: diff_diff_eq)
  moreover have "0 < unat (x - a)" using nz by (simp add: unat_gt_0)
  ultimately show ?thesis by simp
qed

lemma in_block_Suc: "n < 2 ^ 64 \<Longrightarrow> in_block a (Suc n) x \<longleftrightarrow> x = a \<or> in_block (a + 1) n x"
  by (cases "x = a") (simp_all add: in_block_def unat_diff_Suc)

lemma in_block_mono: "in_block a n x \<Longrightarrow> n \<le> k \<Longrightarrow> in_block a k x"
  by (simp add: in_block_def)

lemma in_block_start [simp]: "0 < n \<Longrightarrow> in_block a n a"
  by (simp add: in_block_def)

lemma in_block_offset: "i < n \<Longrightarrow> n \<le> 2 ^ 64 \<Longrightarrow> in_block a n (a + of_nat i)"
  by (simp add: in_block_def unat_of_nat)

definition disjoint_blocks :: "addr \<Rightarrow> nat \<Rightarrow> addr \<Rightarrow> nat \<Rightarrow> bool" where
  "disjoint_blocks a n b k \<longleftrightarrow> (\<forall>x. \<not> (in_block a n x \<and> in_block b k x))"

subsection \<open>Reading and writing bytes\<close>

fun load_bytes :: "mem \<Rightarrow> addr \<Rightarrow> nat \<Rightarrow> u8 list option" where
  "load_bytes m a 0 = Some []"
| "load_bytes m a (Suc n) = do {
     b \<leftarrow> m a;
     bs \<leftarrow> load_bytes m (a + 1) n;
     Some (b # bs) }"

fun store_bytes :: "mem \<Rightarrow> addr \<Rightarrow> u8 list \<Rightarrow> mem option" where
  "store_bytes m a [] = Some m"
| "store_bytes m a (b # bs) =
     (if m a = None then None else store_bytes (m(a \<mapsto> b)) (a + 1) bs)"

definition mapped :: "mem \<Rightarrow> addr \<Rightarrow> nat \<Rightarrow> bool" where
  "mapped m a n \<longleftrightarrow> (\<forall>i<n. m (a + of_nat i) \<noteq> None)"

lemma mapped_0 [simp]: "mapped m a 0"
  by (simp add: mapped_def)

lemma mapped_Suc: "mapped m a (Suc n) \<longleftrightarrow> m a \<noteq> None \<and> mapped m (a + 1) n"
proof -
  have "(\<forall>i<Suc n. m (a + of_nat i) \<noteq> None) \<longleftrightarrow>
        m (a + of_nat 0) \<noteq> None \<and> (\<forall>i<n. m (a + of_nat (Suc i)) \<noteq> None)"
    by (simp only: All_less_Suc2)
  then show ?thesis by (simp add: mapped_def add.assoc)
qed


lemma load_bytes_length: "load_bytes m a n = Some bs \<Longrightarrow> length bs = n"
proof (induction n arbitrary: a bs)
  case (Suc n)
  from Suc.prems obtain b bs' where "bs = b # bs'" "load_bytes m (a + 1) n = Some bs'"
    by (auto simp: bind_Some_iff)
  then show ?case using Suc.IH by simp
qed simp

lemma load_bytes_eq_None_iff: "load_bytes m a n = None \<longleftrightarrow> \<not> mapped m a n"
proof (induction n arbitrary: a)
  case (Suc n)
  show ?case
    using Suc.IH [of "a + 1"]
    by (cases "m a"; cases "load_bytes m (a + 1) n") (simp_all add: mapped_Suc)
qed simp

lemma load_bytes_mapped: "mapped m a n \<Longrightarrow> \<exists>bs. load_bytes m a n = Some bs \<and> length bs = n"
  using load_bytes_eq_None_iff [of m a n] load_bytes_length by fastforce

lemma load_bytes_cong:
  "n \<le> 2 ^ 64 \<Longrightarrow> (\<And>x. in_block a n x \<Longrightarrow> m' x = m x) \<Longrightarrow> load_bytes m' a n = load_bytes m a n"
proof (induction n arbitrary: a)
  case 0
  then show ?case by simp
next
  case (Suc n)
  have "load_bytes m' (a + 1) n = load_bytes m (a + 1) n"
    using Suc.prems by (intro Suc.IH) (simp_all add: in_block_Suc)
  with Suc.prems show ?case by simp
qed

lemma load_bytes_append:
  "load_bytes m a (k + n) =
     do { xs \<leftarrow> load_bytes m a k; ys \<leftarrow> load_bytes m (a + of_nat k) n; Some (xs @ ys) }"
proof (induction k arbitrary: a)
  case 0
  then show ?case by (cases "load_bytes m a n") simp_all
next
  case (Suc k)
  then show ?case
    by (cases "m a"; cases "load_bytes m (a + 1) k"; cases "load_bytes m (a + of_nat (Suc k)) n")
      (simp_all add: add.assoc)
qed

lemma load_bytes_appendD:
  assumes "load_bytes m a (length (xs @ ys)) = Some (xs @ ys)"
  shows "load_bytes m a (length xs) = Some xs"
    and "load_bytes m (a + of_nat (length xs)) (length ys) = Some ys"
proof -
  from assms obtain us vs where us: "load_bytes m a (length xs) = Some us"
    and vs: "load_bytes m (a + of_nat (length xs)) (length ys) = Some vs" and eq: "us @ vs = xs @ ys"
    unfolding length_append load_bytes_append by (auto simp only: bind_Some_iff option.inject)
  from load_bytes_length [OF us] eq have "us = xs" "vs = ys" by simp_all
  with us vs show "load_bytes m a (length xs) = Some xs"
    "load_bytes m (a + of_nat (length xs)) (length ys) = Some ys" by simp_all
qed

lemma load_bytes_nth:
  "load_bytes m a n = Some bs \<Longrightarrow> i < n \<Longrightarrow> m (a + of_nat i) = Some (bs ! i)"
proof (induction n arbitrary: a bs i)
  case (Suc n)
  then show ?case
    by (cases i) (fastforce simp: bind_Some_iff add.assoc)+
qed simp

lemma store_bytes_other:
  "store_bytes m a bs = Some m' \<Longrightarrow> length bs \<le> 2 ^ 64 \<Longrightarrow> \<not> in_block a (length bs) x \<Longrightarrow> m' x = m x"
proof (induction bs arbitrary: m a)
  case (Cons b bs)
  then have n: "length bs < 2 ^ 64" by simp
  from Cons.prems have s: "store_bytes (m(a \<mapsto> b)) (a + 1) bs = Some m'"
    by (simp split: if_splits)
  from Cons.prems n have x: "x \<noteq> a" "\<not> in_block (a + 1) (length bs) x"
    by (auto simp: in_block_Suc)
  have "m' x = (m(a \<mapsto> b)) x"
    using Cons.IH [OF s _ x(2)] n by simp
  with x(1) show ?case by simp
qed simp

lemma start_not_in_tail: "n < 2 ^ 64 \<Longrightarrow> \<not> in_block (a + 1) n a"
proof -
  assume n: "n < 2 ^ 64"
  have "a - (a + 1) = (-1 :: 64 word)" by (simp add: diff_diff_eq)
  then have "unat (a - (a + 1)) = 2 ^ 64 - 1" by (simp add: unsigned_minus_1_eq_mask mask_eq_exp_minus_1)
  with n show ?thesis by (simp add: in_block_def)
qed

lemma store_load_same [mem_simps]:
  "store_bytes m a bs = Some m' \<Longrightarrow> length bs \<le> 2 ^ 64 \<Longrightarrow> load_bytes m' a (length bs) = Some bs"
proof (induction bs arbitrary: m a)
  case (Cons b bs)
  then have n: "length bs < 2 ^ 64" by simp
  from Cons.prems have s: "store_bytes (m(a \<mapsto> b)) (a + 1) bs = Some m'"
    by (simp split: if_splits)
  have "m' a = (m(a \<mapsto> b)) a"
    using store_bytes_other [OF s] n start_not_in_tail [OF n] by simp
  moreover have "load_bytes m' (a + 1) (length bs) = Some bs"
    using Cons.IH [OF s] n by simp
  ultimately show ?case by simp
qed simp

lemma store_load_disjoint [mem_simps]:
  assumes "store_bytes m a bs = Some m'" "length bs \<le> 2 ^ 64" "n \<le> 2 ^ 64"
    and "disjoint_blocks a (length bs) c n"
  shows "load_bytes m' c n = load_bytes m c n"
  using assms by (intro load_bytes_cong) (auto simp: disjoint_blocks_def intro: store_bytes_other)

lemma mapped_cong_dom: "dom m' = dom m \<Longrightarrow> mapped m' a n \<longleftrightarrow> mapped m a n"
  by (simp add: mapped_def dom_def set_eq_iff)

lemma store_bytes_mapped_iff: "(store_bytes m a bs = None) \<longleftrightarrow> \<not> mapped m a (length bs)"
  if "length bs \<le> 2 ^ 64"
  using that
proof (induction bs arbitrary: m a)
  case (Cons b bs)
  then have n: "length bs < 2 ^ 64" by simp
  have "mapped (m(a \<mapsto> b)) (a + 1) (length bs) \<longleftrightarrow> mapped m (a + 1) (length bs)" if "m a \<noteq> None"
    using that by (intro mapped_cong_dom) auto
  with Cons n show ?case by (auto simp: mapped_Suc)
qed simp

lemma store_bytes_total: "mapped m a (length bs) \<Longrightarrow> length bs \<le> 2 ^ 64 \<Longrightarrow> \<exists>m'. store_bytes m a bs = Some m'"
  using store_bytes_mapped_iff [of bs m a] by auto

lemma store_bytes_dom: "store_bytes m a bs = Some m' \<Longrightarrow> dom m' = dom m"
  by (induction bs arbitrary: m a) (auto split: if_splits)

lemma store_bytes_keeps_mapped [mem_simps]:
  "store_bytes m a bs = Some m' \<Longrightarrow> mapped m' c n = mapped m c n"
  by (intro mapped_cong_dom store_bytes_dom)

subsection \<open>Little-endian words\<close>

fun word_of_le :: "u8 list \<Rightarrow> 'a::len word" where
  "word_of_le [] = 0"
| "word_of_le (b # bs) = ucast b OR push_bit 8 (word_of_le bs)"

fun le_of_word :: "nat \<Rightarrow> 'a::len word \<Rightarrow> u8 list" where
  "le_of_word 0 w = []"
| "le_of_word (Suc n) w = ucast w # le_of_word n (drop_bit 8 w)"

lemma length_le_of_word [simp]: "length (le_of_word n w) = n"
  by (induction n arbitrary: w) simp_all

lemma bit_word_of_le:
  "bit (word_of_le bs :: 'a::len word) n \<longleftrightarrow>
     n < LENGTH('a) \<and> n div 8 < length bs \<and> bit (bs ! (n div 8)) (n mod 8)"
proof (induction bs arbitrary: n)
  case (Cons b bs)
  show ?case
  proof (cases "n < 8")
    case True
    then show ?thesis by (auto simp: bit_simps)
  next
    case False
    then have "n div 8 = Suc ((n - 8) div 8)" "n mod 8 = (n - 8) mod 8"
      by (simp_all add: le_div_geq le_mod_geq)
    with False Cons.IH [of "n - 8"] show ?thesis
      by (auto simp: bit_simps dest: bit_imp_le_length)
  qed
qed simp

lemma nth_le_of_word: "i < n \<Longrightarrow> le_of_word n w ! i = ucast (drop_bit (8 * i) w)"
proof (induction n arbitrary: w i)
  case (Suc n)
  then show ?case by (cases i) (simp_all add: drop_bit_drop_bit add.commute)
qed simp

lemma word_of_le_of_word:
  fixes w :: "'a::len word"
  shows "word_of_le (le_of_word n w) = take_bit (8 * n) w"
proof (rule bit_word_eqI)
  fix k
  assume "k < LENGTH('a)"
  have "8 * (k div 8) + k mod 8 = k" by simp
  moreover have "k div 8 < n \<longleftrightarrow> k < 8 * n" by (auto simp: div_less_iff_less_mult)
  ultimately show "bit (word_of_le (le_of_word n w) :: 'a word) k \<longleftrightarrow> bit (take_bit (8 * n) w) k"
    using \<open>k < LENGTH('a)\<close>
    by (auto simp: bit_word_of_le nth_le_of_word bit_simps)
qed

lemma word_of_le_inverse [simp]: "LENGTH('a) \<le> 8 * n \<Longrightarrow> word_of_le (le_of_word n w) = (w :: 'a::len word)"
  by (simp add: word_of_le_of_word take_bit_word_eq_self)

lemma le_of_word_inverse:
  assumes "8 * length bs \<le> LENGTH('a::len)"
  shows "le_of_word (length bs) (word_of_le bs :: 'a word) = bs"
proof (rule nth_equalityI)
  fix i
  assume "i < length (le_of_word (length bs) (word_of_le bs :: 'a word))"
  then have i: "i < length bs" by simp
  have "bit (ucast (drop_bit (8 * i) (word_of_le bs :: 'a word)) :: u8) k = bit (bs ! i) k"
    if "k < 8" for k
    using that i assms by (auto simp: bit_simps bit_word_of_le)
  with i show "le_of_word (length bs) (word_of_le bs :: 'a word) ! i = bs ! i"
    by (intro bit_word_eqI) (simp add: nth_le_of_word)
qed simp

definition load_le :: "nat \<Rightarrow> mem \<Rightarrow> addr \<Rightarrow> 'a::len word option" where
  "load_le n m a = map_option word_of_le (load_bytes m a n)"

definition store_le :: "nat \<Rightarrow> mem \<Rightarrow> addr \<Rightarrow> 'a::len word \<Rightarrow> mem option" where
  "store_le n m a w = store_bytes m a (le_of_word n w)"

lemma load_le_byte [simp]: "(load_le (Suc 0) m a :: u8 option) = m a"
  by (cases "m a") (simp_all add: load_le_def)

lemma load_le_mapped: "mapped m a n \<Longrightarrow> \<exists>w. load_le n m a = Some w"
  using load_bytes_mapped [of m a n] by (auto simp: load_le_def)

lemma load_le_None_iff: "load_le n m a = None \<longleftrightarrow> \<not> mapped m a n"
  by (simp add: load_le_def load_bytes_eq_None_iff)

lemma store_load_le [mem_simps]:
  fixes w :: "'a::len word"
  assumes "store_le n m a w = Some m'" "n \<le> 2 ^ 64" "LENGTH('a) \<le> 8 * n"
  shows "load_le n m' a = Some w"
  using assms store_load_same [of m a "le_of_word n w" m']
  by (simp add: store_le_def load_le_def)

lemma load_le_cong:
  "n \<le> 2 ^ 64 \<Longrightarrow> (\<And>x. in_block a n x \<Longrightarrow> m' x = m x) \<Longrightarrow> load_le n m' a = load_le n m a"
  by (simp add: load_le_def cong: load_bytes_cong)

subsection \<open>A memory holding one block\<close>

definition bytes_at :: "addr \<Rightarrow> u8 list \<Rightarrow> mem" where
  "bytes_at a bs x = (if unat (x - a) < length bs then Some (bs ! unat (x - a)) else None)"

lemma load_bytes_eqI:
  "length bs = n \<Longrightarrow> (\<And>i. i < n \<Longrightarrow> m (a + of_nat i) = Some (bs ! i)) \<Longrightarrow> load_bytes m a n = Some bs"
proof (induction n arbitrary: a bs)
  case (Suc n)
  then obtain b bs' where bs: "bs = b # bs'" by (cases bs) auto
  have "m a = Some b" using Suc.prems(2) [of 0] bs by simp
  moreover have "load_bytes m (a + 1) n = Some bs'"
  proof (rule Suc.IH)
    show "length bs' = n" using Suc.prems(1) bs by simp
    show "m (a + 1 + of_nat i) = Some (bs' ! i)" if "i < n" for i
      using Suc.prems(2) [of "Suc i"] that bs by (simp add: add.assoc)
  qed
  ultimately show ?case by (simp add: bs)
qed simp

lemma load_bytes_at: "length bs \<le> 2 ^ 64 \<Longrightarrow> load_bytes (bytes_at a bs) a (length bs) = Some bs"
  by (rule load_bytes_eqI) (simp_all add: bytes_at_def unat_of_nat)

subsection \<open>Signed arithmetic\<close>

text \<open>\<open>x + y\<close> and \<open>x * y\<close> on \<open>int64_t\<close> (or \<open>intptr_t\<close>): undefined when the result does not fit.\<close>

definition int64_add :: "u64 \<Rightarrow> u64 \<Rightarrow> u64 option" where
  "int64_add x y =
     (if - (2 ^ 63) \<le> sint x + sint y \<and> sint x + sint y < 2 ^ 63 then Some (x + y) else None)"

definition int64_mul :: "u64 \<Rightarrow> u64 \<Rightarrow> u64 option" where
  "int64_mul x y =
     (if - (2 ^ 63) \<le> sint x * sint y \<and> sint x * sint y < 2 ^ 63 then Some (x * y) else None)"

end
