(* ===== verification/DwarfData.thy ===== *)
theory DwarfData
  imports Prelude
begin

section \<open>Data parsing for DWARF sections (FIRCLSDataParsing.c)\<close>

text \<open>
  The primitive readers of \<open>Crashlytics/Unwind/Dwarf/FIRCLSDataParsing.c\<close>: fixed-width integers,
  LEB128 numbers, NUL-terminated strings, record lengths and encoded pointers.  A C function with a
  \<open>const void** cursor\<close> parameter becomes a function from the cursor to the value read and the
  advanced cursor; \<open>None\<close> is a read of unmapped memory or an undefined shift.

  The abstract side is the DWARF definition of LEB128 (\<open>uleb_bytes\<close>, \<open>sleb_bytes\<close>); the lemmas say on
  exactly which numbers the readers invert it.
\<close>

subsection \<open>Constants of dwarf.h\<close>

abbreviation (input) DWARF_EXTENDED_LENGTH_FLAG :: u32 where "DWARF_EXTENDED_LENGTH_FLAG \<equiv> 0xffffffff"
abbreviation (input) DWARF_CIE_ID_CIE_FLAG :: u32 where "DWARF_CIE_ID_CIE_FLAG \<equiv> 0"
abbreviation (input) DW_EH_PE_VALUE_MASK :: u8 where "DW_EH_PE_VALUE_MASK \<equiv> 0x0F"
abbreviation (input) DW_EH_PE_RELATIVE_OFFSET_MASK :: u8 where "DW_EH_PE_RELATIVE_OFFSET_MASK \<equiv> 0x70"
abbreviation (input) DW_EH_PE_ptr :: u8 where "DW_EH_PE_ptr \<equiv> 0x00"
abbreviation (input) DW_EH_PE_uleb128 :: u8 where "DW_EH_PE_uleb128 \<equiv> 0x01"
abbreviation (input) DW_EH_PE_udata2 :: u8 where "DW_EH_PE_udata2 \<equiv> 0x02"
abbreviation (input) DW_EH_PE_udata4 :: u8 where "DW_EH_PE_udata4 \<equiv> 0x03"
abbreviation (input) DW_EH_PE_udata8 :: u8 where "DW_EH_PE_udata8 \<equiv> 0x04"
abbreviation (input) DW_EH_PE_sleb128 :: u8 where "DW_EH_PE_sleb128 \<equiv> 0x09"
abbreviation (input) DW_EH_PE_sdata2 :: u8 where "DW_EH_PE_sdata2 \<equiv> 0x0A"
abbreviation (input) DW_EH_PE_sdata4 :: u8 where "DW_EH_PE_sdata4 \<equiv> 0x0B"
abbreviation (input) DW_EH_PE_sdata8 :: u8 where "DW_EH_PE_sdata8 \<equiv> 0x0C"
abbreviation (input) DW_EH_PE_absptr :: u8 where "DW_EH_PE_absptr \<equiv> 0x00"
abbreviation (input) DW_EH_PE_pcrel :: u8 where "DW_EH_PE_pcrel \<equiv> 0x10"
abbreviation (input) DW_EH_PE_indirect :: u8 where "DW_EH_PE_indirect \<equiv> 0x80"
abbreviation (input) DW_EH_PE_omit :: u8 where "DW_EH_PE_omit \<equiv> 0xFF"
abbreviation (input) CLS_INVALID_ADDRESS :: u64 where "CLS_INVALID_ADDRESS \<equiv> 0xffffffffffffffff"

subsection \<open>Fixed-width integers\<close>

definition FIRCLSParseUint8AndAdvance :: "mem \<Rightarrow> addr \<Rightarrow> (u8 \<times> addr) option" where
  "FIRCLSParseUint8AndAdvance m cursor = do { tmp \<leftarrow> load_le 1 m cursor; Some (tmp, cursor + 1) }"

definition FIRCLSParseUint16AndAdvance :: "mem \<Rightarrow> addr \<Rightarrow> (u16 \<times> addr) option" where
  "FIRCLSParseUint16AndAdvance m cursor = do { tmp \<leftarrow> load_le 2 m cursor; Some (tmp, cursor + 2) }"

definition FIRCLSParseInt16AndAdvance :: "mem \<Rightarrow> addr \<Rightarrow> (u16 \<times> addr) option" where
  "FIRCLSParseInt16AndAdvance m cursor = do { tmp \<leftarrow> load_le 2 m cursor; Some (tmp, cursor + 2) }"

definition FIRCLSParseUint32AndAdvance :: "mem \<Rightarrow> addr \<Rightarrow> (u32 \<times> addr) option" where
  "FIRCLSParseUint32AndAdvance m cursor = do { tmp \<leftarrow> load_le 4 m cursor; Some (tmp, cursor + 4) }"

definition FIRCLSParseInt32AndAdvance :: "mem \<Rightarrow> addr \<Rightarrow> (u32 \<times> addr) option" where
  "FIRCLSParseInt32AndAdvance m cursor = do { tmp \<leftarrow> load_le 4 m cursor; Some (tmp, cursor + 4) }"

definition FIRCLSParseUint64AndAdvance :: "mem \<Rightarrow> addr \<Rightarrow> (u64 \<times> addr) option" where
  "FIRCLSParseUint64AndAdvance m cursor = do { tmp \<leftarrow> load_le 8 m cursor; Some (tmp, cursor + 8) }"

definition FIRCLSParseInt64AndAdvance :: "mem \<Rightarrow> addr \<Rightarrow> (u64 \<times> addr) option" where
  "FIRCLSParseInt64AndAdvance m cursor = do { tmp \<leftarrow> load_le 8 m cursor; Some (tmp, cursor + 8) }"

definition FIRCLSParsePointerAndAdvance :: "mem \<Rightarrow> addr \<Rightarrow> (u64 \<times> addr) option" where
  "FIRCLSParsePointerAndAdvance m cursor = do { tmp \<leftarrow> load_le 8 m cursor; Some (tmp, cursor + 8) }"

subsection \<open>LEB128\<close>

text \<open>
  The readers shift an \<open>int\<close>: \<open>(0x7F & byte) << shift\<close>.  C gives \<open>v << s\<close> on a 32-bit \<open>int\<close> a value
  only when \<open>s\<close> is below 32 and \<open>v * 2 ^ s\<close> is an \<open>int\<close>.
\<close>

definition int_shl :: "int \<Rightarrow> nat \<Rightarrow> int option" where
  "int_shl v s = (if s < 32 \<and> 0 \<le> v \<and> v * 2 ^ s < 2 ^ 31 then Some (v * 2 ^ s) else None)"

fun FIRCLSParseULEB128_loop :: "mem \<Rightarrow> nat \<Rightarrow> u64 \<Rightarrow> nat \<Rightarrow> addr \<Rightarrow> (u64 \<times> addr) option" where
  "FIRCLSParseULEB128_loop m 0 result shift cursor = Some (result, cursor)"
| "FIRCLSParseULEB128_loop m (Suc i) result shift cursor = do {
     byte \<leftarrow> m cursor;
     v \<leftarrow> int_shl (uint (0x7F AND byte)) shift;
     if 0x80 AND byte = 0 then Some (result OR word_of_int v, cursor + 1)
     else FIRCLSParseULEB128_loop m i (result OR word_of_int v) (shift + 7) (cursor + 1) }"

definition FIRCLSParseULEB128AndAdvance :: "mem \<Rightarrow> addr \<Rightarrow> (u64 \<times> addr) option" where
  "FIRCLSParseULEB128AndAdvance m cursor = FIRCLSParseULEB128_loop m 8 0 0 cursor"

text \<open>The loop of the signed reader; it returns the result, the shift, the last byte and the cursor.\<close>

fun FIRCLSParseLEB128_loop ::
  "mem \<Rightarrow> nat \<Rightarrow> u64 \<Rightarrow> nat \<Rightarrow> u8 \<Rightarrow> addr \<Rightarrow> (u64 \<times> nat \<times> u8 \<times> addr) option" where
  "FIRCLSParseLEB128_loop m 0 result shift byte cursor = Some (result, shift, byte, cursor)"
| "FIRCLSParseLEB128_loop m (Suc i) result shift byte0 cursor = do {
     byte \<leftarrow> m cursor;
     v \<leftarrow> int_shl (uint (0x7F AND byte)) shift;
     if 0x80 AND byte = 0 then Some (result OR word_of_int v, shift + 7, byte, cursor + 1)
     else FIRCLSParseLEB128_loop m i (result OR word_of_int v) (shift + 7) byte (cursor + 1) }"

definition FIRCLSParseLEB128AndAdvance :: "mem \<Rightarrow> addr \<Rightarrow> (u64 \<times> addr) option" where
  "FIRCLSParseLEB128AndAdvance m cursor = do {
     (result, shift, byte, cursor) \<leftarrow> FIRCLSParseLEB128_loop m 8 0 0 0 cursor;
     if shift < 64 \<and> 0x40 AND byte \<noteq> 0 then do {
       v \<leftarrow> int_shl 1 shift;
       Some (result OR word_of_int (- v), cursor) }
     else Some (result, cursor) }"

subsection \<open>Strings, record lengths, encoded pointers\<close>

text \<open>\<open>strlen\<close> of the C library: \<open>None\<close> if it runs off the mapped memory or never ends.\<close>

partial_function (option) c_strlen :: "mem \<Rightarrow> addr \<Rightarrow> u64 option" where
  "c_strlen m a = do {
     b \<leftarrow> m a;
     if b = 0 then Some 0
     else do { n \<leftarrow> c_strlen m (a + 1); Some (n + 1) } }"

definition FIRCLSParseStringAndAdvance :: "mem \<Rightarrow> addr \<Rightarrow> (addr \<times> addr) option" where
  "FIRCLSParseStringAndAdvance m cursor = do {
     n \<leftarrow> c_strlen m cursor;
     Some (cursor, cursor + (n + 1)) }"

definition FIRCLSParseRecordLengthAndAdvance :: "mem \<Rightarrow> addr \<Rightarrow> (u64 \<times> addr) option" where
  "FIRCLSParseRecordLengthAndAdvance m cursor = do {
     (length, cursor) \<leftarrow> FIRCLSParseUint32AndAdvance m cursor;
     if length = DWARF_EXTENDED_LENGTH_FLAG then FIRCLSParseUint64AndAdvance m cursor
     else Some (ucast length, cursor) }"

text \<open>
  The value part of an encoded pointer: \<open>None\<close> inside the \<open>Some\<close> is the \<open>default\<close> branch of the
  switch, which leaves the cursor where it is.
\<close>

definition parse_encoded_value :: "mem \<Rightarrow> u8 \<Rightarrow> addr \<Rightarrow> (u64 \<times> addr) option option" where
  "parse_encoded_value m enc cursor =
     (if enc = DW_EH_PE_ptr then Some (FIRCLSParsePointerAndAdvance m cursor)
      else if enc = DW_EH_PE_uleb128 then Some (FIRCLSParseULEB128AndAdvance m cursor)
      else if enc = DW_EH_PE_udata2 then
        Some (do { (v, c) \<leftarrow> FIRCLSParseUint16AndAdvance m cursor; Some (ucast v, c) })
      else if enc = DW_EH_PE_udata4 then
        Some (do { (v, c) \<leftarrow> FIRCLSParseUint32AndAdvance m cursor; Some (ucast v, c) })
      else if enc = DW_EH_PE_udata8 then Some (FIRCLSParseUint64AndAdvance m cursor)
      else if enc = DW_EH_PE_sleb128 then Some (FIRCLSParseLEB128AndAdvance m cursor)
      else if enc = DW_EH_PE_sdata2 then
        Some (do { (v, c) \<leftarrow> FIRCLSParseInt16AndAdvance m cursor; Some (scast v, c) })
      else if enc = DW_EH_PE_sdata4 then
        Some (do { (v, c) \<leftarrow> FIRCLSParseInt32AndAdvance m cursor; Some (scast v, c) })
      else if enc = DW_EH_PE_sdata8 then Some (FIRCLSParseInt64AndAdvance m cursor)
      else None)"

definition FIRCLSParseAddressWithEncodingAndAdvance :: "mem \<Rightarrow> addr \<Rightarrow> u8 \<Rightarrow> (u64 \<times> addr) option" where
  "FIRCLSParseAddressWithEncodingAndAdvance m cursor encoding =
     (if encoding = DW_EH_PE_omit then Some (0, cursor)
      else if cursor = 0 then Some (CLS_INVALID_ADDRESS, cursor)
      else case parse_encoded_value m (encoding AND DW_EH_PE_VALUE_MASK) cursor of
        None \<Rightarrow> Some (CLS_INVALID_ADDRESS, cursor)
      | Some p \<Rightarrow> do {
          (addr, cursor') \<leftarrow> p;
          let rel = encoding AND DW_EH_PE_RELATIVE_OFFSET_MASK in
          if rel \<noteq> DW_EH_PE_absptr \<and> rel \<noteq> DW_EH_PE_pcrel then Some (CLS_INVALID_ADDRESS, cursor')
          else
            do {
              addr \<leftarrow> (if rel = DW_EH_PE_pcrel then int64_add addr cursor else Some addr);
              if encoding AND DW_EH_PE_indirect \<noteq> 0 then
                (if addr = 0 then Some (CLS_INVALID_ADDRESS, cursor')
                 else do { addr \<leftarrow> load_le 8 m addr; Some (addr, cursor') })
              else Some (addr, cursor') } })"

subsection \<open>LEB128: the specification and the unsigned reader\<close>

text \<open>The DWARF encoding of a natural number: seven bits a byte, the high bit set on all but the last.\<close>

fun uleb_bytes :: "nat \<Rightarrow> u8 list" where
  "uleb_bytes n = (if n < 128 then [of_nat n] else of_nat (n mod 128 + 128) # uleb_bytes (n div 128))"

declare uleb_bytes.simps [simp del]

lemma uleb_bytes_small: "n < 128 \<Longrightarrow> uleb_bytes n = [of_nat n]"
  by (subst uleb_bytes.simps) simp

lemma uleb_bytes_big: "128 \<le> n \<Longrightarrow> uleb_bytes n = of_nat (n mod 128 + 128) # uleb_bytes (n div 128)"
  by (subst uleb_bytes.simps) simp


lemma low7: "uint (0x7F AND b) = int (unat b mod 128)" for b :: u8
proof -
  have "0x7F AND b = take_bit 7 b"
    by (simp add: take_bit_eq_mask mask_eq_exp_minus_1 and.commute)
  then have "unat (0x7F AND b) = take_bit 7 (unat b)"
    by (simp only: unsigned_take_bit_eq)
  then have "unat (0x7F AND b) = unat b mod 128"
    by (simp add: take_bit_eq_mod)
  then show ?thesis by (metis of_nat_unat)
qed

lemma high1: "(0x80 AND b = 0) \<longleftrightarrow> unat b < 128" for b :: u8
proof -
  have "unat b < 2 ^ LENGTH(8)" by (rule unsigned_less)
  then have lt: "unat b < 256" by simp
  have "bit b 7 \<longleftrightarrow> bit (unat b) 7" by (simp add: bit_unsigned_iff)
  also have "\<dots> \<longleftrightarrow> 128 \<le> unat b"
  proof (cases "128 \<le> unat b")
    case True
    with lt have "unat b div 128 = 1" by (intro div_nat_eqI) auto
    with True show ?thesis by (simp add: bit_iff_odd)
  qed (simp add: bit_iff_odd)
  finally have "bit b 7 \<longleftrightarrow> 128 \<le> unat b" .
  moreover have "(b AND 2 ^ 7 = 0) \<longleftrightarrow> \<not> bit b 7" by (rule and_exp_eq_0_iff_not_bit)
  ultimately show ?thesis by (simp add: and.commute not_le)
qed



lemma bit_less_pow: "unat r < 2 ^ s \<Longrightarrow> bit r k \<Longrightarrow> k < s" for r :: "'a::len word"
proof -
  assume a: "unat r < 2 ^ s" "bit r k"
  then have "take_bit s (unat r) = unat r" by (simp add: take_bit_nat_eq_self)
  then have "take_bit s r = r" by (metis unsigned_take_bit_eq unsigned_word_eqI)
  with a(2) show "k < s" by (metis bit_take_bit_iff)
qed

lemma or_shifted:
  fixes r :: u64
  assumes "unat r < 2 ^ s"
  shows "r OR word_of_int (int (v * 2 ^ s)) = r + of_nat (v * 2 ^ s)"
proof -
  have "r AND push_bit s (of_nat v) = 0"
    using bit_less_pow [OF assms] by (intro bit_word_eqI) (auto simp: bit_simps dest!: bit_less_pow [OF assms])
  then have "r + push_bit s (of_nat v) = r OR push_bit s (of_nat v)"
    by (rule disjunctive_add_eq_or)
  moreover have "push_bit s (of_nat v) = (of_nat (v * 2 ^ s) :: u64)"
    by (simp add: push_bit_eq_mult)
  moreover have "(word_of_int (int (v * 2 ^ s)) :: u64) = of_nat (v * 2 ^ s)"
    by simp
  ultimately show ?thesis by metis
qed



lemma unat_add_of_nat:
  fixes r :: u64
  shows "unat r + x < 2 ^ 64 \<Longrightarrow> unat (r + of_nat x) = unat r + x"
  by (simp add: unat_word_ariths unat_of_nat)

lemma unat_or_shifted:
  fixes r :: u64
  assumes "unat r < 2 ^ s" "v < 128" "s < 32"
  shows "unat (r + of_nat (v * 2 ^ s)) < 2 ^ (s + 7)"
proof -
  have "v * 2 ^ s \<le> 127 * 2 ^ s" using assms(2) by (intro mult_le_mono1) simp
  moreover have "(2::nat) ^ (s + 7) = 128 * 2 ^ s" by (simp add: power_add)
  ultimately have *: "unat r + v * 2 ^ s < 2 ^ (s + 7)"
    using assms(1) by linarith
  have "(2::nat) ^ (s + 7) \<le> 2 ^ 64" using assms(3) by (intro power_increasing) auto
  with * have "unat r + v * 2 ^ s < 2 ^ 64" by linarith
  then have "unat (r + of_nat (v * 2 ^ s)) = unat r + v * 2 ^ s"
    by (rule unat_add_of_nat)
  with * show ?thesis by simp
qed

lemma int_shl_int:
  "int_shl (int v) s = (if s < 32 \<and> v * 2 ^ s < 2 ^ 31 then Some (int (v * 2 ^ s)) else None)"
proof -
  have "int (v * 2 ^ s) < int (2 ^ 31) \<longleftrightarrow> v * 2 ^ s < 2 ^ 31" by (rule of_nat_less_iff)
  then show ?thesis by (simp add: int_shl_def)
qed

lemma int_shl_nat: "s < 32 \<Longrightarrow> v * 2 ^ s < 2 ^ 31 \<Longrightarrow> int_shl (int v) s = Some (int (v * 2 ^ s))"
  by (simp only: int_shl_int simp_thms if_True)

lemma uleb_split: "(n mod 128) * 2 ^ s + (n div 128) * 2 ^ (s + 7) = n * 2 ^ s" for n s :: nat
proof -
  have "(n mod 128) * 2 ^ s + (n div 128) * 2 ^ (s + 7) = (n mod 128 + n div 128 * 128) * 2 ^ s"
    by (simp only: power_add add_mult_distrib) simp
  then show ?thesis by simp
qed

lemma uleb_loop_more:
  "m c = Some b \<Longrightarrow> int_shl (uint (0x7F AND b)) s = Some v \<Longrightarrow> 128 \<le> unat b \<Longrightarrow>
   FIRCLSParseULEB128_loop m (Suc k) r s c =
   FIRCLSParseULEB128_loop m k (r OR word_of_int v) (s + 7) (c + 1)"
  by (simp add: high1)

lemma uleb_loop_defined:
  assumes "load_bytes m c (length (uleb_bytes n)) = Some (uleb_bytes n)"
    and "unat r < 2 ^ s" "n * 2 ^ s < 2 ^ 31" "s < 32" "s + 7 * k = 56"
  shows "FIRCLSParseULEB128_loop m k r s c = Some (r + of_nat (n * 2 ^ s), c + of_nat (length (uleb_bytes n)))"
  using assms
proof (induction n arbitrary: r s c k rule: less_induct)
  case (less n)
  then obtain k' where k: "k = Suc k'" by (cases k) auto
  show ?case
  proof (cases "n < 128")
    case True
    with less.prems(1) have b: "m c = Some (of_nat n)"
      by (simp add: uleb_bytes_small bind_Some_iff)
    have "unat (of_nat n :: u8) = n" using True by (simp add: unat_of_nat)
    then show ?thesis
      using b k True or_shifted [OF less.prems(2), of n] int_shl_nat [OF less.prems(4,3)]
      by (simp add: low7 high1 uleb_bytes_small del: of_nat_mult of_nat_power)
  next
    case False
    then have big: "128 \<le> n" by simp
    let ?b = "of_nat (n mod 128 + 128) :: u8"
    from less.prems(1) have b: "m c = Some ?b"
      and rest: "load_bytes m (c + 1) (length (uleb_bytes (n div 128))) = Some (uleb_bytes (n div 128))"
      by (auto simp: uleb_bytes_big [OF big] bind_Some_iff)
    have ub: "unat ?b = n mod 128 + 128" by (simp add: unat_of_nat del: of_nat_add)
    have split: "(n mod 128) * 2 ^ s + (n div 128) * 2 ^ (s + 7) = n * 2 ^ s" by (rule uleb_split)
    have s7: "s + 7 < 32"
    proof (rule ccontr)
      assume "\<not> s + 7 < 32"
      then have "(2::nat) ^ 32 \<le> 2 ^ (s + 7)" by (intro power_increasing) auto
      moreover have "2 ^ (s + 7) \<le> (n div 128) * 2 ^ (s + 7)" using big by (simp add: Suc_le_eq)
      moreover have "(2::nat) ^ 31 < 2 ^ 32" by simp
      ultimately show False using less.prems(3) split by linarith
    qed
    have lt: "(n mod 128) * 2 ^ s < 2 ^ 31" "(n div 128) * 2 ^ (s + 7) < 2 ^ 31"
      using split less.prems(3) by linarith+
    have sh: "int_shl (uint (0x7F AND ?b)) s = Some (int (n mod 128 * 2 ^ s))"
      using int_shl_nat [OF less.prems(4) lt(1)] ub
      by (simp add: low7 del: of_nat_mult of_nat_power)
    have "FIRCLSParseULEB128_loop m k' (r + of_nat ((n mod 128) * 2 ^ s)) (s + 7) (c + 1)
        = Some (r + of_nat ((n mod 128) * 2 ^ s) + of_nat ((n div 128) * 2 ^ (s + 7)),
                c + 1 + of_nat (length (uleb_bytes (n div 128))))"
      using big rest lt(2) s7 less.prems(4,5) k
      by (intro less.IH unat_or_shifted less.prems(2)) auto
    moreover have "r + of_nat ((n mod 128) * 2 ^ s) + of_nat ((n div 128) * 2 ^ (s + 7)) = r + of_nat (n * 2 ^ s)"
      by (simp only: split [symmetric] of_nat_add add.assoc)
    moreover have "c + 1 + of_nat (length (uleb_bytes (n div 128))) = c + of_nat (length (uleb_bytes n))"
      unfolding uleb_bytes_big [OF big] by simp
    moreover have "128 \<le> unat ?b" unfolding ub by simp
    from b sh this have "FIRCLSParseULEB128_loop m (Suc k') r s c =
        FIRCLSParseULEB128_loop m k' (r OR word_of_int (int (n mod 128 * 2 ^ s))) (s + 7) (c + 1)"
      by (rule uleb_loop_more)
    ultimately show ?thesis by (simp only: k or_shifted [OF less.prems(2)])
  qed
qed

lemma uleb_loop_undefined:
  assumes "load_bytes m c (length (uleb_bytes n)) = Some (uleb_bytes n)"
    and "2 ^ 31 \<le> n * 2 ^ (7 * j)" "j + k = 8" "j \<le> 5"
  shows "FIRCLSParseULEB128_loop m k r (7 * j) c = None"
  using assms
proof (induction n arbitrary: r c j k rule: less_induct)
  case (less n)
  then obtain k' where k: "k = Suc k'" by (cases k) auto
  define b where "b = hd (uleb_bytes n)"
  have mc: "m c = Some b"
    using less.prems(1) by (cases "n < 128") (auto simp: uleb_bytes_small uleb_bytes_big b_def bind_Some_iff)
  have lowb: "uint (0x7F AND b) = int (n mod 128)"
    by (cases "n < 128")
      (simp_all add: low7 b_def uleb_bytes_small uleb_bytes_big unat_of_nat del: of_nat_add)
  show ?case
  proof (cases "7 * j < 32 \<and> (n mod 128) * 2 ^ (7 * j) < 2 ^ 31")
    case False
    then have "int_shl (int (n mod 128)) (7 * j) = None" by (simp only: int_shl_int if_False)
    with mc lowb k show ?thesis by simp
  next
    case True
    then have j: "j \<le> 4" by simp
    have big: "128 \<le> n"
    proof (rule ccontr)
      assume "\<not> 128 \<le> n"
      with True less.prems(2) show False by simp
    qed
    have hb: "0x80 AND b \<noteq> 0"
      using big by (simp add: high1 b_def uleb_bytes_big unat_of_nat del: of_nat_add)
    have rest: "load_bytes m (c + 1) (length (uleb_bytes (n div 128))) = Some (uleb_bytes (n div 128))"
      using less.prems(1) by (auto simp: uleb_bytes_big [OF big] bind_Some_iff)
    have "2 ^ 31 \<le> (n div 128) * 2 ^ (7 * Suc j)"
    proof (cases "j = 4")
      case True
      have "1 * 2 ^ 35 \<le> (n div 128) * 2 ^ (7 * Suc j)"
        using big True by (intro mult_le_mono) auto
      then show ?thesis by simp
    next
      case False
      with j have j3: "j \<le> 3" by simp
      define e where "e = 31 - 7 * Suc j"
      have e: "31 = e + 7 * Suc j" using j3 by (simp add: e_def)
      have "(2::nat) ^ (7 * Suc j) = 128 * 2 ^ (7 * j)" by (simp add: power_add)
      then have "(n mod 128) * 2 ^ (7 * j) < 2 ^ (7 * Suc j)" by simp
      moreover have "(n mod 128) * 2 ^ (7 * j) + (n div 128) * 2 ^ (7 * Suc j) = n * 2 ^ (7 * j)"
        using uleb_split [of n "7 * j"] by (simp add: add.commute)
      ultimately have "2 ^ 31 < (n div 128 + 1) * 2 ^ (7 * Suc j)"
        using less.prems(2) unfolding add_mult_distrib by linarith
      then have "2 ^ e * 2 ^ (7 * Suc j) < (n div 128 + 1) * 2 ^ (7 * Suc j)"
        unfolding e power_add .
      then have "2 ^ e < n div 128 + 1" by (simp only: mult_less_cancel2)
      then have "2 ^ e * 2 ^ (7 * Suc j) \<le> (n div 128) * 2 ^ (7 * Suc j)"
        by (intro mult_le_mono1) simp
      then show ?thesis unfolding e power_add .
    qed
    then have "FIRCLSParseULEB128_loop m k' (r + x) (7 * Suc j) (c + 1) = None" for x
      using big rest less.prems(3) j k by (intro less.IH) auto
    from this [of "- r + (r OR word_of_int (int (n mod 128 * 2 ^ (7 * j))))"]
    show ?thesis using mc lowb hb k True int_shl_nat [of "7 * j" "n mod 128"]
      by (simp add: add.commute del: of_nat_mult of_nat_power)
  qed
qed

subsection \<open>LEB128: the signed reader\<close>

function sleb_bytes :: "int \<Rightarrow> u8 list" where
  "sleb_bytes v =
     (if - 64 \<le> v \<and> v < 64 then [word_of_int (v mod 128)]
      else word_of_int (v mod 128 + 128) # sleb_bytes (v div 128))"
  by pat_completeness auto
termination
  by (relation "measure (\<lambda>v. nat \<bar>v\<bar>)") auto

declare sleb_bytes.simps [simp del]

lemma sleb_bytes_small: "- 64 \<le> v \<Longrightarrow> v < 64 \<Longrightarrow> sleb_bytes v = [word_of_int (v mod 128)]"
  by (subst sleb_bytes.simps) simp

lemma sleb_bytes_big:
  "\<not> (- 64 \<le> v \<and> v < 64) \<Longrightarrow> sleb_bytes v = word_of_int (v mod 128 + 128) # sleb_bytes (v div 128)"
  by (subst sleb_bytes.simps) simp

lemma unat_low_byte: "unat (word_of_int (v mod 128) :: u8) = nat (v mod 128)"
  by (simp add: unat_eq_nat_uint uint_word_of_int)

lemma unat_more_byte: "unat (word_of_int (v mod 128 + 128) :: u8) = nat (v mod 128) + 128"
proof -
  have "0 \<le> v mod 128" "v mod 128 < 128" by simp_all
  then have "uint (word_of_int (v mod 128 + 128) :: u8) = v mod 128 + 128"
    by (intro word_of_int_inverse) simp_all
  then show ?thesis by (simp add: unat_eq_nat_uint nat_add_distrib)
qed

lemma sign_bit7: "(0x40 AND b \<noteq> 0) \<longleftrightarrow> 64 \<le> unat b mod 128" for b :: u8
proof -
  have "bit b 6 \<longleftrightarrow> bit (unat b) 6" by (simp add: bit_unsigned_iff)
  also have "\<dots> \<longleftrightarrow> bit (unat b mod 128) 6"
    using bit_take_bit_iff [of 7 "unat b" 6] by (simp add: take_bit_eq_mod)
  also have "\<dots> \<longleftrightarrow> 64 \<le> unat b mod 128"
  proof (cases "64 \<le> unat b mod 128")
    case True
    have "unat b mod 128 < 128" by simp
    with True have "unat b mod 128 div 64 = 1" by (intro div_nat_eqI) auto
    with True show ?thesis by (simp add: bit_iff_odd)
  qed (simp add: bit_iff_odd)
  finally have "bit b 6 \<longleftrightarrow> 64 \<le> unat b mod 128" .
  moreover have "(b AND 2 ^ 6 = 0) \<longleftrightarrow> \<not> bit b 6" by (rule and_exp_eq_0_iff_not_bit)
  ultimately show ?thesis by (auto simp: and.commute)
qed


lemma or_shifted_int:
  fixes r :: u64
  assumes "unat r < 2 ^ s" "0 \<le> x"
  shows "r OR word_of_int (x * 2 ^ s) = r + word_of_int (x * 2 ^ s)"
proof -
  obtain n where x: "x = int n" using assms(2) nonneg_int_cases by blast
  have "int n * 2 ^ s = int (n * 2 ^ s)" by simp
  then show ?thesis using or_shifted [OF assms(1), of n] unfolding x
    by (simp only: of_int_of_nat_eq)
qed

lemma unat_or_shifted_int:
  fixes r :: u64
  assumes "unat r < 2 ^ s" "0 \<le> x" "x < 128" "s < 32"
  shows "unat (r + word_of_int (x * 2 ^ s)) < 2 ^ (s + 7)"
proof -
  obtain n where x: "x = int n" using assms(2) nonneg_int_cases by blast
  have "int n * 2 ^ s = int (n * 2 ^ s)" by simp
  then show ?thesis using unat_or_shifted [OF assms(1), of n] assms unfolding x
    by (simp only: of_int_of_nat_eq of_nat_less_iff)
qed

lemma low7_word:
  "uint (0x7F AND (word_of_int (v mod 128) :: u8)) = v mod 128"
  "uint (0x7F AND (word_of_int (v mod 128 + 128) :: u8)) = v mod 128"
proof -
  have "0 \<le> v mod 128" "v mod 128 < 128" by simp_all
  then have "nat (v mod 128) mod 128 = nat (v mod 128)" by (simp add: nat_less_iff)
  then show "uint (0x7F AND (word_of_int (v mod 128) :: u8)) = v mod 128"
    "uint (0x7F AND (word_of_int (v mod 128 + 128) :: u8)) = v mod 128"
    by (simp_all only: low7 unat_low_byte unat_more_byte mod_add_self2 int_nat_eq if_True \<open>0 \<le> v mod 128\<close>)
qed

lemma sleb_small_sign:
  assumes "- 64 \<le> v" "v < 64"
  shows "0x40 AND (word_of_int (v mod 128) :: u8) \<noteq> 0 \<longleftrightarrow> v < 0"
proof -
  have lt: "nat (v mod 128) < 128" by (simp add: nat_less_iff)
  show ?thesis
  proof (cases "v < 0")
    case True
    have "(v + 128) mod 128 = v + 128" using assms True by (intro mod_pos_pos_trivial) auto
    then have "64 \<le> nat (v mod 128)" using assms by simp
    then show ?thesis using True lt by (simp only: sign_bit7 unat_low_byte mod_less)
  next
    case False
    then have "v mod 128 = v" using assms by (intro mod_pos_pos_trivial) auto
    then have "\<not> 64 \<le> nat (v mod 128)" using assms by simp
    then show ?thesis using False lt by (simp only: sign_bit7 unat_low_byte mod_less)
  qed
qed

definition leb_fits :: "int \<Rightarrow> nat \<Rightarrow> bool" where
  "leb_fits v s \<longleftrightarrow> (if v < 0 then - (2 ^ 27) \<le> v * 2 ^ s \<and> s \<le> 21 else v * 2 ^ s < 2 ^ 31 \<and> s \<le> 28)"

lemma leb_fits_shl: "leb_fits v s \<Longrightarrow> int_shl (v mod 128) s = Some (v mod 128 * 2 ^ s)"
proof -
  assume f: "leb_fits v s"
  have s: "s < 32" using f by (auto simp: leb_fits_def split: if_splits)
  have "v mod 128 * 2 ^ s < 2 ^ 31"
  proof (cases "v < 0")
    case True
    then have "s \<le> 21" using f by (simp add: leb_fits_def)
    then have "(2::int) ^ s \<le> 2 ^ 21" by (intro power_increasing) auto
    moreover have "v mod 128 \<le> 128" by (simp add: less_imp_le)
    ultimately have "v mod 128 * 2 ^ s \<le> 128 * 2 ^ 21" by (intro mult_mono) auto
    then show ?thesis by simp
  next
    case False
    then have "v mod 128 \<le> v" by (intro zmod_le_nonneg_dividend) simp
    then have "v mod 128 * 2 ^ s \<le> v * 2 ^ s" by (intro mult_right_mono) auto
    moreover have "v * 2 ^ s < 2 ^ 31" using f False by (simp add: leb_fits_def)
    ultimately show ?thesis by linarith
  qed
  with s show ?thesis by (simp add: int_shl_def)
qed

lemma leb_fits_step:
  assumes f: "leb_fits v s" and big: "\<not> (- 64 \<le> v \<and> v < 64)" and s: "s + 7 * k = 56"
  shows "leb_fits (v div 128) (s + 7)"
proof -
  have pw: "(2::int) ^ (s + 7) = 128 * 2 ^ s" by (simp add: power_add)
  have split: "v mod 128 * 2 ^ s + v div 128 * 2 ^ (s + 7) = v * 2 ^ s"
  proof -
    have "v mod 128 * 2 ^ s + v div 128 * 2 ^ (s + 7) = (v mod 128 + v div 128 * 128) * 2 ^ s"
      unfolding pw by (simp only: distrib_right mult.assoc)
    then show ?thesis by simp
  qed
  have m: "0 \<le> v mod 128 * 2 ^ s" "v mod 128 * 2 ^ s < 128 * 2 ^ s" by simp_all
  show ?thesis
  proof (cases "v < 0")
    case True
    then have b: "v \<le> - 65" "- (2 ^ 27) \<le> v * 2 ^ s" "s \<le> 21" using big f by (auto simp: leb_fits_def)
    have s14: "s \<le> 14"
    proof (rule ccontr)
      assume "\<not> s \<le> 14"
      then have "s = 21" using b(3) s by presburger
      then show False using b by simp
    qed
    obtain e where e: "27 = e + (s + 7)" using s14 by (intro that [of "20 - s"]) simp
    have "- (2 ^ e * 2 ^ (s + 7)) \<le> v * 2 ^ s" using b(2) by (simp add: e power_add)
    then have "- (2 ^ e * 2 ^ (s + 7)) < (v div 128 + 1) * 2 ^ (s + 7)"
      using split m pw unfolding distrib_right by linarith
    then have "(- (2 ^ e)) * 2 ^ (s + 7) < (v div 128 + 1) * 2 ^ (s + 7)" by simp
    then have "- (2 ^ e) < v div 128 + 1" by (simp only: mult_less_cancel_right) auto
    then have "(- (2 ^ e)) * 2 ^ (s + 7) \<le> v div 128 * 2 ^ (s + 7)" by (intro mult_right_mono) auto
    then have "- (2 ^ 27) \<le> v div 128 * 2 ^ (s + 7)" by (simp add: e power_add)
    moreover have "v div 128 < 0" using True by simp
    ultimately show ?thesis using s14 by (simp add: leb_fits_def)
  next
    case False
    then have b: "64 \<le> v" "v * 2 ^ s < 2 ^ 31" using big f by (auto simp: leb_fits_def)
    have "s \<le> 21"
    proof (rule ccontr)
      assume "\<not> s \<le> 21"
      then have "28 \<le> s" using s by presburger
      then have "(2::int) ^ 28 \<le> 2 ^ s" by (intro power_increasing) auto
      then have "64 * 2 ^ 28 \<le> v * 2 ^ s" using b(1) by (intro mult_mono) auto
      with b(2) show False by simp
    qed
    moreover have "v div 128 * 2 ^ (s + 7) < 2 ^ 31" using split m b by linarith
    moreover have "0 \<le> v div 128" using b by (simp add: pos_imp_zdiv_nonneg_iff)
    ultimately show ?thesis by (simp add: leb_fits_def)
  qed
qed


lemma leb_last:
  "m c = Some b \<Longrightarrow> int_shl (uint (0x7F AND b)) s = Some x \<Longrightarrow> 0x80 AND b = 0 \<Longrightarrow>
   FIRCLSParseLEB128_loop m (Suc k) r s b0 c = Some (r OR word_of_int x, s + 7, b, c + 1)"
  by simp

lemma leb_more:
  "m c = Some b \<Longrightarrow> int_shl (uint (0x7F AND b)) s = Some x \<Longrightarrow> 0x80 AND b \<noteq> 0 \<Longrightarrow>
   FIRCLSParseLEB128_loop m (Suc k) r s b0 c =
   FIRCLSParseLEB128_loop m k (r OR word_of_int x) (s + 7) b (c + 1)"
  by simp

definition leb_result :: "u64 \<Rightarrow> int \<Rightarrow> nat \<Rightarrow> nat \<Rightarrow> u64" where
  "leb_result r v s sh = r + word_of_int (v * 2 ^ s + (if v < 0 then 2 ^ sh else 0))"

lemma leb_loop_defined:
  assumes "load_bytes m c (length (sleb_bytes v)) = Some (sleb_bytes v)"
    and "unat r < 2 ^ s" "leb_fits v s" "s + 7 * k = 56"
  shows "\<exists>sh b. FIRCLSParseLEB128_loop m k r s b0 c =
           Some (leb_result r v s sh, sh, b, c + of_nat (length (sleb_bytes v)))
         \<and> (0x40 AND b \<noteq> 0 \<longleftrightarrow> v < 0) \<and> (v < 0 \<longrightarrow> sh \<le> 28 \<and> unat (leb_result r v s sh) < 2 ^ sh)"
  using assms
proof (induction v arbitrary: r s c k b0 rule: sleb_bytes.induct)
  case (1 v)
  obtain k' where k: "k = Suc k'" using "1.prems"(3,4) by (cases k) (auto simp: leb_fits_def split: if_splits)
  have s32: "s < 32" using "1.prems"(3) by (auto simp: leb_fits_def split: if_splits)
  have shl: "int_shl (v mod 128) s = Some (v mod 128 * 2 ^ s)" by (rule leb_fits_shl [OF "1.prems"(3)])
  have r': "r OR word_of_int (v mod 128 * 2 ^ s) = r + word_of_int (v mod 128 * 2 ^ s)"
    by (rule or_shifted_int [OF "1.prems"(2)]) simp
  have ur': "unat (r + word_of_int (v mod 128 * 2 ^ s)) < 2 ^ (s + 7)"
    by (rule unat_or_shifted_int [OF "1.prems"(2) _ _ s32]) simp_all
  show ?case
  proof (cases "- 64 \<le> v \<and> v < 64")
    case True
    let ?b = "word_of_int (v mod 128) :: u8"
    have mc: "m c = Some ?b" using "1.prems"(1) True by (simp add: sleb_bytes_small bind_Some_iff)
    have "nat (v mod 128) < 128" by (simp add: nat_less_iff)
    then have hb: "0x80 AND ?b = 0" by (simp only: high1 unat_low_byte)
    have eq: "v mod 128 * 2 ^ s = v * 2 ^ s + (if v < 0 then 2 ^ (s + 7) else 0)"
    proof -
      have "v mod 128 = v + (if v < 0 then 128 else 0)"
      proof (cases "v < 0")
        case True
        have "(v + 128) mod 128 = v + 128" using \<open>- 64 \<le> v \<and> v < 64\<close> True by (intro mod_pos_pos_trivial) auto
        then show ?thesis using True by simp
      next
        case False
        then show ?thesis using \<open>- 64 \<le> v \<and> v < 64\<close> by simp
      qed
      then show ?thesis by (simp add: power_add distrib_right)
    qed
    have "FIRCLSParseLEB128_loop m k r s b0 c =
        Some (r + word_of_int (v mod 128 * 2 ^ s), s + 7, ?b, c + 1)"
      unfolding k r' [symmetric] by (rule leb_last) (simp_all only: mc low7_word shl hb)
    moreover have "leb_result r v s (s + 7) = r + word_of_int (v mod 128 * 2 ^ s)"
      by (simp only: leb_result_def eq)
    moreover have "v < 0 \<longrightarrow> s + 7 \<le> 28" using "1.prems"(3) by (simp add: leb_fits_def)
    ultimately show ?thesis
      using ur' sleb_small_sign [of v] True
      by (simp add: sleb_bytes_small)
  next
    case False
    let ?b = "word_of_int (v mod 128 + 128) :: u8"
    have mc: "m c = Some ?b"
      and rest: "load_bytes m (c + 1) (length (sleb_bytes (v div 128))) = Some (sleb_bytes (v div 128))"
      using "1.prems"(1) by (auto simp: sleb_bytes_big [OF False] bind_Some_iff)
    have hb: "0x80 AND ?b \<noteq> 0" by (simp only: high1 unat_more_byte)
    have fits: "leb_fits (v div 128) (s + 7)" using "1.prems"(3,4) False by (intro leb_fits_step)
    have "s + 7 + 7 * k' = 56" using "1.prems"(4) k by simp
    from "1.IH" [OF False rest ur' fits this, of ?b] obtain sh b where
      ih: "FIRCLSParseLEB128_loop m k' (r + word_of_int (v mod 128 * 2 ^ s)) (s + 7) ?b (c + 1) =
           Some (leb_result (r + word_of_int (v mod 128 * 2 ^ s)) (v div 128) (s + 7) sh, sh, b,
                 c + 1 + of_nat (length (sleb_bytes (v div 128))))"
      and sg: "0x40 AND b \<noteq> 0 \<longleftrightarrow> v div 128 < 0"
      and bd: "v div 128 < 0 \<longrightarrow> sh \<le> 28 \<and>
           unat (leb_result (r + word_of_int (v mod 128 * 2 ^ s)) (v div 128) (s + 7) sh) < 2 ^ sh"
      by blast
    have step: "FIRCLSParseLEB128_loop m k r s b0 c =
        FIRCLSParseLEB128_loop m k' (r + word_of_int (v mod 128 * 2 ^ s)) (s + 7) ?b (c + 1)"
      unfolding k r' [symmetric] by (rule leb_more) (simp_all only: mc low7_word shl hb simp_thms)
    have neg: "v div 128 < 0 \<longleftrightarrow> v < 0" by presburger
    have "v mod 128 * 2 ^ s + v div 128 * 2 ^ (s + 7) = v * 2 ^ s"
    proof -
      have "v mod 128 * 2 ^ s + v div 128 * 2 ^ (s + 7) = (v mod 128 + v div 128 * 128) * 2 ^ s"
        by (simp only: power_add distrib_right mult.assoc mult.commute [of "2 ^ s"]) simp
      then show ?thesis by simp
    qed
    then have res: "leb_result (r + word_of_int (v mod 128 * 2 ^ s)) (v div 128) (s + 7) sh = leb_result r v s sh"
      by (simp only: leb_result_def neg add.assoc of_int_add [symmetric]) (simp add: add.assoc [symmetric])
    have cur: "c + 1 + of_nat (length (sleb_bytes (v div 128))) = c + of_nat (length (sleb_bytes v))"
      unfolding sleb_bytes_big [OF False] by simp
    show ?thesis using ih sg bd unfolding step res cur neg by blast
  qed
qed

lemma or_sign_extend:
  fixes x :: u64
  assumes "unat x < 2 ^ sh"
  shows "x OR word_of_int (- (2 ^ sh)) = x + word_of_int (- (2 ^ sh))"
proof -
  have "x AND (- (2 ^ sh)) = 0"
    unfolding minus_exp_eq_not_mask
    by (intro bit_word_eqI) (auto simp: bit_simps dest!: bit_less_pow [OF assms])
  then have "x + (- (2 ^ sh)) = x OR (- (2 ^ sh))" by (rule disjunctive_add_eq_or)
  then show ?thesis by simp
qed

lemma leb_reads:
  assumes "- (2 ^ 27) \<le> v" "v < 2 ^ 31" "load_bytes m c (length (sleb_bytes v)) = Some (sleb_bytes v)"
  shows "FIRCLSParseLEB128AndAdvance m c = Some (word_of_int v, c + of_nat (length (sleb_bytes v)))"
proof -
  have "leb_fits v 0" using assms by (simp add: leb_fits_def)
  then obtain sh b where
    l: "FIRCLSParseLEB128_loop m 8 0 0 0 c = Some (leb_result 0 v 0 sh, sh, b, c + of_nat (length (sleb_bytes v)))"
    and sg: "0x40 AND b \<noteq> 0 \<longleftrightarrow> v < 0" and bd: "v < 0 \<longrightarrow> sh \<le> 28 \<and> unat (leb_result 0 v 0 sh) < 2 ^ sh"
    using leb_loop_defined [OF assms(3), of 0 0 8 0] by auto
  show ?thesis
  proof (cases "v < 0")
    case True
    with bd have sh: "sh \<le> 28" and u: "unat (leb_result 0 v 0 sh) < 2 ^ sh" by auto
    have "(2::int) ^ sh \<le> 2 ^ 28" using sh by (intro power_increasing) auto
    then have "int_shl 1 sh = Some (2 ^ sh)" using sh by (simp add: int_shl_def)
    moreover have "leb_result 0 v 0 sh OR word_of_int (- (2 ^ sh)) = word_of_int v"
      using or_sign_extend [OF u] True by (simp add: leb_result_def)
    ultimately show ?thesis using l sg sh True by (simp add: FIRCLSParseLEB128AndAdvance_def)
  next
    case False
    then show ?thesis using l sg by (simp add: FIRCLSParseLEB128AndAdvance_def leb_result_def)
  qed
qed

lemma uleb_reads:
  assumes "n < 2 ^ 31" "load_bytes m c (length (uleb_bytes n)) = Some (uleb_bytes n)"
  shows "FIRCLSParseULEB128AndAdvance m c = Some (of_nat n, c + of_nat (length (uleb_bytes n)))"
  using uleb_loop_defined [OF assms(2), of 0 0 8] assms(1)
  by (simp add: FIRCLSParseULEB128AndAdvance_def)

text \<open>Whatever they read, both readers consume between one and eight bytes.\<close>

lemma uleb_loop_advances:
  "FIRCLSParseULEB128_loop m k r s c = Some (v, c') \<Longrightarrow> \<exists>j\<le>k. (0 < k \<longrightarrow> 0 < j) \<and> c' = c + of_nat j"
proof (induction m k r s c rule: FIRCLSParseULEB128_loop.induct)
  case (2 m i r s c)
  from "2.prems" obtain b x where b: "m c = Some b" "int_shl (uint (0x7F AND b)) s = Some x"
    by (auto simp: bind_Some_iff)
  show ?case
  proof (cases "0x80 AND b = 0")
    case True
    then show ?thesis using "2.prems" b by (intro exI [of _ 1]) auto
  next
    case False
    then obtain j where "j \<le> i" "c' = c + 1 + of_nat j"
      using "2.IH" [OF b False] "2.prems" b by auto
    then show ?thesis by (intro exI [of _ "Suc j"]) (simp add: add.assoc)
  qed
qed simp

lemma leb_loop_advances:
  "FIRCLSParseLEB128_loop m k r s b c = Some (v, sh, b', c') \<Longrightarrow> \<exists>j\<le>k. (0 < k \<longrightarrow> 0 < j) \<and> c' = c + of_nat j"
proof (induction m k r s b c rule: FIRCLSParseLEB128_loop.induct)
  case (2 m i r s b0 c)
  from "2.prems" obtain b x where b: "m c = Some b" "int_shl (uint (0x7F AND b)) s = Some x"
    by (auto simp: bind_Some_iff)
  show ?case
  proof (cases "0x80 AND b = 0")
    case True
    then show ?thesis using "2.prems" b by (intro exI [of _ 1]) auto
  next
    case False
    then obtain j where "j \<le> i" "c' = c + 1 + of_nat j"
      using "2.IH" [OF b False] "2.prems" b by auto
    then show ?thesis by (intro exI [of _ "Suc j"]) (simp add: add.assoc)
  qed
qed simp

definition advances :: "nat \<Rightarrow> addr \<Rightarrow> addr \<Rightarrow> bool" where
  "advances k c c' \<longleftrightarrow> (\<exists>j\<le>k. 0 < j \<and> c' = c + of_nat j)"

lemma uleb_advances: "FIRCLSParseULEB128AndAdvance m c = Some (v, c') \<Longrightarrow> advances 8 c c'"
  unfolding FIRCLSParseULEB128AndAdvance_def advances_def by (drule uleb_loop_advances) auto

lemma leb_advances: "FIRCLSParseLEB128AndAdvance m c = Some (v, c') \<Longrightarrow> advances 8 c c'"
  unfolding FIRCLSParseLEB128AndAdvance_def advances_def
  by (auto simp: bind_Some_iff split: if_splits dest!: leb_loop_advances)

lemma uint_advances:
  "FIRCLSParseUint16AndAdvance m c = Some (v16, c') \<Longrightarrow> c' = c + 2"
  "FIRCLSParseInt16AndAdvance m c = Some (v16, c') \<Longrightarrow> c' = c + 2"
  "FIRCLSParseUint32AndAdvance m c = Some (v32, c') \<Longrightarrow> c' = c + 4"
  "FIRCLSParseInt32AndAdvance m c = Some (v32, c') \<Longrightarrow> c' = c + 4"
  "FIRCLSParseUint64AndAdvance m c = Some (v64, c') \<Longrightarrow> c' = c + 8"
  "FIRCLSParseInt64AndAdvance m c = Some (v64, c') \<Longrightarrow> c' = c + 8"
  "FIRCLSParsePointerAndAdvance m c = Some (v64, c') \<Longrightarrow> c' = c + 8"
  by (auto simp: FIRCLSParseUint16AndAdvance_def FIRCLSParseInt16AndAdvance_def
      FIRCLSParseUint32AndAdvance_def FIRCLSParseInt32AndAdvance_def FIRCLSParseUint64AndAdvance_def
      FIRCLSParseInt64AndAdvance_def FIRCLSParsePointerAndAdvance_def bind_Some_iff)

definition stays_near :: "nat \<Rightarrow> addr \<Rightarrow> addr \<Rightarrow> bool" where
  "stays_near k c c' \<longleftrightarrow> (\<exists>j\<le>k. c' = c + of_nat j)"

lemma stays_near_refl [simp]: "stays_near k c c"
  unfolding stays_near_def by (rule exI [of _ 0]) simp

lemma stays_near_trans: "stays_near i a b \<Longrightarrow> stays_near j b c \<Longrightarrow> i + j \<le> k \<Longrightarrow> stays_near k a c"
proof -
  assume a: "stays_near i a b" "stays_near j b c" "i + j \<le> k"
  then obtain x y where "x \<le> i" "y \<le> j" "b = a + of_nat x" "c = b + of_nat y"
    by (auto simp: stays_near_def)
  with a(3) show ?thesis unfolding stays_near_def by (intro exI [of _ "x + y"]) (simp add: add.assoc)
qed

lemma stays_near_add: "j \<le> k \<Longrightarrow> stays_near k c (c + of_nat j)"
  unfolding stays_near_def by blast

lemma stays_near_word: "unat w \<le> k \<Longrightarrow> stays_near k c (c + w)"
  unfolding stays_near_def by (rule exI [of _ "unat w"]) simp

lemma advances_stays_near: "advances k c c' \<Longrightarrow> stays_near k c c'"
  unfolding advances_def stays_near_def by blast

text \<open>A number the unsigned reader returns is below \<open>2 ^ 31\<close>.\<close>

lemma uleb_loop_bound:
  "FIRCLSParseULEB128_loop m k r s c = Some (v, c') \<Longrightarrow> (\<forall>n. bit r n \<longrightarrow> n < 31) \<Longrightarrow> (\<forall>n. bit v n \<longrightarrow> n < 31)"
proof (induction m k r s c rule: FIRCLSParseULEB128_loop.induct)
  case (2 m i r s c)
  from "2.prems"(1) obtain b x where b: "m c = Some b" "int_shl (uint (0x7F AND b)) s = Some x"
    by (auto simp: bind_Some_iff)
  then have x: "0 \<le> x" "x < 2 ^ 31" by (auto simp: int_shl_def split: if_splits)
  then have "unat (word_of_int x :: u64) < 2 ^ 31"
    by (simp add: unat_eq_nat_uint word_of_int_inverse nat_less_iff uint_word_of_int)
  then have r: "\<forall>n. bit (r OR word_of_int x) n \<longrightarrow> n < 31"
    using "2.prems"(2) bit_less_pow [of "word_of_int x :: u64" 31] unfolding bit_or_iff by blast
  show ?case
  proof (cases "0x80 AND b = 0")
    case True
    then show ?thesis using "2.prems"(1) b r by auto
  next
    case False
    then show ?thesis using "2.IH" [OF b False _ r] "2.prems"(1) b by simp
  qed
qed simp

lemma uleb_bound:
  assumes "FIRCLSParseULEB128AndAdvance m c = Some (v, c')"
  shows "unat v < 2 ^ 31"
proof -
  have "\<forall>n. bit v n \<longrightarrow> n < 31"
    using uleb_loop_bound [OF assms [unfolded FIRCLSParseULEB128AndAdvance_def]] by simp
  then have "take_bit 31 v = v" by (intro bit_word_eqI) (auto simp: bit_take_bit_iff)
  then have "unat v = take_bit 31 (unat v)" by (metis unsigned_take_bit_eq)
  also have "\<dots> < 2 ^ 31" by (rule take_bit_nat_less_exp)
  finally show ?thesis .
qed

lemma encoded_value_near:
  "parse_encoded_value m e c = Some (Some (v, c')) \<Longrightarrow> stays_near 8 c c'"
  by (auto simp: parse_encoded_value_def bind_Some_iff split: if_splits
      dest!: uint_advances uleb_advances leb_advances
      intro: advances_stays_near stays_near_add [of 2 8 c, simplified] stays_near_add [of 4 8 c, simplified]
        stays_near_add [of 8 8 c, simplified])

lemma address_near:
  "FIRCLSParseAddressWithEncodingAndAdvance m c e = Some (v, c') \<Longrightarrow> stays_near 8 c c'"
  by (auto simp: FIRCLSParseAddressWithEncodingAndAdvance_def bind_Some_iff Let_def
      split: if_splits option.splits dest: encoded_value_near)

lemma uint8_advances: "FIRCLSParseUint8AndAdvance m c = Some (v, c') \<Longrightarrow> c' = c + 1"
  by (auto simp: FIRCLSParseUint8AndAdvance_def bind_Some_iff)

lemma advances_step: "advances k c c' \<Longrightarrow> k + 1 \<le> n \<Longrightarrow> advances n (c - 1) c'"
  unfolding advances_def by (elim exE conjE, rule_tac x = "Suc j" in exI) simp

lemma advances_1: "0 < n \<Longrightarrow> advances n c (c + 1)"
  unfolding advances_def by (rule exI [of _ 1]) simp

lemma advances_mono: "advances k c c' \<Longrightarrow> k \<le> n \<Longrightarrow> advances n c c'"
  unfolding advances_def using order_trans by blast

subsection \<open>Strings\<close>

lemma c_strlen_load:
  "load_bytes m a (Suc n) = Some (s @ [0]) \<Longrightarrow> 0 \<notin> set s \<Longrightarrow> c_strlen m a = Some (of_nat (length s))"
proof (induction s arbitrary: a n)
  case Nil
  then show ?case by (subst c_strlen.simps) (auto simp: bind_Some_iff)
next
  case (Cons b s)
  from Cons.prems obtain n' where n: "n = Suc n'"
    by (cases n) (auto simp: bind_Some_iff)
  with Cons.prems have "m a = Some b" "b \<noteq> 0" "load_bytes m (a + 1) (Suc n') = Some (s @ [0])" "0 \<notin> set s"
    by (auto simp: bind_Some_iff)
  with Cons.IH [of "a + 1" n'] show ?case
    by (subst c_strlen.simps) (simp add: add.commute)
qed

subsection \<open>Properties\<close>

text \<open>C32 (roundtrip): the unsigned LEB128 reader inverts the DWARF encoding on every number below
  \<open>2 ^ 31\<close>: it returns the number and leaves the cursor just behind its last byte.\<close>

theorem uleb128_inverse:
  assumes "n < 2 ^ 31" "load_bytes m c (length (uleb_bytes n)) = Some (uleb_bytes n)"
  shows "FIRCLSParseULEB128AndAdvance m c = Some (of_nat n, c + of_nat (length (uleb_bytes n)))"
  using assms by (rule uleb_reads)

lemma uleb_624485: "uleb_bytes 624485 = [0xE5, 0x8E, 0x26]"
  by (simp add: uleb_bytes_big uleb_bytes_small)

theorem uleb128_inverse_witness:
  "FIRCLSParseULEB128AndAdvance (bytes_at 0x1000 [0xE5, 0x8E, 0x26]) 0x1000 = Some (624485, 0x1003)"
  using uleb128_inverse [of 624485 "bytes_at 0x1000 [0xE5, 0x8E, 0x26]" "0x1000"]
    load_bytes_at [of "[0xE5, 0x8E, 0x26]" "0x1000"]
  by (simp add: uleb_624485)

text \<open>C39 (error): beyond that bound the reader has no defined behaviour: the encoding of every
  \<open>n \<ge> 2 ^ 31\<close>, which is legal DWARF for a 64-bit field, makes \<open>(0x7F & byte) << shift\<close> overflow \<open>int\<close>.\<close>

theorem uleb128_undefined:
  assumes "2 ^ 31 \<le> n" "load_bytes m c (length (uleb_bytes n)) = Some (uleb_bytes n)"
  shows "FIRCLSParseULEB128AndAdvance m c = None"
  using uleb_loop_undefined [OF assms(2), of 0 8 0] assms(1)
  by (simp add: FIRCLSParseULEB128AndAdvance_def)

lemma uleb_2_31: "uleb_bytes 2147483648 = [0x80, 0x80, 0x80, 0x80, 0x08]"
  by (simp add: uleb_bytes_big uleb_bytes_small)

theorem uleb128_undefined_witness:
  "FIRCLSParseULEB128AndAdvance (bytes_at 0x1000 [0x80, 0x80, 0x80, 0x80, 0x08]) 0x1000 = None"
  using uleb128_undefined [of 2147483648 "bytes_at 0x1000 [0x80, 0x80, 0x80, 0x80, 0x08]" "0x1000"]
    load_bytes_at [of "[0x80, 0x80, 0x80, 0x80, 0x08]" "0x1000"]
  by (simp add: uleb_2_31)

text \<open>The signed LEB128 reader inverts the DWARF encoding of every number from
  \<open>- 2 ^ 27\<close> to \<open>2 ^ 31 - 1\<close>, sign extension included.\<close>

theorem leb128_inverse:
  assumes "- (2 ^ 27) \<le> v" "v < 2 ^ 31" "load_bytes m c (length (sleb_bytes v)) = Some (sleb_bytes v)"
  shows "FIRCLSParseLEB128AndAdvance m c = Some (word_of_int v, c + of_nat (length (sleb_bytes v)))"
  using assms by (rule leb_reads)

lemma sleb_m123456: "sleb_bytes (- 123456) = [0xC0, 0xBB, 0x78]"
  by (simp add: sleb_bytes_big sleb_bytes_small)

theorem leb128_inverse_witness:
  "FIRCLSParseLEB128AndAdvance (bytes_at 0x1000 [0xC0, 0xBB, 0x78]) 0x1000 = Some (- 123456, 0x1003)"
  using leb128_inverse [of "- 123456" "bytes_at 0x1000 [0xC0, 0xBB, 0x78]" "0x1000"]
    load_bytes_at [of "[0xC0, 0xBB, 0x78]" "0x1000"]
  by (simp add: sleb_m123456)

end
