(* ===== verification/ThreadState.thy ===== *)
theory ThreadState
  imports Prelude
begin

section \<open>Thread contexts and register access (FIRCLSThreadState.c)\<close>

text \<open>
  The register file of an interrupted thread: \<open>Helpers/FIRCLSThreadState.c\<close> and the two functions that
  number its registers the DWARF way, \<open>FIRCLSDwarfUnwindGetRegisterValue\<close> and
  \<open>FIRCLSDwarfUnwindSetRegisterValue\<close> of \<open>Unwind/FIRCLSUnwind_x86.c\<close> and \<open>Unwind/FIRCLSUnwind_arm.c\<close>.

  The unwinder is compiled once per architecture, with macros and functions chosen by \<open>#if\<close>; here an
  architecture is a value of the record \<open>arch\<close>, over the type of its thread context, and every
  definition of the unwinder takes one.  The two 64-bit architectures the DWARF unwinder supports are
  modelled: \<open>arch_x86_64\<close> and \<open>arch_arm64\<close>.  The accessors \<open>arm_thread_state64_get_pc\<close> and so on belong
  to the SDK, not to the repository: they are the parameter \<open>arm64_sdk\<close>, and what the code relies on
  (a getter returns what the setter stored, and setters do not interfere) is \<open>arm64_sdk_laws\<close>.

  A pointer to a thread context is an \<open>option\<close>, \<open>None\<close> for a \<open>NULL\<close> pointer: it makes the accessors
  return 0 or false and the DWARF functions, which do not check it, undefined.

  The locale \<open>register_file\<close> is what the DWARF unwinder relies on; both architectures satisfy it.
\<close>

subsection \<open>Pointers\<close>

definition FIRCLSIsValidPointer :: "addr \<Rightarrow> bool" where
  "FIRCLSIsValidPointer p \<longleftrightarrow> 4096 \<le> p"

text \<open>\<open>vm_read_overwrite\<close> copies mapped memory and fails, rather than faults, on the rest.\<close>

definition FIRCLSReadMemory :: "mem \<Rightarrow> addr \<Rightarrow> nat \<Rightarrow> u8 list option" where
  "FIRCLSReadMemory m src len = (if FIRCLSIsValidPointer src then load_bytes m src len else None)"

definition FIRCLSReadMemory_word :: "mem \<Rightarrow> addr \<Rightarrow> u64 option" where
  "FIRCLSReadMemory_word m src = map_option word_of_le (FIRCLSReadMemory m src 8)"

subsection \<open>Architectures\<close>

record 'r arch =
  DWARF_MAX_REGISTER_NUM :: u64
  DWARF_REG_SP :: u64
  DWARF_REG_RETURN :: u64
  GET_IP_REGISTER :: "'r \<Rightarrow> u64"
  GET_FP_REGISTER :: "'r \<Rightarrow> u64"
  GET_SP_REGISTER :: "'r \<Rightarrow> u64"
  GET_LR_REGISTER :: "'r \<Rightarrow> u64"
  SET_IP_REGISTER :: "'r \<Rightarrow> u64 \<Rightarrow> 'r"
  SET_FP_REGISTER :: "'r \<Rightarrow> u64 \<Rightarrow> 'r"
  SET_SP_REGISTER :: "'r \<Rightarrow> u64 \<Rightarrow> 'r"
  SET_LR_REGISTER :: "'r \<Rightarrow> u64 \<Rightarrow> 'r"
  DWARF_GET_REGISTER :: "'r \<Rightarrow> u64 \<Rightarrow> u64"
  DWARF_SET_REGISTER :: "'r \<Rightarrow> u64 \<Rightarrow> u64 \<Rightarrow> 'r \<times> bool"

definition FIRCLSThreadContextGetPC :: "'r arch \<Rightarrow> 'r option \<Rightarrow> u64" where
  "FIRCLSThreadContextGetPC A registers =
     (case registers of None \<Rightarrow> 0 | Some r \<Rightarrow> GET_IP_REGISTER A r)"

definition FIRCLSThreadContextGetStackPointer :: "'r arch \<Rightarrow> 'r option \<Rightarrow> u64" where
  "FIRCLSThreadContextGetStackPointer A registers =
     (case registers of None \<Rightarrow> 0 | Some r \<Rightarrow> GET_SP_REGISTER A r)"

definition FIRCLSThreadContextSetStackPointer :: "'r arch \<Rightarrow> 'r option \<Rightarrow> u64 \<Rightarrow> 'r option \<times> bool" where
  "FIRCLSThreadContextSetStackPointer A registers value =
     (case registers of None \<Rightarrow> (None, False) | Some r \<Rightarrow> (Some (SET_SP_REGISTER A r value), True))"

definition FIRCLSThreadContextGetLinkRegister :: "'r arch \<Rightarrow> 'r option \<Rightarrow> u64" where
  "FIRCLSThreadContextGetLinkRegister A registers =
     (case registers of None \<Rightarrow> 0 | Some r \<Rightarrow> GET_LR_REGISTER A r)"

definition FIRCLSThreadContextSetLinkRegister :: "'r arch \<Rightarrow> 'r option \<Rightarrow> u64 \<Rightarrow> 'r option \<times> bool" where
  "FIRCLSThreadContextSetLinkRegister A registers value =
     (case registers of None \<Rightarrow> (None, False) | Some r \<Rightarrow> (Some (SET_LR_REGISTER A r value), True))"

definition FIRCLSThreadContextSetPC :: "'r arch \<Rightarrow> 'r option \<Rightarrow> u64 \<Rightarrow> 'r option \<times> bool" where
  "FIRCLSThreadContextSetPC A registers value =
     (case registers of None \<Rightarrow> (None, False) | Some r \<Rightarrow> (Some (SET_IP_REGISTER A r value), True))"

definition FIRCLSThreadContextGetFramePointer :: "'r arch \<Rightarrow> 'r option \<Rightarrow> u64" where
  "FIRCLSThreadContextGetFramePointer A registers =
     (case registers of None \<Rightarrow> 0 | Some r \<Rightarrow> GET_FP_REGISTER A r)"

definition FIRCLSThreadContextSetFramePointer :: "'r arch \<Rightarrow> 'r option \<Rightarrow> u64 \<Rightarrow> 'r option \<times> bool" where
  "FIRCLSThreadContextSetFramePointer A registers value =
     (case registers of None \<Rightarrow> (None, False) | Some r \<Rightarrow> (Some (SET_FP_REGISTER A r value), True))"

lemmas thread_context_defs =
  FIRCLSThreadContextGetPC_def FIRCLSThreadContextGetStackPointer_def
  FIRCLSThreadContextSetStackPointer_def FIRCLSThreadContextGetLinkRegister_def
  FIRCLSThreadContextSetLinkRegister_def FIRCLSThreadContextSetPC_def
  FIRCLSThreadContextGetFramePointer_def FIRCLSThreadContextSetFramePointer_def

text \<open>The DWARF accessors dereference the context without a check.\<close>

definition FIRCLSDwarfUnwindGetRegisterValue :: "'r arch \<Rightarrow> 'r option \<Rightarrow> u64 \<Rightarrow> u64 option" where
  "FIRCLSDwarfUnwindGetRegisterValue A registers num =
     do { r \<leftarrow> registers; Some (DWARF_GET_REGISTER A r num) }"

definition FIRCLSDwarfUnwindSetRegisterValue ::
  "'r arch \<Rightarrow> 'r option \<Rightarrow> u64 \<Rightarrow> u64 \<Rightarrow> ('r option \<times> bool) option" where
  "FIRCLSDwarfUnwindSetRegisterValue A registers num value =
     do { r \<leftarrow> registers; let (r', ok) = DWARF_SET_REGISTER A r num value in Some (Some r', ok) }"

subsection \<open>x86-64\<close>

record x86_thread_state64 =
  ss_rax :: u64
  ss_rdx :: u64
  ss_rcx :: u64
  ss_rbx :: u64
  ss_rsi :: u64
  ss_rdi :: u64
  ss_rbp :: u64
  ss_rsp :: u64
  ss_r8 :: u64
  ss_r9 :: u64
  ss_r10 :: u64
  ss_r11 :: u64
  ss_r12 :: u64
  ss_r13 :: u64
  ss_r14 :: u64
  ss_r15 :: u64
  ss_rip :: u64

definition x86_64_get_register :: "x86_thread_state64 \<Rightarrow> u64 \<Rightarrow> u64" where
  "x86_64_get_register r num =
     (if num = 0 then ss_rax r
      else if num = 1 then ss_rdx r
      else if num = 2 then ss_rcx r
      else if num = 3 then ss_rbx r
      else if num = 4 then ss_rsi r
      else if num = 5 then ss_rdi r
      else if num = 6 then ss_rbp r
      else if num = 7 then ss_rsp r
      else if num = 8 then ss_r8 r
      else if num = 9 then ss_r9 r
      else if num = 10 then ss_r10 r
      else if num = 11 then ss_r11 r
      else if num = 12 then ss_r12 r
      else if num = 13 then ss_r13 r
      else if num = 14 then ss_r14 r
      else if num = 15 then ss_r15 r
      else if num = 16 then ss_rip r
      else 0)"

definition x86_64_set_register ::
  "x86_thread_state64 \<Rightarrow> u64 \<Rightarrow> u64 \<Rightarrow> x86_thread_state64 \<times> bool" where
  "x86_64_set_register r num value =
     (if num = 0 then (r\<lparr>ss_rax := value\<rparr>, True)
      else if num = 1 then (r\<lparr>ss_rdx := value\<rparr>, True)
      else if num = 2 then (r\<lparr>ss_rcx := value\<rparr>, True)
      else if num = 3 then (r\<lparr>ss_rbx := value\<rparr>, True)
      else if num = 4 then (r\<lparr>ss_rsi := value\<rparr>, True)
      else if num = 5 then (r\<lparr>ss_rdi := value\<rparr>, True)
      else if num = 6 then (r\<lparr>ss_rbp := value\<rparr>, True)
      else if num = 7 then (r\<lparr>ss_rsp := value\<rparr>, True)
      else if num = 8 then (r\<lparr>ss_r8 := value\<rparr>, True)
      else if num = 9 then (r\<lparr>ss_r9 := value\<rparr>, True)
      else if num = 10 then (r\<lparr>ss_r10 := value\<rparr>, True)
      else if num = 11 then (r\<lparr>ss_r11 := value\<rparr>, True)
      else if num = 12 then (r\<lparr>ss_r12 := value\<rparr>, True)
      else if num = 13 then (r\<lparr>ss_r13 := value\<rparr>, True)
      else if num = 14 then (r\<lparr>ss_r14 := value\<rparr>, True)
      else if num = 15 then (r\<lparr>ss_r15 := value\<rparr>, True)
      else if num = 16 then (r\<lparr>ss_rip := value\<rparr>, True)
      else (r, False))"

definition arch_x86_64 :: "x86_thread_state64 arch" where
  "arch_x86_64 = \<lparr>
     DWARF_MAX_REGISTER_NUM = 16,
     DWARF_REG_SP = 7,
     DWARF_REG_RETURN = 16,
     GET_IP_REGISTER = ss_rip,
     GET_FP_REGISTER = ss_rbp,
     GET_SP_REGISTER = ss_rsp,
     GET_LR_REGISTER = (\<lambda>r. 0),
     SET_IP_REGISTER = (\<lambda>r v. r\<lparr>ss_rip := v\<rparr>),
     SET_FP_REGISTER = (\<lambda>r v. r\<lparr>ss_rbp := v\<rparr>),
     SET_SP_REGISTER = (\<lambda>r v. r\<lparr>ss_rsp := v\<rparr>),
     SET_LR_REGISTER = (\<lambda>r v. r),
     DWARF_GET_REGISTER = x86_64_get_register,
     DWARF_SET_REGISTER = x86_64_set_register \<rparr>"

subsection \<open>arm64\<close>

text \<open>\<open>'s\<close> is the SDK's \<open>arm_thread_state64_t\<close>; \<open>sdk_x\<close> reads and \<open>sdk_set_x\<close> writes the array member
  \<open>__x\<close> of \<open>X0\<close> to \<open>X28\<close>.\<close>

record 's arm64_sdk =
  sdk_x :: "'s \<Rightarrow> nat \<Rightarrow> u64"
  sdk_set_x :: "'s \<Rightarrow> nat \<Rightarrow> u64 \<Rightarrow> 's"
  arm_thread_state64_get_pc :: "'s \<Rightarrow> u64"
  arm_thread_state64_get_fp :: "'s \<Rightarrow> u64"
  arm_thread_state64_get_sp :: "'s \<Rightarrow> u64"
  arm_thread_state64_get_lr :: "'s \<Rightarrow> u64"
  arm_thread_state64_set_pc_fptr :: "'s \<Rightarrow> u64 \<Rightarrow> 's"
  arm_thread_state64_set_fp :: "'s \<Rightarrow> u64 \<Rightarrow> 's"
  arm_thread_state64_set_sp :: "'s \<Rightarrow> u64 \<Rightarrow> 's"
  arm_thread_state64_set_lr_fptr :: "'s \<Rightarrow> u64 \<Rightarrow> 's"

definition CLS_PTRAUTH_STRIP :: "u64 \<Rightarrow> u64" where
  "CLS_PTRAUTH_STRIP pointer = pointer AND 0x0000000FFFFFFFFF"

definition arm64_get_register :: "'s arm64_sdk \<Rightarrow> 's \<Rightarrow> u64 \<Rightarrow> u64" where
  "arm64_get_register K r num =
     (if num \<le> 28 then sdk_x K r (unat num)
      else if num = 29 then CLS_PTRAUTH_STRIP (arm_thread_state64_get_fp K r)
      else if num = 30 then CLS_PTRAUTH_STRIP (arm_thread_state64_get_lr K r)
      else if num = 31 then CLS_PTRAUTH_STRIP (arm_thread_state64_get_sp K r)
      else 0)"

definition arm64_set_register :: "'s arm64_sdk \<Rightarrow> 's \<Rightarrow> u64 \<Rightarrow> u64 \<Rightarrow> 's \<times> bool" where
  "arm64_set_register K r num value =
     (if num \<le> 28 then (sdk_set_x K r (unat num) value, True)
      else if num = 29 then (arm_thread_state64_set_fp K r value, True)
      else if num = 31 then (arm_thread_state64_set_sp K r value, True)
      else if num = 30 then
        (arm_thread_state64_set_pc_fptr K (arm_thread_state64_set_lr_fptr K r value) value, True)
      else (r, False))"

definition arch_arm64 :: "'s arm64_sdk \<Rightarrow> 's arch" where
  "arch_arm64 K = \<lparr>
     DWARF_MAX_REGISTER_NUM = 31,
     DWARF_REG_SP = 31,
     DWARF_REG_RETURN = 30,
     GET_IP_REGISTER = (\<lambda>r. CLS_PTRAUTH_STRIP (arm_thread_state64_get_pc K r)),
     GET_FP_REGISTER = (\<lambda>r. CLS_PTRAUTH_STRIP (arm_thread_state64_get_fp K r)),
     GET_SP_REGISTER = (\<lambda>r. CLS_PTRAUTH_STRIP (arm_thread_state64_get_sp K r)),
     GET_LR_REGISTER = (\<lambda>r. CLS_PTRAUTH_STRIP (arm_thread_state64_get_lr K r)),
     SET_IP_REGISTER = arm_thread_state64_set_pc_fptr K,
     SET_FP_REGISTER = arm_thread_state64_set_fp K,
     SET_SP_REGISTER = arm_thread_state64_set_sp K,
     SET_LR_REGISTER = arm_thread_state64_set_lr_fptr K,
     DWARF_GET_REGISTER = arm64_get_register K,
     DWARF_SET_REGISTER = arm64_set_register K \<rparr>"

text \<open>What the code relies on of the SDK: a getter sees the last write of its own setter and no other.\<close>

definition arm64_sdk_laws :: "'s arm64_sdk \<Rightarrow> bool" where
  "arm64_sdk_laws K \<longleftrightarrow>
     (\<forall>s v i j. i \<le> 28 \<longrightarrow> j \<le> 28 \<longrightarrow> sdk_x K (sdk_set_x K s i v) j = (if j = i then v else sdk_x K s j)) \<and>
     (\<forall>s v i. sdk_x K (arm_thread_state64_set_pc_fptr K s v) i = sdk_x K s i \<and>
              sdk_x K (arm_thread_state64_set_fp K s v) i = sdk_x K s i \<and>
              sdk_x K (arm_thread_state64_set_sp K s v) i = sdk_x K s i \<and>
              sdk_x K (arm_thread_state64_set_lr_fptr K s v) i = sdk_x K s i) \<and>
     (\<forall>s v i. arm_thread_state64_get_pc K (sdk_set_x K s i v) = arm_thread_state64_get_pc K s \<and>
              arm_thread_state64_get_pc K (arm_thread_state64_set_pc_fptr K s v) = v \<and>
              arm_thread_state64_get_pc K (arm_thread_state64_set_fp K s v) = arm_thread_state64_get_pc K s \<and>
              arm_thread_state64_get_pc K (arm_thread_state64_set_sp K s v) = arm_thread_state64_get_pc K s \<and>
              arm_thread_state64_get_pc K (arm_thread_state64_set_lr_fptr K s v) = arm_thread_state64_get_pc K s) \<and>
     (\<forall>s v i. arm_thread_state64_get_fp K (sdk_set_x K s i v) = arm_thread_state64_get_fp K s \<and>
              arm_thread_state64_get_fp K (arm_thread_state64_set_fp K s v) = v \<and>
              arm_thread_state64_get_fp K (arm_thread_state64_set_pc_fptr K s v) = arm_thread_state64_get_fp K s \<and>
              arm_thread_state64_get_fp K (arm_thread_state64_set_sp K s v) = arm_thread_state64_get_fp K s \<and>
              arm_thread_state64_get_fp K (arm_thread_state64_set_lr_fptr K s v) = arm_thread_state64_get_fp K s) \<and>
     (\<forall>s v i. arm_thread_state64_get_sp K (sdk_set_x K s i v) = arm_thread_state64_get_sp K s \<and>
              arm_thread_state64_get_sp K (arm_thread_state64_set_sp K s v) = v \<and>
              arm_thread_state64_get_sp K (arm_thread_state64_set_pc_fptr K s v) = arm_thread_state64_get_sp K s \<and>
              arm_thread_state64_get_sp K (arm_thread_state64_set_fp K s v) = arm_thread_state64_get_sp K s \<and>
              arm_thread_state64_get_sp K (arm_thread_state64_set_lr_fptr K s v) = arm_thread_state64_get_sp K s) \<and>
     (\<forall>s v i. arm_thread_state64_get_lr K (sdk_set_x K s i v) = arm_thread_state64_get_lr K s \<and>
              arm_thread_state64_get_lr K (arm_thread_state64_set_lr_fptr K s v) = v \<and>
              arm_thread_state64_get_lr K (arm_thread_state64_set_pc_fptr K s v) = arm_thread_state64_get_lr K s \<and>
              arm_thread_state64_get_lr K (arm_thread_state64_set_fp K s v) = arm_thread_state64_get_lr K s \<and>
              arm_thread_state64_get_lr K (arm_thread_state64_set_sp K s v) = arm_thread_state64_get_lr K s)"

text \<open>The accessors of a build without pointer authentication: plain members.\<close>

record arm_thread_state64 =
  ss_x :: "nat \<Rightarrow> u64"
  ss_fp :: u64
  ss_lr :: u64
  ss_sp :: u64
  ss_pc :: u64

definition plain_sdk :: "arm_thread_state64 arm64_sdk" where
  "plain_sdk = \<lparr>
     sdk_x = ss_x,
     sdk_set_x = (\<lambda>s i v. s\<lparr>ss_x := (ss_x s)(i := v)\<rparr>),
     arm_thread_state64_get_pc = ss_pc,
     arm_thread_state64_get_fp = ss_fp,
     arm_thread_state64_get_sp = ss_sp,
     arm_thread_state64_get_lr = ss_lr,
     arm_thread_state64_set_pc_fptr = (\<lambda>s v. s\<lparr>ss_pc := v\<rparr>),
     arm_thread_state64_set_fp = (\<lambda>s v. s\<lparr>ss_fp := v\<rparr>),
     arm_thread_state64_set_sp = (\<lambda>s v. s\<lparr>ss_sp := v\<rparr>),
     arm_thread_state64_set_lr_fptr = (\<lambda>s v. s\<lparr>ss_lr := v\<rparr>) \<rparr>"

lemma plain_sdk_laws: "arm64_sdk_laws plain_sdk"
  by (simp add: arm64_sdk_laws_def plain_sdk_def)

subsection \<open>The register file as the DWARF unwinder uses it\<close>

text \<open>
  \<open>norm n v\<close> is what reading register \<open>n\<close> gives after writing \<open>v\<close> to it: the value itself, or the value
  without its pointer authentication bits.
\<close>

locale register_file =
  fixes A :: "'r arch"
    and norm :: "u64 \<Rightarrow> u64 \<Rightarrow> u64"
  assumes set_ok: "snd (DWARF_SET_REGISTER A r n v) \<longleftrightarrow> n \<le> DWARF_MAX_REGISTER_NUM A"
    and set_fail: "DWARF_MAX_REGISTER_NUM A < n \<Longrightarrow> fst (DWARF_SET_REGISTER A r n v) = r"
    and get_same: "n \<le> DWARF_MAX_REGISTER_NUM A \<Longrightarrow>
      DWARF_GET_REGISTER A (fst (DWARF_SET_REGISTER A r n v)) n = norm n v"
    and get_other: "k \<noteq> n \<Longrightarrow>
      DWARF_GET_REGISTER A (fst (DWARF_SET_REGISTER A r n v)) k = DWARF_GET_REGISTER A r k"
    and get_unknown: "DWARF_MAX_REGISTER_NUM A < n \<Longrightarrow> DWARF_GET_REGISTER A r n = 0"
    and pc_return: "GET_IP_REGISTER A (fst (DWARF_SET_REGISTER A r (DWARF_REG_RETURN A) v)) = norm (DWARF_REG_RETURN A) v"
    and pc_other: "n \<noteq> DWARF_REG_RETURN A \<Longrightarrow>
      GET_IP_REGISTER A (fst (DWARF_SET_REGISTER A r n v)) = GET_IP_REGISTER A r"
    and sp_register: "GET_SP_REGISTER A r = DWARF_GET_REGISTER A r (DWARF_REG_SP A)"
    and special: "DWARF_REG_RETURN A \<le> DWARF_MAX_REGISTER_NUM A"
      "DWARF_REG_SP A \<le> DWARF_MAX_REGISTER_NUM A" "DWARF_REG_SP A \<noteq> DWARF_REG_RETURN A"
    and max_small: "DWARF_MAX_REGISTER_NUM A < 32"
begin

text \<open>Writing a list of registers, in order, the way the unwinder restores a frame.\<close>

definition write_all :: "(u64 \<times> u64) list \<Rightarrow> 'r \<Rightarrow> 'r" where
  "write_all ws r = foldl (\<lambda>r (n, v). fst (DWARF_SET_REGISTER A r n v)) r ws"

lemma write_all_simps [simp]:
  "write_all [] r = r"
  "write_all ((n, v) # ws) r = write_all ws (fst (DWARF_SET_REGISTER A r n v))"
  by (simp_all add: write_all_def)

lemma write_all_other: "k \<notin> fst ` set ws \<Longrightarrow> DWARF_GET_REGISTER A (write_all ws r) k = DWARF_GET_REGISTER A r k"
  by (induction ws arbitrary: r) (auto simp: get_other)

lemma write_all_written:
  "distinct (map fst ws) \<Longrightarrow> (n, v) \<in> set ws \<Longrightarrow> n \<le> DWARF_MAX_REGISTER_NUM A \<Longrightarrow>
   DWARF_GET_REGISTER A (write_all ws r) n = norm n v"
proof (induction ws arbitrary: r)
  case (Cons w ws)
  obtain k x where w: "w = (k, x)" by (cases w)
  show ?case
  proof (cases "k = n")
    case True
    with Cons.prems w have "n \<notin> fst ` set ws" "x = v" by force+
    then show ?thesis using True w Cons.prems by (simp add: write_all_other get_same)
  next
    case False
    then show ?thesis using Cons w by auto
  qed
qed simp

lemma write_all_pc_other:
  "DWARF_REG_RETURN A \<notin> fst ` set ws \<Longrightarrow> GET_IP_REGISTER A (write_all ws r) = GET_IP_REGISTER A r"
  by (induction ws arbitrary: r) (auto simp: pc_other)

lemma write_all_pc:
  "distinct (map fst ws) \<Longrightarrow> (DWARF_REG_RETURN A, v) \<in> set ws \<Longrightarrow>
   GET_IP_REGISTER A (write_all ws r) = norm (DWARF_REG_RETURN A) v"
proof (induction ws arbitrary: r)
  case (Cons w ws)
  obtain k x where w: "w = (k, x)" by (cases w)
  show ?case
  proof (cases "k = DWARF_REG_RETURN A")
    case True
    with Cons.prems w have "DWARF_REG_RETURN A \<notin> fst ` set ws" "x = v" by force+
    then show ?thesis using True w by (simp add: write_all_pc_other pc_return)
  next
    case False
    then show ?thesis using Cons w by auto
  qed
qed simp

end

subsection \<open>Both architectures are register files\<close>

definition x86_norm :: "u64 \<Rightarrow> u64 \<Rightarrow> u64" where
  "x86_norm n v = v"

definition arm64_norm :: "u64 \<Rightarrow> u64 \<Rightarrow> u64" where
  "arm64_norm n v = (if n \<le> 28 then v else CLS_PTRAUTH_STRIP v)"

lemma small_register_cases:
  assumes "n \<le> (16 :: u64)"
  shows "n \<in> {0, 1, 2, 3, 4, 5, 6, 7, 8, 9, 10, 11, 12, 13, 14, 15, 16}"
proof -
  have "unat n \<le> 16" using assms by (simp add: word_le_nat_alt)
  then have "unat n \<in> {0, 1, 2, 3, 4, 5, 6, 7, 8, 9, 10, 11, 12, 13, 14, 15, 16}"
    by (simp only: insert_iff empty_iff) presburger
  then have "(of_nat (unat n) :: u64) \<in> of_nat ` {0, 1, 2, 3, 4, 5, 6, 7, 8, 9, 10, 11, 12, 13, 14, 15, 16}"
    by (rule imageI)
  then show ?thesis by simp
qed

lemma big_register_cases:
  "(16 :: u64) < n \<Longrightarrow> n \<notin> {0, 1, 2, 3, 4, 5, 6, 7, 8, 9, 10, 11, 12, 13, 14, 15, 16}"
  by auto

lemma arch_x86_64_simps [simp]:
  "DWARF_MAX_REGISTER_NUM arch_x86_64 = 16" "DWARF_REG_SP arch_x86_64 = 7" "DWARF_REG_RETURN arch_x86_64 = 16"
  "DWARF_GET_REGISTER arch_x86_64 = x86_64_get_register" "DWARF_SET_REGISTER arch_x86_64 = x86_64_set_register"
  by (simp_all add: arch_x86_64_def)

lemma x86_get_update:
  "x86_64_get_register (r\<lparr>ss_rax := v\<rparr>) k = (if k = 0 then v else x86_64_get_register r k)"
  "x86_64_get_register (r\<lparr>ss_rdx := v\<rparr>) k = (if k = 1 then v else x86_64_get_register r k)"
  "x86_64_get_register (r\<lparr>ss_rcx := v\<rparr>) k = (if k = 2 then v else x86_64_get_register r k)"
  "x86_64_get_register (r\<lparr>ss_rbx := v\<rparr>) k = (if k = 3 then v else x86_64_get_register r k)"
  "x86_64_get_register (r\<lparr>ss_rsi := v\<rparr>) k = (if k = 4 then v else x86_64_get_register r k)"
  "x86_64_get_register (r\<lparr>ss_rdi := v\<rparr>) k = (if k = 5 then v else x86_64_get_register r k)"
  "x86_64_get_register (r\<lparr>ss_rbp := v\<rparr>) k = (if k = 6 then v else x86_64_get_register r k)"
  "x86_64_get_register (r\<lparr>ss_rsp := v\<rparr>) k = (if k = 7 then v else x86_64_get_register r k)"
  "x86_64_get_register (r\<lparr>ss_r8 := v\<rparr>) k = (if k = 8 then v else x86_64_get_register r k)"
  "x86_64_get_register (r\<lparr>ss_r9 := v\<rparr>) k = (if k = 9 then v else x86_64_get_register r k)"
  "x86_64_get_register (r\<lparr>ss_r10 := v\<rparr>) k = (if k = 10 then v else x86_64_get_register r k)"
  "x86_64_get_register (r\<lparr>ss_r11 := v\<rparr>) k = (if k = 11 then v else x86_64_get_register r k)"
  "x86_64_get_register (r\<lparr>ss_r12 := v\<rparr>) k = (if k = 12 then v else x86_64_get_register r k)"
  "x86_64_get_register (r\<lparr>ss_r13 := v\<rparr>) k = (if k = 13 then v else x86_64_get_register r k)"
  "x86_64_get_register (r\<lparr>ss_r14 := v\<rparr>) k = (if k = 14 then v else x86_64_get_register r k)"
  "x86_64_get_register (r\<lparr>ss_r15 := v\<rparr>) k = (if k = 15 then v else x86_64_get_register r k)"
  "x86_64_get_register (r\<lparr>ss_rip := v\<rparr>) k = (if k = 16 then v else x86_64_get_register r k)"
  by (simp_all add: x86_64_get_register_def)

lemma x86_set_ok: "snd (x86_64_set_register r n v) \<longleftrightarrow> n \<le> 16"
proof
  assume "n \<le> 16"
  then show "snd (x86_64_set_register r n v)"
    using small_register_cases [of n] by (simp add: x86_64_set_register_def) blast
next
  assume "snd (x86_64_set_register r n v)"
  then show "n \<le> 16"
    by (simp add: x86_64_set_register_def split: if_splits)
qed

lemma x86_set_fail: "16 < n \<Longrightarrow> x86_64_set_register r n v = (r, False)"
  using big_register_cases [of n] by (simp add: x86_64_set_register_def)

lemma x86_get_unknown: "16 < n \<Longrightarrow> x86_64_get_register r n = 0"
  using big_register_cases [of n] by (simp add: x86_64_get_register_def)

lemma x86_get_set:
  "x86_64_get_register (fst (x86_64_set_register r n v)) k =
   (if n \<le> 16 \<and> k = n then v else x86_64_get_register r k)"
proof (cases "n \<le> 16")
  case True
  with small_register_cases [OF this] show ?thesis
    by (simp add: x86_64_set_register_def) (elim disjE; simp add: x86_get_update)
next
  case False
  then show ?thesis by (simp add: x86_set_fail)
qed

lemma x86_set_rip:
  "ss_rip (fst (x86_64_set_register r n v)) = (if n = 16 then v else ss_rip r)"
  by (simp add: x86_64_set_register_def)

interpretation x86: register_file arch_x86_64 x86_norm
  by unfold_locales
    (simp_all add: arch_x86_64_def x86_norm_def x86_set_ok x86_set_fail x86_get_set x86_get_unknown
      x86_set_rip, simp_all add: x86_64_get_register_def)

lemma arm64_register_cases:
  "n \<le> 31 \<longleftrightarrow> n \<le> 28 \<or> n = 29 \<or> n = 30 \<or> n = (31 :: u64)"
  unfolding word_le_nat_alt word_unat_eq_iff by auto

lemma arm64_set_ok: "snd (arm64_set_register K r n v) \<longleftrightarrow> n \<le> 31"
  by (auto simp: arm64_set_register_def arm64_register_cases)

lemma arm64_unknown:
  "31 < n \<Longrightarrow> arm64_set_register K r n v = (r, False)"
  "31 < n \<Longrightarrow> arm64_get_register K r n = 0"
  using arm64_register_cases [of n]
  by (simp_all add: arm64_set_register_def arm64_get_register_def not_le [symmetric])

lemma arm64_get_set:
  assumes "arm64_sdk_laws K"
  shows "arm64_get_register K (fst (arm64_set_register K r n v)) k =
    (if n \<le> 31 \<and> k = n then arm64_norm n v else arm64_get_register K r k)"
proof -
  have le: "unat j \<le> 28" if "j \<le> 28" for j :: u64 using that by (simp add: word_le_nat_alt)
  consider "n \<le> 28" | "n = 29" | "n = 30" | "n = 31" | "31 < n"
    using arm64_register_cases [of n] by (auto simp: not_le)
  then show ?thesis
  proof cases
    case 1
    then have "n \<le> 31" by (simp add: arm64_register_cases)
    with 1 le show ?thesis using assms
      by (simp add: arm64_sdk_laws_def arm64_get_register_def arm64_set_register_def arm64_norm_def
          word_unat_eq_iff [symmetric])
  next
    case 5
    then show ?thesis by (simp add: arm64_unknown not_le [symmetric])
  qed (use assms in \<open>simp_all add: arm64_sdk_laws_def arm64_get_register_def
      arm64_set_register_def arm64_norm_def\<close>)
qed

lemma arm64_set_pc:
  assumes "arm64_sdk_laws K"
  shows "arm_thread_state64_get_pc K (fst (arm64_set_register K r n v)) =
    (if n = 30 then v else arm_thread_state64_get_pc K r)"
  using assms by (simp add: arm64_sdk_laws_def arm64_set_register_def)

lemma arm64_register_file: "arm64_sdk_laws K \<Longrightarrow> register_file (arch_arm64 K) arm64_norm"
  by unfold_locales
    (simp_all add: arch_arm64_def arm64_set_ok arm64_unknown arm64_get_set arm64_set_pc arm64_norm_def,
     simp_all add: arm64_get_register_def)

interpretation arm64: register_file "arch_arm64 plain_sdk" arm64_norm
  by (rule arm64_register_file [OF plain_sdk_laws])

subsection \<open>Properties\<close>

text \<open>On x86-64, writing DWARF register \<open>n\<close> succeeds exactly for the seventeen numbers
  of the architecture, is read back, and leaves every other register alone.\<close>

theorem x86_registers:
  "snd (x86_64_set_register r n v) = (n \<le> 16) \<and>
   x86_64_get_register (fst (x86_64_set_register r n v)) k =
     (if n \<le> 16 \<and> k = n then v else x86_64_get_register r k)"
  by (simp only: x86_set_ok x86_get_set simp_thms)

text \<open>On arm64, restoring the link register, DWARF's return address register, also
  moves the program counter there, and both are read back without the pointer authentication bits.\<close>

theorem arm64_return_register:
  assumes "arm64_sdk_laws K"
  shows "arm64_get_register K (fst (arm64_set_register K r 30 v)) 30 = CLS_PTRAUTH_STRIP v \<and>
    FIRCLSThreadContextGetPC (arch_arm64 K) (Some (fst (arm64_set_register K r 30 v))) = CLS_PTRAUTH_STRIP v"
  using arm64_get_set [OF assms, of r 30 v 30] arm64_set_pc [OF assms, of r 30 v]
  by (simp add: arm64_norm_def thread_context_defs arch_arm64_def)

theorem arm64_return_register_witness:
  "FIRCLSThreadContextGetPC (arch_arm64 plain_sdk)
     (Some (fst (arm64_set_register plain_sdk (\<lparr>ss_x = (\<lambda>_. 0), ss_fp = 0, ss_lr = 0, ss_sp = 0, ss_pc = 0\<rparr>) 30
       0xFF00000100004000))) = 0x100004000"
  using arm64_return_register [OF plain_sdk_laws] by (simp add: CLS_PTRAUTH_STRIP_def)

end
