(* ===== verification/DwarfExpr.thy ===== *)
theory DwarfExpr
  imports DwarfData ThreadState
begin

section \<open>The DWARF expression machine (FIRCLSDwarfExpressionMachine.c)\<close>

text \<open>
  The stack machine of \<open>Unwind/Dwarf/FIRCLSDwarfExpressionMachine.c\<close>: a stack of 100 words with a pointer
  that becomes \<open>NULL\<close> on overflow and underflow, and one function per opcode.  The machine and its stack
  are locals of the caller, whose address is always valid; the value \<open>pointer\<close> is an index into
  \<open>buffer\<close>, \<open>None\<close> for \<open>NULL\<close>.

  The stack implements the abstract bounded stack of the locale \<open>bounded_stack\<close>.  An operation of the
  machine is a \<open>dw_op\<close> with its DWARF byte encoding \<open>dw_encode\<close> and its meaning \<open>dw_step\<close> on a list; the
  lemmas say that the machine, run on the encoding, computes the meaning.
\<close>

subsection \<open>The stack\<close>

abbreviation (input) CLS_DWARF_EXPRESSION_STACK_SIZE :: nat where
  "CLS_DWARF_EXPRESSION_STACK_SIZE \<equiv> 100"

record FIRCLSDwarfExpressionStack =
  buffer :: "u64 list"
  pointer :: "nat option"

definition FIRCLSDwarfExpressionStackInit :: FIRCLSDwarfExpressionStack where
  "FIRCLSDwarfExpressionStackInit =
     \<lparr> buffer = replicate CLS_DWARF_EXPRESSION_STACK_SIZE 0, pointer = Some 0 \<rparr>"

definition FIRCLSDwarfExpressionStackIsValid :: "FIRCLSDwarfExpressionStack \<Rightarrow> bool" where
  "FIRCLSDwarfExpressionStackIsValid stack =
     (case pointer stack of
        None \<Rightarrow> False
      | Some p \<Rightarrow> \<not> CLS_DWARF_EXPRESSION_STACK_SIZE < p)"

definition FIRCLSDwarfExpressionStackPush ::
  "FIRCLSDwarfExpressionStack \<Rightarrow> u64 \<Rightarrow> FIRCLSDwarfExpressionStack \<times> bool" where
  "FIRCLSDwarfExpressionStackPush stack value =
     (if \<not> FIRCLSDwarfExpressionStackIsValid stack then (stack, False)
      else case pointer stack of
        None \<Rightarrow> (stack, False)
      | Some p \<Rightarrow>
          if p = CLS_DWARF_EXPRESSION_STACK_SIZE then (stack\<lparr>pointer := None\<rparr>, False)
          else (stack\<lparr>buffer := (buffer stack)[p := value], pointer := Some (p + 1)\<rparr>, True))"

definition FIRCLSDwarfExpressionStackPeek ::
  "FIRCLSDwarfExpressionStack \<Rightarrow> FIRCLSDwarfExpressionStack \<times> u64" where
  "FIRCLSDwarfExpressionStackPeek stack =
     (if \<not> FIRCLSDwarfExpressionStackIsValid stack then (stack, 0)
      else case pointer stack of
        None \<Rightarrow> (stack, 0)
      | Some p \<Rightarrow>
          if p = 0 then (stack\<lparr>pointer := None\<rparr>, 0)
          else (stack, buffer stack ! (p - 1)))"

definition FIRCLSDwarfExpressionStackPop ::
  "FIRCLSDwarfExpressionStack \<Rightarrow> FIRCLSDwarfExpressionStack \<times> u64" where
  "FIRCLSDwarfExpressionStackPop stack =
     (if \<not> FIRCLSDwarfExpressionStackIsValid stack then (stack, 0)
      else case pointer stack of
        None \<Rightarrow> (stack, 0)
      | Some p \<Rightarrow>
          if p = 0 then (stack\<lparr>pointer := None\<rparr>, 0)
          else (stack\<lparr>pointer := Some (p - 1)\<rparr>, buffer stack ! (p - 1)))"

subsection \<open>The abstract stack\<close>

text \<open>
  A bounded stack with sticky errors: \<open>view s\<close> is \<open>None\<close> once an operation has over- or underflowed, and
  the elements, topmost first, before that.
\<close>

locale bounded_stack =
  fixes wf :: "'s \<Rightarrow> bool"
    and view :: "'s \<Rightarrow> 'v list option"
    and cap :: nat
    and zero :: 'v
    and valid :: "'s \<Rightarrow> bool"
    and push :: "'s \<Rightarrow> 'v \<Rightarrow> 's \<times> bool"
    and peek :: "'s \<Rightarrow> 's \<times> 'v"
    and pop :: "'s \<Rightarrow> 's \<times> 'v"
  assumes valid_iff: "wf s \<Longrightarrow> valid s \<longleftrightarrow> view s \<noteq> None"
    and view_cap: "wf s \<Longrightarrow> view s = Some xs \<Longrightarrow> length xs \<le> cap"
    and wf_push: "wf s \<Longrightarrow> wf (fst (push s v))"
    and wf_peek: "wf s \<Longrightarrow> wf (fst (peek s))"
    and wf_pop: "wf s \<Longrightarrow> wf (fst (pop s))"
    and push_broken: "wf s \<Longrightarrow> view s = None \<Longrightarrow> push s v = (s, False)"
    and peek_broken: "wf s \<Longrightarrow> view s = None \<Longrightarrow> peek s = (s, zero)"
    and pop_broken: "wf s \<Longrightarrow> view s = None \<Longrightarrow> pop s = (s, zero)"
    and push_ok: "wf s \<Longrightarrow> view s = Some xs \<Longrightarrow> length xs < cap \<Longrightarrow>
      snd (push s v) \<and> view (fst (push s v)) = Some (v # xs)"
    and push_full: "wf s \<Longrightarrow> view s = Some xs \<Longrightarrow> length xs = cap \<Longrightarrow>
      \<not> snd (push s v) \<and> view (fst (push s v)) = None"
    and peek_ok: "wf s \<Longrightarrow> view s = Some (x # xs) \<Longrightarrow> snd (peek s) = x \<and> view (fst (peek s)) = Some (x # xs)"
    and peek_empty: "wf s \<Longrightarrow> view s = Some [] \<Longrightarrow> snd (peek s) = zero \<and> view (fst (peek s)) = None"
    and pop_ok: "wf s \<Longrightarrow> view s = Some (x # xs) \<Longrightarrow> snd (pop s) = x \<and> view (fst (pop s)) = Some xs"
    and pop_empty: "wf s \<Longrightarrow> view s = Some [] \<Longrightarrow> snd (pop s) = zero \<and> view (fst (pop s)) = None"
begin

text \<open>What each operation returns and leaves, as a function of the view alone.\<close>

lemma snd_push: "wf s \<Longrightarrow> snd (push s v) \<longleftrightarrow> (case view s of Some xs \<Rightarrow> length xs < cap | None \<Rightarrow> False)"
  using push_broken [of s v] push_ok [of s _ v] push_full [of s _ v] view_cap [of s]
  by (fastforce split: option.splits simp: le_less)

lemma view_push:
  "wf s \<Longrightarrow> view (fst (push s v)) =
     (case view s of Some xs \<Rightarrow> if length xs < cap then Some (v # xs) else None | None \<Rightarrow> None)"
  using push_broken [of s v] push_ok [of s _ v] push_full [of s _ v] view_cap [of s]
  by (fastforce split: option.splits simp: le_less)

lemma snd_pop: "wf s \<Longrightarrow> snd (pop s) = (case view s of Some (x # xs) \<Rightarrow> x | _ \<Rightarrow> zero)"
  using pop_ok [of s] pop_empty [of s] pop_broken [of s]
  by (auto split: option.splits list.splits)

lemma view_pop: "wf s \<Longrightarrow> view (fst (pop s)) = (case view s of Some (x # xs) \<Rightarrow> Some xs | _ \<Rightarrow> None)"
  using pop_ok [of s] pop_empty [of s] pop_broken [of s]
  by (auto split: option.splits list.splits)

lemma snd_peek: "wf s \<Longrightarrow> snd (peek s) = (case view s of Some (x # xs) \<Rightarrow> x | _ \<Rightarrow> zero)"
  using peek_ok [of s] peek_empty [of s] peek_broken [of s]
  by (auto split: option.splits list.splits)

lemma view_peek: "wf s \<Longrightarrow> view (fst (peek s)) = (case view s of Some (x # xs) \<Rightarrow> Some (x # xs) | _ \<Rightarrow> None)"
  using peek_ok [of s] peek_empty [of s] peek_broken [of s]
  by (auto split: option.splits list.splits)

lemmas stack_laws = wf_push wf_peek wf_pop snd_push view_push snd_pop view_pop snd_peek view_peek valid_iff

text \<open>Errors are sticky: on a broken stack every operation fails and changes nothing, so that testing
  the stack once at the end is enough.\<close>

lemma broken_stays:
  "wf s \<Longrightarrow> view s = None \<Longrightarrow> fst (push s v) = s \<and> fst (pop s) = s \<and> fst (peek s) = s"
  by (simp add: push_broken pop_broken peek_broken)

end

subsection \<open>The stack of the machine is a bounded stack\<close>

definition stack_wf :: "FIRCLSDwarfExpressionStack \<Rightarrow> bool" where
  "stack_wf s \<longleftrightarrow> length (buffer s) = CLS_DWARF_EXPRESSION_STACK_SIZE \<and>
     (case pointer s of None \<Rightarrow> True | Some p \<Rightarrow> p \<le> CLS_DWARF_EXPRESSION_STACK_SIZE)"

definition stack_view :: "FIRCLSDwarfExpressionStack \<Rightarrow> u64 list option" where
  "stack_view s = map_option (\<lambda>p. rev (take p (buffer s))) (pointer s)"

lemmas stack_defs =
  FIRCLSDwarfExpressionStackIsValid_def FIRCLSDwarfExpressionStackPush_def
  FIRCLSDwarfExpressionStackPeek_def FIRCLSDwarfExpressionStackPop_def

lemma rev_take_Cons:
  "p \<le> length b \<Longrightarrow> rev (take p b) = x # xs \<Longrightarrow> \<exists>q. p = Suc q \<and> b ! q = x \<and> rev (take q b) = xs"
  by (cases p) (auto simp: take_Suc_conv_app_nth)

lemma take_update: "p < length b \<Longrightarrow> take (Suc p) (b[p := v]) = take p b @ [v]"
  by (simp add: take_Suc_conv_app_nth)

interpretation expr_stack: bounded_stack stack_wf stack_view CLS_DWARF_EXPRESSION_STACK_SIZE 0
  FIRCLSDwarfExpressionStackIsValid FIRCLSDwarfExpressionStackPush FIRCLSDwarfExpressionStackPeek
  FIRCLSDwarfExpressionStackPop
proof
  fix s x xs
  assume wf: "stack_wf s" and v: "stack_view s = Some (x # xs)"
  then obtain q where q: "pointer s = Some (Suc q)" "buffer s ! q = x" "rev (take q (buffer s)) = xs" "q < 100"
    using rev_take_Cons [of _ "buffer s" x xs]
    by (auto simp: stack_wf_def stack_view_def split: option.splits)
  then show "snd (FIRCLSDwarfExpressionStackPeek s) = x \<and>
      stack_view (fst (FIRCLSDwarfExpressionStackPeek s)) = Some (x # xs)"
    using v by (simp add: stack_defs stack_view_def)
  from q show "snd (FIRCLSDwarfExpressionStackPop s) = x \<and>
      stack_view (fst (FIRCLSDwarfExpressionStackPop s)) = Some xs"
    by (simp add: stack_defs stack_view_def)
qed (auto simp: stack_defs stack_wf_def stack_view_def take_update split: option.splits)

lemma stack_init: "stack_wf FIRCLSDwarfExpressionStackInit" "stack_view FIRCLSDwarfExpressionStackInit = Some []"
  by (simp_all add: stack_wf_def stack_view_def FIRCLSDwarfExpressionStackInit_def)

subsection \<open>The machine\<close>

abbreviation (input) DW_OP_deref :: u8 where "DW_OP_deref \<equiv> 0x06"
abbreviation (input) DW_OP_dup :: u8 where "DW_OP_dup \<equiv> 0x12"
abbreviation (input) DW_OP_swap :: u8 where "DW_OP_swap \<equiv> 0x16"
abbreviation (input) DW_OP_and :: u8 where "DW_OP_and \<equiv> 0x1A"
abbreviation (input) DW_OP_plus :: u8 where "DW_OP_plus \<equiv> 0x22"
abbreviation (input) DW_OP_plus_uconst :: u8 where "DW_OP_plus_uconst \<equiv> 0x23"
abbreviation (input) DW_OP_ne :: u8 where "DW_OP_ne \<equiv> 0x2E"
abbreviation (input) DW_OP_lit0 :: u8 where "DW_OP_lit0 \<equiv> 0x30"
abbreviation (input) DW_OP_lit31 :: u8 where "DW_OP_lit31 \<equiv> 0x4F"
abbreviation (input) DW_OP_breg0 :: u8 where "DW_OP_breg0 \<equiv> 0x70"
abbreviation (input) DW_OP_breg31 :: u8 where "DW_OP_breg31 \<equiv> 0x8F"
abbreviation (input) DW_OP_deref_size :: u8 where "DW_OP_deref_size \<equiv> 0x94"

record 'r FIRCLSDwarfExpressionMachine =
  stack :: FIRCLSDwarfExpressionStack
  dataCursor :: addr
  endAddress :: addr
  registers :: "'r option"

definition zero_machine :: "'r FIRCLSDwarfExpressionMachine" where
  "zero_machine = \<lparr>
     stack = \<lparr> buffer = replicate CLS_DWARF_EXPRESSION_STACK_SIZE 0, pointer = None \<rparr>,
     dataCursor = 0, endAddress = 0, registers = None \<rparr>"

definition FIRCLSDwarfExpressionMachineInit ::
  "addr \<Rightarrow> 'r option \<Rightarrow> u64 \<Rightarrow> 'r FIRCLSDwarfExpressionMachine \<times> bool" where
  "FIRCLSDwarfExpressionMachineInit cursor regs stackValue =
     (if \<not> FIRCLSIsValidPointer cursor then (zero_machine, False)
      else
        let machine = zero_machine\<lparr>dataCursor := cursor, registers := regs\<rparr>;
            (st, ok) = FIRCLSDwarfExpressionStackPush FIRCLSDwarfExpressionStackInit stackValue
        in (machine\<lparr>stack := st\<rparr>, ok))"

definition FIRCLSDwarfExpressionMachinePrepareForExecution ::
  "mem \<Rightarrow> 'r FIRCLSDwarfExpressionMachine \<Rightarrow> ('r FIRCLSDwarfExpressionMachine \<times> bool) option" where
  "FIRCLSDwarfExpressionMachinePrepareForExecution m machine = do {
     (expressionLength, cursor) \<leftarrow> FIRCLSParseULEB128AndAdvance m (dataCursor machine);
     let machine = machine\<lparr>dataCursor := cursor\<rparr>;
     if expressionLength = 0 then Some (machine, False)
     else Some (machine\<lparr>endAddress := cursor + expressionLength\<rparr>, True) }"

definition FIRCLSDwarfExpressionMachineIsFinished :: "'r FIRCLSDwarfExpressionMachine \<Rightarrow> bool" where
  "FIRCLSDwarfExpressionMachineIsFinished machine =
     (if \<not> FIRCLSIsValidPointer (endAddress machine) \<or> \<not> FIRCLSIsValidPointer (dataCursor machine) then True
      else if \<not> FIRCLSDwarfExpressionStackIsValid (stack machine) then True
      else endAddress machine \<le> dataCursor machine)"

definition FIRCLSDwarfExpressionMachineGetResult ::
  "'r FIRCLSDwarfExpressionMachine \<Rightarrow> u64 \<Rightarrow> 'r FIRCLSDwarfExpressionMachine \<times> u64 \<times> bool" where
  "FIRCLSDwarfExpressionMachineGetResult machine result =
     (if dataCursor machine \<noteq> endAddress machine then (machine, result, False)
      else
        let (st, v) = FIRCLSDwarfExpressionStackPeek (stack machine) in
        (machine\<lparr>stack := st\<rparr>, v, FIRCLSDwarfExpressionStackIsValid st))"

definition FIRCLSDwarfExpressionMachineStackPop ::
  "'r FIRCLSDwarfExpressionMachine \<Rightarrow> 'r FIRCLSDwarfExpressionMachine \<times> u64" where
  "FIRCLSDwarfExpressionMachineStackPop machine =
     (let (st, v) = FIRCLSDwarfExpressionStackPop (stack machine) in (machine\<lparr>stack := st\<rparr>, v))"

definition FIRCLSDwarfExpressionMachineStackPush ::
  "'r FIRCLSDwarfExpressionMachine \<Rightarrow> u64 \<Rightarrow> 'r FIRCLSDwarfExpressionMachine \<times> bool" where
  "FIRCLSDwarfExpressionMachineStackPush machine value =
     (let (st, ok) = FIRCLSDwarfExpressionStackPush (stack machine) value in (machine\<lparr>stack := st\<rparr>, ok))"

subsection \<open>Opcodes\<close>

definition FIRCLSDwarfExpressionMachineExecute_bregN ::
  "'r arch \<Rightarrow> mem \<Rightarrow> 'r FIRCLSDwarfExpressionMachine \<Rightarrow> u8 \<Rightarrow> ('r FIRCLSDwarfExpressionMachine \<times> bool) option" where
  "FIRCLSDwarfExpressionMachineExecute_bregN A m machine opcode =
     (let regNum = opcode - DW_OP_breg0 in
      if DWARF_MAX_REGISTER_NUM A < ucast regNum then Some (machine, False)
      else do {
        (offset, cursor) \<leftarrow> FIRCLSParseLEB128AndAdvance m (dataCursor machine);
        let machine = machine\<lparr>dataCursor := cursor\<rparr>;
        v \<leftarrow> FIRCLSDwarfUnwindGetRegisterValue A (registers machine) (ucast regNum);
        Some (FIRCLSDwarfExpressionMachineStackPush machine (v + offset)) })"

definition FIRCLSDwarfExpressionMachineExecute_deref ::
  "mem \<Rightarrow> 'r FIRCLSDwarfExpressionMachine \<Rightarrow> ('r FIRCLSDwarfExpressionMachine \<times> bool) option" where
  "FIRCLSDwarfExpressionMachineExecute_deref m machine =
     (let (machine, value) = FIRCLSDwarfExpressionMachineStackPop machine in
      case FIRCLSReadMemory_word m value of
        None \<Rightarrow> Some (machine, False)
      | Some value \<Rightarrow> Some (FIRCLSDwarfExpressionMachineStackPush machine value))"

definition FIRCLSDwarfExpressionMachineExecute_plus_uconst ::
  "mem \<Rightarrow> 'r FIRCLSDwarfExpressionMachine \<Rightarrow> ('r FIRCLSDwarfExpressionMachine \<times> bool) option" where
  "FIRCLSDwarfExpressionMachineExecute_plus_uconst m machine = do {
     let (machine, value) = FIRCLSDwarfExpressionMachineStackPop machine;
     (u, cursor) \<leftarrow> FIRCLSParseULEB128AndAdvance m (dataCursor machine);
     Some (FIRCLSDwarfExpressionMachineStackPush (machine\<lparr>dataCursor := cursor\<rparr>) (value + u)) }"

definition FIRCLSDwarfExpressionMachineExecute_and ::
  "'r FIRCLSDwarfExpressionMachine \<Rightarrow> ('r FIRCLSDwarfExpressionMachine \<times> bool) option" where
  "FIRCLSDwarfExpressionMachineExecute_and machine =
     (let (machine, value) = FIRCLSDwarfExpressionMachineStackPop machine;
          (machine, value2) = FIRCLSDwarfExpressionMachineStackPop machine
      in Some (FIRCLSDwarfExpressionMachineStackPush machine (value AND value2)))"

definition FIRCLSDwarfExpressionMachineExecute_plus ::
  "'r FIRCLSDwarfExpressionMachine \<Rightarrow> ('r FIRCLSDwarfExpressionMachine \<times> bool) option" where
  "FIRCLSDwarfExpressionMachineExecute_plus machine = do {
     let (machine, value) = FIRCLSDwarfExpressionMachineStackPop machine;
     let (machine, value2) = FIRCLSDwarfExpressionMachineStackPop machine;
     v \<leftarrow> int64_add value value2;
     Some (FIRCLSDwarfExpressionMachineStackPush machine v) }"

definition FIRCLSDwarfExpressionMachineExecute_dup ::
  "'r FIRCLSDwarfExpressionMachine \<Rightarrow> ('r FIRCLSDwarfExpressionMachine \<times> bool) option" where
  "FIRCLSDwarfExpressionMachineExecute_dup machine =
     (let (st, value) = FIRCLSDwarfExpressionStackPeek (stack machine)
      in Some (FIRCLSDwarfExpressionMachineStackPush (machine\<lparr>stack := st\<rparr>) value))"

definition FIRCLSDwarfExpressionMachineExecute_swap ::
  "'r FIRCLSDwarfExpressionMachine \<Rightarrow> ('r FIRCLSDwarfExpressionMachine \<times> bool) option" where
  "FIRCLSDwarfExpressionMachineExecute_swap machine =
     (let (machine, valueA) = FIRCLSDwarfExpressionMachineStackPop machine;
          (machine, valueB) = FIRCLSDwarfExpressionMachineStackPop machine;
          (machine, ok) = FIRCLSDwarfExpressionMachineStackPush machine valueA
      in if \<not> ok then Some (machine, False)
         else Some (FIRCLSDwarfExpressionMachineStackPush machine valueB))"

definition FIRCLSDwarfExpressionMachineExecute_deref_size ::
  "mem \<Rightarrow> 'r FIRCLSDwarfExpressionMachine \<Rightarrow> ('r FIRCLSDwarfExpressionMachine \<times> bool) option" where
  "FIRCLSDwarfExpressionMachineExecute_deref_size m machine = do {
     let (machine, address) = FIRCLSDwarfExpressionMachineStackPop machine;
     (readSize, cursor) \<leftarrow> FIRCLSParseUint8AndAdvance m (dataCursor machine);
     let machine = machine\<lparr>dataCursor := cursor\<rparr>;
     if readSize = 1 then do {
       (v, _) \<leftarrow> FIRCLSParseUint8AndAdvance m address;
       Some (FIRCLSDwarfExpressionMachineStackPush machine (ucast v)) }
     else if readSize = 2 then do {
       (v, _) \<leftarrow> FIRCLSParseUint16AndAdvance m address;
       Some (FIRCLSDwarfExpressionMachineStackPush machine (ucast v)) }
     else if readSize = 4 then do {
       (v, _) \<leftarrow> FIRCLSParseUint32AndAdvance m address;
       Some (FIRCLSDwarfExpressionMachineStackPush machine (ucast v)) }
     else if readSize = 8 then do {
       (v, _) \<leftarrow> FIRCLSParseUint64AndAdvance m address;
       Some (FIRCLSDwarfExpressionMachineStackPush machine v) }
     else Some (machine, False) }"

definition FIRCLSDwarfExpressionMachineExecute_ne ::
  "'r FIRCLSDwarfExpressionMachine \<Rightarrow> ('r FIRCLSDwarfExpressionMachine \<times> bool) option" where
  "FIRCLSDwarfExpressionMachineExecute_ne machine =
     (let (machine, value) = FIRCLSDwarfExpressionMachineStackPop machine;
          (machine, value2) = FIRCLSDwarfExpressionMachineStackPop machine
      in Some (FIRCLSDwarfExpressionMachineStackPush machine (if value \<noteq> value2 then 1 else 0)))"

definition FIRCLSDwarfExpressionMachineExecute_litN ::
  "'r FIRCLSDwarfExpressionMachine \<Rightarrow> u8 \<Rightarrow> ('r FIRCLSDwarfExpressionMachine \<times> bool) option" where
  "FIRCLSDwarfExpressionMachineExecute_litN machine opcode =
     Some (FIRCLSDwarfExpressionMachineStackPush machine (ucast (opcode - DW_OP_lit0)))"

definition FIRCLSDwarfExpressionMachineExecuteNextOpcode ::
  "'r arch \<Rightarrow> mem \<Rightarrow> 'r FIRCLSDwarfExpressionMachine \<Rightarrow> ('r FIRCLSDwarfExpressionMachine \<times> bool) option" where
  "FIRCLSDwarfExpressionMachineExecuteNextOpcode A m machine = do {
     (opcode, cursor) \<leftarrow> FIRCLSParseUint8AndAdvance m (dataCursor machine);
     let machine = machine\<lparr>dataCursor := cursor\<rparr>;
     if opcode = DW_OP_deref then FIRCLSDwarfExpressionMachineExecute_deref m machine
     else if opcode = DW_OP_dup then FIRCLSDwarfExpressionMachineExecute_dup machine
     else if opcode = DW_OP_and then FIRCLSDwarfExpressionMachineExecute_and machine
     else if opcode = DW_OP_plus then FIRCLSDwarfExpressionMachineExecute_plus machine
     else if opcode = DW_OP_swap then FIRCLSDwarfExpressionMachineExecute_swap machine
     else if opcode = DW_OP_plus_uconst then FIRCLSDwarfExpressionMachineExecute_plus_uconst m machine
     else if opcode = DW_OP_ne then FIRCLSDwarfExpressionMachineExecute_ne machine
     else if DW_OP_lit0 \<le> opcode \<and> opcode \<le> DW_OP_lit31 then
       FIRCLSDwarfExpressionMachineExecute_litN machine opcode
     else if DW_OP_breg0 \<le> opcode \<and> opcode \<le> DW_OP_breg31 then
       FIRCLSDwarfExpressionMachineExecute_bregN A m machine opcode
     else if opcode = DW_OP_deref_size then FIRCLSDwarfExpressionMachineExecute_deref_size m machine
     else Some (machine, False) }"

subsection \<open>Opcodes: encoding and meaning\<close>

text \<open>The operations the machine knows.  The meaning of an operation is a partial function on the list of the
  elements, topmost first: it is undefined when an operand is missing, the result does not fit on the
  stack, memory cannot be read, or a sum overflows.\<close>

datatype dw_op =
    Dw_deref | Dw_dup | Dw_and | Dw_plus | Dw_swap | Dw_plus_uconst nat | Dw_ne
  | Dw_lit nat | Dw_breg nat int | Dw_deref_size nat

fun dw_encode :: "dw_op \<Rightarrow> u8 list" where
  "dw_encode Dw_deref = [DW_OP_deref]"
| "dw_encode Dw_dup = [DW_OP_dup]"
| "dw_encode Dw_and = [DW_OP_and]"
| "dw_encode Dw_plus = [DW_OP_plus]"
| "dw_encode Dw_swap = [DW_OP_swap]"
| "dw_encode (Dw_plus_uconst n) = DW_OP_plus_uconst # uleb_bytes n"
| "dw_encode Dw_ne = [DW_OP_ne]"
| "dw_encode (Dw_lit n) = [DW_OP_lit0 + of_nat n]"
| "dw_encode (Dw_breg n i) = (DW_OP_breg0 + of_nat n) # sleb_bytes i"
| "dw_encode (Dw_deref_size k) = [DW_OP_deref_size, of_nat k]"

fun dw_op_ok :: "dw_op \<Rightarrow> bool" where
  "dw_op_ok (Dw_plus_uconst n) \<longleftrightarrow> n < 2 ^ 31"
| "dw_op_ok (Dw_lit n) \<longleftrightarrow> n < 32"
| "dw_op_ok (Dw_breg n i) \<longleftrightarrow> n < 32 \<and> - (2 ^ 27) \<le> i \<and> i < 2 ^ 31"
| "dw_op_ok (Dw_deref_size k) \<longleftrightarrow> k < 256"
| "dw_op_ok _ \<longleftrightarrow> True"

definition dw_push :: "u64 \<Rightarrow> u64 list \<Rightarrow> u64 list option" where
  "dw_push v xs = (if length xs < CLS_DWARF_EXPRESSION_STACK_SIZE then Some (v # xs) else None)"

fun dw_step :: "'r arch \<Rightarrow> 'r option \<Rightarrow> mem \<Rightarrow> dw_op \<Rightarrow> u64 list \<Rightarrow> u64 list option" where
  "dw_step A r m Dw_deref (x # xs) = do { v \<leftarrow> FIRCLSReadMemory_word m x; Some (v # xs) }"
| "dw_step A r m Dw_dup (x # xs) = dw_push x (x # xs)"
| "dw_step A r m Dw_and (x # y # xs) = Some ((x AND y) # xs)"
| "dw_step A r m Dw_plus (x # y # xs) = do { v \<leftarrow> int64_add x y; Some (v # xs) }"
| "dw_step A r m Dw_swap (x # y # xs) = Some (y # x # xs)"
| "dw_step A r m (Dw_plus_uconst n) (x # xs) = Some ((x + of_nat n) # xs)"
| "dw_step A r m Dw_ne (x # y # xs) = Some ((if x \<noteq> y then 1 else 0) # xs)"
| "dw_step A r m (Dw_lit n) xs = dw_push (of_nat n) xs"
| "dw_step A r m (Dw_breg n i) xs = do {
     reg \<leftarrow> r;
     if DWARF_MAX_REGISTER_NUM A < of_nat n then None
     else dw_push (DWARF_GET_REGISTER A reg (of_nat n) + word_of_int i) xs }"
| "dw_step A r m (Dw_deref_size k) (x # xs) =
     (if k \<in> {1, 2, 4, 8} then do { v \<leftarrow> load_le k m x; Some (v # xs) } else None)"
| "dw_step A r m _ _ = None"

text \<open>What a run of the machine leaves behind, if it succeeds: the elements of its stack and its cursor.\<close>

definition machine_result :: "('r FIRCLSDwarfExpressionMachine \<times> bool) option \<Rightarrow> (u64 list \<times> addr) option" where
  "machine_result res = (case res of
     Some (machine, True) \<Rightarrow> map_option (\<lambda>xs. (xs, dataCursor machine)) (stack_view (stack machine))
   | _ \<Rightarrow> None)"

lemma machine_result_simps [simp]:
  "machine_result None = None"
  "machine_result (Some (machine, ok)) =
     (if ok then map_option (\<lambda>xs. (xs, dataCursor machine)) (stack_view (stack machine)) else None)"
  by (simp_all add: machine_result_def)

lemma machine_push [simp]:
  "stack_wf (stack machine) \<Longrightarrow>
   machine_result (Some (FIRCLSDwarfExpressionMachineStackPush machine v)) =
     (case stack_view (stack machine) of
        None \<Rightarrow> None
      | Some xs \<Rightarrow> map_option (\<lambda>ys. (ys, dataCursor machine)) (dw_push v xs))"
  by (simp add: FIRCLSDwarfExpressionMachineStackPush_def split_beta expr_stack.stack_laws dw_push_def
      split: option.splits)

lemma machine_pop:
  "FIRCLSDwarfExpressionMachineStackPop machine =
     (machine\<lparr>stack := fst (FIRCLSDwarfExpressionStackPop (stack machine))\<rparr>,
      snd (FIRCLSDwarfExpressionStackPop (stack machine)))"
  by (simp add: FIRCLSDwarfExpressionMachineStackPop_def split_beta)

lemma dw_push_less [simp]: "length xs < CLS_DWARF_EXPRESSION_STACK_SIZE \<Longrightarrow> dw_push v xs = Some (v # xs)"
  by (simp add: dw_push_def)

text \<open>One lemma per opcode: the function of the source computes the meaning.\<close>

lemmas exec_simps = split_beta machine_pop expr_stack.stack_laws

lemma view_short: "stack_wf st \<Longrightarrow> stack_view st = Some xs \<Longrightarrow> length xs \<le> CLS_DWARF_EXPRESSION_STACK_SIZE"
  by (rule expr_stack.view_cap)

lemma ReadMemory_null: "FIRCLSReadMemory_word m 0 = None"
  by (simp add: FIRCLSReadMemory_word_def FIRCLSReadMemory_def FIRCLSIsValidPointer_def)

lemma ucast_byte: "n < 256 \<Longrightarrow> (ucast (of_nat n :: u8) :: u64) = of_nat n"
  by (simp add: word_unat_eq_iff unsigned_ucast_eq unat_of_nat take_bit_nat_eq_self)

lemma exec_deref:
  assumes "stack_wf (stack machine)" "stack_view (stack machine) = Some xs"
  shows "machine_result (FIRCLSDwarfExpressionMachineExecute_deref m machine) =
    map_option (\<lambda>ys. (ys, dataCursor machine)) (dw_step A r m Dw_deref xs)"
  using assms view_short [OF assms]
  by (cases xs; cases "FIRCLSReadMemory_word m (hd xs)")
    (simp_all add: FIRCLSDwarfExpressionMachineExecute_deref_def exec_simps ReadMemory_null)

lemma exec_dup:
  assumes "stack_wf (stack machine)" "stack_view (stack machine) = Some xs"
  shows "machine_result (FIRCLSDwarfExpressionMachineExecute_dup machine) =
    map_option (\<lambda>ys. (ys, dataCursor machine)) (dw_step A r m Dw_dup xs)"
  using assms
  by (cases xs) (simp_all add: FIRCLSDwarfExpressionMachineExecute_dup_def exec_simps)

lemma two_elements:
  "(\<And>x y zs. xs = x # y # zs \<Longrightarrow> P) \<Longrightarrow> (\<And>x. xs = [x] \<Longrightarrow> P) \<Longrightarrow> (xs = [] \<Longrightarrow> P) \<Longrightarrow> P"
  by (cases xs; cases "tl xs") auto

lemma exec_and:
  assumes "stack_wf (stack machine)" "stack_view (stack machine) = Some xs"
  shows "machine_result (FIRCLSDwarfExpressionMachineExecute_and machine) =
    map_option (\<lambda>ys. (ys, dataCursor machine)) (dw_step A r m Dw_and xs)"
  by (rule two_elements [of xs])
    (use assms view_short [OF assms] in \<open>simp_all add: FIRCLSDwarfExpressionMachineExecute_and_def exec_simps\<close>)

lemma exec_plus:
  assumes "stack_wf (stack machine)" "stack_view (stack machine) = Some xs"
  shows "machine_result (FIRCLSDwarfExpressionMachineExecute_plus machine) =
    map_option (\<lambda>ys. (ys, dataCursor machine)) (dw_step A r m Dw_plus xs)"
proof (rule two_elements [of xs])
  fix x y zs
  assume "xs = x # y # zs"
  then show ?thesis using assms view_short [OF assms]
    by (cases "int64_add x y") (simp_all add: FIRCLSDwarfExpressionMachineExecute_plus_def exec_simps)
next
  fix x
  assume "xs = [x]"
  then show ?thesis using assms
    by (cases "int64_add x 0") (simp_all add: FIRCLSDwarfExpressionMachineExecute_plus_def exec_simps)
next
  assume "xs = []"
  then show ?thesis using assms
    by (cases "int64_add 0 0") (simp_all add: FIRCLSDwarfExpressionMachineExecute_plus_def exec_simps)
qed

lemma exec_swap:
  assumes "stack_wf (stack machine)" "stack_view (stack machine) = Some xs"
  shows "machine_result (FIRCLSDwarfExpressionMachineExecute_swap machine) =
    map_option (\<lambda>ys. (ys, dataCursor machine)) (dw_step A r m Dw_swap xs)"
  by (rule two_elements [of xs])
    (use assms view_short [OF assms] in \<open>simp_all add: FIRCLSDwarfExpressionMachineExecute_swap_def exec_simps
      FIRCLSDwarfExpressionMachineStackPush_def\<close>)

lemma exec_ne:
  assumes "stack_wf (stack machine)" "stack_view (stack machine) = Some xs"
  shows "machine_result (FIRCLSDwarfExpressionMachineExecute_ne machine) =
    map_option (\<lambda>ys. (ys, dataCursor machine)) (dw_step A r m Dw_ne xs)"
  by (rule two_elements [of xs])
    (use assms view_short [OF assms] in \<open>simp_all add: FIRCLSDwarfExpressionMachineExecute_ne_def exec_simps\<close>)

lemma exec_plus_uconst:
  assumes "stack_wf (stack machine)" "stack_view (stack machine) = Some xs" "n < 2 ^ 31"
    "load_bytes m (dataCursor machine) (length (uleb_bytes n)) = Some (uleb_bytes n)"
  shows "machine_result (FIRCLSDwarfExpressionMachineExecute_plus_uconst m machine) =
    map_option (\<lambda>ys. (ys, dataCursor machine + of_nat (length (uleb_bytes n)))) (dw_step A r m (Dw_plus_uconst n) xs)"
  using assms view_short [OF assms(1,2)] uleb_reads [OF assms(3,4)]
  by (cases xs) (simp_all add: FIRCLSDwarfExpressionMachineExecute_plus_uconst_def exec_simps)

lemma exec_breg:
  assumes "stack_wf (stack machine)" "stack_view (stack machine) = Some xs" "dw_op_ok (Dw_breg n i)"
    "load_bytes m (dataCursor machine) (length (sleb_bytes i)) = Some (sleb_bytes i)"
  shows "machine_result (FIRCLSDwarfExpressionMachineExecute_bregN A m machine (DW_OP_breg0 + of_nat n)) =
    map_option (\<lambda>ys. (ys, dataCursor machine + of_nat (length (sleb_bytes i))))
      (dw_step A (registers machine) m (Dw_breg n i) xs)"
proof -
  have "(ucast (of_nat n :: u8) :: u64) = of_nat n"
    using assms(3) by (intro ucast_byte) simp
  then show ?thesis
    using assms leb_reads [of i, OF _ _ assms(4)]
    by (cases "registers machine")
      (simp_all add: FIRCLSDwarfExpressionMachineExecute_bregN_def FIRCLSDwarfUnwindGetRegisterValue_def exec_simps)
qed

lemma exec_lit:
  assumes "stack_wf (stack machine)" "stack_view (stack machine) = Some xs" "n < 32"
  shows "machine_result (FIRCLSDwarfExpressionMachineExecute_litN machine (DW_OP_lit0 + of_nat n)) =
    map_option (\<lambda>ys. (ys, dataCursor machine)) (dw_step A r m (Dw_lit n) xs)"
proof -
  have "(ucast (of_nat n :: u8) :: u64) = of_nat n"
    using assms(3) by (intro ucast_byte) simp
  then show ?thesis
    using assms by (simp add: FIRCLSDwarfExpressionMachineExecute_litN_def)
qed

lemma ucast_word_of_le:
  "8 * length bs \<le> LENGTH('a) \<Longrightarrow> LENGTH('a) \<le> 64 \<Longrightarrow> (ucast (word_of_le bs :: 'a::len word) :: u64) = word_of_le bs"
proof (rule bit_word_eqI)
  fix n
  assume len: "8 * length bs \<le> LENGTH('a)" "LENGTH('a) \<le> 64" and n: "n < LENGTH(64)"
  have "n div 8 < length bs \<Longrightarrow> n < LENGTH('a)"
    using len(1) by (simp add: div_less_iff_less_mult)
  then show "bit (ucast (word_of_le bs :: 'a word) :: u64) n \<longleftrightarrow> bit (word_of_le bs :: u64) n"
    using n by (auto simp: bit_simps bit_word_of_le)
qed

lemma load_le_ucast:
  "8 * k \<le> LENGTH('a) \<Longrightarrow> LENGTH('a) \<le> 64 \<Longrightarrow>
   map_option ucast (load_le k m a :: 'a::len word option) = (load_le k m a :: u64 option)"
  using load_bytes_length [of m a k]
  by (cases "load_bytes m a k") (simp_all add: load_le_def ucast_word_of_le)

lemma next_opcode_fetch:
  "m c = Some b \<Longrightarrow>
   FIRCLSParseUint8AndAdvance m c = Some (b, c + 1)"
  by (simp add: FIRCLSParseUint8AndAdvance_def)

lemma exec_deref_size:
  assumes "stack_wf (stack machine)" "stack_view (stack machine) = Some xs" "k < 256"
    "m (dataCursor machine) = Some (of_nat k)"
  shows "machine_result (FIRCLSDwarfExpressionMachineExecute_deref_size m machine) =
    map_option (\<lambda>ys. (ys, dataCursor machine + 1)) (dw_step A r m (Dw_deref_size k) xs)"
proof -
  have rd: "FIRCLSParseUint8AndAdvance m (dataCursor machine) = Some (of_nat k, dataCursor machine + 1)"
    using assms(4) by (rule next_opcode_fetch)
  have k: "(of_nat k :: u8) = 1 \<longleftrightarrow> k = 1" "(of_nat k :: u8) = 2 \<longleftrightarrow> k = 2"
    "(of_nat k :: u8) = 4 \<longleftrightarrow> k = 4" "(of_nat k :: u8) = 8 \<longleftrightarrow> k = 8"
    using assms(3) by (simp_all add: word_unat_eq_iff unat_of_nat)
  define x where "x = (case xs of [] \<Rightarrow> 0 | x # _ \<Rightarrow> x)"
  have u: "(load_le 1 m x :: u64 option) = map_option ucast (load_le 1 m x :: u8 option)"
    "(load_le 2 m x :: u64 option) = map_option ucast (load_le 2 m x :: u16 option)"
    "(load_le 4 m x :: u64 option) = map_option ucast (load_le 4 m x :: u32 option)"
    using load_le_ucast [where 'a = 8 and k = 1 and m = m and a = x] by (simp_all add: load_le_ucast)
  have pops: "snd (FIRCLSDwarfExpressionMachineStackPop machine) = x"
    using assms by (simp add: x_def exec_simps split: list.splits)
  consider "k = 1" | "k = 2" | "k = 4" | "k = 8" | "k \<notin> {1, 2, 4, 8}" by auto
  then show ?thesis
  proof cases
    case 1
    then show ?thesis using assms rd k u(1) view_short [OF assms(1,2)]
      by (cases "m x"; cases xs)
        (simp_all add: FIRCLSDwarfExpressionMachineExecute_deref_size_def exec_simps x_def
          FIRCLSParseUint8AndAdvance_def)
  next
    case 2
    then show ?thesis using assms rd k u(2) view_short [OF assms(1,2)]
      by (cases "load_le 2 m x :: u16 option"; cases xs)
        (simp_all add: FIRCLSDwarfExpressionMachineExecute_deref_size_def exec_simps x_def
          FIRCLSParseUint16AndAdvance_def)
  next
    case 3
    then show ?thesis using assms rd k u(3) view_short [OF assms(1,2)]
      by (cases "load_le 4 m x :: u32 option"; cases xs)
        (simp_all add: FIRCLSDwarfExpressionMachineExecute_deref_size_def exec_simps x_def
          FIRCLSParseUint32AndAdvance_def)
  next
    case 4
    then show ?thesis using assms rd k view_short [OF assms(1,2)]
      by (cases "load_le 8 m x :: u64 option"; cases xs)
        (simp_all add: FIRCLSDwarfExpressionMachineExecute_deref_size_def exec_simps x_def
          FIRCLSParseUint64AndAdvance_def)
  next
    case 5
    then show ?thesis using assms rd k
      by (cases xs) (simp_all add: FIRCLSDwarfExpressionMachineExecute_deref_size_def exec_simps)
  qed
qed

lemma lit_opcode_range:
  assumes "n < 32"
  shows "DW_OP_lit0 + of_nat n \<in> {DW_OP_lit0 .. DW_OP_lit31}"
    "DW_OP_lit0 + of_nat n \<notin> {DW_OP_deref, DW_OP_dup, DW_OP_and, DW_OP_plus, DW_OP_swap, DW_OP_plus_uconst, DW_OP_ne}"
    "DW_OP_breg0 + of_nat n \<in> {DW_OP_breg0 .. DW_OP_breg31}"
    "\<not> DW_OP_breg0 + of_nat n \<le> DW_OP_lit31"
    "DW_OP_breg0 + of_nat n \<notin> {DW_OP_deref, DW_OP_dup, DW_OP_and, DW_OP_plus, DW_OP_swap, DW_OP_plus_uconst, DW_OP_ne}"
proof -
  have "(DW_OP_lit0 + of_nat n :: u8) = of_nat (48 + n)" "(DW_OP_breg0 + of_nat n :: u8) = of_nat (112 + n)"
    by simp_all
  moreover have "unat (of_nat (48 + n) :: u8) = 48 + n" "unat (of_nat (112 + n) :: u8) = 112 + n"
    using assms by (simp_all add: unat_of_nat del: of_nat_add)
  ultimately have "unat (DW_OP_lit0 + of_nat n :: u8) = 48 + n" "unat (DW_OP_breg0 + of_nat n :: u8) = 112 + n"
    by simp_all
  then show "DW_OP_lit0 + of_nat n \<in> {DW_OP_lit0 .. DW_OP_lit31}"
    "DW_OP_lit0 + of_nat n \<notin> {DW_OP_deref, DW_OP_dup, DW_OP_and, DW_OP_plus, DW_OP_swap, DW_OP_plus_uconst, DW_OP_ne}"
    "DW_OP_breg0 + of_nat n \<in> {DW_OP_breg0 .. DW_OP_breg31}"
    "\<not> DW_OP_breg0 + of_nat n \<le> DW_OP_lit31"
    "DW_OP_breg0 + of_nat n \<notin> {DW_OP_deref, DW_OP_dup, DW_OP_and, DW_OP_plus, DW_OP_swap, DW_OP_plus_uconst, DW_OP_ne}"
    using assms by (simp_all only: atLeastAtMost_iff word_le_nat_alt insert_iff empty_iff word_unat_eq_iff) simp_all
qed

text \<open>The dispatch: on the encoding of an operation, the machine executes that operation.\<close>

lemma exec_opcode:
  assumes "stack_wf (stack machine)" "stack_view (stack machine) = Some xs" "dw_op_ok op"
    "load_bytes m (dataCursor machine) (length (dw_encode op)) = Some (dw_encode op)"
  shows "machine_result (FIRCLSDwarfExpressionMachineExecuteNextOpcode A m machine) =
    map_option (\<lambda>ys. (ys, dataCursor machine + of_nat (length (dw_encode op))))
      (dw_step A (registers machine) m op xs)"
proof -
  let ?m = "machine\<lparr>dataCursor := dataCursor machine + 1\<rparr>"
  have wf: "stack_wf (stack ?m)" "stack_view (stack ?m) = Some xs" using assms(1,2) by simp_all
  have mc: "m (dataCursor machine) = Some (hd (dw_encode op))"
    and rest: "load_bytes m (dataCursor machine + 1) (length (tl (dw_encode op))) = Some (tl (dw_encode op))"
    using assms(4) by (cases op; auto simp: bind_Some_iff)+
  have fetch: "FIRCLSParseUint8AndAdvance m (dataCursor machine) = Some (hd (dw_encode op), dataCursor machine + 1)"
    using mc by (rule next_opcode_fetch)
  note defs = FIRCLSDwarfExpressionMachineExecuteNextOpcode_def fetch
  show ?thesis
  proof (cases op)
    case (Dw_lit n)
    with assms(3) have n: "n < 32" by simp
    note r = lit_opcode_range [OF n]
    from exec_lit [OF wf n, of A _ m] r(1,2) Dw_lit show ?thesis
      by (simp add: defs)
  next
    case (Dw_breg n i)
    with assms(3) have n: "n < 32" by simp
    note r = lit_opcode_range [OF n]
    from exec_breg [OF wf, of n i] assms(3) rest r(3,4,5) Dw_breg show ?thesis
      by (simp add: defs add.assoc)
  next
    case (Dw_plus_uconst n)
    then show ?thesis using exec_plus_uconst [OF wf, of n] assms(3) rest
      by (simp add: defs add.assoc)
  next
    case (Dw_deref_size k)
    then show ?thesis using exec_deref_size [OF wf, of k] assms(3) rest
      by (simp add: defs add.assoc bind_Some_iff)
  qed (use exec_deref [OF wf] exec_dup [OF wf] exec_and [OF wf] exec_plus [OF wf] exec_swap [OF wf]
      exec_ne [OF wf] in \<open>simp_all add: defs\<close>)
qed

text \<open>What every instruction keeps, and how far it moves the cursor.\<close>

definition machine_frame :: "nat \<Rightarrow> 'r FIRCLSDwarfExpressionMachine \<Rightarrow> 'r FIRCLSDwarfExpressionMachine \<Rightarrow> bool" where
  "machine_frame k machine machine' \<longleftrightarrow>
     (stack_wf (stack machine) \<longrightarrow> stack_wf (stack machine')) \<and>
     endAddress machine' = endAddress machine \<and> registers machine' = registers machine \<and>
     (\<exists>j\<le>k. dataCursor machine' = dataCursor machine + of_nat j)"

lemma machine_frame_push: "machine_frame 0 machine (fst (FIRCLSDwarfExpressionMachineStackPush machine v))"
  by (simp add: machine_frame_def FIRCLSDwarfExpressionMachineStackPush_def split_beta expr_stack.stack_laws)

lemma machine_frame_pop: "machine_frame 0 machine (fst (FIRCLSDwarfExpressionMachineStackPop machine))"
  by (simp add: machine_frame_def machine_pop expr_stack.stack_laws)

lemma machine_frame_refl: "machine_frame k machine machine"
  by (auto simp: machine_frame_def)

lemma machine_frame_trans:
  "machine_frame i a b \<Longrightarrow> machine_frame j b c \<Longrightarrow> i + j \<le> k \<Longrightarrow> machine_frame k a c"
proof -
  assume f: "machine_frame i a b" "machine_frame j b c" "i + j \<le> k"
  then obtain x y where "x \<le> i" "y \<le> j" "dataCursor c = dataCursor a + of_nat (x + y)"
    by (auto simp: machine_frame_def add.assoc)
  with f show ?thesis
    by (fastforce simp: machine_frame_def intro: exI [of _ "x + y"])
qed

lemma machine_frame_cursor:
  "advances k (dataCursor machine) c \<Longrightarrow> machine_frame k machine (machine\<lparr>dataCursor := c\<rparr>)"
  by (auto simp: machine_frame_def advances_def)

lemma machine_frame_peek:
  "machine_frame 0 machine (machine\<lparr>stack := fst (FIRCLSDwarfExpressionStackPeek (stack machine))\<rparr>)"
  by (simp add: machine_frame_def expr_stack.stack_laws)

lemmas machine_frames = machine_frame_push machine_frame_pop machine_frame_refl machine_frame_peek

lemma frame_pop_push:
  "machine_frame 0 machine
     (fst (FIRCLSDwarfExpressionMachineStackPush (fst (FIRCLSDwarfExpressionMachineStackPop machine)) v))"
  by (rule machine_frame_trans [OF machine_frame_pop machine_frame_push]) simp

lemma frame_pop_pop_push:
  "machine_frame 0 machine
     (fst (FIRCLSDwarfExpressionMachineStackPush
       (fst (FIRCLSDwarfExpressionMachineStackPop (fst (FIRCLSDwarfExpressionMachineStackPop machine)))) v))"
  by (rule machine_frame_trans [OF machine_frame_pop frame_pop_push]) simp

lemma execute_frame_simple:
  "FIRCLSDwarfExpressionMachineExecute_deref m machine = Some (machine', ok) \<Longrightarrow> machine_frame 0 machine machine'"
  "FIRCLSDwarfExpressionMachineExecute_dup machine = Some (machine', ok) \<Longrightarrow> machine_frame 0 machine machine'"
  "FIRCLSDwarfExpressionMachineExecute_and machine = Some (machine', ok) \<Longrightarrow> machine_frame 0 machine machine'"
  "FIRCLSDwarfExpressionMachineExecute_plus machine = Some (machine', ok) \<Longrightarrow> machine_frame 0 machine machine'"
  "FIRCLSDwarfExpressionMachineExecute_ne machine = Some (machine', ok) \<Longrightarrow> machine_frame 0 machine machine'"
  "FIRCLSDwarfExpressionMachineExecute_litN machine b = Some (machine', ok) \<Longrightarrow> machine_frame 0 machine machine'"
proof -
  note defs = split_beta Let_def bind_Some_iff prod_eq_iff
  show "FIRCLSDwarfExpressionMachineExecute_deref m machine = Some (machine', ok) \<Longrightarrow> machine_frame 0 machine machine'"
    using frame_pop_push [of machine] machine_frame_pop [of machine]
    by (auto simp: FIRCLSDwarfExpressionMachineExecute_deref_def defs split: option.splits)
  show "FIRCLSDwarfExpressionMachineExecute_dup machine = Some (machine', ok) \<Longrightarrow> machine_frame 0 machine machine'"
    by (auto simp: FIRCLSDwarfExpressionMachineExecute_dup_def defs
        intro: machine_frame_trans [OF machine_frame_peek machine_frame_push])
  show "FIRCLSDwarfExpressionMachineExecute_and machine = Some (machine', ok) \<Longrightarrow> machine_frame 0 machine machine'"
    using frame_pop_pop_push [of machine] by (auto simp: FIRCLSDwarfExpressionMachineExecute_and_def defs)
  show "FIRCLSDwarfExpressionMachineExecute_plus machine = Some (machine', ok) \<Longrightarrow> machine_frame 0 machine machine'"
    using frame_pop_pop_push [of machine] by (auto simp: FIRCLSDwarfExpressionMachineExecute_plus_def defs)
  show "FIRCLSDwarfExpressionMachineExecute_ne machine = Some (machine', ok) \<Longrightarrow> machine_frame 0 machine machine'"
    using frame_pop_pop_push [of machine] by (auto simp: FIRCLSDwarfExpressionMachineExecute_ne_def defs)
  show "FIRCLSDwarfExpressionMachineExecute_litN machine b = Some (machine', ok) \<Longrightarrow> machine_frame 0 machine machine'"
    using machine_frame_push [of machine] by (auto simp: FIRCLSDwarfExpressionMachineExecute_litN_def defs)
qed

lemma execute_frame_swap:
  "FIRCLSDwarfExpressionMachineExecute_swap machine = Some (machine', ok) \<Longrightarrow> machine_frame 0 machine machine'"
  using frame_pop_pop_push [of machine] machine_frame_trans [OF frame_pop_pop_push machine_frame_push, of 0]
  by (auto simp: FIRCLSDwarfExpressionMachineExecute_swap_def split_beta Let_def prod_eq_iff split: if_splits)

lemma execute_frame_plus_uconst:
  assumes "FIRCLSDwarfExpressionMachineExecute_plus_uconst m machine = Some (machine', ok)"
  shows "machine_frame 8 machine machine'"
proof -
  let ?p = "fst (FIRCLSDwarfExpressionMachineStackPop machine)"
  obtain u c where u: "FIRCLSParseULEB128AndAdvance m (dataCursor ?p) = Some (u, c)"
    and r: "\<exists>v. machine' = fst (FIRCLSDwarfExpressionMachineStackPush (?p\<lparr>dataCursor := c\<rparr>) v)"
    using assms
    by (fastforce simp: FIRCLSDwarfExpressionMachineExecute_plus_uconst_def split_beta bind_Some_iff prod_eq_iff)
  from r obtain v where m': "machine' = fst (FIRCLSDwarfExpressionMachineStackPush (?p\<lparr>dataCursor := c\<rparr>) v)" ..
  have "machine_frame 8 ?p (?p\<lparr>dataCursor := c\<rparr>)"
    by (rule machine_frame_cursor [OF uleb_advances [OF u]])
  from machine_frame_trans [OF this machine_frame_push] have "machine_frame 8 ?p machine'" by (simp add: m')
  from machine_frame_trans [OF machine_frame_pop this] show ?thesis by simp
qed

lemma execute_frame_breg:
  assumes "FIRCLSDwarfExpressionMachineExecute_bregN A m machine b = Some (machine', ok)"
  shows "machine_frame 8 machine machine'"
proof (cases "DWARF_MAX_REGISTER_NUM A < ucast (b - DW_OP_breg0)")
  case True
  with assms show ?thesis by (auto simp: FIRCLSDwarfExpressionMachineExecute_bregN_def intro: machine_frame_refl)
next
  case False
  with assms obtain u c v where u: "FIRCLSParseLEB128AndAdvance m (dataCursor machine) = Some (u, c)"
    and m': "machine' = fst (FIRCLSDwarfExpressionMachineStackPush (machine\<lparr>dataCursor := c\<rparr>) v)"
    by (auto simp: FIRCLSDwarfExpressionMachineExecute_bregN_def split_beta bind_Some_iff Let_def prod_eq_iff)
  have "machine_frame 8 machine (machine\<lparr>dataCursor := c\<rparr>)"
    by (rule machine_frame_cursor [OF leb_advances [OF u]])
  from machine_frame_trans [OF this machine_frame_push] show ?thesis by (simp add: m')
qed

lemma execute_frame_deref_size:
  assumes "FIRCLSDwarfExpressionMachineExecute_deref_size m machine = Some (machine', ok)"
  shows "machine_frame 1 machine machine'"
proof -
  let ?p = "fst (FIRCLSDwarfExpressionMachineStackPop machine)"
  let ?q = "?p\<lparr>dataCursor := dataCursor ?p + 1\<rparr>"
  obtain b where u: "FIRCLSParseUint8AndAdvance m (dataCursor ?p) = Some (b, dataCursor ?p + 1)"
    using assms uint8_advances
    by (fastforce simp: FIRCLSDwarfExpressionMachineExecute_deref_size_def split_beta bind_Some_iff)
  have "machine' = ?q \<or> (\<exists>v. machine' = fst (FIRCLSDwarfExpressionMachineStackPush ?q v))"
    using assms u
    by (auto simp: FIRCLSDwarfExpressionMachineExecute_deref_size_def split_beta bind_Some_iff Let_def prod_eq_iff
        split: if_splits)
  moreover have q: "machine_frame 1 ?p ?q" by (intro machine_frame_cursor advances_1) simp
  ultimately have "machine_frame 1 ?p machine'"
    using machine_frame_trans [OF q machine_frame_push, of 1] by auto
  from machine_frame_trans [OF machine_frame_pop this] show ?thesis by simp
qed

lemma next_opcode_frame:
  assumes "FIRCLSDwarfExpressionMachineExecuteNextOpcode A m machine = Some (machine', ok)"
  shows "stack_wf (stack machine) \<Longrightarrow> stack_wf (stack machine')"
    and "endAddress machine' = endAddress machine" and "registers machine' = registers machine"
    and "advances 9 (dataCursor machine) (dataCursor machine')"
proof -
  let ?q = "machine\<lparr>dataCursor := dataCursor machine + 1\<rparr>"
  obtain b where u: "FIRCLSParseUint8AndAdvance m (dataCursor machine) = Some (b, dataCursor machine + 1)"
    using assms uint8_advances
    by (fastforce simp: FIRCLSDwarfExpressionMachineExecuteNextOpcode_def split_beta bind_Some_iff)
  have up: "machine_frame k ?q machine' \<Longrightarrow> k \<le> 8 \<Longrightarrow> machine_frame 8 ?q machine'" for k
    by (erule machine_frame_trans [OF _ machine_frame_refl [of 0]]) simp
  have "machine_frame 8 ?q machine'"
    using assms u
    by (auto simp: FIRCLSDwarfExpressionMachineExecuteNextOpcode_def Let_def
        intro: up execute_frame_breg execute_frame_plus_uconst machine_frame_refl
        dest: execute_frame_simple execute_frame_swap execute_frame_deref_size split: if_splits)
  then show "stack_wf (stack machine) \<Longrightarrow> stack_wf (stack machine')"
    and "endAddress machine' = endAddress machine" and "registers machine' = registers machine"
    and "advances 9 (dataCursor machine) (dataCursor machine')"
    by (auto simp: machine_frame_def advances_def intro: exI [of _ "Suc j" for j])
qed

subsection \<open>Properties\<close>



text \<open>C15 (refinement): executing one opcode of the machine on the encoding of an operation computes the
  meaning of that operation on the stack and moves the cursor behind it; when the operation has no
  meaning (a missing operand, a full stack, unreadable memory), the machine does not succeed.\<close>

theorem opcode_executes:
  assumes "stack_wf (stack machine)" "stack_view (stack machine) = Some xs" "dw_op_ok op"
    "load_bytes m (dataCursor machine) (length (dw_encode op)) = Some (dw_encode op)"
  shows "machine_result (FIRCLSDwarfExpressionMachineExecuteNextOpcode A m machine) =
    map_option (\<lambda>ys. (ys, dataCursor machine + of_nat (length (dw_encode op))))
      (dw_step A (registers machine) m op xs)"
  using assms by (rule exec_opcode)

theorem opcode_executes_witness:
  "machine_result (FIRCLSDwarfExpressionMachineExecuteNextOpcode arch_x86_64 (bytes_at 0x2000 [0x35])
     \<lparr> stack = FIRCLSDwarfExpressionStackInit, dataCursor = 0x2000, endAddress = 0x2001, registers = None \<rparr>)
   = Some ([5], 0x2001)"
proof -
  have "load_bytes (bytes_at 0x2000 [0x35]) 0x2000 1 = Some [0x35]"
    using load_bytes_at [of "[0x35]" "0x2000"] by simp
  then show ?thesis
    using opcode_executes [of "\<lparr> stack = FIRCLSDwarfExpressionStackInit, dataCursor = 0x2000,
        endAddress = 0x2001, registers = None \<rparr>" "[]" "Dw_lit 5" "bytes_at 0x2000 [0x35]" arch_x86_64]
    by (simp add: stack_init)
qed

end
