(* ===== verification/DwarfUnwind.thy ===== *)
theory DwarfUnwind
  imports DwarfExpr
begin

section \<open>DWARF call frame unwinding (FIRCLSDwarfUnwind.c)\<close>

text \<open>
  \<open>Unwind/Dwarf/FIRCLSDwarfUnwind.c\<close>: the parser of CIE and FDE records, the interpreter of call frame
  instructions, and the restoration of the caller's registers.

  Pointers to the records and to the state are addresses of locals of the callers and always valid, so
  the records are passed by value and returned updated; the thread context is the \<open>option\<close> of
  theory ThreadState.  \<open>None\<close> as a result is undefined behaviour: unmapped memory, signed overflow, the
  undefined shifts of the LEB128 readers.  The functions that only print (\<open>#if DEBUG\<close>) are left out.
\<close>

subsection \<open>Records\<close>

record DWARFInstructions =
  ins_length :: u32
  ins_data :: addr

record DWARFCIERecord =
  cie_length :: u64
  cie_version :: u8
  cie_ehData :: u64
  cie_augmentation :: addr
  cie_pointerEncoding :: u8
  cie_lsdaEncoding :: u8
  cie_personalityEncoding :: u8
  cie_personalityFunction :: u64
  cie_codeAlignFactor :: u64
  cie_dataAlignFactor :: u64
  cie_returnAddressRegister :: u64
  cie_signalFrame :: bool
  cie_instructions :: DWARFInstructions

record DWARFFDERecord =
  fde_length :: u64
  fde_cieOffset :: u64
  fde_startAddress :: u64
  fde_rangeSize :: u64
  fde_instructions :: DWARFInstructions

record FIRCLSDwarfCFIRecord =
  cfi_cie :: DWARFCIERecord
  cfi_fde :: DWARFFDERecord

datatype FIRCLSDwarfRegisterLocation =
    FIRCLSDwarfRegisterUnused
  | FIRCLSDwarfRegisterInCFA
  | FIRCLSDwarfRegisterOffsetFromCFA
  | FIRCLSDwarfRegisterInRegister
  | FIRCLSDwarfRegisterAtExpression
  | FIRCLSDwarfRegisterIsExpression

record FIRCLSDwarfRegister =
  location :: FIRCLSDwarfRegisterLocation
  reg_value :: u64

record FIRCLSDwarfState =
  cfaRegister :: u64
  cfaRegisterOffset :: u64
  cfaExpression :: addr
  spArgSize :: u32
  state_registers :: "FIRCLSDwarfRegister list"

definition zero_instructions :: DWARFInstructions where
  "zero_instructions = \<lparr> ins_length = 0, ins_data = 0 \<rparr>"

definition zero_cie :: DWARFCIERecord where
  "zero_cie = \<lparr>
     cie_length = 0, cie_version = 0, cie_ehData = 0, cie_augmentation = 0, cie_pointerEncoding = 0,
     cie_lsdaEncoding = 0, cie_personalityEncoding = 0, cie_personalityFunction = 0,
     cie_codeAlignFactor = 0, cie_dataAlignFactor = 0, cie_returnAddressRegister = 0,
     cie_signalFrame = False, cie_instructions = zero_instructions \<rparr>"

definition zero_state :: "'r arch \<Rightarrow> FIRCLSDwarfState" where
  "zero_state A = \<lparr>
     cfaRegister = 0, cfaRegisterOffset = 0, cfaExpression = 0, spArgSize = 0,
     state_registers = replicate (unat (DWARF_MAX_REGISTER_NUM A) + 1)
       \<lparr> location = FIRCLSDwarfRegisterUnused, reg_value = 0 \<rparr> \<rparr>"

subsection \<open>Record parsing\<close>

text \<open>The loop over the augmentation string, from index \<open>i\<close>, with \<open>n\<close> characters to go.\<close>

fun augmentation_loop ::
  "mem \<Rightarrow> addr \<Rightarrow> nat \<Rightarrow> u64 \<Rightarrow> DWARFCIERecord \<Rightarrow> addr \<Rightarrow> (DWARFCIERecord \<times> addr \<times> bool) option" where
  "augmentation_loop m ending 0 i record ptr = Some (record, ptr, True)"
| "augmentation_loop m ending (Suc n) i record ptr = do {
     c \<leftarrow> m (cie_augmentation record + i);
     (record, ptr, ok) \<leftarrow>
       (if c = 0x4C then do {
          (e, ptr) \<leftarrow> FIRCLSParseUint8AndAdvance m ptr;
          Some (record\<lparr>cie_lsdaEncoding := e\<rparr>, ptr, True) }
        else if c = 0x52 then do {
          (e, ptr) \<leftarrow> FIRCLSParseUint8AndAdvance m ptr;
          Some (record\<lparr>cie_pointerEncoding := e\<rparr>, ptr, True) }
        else if c = 0x50 then do {
          (e, ptr) \<leftarrow> FIRCLSParseUint8AndAdvance m ptr;
          (p, ptr) \<leftarrow> FIRCLSParseAddressWithEncodingAndAdvance m ptr e;
          Some (record\<lparr>cie_personalityEncoding := e, cie_personalityFunction := p\<rparr>, ptr,
            p \<noteq> CLS_INVALID_ADDRESS) }
        else if c = 0x53 then Some (record\<lparr>cie_signalFrame := True\<rparr>, ptr, True)
        else Some (record, ptr, False));
     if \<not> ok then Some (record, ptr, False)
     else if ending < ptr then Some (record, ptr, False)
     else augmentation_loop m ending n (i + 1) record ptr }"

definition FIRCLSDwarfParseAndProcessAugmentation ::
  "mem \<Rightarrow> DWARFCIERecord \<Rightarrow> addr \<Rightarrow> (DWARFCIERecord \<times> addr \<times> bool) option" where
  "FIRCLSDwarfParseAndProcessAugmentation m record ptr =
     (if cie_augmentation record = 0 then Some (record, ptr, False)
      else do {
        c0 \<leftarrow> m (cie_augmentation record);
        if c0 = 0 then Some (record, ptr, True)
        else if c0 \<noteq> 0x7A then Some (record, ptr, False)
        else do {
          stringLength \<leftarrow> c_strlen m (cie_augmentation record);
          (dataLength, ptr) \<leftarrow> FIRCLSParseULEB128AndAdvance m ptr;
          augmentation_loop m (ptr + dataLength) (unat stringLength - 1) 1 record ptr } })"

definition FIRCLSDwarfParseCIERecord ::
  "mem \<Rightarrow> DWARFCIERecord \<Rightarrow> addr \<Rightarrow> (DWARFCIERecord \<times> bool) option" where
  "FIRCLSDwarfParseCIERecord m cie ptr =
     (if ptr = 0 then Some (cie, False)
      else do {
        let cie = zero_cie;
        (length, ptr) \<leftarrow> FIRCLSParseRecordLengthAndAdvance m ptr;
        let cie = cie\<lparr>cie_length := length\<rparr>;
        if length = 0 then Some (cie, False)
        else do {
          let endAddress = ptr + length;
          (flag, ptr) \<leftarrow> FIRCLSParseUint32AndAdvance m ptr;
          (version, ptr) \<leftarrow> FIRCLSParseUint8AndAdvance m ptr;
          let cie = cie\<lparr>cie_version := version, cie_pointerEncoding := DW_EH_PE_absptr,
                        cie_lsdaEncoding := DW_EH_PE_absptr\<rparr>;
          (augmentation, ptr) \<leftarrow> FIRCLSParseStringAndAdvance m ptr;
          (codeAlign, ptr) \<leftarrow> FIRCLSParseULEB128AndAdvance m ptr;
          (dataAlign, ptr) \<leftarrow> FIRCLSParseLEB128AndAdvance m ptr;
          let cie = cie\<lparr>cie_augmentation := augmentation, cie_codeAlignFactor := codeAlign,
                        cie_dataAlignFactor := dataAlign\<rparr>;
          if version \<noteq> 1 \<and> version \<noteq> 3 then Some (cie, False)
          else do {
            (ra, ptr) \<leftarrow>
              (if version = 1 then do {
                 (b, ptr) \<leftarrow> FIRCLSParseUint8AndAdvance m ptr; Some (ucast b, ptr) }
               else FIRCLSParseULEB128AndAdvance m ptr);
            let cie = cie\<lparr>cie_returnAddressRegister := ra\<rparr>;
            (cie, ptr, ok) \<leftarrow> FIRCLSDwarfParseAndProcessAugmentation m cie ptr;
            if \<not> ok then Some (cie, False)
            else Some (cie\<lparr>cie_instructions :=
              \<lparr> ins_length = ucast (endAddress - ptr), ins_data = ptr \<rparr>\<rparr>, True) } } })"

definition FIRCLSDwarfCIEIsValid :: "DWARFCIERecord \<Rightarrow> bool" where
  "FIRCLSDwarfCIEIsValid cie =
     (if cie_length cie = 0 then False
      else if cie_version cie \<noteq> 1 \<and> cie_version cie \<noteq> 3 then False
      else True)"

definition FIRCLSDwarfCIEHasAugmentationData :: "mem \<Rightarrow> DWARFCIERecord \<Rightarrow> bool option" where
  "FIRCLSDwarfCIEHasAugmentationData m cie =
     (if cie_augmentation cie = 0 then Some False
      else do { c \<leftarrow> m (cie_augmentation cie); Some (c = 0x7A) })"

definition FIRCLSDwarfParseFDERecord ::
  "mem \<Rightarrow> DWARFFDERecord \<Rightarrow> bool \<Rightarrow> DWARFCIERecord \<Rightarrow> addr \<Rightarrow> (DWARFFDERecord \<times> DWARFCIERecord \<times> bool) option" where
  "FIRCLSDwarfParseFDERecord m fde parseCIE cie ptr =
     (if ptr = 0 then Some (fde, cie, False)
      else do {
        (length, ptr) \<leftarrow> FIRCLSParseRecordLengthAndAdvance m ptr;
        let fde = fde\<lparr>fde_length := length\<rparr>;
        if length = 0 then Some (fde, cie, False)
        else do {
          let endAddress = ptr + length;
          (cieOffset, ptr) \<leftarrow> FIRCLSParseUint32AndAdvance m ptr;
          let fde = fde\<lparr>fde_cieOffset := ucast cieOffset\<rparr>;
          if cieOffset = 0 then Some (fde, cie, False)
          else do {
            (cie, ok) \<leftarrow>
              (if parseCIE then FIRCLSDwarfParseCIERecord m cie (ptr - ucast cieOffset - 4)
               else Some (cie, True));
            if \<not> ok then Some (fde, cie, False)
            else if \<not> FIRCLSDwarfCIEIsValid cie then Some (fde, cie, False)
            else do {
              (startAddress, ptr) \<leftarrow>
                FIRCLSParseAddressWithEncodingAndAdvance m ptr (cie_pointerEncoding cie);
              let fde = fde\<lparr>fde_startAddress := startAddress\<rparr>;
              if startAddress = CLS_INVALID_ADDRESS then Some (fde, cie, False)
              else do {
                (rangeSize, ptr) \<leftarrow> FIRCLSParseAddressWithEncodingAndAdvance m ptr
                  (cie_pointerEncoding cie AND DW_EH_PE_VALUE_MASK);
                let fde = fde\<lparr>fde_rangeSize := rangeSize\<rparr>;
                if rangeSize = CLS_INVALID_ADDRESS then Some (fde, cie, False)
                else do {
                  hasData \<leftarrow> FIRCLSDwarfCIEHasAugmentationData m cie;
                  ptr \<leftarrow>
                    (if hasData then do {
                       (augmentationLength, ptr) \<leftarrow> FIRCLSParseULEB128AndAdvance m ptr;
                       Some (ptr + augmentationLength) }
                     else Some ptr);
                  Some (fde\<lparr>fde_instructions :=
                    \<lparr> ins_length = ucast (endAddress - ptr), ins_data = ptr \<rparr>\<rparr>, cie, True) } } } } } })"

definition FIRCLSDwarfParseCFIFromFDERecord ::
  "mem \<Rightarrow> FIRCLSDwarfCFIRecord \<Rightarrow> addr \<Rightarrow> (FIRCLSDwarfCFIRecord \<times> bool) option" where
  "FIRCLSDwarfParseCFIFromFDERecord m record ptr =
     (if ptr = 0 then Some (record, False)
      else do {
        (fde, cie, ok) \<leftarrow> FIRCLSDwarfParseFDERecord m (cfi_fde record) True (cfi_cie record) ptr;
        Some (\<lparr> cfi_cie = cie, cfi_fde = fde \<rparr>, ok) })"

definition FIRCLSDwarfParseCFIFromFDERecordOffset ::
  "mem \<Rightarrow> FIRCLSDwarfCFIRecord \<Rightarrow> addr \<Rightarrow> u64 \<Rightarrow> (FIRCLSDwarfCFIRecord \<times> bool) option" where
  "FIRCLSDwarfParseCFIFromFDERecordOffset m record ehFrame fdeOffset =
     (if ehFrame = 0 \<or> fdeOffset = 0 then Some (record, False)
      else FIRCLSDwarfParseCFIFromFDERecord m record (ehFrame + fdeOffset))"

subsection \<open>Call frame instructions\<close>

text \<open>Each returns the advanced cursor, what it changes of the location and the state, and its success.\<close>

definition FIRCLSDwarfParseAndExecute_set_loc ::
  "mem \<Rightarrow> addr \<Rightarrow> DWARFCIERecord \<Rightarrow> u64 \<Rightarrow> (addr \<times> u64 \<times> bool) option" where
  "FIRCLSDwarfParseAndExecute_set_loc m cursor cie codeOffset = do {
     (operand, cursor) \<leftarrow> FIRCLSParseAddressWithEncodingAndAdvance m cursor (cie_pointerEncoding cie);
     Some (cursor, operand, True) }"

definition FIRCLSDwarfParseAndExecute_advance_loc1 ::
  "mem \<Rightarrow> addr \<Rightarrow> DWARFCIERecord \<Rightarrow> u64 \<Rightarrow> (addr \<times> u64 \<times> bool) option" where
  "FIRCLSDwarfParseAndExecute_advance_loc1 m cursor cie codeOffset = do {
     (d, cursor) \<leftarrow> FIRCLSParseUint8AndAdvance m cursor;
     codeOffset \<leftarrow> int64_add codeOffset (ucast d * cie_codeAlignFactor cie);
     Some (cursor, codeOffset, True) }"

definition FIRCLSDwarfParseAndExecute_advance_loc2 ::
  "mem \<Rightarrow> addr \<Rightarrow> DWARFCIERecord \<Rightarrow> u64 \<Rightarrow> (addr \<times> u64 \<times> bool) option" where
  "FIRCLSDwarfParseAndExecute_advance_loc2 m cursor cie codeOffset = do {
     (d, cursor) \<leftarrow> FIRCLSParseUint16AndAdvance m cursor;
     codeOffset \<leftarrow> int64_add codeOffset (ucast d * cie_codeAlignFactor cie);
     Some (cursor, codeOffset, True) }"

definition FIRCLSDwarfParseAndExecute_advance_loc4 ::
  "mem \<Rightarrow> addr \<Rightarrow> DWARFCIERecord \<Rightarrow> u64 \<Rightarrow> (addr \<times> u64 \<times> bool) option" where
  "FIRCLSDwarfParseAndExecute_advance_loc4 m cursor cie codeOffset = do {
     (d, cursor) \<leftarrow> FIRCLSParseUint32AndAdvance m cursor;
     codeOffset \<leftarrow> int64_add codeOffset (ucast d * cie_codeAlignFactor cie);
     Some (cursor, codeOffset, True) }"

definition FIRCLSDwarfParseAndExecute_def_cfa ::
  "'r arch \<Rightarrow> mem \<Rightarrow> addr \<Rightarrow> FIRCLSDwarfState \<Rightarrow> (addr \<times> FIRCLSDwarfState \<times> bool) option" where
  "FIRCLSDwarfParseAndExecute_def_cfa A m cursor state = do {
     (regNum, cursor) \<leftarrow> FIRCLSParseULEB128AndAdvance m cursor;
     if DWARF_MAX_REGISTER_NUM A < regNum then Some (cursor, state, False)
     else do {
       (offset, cursor) \<leftarrow> FIRCLSParseULEB128AndAdvance m cursor;
       Some (cursor, state\<lparr>cfaRegister := regNum, cfaRegisterOffset := offset\<rparr>, True) } }"

definition FIRCLSDwarfParseAndExecute_def_cfa_register ::
  "'r arch \<Rightarrow> mem \<Rightarrow> addr \<Rightarrow> FIRCLSDwarfState \<Rightarrow> (addr \<times> FIRCLSDwarfState \<times> bool) option" where
  "FIRCLSDwarfParseAndExecute_def_cfa_register A m cursor state = do {
     (regNum, cursor) \<leftarrow> FIRCLSParseULEB128AndAdvance m cursor;
     if DWARF_MAX_REGISTER_NUM A < regNum then Some (cursor, state, False)
     else Some (cursor, state\<lparr>cfaRegister := regNum\<rparr>, True) }"

definition FIRCLSDwarfParseAndExecute_def_cfa_offset ::
  "mem \<Rightarrow> addr \<Rightarrow> FIRCLSDwarfState \<Rightarrow> (addr \<times> FIRCLSDwarfState \<times> bool) option" where
  "FIRCLSDwarfParseAndExecute_def_cfa_offset m cursor state = do {
     (offset, cursor) \<leftarrow> FIRCLSParseULEB128AndAdvance m cursor;
     Some (cursor, state\<lparr>cfaRegisterOffset := offset\<rparr>, True) }"

definition set_register_location ::
  "FIRCLSDwarfState \<Rightarrow> u64 \<Rightarrow> FIRCLSDwarfRegisterLocation \<Rightarrow> FIRCLSDwarfState" where
  "set_register_location state n loc = state\<lparr>state_registers :=
     (state_registers state)[unat n := (state_registers state ! unat n)\<lparr>location := loc\<rparr>]\<rparr>"

definition set_register_value :: "FIRCLSDwarfState \<Rightarrow> u64 \<Rightarrow> u64 \<Rightarrow> FIRCLSDwarfState" where
  "set_register_value state n v = state\<lparr>state_registers :=
     (state_registers state)[unat n := (state_registers state ! unat n)\<lparr>reg_value := v\<rparr>]\<rparr>"

definition FIRCLSDwarfParseAndExecute_same_value ::
  "'r arch \<Rightarrow> mem \<Rightarrow> addr \<Rightarrow> FIRCLSDwarfState \<Rightarrow> (addr \<times> FIRCLSDwarfState \<times> bool) option" where
  "FIRCLSDwarfParseAndExecute_same_value A m cursor state = do {
     (regNum, cursor) \<leftarrow> FIRCLSParseULEB128AndAdvance m cursor;
     if DWARF_MAX_REGISTER_NUM A < regNum then Some (cursor, state, False)
     else Some (cursor, set_register_location state regNum FIRCLSDwarfRegisterUnused, True) }"

definition FIRCLSDwarfParseAndExecute_register ::
  "'r arch \<Rightarrow> mem \<Rightarrow> addr \<Rightarrow> FIRCLSDwarfState \<Rightarrow> (addr \<times> FIRCLSDwarfState \<times> bool) option" where
  "FIRCLSDwarfParseAndExecute_register A m cursor state = do {
     (regNum, cursor) \<leftarrow> FIRCLSParseULEB128AndAdvance m cursor;
     if DWARF_MAX_REGISTER_NUM A < regNum then Some (cursor, state, False)
     else do {
       (regValue, cursor) \<leftarrow> FIRCLSParseULEB128AndAdvance m cursor;
       if DWARF_MAX_REGISTER_NUM A < regValue then Some (cursor, state, False)
       else
         let state = set_register_location state regNum FIRCLSDwarfRegisterInRegister;
             state = set_register_value state regNum regValue
         in Some (cursor, state, True) } }"

definition FIRCLSDwarfParseAndExecute_expression ::
  "'r arch \<Rightarrow> mem \<Rightarrow> addr \<Rightarrow> FIRCLSDwarfState \<Rightarrow> (addr \<times> FIRCLSDwarfState \<times> bool) option" where
  "FIRCLSDwarfParseAndExecute_expression A m cursor state = do {
     (regNum, cursor) \<leftarrow> FIRCLSParseULEB128AndAdvance m cursor;
     if DWARF_MAX_REGISTER_NUM A < regNum then Some (cursor, state, False)
     else do {
       let state = set_register_location state regNum FIRCLSDwarfRegisterAtExpression;
       let state = set_register_value state regNum cursor;
       (length, cursor) \<leftarrow> FIRCLSParseULEB128AndAdvance m cursor;
       Some (cursor + length, state, True) } }"

definition FIRCLSDwarfParseAndExecute_val_expression ::
  "'r arch \<Rightarrow> mem \<Rightarrow> addr \<Rightarrow> FIRCLSDwarfState \<Rightarrow> (addr \<times> FIRCLSDwarfState \<times> bool) option" where
  "FIRCLSDwarfParseAndExecute_val_expression A m cursor state = do {
     (regNum, cursor) \<leftarrow> FIRCLSParseULEB128AndAdvance m cursor;
     if DWARF_MAX_REGISTER_NUM A < regNum then Some (cursor, state, False)
     else do {
       let state = set_register_location state regNum FIRCLSDwarfRegisterIsExpression;
       let state = set_register_value state regNum cursor;
       (length, cursor) \<leftarrow> FIRCLSParseULEB128AndAdvance m cursor;
       Some (cursor + length, state, True) } }"

definition FIRCLSDwarfParseAndExecute_def_cfa_expression ::
  "'r arch \<Rightarrow> mem \<Rightarrow> addr \<Rightarrow> FIRCLSDwarfState \<Rightarrow> (addr \<times> FIRCLSDwarfState \<times> bool) option" where
  "FIRCLSDwarfParseAndExecute_def_cfa_expression A m cursor state = do {
     let state = state\<lparr>cfaRegister := DWARF_MAX_REGISTER_NUM A + 1, cfaExpression := cursor\<rparr>;
     (length, cursor) \<leftarrow> FIRCLSParseULEB128AndAdvance m cursor;
     Some (cursor + length, state, True) }"

definition FIRCLSDwarfParseAndExecute_offset ::
  "'r arch \<Rightarrow> mem \<Rightarrow> addr \<Rightarrow> DWARFCIERecord \<Rightarrow> FIRCLSDwarfState \<Rightarrow> u8 \<Rightarrow>
   (addr \<times> FIRCLSDwarfState \<times> bool) option" where
  "FIRCLSDwarfParseAndExecute_offset A m cursor cie state regNum =
     (if DWARF_MAX_REGISTER_NUM A < ucast regNum then Some (cursor, state, False)
      else do {
        (u, cursor) \<leftarrow> FIRCLSParseULEB128AndAdvance m cursor;
        let offset = u * cie_dataAlignFactor cie;
        let state = set_register_location state (ucast regNum) FIRCLSDwarfRegisterInCFA;
        let state = set_register_value state (ucast regNum) offset;
        Some (cursor, state, True) })"

definition FIRCLSDwarfParseAndExecute_advance_loc :: "DWARFCIERecord \<Rightarrow> u8 \<Rightarrow> u64 option" where
  "FIRCLSDwarfParseAndExecute_advance_loc cie delta = int64_mul (ucast delta) (cie_codeAlignFactor cie)"

definition FIRCLSDwarfParseAndExecuteInstructionWithOperand ::
  "'r arch \<Rightarrow> mem \<Rightarrow> addr \<Rightarrow> u8 \<Rightarrow> DWARFCIERecord \<Rightarrow> FIRCLSDwarfState \<Rightarrow> u64 \<Rightarrow>
   (addr \<times> FIRCLSDwarfState \<times> u64 \<times> bool) option" where
  "FIRCLSDwarfParseAndExecuteInstructionWithOperand A m cursor instruction cie state codeOffset =
     (let operand = instruction AND 0x3F; opcode = instruction AND 0xC0 in
      if opcode = 0x80 then do {
        (cursor, state, ok) \<leftarrow> FIRCLSDwarfParseAndExecute_offset A m cursor cie state operand;
        Some (cursor, state, codeOffset, ok) }
      else if opcode = 0x40 then do {
        codeOffset \<leftarrow> FIRCLSDwarfParseAndExecute_advance_loc cie operand;
        Some (cursor, state, codeOffset, True) }
      else Some (cursor, state, codeOffset, False))"

text \<open>One turn of the loop of \<open>FIRCLSDwarfInstructionsEnumerate\<close>: fetch an instruction and execute it.\<close>

definition with_offset ::
  "FIRCLSDwarfState \<Rightarrow> (addr \<times> u64 \<times> bool) option \<Rightarrow> (addr \<times> FIRCLSDwarfState \<times> u64 \<times> bool) option" where
  "with_offset state r = map_option (\<lambda>(cursor, codeOffset, ok). (cursor, state, codeOffset, ok)) r"

definition with_state ::
  "u64 \<Rightarrow> (addr \<times> FIRCLSDwarfState \<times> bool) option \<Rightarrow> (addr \<times> FIRCLSDwarfState \<times> u64 \<times> bool) option" where
  "with_state codeOffset r = map_option (\<lambda>(cursor, state, ok). (cursor, state, codeOffset, ok)) r"

definition cfa_unimplemented :: "u8 list" where
  "cfa_unimplemented = [0x5, 0x6, 0x7, 0xA, 0xB, 0x11, 0x12, 0x13, 0x14, 0x15, 0x2D, 0x2E, 0x2F]"

definition execute_instruction ::
  "'r arch \<Rightarrow> mem \<Rightarrow> DWARFCIERecord \<Rightarrow> addr \<Rightarrow> FIRCLSDwarfState \<Rightarrow> u64 \<Rightarrow>
   (addr \<times> FIRCLSDwarfState \<times> u64 \<times> bool) option" where
  "execute_instruction A m cie cursor state codeOffset = do {
     (instruction, cursor) \<leftarrow> FIRCLSParseUint8AndAdvance m cursor;
     if instruction = 0x0 then Some (cursor, state, codeOffset, True)
     else if instruction = 0x1 then
       with_offset state (FIRCLSDwarfParseAndExecute_set_loc m cursor cie codeOffset)
     else if instruction = 0x2 then
       with_offset state (FIRCLSDwarfParseAndExecute_advance_loc1 m cursor cie codeOffset)
     else if instruction = 0x3 then
       with_offset state (FIRCLSDwarfParseAndExecute_advance_loc2 m cursor cie codeOffset)
     else if instruction = 0x4 then
       with_offset state (FIRCLSDwarfParseAndExecute_advance_loc4 m cursor cie codeOffset)
     else if instruction = 0xC then
       with_state codeOffset (FIRCLSDwarfParseAndExecute_def_cfa A m cursor state)
     else if instruction = 0xD then
       with_state codeOffset (FIRCLSDwarfParseAndExecute_def_cfa_register A m cursor state)
     else if instruction = 0xE then
       with_state codeOffset (FIRCLSDwarfParseAndExecute_def_cfa_offset m cursor state)
     else if instruction = 0x8 then
       with_state codeOffset (FIRCLSDwarfParseAndExecute_same_value A m cursor state)
     else if instruction = 0x9 then
       with_state codeOffset (FIRCLSDwarfParseAndExecute_register A m cursor state)
     else if instruction = 0xF then
       with_state codeOffset (FIRCLSDwarfParseAndExecute_def_cfa_expression A m cursor state)
     else if instruction = 0x10 then
       with_state codeOffset (FIRCLSDwarfParseAndExecute_expression A m cursor state)
     else if instruction = 0x16 then
       with_state codeOffset (FIRCLSDwarfParseAndExecute_val_expression A m cursor state)
     else if instruction \<in> set cfa_unimplemented then Some (cursor, state, codeOffset, False)
     else FIRCLSDwarfParseAndExecuteInstructionWithOperand A m cursor instruction cie state codeOffset }"

text \<open>The loop, with fuel: the value \<open>None\<close> also stands for a run that exhausts it.\<close>

fun instructions_loop ::
  "nat \<Rightarrow> 'r arch \<Rightarrow> mem \<Rightarrow> DWARFCIERecord \<Rightarrow> u64 \<Rightarrow> addr \<Rightarrow> addr \<Rightarrow> FIRCLSDwarfState \<Rightarrow> u64 \<Rightarrow>
   (FIRCLSDwarfState \<times> bool) option" where
  "instructions_loop fuel A m cie pcOffset ending cursor state codeOffset =
     (if \<not> (cursor < ending \<and> sint codeOffset < sint pcOffset) then Some (state, True)
      else case fuel of
        0 \<Rightarrow> None
      | Suc fuel \<Rightarrow> do {
          (cursor, state, codeOffset, ok) \<leftarrow> execute_instruction A m cie cursor state codeOffset;
          if ok then instructions_loop fuel A m cie pcOffset ending cursor state codeOffset
          else Some (state, False) })"

declare instructions_loop.simps [simp del]

definition FIRCLSDwarfInstructionsEnumerate ::
  "'r arch \<Rightarrow> mem \<Rightarrow> DWARFInstructions \<Rightarrow> DWARFCIERecord \<Rightarrow> FIRCLSDwarfState \<Rightarrow> u64 \<Rightarrow>
   (FIRCLSDwarfState \<times> bool) option" where
  "FIRCLSDwarfInstructionsEnumerate A m instructions cie state pcOffset =
     instructions_loop (unat (ins_length instructions)) A m cie pcOffset
       (ins_data instructions + ucast (ins_length instructions)) (ins_data instructions) state 0"

subsection \<open>Expressions\<close>

fun expression_loop ::
  "nat \<Rightarrow> 'r arch \<Rightarrow> mem \<Rightarrow> 'r FIRCLSDwarfExpressionMachine \<Rightarrow>
   ('r FIRCLSDwarfExpressionMachine \<times> bool) option" where
  "expression_loop fuel A m machine =
     (if FIRCLSDwarfExpressionMachineIsFinished machine then Some (machine, True)
      else case fuel of
        0 \<Rightarrow> None
      | Suc fuel \<Rightarrow> do {
          (machine, ok) \<leftarrow> FIRCLSDwarfExpressionMachineExecuteNextOpcode A m machine;
          if \<not> ok then Some (machine, False)
          else expression_loop fuel A m machine })"

declare expression_loop.simps [simp del]

text \<open>The value of \<open>*result\<close>, and success.\<close>

definition FIRCLSDwarfEvalulateExpression ::
  "'r arch \<Rightarrow> mem \<Rightarrow> addr \<Rightarrow> 'r option \<Rightarrow> u64 \<Rightarrow> u64 \<Rightarrow> (u64 \<times> bool) option" where
  "FIRCLSDwarfEvalulateExpression A m cursor regs stackValue result =
     (if \<not> FIRCLSIsValidPointer cursor then Some (result, False)
      else
        let (machine, ok) = FIRCLSDwarfExpressionMachineInit cursor regs stackValue in
        if \<not> ok then Some (result, False)
        else do {
          (machine, ok) \<leftarrow> FIRCLSDwarfExpressionMachinePrepareForExecution m machine;
          if \<not> ok then Some (result, False)
          else do {
            (machine, ok) \<leftarrow>
              expression_loop (unat (endAddress machine - dataCursor machine)) A m machine;
            if \<not> ok then Some (result, False)
            else
              let (machine, result, ok) = FIRCLSDwarfExpressionMachineGetResult machine result in
              if \<not> ok then Some (result, False) else Some (result, True) } })"

subsection \<open>Register operations\<close>

definition FIRCLSDwarfCompareRegisters :: "'r arch \<Rightarrow> 'r option \<Rightarrow> 'r option \<Rightarrow> u64 \<Rightarrow> bool option" where
  "FIRCLSDwarfCompareRegisters A a b registerNum = do {
     x \<leftarrow> FIRCLSDwarfUnwindGetRegisterValue A a registerNum;
     y \<leftarrow> FIRCLSDwarfUnwindGetRegisterValue A b registerNum;
     Some (x = y) }"

definition FIRCLSDwarfGetCFA ::
  "'r arch \<Rightarrow> mem \<Rightarrow> FIRCLSDwarfState \<Rightarrow> 'r option \<Rightarrow> u64 \<Rightarrow> (u64 \<times> bool) option" where
  "FIRCLSDwarfGetCFA A m state regs cfa =
     (if regs = None then Some (cfa, False)
      else if cfaExpression state \<noteq> 0 then do {
        (cfa, ok) \<leftarrow> FIRCLSDwarfEvalulateExpression A m (cfaExpression state) regs 0 cfa;
        if \<not> ok then Some (cfa, False) else Some (cfa, True) }
      else do {
        v \<leftarrow> FIRCLSDwarfUnwindGetRegisterValue A regs (cfaRegister state);
        Some (v + cfaRegisterOffset state, True) })"

definition FIRCLSDwarfGetSavedRegister ::
  "'r arch \<Rightarrow> mem \<Rightarrow> 'r option \<Rightarrow> u64 \<Rightarrow> FIRCLSDwarfRegister \<Rightarrow> u64 option" where
  "FIRCLSDwarfGetSavedRegister A m regs cfa dRegister =
     (case location dRegister of
        FIRCLSDwarfRegisterInCFA \<Rightarrow>
          (case FIRCLSReadMemory_word m (cfa + reg_value dRegister) of
             None \<Rightarrow> Some 0
           | Some result \<Rightarrow> Some result)
      | FIRCLSDwarfRegisterInRegister \<Rightarrow>
          FIRCLSDwarfUnwindGetRegisterValue A regs (reg_value dRegister)
      | FIRCLSDwarfRegisterAtExpression \<Rightarrow> do {
          (result, ok) \<leftarrow> FIRCLSDwarfEvalulateExpression A m (reg_value dRegister) regs cfa 0;
          if \<not> ok then Some 0
          else case FIRCLSReadMemory_word m result of
            None \<Rightarrow> Some 0
          | Some result \<Rightarrow> Some result }
      | FIRCLSDwarfRegisterIsExpression \<Rightarrow> do {
          (result, ok) \<leftarrow> FIRCLSDwarfEvalulateExpression A m (reg_value dRegister) regs cfa 0;
          if \<not> ok then Some 0 else Some result }
      | FIRCLSDwarfRegisterOffsetFromCFA \<Rightarrow> Some 0
      | FIRCLSDwarfRegisterUnused \<Rightarrow> Some 0)"

subsection \<open>Execution\<close>

text \<open>The loop over the registers, from number \<open>i\<close>, with \<open>n\<close> to go, on the copy \<open>new\<close>.\<close>

fun assign_loop ::
  "nat \<Rightarrow> 'r arch \<Rightarrow> mem \<Rightarrow> FIRCLSDwarfState \<Rightarrow> 'r option \<Rightarrow> u64 \<Rightarrow> u64 \<Rightarrow> 'r option \<Rightarrow> ('r option \<times> bool) option" where
  "assign_loop 0 A m state regs cfa i new = Some (new, True)"
| "assign_loop (Suc n) A m state regs cfa i new =
     (let dRegister = state_registers state ! unat i in
      if location dRegister = FIRCLSDwarfRegisterUnused then assign_loop n A m state regs cfa (i + 1) new
      else do {
        value \<leftarrow> FIRCLSDwarfGetSavedRegister A m regs cfa dRegister;
        (new, ok) \<leftarrow> FIRCLSDwarfUnwindSetRegisterValue A new i value;
        if \<not> ok then Some (new, False)
        else assign_loop n A m state regs cfa (i + 1) new })"

definition FIRCLSDwarfUnwindAssignRegisters ::
  "'r arch \<Rightarrow> mem \<Rightarrow> FIRCLSDwarfState \<Rightarrow> 'r option \<Rightarrow> u64 \<Rightarrow> 'r option \<Rightarrow> ('r option \<times> bool) option" where
  "FIRCLSDwarfUnwindAssignRegisters A m state regs cfa output =
     (if regs = None then Some (output, False)
      else do {
        (new, ok) \<leftarrow> assign_loop (unat (DWARF_MAX_REGISTER_NUM A) + 1) A m state regs cfa 0 regs;
        if \<not> ok then Some (output, False)
        else do {
          (new, ok) \<leftarrow> FIRCLSDwarfUnwindSetRegisterValue A new (DWARF_REG_SP A) cfa;
          if \<not> ok then Some (output, False)
          else do {
            sp_same \<leftarrow> FIRCLSDwarfCompareRegisters A regs new (DWARF_REG_SP A);
            if sp_same then Some (output, False)
            else do {
              pc_same \<leftarrow> FIRCLSDwarfCompareRegisters A regs new (DWARF_REG_RETURN A);
              if pc_same then Some (output, False)
              else Some (new, True) } } } })"

definition FIRCLSDwarfUnwindComputeRegisters ::
  "'r arch \<Rightarrow> mem \<Rightarrow> FIRCLSDwarfCFIRecord \<Rightarrow> 'r option \<Rightarrow> ('r option \<times> bool) option" where
  "FIRCLSDwarfUnwindComputeRegisters A m record regs =
     (if regs = None then Some (regs, False)
      else do {
        (state, ok) \<leftarrow> FIRCLSDwarfInstructionsEnumerate A m (cie_instructions (cfi_cie record))
          (cfi_cie record) (zero_state A) (2 ^ 63 - 1);
        if \<not> ok then Some (regs, False)
        else do {
          let pcOffset = FIRCLSThreadContextGetPC A regs - fde_startAddress (cfi_fde record);
          if sint pcOffset < 0 then Some (regs, False)
          else do {
            (state, ok) \<leftarrow> FIRCLSDwarfInstructionsEnumerate A m (fde_instructions (cfi_fde record))
              (cfi_cie record) state pcOffset;
            if \<not> ok then Some (regs, False)
            else do {
              (cfa, ok) \<leftarrow> FIRCLSDwarfGetCFA A m state regs 0;
              if \<not> ok then Some (regs, False)
              else FIRCLSDwarfUnwindAssignRegisters A m state regs cfa regs } } } })"

subsection \<open>Expressions: the loop runs the program\<close>

fun dw_run :: "'r arch \<Rightarrow> 'r option \<Rightarrow> mem \<Rightarrow> dw_op list \<Rightarrow> u64 list \<Rightarrow> u64 list option" where
  "dw_run A r m [] xs = Some xs"
| "dw_run A r m (op # ops) xs = do { ys \<leftarrow> dw_step A r m op xs; dw_run A r m ops ys }"

definition dw_code :: "dw_op list \<Rightarrow> u8 list" where
  "dw_code ops = concat (map dw_encode ops)"

lemma dw_code_simps [simp]:
  "dw_code [] = []"
  "dw_code (op # ops) = dw_encode op @ dw_code ops"
  by (simp_all add: dw_code_def)

lemma dw_encode_length: "0 < length (dw_encode op)"
  by (cases op) simp_all

lemma dw_code_length: "length ops \<le> length (dw_code ops)"
proof (induction ops)
  case (Cons op ops)
  then show ?case using dw_encode_length [of op] by (simp del: length_greater_0_conv)
qed simp

lemma no_wrap_less:
  fixes c :: addr
  assumes "unat c + n < 2 ^ 64" "0 < n"
  shows "c < c + of_nat n" "unat (c + of_nat n) = unat c + n"
  using assms by (simp_all add: unat_add_of_nat word_less_nat_alt)

lemma machine_valid:
  "stack_wf (stack machine) \<Longrightarrow> stack_view (stack machine) = Some xs \<Longrightarrow>
   FIRCLSDwarfExpressionStackIsValid (stack machine)"
  by (simp add: expr_stack.valid_iff)

lemma running_not_finished:
  assumes "stack_wf (stack machine)" "stack_view (stack machine) = Some xs"
    "FIRCLSIsValidPointer (dataCursor machine)" "endAddress machine = dataCursor machine + of_nat n"
    "unat (dataCursor machine) + n < 2 ^ 64" "0 < n"
  shows "\<not> FIRCLSDwarfExpressionMachineIsFinished machine"
  using assms no_wrap_less [OF assms(5,6)] machine_valid [OF assms(1,2)]
  by (auto simp: FIRCLSDwarfExpressionMachineIsFinished_def FIRCLSIsValidPointer_def not_le)

lemma expression_loop_finished:
  "FIRCLSDwarfExpressionMachineIsFinished machine \<Longrightarrow> expression_loop fuel A m machine = Some (machine, True)"
  by (subst expression_loop.simps) simp

lemma expression_loop_running:
  "\<not> FIRCLSDwarfExpressionMachineIsFinished machine \<Longrightarrow>
   expression_loop (Suc fuel) A m machine = do {
     (machine, ok) \<leftarrow> FIRCLSDwarfExpressionMachineExecuteNextOpcode A m machine;
     if \<not> ok then Some (machine, False) else expression_loop fuel A m machine }"
  by (subst expression_loop.simps) simp

lemma expression_loop_frame:
  "expression_loop fuel A m machine = Some (machine', ok) \<Longrightarrow>
   endAddress machine' = endAddress machine \<and> (stack_wf (stack machine) \<longrightarrow> stack_wf (stack machine'))"
proof (induction fuel arbitrary: machine)
  case 0
  then show ?case by (subst (asm) expression_loop.simps) (simp split: if_splits)
next
  case (Suc fuel)
  show ?case
  proof (cases "FIRCLSDwarfExpressionMachineIsFinished machine")
    case True
    with Suc.prems show ?thesis by (simp add: expression_loop_finished)
  next
    case False
    with Suc.prems obtain machine1 ok1 where
      e: "FIRCLSDwarfExpressionMachineExecuteNextOpcode A m machine = Some (machine1, ok1)"
      and r: "(if \<not> ok1 then Some (machine1, False) else expression_loop fuel A m machine1) = Some (machine', ok)"
      by (auto simp: expression_loop_running bind_Some_iff)
    from r show ?thesis
      using Suc.IH [of machine1] next_opcode_frame(1,2) [OF e] by (auto split: if_splits)
  qed
qed

lemma expression_loop_runs:
  assumes "stack_wf (stack machine)" "stack_view (stack machine) = Some xs" "\<forall>op\<in>set ops. dw_op_ok op"
    "load_bytes m (dataCursor machine) (length (dw_code ops)) = Some (dw_code ops)"
    "FIRCLSIsValidPointer (dataCursor machine)"
    "endAddress machine = dataCursor machine + of_nat (length (dw_code ops))"
    "unat (dataCursor machine) + length (dw_code ops) < 2 ^ 64" "length ops \<le> fuel"
  shows "machine_result (expression_loop fuel A m machine) =
    map_option (\<lambda>ys. (ys, endAddress machine)) (dw_run A (registers machine) m ops xs)"
  using assms
proof (induction ops arbitrary: machine xs fuel)
  case Nil
  then have "FIRCLSDwarfExpressionMachineIsFinished machine"
    by (simp add: FIRCLSDwarfExpressionMachineIsFinished_def)
  then show ?case using Nil by (simp add: expression_loop_finished)
next
  case (Cons op ops)
  let ?n = "length (dw_encode op)"
  obtain f where f: "fuel = Suc f" using Cons.prems(8) by (cases fuel) auto
  have run: "\<not> FIRCLSDwarfExpressionMachineIsFinished machine"
    using Cons.prems dw_encode_length [of op] by (intro running_not_finished [of machine xs]) auto
  have code: "load_bytes m (dataCursor machine) ?n = Some (dw_encode op)"
    "load_bytes m (dataCursor machine + of_nat ?n) (length (dw_code ops)) = Some (dw_code ops)"
    using load_bytes_appendD [OF Cons.prems(4) [unfolded dw_code_simps]] by simp_all
  let ?E = "FIRCLSDwarfExpressionMachineExecuteNextOpcode A m machine"
  have ex: "machine_result ?E =
      map_option (\<lambda>ys. (ys, dataCursor machine + of_nat ?n)) (dw_step A (registers machine) m op xs)"
    using Cons.prems code by (intro exec_opcode) auto
  show ?case
  proof (cases ?E)
    case None
    then show ?thesis using ex f run by (simp add: expression_loop_running)
  next
    case (Some p)
    obtain machine1 ok where p: "p = (machine1, ok)" by (cases p)
    note E = Some [unfolded p]
    note fr = next_opcode_frame [OF E]
    show ?thesis
    proof (cases "ok \<and> stack_view (stack machine1) \<noteq> None")
      case False
      then have "dw_step A (registers machine) m op xs = None"
        using ex E by (cases "dw_step A (registers machine) m op xs") (auto split: if_splits)
      moreover have "FIRCLSDwarfExpressionMachineIsFinished machine1" if ok
        using that False fr(1) [OF Cons.prems(1)]
        by (simp add: FIRCLSDwarfExpressionMachineIsFinished_def expr_stack.valid_iff)
      ultimately show ?thesis using f run E False
        by (cases ok) (simp_all add: expression_loop_running expression_loop_finished)
    next
      case True
      then obtain ys where ys: "stack_view (stack machine1) = Some ys" and ok by auto
      with ex E have step: "dw_step A (registers machine) m op xs = Some ys"
        and cur: "dataCursor machine1 = dataCursor machine + of_nat ?n"
        by (cases "dw_step A (registers machine) m op xs"; simp)+
      have u: "unat (dataCursor machine1) = unat (dataCursor machine) + ?n"
        unfolding cur using Cons.prems(7) dw_encode_length [of op] by (intro no_wrap_less(2)) auto
      have "machine_result (expression_loop f A m machine1) =
          map_option (\<lambda>ys. (ys, endAddress machine1)) (dw_run A (registers machine1) m ops ys)"
      proof (rule Cons.IH)
        show "stack_wf (stack machine1)" using fr(1) Cons.prems(1) .
        show "FIRCLSIsValidPointer (dataCursor machine1)"
          using Cons.prems(5) u by (simp add: FIRCLSIsValidPointer_def word_le_nat_alt)
        show "endAddress machine1 = dataCursor machine1 + of_nat (length (dw_code ops))"
          using Cons.prems(6) by (simp add: fr(2) cur add.assoc)
        show "unat (dataCursor machine1) + length (dw_code ops) < 2 ^ 64"
          using Cons.prems(7) u by simp
      qed (use ys Cons.prems code cur f in auto)
      then show ?thesis using f run E \<open>ok\<close> step fr(2,3) by (simp add: expression_loop_running)
    qed
  qed
qed

text \<open>The value of an evaluation that succeeds.\<close>

definition success_value :: "('a \<times> bool) option \<Rightarrow> 'a option" where
  "success_value r = (case r of Some (v, True) \<Rightarrow> Some v | _ \<Rightarrow> None)"

lemma success_value_simps [simp]:
  "success_value None = None"
  "success_value (Some (v, ok)) = (if ok then Some v else None)"
  by (simp_all add: success_value_def)

lemma machine_init:
  assumes "FIRCLSIsValidPointer c" "FIRCLSDwarfExpressionMachineInit c regs v = (machine, ok)"
  shows "ok" "stack_wf (stack machine)" "stack_view (stack machine) = Some [v]"
    "dataCursor machine = c" "registers machine = regs"
proof -
  have view: "stack_view (fst (FIRCLSDwarfExpressionStackPush FIRCLSDwarfExpressionStackInit v)) = Some [v]"
    and ok: "snd (FIRCLSDwarfExpressionStackPush FIRCLSDwarfExpressionStackInit v)"
    and wf: "stack_wf (fst (FIRCLSDwarfExpressionStackPush FIRCLSDwarfExpressionStackInit v))"
    by (simp_all add: expr_stack.stack_laws stack_init)
  with assms show "ok" "stack_wf (stack machine)" "stack_view (stack machine) = Some [v]"
    "dataCursor machine = c" "registers machine = regs"
    by (auto simp: FIRCLSDwarfExpressionMachineInit_def split_beta Let_def)
qed

definition expression_bytes :: "dw_op list \<Rightarrow> u8 list" where
  "expression_bytes ops = uleb_bytes (length (dw_code ops)) @ dw_code ops"

lemma get_result:
  assumes "stack_wf (stack machine)"
  shows "success_value (case FIRCLSDwarfExpressionMachineGetResult machine result of
           (machine, result, ok) \<Rightarrow> if \<not> ok then Some (result, False) else Some (result, True)) =
         (if dataCursor machine = endAddress machine
          then (case stack_view (stack machine) of Some (x # xs) \<Rightarrow> Some x | _ \<Rightarrow> None) else None)"
  using assms
  by (simp add: FIRCLSDwarfExpressionMachineGetResult_def split_beta Let_def expr_stack.stack_laws
      split: option.splits list.splits)

lemma evaluate_runs:
  assumes c: "FIRCLSIsValidPointer c" and ops: "ops \<noteq> []" "\<forall>op\<in>set ops. dw_op_ok op"
    and len: "length (dw_code ops) < 2 ^ 31" "unat c + length (expression_bytes ops) < 2 ^ 64"
    and code: "load_bytes m c (length (expression_bytes ops)) = Some (expression_bytes ops)"
  shows "success_value (FIRCLSDwarfEvalulateExpression A m c regs v result) =
    (case dw_run A regs m ops [v] of Some (x # xs) \<Rightarrow> Some x | _ \<Rightarrow> None)"
proof -
  let ?n = "length (dw_code ops)" and ?u = "length (uleb_bytes (length (dw_code ops)))"
  obtain machine ok where init: "FIRCLSDwarfExpressionMachineInit c regs v = (machine, ok)" by fastforce
  note i = machine_init [OF c init]
  have bytes: "load_bytes m c ?u = Some (uleb_bytes ?n)" "load_bytes m (c + of_nat ?u) ?n = Some (dw_code ops)"
    using load_bytes_appendD [OF code [unfolded expression_bytes_def]] by simp_all
  have n: "0 < ?n" using ops(1) dw_code_length [of ops] by (cases ops) auto
  have small: "(of_nat ?n :: u64) \<noteq> 0"
    using n len(1) by (simp add: word_unat_eq_iff unat_of_nat)
  define machine1 where "machine1 = machine\<lparr>dataCursor := c + of_nat ?u, endAddress := c + of_nat ?u + of_nat ?n\<rparr>"
  have prep: "FIRCLSDwarfExpressionMachinePrepareForExecution m machine = Some (machine1, True)"
    using uleb_reads [OF len(1) bytes(1)] small
    by (simp add: FIRCLSDwarfExpressionMachinePrepareForExecution_def i(4) machine1_def)
  have u: "unat (c + of_nat ?u) = unat c + ?u"
    using len(2) n by (intro unat_add_of_nat) (simp add: expression_bytes_def)
  have fuel: "unat (endAddress machine1 - dataCursor machine1) = ?n"
    using len(1) by (simp add: machine1_def unat_of_nat)
  let ?loop = "expression_loop (unat (endAddress machine1 - dataCursor machine1)) A m machine1"
  have run: "machine_result ?loop = map_option (\<lambda>ys. (ys, endAddress machine1)) (dw_run A (registers machine1) m ops [v])"
    unfolding fuel
  proof (rule expression_loop_runs)
    show "FIRCLSIsValidPointer (dataCursor machine1)"
      using c u by (simp add: machine1_def FIRCLSIsValidPointer_def word_le_nat_alt)
    show "unat (dataCursor machine1) + ?n < 2 ^ 64"
      using len(2) u by (simp add: machine1_def expression_bytes_def)
  qed (use i ops bytes dw_code_length in \<open>auto simp: machine1_def\<close>)
  have eval: "FIRCLSDwarfEvalulateExpression A m c regs v result = do {
      (machine, ok) \<leftarrow> ?loop;
      if \<not> ok then Some (result, False)
      else let (machine, result, ok) = FIRCLSDwarfExpressionMachineGetResult machine result in
        if \<not> ok then Some (result, False) else Some (result, True) }"
    using c i(1) by (simp add: FIRCLSDwarfEvalulateExpression_def init prep)
  have regs: "registers machine1 = regs" using i(5) by (simp add: machine1_def)
  show ?thesis
  proof (cases ?loop)
    case None
    then have "dw_run A regs m ops [v] = None" using run regs by simp
    then show ?thesis unfolding eval by (simp add: None)
  next
    case (Some p)
    obtain machine2 ok2 where p: "?loop = Some (machine2, ok2)" using Some by (cases p) auto
    have "endAddress machine2 = endAddress machine1" "stack_wf (stack machine2)"
      using expression_loop_frame [OF p] i(2) by (simp_all add: machine1_def)
    with run show ?thesis unfolding eval
      by (cases ok2; cases "stack_view (stack machine2)"; cases "dw_run A regs m ops [v]")
        (simp_all add: p regs get_result)
  qed
qed

text \<open>The fuel of the loop is enough whatever the bytes are: more of it changes nothing.\<close>

lemma advances_below:
  fixes c :: addr
  assumes "advances 9 c c'" "c < e"
  shows "\<not> FIRCLSIsValidPointer c' \<or> e \<le> c' \<or> (c' < e \<and> unat (e - c') < unat (e - c))"
proof -
  from assms(1) obtain j where j: "0 < j" "j \<le> 9" and c': "c' = c + of_nat j"
    by (auto simp: advances_def)
  show ?thesis
  proof (cases "unat c + j < 2 ^ 64")
    case True
    then have u: "unat c' = unat c + j" unfolding c' by (rule unat_add_of_nat)
    show ?thesis
    proof (cases "c' < e")
      case True
      then have "unat (e - c') = unat e - unat c'" "unat (e - c) = unat e - unat c"
        using assms(2) by (simp_all add: unat_sub less_imp_le)
      moreover have "unat c + j < unat e" using True u by (simp add: word_less_nat_alt)
      ultimately have "unat (e - c') < unat (e - c)" using u j by linarith
      then show ?thesis using True by simp
    qed (simp add: not_less)
  next
    case False
    have "unat c < 2 ^ 64" using unsigned_less [of c] by simp
    moreover have "unat c' = (unat c + j) mod 2 ^ 64"
      unfolding c' using j by (simp add: unat_word_ariths unat_of_nat)
    moreover have "(unat c + j) mod 2 ^ 64 = unat c + j - 2 ^ 64"
      using False j calculation(1) by (simp add: le_mod_geq not_less)
    ultimately have "unat c' < 9" using j by linarith
    then show ?thesis by (simp add: FIRCLSIsValidPointer_def word_le_nat_alt)
  qed
qed

lemma expression_loop_fuel:
  assumes "unat (endAddress machine - dataCursor machine) \<le> fuel" "fuel \<le> fuel'"
  shows "expression_loop fuel' A m machine = expression_loop fuel A m machine"
  using assms
proof (induction fuel arbitrary: fuel' machine)
  case 0
  then have "FIRCLSDwarfExpressionMachineIsFinished machine"
    by (simp add: FIRCLSDwarfExpressionMachineIsFinished_def unsigned_eq_0_iff)
  then show ?case by (simp add: expression_loop_finished)
next
  case (Suc fuel)
  then obtain f' where f': "fuel' = Suc f'" by (cases fuel') auto
  show ?case
  proof (cases "FIRCLSDwarfExpressionMachineIsFinished machine")
    case True
    then show ?thesis by (simp add: expression_loop_finished)
  next
    case False
    then have less: "dataCursor machine < endAddress machine"
      by (auto simp: FIRCLSDwarfExpressionMachineIsFinished_def split: if_splits)
    have "expression_loop f' A m machine1 = expression_loop fuel A m machine1"
      if e: "FIRCLSDwarfExpressionMachineExecuteNextOpcode A m machine = Some (machine1, ok)" for machine1 ok
    proof -
      note fr = next_opcode_frame [OF e]
      from advances_below [OF fr(4) less] consider
        "FIRCLSDwarfExpressionMachineIsFinished machine1"
        | "unat (endAddress machine1 - dataCursor machine1) < unat (endAddress machine - dataCursor machine)"
        by (auto simp: FIRCLSDwarfExpressionMachineIsFinished_def fr(2))
      then show ?thesis
      proof cases
        case 1
        then show ?thesis by (simp add: expression_loop_finished)
      next
        case 2
        then show ?thesis using Suc.prems f' by (intro Suc.IH) auto
      qed
    qed
    then show ?thesis using f' False
      by (auto simp: expression_loop_running intro!: Option.bind_cong)
  qed
qed

text \<open>\<open>expression_stuck\<close>: after opcodes that succeed, the evaluator is at one that has no result.  This is the only
  way in which the loop has none.\<close>

inductive expression_stuck :: "'r arch \<Rightarrow> mem \<Rightarrow> 'r FIRCLSDwarfExpressionMachine \<Rightarrow> bool" for A m where
  undefined_opcode: "\<not> FIRCLSDwarfExpressionMachineIsFinished machine \<Longrightarrow>
     FIRCLSDwarfExpressionMachineExecuteNextOpcode A m machine = None \<Longrightarrow> expression_stuck A m machine"
| later_opcode: "\<not> FIRCLSDwarfExpressionMachineIsFinished machine \<Longrightarrow>
     FIRCLSDwarfExpressionMachineExecuteNextOpcode A m machine = Some (machine', True) \<Longrightarrow>
     expression_stuck A m machine' \<Longrightarrow> expression_stuck A m machine"

inductive_simps expression_stuck_unfold: "expression_stuck A m machine"

lemma expression_loop_result:
  assumes "unat (endAddress machine - dataCursor machine) \<le> fuel"
  shows "expression_loop fuel A m machine = None \<longleftrightarrow> expression_stuck A m machine"
  using assms
proof (induction fuel arbitrary: machine)
  case 0
  then have "FIRCLSDwarfExpressionMachineIsFinished machine"
    by (simp add: FIRCLSDwarfExpressionMachineIsFinished_def unsigned_eq_0_iff)
  then show ?case by (subst expression_stuck_unfold) (simp add: expression_loop_finished)
next
  case (Suc fuel)
  let ?E = "FIRCLSDwarfExpressionMachineExecuteNextOpcode A m machine"
  show ?case
  proof (cases "FIRCLSDwarfExpressionMachineIsFinished machine")
    case True
    then show ?thesis by (subst expression_stuck_unfold) (simp add: expression_loop_finished)
  next
    case False
    then have less: "dataCursor machine < endAddress machine"
      by (auto simp: FIRCLSDwarfExpressionMachineIsFinished_def split: if_splits)
    show ?thesis
    proof (cases ?E)
      case None
      then show ?thesis using False by (subst expression_stuck_unfold) (simp add: expression_loop_running)
    next
      case (Some x)
      obtain machine1 ok where e: "?E = Some (machine1, ok)" using Some by (cases x) auto
      note fr = next_opcode_frame [OF e]
      have "expression_loop fuel A m machine1 = None \<longleftrightarrow> expression_stuck A m machine1"
      proof (cases "FIRCLSDwarfExpressionMachineIsFinished machine1")
        case True
        then show ?thesis by (subst expression_stuck_unfold) (simp add: expression_loop_finished)
      next
        case False
        then have "unat (endAddress machine1 - dataCursor machine1) < unat (endAddress machine - dataCursor machine)"
          using advances_below [OF fr(4) less]
          by (auto simp: FIRCLSDwarfExpressionMachineIsFinished_def fr(2) split: if_splits)
        then show ?thesis using Suc.prems by (intro Suc.IH) simp
      qed
      then show ?thesis using e False
        by (subst expression_stuck_unfold) (auto simp: expression_loop_running)
    qed
  qed
qed

subsection \<open>Properties\<close>

text \<open>C1 (equivalence): on the bytes of a DWARF expression (its length and its operations) the
  evaluator succeeds exactly when running the operations on the initial value is defined and leaves an
  element, and returns the top one.\<close>

theorem expression_evaluates:
  assumes "FIRCLSIsValidPointer c" "ops \<noteq> []" "\<forall>op\<in>set ops. dw_op_ok op"
    "length (dw_code ops) < 2 ^ 31" "unat c + length (expression_bytes ops) < 2 ^ 64"
    "load_bytes m c (length (expression_bytes ops)) = Some (expression_bytes ops)"
  shows "success_value (FIRCLSDwarfEvalulateExpression A m c regs v result) =
    (case dw_run A regs m ops [v] of Some (x # xs) \<Rightarrow> Some x | _ \<Rightarrow> None)"
  using assms by (rule evaluate_runs)

theorem expression_evaluates_witness:
  "success_value (FIRCLSDwarfEvalulateExpression arch_x86_64 (bytes_at 0x2000 [2, 0x35, 0x22]) 0x2000 None 3 0) = Some 8"
proof -
  let ?ops = "[Dw_lit 5, Dw_plus]" and ?m = "bytes_at 0x2000 [2, 0x35, 0x22]"
  have bytes: "expression_bytes ?ops = [2, 0x35, 0x22]"
    by (simp add: expression_bytes_def uleb_bytes_small)
  have "load_bytes ?m 0x2000 (length (expression_bytes ?ops)) = Some (expression_bytes ?ops)"
    unfolding bytes by (rule load_bytes_at) simp
  then have "success_value (FIRCLSDwarfEvalulateExpression arch_x86_64 ?m 0x2000 None 3 0) =
      (case dw_run arch_x86_64 None ?m ?ops [3] of Some (x # xs) \<Rightarrow> Some x | _ \<Rightarrow> None)"
    using bytes by (intro expression_evaluates) (simp_all add: FIRCLSIsValidPointer_def)
  then show ?thesis by (simp add: int64_add_def)
qed

text \<open>C28 (termination): the loop of the evaluator ends, whatever the memory holds: the distance to the end of
  the expression is enough fuel, any larger amount gives the same result, and there is a result unless the loop
  reaches, by opcodes that succeed, one whose execution is undefined.\<close>

theorem expression_terminates:
  assumes "unat (endAddress machine - dataCursor machine) \<le> fuel"
  shows "expression_loop fuel A m machine =
      expression_loop (unat (endAddress machine - dataCursor machine)) A m machine \<and>
    (expression_loop fuel A m machine = None \<longleftrightarrow> expression_stuck A m machine)"
  using expression_loop_fuel [of machine, OF order_refl assms] expression_loop_result [OF assms] by blast

theorem expression_terminates_witness:
  "map_option snd (expression_loop 1000 arch_x86_64 (bytes_at 0x2000 [0x35, 0x36])
     \<lparr> stack = FIRCLSDwarfExpressionStackInit, dataCursor = 0x2000, endAddress = 0x2002, registers = None \<rparr>) = Some True"
proof -
  let ?M = "\<lparr> stack = FIRCLSDwarfExpressionStackInit, dataCursor = 0x2000, endAddress = 0x2002, registers = None \<rparr>"
  have "map_option snd (expression_loop 2 arch_x86_64 (bytes_at 0x2000 [0x35, 0x36]) ?M) = Some True" by code_simp
  with expression_terminates [of ?M 1000 arch_x86_64 "bytes_at 0x2000 [0x35, 0x36]"] show ?thesis by simp
qed

end
