(* ===== verification/DwarfCFI.thy ===== *)
theory DwarfCFI
  imports DwarfUnwind
begin

section \<open>Call frame programs: meaning, termination, restoration\<close>

text \<open>
  What the interpreter of theory DwarfUnwind computes.  A call frame instruction is a \<open>cfa_op\<close> with its
  DWARF encoding \<open>cfa_encode\<close>; its meaning \<open>cfi_step\<close> and \<open>cfi_loc\<close> is the one of the DWARF standard, on a row
  of the unwind table (\<open>cfi\<close>): a rule for the CFA and a rule for each register.  The main lemma says that
  \<open>FIRCLSDwarfInstructionsEnumerate\<close> on the encoding of a program computes the row of its table (\<open>cfi_table\<close>) in
  force just before the program counter.  Its side conditions are where the code departs from the standard: a short
  \<open>DW_CFA_advance_loc\<close> overwrites the location instead of advancing it, and a CFA expression, once set, is
  never replaced by a register rule.
\<close>

subsection \<open>The invariant of the state\<close>

definition state_ok :: "'r arch \<Rightarrow> FIRCLSDwarfState \<Rightarrow> bool" where
  "state_ok A st \<longleftrightarrow>
     length (state_registers st) = unat (DWARF_MAX_REGISTER_NUM A) + 1 \<and>
     cfaRegister st \<le> DWARF_MAX_REGISTER_NUM A + 1 \<and>
     (\<forall>r\<in>set (state_registers st). location r = FIRCLSDwarfRegisterInRegister \<longrightarrow>
        reg_value r \<le> DWARF_MAX_REGISTER_NUM A)"

lemma state_ok_zero: "state_ok A (zero_state A)"
  by (simp add: state_ok_def zero_state_def)

lemma in_range: "n \<le> DWARF_MAX_REGISTER_NUM A \<Longrightarrow> state_ok A st \<Longrightarrow> unat n < length (state_registers st)"
  by (simp add: state_ok_def word_le_nat_alt)

definition set_rule :: "FIRCLSDwarfState \<Rightarrow> u64 \<Rightarrow> FIRCLSDwarfRegisterLocation \<Rightarrow> u64 \<Rightarrow> FIRCLSDwarfState" where
  "set_rule st n loc v = st\<lparr>state_registers :=
     (state_registers st)[unat n := \<lparr> location = loc, reg_value = v \<rparr>]\<rparr>"

lemma register_update:
  "r\<lparr>location := l, reg_value := v\<rparr> = \<lparr> location = l, reg_value = v \<rparr>"
  "r\<lparr>location := l\<rparr> = \<lparr> location = l, reg_value = reg_value r \<rparr>" for r :: FIRCLSDwarfRegister
  by (cases r; simp)+

lemma set_location_eq:
  "set_register_location st n loc = set_rule st n loc (reg_value (state_registers st ! unat n))"
  by (simp add: set_register_location_def set_rule_def register_update)

lemma set_value_eq: "set_register_value (set_rule st n loc v0) n v = set_rule st n loc v"
  by (cases "unat n < length (state_registers st)")
    (simp_all add: set_register_value_def set_rule_def register_update list_update_beyond not_less)

lemmas set_rule_eq = set_location_eq set_value_eq

lemma state_ok_set_rule:
  "state_ok A st \<Longrightarrow> (loc = FIRCLSDwarfRegisterInRegister \<longrightarrow> v \<le> DWARF_MAX_REGISTER_NUM A) \<Longrightarrow>
   state_ok A (set_rule st n loc v)"
  by (auto simp: state_ok_def set_rule_def dest!: subsetD [OF set_update_subset_insert])

lemmas instruction_defs =
  FIRCLSDwarfParseAndExecute_set_loc_def FIRCLSDwarfParseAndExecute_advance_loc1_def
  FIRCLSDwarfParseAndExecute_advance_loc2_def FIRCLSDwarfParseAndExecute_advance_loc4_def
  FIRCLSDwarfParseAndExecute_def_cfa_def FIRCLSDwarfParseAndExecute_def_cfa_register_def
  FIRCLSDwarfParseAndExecute_def_cfa_offset_def FIRCLSDwarfParseAndExecute_same_value_def
  FIRCLSDwarfParseAndExecute_register_def FIRCLSDwarfParseAndExecute_expression_def
  FIRCLSDwarfParseAndExecute_val_expression_def FIRCLSDwarfParseAndExecute_def_cfa_expression_def
  FIRCLSDwarfParseAndExecute_offset_def FIRCLSDwarfParseAndExecute_advance_loc_def
  FIRCLSDwarfParseAndExecuteInstructionWithOperand_def

lemma state_ok_cfa:
  "state_ok A st \<Longrightarrow> n \<le> DWARF_MAX_REGISTER_NUM A + 1 \<Longrightarrow> state_ok A (st\<lparr>cfaRegister := n\<rparr>)"
  "state_ok A (st\<lparr>cfaRegisterOffset := v\<rparr>) = state_ok A st"
  "state_ok A (st\<lparr>cfaExpression := w\<rparr>) = state_ok A st"
  by (auto simp: state_ok_def)

lemma max_plus_1: "DWARF_MAX_REGISTER_NUM A < 32 \<Longrightarrow> n \<le> DWARF_MAX_REGISTER_NUM A \<Longrightarrow> n \<le> DWARF_MAX_REGISTER_NUM A + 1"
  by (simp add: word_le_nat_alt word_less_nat_alt unat_word_ariths)

text \<open>\<open>keeps A k c st c' st'\<close>: the invariant is kept and the cursor moves by at most \<open>k\<close>.\<close>

definition keeps :: "'r arch \<Rightarrow> nat \<Rightarrow> addr \<Rightarrow> FIRCLSDwarfState \<Rightarrow> addr \<Rightarrow> FIRCLSDwarfState \<Rightarrow> bool" where
  "keeps A k c st c' st' \<longleftrightarrow>
     (DWARF_MAX_REGISTER_NUM A < 32 \<longrightarrow> state_ok A st \<longrightarrow> state_ok A st') \<and> stays_near k c c'"

definition far :: nat where
  "far = 2 ^ 31 + 16"

lemma near_far: "stays_near k c c' \<Longrightarrow> k \<le> 2 ^ 31 + 16 \<Longrightarrow> stays_near far c c'"
  using stays_near_trans [of k c c' 0 c' far] by (simp add: far_def)

lemma uleb_far: "FIRCLSParseULEB128AndAdvance m c = Some (v, c') \<Longrightarrow> stays_near far c c'"
  by (rule near_far [OF advances_stays_near [OF uleb_advances]]) simp_all

lemma address_far: "FIRCLSParseAddressWithEncodingAndAdvance m c e = Some (v, c') \<Longrightarrow> stays_near far c c'"
  by (rule near_far [OF address_near]) simp_all

lemma add_far: "stays_near far c (c + 1)" "stays_near far c (c + 2)" "stays_near far c (c + 4)"
  using stays_near_add [of 1 far c] stays_near_add [of 2 far c] stays_near_add [of 4 far c]
  by (simp_all add: far_def)

lemma uleb_uleb_far:
  "FIRCLSParseULEB128AndAdvance m c = Some (v, c') \<Longrightarrow> FIRCLSParseULEB128AndAdvance m c' = Some (v', c'') \<Longrightarrow>
   stays_near far c c''"
  by (rule stays_near_trans [OF advances_stays_near [OF uleb_advances] advances_stays_near [OF uleb_advances]])
    (simp_all add: far_def)

lemma uleb_block_near:
  "FIRCLSParseULEB128AndAdvance m c = Some (v, c') \<Longrightarrow> stays_near (2 ^ 31 + 8) c (c' + v)"
  by (rule stays_near_trans [OF advances_stays_near [OF uleb_advances] stays_near_word, of _ _ _ _ _ "2 ^ 31"])
    (auto dest: uleb_bound)

lemma uleb_block_far: "FIRCLSParseULEB128AndAdvance m c = Some (v, c') \<Longrightarrow> stays_near far c (c' + v)"
  by (rule near_far [OF uleb_block_near]) simp_all

lemma uleb_uleb_block_far:
  "FIRCLSParseULEB128AndAdvance m c = Some (v, c') \<Longrightarrow> FIRCLSParseULEB128AndAdvance m c' = Some (v', c'') \<Longrightarrow>
   stays_near far c (c'' + v')"
  by (rule stays_near_trans [OF advances_stays_near [OF uleb_advances] uleb_block_near]) (simp_all add: far_def)

lemma keeps_offset:
  "FIRCLSDwarfParseAndExecute_set_loc m c cie off = Some (c', off', ok) \<Longrightarrow> keeps A far c st c' st"
  "FIRCLSDwarfParseAndExecute_advance_loc1 m c cie off = Some (c', off', ok) \<Longrightarrow> keeps A far c st c' st"
  "FIRCLSDwarfParseAndExecute_advance_loc2 m c cie off = Some (c', off', ok) \<Longrightarrow> keeps A far c st c' st"
  "FIRCLSDwarfParseAndExecute_advance_loc4 m c cie off = Some (c', off', ok) \<Longrightarrow> keeps A far c st c' st"
  by (auto simp: instruction_defs keeps_def bind_Some_iff add_far
      dest!: address_far uint_advances uint8_advances)

lemma keeps_state:
  "FIRCLSDwarfParseAndExecute_def_cfa A m c st = Some (c', st', ok) \<Longrightarrow> keeps A far c st c' st'"
  "FIRCLSDwarfParseAndExecute_def_cfa_register A m c st = Some (c', st', ok) \<Longrightarrow> keeps A far c st c' st'"
  "FIRCLSDwarfParseAndExecute_def_cfa_offset m c st = Some (c', st', ok) \<Longrightarrow> keeps A far c st c' st'"
  "FIRCLSDwarfParseAndExecute_same_value A m c st = Some (c', st', ok) \<Longrightarrow> keeps A far c st c' st'"
  "FIRCLSDwarfParseAndExecute_register A m c st = Some (c', st', ok) \<Longrightarrow> keeps A far c st c' st'"
  "FIRCLSDwarfParseAndExecute_expression A m c st = Some (c', st', ok) \<Longrightarrow> keeps A far c st c' st'"
  "FIRCLSDwarfParseAndExecute_val_expression A m c st = Some (c', st', ok) \<Longrightarrow> keeps A far c st c' st'"
  "FIRCLSDwarfParseAndExecute_def_cfa_expression A m c st = Some (c', st', ok) \<Longrightarrow> keeps A far c st c' st'"
  "FIRCLSDwarfParseAndExecute_offset A m c cie st b = Some (c', st', ok) \<Longrightarrow> keeps A far c st c' st'"
  by (auto simp: instruction_defs keeps_def bind_Some_iff Let_def set_rule_eq state_ok_cfa
      not_less max_plus_1
      split: if_splits
      intro: uleb_far uleb_uleb_far uleb_block_far uleb_uleb_block_far state_ok_set_rule)

lemma with_Some_iff:
  "with_offset st r = Some (c, st', off, ok) \<longleftrightarrow> st' = st \<and> r = Some (c, off, ok)"
  "with_state off0 q = Some (c, st', off, ok) \<longleftrightarrow> off = off0 \<and> q = Some (c, st', ok)"
  by (auto simp: with_offset_def with_state_def)

lemma keeps_refl: "keeps A k c st c st"
  by (simp add: keeps_def)

lemma keeps_operand:
  "FIRCLSDwarfParseAndExecuteInstructionWithOperand A m c b cie st off = Some (c', st', off', ok) \<Longrightarrow>
   keeps A far c st c' st'"
  by (auto simp: FIRCLSDwarfParseAndExecuteInstructionWithOperand_def Let_def bind_Some_iff keeps_refl
      split: if_splits dest: keeps_state)

lemma keeps_byte: "keeps A far (c + 1) st c' st' \<Longrightarrow> keeps A (far + 1) c st c' st' \<and> advances (far + 1) c c'"
  unfolding keeps_def stays_near_def advances_def
  by (elim conjE exE; intro conjI; simp; rule_tac x = "Suc j" in exI; simp add: add.assoc)

lemma execute_instruction_keeps:
  assumes "execute_instruction A m cie c st off = Some (c', st', off', ok)"
  shows "keeps A (far + 1) c st c' st'" "advances (far + 1) c c'"
proof -
  have "keeps A far (c + 1) st c' st'"
    using assms
    by (auto simp: execute_instruction_def bind_Some_iff with_Some_iff keeps_refl dest!: uint8_advances
        split: if_splits dest: keeps_offset keeps_state keeps_operand)
  then show "keeps A (far + 1) c st c' st'" "advances (far + 1) c c'"
    using keeps_byte by blast+
qed

lemma instructions_loop_done:
  "\<not> (c < e \<and> sint off < sint pc) \<Longrightarrow> instructions_loop fuel A m cie pc e c st off = Some (st, True)"
  by (subst instructions_loop.simps) auto

lemma instructions_loop_step:
  "c < e \<Longrightarrow> sint off < sint pc \<Longrightarrow>
   instructions_loop (Suc fuel) A m cie pc e c st off = do {
     (c, st, off, ok) \<leftarrow> execute_instruction A m cie c st off;
     if ok then instructions_loop fuel A m cie pc e c st off else Some (st, False) }"
  by (subst instructions_loop.simps) simp

lemma instructions_loop_ok:
  "instructions_loop fuel A m cie pc e c st off = Some (st', ok) \<Longrightarrow> state_ok A st \<Longrightarrow>
   DWARF_MAX_REGISTER_NUM A < 32 \<Longrightarrow> state_ok A st'"
proof (induction fuel arbitrary: c st off)
  case 0
  then show ?case by (subst (asm) instructions_loop.simps) (simp split: if_splits)
next
  case (Suc fuel)
  show ?case
  proof (cases "c < e \<and> sint off < sint pc")
    case False
    with Suc.prems show ?thesis by (simp add: instructions_loop_done)
  next
    case True
    with Suc.prems(1) obtain c1 st1 off1 ok1 where
      e: "execute_instruction A m cie c st off = Some (c1, st1, off1, ok1)"
      and r: "(if ok1 then instructions_loop fuel A m cie pc e c1 st1 off1 else Some (st1, False)) = Some (st', ok)"
      by (auto simp: instructions_loop_step bind_Some_iff)
    have "state_ok A st1" using execute_instruction_keeps(1) [OF e] Suc.prems by (simp add: keeps_def)
    with r Suc show ?thesis by (auto split: if_splits)
  qed
qed

subsection \<open>Termination\<close>

text \<open>An instruction moves the cursor forward by at most \<open>2 ^ 31 + 17\<close> bytes: with the section in the lower
  half of the address space the loop ends, and the fuel, the length of the section, is enough.\<close>

lemma advances_no_wrap:
  fixes c :: addr
  assumes "advances (far + 1) c c'" "c < e" "unat e < 2 ^ 63"
  shows "unat c < unat c'"
proof -
  from assms(1) obtain j where j: "0 < j" "j \<le> far + 1" and c': "c' = c + of_nat j"
    by (auto simp: advances_def)
  have "unat c + j < 2 ^ 64"
    using j assms(2,3) by (simp add: far_def word_less_nat_alt)
  then have "unat c' = unat c + j" unfolding c' by (rule unat_add_of_nat)
  with j show ?thesis by simp
qed

lemma instructions_loop_fuel:
  assumes "unat e < 2 ^ 63" "unat e - unat c \<le> fuel" "fuel \<le> fuel'"
  shows "instructions_loop fuel' A m cie pc e c st off = instructions_loop fuel A m cie pc e c st off"
  using assms
proof (induction fuel arbitrary: fuel' c st off)
  case 0
  then show ?case by (simp add: instructions_loop_done word_less_nat_alt)
next
  case (Suc fuel)
  then obtain f' where f': "fuel' = Suc f'" by (cases fuel') auto
  show ?case
  proof (cases "c < e \<and> sint off < sint pc")
    case False
    then show ?thesis by (simp add: instructions_loop_done)
  next
    case True
    have "instructions_loop f' A m cie pc e c1 st1 off1 = instructions_loop fuel A m cie pc e c1 st1 off1"
      if x: "execute_instruction A m cie c st off = Some (c1, st1, off1, ok)" for c1 st1 off1 ok
    proof (rule Suc.IH)
      have "unat c < unat c1"
        using advances_no_wrap [OF execute_instruction_keeps(2) [OF x]] True Suc.prems(1) by blast
      then show "unat e - unat c1 \<le> fuel" using Suc.prems(2) by simp
    qed (use Suc.prems f' in auto)
    then show ?thesis using f' True
      by (auto simp: instructions_loop_step intro!: Option.bind_cong)
  qed
qed

text \<open>\<open>instructions_stuck\<close>: after instructions that succeed, the loop is at one that has no result.  This is the
  only way in which the loop has none.\<close>

inductive instructions_stuck ::
  "'r arch \<Rightarrow> mem \<Rightarrow> DWARFCIERecord \<Rightarrow> u64 \<Rightarrow> addr \<Rightarrow> addr \<Rightarrow> FIRCLSDwarfState \<Rightarrow> u64 \<Rightarrow> bool"
  for A m cie pc e where
  undefined_now: "c < e \<Longrightarrow> sint off < sint pc \<Longrightarrow> execute_instruction A m cie c st off = None \<Longrightarrow>
     instructions_stuck A m cie pc e c st off"
| undefined_later: "c < e \<Longrightarrow> sint off < sint pc \<Longrightarrow>
     execute_instruction A m cie c st off = Some (c', st', off', True) \<Longrightarrow>
     instructions_stuck A m cie pc e c' st' off' \<Longrightarrow> instructions_stuck A m cie pc e c st off"

inductive_simps instructions_stuck_unfold: "instructions_stuck A m cie pc e c st off"

lemma instructions_loop_result:
  assumes "unat e < 2 ^ 63" "unat e - unat c \<le> fuel"
  shows "instructions_loop fuel A m cie pc e c st off = None \<longleftrightarrow> instructions_stuck A m cie pc e c st off"
  using assms
proof (induction fuel arbitrary: c st off)
  case 0
  then have "\<not> c < e" by (simp add: word_less_nat_alt)
  then show ?case by (subst instructions_stuck_unfold) (simp add: instructions_loop_done)
next
  case (Suc fuel)
  show ?case
  proof (cases "c < e \<and> sint off < sint pc")
    case False
    then show ?thesis by (subst instructions_stuck_unfold) (auto simp: instructions_loop_done)
  next
    case True
    have IH: "instructions_loop fuel A m cie pc e c1 st1 off1 = None \<longleftrightarrow> instructions_stuck A m cie pc e c1 st1 off1"
      if x: "execute_instruction A m cie c st off = Some (c1, st1, off1, ok)" for c1 st1 off1 ok
    proof (rule Suc.IH)
      have "unat c < unat c1"
        using advances_no_wrap [OF execute_instruction_keeps(2) [OF x]] True Suc.prems(1) by blast
      then show "unat e - unat c1 \<le> fuel" using Suc.prems(2) by simp
    qed (use Suc.prems in auto)
    show ?thesis
    proof (cases "execute_instruction A m cie c st off")
      case None
      then show ?thesis using True by (subst instructions_stuck_unfold) (simp add: instructions_loop_step)
    next
      case (Some x)
      obtain c1 st1 off1 ok where x: "execute_instruction A m cie c st off = Some (c1, st1, off1, ok)"
        using Some by (cases x) auto
      show ?thesis using True x IH [OF x]
        by (subst instructions_stuck_unfold) (auto simp: instructions_loop_step)
    qed
  qed
qed

subsection \<open>Rows of the unwind table and the meaning of instructions\<close>

datatype cfa_rule = Cfa_register_offset u64 u64 | Cfa_by_expression addr

datatype reg_rule =
    Same_value | Saved_at_cfa_plus u64 | Saved_in_register u64
  | Saved_at_expression addr | Value_of_expression addr

record cfi =
  cfi_cfa :: cfa_rule
  cfi_rule :: "u64 \<Rightarrow> reg_rule"

fun abs_rule :: "FIRCLSDwarfRegisterLocation \<Rightarrow> u64 \<Rightarrow> reg_rule" where
  "abs_rule FIRCLSDwarfRegisterInCFA v = Saved_at_cfa_plus v"
| "abs_rule FIRCLSDwarfRegisterInRegister v = Saved_in_register v"
| "abs_rule FIRCLSDwarfRegisterAtExpression v = Saved_at_expression v"
| "abs_rule FIRCLSDwarfRegisterIsExpression v = Value_of_expression v"
| "abs_rule _ v = Same_value"

definition abs_state :: "'r arch \<Rightarrow> FIRCLSDwarfState \<Rightarrow> cfi" where
  "abs_state A st = \<lparr>
     cfi_cfa = (if cfaExpression st \<noteq> 0 then Cfa_by_expression (cfaExpression st)
                else Cfa_register_offset (cfaRegister st) (cfaRegisterOffset st)),
     cfi_rule = (\<lambda>n. if n \<le> DWARF_MAX_REGISTER_NUM A
                     then abs_rule (location (state_registers st ! unat n)) (reg_value (state_registers st ! unat n))
                     else Same_value) \<rparr>"

datatype cfa_op =
    Cfa_nop | Cfa_advance nat | Cfa_advance1 nat | Cfa_advance2 nat | Cfa_advance4 nat
  | Cfa_def_cfa nat nat | Cfa_def_cfa_register nat | Cfa_def_cfa_offset nat
  | Cfa_def_cfa_expression "u8 list" | Cfa_same_value nat | Cfa_register nat nat | Cfa_offset nat nat
  | Cfa_expression nat "u8 list" | Cfa_val_expression nat "u8 list"

definition expr_block :: "u8 list \<Rightarrow> u8 list" where
  "expr_block e = uleb_bytes (length e) @ e"

fun cfa_encode :: "cfa_op \<Rightarrow> u8 list" where
  "cfa_encode Cfa_nop = [0x0]"
| "cfa_encode (Cfa_advance d) = [0x40 + of_nat d]"
| "cfa_encode (Cfa_advance1 d) = [0x2, of_nat d]"
| "cfa_encode (Cfa_advance2 d) = 0x3 # le_of_word 2 (of_nat d :: u16)"
| "cfa_encode (Cfa_advance4 d) = 0x4 # le_of_word 4 (of_nat d :: u32)"
| "cfa_encode (Cfa_def_cfa n k) = 0xC # uleb_bytes n @ uleb_bytes k"
| "cfa_encode (Cfa_def_cfa_register n) = 0xD # uleb_bytes n"
| "cfa_encode (Cfa_def_cfa_offset k) = 0xE # uleb_bytes k"
| "cfa_encode (Cfa_def_cfa_expression e) = 0xF # expr_block e"
| "cfa_encode (Cfa_same_value n) = 0x8 # uleb_bytes n"
| "cfa_encode (Cfa_register n k) = 0x9 # uleb_bytes n @ uleb_bytes k"
| "cfa_encode (Cfa_offset n k) = (0x80 + of_nat n) # uleb_bytes k"
| "cfa_encode (Cfa_expression n e) = 0x10 # uleb_bytes n @ expr_block e"
| "cfa_encode (Cfa_val_expression n e) = 0x16 # uleb_bytes n @ expr_block e"

text \<open>The row after an instruction at address \<open>c\<close>, with data alignment factor \<open>daf\<close>.\<close>

fun cfi_step :: "u64 \<Rightarrow> addr \<Rightarrow> cfa_op \<Rightarrow> cfi \<Rightarrow> cfi" where
  "cfi_step daf c (Cfa_def_cfa n k) s = s\<lparr>cfi_cfa := Cfa_register_offset (of_nat n) (of_nat k)\<rparr>"
| "cfi_step daf c (Cfa_def_cfa_register n) s =
     (case cfi_cfa s of
        Cfa_register_offset r k \<Rightarrow> s\<lparr>cfi_cfa := Cfa_register_offset (of_nat n) k\<rparr>
      | _ \<Rightarrow> s)"
| "cfi_step daf c (Cfa_def_cfa_offset k) s =
     (case cfi_cfa s of
        Cfa_register_offset r _ \<Rightarrow> s\<lparr>cfi_cfa := Cfa_register_offset r (of_nat k)\<rparr>
      | _ \<Rightarrow> s)"
| "cfi_step daf c (Cfa_def_cfa_expression e) s = s\<lparr>cfi_cfa := Cfa_by_expression (c + 1)\<rparr>"
| "cfi_step daf c (Cfa_same_value n) s = s\<lparr>cfi_rule := (cfi_rule s)(of_nat n := Same_value)\<rparr>"
| "cfi_step daf c (Cfa_register n k) s = s\<lparr>cfi_rule := (cfi_rule s)(of_nat n := Saved_in_register (of_nat k))\<rparr>"
| "cfi_step daf c (Cfa_offset n k) s = s\<lparr>cfi_rule := (cfi_rule s)(of_nat n := Saved_at_cfa_plus (of_nat k * daf))\<rparr>"
| "cfi_step daf c (Cfa_expression n e) s =
     s\<lparr>cfi_rule := (cfi_rule s)(of_nat n := Saved_at_expression (c + 1 + of_nat (length (uleb_bytes n))))\<rparr>"
| "cfi_step daf c (Cfa_val_expression n e) s =
     s\<lparr>cfi_rule := (cfi_rule s)(of_nat n := Value_of_expression (c + 1 + of_nat (length (uleb_bytes n))))\<rparr>"
| "cfi_step daf c _ s = s"

text \<open>The location after it, with code alignment factor \<open>caf\<close>.\<close>

fun cfi_loc :: "nat \<Rightarrow> cfa_op \<Rightarrow> nat \<Rightarrow> nat" where
  "cfi_loc caf (Cfa_advance d) loc = loc + d * caf"
| "cfi_loc caf (Cfa_advance1 d) loc = loc + d * caf"
| "cfi_loc caf (Cfa_advance2 d) loc = loc + d * caf"
| "cfi_loc caf (Cfa_advance4 d) loc = loc + d * caf"
| "cfi_loc caf _ loc = loc"

text \<open>Operands in range, no overflow of the location, and the two restrictions of the code.\<close>

fun cfi_op_ok :: "'r arch \<Rightarrow> addr \<Rightarrow> cfa_op \<Rightarrow> cfi \<Rightarrow> nat \<Rightarrow> bool" where
  "cfi_op_ok A c Cfa_nop s loc \<longleftrightarrow> True"
| "cfi_op_ok A c (Cfa_advance d) s loc \<longleftrightarrow> d < 64 \<and> loc = 0"
| "cfi_op_ok A c (Cfa_advance1 d) s loc \<longleftrightarrow> d < 2 ^ 8"
| "cfi_op_ok A c (Cfa_advance2 d) s loc \<longleftrightarrow> d < 2 ^ 16"
| "cfi_op_ok A c (Cfa_advance4 d) s loc \<longleftrightarrow> d < 2 ^ 32"
| "cfi_op_ok A c (Cfa_def_cfa n k) s loc \<longleftrightarrow>
     n \<le> unat (DWARF_MAX_REGISTER_NUM A) \<and> k < 2 ^ 31 \<and> (\<exists>r x. cfi_cfa s = Cfa_register_offset r x)"
| "cfi_op_ok A c (Cfa_def_cfa_register n) s loc \<longleftrightarrow>
     n \<le> unat (DWARF_MAX_REGISTER_NUM A) \<and> (\<exists>r x. cfi_cfa s = Cfa_register_offset r x)"
| "cfi_op_ok A c (Cfa_def_cfa_offset k) s loc \<longleftrightarrow>
     k < 2 ^ 31 \<and> (\<exists>r x. cfi_cfa s = Cfa_register_offset r x)"
| "cfi_op_ok A c (Cfa_def_cfa_expression e) s loc \<longleftrightarrow> length e < 2 ^ 31 \<and> c + 1 \<noteq> 0"
| "cfi_op_ok A c (Cfa_same_value n) s loc \<longleftrightarrow> n \<le> unat (DWARF_MAX_REGISTER_NUM A)"
| "cfi_op_ok A c (Cfa_register n k) s loc \<longleftrightarrow>
     n \<le> unat (DWARF_MAX_REGISTER_NUM A) \<and> k \<le> unat (DWARF_MAX_REGISTER_NUM A)"
| "cfi_op_ok A c (Cfa_offset n k) s loc \<longleftrightarrow> n \<le> unat (DWARF_MAX_REGISTER_NUM A) \<and> k < 2 ^ 31"
| "cfi_op_ok A c (Cfa_expression n e) s loc \<longleftrightarrow> n \<le> unat (DWARF_MAX_REGISTER_NUM A) \<and> length e < 2 ^ 31"
| "cfi_op_ok A c (Cfa_val_expression n e) s loc \<longleftrightarrow> n \<le> unat (DWARF_MAX_REGISTER_NUM A) \<and> length e < 2 ^ 31"

text \<open>
  The unwind table of a whole program: a row with its first location is complete where an instruction advances
  the location.  \<open>row_at l\<close> is the last row that starts at \<open>l\<close> or before it.
\<close>

fun cfi_table :: "nat \<Rightarrow> u64 \<Rightarrow> addr \<Rightarrow> cfa_op list \<Rightarrow> cfi \<Rightarrow> nat \<Rightarrow> (nat \<times> cfi) list" where
  "cfi_table caf daf c [] s loc = [(loc, s)]"
| "cfi_table caf daf c (op # ops) s loc =
     (if cfi_loc caf op loc = loc then [] else [(loc, s)]) @
     cfi_table caf daf (c + of_nat (length (cfa_encode op))) ops (cfi_step daf c op s) (cfi_loc caf op loc)"

definition row_at :: "nat \<Rightarrow> (nat \<times> cfi) list \<Rightarrow> cfi" where
  "row_at l table = snd (last (filter (\<lambda>(start, row). start \<le> l) table))"

text \<open>The run as the loop makes it, up to the first row that starts at \<open>pc\<close> or after it, and the conditions along
  the way: operands in range, a short \<open>DW_CFA_advance_loc\<close> only at location 0, no register rule for the CFA after
  an expression for it.\<close>

fun cfi_run :: "nat \<Rightarrow> u64 \<Rightarrow> nat \<Rightarrow> addr \<Rightarrow> cfa_op list \<Rightarrow> cfi \<Rightarrow> nat \<Rightarrow> cfi" where
  "cfi_run caf daf pc c [] s loc = s"
| "cfi_run caf daf pc c (op # ops) s loc =
     (if pc \<le> loc then s
      else cfi_run caf daf pc (c + of_nat (length (cfa_encode op))) ops (cfi_step daf c op s) (cfi_loc caf op loc))"

fun cfi_ok :: "'r arch \<Rightarrow> nat \<Rightarrow> u64 \<Rightarrow> nat \<Rightarrow> addr \<Rightarrow> cfa_op list \<Rightarrow> cfi \<Rightarrow> nat \<Rightarrow> bool" where
  "cfi_ok A caf daf pc c [] s loc \<longleftrightarrow> True"
| "cfi_ok A caf daf pc c (op # ops) s loc \<longleftrightarrow>
     (if pc \<le> loc then True
      else cfi_op_ok A c op s loc \<and> cfi_loc caf op loc < 2 ^ 63 \<and>
        cfi_ok A caf daf pc (c + of_nat (length (cfa_encode op))) ops (cfi_step daf c op s) (cfi_loc caf op loc))"

lemma cfi_loc_mono: "loc \<le> cfi_loc caf op loc"
  by (cases op) auto

lemma cfi_loc_step: "cfi_loc caf op loc \<noteq> loc \<Longrightarrow> cfi_step daf c op s = s"
  by (cases op) auto

lemma cfi_table_starts: "\<forall>(start, row) \<in> set (cfi_table caf daf c ops s loc). loc \<le> start"
proof (induction ops arbitrary: c s loc)
  case (Cons op ops)
  have "\<forall>(start, row) \<in> set (cfi_table caf daf (c + of_nat (length (cfa_encode op))) ops
      (cfi_step daf c op s) (cfi_loc caf op loc)). loc \<le> start"
    using Cons.IH cfi_loc_mono [of loc caf op] by (fastforce intro: order_trans)
  then show ?case by auto
qed simp

lemma cfi_table_first: "\<exists>row. (loc, row) \<in> set (cfi_table caf daf c ops s loc)"
proof (induction ops arbitrary: c s loc)
  case (Cons op ops)
  then show ?case by (cases "cfi_loc caf op loc = loc") auto
qed simp

lemma cfi_run_stops: "pc \<le> loc \<Longrightarrow> cfi_run caf daf pc c ops s loc = s"
  by (cases ops) simp_all

lemma row_at_Cons:
  "row_at l ((start, row) # table) =
     (if (\<exists>(start', row') \<in> set table. start' \<le> l) then row_at l table else if start \<le> l then row else row_at l table)"
  by (auto simp: row_at_def filter_empty_conv)

text \<open>The run that stops at an offset gives the last row of the whole table that starts before it.\<close>

lemma cfi_run_row: "loc < pc \<Longrightarrow> cfi_run caf daf pc c ops s loc = row_at (pc - 1) (cfi_table caf daf c ops s loc)"
proof (induction ops arbitrary: c s loc)
  case Nil
  then show ?case by (simp add: row_at_def)
next
  case (Cons op ops)
  let ?c = "c + of_nat (length (cfa_encode op))" and ?s = "cfi_step daf c op s" and ?loc = "cfi_loc caf op loc"
  let ?t = "cfi_table caf daf ?c ops ?s ?loc"
  consider "?loc = loc" | "loc < ?loc" "?loc < pc" | "loc < ?loc" "pc \<le> ?loc"
    using cfi_loc_mono [of loc caf op] by linarith
  then show ?case
  proof cases
    case 1
    then show ?thesis using Cons by simp
  next
    case 2
    obtain row where "(?loc, row) \<in> set ?t" using cfi_table_first by blast
    then have "\<exists>(start, row) \<in> set ?t. start \<le> pc - 1" using 2 by (intro bexI [of _ "(?loc, row)"]) auto
    then show ?thesis using Cons 2 by (simp add: row_at_Cons)
  next
    case 3
    have "\<not> (\<exists>(start, row) \<in> set ?t. start \<le> pc - 1)"
      using cfi_table_starts [of caf daf ?c ops ?s ?loc] 3 Cons.prems by fastforce
    then show ?thesis using Cons.prems 3 cfi_loc_step [of caf op loc daf c s]
      by (auto simp: row_at_Cons cfi_run_stops)
  qed
qed

definition cfa_code :: "cfa_op list \<Rightarrow> u8 list" where
  "cfa_code ops = concat (map cfa_encode ops)"

lemma cfa_code_simps [simp]:
  "cfa_code [] = []"
  "cfa_code (op # ops) = cfa_encode op @ cfa_code ops"
  by (simp_all add: cfa_code_def)

subsection \<open>One instruction\<close>

lemma abs_set_rule:
  assumes "state_ok A st" "n \<le> DWARF_MAX_REGISTER_NUM A"
  shows "abs_state A (set_rule st n loc v) = (abs_state A st)\<lparr>cfi_rule := (cfi_rule (abs_state A st))(n := abs_rule loc v)\<rparr>"
proof -
  have "unat k < length (state_registers st)" if "k \<le> DWARF_MAX_REGISTER_NUM A" for k
    using that assms(1) by (rule in_range)
  then show ?thesis
    using assms(2) by (auto simp: abs_state_def set_rule_def nth_list_update fun_eq_iff word_unat_eq_iff [symmetric])
qed

lemma abs_cfa:
  "cfaExpression st = 0 \<Longrightarrow>
   abs_state A (st\<lparr>cfaRegister := n, cfaRegisterOffset := k\<rparr>) = (abs_state A st)\<lparr>cfi_cfa := Cfa_register_offset n k\<rparr>"
  by (simp add: abs_state_def cong: if_cong)

lemma sint_of_nat: "n < 2 ^ 63 \<Longrightarrow> sint (of_nat n :: u64) = int n"
  by (simp add: sint_uint uint_nat unat_of_nat signed_take_bit_int_eq_self)

lemma reg_num:
  "n \<le> unat (DWARF_MAX_REGISTER_NUM A) \<Longrightarrow> DWARF_MAX_REGISTER_NUM A < 32 \<Longrightarrow>
   (of_nat n :: u64) \<le> DWARF_MAX_REGISTER_NUM A \<and> n < 2 ^ 31 \<and> n < 64"
proof -
  assume a: "n \<le> unat (DWARF_MAX_REGISTER_NUM A)" "DWARF_MAX_REGISTER_NUM A < 32"
  then have "n < 32" by (simp add: word_less_nat_alt)
  then have "unat (of_nat n :: u64) = n" by (simp add: unat_of_nat)
  with a(1) \<open>n < 32\<close> show ?thesis by (simp add: word_le_nat_alt)
qed

text \<open>The first byte of an encoding selects the function that executes it.\<close>

lemma exec_fetch:
  "m c = Some b \<Longrightarrow> FIRCLSParseUint8AndAdvance m c = Some (b, c + 1)"
  by (rule next_opcode_fetch)

lemma load_Cons: "load_bytes m c (length (b # bs)) = Some (b # bs) \<Longrightarrow>
   m c = Some b \<and> load_bytes m (c + 1) (length bs) = Some bs"
  by (auto simp: bind_Some_iff)

text \<open>What is to be shown of one instruction: it succeeds, at the next one, in the row that it means.\<close>

definition executes ::
  "'r arch \<Rightarrow> mem \<Rightarrow> DWARFCIERecord \<Rightarrow> nat \<Rightarrow> addr \<Rightarrow> cfa_op \<Rightarrow> FIRCLSDwarfState \<Rightarrow> nat \<Rightarrow> bool" where
  "executes A m cie caf c op st loc \<longleftrightarrow>
     (\<exists>st'. execute_instruction A m cie c st (of_nat loc) =
              Some (c + of_nat (length (cfa_encode op)), st', of_nat (cfi_loc caf op loc), True) \<and>
            abs_state A st' = cfi_step (cie_dataAlignFactor cie) c op (abs_state A st))"

lemma advance_value:
  assumes "cie_codeAlignFactor cie = of_nat caf" "loc + d * caf < 2 ^ 63"
  shows "int64_add (of_nat loc) (of_nat d * cie_codeAlignFactor cie) = Some (of_nat (loc + d * caf))"
proof -
  have "(of_nat d * of_nat caf :: u64) = of_nat (d * caf)" by simp
  moreover have "sint (of_nat loc :: u64) = int loc" "sint (of_nat (d * caf) :: u64) = int (d * caf)"
    using assms(2) by (simp_all only: sint_of_nat)
  moreover have "int loc + int (d * caf) < 2 ^ 63"
  proof -
    have "int (loc + d * caf) < int (2 ^ 63)" using assms(2) by (simp only: of_nat_less_iff)
    then show ?thesis by simp
  qed
  moreover have "0 \<le> int loc + int (d * caf)" by simp
  ultimately show ?thesis unfolding int64_add_def assms(1) by (simp del: of_nat_mult)
qed

lemma executes_advance124:
  assumes "DWARF_MAX_REGISTER_NUM A < 32" "cie_codeAlignFactor cie = of_nat caf" "cfi_loc caf op loc < 2 ^ 63"
    "cfi_op_ok A c op s loc" "load_bytes m c (length (cfa_encode op)) = Some (cfa_encode op)"
    "op = Cfa_advance1 d \<or> op = Cfa_advance2 d \<or> op = Cfa_advance4 d"
  shows "executes A m cie caf c op st loc"
  using assms(6)
proof (elim disjE)
  assume op: "op = Cfa_advance1 d"
  then have d: "d < 256" using assms(4) by simp
  have b: "m c = Some 0x2" "m (c + 1) = Some (of_nat d)"
    using assms(5) by (auto simp: op bind_Some_iff)
  then have "FIRCLSParseUint8AndAdvance m (c + 1) = Some (of_nat d, c + 1 + 1)" by (simp add: exec_fetch)
  then show ?thesis
    using advance_value [OF assms(2), of loc d] assms(3) b(1) d
    by (simp add: op executes_def execute_instruction_def exec_fetch FIRCLSDwarfParseAndExecute_advance_loc1_def
        ucast_byte with_offset_def)
next
  assume op: "op = Cfa_advance2 d"
  then have d: "d < 2 ^ 16" using assms(4) by simp
  have b: "m c = Some 0x3" "load_bytes m (c + 1) 2 = Some (le_of_word 2 (of_nat d :: u16))"
    using load_Cons [of m c "0x3" "le_of_word 2 (of_nat d :: u16)"] assms(5) by (simp_all add: op)
  have "(ucast (of_nat d :: u16) :: u64) = of_nat d"
    using d by (simp add: word_unat_eq_iff unsigned_ucast_eq unat_of_nat take_bit_nat_eq_self)
  then show ?thesis
    using advance_value [OF assms(2), of loc d] assms(3) b
    by (simp add: op executes_def execute_instruction_def exec_fetch FIRCLSDwarfParseAndExecute_advance_loc2_def
        FIRCLSParseUint16AndAdvance_def load_le_def with_offset_def add.assoc)
next
  assume op: "op = Cfa_advance4 d"
  then have d: "d < 2 ^ 32" using assms(4) by simp
  have b: "m c = Some 0x4" "load_bytes m (c + 1) 4 = Some (le_of_word 4 (of_nat d :: u32))"
    using load_Cons [of m c "0x4" "le_of_word 4 (of_nat d :: u32)"] assms(5) by (simp_all add: op)
  have "(ucast (of_nat d :: u32) :: u64) = of_nat d"
    using d by (simp add: word_unat_eq_iff unsigned_ucast_eq unat_of_nat take_bit_nat_eq_self)
  then show ?thesis
    using advance_value [OF assms(2), of loc d] assms(3) b
    by (simp add: op executes_def execute_instruction_def exec_fetch FIRCLSDwarfParseAndExecute_advance_loc4_def
        FIRCLSParseUint32AndAdvance_def load_le_def with_offset_def add.assoc)
qed

lemma uleb_pair:
  assumes "load_bytes m c (length (uleb_bytes n @ ys)) = Some (uleb_bytes n @ ys)" "n < 2 ^ 31"
  shows "FIRCLSParseULEB128AndAdvance m c = Some (of_nat n, c + of_nat (length (uleb_bytes n)))"
    and "load_bytes m (c + of_nat (length (uleb_bytes n))) (length ys) = Some ys"
  using load_bytes_appendD [OF assms(1)] uleb_reads [OF assms(2)] by simp_all

lemma expr_block_read:
  assumes "load_bytes m c (length (expr_block e)) = Some (expr_block e)" "length e < 2 ^ 31"
  shows "FIRCLSParseULEB128AndAdvance m c = Some (of_nat (length e), c + of_nat (length (uleb_bytes (length e))))"
    and "c + of_nat (length (uleb_bytes (length e))) + of_nat (length e) = c + of_nat (length (expr_block e))"
  using uleb_pair(1) [OF assms(1) [unfolded expr_block_def] assms(2)]
  by (simp_all add: expr_block_def add.assoc)

lemmas executes_defs = executes_def execute_instruction_def exec_fetch with_state_def not_less [symmetric]

lemma executes_cfa:
  assumes "DWARF_MAX_REGISTER_NUM A < 32"
    "cfi_op_ok A c op (abs_state A st) loc" "load_bytes m c (length (cfa_encode op)) = Some (cfa_encode op)"
    "op = Cfa_def_cfa n k \<or> op = Cfa_def_cfa_register n \<or> op = Cfa_def_cfa_offset k \<or>
     op = Cfa_def_cfa_expression e"
  shows "executes A m cie caf c op st loc"
  using assms(4)
proof (elim disjE)
  assume op: "op = Cfa_def_cfa n k"
  with assms(2) have n: "n \<le> unat (DWARF_MAX_REGISTER_NUM A)" "k < 2 ^ 31" "cfaExpression st = 0"
    by (auto simp: abs_state_def split: if_splits)
  note r = reg_num [OF n(1) assms(1)]
  have b: "m c = Some 0xC" "load_bytes m (c + 1) (length (uleb_bytes n @ uleb_bytes k)) = Some (uleb_bytes n @ uleb_bytes k)"
    using load_Cons [of m c "0xC" "uleb_bytes n @ uleb_bytes k"] assms(3) by (simp_all add: op)
  note u = uleb_pair [OF b(2)]
  show ?thesis
    using b(1) u r n uleb_reads [OF n(2), of m "c + 1 + of_nat (length (uleb_bytes n))"]
    by (simp add: op executes_defs FIRCLSDwarfParseAndExecute_def_cfa_def abs_cfa add.assoc)
next
  assume op: "op = Cfa_def_cfa_register n"
  with assms(2) have n: "n \<le> unat (DWARF_MAX_REGISTER_NUM A)" "cfaExpression st = 0"
    by (auto simp: abs_state_def split: if_splits)
  note r = reg_num [OF n(1) assms(1)]
  have b: "m c = Some 0xD" "load_bytes m (c + 1) (length (uleb_bytes n)) = Some (uleb_bytes n)"
    using load_Cons [of m c "0xD" "uleb_bytes n"] assms(3) by (simp_all add: op)
  show ?thesis
    using b(1) r n uleb_reads [OF _ b(2)]
    by (simp add: op executes_defs FIRCLSDwarfParseAndExecute_def_cfa_register_def abs_state_def add.assoc
        cong: if_cong)
next
  assume op: "op = Cfa_def_cfa_offset k"
  with assms(2) have n: "k < 2 ^ 31" "cfaExpression st = 0"
    by (auto simp: abs_state_def split: if_splits)
  have b: "m c = Some 0xE" "load_bytes m (c + 1) (length (uleb_bytes k)) = Some (uleb_bytes k)"
    using load_Cons [of m c "0xE" "uleb_bytes k"] assms(3) by (simp_all add: op)
  show ?thesis
    using b(1) n uleb_reads [OF _ b(2)]
    by (simp add: op executes_defs FIRCLSDwarfParseAndExecute_def_cfa_offset_def abs_state_def add.assoc
        cong: if_cong)
next
  assume op: "op = Cfa_def_cfa_expression e"
  with assms(2) have n: "length e < 2 ^ 31" "c + 1 \<noteq> 0" by auto
  have b: "m c = Some 0xF" "load_bytes m (c + 1) (length (expr_block e)) = Some (expr_block e)"
    using load_Cons [of m c "0xF" "expr_block e"] assms(3) by (simp_all add: op)
  note x = expr_block_read [OF b(2) n(1)]
  show ?thesis
    using b(1) n x
    by (simp add: op executes_defs FIRCLSDwarfParseAndExecute_def_cfa_expression_def abs_state_def add.assoc
        cong: if_cong)
qed

lemma executes_rule:
  assumes "DWARF_MAX_REGISTER_NUM A < 32" "state_ok A st"
    "cfi_op_ok A c op (abs_state A st) loc" "load_bytes m c (length (cfa_encode op)) = Some (cfa_encode op)"
    "op = Cfa_same_value n \<or> op = Cfa_register n k \<or> op = Cfa_expression n e \<or> op = Cfa_val_expression n e"
  shows "executes A m cie caf c op st loc"
proof -
  have n: "n \<le> unat (DWARF_MAX_REGISTER_NUM A)" using assms(3,5) by auto
  note r = reg_num [OF n assms(1)]
  from r have n31: "n < 2 ^ 31" and reg: "(of_nat n :: u64) \<le> DWARF_MAX_REGISTER_NUM A" by auto
  note abs = abs_set_rule [OF assms(2) reg]
  show ?thesis using assms(5)
  proof (elim disjE)
    assume op: "op = Cfa_same_value n"
    have b: "m c = Some 0x8" "load_bytes m (c + 1) (length (uleb_bytes n)) = Some (uleb_bytes n)"
      using load_Cons [of m c "0x8" "uleb_bytes n"] assms(4) by (simp_all add: op)
    show ?thesis
      using b(1) reg uleb_reads [OF n31 b(2)]
      by (simp add: op executes_defs FIRCLSDwarfParseAndExecute_same_value_def set_rule_eq abs add.assoc)
  next
    assume op: "op = Cfa_register n k"
    with assms(3) have k: "k \<le> unat (DWARF_MAX_REGISTER_NUM A)" by simp
    note rk = reg_num [OF k assms(1)]
    have b: "m c = Some 0x9" "load_bytes m (c + 1) (length (uleb_bytes n @ uleb_bytes k)) = Some (uleb_bytes n @ uleb_bytes k)"
      using load_Cons [of m c "0x9" "uleb_bytes n @ uleb_bytes k"] assms(4) by (simp_all add: op)
    note u = uleb_pair [OF b(2) n31]
    show ?thesis
      using b(1) u reg rk uleb_reads [OF _ u(2)]
      by (simp add: op executes_defs FIRCLSDwarfParseAndExecute_register_def set_rule_eq abs add.assoc)
  next
    assume op: "op = Cfa_expression n e"
    with assms(3) have e: "length e < 2 ^ 31" by simp
    have b: "m c = Some 0x10" "load_bytes m (c + 1) (length (uleb_bytes n @ expr_block e)) = Some (uleb_bytes n @ expr_block e)"
      using load_Cons [of m c "0x10" "uleb_bytes n @ expr_block e"] assms(4) by (simp_all add: op)
    note u = uleb_pair [OF b(2) n31]
    show ?thesis
      using b(1) u reg expr_block_read [OF u(2) e]
      by (simp add: op executes_defs FIRCLSDwarfParseAndExecute_expression_def set_rule_eq abs add.assoc)
  next
    assume op: "op = Cfa_val_expression n e"
    with assms(3) have e: "length e < 2 ^ 31" by simp
    have b: "m c = Some 0x16" "load_bytes m (c + 1) (length (uleb_bytes n @ expr_block e)) = Some (uleb_bytes n @ expr_block e)"
      using load_Cons [of m c "0x16" "uleb_bytes n @ expr_block e"] assms(4) by (simp_all add: op)
    note u = uleb_pair [OF b(2) n31]
    show ?thesis
      using b(1) u reg expr_block_read [OF u(2) e]
      by (simp add: op executes_defs FIRCLSDwarfParseAndExecute_val_expression_def set_rule_eq abs add.assoc)
  qed
qed

text \<open>The two instructions that carry their operand in the opcode byte.\<close>

lemma operand_bits_all:
  "list_all (\<lambda>n.
     (0x40 + of_nat n :: u8) AND 0x3F = of_nat n \<and> (0x40 + of_nat n :: u8) AND 0xC0 = 0x40 \<and>
     (0x80 + of_nat n :: u8) AND 0x3F = of_nat n \<and> (0x80 + of_nat n :: u8) AND 0xC0 = 0x80 \<and>
     0x2F < (0x40 + of_nat n :: u8) \<and> 0x2F < (0x80 + of_nat n :: u8)) [0..<64]"
  by code_simp

lemma operand_bits:
  assumes "n < 64"
  shows "(0x40 + of_nat n :: u8) AND 0x3F = of_nat n" "(0x40 + of_nat n :: u8) AND 0xC0 = 0x40"
    "(0x80 + of_nat n :: u8) AND 0x3F = of_nat n" "(0x80 + of_nat n :: u8) AND 0xC0 = 0x80"
    "0x2F < (0x40 + of_nat n :: u8)" "0x2F < (0x80 + of_nat n :: u8)"
  using operand_bits_all assms unfolding list_all_iff by (simp_all only: set_upt atLeastLessThan_iff le0 simp_thms)

lemma high_opcode:
  assumes "0x2F < b" "m c = Some b"
  shows "execute_instruction A m cie c st off =
    FIRCLSDwarfParseAndExecuteInstructionWithOperand A m (c + 1) b cie st off"
proof -
  have "b \<noteq> x" if "x \<le> 0x2F" for x using that assms(1) by auto
  then show ?thesis
    using assms(2) by (simp add: execute_instruction_def exec_fetch cfa_unimplemented_def)
qed

lemma executes_operand:
  assumes "DWARF_MAX_REGISTER_NUM A < 32" "state_ok A st" "cie_codeAlignFactor cie = of_nat caf"
    "cfi_loc caf op loc < 2 ^ 63"
    "cfi_op_ok A c op (abs_state A st) loc" "load_bytes m c (length (cfa_encode op)) = Some (cfa_encode op)"
    "op = Cfa_advance d \<or> op = Cfa_offset n k"
  shows "executes A m cie caf c op st loc"
  using assms(7)
proof (elim disjE)
  assume op: "op = Cfa_advance d"
  with assms(5) have d: "d < 64" "loc = 0" by auto
  have b: "m c = Some (0x40 + of_nat d)" using assms(6) by (auto simp: op bind_Some_iff)
  note bits = operand_bits [OF d(1)]
  have "sint (of_nat d :: u64) * sint (of_nat caf :: u64) = int (d * caf)" if "d \<noteq> 0"
  proof -
    have "caf \<le> d * caf" using that by simp
    also have "d * caf < 2 ^ 63" using assms(4) by (simp add: op d)
    finally have "caf < 2 ^ 63" .
    then show ?thesis using d(1) by (simp add: sint_of_nat)
  qed
  moreover have "sint (of_nat d :: u64) = 0" if "d = 0" using that by simp
  moreover have "int (d * caf) < 2 ^ 63"
  proof -
    have "d * caf < 2 ^ 63" using assms(4) by (simp add: op d)
    then have "int (d * caf) < int (2 ^ 63)" by (simp only: of_nat_less_iff)
    then show ?thesis by simp
  qed
  moreover have "- (2 ^ 63) \<le> int (d * caf)" by (rule order_trans [of _ 0]) simp_all
  ultimately have mul: "int64_mul (of_nat d) (of_nat caf) = Some (of_nat (d * caf))"
    by (cases "d = 0") (simp_all add: int64_mul_def)
  have eq: "execute_instruction A m cie c st (of_nat loc) =
      FIRCLSDwarfParseAndExecuteInstructionWithOperand A m (c + 1) (0x40 + of_nat d) cie st (of_nat loc)"
    using bits(5) b by (rule high_opcode)
  show ?thesis
    using eq bits d mul assms(3)
    by (simp add: executes_def op FIRCLSDwarfParseAndExecuteInstructionWithOperand_def
        FIRCLSDwarfParseAndExecute_advance_loc_def ucast_byte)
next
  assume op: "op = Cfa_offset n k"
  with assms(5) have n: "n \<le> unat (DWARF_MAX_REGISTER_NUM A)" "k < 2 ^ 31" by auto
  note r = reg_num [OF n(1) assms(1)]
  from r have n64: "n < 64" and reg: "(of_nat n :: u64) \<le> DWARF_MAX_REGISTER_NUM A" by auto
  have b: "m c = Some (0x80 + of_nat n)" "load_bytes m (c + 1) (length (uleb_bytes k)) = Some (uleb_bytes k)"
    using load_Cons [of m c "0x80 + of_nat n" "uleb_bytes k"] assms(6) by (simp_all add: op)
  note bits = operand_bits [OF n64]
  have eq: "execute_instruction A m cie c st (of_nat loc) =
      FIRCLSDwarfParseAndExecuteInstructionWithOperand A m (c + 1) (0x80 + of_nat n) cie st (of_nat loc)"
    using bits(6) b(1) by (rule high_opcode)
  show ?thesis
    using bits(3,4) reg n64 uleb_reads [OF n(2) b(2)] abs_set_rule [OF assms(2) reg]
    by (simp add: executes_def eq op FIRCLSDwarfParseAndExecuteInstructionWithOperand_def
        FIRCLSDwarfParseAndExecute_offset_def ucast_byte not_less [symmetric] set_rule_eq add.assoc)
qed

lemma executes_op:
  assumes "DWARF_MAX_REGISTER_NUM A < 32" "state_ok A st" "cie_codeAlignFactor cie = of_nat caf"
    "cfi_loc caf op loc < 2 ^ 63" "cfi_op_ok A c op (abs_state A st) loc"
    "load_bytes m c (length (cfa_encode op)) = Some (cfa_encode op)"
  shows "executes A m cie caf c op st loc"
proof (cases op)
  case Cfa_nop
  then show ?thesis using assms(6)
    by (auto simp: executes_def execute_instruction_def exec_fetch bind_Some_iff)
next
  case (Cfa_advance d)
  with assms show ?thesis by (intro executes_operand) auto
next
  case (Cfa_offset n k)
  with assms show ?thesis by (intro executes_operand) auto
next
  case (Cfa_advance1 d)
  with assms show ?thesis by (intro executes_advance124 [of A cie caf op loc c "abs_state A st" m d st]) auto
next
  case (Cfa_advance2 d)
  with assms show ?thesis by (intro executes_advance124 [of A cie caf op loc c "abs_state A st" m d st]) auto
next
  case (Cfa_advance4 d)
  with assms show ?thesis by (intro executes_advance124 [of A cie caf op loc c "abs_state A st" m d st]) auto
qed (use assms in \<open>auto intro: executes_cfa executes_rule\<close>)

subsection \<open>The program\<close>

lemma instructions_loop_runs:
  assumes "DWARF_MAX_REGISTER_NUM A < 32" "state_ok A st" "cie_codeAlignFactor cie = of_nat caf" "pc < 2 ^ 63"
    "loc < 2 ^ 63" "cfi_ok A caf (cie_dataAlignFactor cie) pc c ops (abs_state A st) loc"
    "load_bytes m c (length (cfa_code ops)) = Some (cfa_code ops)"
    "unat c + length (cfa_code ops) < 2 ^ 64" "length ops \<le> fuel"
  shows "\<exists>st'. instructions_loop fuel A m cie (of_nat pc) (c + of_nat (length (cfa_code ops))) c st (of_nat loc) =
           Some (st', True) \<and> state_ok A st' \<and>
           abs_state A st' = cfi_run caf (cie_dataAlignFactor cie) pc c ops (abs_state A st) loc"
  using assms
proof (induction ops arbitrary: c st loc fuel)
  case Nil
  then show ?case by (simp add: instructions_loop_done)
next
  case (Cons op ops)
  let ?n = "length (cfa_encode op)" and ?e = "c + of_nat (length (cfa_code (op # ops)))"
  have sint: "sint (of_nat loc :: u64) = int loc" "sint (of_nat pc :: u64) = int pc"
    using Cons.prems(4,5) by (simp_all only: sint_of_nat)
  show ?case
  proof (cases "pc \<le> loc")
    case True
    then have "\<not> (c < ?e \<and> sint (of_nat loc :: u64) < sint (of_nat pc :: u64))" unfolding sint by simp
    from instructions_loop_done [OF this, of fuel A m cie st] show ?thesis
      using True Cons.prems(2) by auto
  next
    case False
    obtain f where f: "fuel = Suc f" using Cons.prems(9) by (cases fuel) auto
    have n: "0 < ?n" by (cases op) auto
    have less: "c < ?e" using Cons.prems(8) n by (intro no_wrap_less) auto
    note code = load_bytes_appendD [OF Cons.prems(7) [unfolded cfa_code_simps]]
    have ok: "cfi_op_ok A c op (abs_state A st) loc" "cfi_loc caf op loc < 2 ^ 63"
      and rest: "cfi_ok A caf (cie_dataAlignFactor cie) pc (c + of_nat ?n) ops
        (cfi_step (cie_dataAlignFactor cie) c op (abs_state A st)) (cfi_loc caf op loc)"
      using Cons.prems(6) False by simp_all
    from executes_op [OF Cons.prems(1-3) ok(2,1) code(1)] obtain st1 where
      x: "execute_instruction A m cie c st (of_nat loc) = Some (c + of_nat ?n, st1, of_nat (cfi_loc caf op loc), True)"
      and abs1: "abs_state A st1 = cfi_step (cie_dataAlignFactor cie) c op (abs_state A st)"
      unfolding executes_def by blast
    have ok1: "state_ok A st1"
      using execute_instruction_keeps(1) [OF x] Cons.prems(1,2) by (simp add: keeps_def)
    have u: "unat (c + of_nat ?n) = unat c + ?n"
      using Cons.prems(8) n by (intro no_wrap_less(2)) auto
    have "c + of_nat ?n + of_nat (length (cfa_code ops)) = ?e" by (simp add: add.assoc)
    with Cons.IH [OF Cons.prems(1) ok1 Cons.prems(3,4) ok(2) rest [folded abs1] code(2), of f]
    obtain st' where
      "instructions_loop f A m cie (of_nat pc) ?e (c + of_nat ?n) st1 (of_nat (cfi_loc caf op loc)) = Some (st', True)"
      "state_ok A st'"
      "abs_state A st' = cfi_run caf (cie_dataAlignFactor cie) pc (c + of_nat ?n) ops (abs_state A st1) (cfi_loc caf op loc)"
      using Cons.prems(8,9) f u by auto
    then show ?thesis using f less False sint x abs1 by (simp add: instructions_loop_step)
  qed
qed

lemma enumerate_runs:
  assumes "DWARF_MAX_REGISTER_NUM A < 32" "state_ok A st" "cie_codeAlignFactor cie = of_nat caf" "pc < 2 ^ 63"
    "cfi_ok A caf (cie_dataAlignFactor cie) pc (ins_data ins) ops (abs_state A st) 0"
    "load_bytes m (ins_data ins) (length (cfa_code ops)) = Some (cfa_code ops)"
    "unat (ins_data ins) + length (cfa_code ops) < 2 ^ 64" "unat (ins_length ins) = length (cfa_code ops)"
  shows "\<exists>st'. FIRCLSDwarfInstructionsEnumerate A m ins cie st (of_nat pc) = Some (st', True) \<and> state_ok A st' \<and>
    abs_state A st' = cfi_run caf (cie_dataAlignFactor cie) pc (ins_data ins) ops (abs_state A st) 0"
proof -
  have "length ops \<le> length (cfa_code ops)"
  proof (induction ops)
    case (Cons op ops)
    have "0 < length (cfa_encode op)" by (cases op) auto
    with Cons show ?case by (simp del: length_greater_0_conv)
  qed simp
  moreover have "(ucast (ins_length ins) :: u64) = of_nat (length (cfa_code ops))"
    using assms(8) by (metis of_nat_unat)
  ultimately show ?thesis
    using instructions_loop_runs [OF assms(1-4) _ assms(5-7)] assms(8)
    by (simp add: FIRCLSDwarfInstructionsEnumerate_def)
qed

lemma enumerate_ok:
  "FIRCLSDwarfInstructionsEnumerate A m ins cie st pc = Some (st', ok) \<Longrightarrow> state_ok A st \<Longrightarrow>
   DWARF_MAX_REGISTER_NUM A < 32 \<Longrightarrow> state_ok A st'"
  unfolding FIRCLSDwarfInstructionsEnumerate_def by (rule instructions_loop_ok)

subsection \<open>Restoring the registers\<close>

text \<open>The registers are restored from the context as it was before: the value of each is computed on the
  old registers, whatever has been written before it.\<close>

fun saved_values :: "'r arch \<Rightarrow> mem \<Rightarrow> FIRCLSDwarfState \<Rightarrow> 'r option \<Rightarrow> u64 \<Rightarrow> nat \<Rightarrow> nat \<Rightarrow> (u64 \<times> u64) list option" where
  "saved_values A m st regs cfa i 0 = Some []"
| "saved_values A m st regs cfa i (Suc n) =
     (let d = state_registers st ! i in
      if location d = FIRCLSDwarfRegisterUnused then saved_values A m st regs cfa (Suc i) n
      else do {
        v \<leftarrow> FIRCLSDwarfGetSavedRegister A m regs cfa d;
        vs \<leftarrow> saved_values A m st regs cfa (Suc i) n;
        Some ((of_nat i, v) # vs) })"

lemma saved_values_fst:
  "saved_values A m st regs cfa i n = Some ws \<Longrightarrow> i + n \<le> 2 ^ 64 \<Longrightarrow>
   distinct (map fst ws) \<and> (\<forall>w\<in>set ws. i \<le> unat (fst w) \<and> unat (fst w) < i + n)"
proof (induction n arbitrary: i ws)
  case (Suc n)
  show ?case
  proof (cases "location (state_registers st ! i) = FIRCLSDwarfRegisterUnused")
    case True
    with Suc show ?thesis by fastforce
  next
    case False
    with Suc.prems obtain v vs where ws: "ws = (of_nat i, v) # vs"
      and vs: "saved_values A m st regs cfa (Suc i) n = Some vs"
      by (auto simp: Let_def bind_Some_iff)
    have ih: "distinct (map fst vs)" "\<forall>w\<in>set vs. Suc i \<le> unat (fst w) \<and> unat (fst w) < Suc i + n"
      using Suc.IH [OF vs] Suc.prems(2) by auto
    have "unat (of_nat i :: u64) = i" using Suc.prems(2) by (simp add: unat_of_nat)
    then show ?thesis using ih ws by fastforce
  qed
qed simp

lemma saved_values_member:
  "saved_values A m st regs cfa i n = Some ws \<Longrightarrow> i \<le> k \<Longrightarrow> k < i + n \<Longrightarrow> i + n \<le> 2 ^ 64 \<Longrightarrow>
   (if location (state_registers st ! k) = FIRCLSDwarfRegisterUnused then (of_nat k :: u64) \<notin> fst ` set ws
    else \<exists>v. FIRCLSDwarfGetSavedRegister A m regs cfa (state_registers st ! k) = Some v \<and> (of_nat k, v) \<in> set ws)"
proof (induction n arbitrary: i ws)
  case (Suc n)
  have out: "(of_nat i :: u64) \<notin> fst ` set vs" if "saved_values A m st regs cfa (Suc i) n = Some vs" for vs
  proof
    assume "(of_nat i :: u64) \<in> fst ` set vs"
    then obtain w where "w \<in> set vs" "fst w = of_nat i" by force
    then have "Suc i \<le> unat (of_nat i :: u64)" using saved_values_fst [OF that] Suc.prems(4) by fastforce
    moreover have "unat (of_nat i :: u64) = i" using Suc.prems(4) by (simp add: unat_of_nat)
    ultimately show False by simp
  qed
  have ne: "(of_nat k :: u64) \<noteq> of_nat i" if "k \<noteq> i"
    using that Suc.prems by (simp add: word_unat_eq_iff unat_of_nat)
  show ?case
  proof (cases "location (state_registers st ! i) = FIRCLSDwarfRegisterUnused")
    case True
    with Suc.prems(1) have r: "saved_values A m st regs cfa (Suc i) n = Some ws" by simp
    show ?thesis
    proof (cases "k = i")
      case True
      then show ?thesis using out [OF r] \<open>location (state_registers st ! i) = FIRCLSDwarfRegisterUnused\<close> by simp
    next
      case False
      then show ?thesis using Suc.IH [OF r] Suc.prems by simp
    qed
  next
    case False
    with Suc.prems(1) obtain v vs where v: "FIRCLSDwarfGetSavedRegister A m regs cfa (state_registers st ! i) = Some v"
      and r: "saved_values A m st regs cfa (Suc i) n = Some vs" and ws: "ws = (of_nat i, v) # vs"
      by (auto simp: Let_def bind_Some_iff)
    show ?thesis
    proof (cases "k = i")
      case True
      then show ?thesis using v ws False by simp
    next
      case False
      then have "Suc i \<le> k" using Suc.prems(2) by simp
      then show ?thesis using Suc.IH [OF r] Suc.prems ws ne [OF False] by (auto split: if_splits)
    qed
  qed
qed simp

context register_file begin

lemma assign_loop_writes:
  assumes "i + n = unat (DWARF_MAX_REGISTER_NUM A) + 1"
  shows "assign_loop n A m st regs cfa (of_nat i) (Some new) =
    map_option (\<lambda>ws. (Some (write_all ws new), True)) (saved_values A m st regs cfa i n)"
  using assms
proof (induction n arbitrary: i new)
  case (Suc n)
  have i: "unat (of_nat i :: u64) = i" and le: "(of_nat i :: u64) \<le> DWARF_MAX_REGISTER_NUM A"
  proof -
    have "i < 2 ^ 64" using Suc.prems max_small by (simp add: word_less_nat_alt)
    then show "unat (of_nat i :: u64) = i" by (simp add: unat_of_nat)
    then show "(of_nat i :: u64) \<le> DWARF_MAX_REGISTER_NUM A" using Suc.prems by (simp add: word_le_nat_alt)
  qed
  have ih: "assign_loop n A m st regs cfa (of_nat i + 1) (Some r) =
    map_option (\<lambda>ws. (Some (write_all ws r), True)) (saved_values A m st regs cfa (Suc i) n)" for r
    using Suc.IH [of "Suc i" r] Suc.prems by (simp add: add.commute)
  have set: "snd (DWARF_SET_REGISTER A new (of_nat i) v)" for v
    using le by (simp add: set_ok)
  show ?case
    using set
    by (cases "FIRCLSDwarfGetSavedRegister A m regs cfa (state_registers st ! i)";
        cases "saved_values A m st regs cfa (Suc i) n")
      (simp_all add: i ih Let_def FIRCLSDwarfUnwindSetRegisterValue_def split_beta)
qed simp

lemma assign_registers_result:
  assumes "FIRCLSDwarfUnwindAssignRegisters A m st (Some r) cfa out = Some (res, True)"
  obtains r' where "res = Some r'"
    and "DWARF_GET_REGISTER A r' (DWARF_REG_SP A) = norm (DWARF_REG_SP A) cfa"
    and "DWARF_GET_REGISTER A r' (DWARF_REG_SP A) \<noteq> DWARF_GET_REGISTER A r (DWARF_REG_SP A)"
    and "DWARF_GET_REGISTER A r' (DWARF_REG_RETURN A) \<noteq> DWARF_GET_REGISTER A r (DWARF_REG_RETURN A)"
    and "\<And>n. n \<le> DWARF_MAX_REGISTER_NUM A \<Longrightarrow> n \<noteq> DWARF_REG_SP A \<Longrightarrow>
      (if location (state_registers st ! unat n) = FIRCLSDwarfRegisterUnused
       then DWARF_GET_REGISTER A r' n = DWARF_GET_REGISTER A r n
       else \<exists>v. FIRCLSDwarfGetSavedRegister A m (Some r) cfa (state_registers st ! unat n) = Some v \<and>
                DWARF_GET_REGISTER A r' n = norm n v)"
    and "location (state_registers st ! unat (DWARF_REG_RETURN A)) \<noteq> FIRCLSDwarfRegisterUnused \<Longrightarrow>
      (\<exists>v. FIRCLSDwarfGetSavedRegister A m (Some r) cfa (state_registers st ! unat (DWARF_REG_RETURN A)) = Some v \<and>
           GET_IP_REGISTER A r' = norm (DWARF_REG_RETURN A) v)"
proof -
  let ?N = "unat (DWARF_MAX_REGISTER_NUM A) + 1"
  have N: "?N \<le> 32" using max_small by (simp add: word_less_nat_alt)
  have loop: "assign_loop ?N A m st (Some r) cfa 0 (Some r) =
      map_option (\<lambda>ws. (Some (write_all ws r), True)) (saved_values A m st (Some r) cfa 0 ?N)"
    using assign_loop_writes [of 0 ?N] by simp
  obtain ws where ws: "saved_values A m st (Some r) cfa 0 ?N = Some ws"
    using assms loop
    by (cases "saved_values A m st (Some r) cfa 0 ?N") (simp_all add: FIRCLSDwarfUnwindAssignRegisters_def)
  define r1 where "r1 = write_all ws r"
  define r' where "r' = fst (DWARF_SET_REGISTER A r1 (DWARF_REG_SP A) cfa)"
  have res: "res = Some r'" and sp: "DWARF_GET_REGISTER A r (DWARF_REG_SP A) \<noteq> DWARF_GET_REGISTER A r' (DWARF_REG_SP A)"
    and ra: "DWARF_GET_REGISTER A r (DWARF_REG_RETURN A) \<noteq> DWARF_GET_REGISTER A r' (DWARF_REG_RETURN A)"
    using assms loop ws special(2) set_ok [of r1 "DWARF_REG_SP A" cfa]
    by (auto simp: FIRCLSDwarfUnwindAssignRegisters_def FIRCLSDwarfUnwindSetRegisterValue_def split_beta
        FIRCLSDwarfCompareRegisters_def FIRCLSDwarfUnwindGetRegisterValue_def r1_def r'_def split: if_splits)
  have dist: "distinct (map fst ws)" using saved_values_fst [OF ws] N by simp
  have mem: "if location (state_registers st ! unat n) = FIRCLSDwarfRegisterUnused then n \<notin> fst ` set ws
      else \<exists>v. FIRCLSDwarfGetSavedRegister A m (Some r) cfa (state_registers st ! unat n) = Some v \<and> (n, v) \<in> set ws"
    if "n \<le> DWARF_MAX_REGISTER_NUM A" for n
    using saved_values_member [OF ws, of "unat n"] N that by (simp add: word_le_nat_alt cong: if_cong)
  have "if location (state_registers st ! unat n) = FIRCLSDwarfRegisterUnused
       then DWARF_GET_REGISTER A r' n = DWARF_GET_REGISTER A r n
       else \<exists>v. FIRCLSDwarfGetSavedRegister A m (Some r) cfa (state_registers st ! unat n) = Some v \<and>
                DWARF_GET_REGISTER A r' n = norm n v"
    if "n \<le> DWARF_MAX_REGISTER_NUM A" "n \<noteq> DWARF_REG_SP A" for n
    using mem [OF that(1)] write_all_other [of n ws r] write_all_written [OF dist _ that(1)] that(2)
    by (auto simp: r'_def r1_def get_other split: if_splits)
  moreover have "\<exists>v. FIRCLSDwarfGetSavedRegister A m (Some r) cfa (state_registers st ! unat (DWARF_REG_RETURN A)) = Some v \<and>
           GET_IP_REGISTER A r' = norm (DWARF_REG_RETURN A) v"
    if "location (state_registers st ! unat (DWARF_REG_RETURN A)) \<noteq> FIRCLSDwarfRegisterUnused"
    using mem [OF special(1)] that write_all_pc [OF dist] special(3)
    by (auto simp: r'_def r1_def pc_other)
  moreover have "DWARF_GET_REGISTER A r' (DWARF_REG_SP A) = norm (DWARF_REG_SP A) cfa"
    using special(2) by (simp add: r'_def get_same)
  ultimately show thesis using that res sp ra by metis
qed

end

subsection \<open>Properties\<close>

text \<open>C31 (invariant): whatever instructions it is given, the interpreter keeps the state well formed:
  the register table has one entry per register, the CFA register is a register number or the marker
  beyond the last, and every register another one is saved in exists.\<close>

theorem cfi_state_invariant:
  assumes "FIRCLSDwarfInstructionsEnumerate A m ins cie st pc = Some (st', ok)" "state_ok A st"
    "DWARF_MAX_REGISTER_NUM A < 32"
  shows "state_ok A st'"
  using assms by (rule enumerate_ok)

definition prologue :: "cfa_op list" where
  "prologue = [Cfa_def_cfa 7 8, Cfa_offset 16 1, Cfa_advance 1, Cfa_def_cfa_offset 16, Cfa_nop]"

lemma prologue_code: "cfa_code prologue = [0x0C, 7, 8, 0x90, 1, 0x41, 0x0E, 16, 0]"
  by (simp add: prologue_def uleb_bytes_small)

definition prologue_ins :: DWARFInstructions where
  "prologue_ins = \<lparr> ins_length = 9, ins_data = 0x1000 \<rparr>"

definition prologue_cie :: DWARFCIERecord where
  "prologue_cie = zero_cie\<lparr>cie_codeAlignFactor := 1, cie_dataAlignFactor := - 8\<rparr>"

lemma prologue_loaded:
  "load_bytes (bytes_at 0x1000 (cfa_code prologue)) 0x1000 (length (cfa_code prologue)) = Some (cfa_code prologue)"
  by (rule load_bytes_at) (simp add: prologue_code)

lemma prologue_conditions:
  "cfi_ok arch_x86_64 1 (- 8) 4 0x1000 prologue (abs_state arch_x86_64 (zero_state arch_x86_64)) 0"
  by (simp add: prologue_def abs_state_def zero_state_def arch_x86_64_def uleb_bytes_small)

lemma prologue_row:
  "cfi_cfa (row_at 3 (cfi_table 1 (- 8) 0x1000 prologue (abs_state arch_x86_64 (zero_state arch_x86_64)) 0)) =
     Cfa_register_offset 7 16"
  by (simp add: row_at_def prologue_def abs_state_def zero_state_def arch_x86_64_def uleb_bytes_small)

text \<open>C2 (refinement): run on the encoding of a call frame program, the interpreter succeeds and leaves the
  row of the program's unwind table that is in force just before the program counter offset, the last row that
  starts before it (at offset 0 the state is left as it is; the loop stops before a row that starts at the offset).
  \<open>cfi_ok\<close> restricts the instructions that start before the offset: operands in range, a short
  \<open>DW_CFA_advance_loc\<close> only at location 0, as a second one is lost (\<open>advance_loc_overwrites\<close>), and no register rule
  for the CFA after a CFA expression, which would stay in force.\<close>

theorem cfi_enumerate_refines:
  assumes "DWARF_MAX_REGISTER_NUM A < 32" "state_ok A st" "cie_codeAlignFactor cie = of_nat caf" "pc < 2 ^ 63"
    "cfi_ok A caf (cie_dataAlignFactor cie) pc (ins_data ins) ops (abs_state A st) 0"
    "load_bytes m (ins_data ins) (length (cfa_code ops)) = Some (cfa_code ops)"
    "unat (ins_data ins) + length (cfa_code ops) < 2 ^ 64" "unat (ins_length ins) = length (cfa_code ops)"
  shows "\<exists>st'. FIRCLSDwarfInstructionsEnumerate A m ins cie st (of_nat pc) = Some (st', True) \<and> state_ok A st' \<and>
    abs_state A st' =
      (if pc = 0 then abs_state A st
       else row_at (pc - 1) (cfi_table caf (cie_dataAlignFactor cie) (ins_data ins) ops (abs_state A st) 0))"
  using enumerate_runs [OF assms] cfi_run_row [of 0 pc caf "cie_dataAlignFactor cie" "ins_data ins" ops "abs_state A st"]
  by (auto simp: cfi_run_stops)

theorem cfi_enumerate_refines_witness:
  "\<exists>st'. FIRCLSDwarfInstructionsEnumerate arch_x86_64 (bytes_at 0x1000 (cfa_code prologue)) prologue_ins
      prologue_cie (zero_state arch_x86_64) 4 = Some (st', True) \<and>
    cfi_cfa (abs_state arch_x86_64 st') = Cfa_register_offset 7 16"
  using cfi_enumerate_refines [of arch_x86_64 "zero_state arch_x86_64" prologue_cie 1 4 prologue_ins prologue
      "bytes_at 0x1000 (cfa_code prologue)"] prologue_conditions prologue_loaded prologue_row state_ok_zero [of arch_x86_64]
  by (auto simp: prologue_ins_def prologue_cie_def prologue_code)

theorem cfi_state_invariant_witness:
  "\<exists>st'. FIRCLSDwarfInstructionsEnumerate arch_x86_64 (bytes_at 0x1000 (cfa_code prologue)) prologue_ins
      prologue_cie (zero_state arch_x86_64) 4 = Some (st', True) \<and> state_ok arch_x86_64 st'"
proof -
  obtain st' where "FIRCLSDwarfInstructionsEnumerate arch_x86_64 (bytes_at 0x1000 (cfa_code prologue)) prologue_ins
      prologue_cie (zero_state arch_x86_64) 4 = Some (st', True)"
    using enumerate_runs [of arch_x86_64 "zero_state arch_x86_64" prologue_cie 1 4 prologue_ins prologue
      "bytes_at 0x1000 (cfa_code prologue)"] prologue_conditions prologue_loaded state_ok_zero [of arch_x86_64]
    by (auto simp: prologue_ins_def prologue_cie_def prologue_code)
  with cfi_state_invariant [OF this state_ok_zero] show ?thesis by simp
qed

definition short_advances :: "cfa_op list" where
  "short_advances = [Cfa_def_cfa 7 8, Cfa_advance 4, Cfa_advance 4, Cfa_def_cfa_offset 16]"

definition short_advances_ins :: DWARFInstructions where
  "short_advances_ins = \<lparr> ins_length = 7, ins_data = 0x1000 \<rparr>"

lemma short_advances_code: "cfa_code short_advances = [0x0C, 7, 8, 0x44, 0x44, 0x0E, 16]"
  by (simp add: short_advances_def uleb_bytes_small)

lemma short_advances_runs:
  "map_option (\<lambda>(st, ok). (cfaRegister st, cfaRegisterOffset st, cfaExpression st, ok))
    (FIRCLSDwarfInstructionsEnumerate arch_x86_64 (bytes_at 0x1000 [0x0C, 7, 8, 0x44, 0x44, 0x0E, 16])
      short_advances_ins prologue_cie (zero_state arch_x86_64) 5) = Some (7, 16, 0, True)"
  by code_simp

text \<open>C29 (termination): for instructions that lie in the lower half of the address space the loop of the
  interpreter ends: the length of the instructions is enough fuel, more does not change the result, and there is
  a result unless the loop reaches, by instructions that succeed, one whose execution is undefined.\<close>

theorem cfi_terminates:
  assumes "unat (ins_data ins) + unat (ins_length ins) < 2 ^ 63" "unat (ins_length ins) \<le> fuel"
  shows "instructions_loop fuel A m cie pc (ins_data ins + ucast (ins_length ins)) (ins_data ins) st 0 =
      FIRCLSDwarfInstructionsEnumerate A m ins cie st pc \<and>
    (FIRCLSDwarfInstructionsEnumerate A m ins cie st pc = None \<longleftrightarrow>
      instructions_stuck A m cie pc (ins_data ins + ucast (ins_length ins)) (ins_data ins) st 0)"
proof -
  have "unat (ucast (ins_length ins) :: u64) = unat (ins_length ins)"
  proof -
    have "unat (ins_length ins) < 2 ^ LENGTH(32)" by (rule unsigned_less)
    then have "unat (ins_length ins) < 2 ^ 64" by simp
    then show ?thesis by (simp add: unsigned_ucast_eq take_bit_nat_eq_self)
  qed
  then have "unat (ins_data ins + ucast (ins_length ins)) = unat (ins_data ins) + unat (ins_length ins)"
    using assms(1) unat_add_of_nat [of "ins_data ins" "unat (ins_length ins)"] by simp
  with assms show ?thesis
    unfolding FIRCLSDwarfInstructionsEnumerate_def
    by (intro conjI instructions_loop_fuel instructions_loop_result) simp_all
qed

theorem cfi_terminates_witness:
  "\<exists>st. instructions_loop 500 arch_x86_64 (bytes_at 0x1000 [0x0C, 7, 8, 0x44, 0x44, 0x0E, 16]) prologue_cie 5 0x1007 0x1000
     (zero_state arch_x86_64) 0 = Some (st, True)"
  using cfi_terminates [of short_advances_ins 500 arch_x86_64 "bytes_at 0x1000 [0x0C, 7, 8, 0x44, 0x44, 0x0E, 16]" prologue_cie 5]
    short_advances_runs
  by (auto simp: short_advances_ins_def)

text \<open>C13 (functional): a restoration that succeeds on x86-64 sets the stack pointer to the CFA, gives every
  register that has a rule the value the rule computes on the old registers, in parallel, and keeps the
  others; and the stack pointer and the return address have changed, so that unwinding makes progress.\<close>

theorem x86_assign_registers:
  assumes "FIRCLSDwarfUnwindAssignRegisters arch_x86_64 m st (Some r) cfa out = Some (res, True)"
  shows "\<exists>r'. res = Some r' \<and> ss_rsp r' = cfa \<and> ss_rsp r \<noteq> cfa \<and> ss_rip r' \<noteq> ss_rip r \<and>
    (\<forall>n. n \<le> 16 \<longrightarrow> n \<noteq> 7 \<longrightarrow>
      (if location (state_registers st ! unat n) = FIRCLSDwarfRegisterUnused
       then x86_64_get_register r' n = x86_64_get_register r n
       else FIRCLSDwarfGetSavedRegister arch_x86_64 m (Some r) cfa (state_registers st ! unat n) =
              Some (x86_64_get_register r' n)))"
proof -
  have get: "x86_64_get_register r 7 = ss_rsp r" "x86_64_get_register r 16 = ss_rip r" for r
    by (simp_all add: x86_64_get_register_def)
  from x86.assign_registers_result [OF assms, unfolded arch_x86_64_simps x86_norm_def get] obtain r' where
    r': "res = Some r'" "ss_rsp r' = cfa" "ss_rsp r' \<noteq> ss_rsp r" "ss_rip r' \<noteq> ss_rip r"
    and rules: "\<And>n. n \<le> 16 \<Longrightarrow> n \<noteq> 7 \<Longrightarrow>
      (if location (state_registers st ! unat n) = FIRCLSDwarfRegisterUnused
       then x86_64_get_register r' n = x86_64_get_register r n
       else \<exists>v. FIRCLSDwarfGetSavedRegister arch_x86_64 m (Some r) cfa (state_registers st ! unat n) = Some v \<and>
                x86_64_get_register r' n = v)"
    by metis
  have "if location (state_registers st ! unat n) = FIRCLSDwarfRegisterUnused
       then x86_64_get_register r' n = x86_64_get_register r n
       else FIRCLSDwarfGetSavedRegister arch_x86_64 m (Some r) cfa (state_registers st ! unat n) =
              Some (x86_64_get_register r' n)" if "n \<le> 16" "n \<noteq> 7" for n
    using rules [OF that] by (auto split: if_splits)
  with r' show ?thesis by auto
qed

definition crash_context :: x86_thread_state64 where
  "crash_context = \<lparr>
     ss_rax = 0, ss_rdx = 0, ss_rcx = 0, ss_rbx = 0, ss_rsi = 0, ss_rdi = 0, ss_rbp = 0, ss_rsp = 0x3000,
     ss_r8 = 0, ss_r9 = 0, ss_r10 = 0, ss_r11 = 0, ss_r12 = 0, ss_r13 = 0, ss_r14 = 0, ss_r15 = 0,
     ss_rip = 0x1004 \<rparr>"

definition return_at_cfa_minus_8 :: FIRCLSDwarfState where
  "return_at_cfa_minus_8 = set_rule (zero_state arch_x86_64) 16 FIRCLSDwarfRegisterInCFA (- 8)"

lemma assign_computes:
  "FIRCLSDwarfUnwindAssignRegisters arch_x86_64 (bytes_at 0x3008 [0, 0x50, 0, 0, 0, 0, 0, 0])
     return_at_cfa_minus_8 (Some crash_context) 0x3010 None =
   Some (Some (crash_context\<lparr>ss_rsp := 0x3010, ss_rip := 0x5000\<rparr>), True)"
  by code_simp

theorem x86_assign_registers_witness:
  "FIRCLSDwarfGetSavedRegister arch_x86_64 (bytes_at 0x3008 [0, 0x50, 0, 0, 0, 0, 0, 0]) (Some crash_context)
     0x3010 (state_registers return_at_cfa_minus_8 ! 16) = Some 0x5000"
proof -
  have "location (state_registers return_at_cfa_minus_8 ! 16) \<noteq> FIRCLSDwarfRegisterUnused"
    by (simp add: return_at_cfa_minus_8_def set_rule_def zero_state_def)
  with x86_assign_registers [OF assign_computes] show ?thesis
    by (auto simp: x86_64_get_register_def dest!: spec [of _ 16])
qed

text \<open>A short \<open>DW_CFA_advance_loc\<close> sets the location instead of advancing it: of two
  advances by 4 the second is lost, the location stays at 4, and at offset 5 the interpreter goes on into
  instructions that only hold from offset 8, and returns the wrong CFA, \<open>rsp + 16\<close> for \<open>rsp + 8\<close>.\<close>

theorem advance_loc_overwrites:
  "cfi_cfa (cfi_run 1 (- 8) 5 0x1000 short_advances (abs_state arch_x86_64 (zero_state arch_x86_64)) 0) =
     Cfa_register_offset 7 8 \<and>
   (\<exists>st. FIRCLSDwarfInstructionsEnumerate arch_x86_64 (bytes_at 0x1000 (cfa_code short_advances))
       short_advances_ins prologue_cie (zero_state arch_x86_64) 5 = Some (st, True) \<and>
     cfi_cfa (abs_state arch_x86_64 st) = Cfa_register_offset 7 16)"
proof
  show "cfi_cfa (cfi_run 1 (- 8) 5 0x1000 short_advances (abs_state arch_x86_64 (zero_state arch_x86_64)) 0) =
     Cfa_register_offset 7 8"
    by (simp add: short_advances_def abs_state_def zero_state_def uleb_bytes_small)
  show "\<exists>st. FIRCLSDwarfInstructionsEnumerate arch_x86_64 (bytes_at 0x1000 (cfa_code short_advances))
       short_advances_ins prologue_cie (zero_state arch_x86_64) 5 = Some (st, True) \<and>
     cfi_cfa (abs_state arch_x86_64 st) = Cfa_register_offset 7 16"
    using short_advances_runs unfolding short_advances_code by (auto simp: abs_state_def)
qed

text \<open>C40 (error): \<open>DW_CFA_def_cfa\<close> does not replace a CFA expression: once an expression is set, the
  instruction succeeds on every register number and offset in range and sets both, but the CFA is still computed
  by the expression.\<close>

theorem stale_cfa_expression:
  assumes "cfaExpression st \<noteq> 0" "DWARF_MAX_REGISTER_NUM A < 32" "n \<le> unat (DWARF_MAX_REGISTER_NUM A)" "k < 2 ^ 31"
    "load_bytes m c (length (uleb_bytes n @ uleb_bytes k)) = Some (uleb_bytes n @ uleb_bytes k)"
  shows "\<exists>c' st'. FIRCLSDwarfParseAndExecute_def_cfa A m c st = Some (c', st', True) \<and>
    cfaRegister st' = of_nat n \<and> cfaRegisterOffset st' = of_nat k \<and>
    FIRCLSDwarfGetCFA A m st' regs cfa = FIRCLSDwarfGetCFA A m st regs cfa"
proof -
  note n = reg_num [OF assms(3,2)]
  note u = uleb_pair [OF assms(5)]
  have "FIRCLSParseULEB128AndAdvance m (c + of_nat (length (uleb_bytes n))) =
      Some (of_nat k, c + of_nat (length (uleb_bytes n)) + of_nat (length (uleb_bytes k)))"
    using uleb_pair(1) [of m _ k "[]"] u(2) n assms(4) by simp
  then show ?thesis using n u(1) assms(1)
    by (auto simp: FIRCLSDwarfParseAndExecute_def_cfa_def FIRCLSDwarfGetCFA_def not_less [symmetric])
qed

theorem stale_cfa_expression_witness:
  "\<exists>c' st'. FIRCLSDwarfParseAndExecute_def_cfa arch_x86_64 (bytes_at 0x1000 [7, 8, 1, 0x35]) 0x1000
      ((zero_state arch_x86_64)\<lparr>cfaExpression := 0x1002\<rparr>) = Some (c', st', True) \<and>
    cfaRegister st' = 7 \<and> cfaRegisterOffset st' = 8 \<and> ss_rsp crash_context + 8 = 0x3008 \<and>
    FIRCLSDwarfGetCFA arch_x86_64 (bytes_at 0x1000 [7, 8, 1, 0x35]) st' (Some crash_context) 0 = Some (5, True)"
proof -
  let ?m = "bytes_at 0x1000 [7, 8, 1, 0x35] :: mem" and ?st = "(zero_state arch_x86_64)\<lparr>cfaExpression := 0x1002\<rparr>"
  have l: "load_bytes ?m 0x1000 (length (uleb_bytes 7 @ uleb_bytes 8)) = Some (uleb_bytes 7 @ uleb_bytes 8)"
    unfolding uleb_bytes_small [of 7, simplified] uleb_bytes_small [of 8, simplified] by code_simp
  have "FIRCLSDwarfGetCFA arch_x86_64 ?m ?st (Some crash_context) 0 = Some (5, True)" by code_simp
  with stale_cfa_expression [where st = ?st and A = arch_x86_64 and n = 7 and k = 8 and m = ?m and c = "0x1000"
      and regs = "Some crash_context" and cfa = 0] l
  show ?thesis by (auto simp: arch_x86_64_def crash_context_def)
qed

end
