(* ===== verification/CompactUnwind.thy ===== *)
theory CompactUnwind
  imports DwarfUnwind
begin

section \<open>Compact unwind information (FIRCLSCompactUnwind.c)\<close>

text \<open>
  \<open>Unwind/Compact/FIRCLSCompactUnwind.c\<close>: finding, in the two-level table of a binary image's
  \<open>__unwind_info\<close> section, the 32-bit encoding that says how to unwind the function a program counter
  is in.  The first level is an array of index entries searched linearly, the second level a page of
  compressed entries searched by bisection.

  The layout of the section and its constants come from the SDK header
  \<open>mach-o/compact_unwind_encoding.h\<close>, which is not part of the repository: they are the parameter
  \<open>compact_abi\<close>, the offsets of the members the code reads, the constants it compares with and the two
  macros that take an entry apart.  Members of a struct in the image are read where they are;
  \<open>FIRCLSReadMemory\<close> copies the section header whole.  A pointer of the table that the code tests
  against \<open>NULL\<close> is the address 0.
\<close>

record compact_abi =
  UNWIND_SECTION_VERSION :: u32
  sizeof_section_header :: nat
  version_at :: nat
  commonEncodingsArraySectionOffset_at :: nat
  commonEncodingsArrayCount_at :: nat
  indexSectionOffset_at :: nat
  indexCount_at :: nat
  sizeof_index_entry :: nat
  functionOffset_at :: nat
  secondLevelPagesSectionOffset_at :: nat
  lsdaIndexArraySectionOffset_at :: nat
  UNWIND_SECOND_LEVEL_REGULAR :: u32
  UNWIND_SECOND_LEVEL_COMPRESSED :: u32
  entryPageOffset_at :: nat
  entryCount_at :: nat
  encodingsPageOffset_at :: nat
  UNWIND_INFO_COMPRESSED_ENTRY_FUNC_OFFSET :: "u32 \<Rightarrow> u32"
  UNWIND_INFO_COMPRESSED_ENTRY_ENCODING_INDEX :: "u32 \<Rightarrow> u32"

text \<open>The values of Apple's published format, used by the witnesses.\<close>

definition apple_abi :: compact_abi where
  "apple_abi = \<lparr>
     UNWIND_SECTION_VERSION = 1,
     sizeof_section_header = 28,
     version_at = 0,
     commonEncodingsArraySectionOffset_at = 4,
     commonEncodingsArrayCount_at = 8,
     indexSectionOffset_at = 20,
     indexCount_at = 24,
     sizeof_index_entry = 12,
     functionOffset_at = 0,
     secondLevelPagesSectionOffset_at = 4,
     lsdaIndexArraySectionOffset_at = 8,
     UNWIND_SECOND_LEVEL_REGULAR = 2,
     UNWIND_SECOND_LEVEL_COMPRESSED = 3,
     entryPageOffset_at = 4,
     entryCount_at = 6,
     encodingsPageOffset_at = 8,
     UNWIND_INFO_COMPRESSED_ENTRY_FUNC_OFFSET = (\<lambda>entry. entry AND 0x00FFFFFF),
     UNWIND_INFO_COMPRESSED_ENTRY_ENCODING_INDEX = (\<lambda>entry. drop_bit 24 entry AND 0xFF) \<rparr>"

subsection \<open>The structures\<close>

record unwind_info_section_header =
  hdr_version :: u32
  hdr_commonEncodingsArraySectionOffset :: u32
  hdr_commonEncodingsArrayCount :: u32
  hdr_indexSectionOffset :: u32
  hdr_indexCount :: u32

record unwind_info_section_header_index_entry =
  idx_functionOffset :: u32
  idx_secondLevelPagesSectionOffset :: u32
  idx_lsdaIndexArraySectionOffset :: u32

record FIRCLSCompactUnwindContext =
  cu_unwindInfo :: addr
  cu_ehFrame :: addr
  cu_loadAddress :: u64
  cu_unwindHeader :: unwind_info_section_header
  cu_indexHeader :: unwind_info_section_header_index_entry
  cu_firstLevelNextFunctionOffset :: u32

record FIRCLSCompactUnwindResult =
  res_encoding :: u32
  res_functionStart :: u64
  res_functionEnd :: u64
  res_lsda :: u64
  res_personality :: u64

definition zero_compact_context :: FIRCLSCompactUnwindContext where
  "zero_compact_context = \<lparr> cu_unwindInfo = 0, cu_ehFrame = 0, cu_loadAddress = 0,
     cu_unwindHeader = \<lparr> hdr_version = 0, hdr_commonEncodingsArraySectionOffset = 0,
       hdr_commonEncodingsArrayCount = 0, hdr_indexSectionOffset = 0, hdr_indexCount = 0 \<rparr>,
     cu_indexHeader = \<lparr> idx_functionOffset = 0, idx_secondLevelPagesSectionOffset = 0,
       idx_lsdaIndexArraySectionOffset = 0 \<rparr>,
     cu_firstLevelNextFunctionOffset = 0 \<rparr>"

definition zero_result :: FIRCLSCompactUnwindResult where
  "zero_result = \<lparr> res_encoding = 0, res_functionStart = 0, res_functionEnd = 0, res_lsda = 0,
     res_personality = 0 \<rparr>"

text \<open>A 32-bit member of a struct that has been copied into a buffer.\<close>

definition member_u32 :: "u8 list \<Rightarrow> nat \<Rightarrow> u32" where
  "member_u32 bs offset = word_of_le (take 4 (drop offset bs))"

definition section_header_of :: "compact_abi \<Rightarrow> u8 list \<Rightarrow> unwind_info_section_header" where
  "section_header_of K bs = \<lparr>
     hdr_version = member_u32 bs (version_at K),
     hdr_commonEncodingsArraySectionOffset = member_u32 bs (commonEncodingsArraySectionOffset_at K),
     hdr_commonEncodingsArrayCount = member_u32 bs (commonEncodingsArrayCount_at K),
     hdr_indexSectionOffset = member_u32 bs (indexSectionOffset_at K),
     hdr_indexCount = member_u32 bs (indexCount_at K) \<rparr>"

definition load_index_entry :: "compact_abi \<Rightarrow> mem \<Rightarrow> addr \<Rightarrow> unwind_info_section_header_index_entry option" where
  "load_index_entry K m entry = do {
     f \<leftarrow> load_le 4 m (entry + of_nat (functionOffset_at K));
     s \<leftarrow> load_le 4 m (entry + of_nat (secondLevelPagesSectionOffset_at K));
     l \<leftarrow> load_le 4 m (entry + of_nat (lsdaIndexArraySectionOffset_at K));
     Some \<lparr> idx_functionOffset = f, idx_secondLevelPagesSectionOffset = s,
       idx_lsdaIndexArraySectionOffset = l \<rparr> }"

subsection \<open>Parsing\<close>

text \<open>
  The context is written through a pointer the callers take of a member of theirs; \<open>valid\<close> says whether
  it passes \<open>FIRCLSIsValidPointer\<close>.
\<close>

definition FIRCLSCompactUnwindInit ::
  "compact_abi \<Rightarrow> mem \<Rightarrow> bool \<Rightarrow> FIRCLSCompactUnwindContext \<Rightarrow> addr \<Rightarrow> addr \<Rightarrow> u64 \<Rightarrow>
   FIRCLSCompactUnwindContext \<times> bool" where
  "FIRCLSCompactUnwindInit K m valid context unwindInfo ehFrame loadAddress =
     (if \<not> valid then (context, False)
      else if \<not> FIRCLSIsValidPointer unwindInfo then (context, False)
      else if \<not> FIRCLSIsValidPointer loadAddress then (context, False)
      else case FIRCLSReadMemory m unwindInfo (sizeof_section_header K) of
        None \<Rightarrow> (zero_compact_context, False)
      | Some bs \<Rightarrow>
          (let context = zero_compact_context\<lparr>cu_unwindHeader := section_header_of K bs\<rparr>
           in if hdr_version (cu_unwindHeader context) \<noteq> UNWIND_SECTION_VERSION K then (context, False)
              else (context\<lparr>cu_unwindInfo := unwindInfo, cu_ehFrame := ehFrame,
                      cu_loadAddress := loadAddress\<rparr>, True)))"

definition FIRCLSCompactUnwindGetIndexData :: "FIRCLSCompactUnwindContext \<Rightarrow> addr" where
  "FIRCLSCompactUnwindGetIndexData context =
     cu_unwindInfo context + ucast (hdr_indexSectionOffset (cu_unwindHeader context))"

definition FIRCLSCompactUnwindGetCommonEncodings :: "FIRCLSCompactUnwindContext \<Rightarrow> addr" where
  "FIRCLSCompactUnwindGetCommonEncodings context =
     cu_unwindInfo context + ucast (hdr_commonEncodingsArraySectionOffset (cu_unwindHeader context))"

definition FIRCLSCompactUnwindGetSecondLevelData :: "FIRCLSCompactUnwindContext \<Rightarrow> addr" where
  "FIRCLSCompactUnwindGetSecondLevelData context =
     cu_unwindInfo context + ucast (idx_secondLevelPagesSectionOffset (cu_indexHeader context))"

definition FIRCLSCompactUnwindGetIndexFunctionOffset :: "FIRCLSCompactUnwindContext \<Rightarrow> u64" where
  "FIRCLSCompactUnwindGetIndexFunctionOffset context =
     cu_loadAddress context + ucast (idx_functionOffset (cu_indexHeader context))"

definition FIRCLSCompactUnwindGetTargetAddress :: "FIRCLSCompactUnwindContext \<Rightarrow> u64 \<Rightarrow> u64" where
  "FIRCLSCompactUnwindGetTargetAddress context pc =
     (let offset = FIRCLSCompactUnwindGetIndexFunctionOffset context
      in if pc \<le> offset then 0 else pc - offset)"

subsection \<open>The first level\<close>

definition index_entry_at :: "compact_abi \<Rightarrow> addr \<Rightarrow> u32 \<Rightarrow> addr" where
  "index_entry_at K indexEntries index = indexEntries + ucast index * of_nat (sizeof_index_entry K)"

text \<open>The \<open>for\<close> loop from \<open>index\<close> on, with \<open>n\<close> rounds to go.\<close>

fun first_level_loop ::
  "compact_abi \<Rightarrow> mem \<Rightarrow> addr \<Rightarrow> u64 \<Rightarrow> nat \<Rightarrow> u32 \<Rightarrow> FIRCLSCompactUnwindContext \<Rightarrow>
   (FIRCLSCompactUnwindContext \<times> bool) option" where
  "first_level_loop K m indexEntries address 0 index context = Some (context, False)"
| "first_level_loop K m indexEntries address (Suc n) index context = do {
     v \<leftarrow> load_le 4 m (index_entry_at K indexEntries index + of_nat (functionOffset_at K));
     nextValue \<leftarrow> (load_le 4 m (index_entry_at K indexEntries (index + 1) + of_nat (functionOffset_at K)) :: u32 option);
     if ucast (v :: u32) \<le> address \<and> address < ucast nextValue then do {
       entry \<leftarrow> load_index_entry K m (index_entry_at K indexEntries index);
       Some (context\<lparr>cu_firstLevelNextFunctionOffset := nextValue, cu_indexHeader := entry\<rparr>, True) }
     else first_level_loop K m indexEntries address n (index + 1) context }"

definition FIRCLSCompactUnwindLookupFirstLevel ::
  "compact_abi \<Rightarrow> mem \<Rightarrow> FIRCLSCompactUnwindContext \<Rightarrow> u64 \<Rightarrow> (FIRCLSCompactUnwindContext \<times> bool) option" where
  "FIRCLSCompactUnwindLookupFirstLevel K m context address =
     (let indexCount = hdr_indexCount (cu_unwindHeader context) in
      if indexCount < 2 then Some (context, False)
      else if address < cu_loadAddress context then Some (context, False)
      else let indexEntries = FIRCLSCompactUnwindGetIndexData context in
        if indexEntries = 0 then Some (context, False)
        else first_level_loop K m indexEntries (address - cu_loadAddress context)
          (unat (indexCount - 1)) 0 context)"

subsection \<open>The second level\<close>

definition FIRCLSCompactUnwindGetSecondLevelPageKind :: "mem \<Rightarrow> FIRCLSCompactUnwindContext \<Rightarrow> u32 option" where
  "FIRCLSCompactUnwindGetSecondLevelPageKind m context =
     load_le 4 m (FIRCLSCompactUnwindGetSecondLevelData context)"

definition FIRCLSCompactUnwindLookupSecondLevelRegular ::
  "FIRCLSCompactUnwindContext \<Rightarrow> u64 \<Rightarrow> FIRCLSCompactUnwindResult \<Rightarrow> FIRCLSCompactUnwindResult \<times> bool" where
  "FIRCLSCompactUnwindLookupSecondLevelRegular context pc result = (result, False)"

text \<open>
  The bisection, with fuel: the loop keeps \<open>index < highIndex\<close> apart by less each round.  The second
  component is the value returned.
\<close>

fun binary_search_loop ::
  "compact_abi \<Rightarrow> mem \<Rightarrow> u64 \<Rightarrow> u16 \<Rightarrow> addr \<Rightarrow> nat \<Rightarrow> u32 \<Rightarrow> u32 \<Rightarrow> (u32 \<times> bool) option" where
  "binary_search_loop K m address entryCount entryArray 0 index highIndex = None"
| "binary_search_loop K m address entryCount entryArray (Suc fuel) index highIndex =
     (if index < highIndex then do {
        let midIndex = (index + highIndex) div 2;
        entry \<leftarrow> load_le 4 m (entryArray + ucast midIndex * 4);
        if address < ucast (UNWIND_INFO_COMPRESSED_ENTRY_FUNC_OFFSET K entry) then
          (if highIndex = midIndex then Some (index, False)
           else binary_search_loop K m address entryCount entryArray fuel index midIndex)
        else if midIndex = ucast entryCount - 1 then Some (midIndex, False)
        else do {
          nextEntry \<leftarrow> load_le 4 m (entryArray + ucast (midIndex + 1) * 4);
          if address < ucast (UNWIND_INFO_COMPRESSED_ENTRY_FUNC_OFFSET K nextEntry)
          then Some (midIndex, midIndex < ucast entryCount)
          else binary_search_loop K m address entryCount entryArray fuel (midIndex + 1) highIndex } }
      else Some (index, index < ucast entryCount))"

definition FIRCLSCompactUnwindBinarySearchSecondLevel ::
  "compact_abi \<Rightarrow> mem \<Rightarrow> u64 \<Rightarrow> u32 \<Rightarrow> u16 \<Rightarrow> addr \<Rightarrow> (u32 \<times> bool) option" where
  "FIRCLSCompactUnwindBinarySearchSecondLevel K m address index entryCount entryArray =
     (if entryArray = 0 then Some (index, False)
      else if entryCount = 0 then Some (index, False)
      else if address = 0 then Some (index, False)
      else binary_search_loop K m address entryCount entryArray (unat entryCount + 1) 0 (ucast entryCount))"

definition FIRCLSCompactUnwindLookupSecondLevelCompressed ::
  "compact_abi \<Rightarrow> mem \<Rightarrow> FIRCLSCompactUnwindContext \<Rightarrow> u64 \<Rightarrow> FIRCLSCompactUnwindResult \<Rightarrow>
   (FIRCLSCompactUnwindResult \<times> bool) option" where
  "FIRCLSCompactUnwindLookupSecondLevelCompressed K m context pc result =
     (let ptr = FIRCLSCompactUnwindGetSecondLevelData context in
      if ptr = 0 then Some (result, False)
      else do {
        let result = zero_result;
        let targetAddress = FIRCLSCompactUnwindGetTargetAddress context pc;
        (entryPageOffset :: u16) \<leftarrow> load_le 2 m (ptr + of_nat (entryPageOffset_at K));
        let entryArray = ptr + ucast entryPageOffset;
        (entryCount :: u16) \<leftarrow> load_le 2 m (ptr + of_nat (entryCount_at K));
        (index, found) \<leftarrow>
          FIRCLSCompactUnwindBinarySearchSecondLevel K m targetAddress 0 entryCount entryArray;
        if \<not> found then Some (result, False)
        else do {
          entry \<leftarrow> load_le 4 m (entryArray + ucast index * 4);
          let result = result\<lparr>res_functionStart :=
            ucast (UNWIND_INFO_COMPRESSED_ENTRY_FUNC_OFFSET K entry) +
            FIRCLSCompactUnwindGetIndexFunctionOffset context\<rparr>;
          functionEnd \<leftarrow>
            (if index < ucast entryCount - 1 then do {
               nextEntry \<leftarrow> load_le 4 m (entryArray + ucast (index + 1) * 4);
               Some (cu_loadAddress context +
                 ucast (UNWIND_INFO_COMPRESSED_ENTRY_FUNC_OFFSET K nextEntry +
                   idx_functionOffset (cu_indexHeader context))) }
             else Some (cu_loadAddress context + ucast (cu_firstLevelNextFunctionOffset context)));
          let result = result\<lparr>res_functionEnd := functionEnd\<rparr>;
          if pc < res_functionStart result \<or> res_functionEnd result \<le> pc then Some (result, False)
          else do {
            let encodingIndex = UNWIND_INFO_COMPRESSED_ENTRY_ENCODING_INDEX K entry;
            let commonCount = hdr_commonEncodingsArrayCount (cu_unwindHeader context);
            encoding \<leftarrow>
              (if encodingIndex < commonCount
               then load_le 4 m (FIRCLSCompactUnwindGetCommonEncodings context + ucast encodingIndex * 4)
               else do {
                 let encodingIndex = encodingIndex - commonCount;
                 (encodingsPageOffset :: u16) \<leftarrow> load_le 2 m (ptr + of_nat (encodingsPageOffset_at K));
                 load_le 4 m (ptr + ucast encodingsPageOffset + ucast encodingIndex * 4) });
            let result = result\<lparr>res_encoding := encoding\<rparr>;
            Some (result, encoding \<noteq> 0) } } })"

definition FIRCLSCompactUnwindLookupSecondLevel ::
  "compact_abi \<Rightarrow> mem \<Rightarrow> FIRCLSCompactUnwindContext \<Rightarrow> u64 \<Rightarrow> FIRCLSCompactUnwindResult \<Rightarrow>
   (FIRCLSCompactUnwindResult \<times> bool) option" where
  "FIRCLSCompactUnwindLookupSecondLevel K m context pc result = do {
     kind \<leftarrow> FIRCLSCompactUnwindGetSecondLevelPageKind m context;
     if kind = UNWIND_SECOND_LEVEL_REGULAR K then
       Some (FIRCLSCompactUnwindLookupSecondLevelRegular context pc result)
     else if kind = UNWIND_SECOND_LEVEL_COMPRESSED K then
       FIRCLSCompactUnwindLookupSecondLevelCompressed K m context pc result
     else Some (result, False) }"

definition FIRCLSCompactUnwindLookup ::
  "compact_abi \<Rightarrow> mem \<Rightarrow> FIRCLSCompactUnwindContext \<Rightarrow> u64 \<Rightarrow> FIRCLSCompactUnwindResult \<Rightarrow>
   (FIRCLSCompactUnwindContext \<times> FIRCLSCompactUnwindResult \<times> bool) option" where
  "FIRCLSCompactUnwindLookup K m context pc result = do {
     (context, found) \<leftarrow> FIRCLSCompactUnwindLookupFirstLevel K m context pc;
     if \<not> found then Some (context, result, False)
     else do {
       (result, ok) \<leftarrow> FIRCLSCompactUnwindLookupSecondLevel K m context pc result;
       Some (context, result, ok) } }"


subsection \<open>Unwinding\<close>

text \<open>
  The registers are computed by a function of the architecture, the argument \<open>compute\<close> here; theory
  \<open>ArchUnwind\<close> has both.
\<close>

type_synonym 'r compute_registers =
  "FIRCLSCompactUnwindContext \<Rightarrow> FIRCLSCompactUnwindResult \<Rightarrow> 'r option \<Rightarrow> ('r option \<times> bool) option"

definition FIRCLSCompactUnwindLookupAndCompute ::
  "'r arch \<Rightarrow> compact_abi \<Rightarrow> 'r compute_registers \<Rightarrow> mem \<Rightarrow> FIRCLSCompactUnwindContext \<Rightarrow> 'r option \<Rightarrow>
   (FIRCLSCompactUnwindContext \<times> 'r option \<times> bool) option" where
  "FIRCLSCompactUnwindLookupAndCompute A K compute m context regs =
     (if regs = None then Some (context, regs, False)
      else let pc = FIRCLSThreadContextGetPC A regs in
        if pc < cu_loadAddress context then Some (context, regs, False)
        else do {
          (context, result, found) \<leftarrow> FIRCLSCompactUnwindLookup K m context pc zero_result;
          if \<not> found then Some (context, regs, False)
          else do {
            (regs, ok) \<leftarrow> compute context result regs;
            Some (context, regs, ok) } })"

text \<open>
  The record is a local variable that is not initialised; \<open>record_init\<close> stands for what it holds.  Every
  member is written before it is read: \<open>dwarf_frame_initial\<close> below.
\<close>

definition FIRCLSCompactUnwindDwarfFrame ::
  "'r arch \<Rightarrow> mem \<Rightarrow> FIRCLSDwarfCFIRecord \<Rightarrow> FIRCLSCompactUnwindContext \<Rightarrow> u64 \<Rightarrow> 'r option \<Rightarrow>
   ('r option \<times> bool) option" where
  "FIRCLSCompactUnwindDwarfFrame A m record_init context dwarfOffset regs =
     (if regs = None then Some (regs, False)
      else do {
        (record, ok) \<leftarrow> FIRCLSDwarfParseCFIFromFDERecordOffset m record_init (cu_ehFrame context) dwarfOffset;
        if \<not> ok then Some (regs, False)
        else FIRCLSDwarfUnwindComputeRegisters A m record regs })"

subsection \<open>Arrays of 32-bit words\<close>

definition words_at :: "mem \<Rightarrow> addr \<Rightarrow> u32 list \<Rightarrow> bool" where
  "words_at m a ws \<longleftrightarrow> (\<forall>i < length ws. load_le 4 m (a + of_nat i * 4) = Some (ws ! i))"

lemma words_atD: "words_at m a ws \<Longrightarrow> unat i < length ws \<Longrightarrow> load_le 4 m (a + ucast (i :: u32) * 4) = Some (ws ! unat i)"
  by (drule words_at_def [THEN iffD1, rule_format, of m a ws "unat i"]) simp_all

subsection \<open>The bisection\<close>

abbreviation entry_offset :: "compact_abi \<Rightarrow> u32 list \<Rightarrow> nat \<Rightarrow> u64" where
  "entry_offset K es i \<equiv> ucast (UNWIND_INFO_COMPRESSED_ENTRY_FUNC_OFFSET K (es ! i))"

text \<open>What the search promises: an entry and its successor around the address, the first entry when the
  address is before it, and failure when the last entry is not behind the address.\<close>

definition search_result :: "compact_abi \<Rightarrow> u32 list \<Rightarrow> u64 \<Rightarrow> u32 \<times> bool \<Rightarrow> bool" where
  "search_result K es address r \<longleftrightarrow>
     (if snd r then
        fst r = 0 \<and> address < entry_offset K es 0 \<or>
        Suc (unat (fst r)) < length es \<and> entry_offset K es (unat (fst r)) \<le> address \<and>
          address < entry_offset K es (Suc (unat (fst r)))
      else entry_offset K es (length es - 1) \<le> address)"

lemma midpoint:
  fixes lo hi :: u32
  assumes "lo < hi" "unat hi \<le> 65535"
  shows "unat ((lo + hi) div 2) = (unat lo + unat hi) div 2"
    and "unat lo \<le> unat ((lo + hi) div 2)" "unat ((lo + hi) div 2) < unat hi"
proof -
  from assms have l: "unat lo < unat hi" by (simp add: word_less_nat_alt)
  have "unat (lo + hi) = unat lo + unat hi"
    using l assms(2) by (subst unat_add_lem [symmetric]) simp
  then show e: "unat ((lo + hi) div 2) = (unat lo + unat hi) div 2"
    by (simp add: unat_div)
  show "unat lo \<le> unat ((lo + hi) div 2)" "unat ((lo + hi) div 2) < unat hi"
    unfolding e using l by presburger+
qed


text \<open>The interval the loop searches.\<close>

definition search_interval :: "compact_abi \<Rightarrow> u32 list \<Rightarrow> u64 \<Rightarrow> nat \<Rightarrow> nat \<Rightarrow> bool" where
  "search_interval K es address lo hi \<longleftrightarrow>
     lo \<le> hi \<and> hi \<le> length es \<and>
     (lo = 0 \<or> lo < length es \<and> entry_offset K es lo \<le> address) \<and>
     (hi = length es \<or> address < entry_offset K es hi)"

lemma binary_search_loop_correct:
  assumes "words_at m a es" "length es = unat entryCount" "es \<noteq> []"
    and "search_interval K es address (unat lo) (unat hi)" "unat hi - unat lo < fuel"
  shows "\<exists>r. binary_search_loop K m address entryCount a fuel lo hi = Some r \<and> search_result K es address r"
  using assms(4,5)
proof (induction fuel arbitrary: lo hi)
  case (Suc fuel)
  have n: "length es \<le> 65535" proof -
    have "unat entryCount < 2 ^ LENGTH(16)" by (rule unsigned_less)
    then show ?thesis using assms(2) by simp
  qed
  have cnt: "unat (ucast entryCount :: u32) = length es" using n assms(2) by (simp add: unsigned_ucast_eq take_bit_nat_eq_self_iff)
  note I = Suc.prems(1) [unfolded search_interval_def]
  show ?case
  proof (cases "lo < hi")
    case False
    with I have "unat lo = unat hi" by (simp add: word_less_nat_alt)
    with I assms(3) have z: "unat lo = 0 \<and> address < entry_offset K es 0" by auto
    moreover have "lo < ucast entryCount" using z assms(3) by (simp add: word_less_nat_alt cnt)
    ultimately show ?thesis using False by (simp add: search_result_def unat_eq_0)
  next
    case True
    define mid where "mid = (lo + hi) div 2"
    have mid: "unat lo \<le> unat mid" "unat mid < unat hi"
      using midpoint [OF True] I n unfolding mid_def by simp_all
    then have ml: "unat mid < length es" using I by simp
    have last: "mid = ucast entryCount - 1 \<longleftrightarrow> Suc (unat mid) = length es"
      using assms(3) cnt by (cases "length es") (auto simp: word_unat_eq_iff unat_sub_if')
    have suc: "unat (mid + 1) = Suc (unat mid)" if "Suc (unat mid) \<le> length es"
      using that n by (simp add: unat_word_ariths)
    have e: "load_le 4 m (a + ucast mid * 4) = Some (es ! unat mid)" by (rule words_atD [OF assms(1) ml])
    consider "address < entry_offset K es (unat mid)"
      | "entry_offset K es (unat mid) \<le> address" "Suc (unat mid) = length es"
      | "entry_offset K es (unat mid) \<le> address" "Suc (unat mid) < length es"
      using ml by force
    then show ?thesis
    proof cases
      case 1
      have "search_interval K es address (unat lo) (unat mid)"
        using I mid ml 1 by (auto simp: search_interval_def)
      from Suc.IH [OF this] mid Suc.prems(2) 1 True e show ?thesis
        by (auto simp: mid_def [symmetric] Let_def)
    next
      case 2
      then have "length es - 1 = unat mid" by simp
      then have r: "search_result K es address (mid, False)" using 2 by (simp only: search_result_def) simp
      have "binary_search_loop K m address entryCount a (Suc fuel) lo hi = Some (mid, False)"
        using 2 True e last by (simp add: mid_def [symmetric] Let_def not_less [symmetric])
      with r show ?thesis by blast
    next
      case 3
      have e': "load_le 4 m (a + ucast (mid + 1) * 4) = Some (es ! Suc (unat mid))"
        using words_atD [OF assms(1), of "mid + 1"] suc 3 by simp
      show ?thesis
      proof (cases "address < entry_offset K es (Suc (unat mid))")
        case True
        with 3 ml \<open>lo < hi\<close> e e' last show ?thesis
          by (auto simp: mid_def [symmetric] Let_def search_result_def not_less [symmetric]
              word_less_nat_alt cnt)
      next
        case False
        have "search_interval K es address (unat (mid + 1)) (unat hi)"
          using I mid 3 False suc by (auto simp: search_interval_def not_less)
        from Suc.IH [OF this] mid Suc.prems(2) 3 False suc \<open>lo < hi\<close> e e' last show ?thesis
          by (auto simp: mid_def [symmetric] Let_def not_less [symmetric])
      qed
    qed
  qed
qed simp


lemma binary_search_correct:
  assumes "words_at m a es" "length es = unat entryCount" "es \<noteq> []" "a \<noteq> 0" "address \<noteq> 0"
  shows "\<exists>r. FIRCLSCompactUnwindBinarySearchSecondLevel K m address index entryCount a = Some r \<and>
    search_result K es address r"
proof -
  have n: "unat entryCount \<le> 65535"
  proof -
    have "unat entryCount < 2 ^ LENGTH(16)" by (rule unsigned_less)
    then show ?thesis by simp
  qed
  have cnt: "unat (ucast entryCount :: u32) = length es"
    using n assms(2) by (simp add: unsigned_ucast_eq take_bit_nat_eq_self_iff)
  have "search_interval K es address (unat (0 :: u32)) (unat (ucast entryCount :: u32))"
    by (simp add: search_interval_def cnt)
  then have "\<exists>r. binary_search_loop K m address entryCount a (unat entryCount + 1) 0 (ucast entryCount) = Some r \<and>
      search_result K es address r"
    by (rule binary_search_loop_correct [OF assms(1,2,3)]) (simp add: cnt assms(2))
  moreover have "entryCount \<noteq> 0" using assms(2,3) by auto
  ultimately show ?thesis
    using assms(4,5) by (simp add: FIRCLSCompactUnwindBinarySearchSecondLevel_def)
qed

lemma search_result_sorted:
  assumes r: "search_result K es address (j, ok)"
    and sorted: "\<forall>i k. i \<le> k \<longrightarrow> k < length es \<longrightarrow> entry_offset K es i \<le> entry_offset K es k"
    and i: "Suc i < length es" "entry_offset K es i \<le> address" "address < entry_offset K es (Suc i)"
  shows "ok \<and> unat j = i"
proof -
  have "entry_offset K es (Suc i) \<le> entry_offset K es (length es - 1)"
    using sorted i(1) by force
  with r i(3) have ok: "ok" by (auto simp: search_result_def split: if_splits)
  have "entry_offset K es 0 \<le> entry_offset K es i" using sorted i(1) by auto
  with r ok i(2) have j: "Suc (unat j) < length es" "entry_offset K es (unat j) \<le> address"
    "address < entry_offset K es (Suc (unat j))" by (auto simp: search_result_def)
  have "\<not> i < unat j"
  proof
    assume "i < unat j"
    then have "entry_offset K es (Suc i) \<le> entry_offset K es (unat j)" using sorted j(1) by auto
    with i(3) j(2) show False by simp
  qed
  moreover have "\<not> unat j < i"
  proof
    assume "unat j < i"
    then have "entry_offset K es (Suc (unat j)) \<le> entry_offset K es i" using sorted i(1) by auto
    with j(3) i(2) show False by simp
  qed
  ultimately show ?thesis using ok by simp
qed

subsection \<open>The first level\<close>

definition index_entries_at ::
  "compact_abi \<Rightarrow> mem \<Rightarrow> addr \<Rightarrow> unwind_info_section_header_index_entry list \<Rightarrow> bool" where
  "index_entries_at K m a es \<longleftrightarrow>
     (\<forall>i < length es. load_index_entry K m (a + of_nat i * of_nat (sizeof_index_entry K)) = Some (es ! i))"

lemma index_entries_atD:
  assumes "index_entries_at K m a es" "unat i < length es"
  shows "load_index_entry K m (index_entry_at K a i) = Some (es ! unat i)"
    and "load_le 4 m (index_entry_at K a i + of_nat (functionOffset_at K)) = Some (idx_functionOffset (es ! unat i))"
proof -
  show e: "load_index_entry K m (index_entry_at K a i) = Some (es ! unat i)"
    using assms(1) [unfolded index_entries_at_def, rule_format, OF assms(2)]
    by (simp add: index_entry_at_def)
  then show "load_le 4 m (index_entry_at K a i + of_nat (functionOffset_at K)) = Some (idx_functionOffset (es ! unat i))"
    by (auto simp: load_index_entry_def bind_Some_iff dest: arg_cong [where f = idx_functionOffset])
qed

text \<open>Entry \<open>i\<close> and its successor are around the offset.\<close>

definition index_brackets :: "unwind_info_section_header_index_entry list \<Rightarrow> u64 \<Rightarrow> nat \<Rightarrow> bool" where
  "index_brackets es offset i \<longleftrightarrow>
     ucast (idx_functionOffset (es ! i)) \<le> offset \<and> offset < ucast (idx_functionOffset (es ! Suc i))"

definition with_index_entry ::
  "FIRCLSCompactUnwindContext \<Rightarrow> unwind_info_section_header_index_entry list \<Rightarrow> nat \<Rightarrow> FIRCLSCompactUnwindContext" where
  "with_index_entry context es i =
     context\<lparr>cu_firstLevelNextFunctionOffset := idx_functionOffset (es ! Suc i), cu_indexHeader := es ! i\<rparr>"

lemma first_level_loop_correct:
  assumes "index_entries_at K m a es" "unat index + n + 1 = length es" "length es < 2 ^ 32"
  shows "first_level_loop K m a offset n index context =
    Some (case find (index_brackets es offset) [unat index ..< unat index + n] of
      None \<Rightarrow> (context, False) | Some i \<Rightarrow> (with_index_entry context es i, True))"
  using assms(2)
proof (induction n arbitrary: index)
  case (Suc n)
  have suc: "unat (index + 1) = Suc (unat index)"
    using Suc.prems assms(3) by (simp add: unat_word_ariths)
  have i: "unat index < length es" "unat (index + 1) < length es" using Suc.prems suc by simp_all
  note e = index_entries_atD [OF assms(1) i(1)] index_entries_atD [OF assms(1) i(2)]
  have "[unat index ..< unat index + Suc n] = unat index # [unat (index + 1) ..< unat (index + 1) + n]"
    by (simp add: upt_rec suc)
  with e suc Suc.IH [of "index + 1"] Suc.prems show ?case
    by (simp add: index_brackets_def with_index_entry_def)
qed simp

lemma first_level_correct:
  assumes "index_entries_at K m (FIRCLSCompactUnwindGetIndexData context) es"
    and "length es = unat (hdr_indexCount (cu_unwindHeader context))" "2 \<le> length es"
    and "FIRCLSCompactUnwindGetIndexData context \<noteq> 0" "cu_loadAddress context \<le> pc"
  shows "FIRCLSCompactUnwindLookupFirstLevel K m context pc =
    Some (case find (index_brackets es (pc - cu_loadAddress context)) [0 ..< length es - 1] of
      None \<Rightarrow> (context, False) | Some i \<Rightarrow> (with_index_entry context es i, True))"
proof -
  let ?c = "hdr_indexCount (cu_unwindHeader context)"
  have "unat ?c < 2 ^ LENGTH(32)" by (rule unsigned_less)
  then have l: "length es < 2 ^ 32" using assms(2) by simp
  have c: "\<not> ?c < 2" "unat (?c - 1) = length es - 1"
    using assms(2,3) by (auto simp: word_less_nat_alt unat_sub_if')
  have "first_level_loop K m (FIRCLSCompactUnwindGetIndexData context) (pc - cu_loadAddress context)
      (unat (?c - 1)) 0 context =
    Some (case find (index_brackets es (pc - cu_loadAddress context)) [unat (0 :: u32) ..< unat (0 :: u32) + unat (?c - 1)] of
      None \<Rightarrow> (context, False) | Some i \<Rightarrow> (with_index_entry context es i, True))"
    using assms(3) c by (intro first_level_loop_correct [OF assms(1)]) (simp_all add: l [simplified])
  with c assms(4,5) show ?thesis
    by (simp add: FIRCLSCompactUnwindLookupFirstLevel_def Let_def)
qed


subsection \<open>What a lookup returns\<close>

lemma second_level_sound:
  assumes "FIRCLSCompactUnwindLookupSecondLevel K m context pc r = Some (res, True)"
  shows "res_functionStart res \<le> pc \<and> pc < res_functionEnd res \<and> res_encoding res \<noteq> 0"
proof -
  from assms have "FIRCLSCompactUnwindLookupSecondLevelCompressed K m context pc r = Some (res, True)"
    by (auto simp: FIRCLSCompactUnwindLookupSecondLevel_def FIRCLSCompactUnwindLookupSecondLevelRegular_def
        bind_Some_iff split: if_splits)
  then show ?thesis
    by (auto simp: FIRCLSCompactUnwindLookupSecondLevelCompressed_def Let_def bind_Some_iff not_less not_le
        split: if_splits)
qed

lemma first_level_loop_sound:
  "first_level_loop K m a offset n index context = Some (context', True) \<Longrightarrow>
   ucast (idx_functionOffset (cu_indexHeader context')) \<le> offset \<and>
   offset < ucast (cu_firstLevelNextFunctionOffset context')"
proof (induction n arbitrary: index)
  case (Suc n)
  show ?case
    using Suc.prems Suc.IH [of "index + 1"]
    by (auto simp: bind_Some_iff load_index_entry_def split: if_splits)
qed simp

lemma lookup_sound:
  assumes "FIRCLSCompactUnwindLookup K m context pc r = Some (context', res, True)"
  shows "res_functionStart res \<le> pc \<and> pc < res_functionEnd res \<and> res_encoding res \<noteq> 0 \<and>
    ucast (idx_functionOffset (cu_indexHeader context')) \<le> pc - cu_loadAddress context \<and>
    pc - cu_loadAddress context < ucast (cu_firstLevelNextFunctionOffset context') \<and>
    cu_loadAddress context \<le> pc"
proof -
  from assms obtain f: "FIRCLSCompactUnwindLookupFirstLevel K m context pc = Some (context', True)"
    and s: "FIRCLSCompactUnwindLookupSecondLevel K m context' pc r = Some (res, True)"
    by (auto simp: FIRCLSCompactUnwindLookup_def bind_Some_iff split: if_splits)
  from f have "cu_loadAddress context \<le> pc \<and> first_level_loop K m (FIRCLSCompactUnwindGetIndexData context)
      (pc - cu_loadAddress context) (unat (hdr_indexCount (cu_unwindHeader context) - 1)) 0 context = Some (context', True)"
    by (simp add: FIRCLSCompactUnwindLookupFirstLevel_def Let_def not_less split: if_splits)
  with first_level_loop_sound second_level_sound [OF s] show ?thesis by blast
qed

subsection \<open>A well-formed table\<close>

text \<open>
  A compressed page at \<open>ptr\<close>: its header gives the offsets of its entries \<open>es\<close> and of its own encodings
  \<open>local\<close>; the encodings of an entry are found in the common array first.
\<close>

definition compressed_page_at ::
  "compact_abi \<Rightarrow> mem \<Rightarrow> addr \<Rightarrow> u16 \<Rightarrow> u16 \<Rightarrow> u32 list \<Rightarrow> u32 list \<Rightarrow> bool" where
  "compressed_page_at K m ptr entryOff encodingOff es local \<longleftrightarrow>
     ptr \<noteq> 0 \<and> ptr + ucast entryOff \<noteq> 0 \<and> es \<noteq> [] \<and> length es < 2 ^ 16 \<and>
     UNWIND_SECOND_LEVEL_COMPRESSED K \<noteq> UNWIND_SECOND_LEVEL_REGULAR K \<and>
     load_le 4 m ptr = Some (UNWIND_SECOND_LEVEL_COMPRESSED K) \<and>
     load_le 2 m (ptr + of_nat (entryPageOffset_at K)) = Some entryOff \<and>
     load_le 2 m (ptr + of_nat (entryCount_at K)) = Some (of_nat (length es) :: u16) \<and>
     load_le 2 m (ptr + of_nat (encodingsPageOffset_at K)) = Some encodingOff \<and>
     words_at m (ptr + ucast entryOff) es \<and> words_at m (ptr + ucast encodingOff) local"

definition common_encodings_at :: "mem \<Rightarrow> FIRCLSCompactUnwindContext \<Rightarrow> u32 list \<Rightarrow> bool" where
  "common_encodings_at m context common \<longleftrightarrow>
     length common = unat (hdr_commonEncodingsArrayCount (cu_unwindHeader context)) \<and>
     words_at m (FIRCLSCompactUnwindGetCommonEncodings context) common"

definition page_encoding :: "compact_abi \<Rightarrow> u32 list \<Rightarrow> u32 list \<Rightarrow> u32 \<Rightarrow> u32 option" where
  "page_encoding K common local entry =
     (let i = unat (UNWIND_INFO_COMPRESSED_ENTRY_ENCODING_INDEX K entry) in
      if i < length (common @ local) then Some ((common @ local) ! i) else None)"

definition sorted_entries :: "compact_abi \<Rightarrow> u32 list \<Rightarrow> bool" where
  "sorted_entries K es \<longleftrightarrow> sorted (map (\<lambda>e. unat (UNWIND_INFO_COMPRESSED_ENTRY_FUNC_OFFSET K e)) es)"

lemma unat_ucast_32_64 [simp]: "unat (ucast (x :: u32) :: u64) = unat x"
proof -
  have "unat x < 2 ^ LENGTH(32)" by (rule unsigned_less)
  then show ?thesis by (simp add: unsigned_ucast_eq take_bit_nat_eq_self_iff)
qed

lemma sorted_entriesD:
  "sorted_entries K es \<Longrightarrow> \<forall>i k. i \<le> k \<longrightarrow> k < length es \<longrightarrow> entry_offset K es i \<le> entry_offset K es k"
  by (auto simp: sorted_entries_def sorted_iff_nth_mono word_le_nat_alt)

lemma encoding_load:
  assumes "common_encodings_at m context common" "words_at m q local"
    and "page_encoding K common local entry = Some enc"
    and "i = UNWIND_INFO_COMPRESSED_ENTRY_ENCODING_INDEX K entry"
    and "n = hdr_commonEncodingsArrayCount (cu_unwindHeader context)"
  shows "i < n \<Longrightarrow> load_le 4 m (FIRCLSCompactUnwindGetCommonEncodings context + ucast i * 4) = Some enc"
    and "\<not> i < n \<Longrightarrow> load_le 4 m (q + ucast (i - n) * 4) = Some enc"
proof -
  have l: "length common = unat n" and w: "words_at m (FIRCLSCompactUnwindGetCommonEncodings context) common"
    using assms(1,5) by (simp_all add: common_encodings_at_def)
  have enc: "unat i < length common + length local" "enc = (common @ local) ! unat i"
    using assms(3,4) by (auto simp: page_encoding_def Let_def split: if_splits)
  show "load_le 4 m (FIRCLSCompactUnwindGetCommonEncodings context + ucast i * 4) = Some enc" if "i < n"
    using words_atD [OF w, of i] that enc l by (simp add: word_less_nat_alt nth_append)
  show "load_le 4 m (q + ucast (i - n) * 4) = Some enc" if "\<not> i < n"
    using words_atD [OF assms(2), of "i - n"] that enc l
    by (auto simp: word_less_nat_alt nth_append unat_sub_if')
qed


text \<open>The function an entry describes: from its own offset to its successor's, both relative to the page.\<close>

definition entry_result ::
  "compact_abi \<Rightarrow> FIRCLSCompactUnwindContext \<Rightarrow> u32 list \<Rightarrow> nat \<Rightarrow> u32 \<Rightarrow> FIRCLSCompactUnwindResult" where
  "entry_result K context es j encoding = \<lparr>
     res_encoding = encoding,
     res_functionStart = entry_offset K es j + FIRCLSCompactUnwindGetIndexFunctionOffset context,
     res_functionEnd = entry_offset K es (Suc j) + FIRCLSCompactUnwindGetIndexFunctionOffset context,
     res_lsda = 0, res_personality = 0 \<rparr>"

text \<open>The addresses of the page's functions fit: no sum of offsets wraps.\<close>

definition offsets_fit :: "compact_abi \<Rightarrow> FIRCLSCompactUnwindContext \<Rightarrow> u32 list \<Rightarrow> bool" where
  "offsets_fit K context es \<longleftrightarrow>
     (\<forall>j < length es. unat (idx_functionOffset (cu_indexHeader context)) +
        unat (UNWIND_INFO_COMPRESSED_ENTRY_FUNC_OFFSET K (es ! j)) < 2 ^ 32) \<and>
     unat (cu_loadAddress context) + 2 ^ 32 \<le> 2 ^ 64"

lemma offsets_fit_sum:
  assumes "offsets_fit K context es" "j < length es"
  shows "unat (entry_offset K es j + FIRCLSCompactUnwindGetIndexFunctionOffset context) =
      unat (entry_offset K es j) + unat (FIRCLSCompactUnwindGetIndexFunctionOffset context)"
    and "cu_loadAddress context + ucast (UNWIND_INFO_COMPRESSED_ENTRY_FUNC_OFFSET K (es ! j) +
      idx_functionOffset (cu_indexHeader context)) =
      entry_offset K es j + FIRCLSCompactUnwindGetIndexFunctionOffset context"
proof -
  let ?f = "idx_functionOffset (cu_indexHeader context)"
  let ?v = "UNWIND_INFO_COMPRESSED_ENTRY_FUNC_OFFSET K (es ! j)"
  let ?l = "cu_loadAddress context"
  have a: "unat ?f + unat ?v < 2 ^ 32" "unat ?l + 2 ^ 32 \<le> 2 ^ 64"
    using assms by (auto simp: offsets_fit_def)
  have b: "unat (FIRCLSCompactUnwindGetIndexFunctionOffset context) = unat ?l + unat ?f"
    using a by (simp add: FIRCLSCompactUnwindGetIndexFunctionOffset_def unat_word_ariths)
  then show "unat (entry_offset K es j + FIRCLSCompactUnwindGetIndexFunctionOffset context) =
      unat (entry_offset K es j) + unat (FIRCLSCompactUnwindGetIndexFunctionOffset context)"
    using a by (simp add: unat_word_ariths)
  have "unat (?v + ?f) = unat ?v + unat ?f" using a by (simp add: unat_word_ariths)
  then have "unat (?l + ucast (?v + ?f)) = unat (entry_offset K es j + FIRCLSCompactUnwindGetIndexFunctionOffset context)"
    using a b by (simp add: unat_word_ariths)
  then show "?l + ucast (?v + ?f) = entry_offset K es j + FIRCLSCompactUnwindGetIndexFunctionOffset context"
    by (simp add: word_unat_eq_iff)
qed

lemma second_level_correct:
  assumes page: "compressed_page_at K m (FIRCLSCompactUnwindGetSecondLevelData context) eo co es local"
    and common: "common_encodings_at m context common"
    and sorted: "sorted_entries K es" and fit: "offsets_fit K context es"
    and j: "Suc j < length es"
      "entry_offset K es j + FIRCLSCompactUnwindGetIndexFunctionOffset context \<le> pc"
      "pc < entry_offset K es (Suc j) + FIRCLSCompactUnwindGetIndexFunctionOffset context"
      "FIRCLSCompactUnwindGetIndexFunctionOffset context < pc"
    and enc: "page_encoding K common local (es ! j) = Some encoding" "encoding \<noteq> 0"
  shows "FIRCLSCompactUnwindLookupSecondLevel K m context pc r = Some (entry_result K context es j encoding, True)"
proof -
  let ?ptr = "FIRCLSCompactUnwindGetSecondLevelData context"
  let ?base = "FIRCLSCompactUnwindGetIndexFunctionOffset context"
  let ?t = "pc - ?base"
  note p = page [unfolded compressed_page_at_def]
  have n: "unat (of_nat (length es) :: u16) = length es" using p by (simp add: unat_of_nat)
  have t: "FIRCLSCompactUnwindGetTargetAddress context pc = ?t" "?t \<noteq> 0"
    using j(4) by (auto simp: FIRCLSCompactUnwindGetTargetAddress_def Let_def)
  have ut: "unat ?t = unat pc - unat ?base" using j(4) by (simp add: unat_sub_if' word_less_nat_alt)
  have v: "entry_offset K es j \<le> ?t" "?t < entry_offset K es (Suc j)"
    using j ut offsets_fit_sum(1) [OF fit, of j] offsets_fit_sum(1) [OF fit, of "Suc j"]
    by (simp_all add: word_le_nat_alt word_less_nat_alt)
  obtain i ok where s: "FIRCLSCompactUnwindBinarySearchSecondLevel K m ?t 0 (of_nat (length es)) (?ptr + ucast eo) = Some (i, ok)"
    and r: "search_result K es ?t (i, ok)"
    using binary_search_correct [of m "?ptr + ucast eo" es "of_nat (length es)" ?t K 0] p n t(2) by auto
  from search_result_sorted [OF r sorted_entriesD [OF sorted] j(1) v] have ok: "ok" "unat i = j" by simp_all
  have cnt: "unat (ucast (of_nat (length es) :: u16) :: u32) = length es"
    using n p by (simp add: unsigned_ucast_eq take_bit_nat_eq_self_iff)
  have lt: "i < ucast (of_nat (length es) :: u16) - 1"
    using ok(2) j(1) cnt by (simp add: word_less_nat_alt unat_sub_if')
  have suc: "unat (i + 1) = Suc j" using ok(2) j(1) p by (simp add: unat_word_ariths)
  have w: "words_at m (?ptr + ucast eo) es" using p by simp
  have e1: "load_le 4 m (?ptr + ucast eo + ucast i * 4) = Some (es ! j)"
    using words_atD [OF w, of i] ok(2) j(1) by simp
  have e2: "load_le 4 m (?ptr + ucast eo + ucast (i + 1) * 4) = Some (es ! Suc j)"
    using words_atD [OF w, of "i + 1"] suc j(1) by simp
  have fe: "cu_loadAddress context + ucast (UNWIND_INFO_COMPRESSED_ENTRY_FUNC_OFFSET K (es ! Suc j) +
      idx_functionOffset (cu_indexHeader context)) = entry_offset K es (Suc j) + ?base"
    using offsets_fit_sum(2) [OF fit, of "Suc j"] j(1) by simp
  have wl: "words_at m (?ptr + ucast co) local" using p by simp
  note encl = encoding_load [OF common wl enc(1) refl refl]
  have c: "FIRCLSCompactUnwindLookupSecondLevelCompressed K m context pc r =
      Some (entry_result K context es j encoding, True)"
    using p t(1) s ok lt e1 e2 fe j(2,3) encl enc(2)
    by (simp add: FIRCLSCompactUnwindLookupSecondLevelCompressed_def Let_def entry_result_def
        zero_result_def not_less not_le)
  with p show ?thesis
    by (simp add: FIRCLSCompactUnwindLookupSecondLevel_def FIRCLSCompactUnwindGetSecondLevelPageKind_def)
qed


lemma second_level_last:
  assumes page: "compressed_page_at K m (FIRCLSCompactUnwindGetSecondLevelData context) eo co es local"
    and sorted: "sorted_entries K es"
    and last: "entry_offset K es (length es - 1) \<le> pc - FIRCLSCompactUnwindGetIndexFunctionOffset context"
      "FIRCLSCompactUnwindGetIndexFunctionOffset context < pc"
  shows "FIRCLSCompactUnwindLookupSecondLevel K m context pc r = Some (zero_result, False)"
proof -
  let ?ptr = "FIRCLSCompactUnwindGetSecondLevelData context"
  let ?t = "pc - FIRCLSCompactUnwindGetIndexFunctionOffset context"
  note p = page [unfolded compressed_page_at_def]
  have n: "unat (of_nat (length es) :: u16) = length es" using p by (simp add: unat_of_nat)
  have t: "FIRCLSCompactUnwindGetTargetAddress context pc = ?t" "?t \<noteq> 0"
    using last(2) by (auto simp: FIRCLSCompactUnwindGetTargetAddress_def Let_def)
  obtain i ok where s: "FIRCLSCompactUnwindBinarySearchSecondLevel K m ?t 0 (of_nat (length es)) (?ptr + ucast eo) = Some (i, ok)"
    and r: "search_result K es ?t (i, ok)"
    using binary_search_correct [of m "?ptr + ucast eo" es "of_nat (length es)" ?t K 0] p n t(2) by auto
  have "entry_offset K es k \<le> ?t" if "k < length es" for k
    using order.trans [OF sorted_entriesD [OF sorted, rule_format, of k "length es - 1"] last(1)] that by simp
  with r p have "\<not> ok" by (auto simp: search_result_def not_less [symmetric])
  with p t(1) s show ?thesis
    by (simp add: FIRCLSCompactUnwindLookupSecondLevel_def FIRCLSCompactUnwindGetSecondLevelPageKind_def
        FIRCLSCompactUnwindLookupSecondLevelCompressed_def Let_def)
qed

text \<open>A whole table: index entries \<open>ies\<close>, common encodings, and the page of index entry \<open>i\<close>.\<close>

definition compact_table_at ::
  "compact_abi \<Rightarrow> mem \<Rightarrow> FIRCLSCompactUnwindContext \<Rightarrow> unwind_info_section_header_index_entry list \<Rightarrow>
   u32 list \<Rightarrow> nat \<Rightarrow> u16 \<Rightarrow> u16 \<Rightarrow> u32 list \<Rightarrow> u32 list \<Rightarrow> bool" where
  "compact_table_at K m context ies common i eo co es local \<longleftrightarrow>
     FIRCLSCompactUnwindGetIndexData context \<noteq> 0 \<and>
     length ies = unat (hdr_indexCount (cu_unwindHeader context)) \<and> Suc i < length ies \<and>
     index_entries_at K m (FIRCLSCompactUnwindGetIndexData context) ies \<and>
     common_encodings_at m context common \<and>
     compressed_page_at K m (FIRCLSCompactUnwindGetSecondLevelData (with_index_entry context ies i)) eo co es local \<and>
     sorted_entries K es \<and> offsets_fit K (with_index_entry context ies i) es"

lemma common_encodings_with_index [simp]:
  "common_encodings_at m (with_index_entry context ies i) common = common_encodings_at m context common"
  by (simp add: common_encodings_at_def with_index_entry_def FIRCLSCompactUnwindGetCommonEncodings_def)

lemma lookup_correct:
  assumes table: "compact_table_at K m context ies common i eo co es local"
    and first: "find (index_brackets ies (pc - cu_loadAddress context)) [0 ..< length ies - 1] = Some i"
      "cu_loadAddress context \<le> pc"
    and j: "Suc j < length es"
      "entry_offset K es j + FIRCLSCompactUnwindGetIndexFunctionOffset (with_index_entry context ies i) \<le> pc"
      "pc < entry_offset K es (Suc j) + FIRCLSCompactUnwindGetIndexFunctionOffset (with_index_entry context ies i)"
      "FIRCLSCompactUnwindGetIndexFunctionOffset (with_index_entry context ies i) < pc"
    and enc: "page_encoding K common local (es ! j) = Some encoding" "encoding \<noteq> 0"
  shows "FIRCLSCompactUnwindLookup K m context pc r =
    Some (with_index_entry context ies i, entry_result K (with_index_entry context ies i) es j encoding, True)"
proof -
  note t = table [unfolded compact_table_at_def]
  have "FIRCLSCompactUnwindLookupFirstLevel K m context pc = Some (with_index_entry context ies i, True)"
    using first_level_correct [of K m "context" ies pc] t first by simp
  moreover have "FIRCLSCompactUnwindLookupSecondLevel K m (with_index_entry context ies i) pc r =
      Some (entry_result K (with_index_entry context ies i) es j encoding, True)"
    using t j enc
    by (intro second_level_correct [of K m "with_index_entry context ies i" eo co es local common]) simp_all
  ultimately show ?thesis by (simp add: FIRCLSCompactUnwindLookup_def)
qed

text \<open>The addresses a table has no answer for: the start of a page, and everything from its last entry on.\<close>

lemma second_level_base:
  assumes "compressed_page_at K m (FIRCLSCompactUnwindGetSecondLevelData context) eo co es local"
    and "pc \<le> FIRCLSCompactUnwindGetIndexFunctionOffset context"
  shows "FIRCLSCompactUnwindLookupSecondLevel K m context pc r = Some (zero_result, False)"
proof -
  have "FIRCLSCompactUnwindGetTargetAddress context pc = 0"
    using assms(2) by (simp add: FIRCLSCompactUnwindGetTargetAddress_def)
  with assms(1) show ?thesis
    by (auto simp: compressed_page_at_def FIRCLSCompactUnwindLookupSecondLevel_def
        FIRCLSCompactUnwindGetSecondLevelPageKind_def FIRCLSCompactUnwindLookupSecondLevelCompressed_def Let_def
        FIRCLSCompactUnwindBinarySearchSecondLevel_def)
qed

lemma lookup_misses:
  assumes table: "compact_table_at K m context ies common i eo co es local"
    and first: "find (index_brackets ies (pc - cu_loadAddress context)) [0 ..< length ies - 1] = Some i"
      "cu_loadAddress context \<le> pc"
    and base: "base = FIRCLSCompactUnwindGetIndexFunctionOffset (with_index_entry context ies i)"
    and "pc \<le> base \<or> entry_offset K es (length es - 1) \<le> pc - base"
  shows "FIRCLSCompactUnwindLookup K m context pc r = Some (with_index_entry context ies i, zero_result, False)"
proof -
  note t = table [unfolded compact_table_at_def]
  have "FIRCLSCompactUnwindLookupFirstLevel K m context pc = Some (with_index_entry context ies i, True)"
    using first_level_correct [of K m "context" ies pc] t first by simp
  moreover have "FIRCLSCompactUnwindLookupSecondLevel K m (with_index_entry context ies i) pc r = Some (zero_result, False)"
  proof (cases "pc \<le> base")
    case True
    with t base show ?thesis by (intro second_level_base) auto
  next
    case False
    with t base assms(5) show ?thesis by (intro second_level_last) auto
  qed
  ultimately show ?thesis by (simp add: FIRCLSCompactUnwindLookup_def)
qed

subsection \<open>The record of a DWARF frame needs no initial value\<close>

lemma cie_record_initial:
  "FIRCLSDwarfParseCIERecord m c1 p = Some (c, True) \<Longrightarrow> FIRCLSDwarfParseCIERecord m c2 p = Some (c, True)"
  by (simp add: FIRCLSDwarfParseCIERecord_def split: if_splits)

lemma fde_all_members:
  "f\<lparr>fde_length := a, fde_cieOffset := b, fde_startAddress := c, fde_rangeSize := d, fde_instructions := e\<rparr> =
   \<lparr> fde_length = a, fde_cieOffset = b, fde_startAddress = c, fde_rangeSize = d, fde_instructions = e \<rparr>"
  by (cases f) simp

lemma fde_record_initial:
  assumes "FIRCLSDwarfParseFDERecord m f1 True c1 p = Some (f, c, True)"
  shows "FIRCLSDwarfParseFDERecord m f2 True c2 p = Some (f, c, True)"
proof -
  have D: "FIRCLSDwarfParseCIERecord m c2 q = Some (x, True)" if "FIRCLSDwarfParseCIERecord m c1 q = Some (x, True)" for q x
    using that by (rule cie_record_initial)
  from assms have "p \<noteq> 0" by (simp add: FIRCLSDwarfParseFDERecord_def split: if_splits)
  with assms obtain a b aa ba ab ac bc ad bd v q where
    "a \<noteq> 0" "FIRCLSParseRecordLengthAndAdvance m p = Some (a, b)"
    "aa \<noteq> 0" "FIRCLSParseUint32AndAdvance m b = Some (aa, ba)"
    and cie: "FIRCLSDwarfParseCIERecord m c1 (ba - ucast aa - 4) = Some (ab, True)" and
    "FIRCLSDwarfCIEIsValid ab" "ac \<noteq> CLS_INVALID_ADDRESS"
    "FIRCLSParseAddressWithEncodingAndAdvance m ba (cie_pointerEncoding ab) = Some (ac, bc)"
    "ad \<noteq> CLS_INVALID_ADDRESS"
    "FIRCLSParseAddressWithEncodingAndAdvance m bc (cie_pointerEncoding ab AND DW_EH_PE_VALUE_MASK) = Some (ad, bd)"
    "FIRCLSDwarfCIEHasAugmentationData m ab = Some v"
    "(if v then do { (n, q) \<leftarrow> FIRCLSParseULEB128AndAdvance m bd; Some (q + n) } else Some bd) = Some q"
    "c = ab" "f = \<lparr> fde_length = a, fde_cieOffset = ucast aa, fde_startAddress = ac, fde_rangeSize = ad,
      fde_instructions = \<lparr> ins_length = ucast (b + a - q), ins_data = q \<rparr> \<rparr>"
    unfolding FIRCLSDwarfParseFDERecord_def Let_def fde_all_members
    by (simp only: bind_Some_iff if_False if_True split_paired_Ex prod.case split: if_split_asm) auto
  then show ?thesis
    using \<open>p \<noteq> 0\<close> D [OF cie]
    by (simp add: FIRCLSDwarfParseFDERecord_def Let_def fde_all_members)
qed

lemma dwarf_record_initial:
  assumes "FIRCLSDwarfParseCFIFromFDERecordOffset m r1 ehFrame offset = Some (r, True)"
  shows "FIRCLSDwarfParseCFIFromFDERecordOffset m r2 ehFrame offset = Some (r, True)"
proof -
  from assms obtain f c where nz: "ehFrame \<noteq> 0" "offset \<noteq> 0" "ehFrame + offset \<noteq> 0"
    and r: "r = \<lparr> cfi_cie = c, cfi_fde = f \<rparr>"
    and p: "FIRCLSDwarfParseFDERecord m (cfi_fde r1) True (cfi_cie r1) (ehFrame + offset) = Some (f, c, True)"
    by (auto simp: FIRCLSDwarfParseCFIFromFDERecordOffset_def FIRCLSDwarfParseCFIFromFDERecord_def bind_Some_iff
        split: if_splits)
  from fde_record_initial [OF p, of "cfi_fde r2" "cfi_cie r2"] nz r show ?thesis
    by (simp add: FIRCLSDwarfParseCFIFromFDERecordOffset_def FIRCLSDwarfParseCFIFromFDERecord_def)
qed

subsection \<open>An example section\<close>

text \<open>
  One index entry for the functions from offset \<open>0x1000\<close> to \<open>0x2000\<close>, whose page has three functions at
  \<open>0x0\<close>, \<open>0x100\<close> and \<open>0x200\<close>; the first and the last use the common encoding, the second its page's own.
\<close>

definition example_section :: "u8 list" where
  "example_section =
     concat (map (le_of_word 4) [1, 28, 1, 0, 0, 32, 2 :: u32]) @
     le_of_word 4 (0x04000000 :: u32) @
     concat (map (le_of_word 4) [0x1000, 56, 0, 0x2000, 0, 0 :: u32]) @
     le_of_word 4 (3 :: u32) @ concat (map (le_of_word 2) [12, 3, 24, 1 :: u16]) @
     concat (map (le_of_word 4) [0, 0x01000100, 0x00000200 :: u32]) @
     le_of_word 4 (0x02000000 :: u32)"

definition example_memory :: mem where
  "example_memory = bytes_at 0x10000 example_section"

definition example_context :: FIRCLSCompactUnwindContext where
  "example_context = \<lparr> cu_unwindInfo = 0x10000, cu_ehFrame = 0, cu_loadAddress = 0x100000,
     cu_unwindHeader = \<lparr> hdr_version = 1, hdr_commonEncodingsArraySectionOffset = 28,
       hdr_commonEncodingsArrayCount = 1, hdr_indexSectionOffset = 32, hdr_indexCount = 2 \<rparr>,
     cu_indexHeader = \<lparr> idx_functionOffset = 0, idx_secondLevelPagesSectionOffset = 0,
       idx_lsdaIndexArraySectionOffset = 0 \<rparr>,
     cu_firstLevelNextFunctionOffset = 0 \<rparr>"

definition example_index :: "unwind_info_section_header_index_entry list" where
  "example_index =
     [\<lparr> idx_functionOffset = 0x1000, idx_secondLevelPagesSectionOffset = 56, idx_lsdaIndexArraySectionOffset = 0 \<rparr>,
      \<lparr> idx_functionOffset = 0x2000, idx_secondLevelPagesSectionOffset = 0, idx_lsdaIndexArraySectionOffset = 0 \<rparr>]"

definition example_entries :: "u32 list" where
  "example_entries = [0, 0x01000100, 0x00000200]"

lemma example_init:
  "FIRCLSCompactUnwindInit apple_abi example_memory True zero_compact_context 0x10000 0 0x100000 =
     (example_context, True)"
  by code_simp

lemma example_page_data:
  "FIRCLSCompactUnwindGetSecondLevelData (with_index_entry example_context example_index 0) = 0x10038"
  "FIRCLSCompactUnwindGetIndexData example_context = 0x10020"
  by code_simp+

lemma example_loads:
  "load_le 4 example_memory 0x10038 = Some (3 :: u32)"
  "load_le 2 example_memory 0x1003C = Some (12 :: u16)"
  "load_le 2 example_memory 0x1003E = Some (3 :: u16)"
  "load_le 2 example_memory 0x10040 = Some (24 :: u16)"
  by code_simp+

lemma example_words:
  "words_at example_memory 0x10044 example_entries"
  "words_at example_memory 0x10050 [0x02000000]"
  "words_at example_memory 0x1001C [0x04000000]"
  "index_entries_at apple_abi example_memory 0x10020 example_index"
  by code_simp+

lemma example_table:
  "compact_table_at apple_abi example_memory example_context example_index [0x04000000] 0 12 24
     example_entries [0x02000000]"
proof -
  have "sorted_entries apple_abi example_entries"
    by (simp add: sorted_entries_def example_entries_def apple_abi_def)
  moreover have "offsets_fit apple_abi (with_index_entry example_context example_index 0) example_entries"
    by (simp add: offsets_fit_def example_entries_def apple_abi_def with_index_entry_def example_context_def
        example_index_def less_Suc_eq)
  moreover have "common_encodings_at example_memory example_context [0x04000000]"
    using example_words(3)
    by (simp add: common_encodings_at_def FIRCLSCompactUnwindGetCommonEncodings_def example_context_def)
  moreover have "compressed_page_at apple_abi example_memory 0x10038 12 24 example_entries [0x02000000]"
    using example_loads example_words(1,2)
    by (simp add: compressed_page_at_def apple_abi_def) (simp add: example_entries_def)
  ultimately show ?thesis
    using example_words(4) by (simp add: compact_table_at_def example_page_data)
      (simp add: example_context_def example_index_def)
qed


subsection \<open>Properties\<close>

text \<open>C9 (functional): in a well-formed two-level table, a program counter inside a function that is not the
  last entry of its page, other than the start of the page, is found: the lookup returns the function's
  encoding, common or of the page and not zero, and its start and end, and leaves the index entry in the context.  At the start
  of a page, and from its last entry on, the lookup fails, although a comment in
  \<open>FIRCLSCompactUnwindLookupSecondLevelCompressed\<close> expects the last entry to be usable.\<close>

theorem lookup_finds:
  assumes "compact_table_at K m context ies common i eo co es local"
    and "find (index_brackets ies (pc - cu_loadAddress context)) [0 ..< length ies - 1] = Some i"
    and "cu_loadAddress context \<le> pc"
    and "base = FIRCLSCompactUnwindGetIndexFunctionOffset (with_index_entry context ies i)"
  shows "(base < pc \<and> Suc j < length es \<and> entry_offset K es j + base \<le> pc \<and> pc < entry_offset K es (Suc j) + base \<and>
      page_encoding K common local (es ! j) = Some encoding \<and> encoding \<noteq> 0 \<longrightarrow>
      FIRCLSCompactUnwindLookup K m context pc r =
        Some (with_index_entry context ies i, entry_result K (with_index_entry context ies i) es j encoding, True)) \<and>
    (pc \<le> base \<or> entry_offset K es (length es - 1) \<le> pc - base \<longrightarrow>
      FIRCLSCompactUnwindLookup K m context pc r = Some (with_index_entry context ies i, zero_result, False))"
  using lookup_correct [OF assms(1-3)] lookup_misses [OF assms] unfolding assms(4) by blast

theorem lookup_finds_witness:
  "(\<exists>c. FIRCLSCompactUnwindLookup apple_abi example_memory example_context 0x101150 zero_result =
     Some (c, \<lparr> res_encoding = 0x02000000, res_functionStart = 0x101100, res_functionEnd = 0x101200,
       res_lsda = 0, res_personality = 0 \<rparr>, True)) \<and>
   (\<exists>c. FIRCLSCompactUnwindLookup apple_abi example_memory example_context 0x101250 zero_result =
     Some (c, zero_result, False))"
proof -
  have f: "find (index_brackets example_index (0x101150 - cu_loadAddress example_context))
      [0 ..< length example_index - 1] = Some 0"
    "find (index_brackets example_index (0x101250 - cu_loadAddress example_context))
      [0 ..< length example_index - 1] = Some 0"
    by code_simp+
  have b: "0x101000 = FIRCLSCompactUnwindGetIndexFunctionOffset (with_index_entry example_context example_index 0)"
    by code_simp
  have e: "page_encoding apple_abi [0x04000000] [0x02000000] (example_entries ! 1) = Some 0x02000000"
    by code_simp
  have o': "entry_offset apple_abi example_entries 1 = 0x100" "entry_offset apple_abi example_entries (Suc (Suc 0)) = 0x200" "entry_offset apple_abi example_entries 2 = 0x200"
    "length example_entries = 3"
    by (simp_all add: example_entries_def apple_abi_def)
  have l: "cu_loadAddress example_context \<le> 0x101150" "cu_loadAddress example_context \<le> 0x101250"
    by (simp_all add: example_context_def)
  have "FIRCLSCompactUnwindLookup apple_abi example_memory example_context 0x101150 zero_result =
      Some (with_index_entry example_context example_index 0,
        entry_result apple_abi (with_index_entry example_context example_index 0) example_entries 1 0x02000000, True)"
    using lookup_finds [OF example_table f(1) l(1) b, of 1 "0x02000000" zero_result] e o' by simp
  moreover have "FIRCLSCompactUnwindLookup apple_abi example_memory example_context 0x101250 zero_result =
      Some (with_index_entry example_context example_index 0, zero_result, False)"
    using lookup_finds [OF example_table f(2) l(2) b, of 1 "0x02000000" zero_result] o' by simp
  ultimately show ?thesis
    by (simp add: entry_result_def b [symmetric]) (simp add: example_entries_def apple_abi_def)
qed

text \<open>C16 (safety): whatever the table holds, a lookup that succeeds returns a function range around
  the program counter, an encoding that is not zero, and an index entry whose range holds the offset.\<close>

theorem lookup_result_sound:
  assumes "FIRCLSCompactUnwindLookup K m context pc r = Some (context', res, True)"
  shows "res_functionStart res \<le> pc \<and> pc < res_functionEnd res \<and> res_encoding res \<noteq> 0 \<and>
    ucast (idx_functionOffset (cu_indexHeader context')) \<le> pc - cu_loadAddress context \<and>
    pc - cu_loadAddress context < ucast (cu_firstLevelNextFunctionOffset context') \<and>
    cu_loadAddress context \<le> pc"
  using assms by (rule lookup_sound)

theorem lookup_result_sound_witness:
  "\<exists>c res. FIRCLSCompactUnwindLookup apple_abi example_memory example_context 0x101050 zero_result = Some (c, res, True) \<and>
     res_functionStart res \<le> 0x101050 \<and> 0x101050 < res_functionEnd res"
proof -
  have "map_option (\<lambda>(c, res, ok). ok)
      (FIRCLSCompactUnwindLookup apple_abi example_memory example_context 0x101050 zero_result) = Some True"
    by code_simp
  then obtain c res where l:
    "FIRCLSCompactUnwindLookup apple_abi example_memory example_context 0x101050 zero_result = Some (c, res, True)"
    by auto
  with lookup_result_sound [OF this] show ?thesis by blast
qed

text \<open>C14 (functional): on a page of readable entries the bisection ends, reads only entries of the page,
  and when it succeeds returns an entry such that the address lies between it and its successor, or entry 0
  for an address before it; when it fails the address is not before the last entry.  On a sorted page it succeeds
  exactly for the addresses before the last entry, so it fails for the function that starts there, which a comment
  in its caller expects to be found.\<close>

theorem binary_search_finds:
  assumes "words_at m a es" "length es = unat entryCount" "es \<noteq> []" "a \<noteq> 0" "address \<noteq> 0"
  shows "\<exists>j ok. FIRCLSCompactUnwindBinarySearchSecondLevel K m address index entryCount a = Some (j, ok) \<and>
    search_result K es address (j, ok) \<and>
    (sorted_entries K es \<longrightarrow> (ok \<longleftrightarrow> address < entry_offset K es (length es - 1)))"
proof -
  obtain j ok where s: "FIRCLSCompactUnwindBinarySearchSecondLevel K m address index entryCount a = Some (j, ok)"
    and r: "search_result K es address (j, ok)"
    using binary_search_correct [OF assms, of K index] by auto
  have "ok \<longleftrightarrow> address < entry_offset K es (length es - 1)" if "sorted_entries K es"
  proof -
    have le: "entry_offset K es k \<le> entry_offset K es (length es - 1)" if "k < length es" for k
      using sorted_entriesD [OF \<open>sorted_entries K es\<close>, rule_format, of k "length es - 1"] that by simp
    show ?thesis
    proof (cases ok)
      case True
      with r assms(3) obtain k where "k < length es" "address < entry_offset K es k"
        by (auto simp: search_result_def)
      with True le [of k] show ?thesis by (simp add: less_le_trans)
    next
      case False
      with r show ?thesis by (simp add: search_result_def not_less)
    qed
  qed
  with s r show ?thesis by blast
qed

theorem binary_search_finds_witness:
  "\<exists>j. FIRCLSCompactUnwindBinarySearchSecondLevel apple_abi example_memory 0x150 0 3 0x10044 = Some (j, True)"
proof -
  have "sorted_entries apple_abi example_entries"
    by (simp add: sorted_entries_def example_entries_def apple_abi_def)
  with binary_search_finds [OF example_words(1), of 3 "0x150" apple_abi 0] show ?thesis
    by (auto simp: example_entries_def apple_abi_def)
qed

text \<open>The last function of a page is never found: for a program counter from its start on
  the lookup of the page fails, although the code computes the end of a function that is the last entry.\<close>

theorem last_function_not_found:
  assumes "compressed_page_at K m (FIRCLSCompactUnwindGetSecondLevelData context) eo co es local"
    and "sorted_entries K es"
    and "entry_offset K es (length es - 1) \<le> pc - FIRCLSCompactUnwindGetIndexFunctionOffset context"
    and "FIRCLSCompactUnwindGetIndexFunctionOffset context < pc"
  shows "FIRCLSCompactUnwindLookupSecondLevel K m context pc r = Some (zero_result, False)"
  using assms by (rule second_level_last)

theorem last_function_not_found_witness:
  "FIRCLSCompactUnwindLookupSecondLevel apple_abi example_memory
     (with_index_entry example_context example_index 0) 0x101250 zero_result = Some (zero_result, False)"
proof -
  have b: "FIRCLSCompactUnwindGetIndexFunctionOffset (with_index_entry example_context example_index 0) = 0x101000"
    by code_simp
  have "compressed_page_at apple_abi example_memory
      (FIRCLSCompactUnwindGetSecondLevelData (with_index_entry example_context example_index 0)) 12 24
      example_entries [0x02000000]" "sorted_entries apple_abi example_entries"
    using example_table by (simp_all add: compact_table_at_def)
  then show ?thesis
    by (rule last_function_not_found) (simp_all add: b, simp add: example_entries_def apple_abi_def)
qed

end
