(* ===== verification/BinaryImage.thy ===== *)
theory BinaryImage
  imports ThreadState
begin

section \<open>The table of loaded images (FIRCLSBinaryImage.m)\<close>

text \<open>
  The part of \<open>Components/FIRCLSBinaryImage.m\<close> the unwinder depends on: the table of 512 loaded images,
  filled by \<open>FIRCLSBinaryImageStoreNode\<close> when the dynamic linker loads and unloads images, on any thread,
  and searched by \<open>FIRCLSBinaryImageSafeFindImageForAddress\<close> at crash time.

  The table is shared without a lock, so \<open>FIRCLSBinaryImageStoreNode\<close> is given as the steps of one thread:
  comparing the next slot, the compare-and-swap, which on failure overwrites the value searched for, and the
  assignment of the whole node, taken as one step.  \<open>FIRCLSBinaryImageStoreNode\<close> itself runs them to the
  end; \<open>store_schedule\<close> interleaves two threads.  The pointers to a caller's local variable that the search
  fills are valid and its result is an \<open>option\<close>.
\<close>

record FIRCLSBinaryImageRuntimeNode =
  node_baseAddress :: addr
  node_size :: u64
  node_ehFrame :: addr
  node_unwindInfo :: addr
  node_crashInfo :: addr

definition zero_node :: FIRCLSBinaryImageRuntimeNode where
  "zero_node = \<lparr> node_baseAddress = 0, node_size = 0, node_ehFrame = 0, node_unwindInfo = 0, node_crashInfo = 0 \<rparr>"

definition CLS_BINARY_IMAGE_RUNTIME_NODE_COUNT :: nat where
  "CLS_BINARY_IMAGE_RUNTIME_NODE_COUNT = 512"

text \<open>What the global context holds of images: whether it is initialized, whether its writable part is there,
  and the address and contents of the table.\<close>

record image_context =
  ctx_initialized :: bool
  ctx_writable :: bool
  ctx_nodes_at :: addr
  ctx_nodes :: "FIRCLSBinaryImageRuntimeNode list"

definition sizeof_node :: addr where
  "sizeof_node = 40"

subsection \<open>Searching\<close>

definition node_covers :: "FIRCLSBinaryImageRuntimeNode \<Rightarrow> addr \<Rightarrow> bool" where
  "node_covers node address \<longleftrightarrow>
     node_baseAddress node \<le> address \<and> address < node_baseAddress node + node_size node"

fun find_image_loop :: "addr \<Rightarrow> FIRCLSBinaryImageRuntimeNode list \<Rightarrow> addr \<Rightarrow> FIRCLSBinaryImageRuntimeNode option" where
  "find_image_loop node_at [] address = None"
| "find_image_loop node_at (node # nodes) address =
     (if \<not> FIRCLSIsValidPointer node_at then find_image_loop (node_at + sizeof_node) nodes address
      else if node_covers node address then Some node
      else find_image_loop (node_at + sizeof_node) nodes address)"

definition FIRCLSBinaryImageSafeFindImageForAddress ::
  "image_context \<Rightarrow> addr \<Rightarrow> FIRCLSBinaryImageRuntimeNode option" where
  "FIRCLSBinaryImageSafeFindImageForAddress C address =
     (if \<not> ctx_initialized C then None
      else if address = 0 then None
      else if ctx_nodes_at C = 0 then None
      else find_image_loop (ctx_nodes_at C) (take CLS_BINARY_IMAGE_RUNTIME_NODE_COUNT (ctx_nodes C)) address)"

definition FIRCLSBinaryImageSafeHasUnwindInfo :: "FIRCLSBinaryImageRuntimeNode \<Rightarrow> bool" where
  "FIRCLSBinaryImageSafeHasUnwindInfo node = FIRCLSIsValidPointer (node_unwindInfo node)"

subsection \<open>Storing\<close>

datatype store_pc = Store_compare | Store_swap | Store_write | Store_done bool

record store_thread =
  th_added :: bool
  th_node :: FIRCLSBinaryImageRuntimeNode
  th_search :: addr
  th_index :: nat
  th_pc :: store_pc

definition store_begin :: "bool \<Rightarrow> FIRCLSBinaryImageRuntimeNode \<Rightarrow> store_thread" where
  "store_begin added node =
     \<lparr> th_added = added,
       th_node = (if added then node else zero_node\<lparr>node_baseAddress := node_baseAddress node\<rparr>),
       th_search = (if added then 0 else node_baseAddress node),
       th_index = 0, th_pc = Store_compare \<rparr>"

lemma store_begin_simps [simp]:
  "th_added (store_begin added node) = added"
  "th_node (store_begin added node) =
    (if added then node else zero_node\<lparr>node_baseAddress := node_baseAddress node\<rparr>)"
  "th_search (store_begin added node) = (if added then 0 else node_baseAddress node)"
  "th_index (store_begin added node) = 0" "th_pc (store_begin added node) = Store_compare"
  by (simp_all add: store_begin_def)

definition next_slot :: "store_thread \<Rightarrow> store_thread" where
  "next_slot t = t\<lparr>th_index := th_index t + 1, th_pc := Store_compare\<rparr>"

definition store_step ::
  "addr \<Rightarrow> FIRCLSBinaryImageRuntimeNode list \<times> store_thread \<Rightarrow> FIRCLSBinaryImageRuntimeNode list \<times> store_thread" where
  "store_step nodes_at = (\<lambda>(nodes, t).
     let i = th_index t in
     case th_pc t of
       Store_compare \<Rightarrow>
         if CLS_BINARY_IMAGE_RUNTIME_NODE_COUNT \<le> i then (nodes, t\<lparr>th_pc := Store_done False\<rparr>)
         else if nodes_at + of_nat i * sizeof_node = 0 then (nodes, t\<lparr>th_pc := Store_done False\<rparr>)
         else if node_baseAddress (nodes ! i) \<noteq> th_search t then (nodes, next_slot t)
         else (nodes, t\<lparr>th_pc := Store_swap\<rparr>)
     | Store_swap \<Rightarrow>
         if node_baseAddress (nodes ! i) = th_search t then
           (nodes[i := (nodes ! i)\<lparr>node_baseAddress := node_baseAddress (th_node t)\<rparr>], t\<lparr>th_pc := Store_write\<rparr>)
         else let t = t\<lparr>th_search := node_baseAddress (nodes ! i)\<rparr> in
           if \<not> th_added t then (nodes, t\<lparr>th_pc := Store_done False\<rparr>)
           else (nodes, next_slot t)
     | Store_write \<Rightarrow> (nodes[i := th_node t], t\<lparr>th_pc := Store_done True\<rparr>)
     | Store_done ok \<Rightarrow> (nodes, t))"

text \<open>One thread alone: a slot takes one step, or three when it is the one, and there are 512.\<close>

definition store_run ::
  "addr \<Rightarrow> nat \<Rightarrow> FIRCLSBinaryImageRuntimeNode list \<times> store_thread \<Rightarrow> FIRCLSBinaryImageRuntimeNode list \<times> store_thread" where
  "store_run nodes_at n = store_step nodes_at ^^ n"

definition FIRCLSBinaryImageStoreNode ::
  "image_context \<Rightarrow> bool \<Rightarrow> FIRCLSBinaryImageRuntimeNode \<Rightarrow> image_context" where
  "FIRCLSBinaryImageStoreNode C added node =
     (if \<not> ctx_writable C then C
      else C\<lparr>ctx_nodes := fst (store_run (ctx_nodes_at C) (CLS_BINARY_IMAGE_RUNTIME_NODE_COUNT + 3)
        (ctx_nodes C, store_begin added node))\<rparr>)"

text \<open>Two threads, \<open>False\<close> and \<open>True\<close>, in the order of a schedule.\<close>

fun store_schedule ::
  "addr \<Rightarrow> bool list \<Rightarrow> FIRCLSBinaryImageRuntimeNode list \<times> store_thread \<times> store_thread \<Rightarrow>
   FIRCLSBinaryImageRuntimeNode list \<times> store_thread \<times> store_thread" where
  "store_schedule nodes_at [] s = s"
| "store_schedule nodes_at (b # bs) (nodes, t1, t2) =
     (if b then let (nodes, t2) = store_step nodes_at (nodes, t2) in store_schedule nodes_at bs (nodes, t1, t2)
      else let (nodes, t1) = store_step nodes_at (nodes, t1) in store_schedule nodes_at bs (nodes, t1, t2))"

subsection \<open>What one store does\<close>

text \<open>The table is where the loops need it: 512 slots, at addresses that are valid pointers.\<close>

definition table_ok :: "image_context \<Rightarrow> bool" where
  "table_ok C \<longleftrightarrow> length (ctx_nodes C) = CLS_BINARY_IMAGE_RUNTIME_NODE_COUNT \<and>
     4096 \<le> unat (ctx_nodes_at C) \<and> unat (ctx_nodes_at C) + 512 * 40 < 2 ^ 64"

lemma node_at_offset:
  assumes "4096 \<le> unat a" "unat a + 512 * 40 < 2 ^ 64" "i \<le> 512"
  shows "unat (a + of_nat i * sizeof_node) = unat a + i * 40"
  using assms by (simp add: sizeof_node_def unat_word_ariths unat_of_nat)

lemma node_at_nonzero:
  assumes "4096 \<le> unat a" "unat a + 512 * 40 < 2 ^ 64" "i < 512"
  shows "a + of_nat i * sizeof_node \<noteq> 0"
proof
  assume "a + of_nat i * sizeof_node = 0"
  then have "unat (a + of_nat i * sizeof_node) = 0" by simp
  with node_at_offset [of a i] assms show False by simp
qed

lemma store_run_simps:
  "store_run a 0 s = s"
  "store_run a (Suc n) s = store_run a n (store_step a s)"
  by (simp_all add: store_run_def funpow_swap1)

lemma store_run_add: "store_run a (k + n) s = store_run a n (store_run a k s)"
  by (simp add: store_run_def funpow_add add.commute [of k])

lemma store_run_done:
  "th_pc t = Store_done ok \<Longrightarrow> store_run a n (nodes, t) = (nodes, t)"
  by (induction n) (simp_all add: store_run_simps store_step_def)

lemma store_run_skip:
  assumes "\<And>j. i \<le> j \<Longrightarrow> j < i + n \<Longrightarrow> node_baseAddress (nodes ! j) \<noteq> th_search t"
    and "4096 \<le> unat a" "unat a + 512 * 40 < 2 ^ 64" "i + n \<le> 512" "th_pc t = Store_compare" "th_index t = i"
  shows "store_run a n (nodes, t) = (nodes, t\<lparr>th_index := i + n\<rparr>)"
  using assms
proof (induction n arbitrary: i t)
  case (Suc n)
  have s: "store_step a (nodes, t) = (nodes, t\<lparr>th_index := Suc i\<rparr>)"
    using Suc.prems node_at_nonzero [of a i]
    by (cases t) (simp add: store_step_def next_slot_def CLS_BINARY_IMAGE_RUNTIME_NODE_COUNT_def)
  have "store_run a n (nodes, t\<lparr>th_index := Suc i\<rparr>) = (nodes, t\<lparr>th_index := Suc i, th_index := Suc i + n\<rparr>)"
    using Suc.prems by (intro Suc.IH) simp_all
  then show ?case by (simp add: store_run_simps s)
qed (cases t, simp add: store_run_simps)


lemma store_run_hit:
  assumes "node_baseAddress (nodes ! i) = th_search t" "i < length nodes"
    and "4096 \<le> unat a" "unat a + 512 * 40 < 2 ^ 64" "i < 512" "th_pc t = Store_compare" "th_index t = i"
  shows "store_run a 3 (nodes, t) = (nodes[i := th_node t], t\<lparr>th_pc := Store_done True\<rparr>)"
  using assms node_at_nonzero [of a i]
  by (simp add: numeral_3_eq_3 store_run_simps store_step_def CLS_BINARY_IMAGE_RUNTIME_NODE_COUNT_def Let_def)

text \<open>The slot a store takes: the first with the address it searches for.\<close>

definition store_slot :: "FIRCLSBinaryImageRuntimeNode list \<Rightarrow> addr \<Rightarrow> nat option" where
  "store_slot nodes search = find (\<lambda>i. node_baseAddress (nodes ! i) = search) [0 ..< 512]"

lemma store_slot_Some:
  assumes "store_slot nodes search = Some k"
  shows "k < 512" "node_baseAddress (nodes ! k) = search"
    "\<And>j. j < k \<Longrightarrow> node_baseAddress (nodes ! j) \<noteq> search"
  using assms unfolding store_slot_def by (auto simp: find_Some_iff)

lemma store_slot_None: "store_slot nodes search = None \<longleftrightarrow> (\<forall>k<512. node_baseAddress (nodes ! k) \<noteq> search)"
  by (auto simp: store_slot_def find_None_iff)

lemma store_run_result:
  assumes "length nodes = 512" "4096 \<le> unat a" "unat a + 512 * 40 < 2 ^ 64"
    and "th_pc t = Store_compare" "th_index t = 0"
  shows "fst (store_run a 515 (nodes, t)) =
    (case store_slot nodes (th_search t) of None \<Rightarrow> nodes | Some k \<Rightarrow> nodes[k := th_node t])"
proof (cases "store_slot nodes (th_search t)")
  case None
  then have "store_run a 512 (nodes, t) = (nodes, t\<lparr>th_index := 0 + 512\<rparr>)"
    using assms by (intro store_run_skip) (auto simp: store_slot_None)
  then have "store_run a 515 (nodes, t) = store_run a 3 (nodes, t\<lparr>th_index := 512\<rparr>)"
    using store_run_add [of a 512 3] by simp
  also have "\<dots> = store_run a 2 (nodes, t\<lparr>th_index := 512, th_pc := Store_done False\<rparr>)"
    using assms(4)
    by (simp add: numeral_3_eq_3 numeral_2_eq_2 store_run_simps)
      (simp add: store_step_def CLS_BINARY_IMAGE_RUNTIME_NODE_COUNT_def)
  also have "\<dots> = (nodes, t\<lparr>th_index := 512, th_pc := Store_done False\<rparr>)"
    by (rule store_run_done [where ok = False]) simp
  finally show ?thesis using None by simp
next
  case (Some k)
  note k = store_slot_Some [OF Some]
  have "store_run a k (nodes, t) = (nodes, t\<lparr>th_index := 0 + k\<rparr>)"
    using assms k by (intro store_run_skip) auto
  then have "store_run a (k + 3) (nodes, t) = store_run a 3 (nodes, t\<lparr>th_index := k\<rparr>)"
    using store_run_add [of a k 3] by simp
  also have "\<dots> = (nodes[k := th_node t], t\<lparr>th_index := k, th_pc := Store_done True\<rparr>)"
    using assms k by (subst store_run_hit [where i = k]) simp_all
  finally have r: "store_run a (k + 3) (nodes, t) = (nodes[k := th_node t], t\<lparr>th_index := k, th_pc := Store_done True\<rparr>)" .
  have "store_run a 515 (nodes, t) = store_run a (512 - k) (store_run a (k + 3) (nodes, t))"
    using store_run_add [of a "k + 3" "512 - k"] k(1) by simp
  also have "\<dots> = (nodes[k := th_node t], t\<lparr>th_index := k, th_pc := Store_done True\<rparr>)"
    unfolding r by (rule store_run_done [where ok = True]) simp
  finally show ?thesis using Some by simp
qed

lemma store_node_result:
  assumes "table_ok C" "ctx_writable C"
  shows "ctx_nodes (FIRCLSBinaryImageStoreNode C added node) =
    (case store_slot (ctx_nodes C) (if added then 0 else node_baseAddress node) of
      None \<Rightarrow> ctx_nodes C
    | Some k \<Rightarrow> (ctx_nodes C)[k := (if added then node else zero_node\<lparr>node_baseAddress := node_baseAddress node\<rparr>)])"
    and "ctx_nodes_at (FIRCLSBinaryImageStoreNode C added node) = ctx_nodes_at C"
    and "ctx_initialized (FIRCLSBinaryImageStoreNode C added node) = ctx_initialized C"
    and "ctx_writable (FIRCLSBinaryImageStoreNode C added node) = ctx_writable C"
  using assms store_run_result [of "ctx_nodes C" "ctx_nodes_at C" "store_begin added node"]
  by (simp_all add: FIRCLSBinaryImageStoreNode_def table_ok_def CLS_BINARY_IMAGE_RUNTIME_NODE_COUNT_def
      split: option.split)

lemma store_keeps_table_ok:
  "table_ok C \<Longrightarrow> table_ok (FIRCLSBinaryImageStoreNode C added node)"
proof (cases "ctx_writable C")
  case True
  then show "table_ok C \<Longrightarrow> ?thesis"
    using store_node_result [of C added node] by (simp add: table_ok_def split: option.split)
qed (simp add: FIRCLSBinaryImageStoreNode_def)

subsection \<open>Searching the table\<close>

lemma find_image_loop_find:
  assumes "4096 \<le> unat a" "unat a + length nodes * 40 < 2 ^ 64"
  shows "find_image_loop a nodes address = find (\<lambda>node. node_covers node address) nodes"
  using assms
proof (induction nodes arbitrary: a)
  case (Cons n ns)
  have v: "FIRCLSIsValidPointer a" using Cons.prems by (simp add: FIRCLSIsValidPointer_def word_le_nat_alt)
  have "unat (a + sizeof_node) = unat a + 40"
    using Cons.prems by (simp add: sizeof_node_def unat_word_ariths)
  then have "find_image_loop (a + sizeof_node) ns address = find (\<lambda>node. node_covers node address) ns"
    using Cons.prems by (intro Cons.IH) simp_all
  with v show ?case by simp
qed simp

lemma find_image_find:
  assumes "table_ok C" "ctx_initialized C" "address \<noteq> 0"
  shows "FIRCLSBinaryImageSafeFindImageForAddress C address = find (\<lambda>node. node_covers node address) (ctx_nodes C)"
proof -
  have "ctx_nodes_at C \<noteq> 0" using assms(1) by (auto simp: table_ok_def)
  with assms show ?thesis
    by (simp add: FIRCLSBinaryImageSafeFindImageForAddress_def table_ok_def find_image_loop_find
        CLS_BINARY_IMAGE_RUNTIME_NODE_COUNT_def)
qed


lemma store_slot_iff:
  "store_slot nodes search = Some k \<longleftrightarrow>
     k < 512 \<and> node_baseAddress (nodes ! k) = search \<and> (\<forall>j<k. node_baseAddress (nodes ! j) \<noteq> search)"
  by (auto simp: store_slot_def find_Some_iff)

lemma find_single:
  assumes "k < length xs" "P (xs ! k)" "\<And>j. j < length xs \<Longrightarrow> j \<noteq> k \<Longrightarrow> \<not> P (xs ! j)"
  shows "find P xs = Some (xs ! k)"
  unfolding find_Some_iff using assms less_imp_neq by (metis less_trans)

lemma find_after_store:
  assumes "table_ok C" "ctx_initialized C" "address \<noteq> 0" "k < 512"
    and "node_covers node address" "\<forall>n \<in> set (ctx_nodes C). \<not> node_covers n address"
    and "ctx_nodes C' = (ctx_nodes C)[k := node]" "ctx_nodes_at C' = ctx_nodes_at C" "ctx_initialized C'"
  shows "FIRCLSBinaryImageSafeFindImageForAddress C' address = Some node"
proof -
  have l: "length (ctx_nodes C) = 512"
    using assms(1) by (simp add: table_ok_def CLS_BINARY_IMAGE_RUNTIME_NODE_COUNT_def)
  have "find (\<lambda>n. node_covers n address) ((ctx_nodes C)[k := node]) = Some ((ctx_nodes C)[k := node] ! k)"
    using assms(4,5,6) l by (intro find_single) (auto simp: nth_list_update)
  moreover have "table_ok C'" using assms(1,7,8) by (simp add: table_ok_def)
  ultimately show ?thesis using assms(3,4,7,9) l by (simp add: find_image_find)
qed

lemma unloaded_covers_nothing: "\<not> node_covers (zero_node\<lparr>node_baseAddress := b\<rparr>) address"
  by (auto simp: node_covers_def zero_node_def)

text \<open>Loading, unloading, loading again and unloading again leaves the image in the table: the first
  unload keeps its slot's address, and the second finds that slot instead of the live one.\<close>

lemma reload_unload:
  assumes C: "table_ok C" "ctx_writable C"
    and free: "k < k'" "k' < 512" "store_slot (ctx_nodes C) 0 = Some k" "node_baseAddress (ctx_nodes C ! k') = 0"
      "\<forall>j. k < j \<longrightarrow> j < k' \<longrightarrow> node_baseAddress (ctx_nodes C ! j) \<noteq> 0"
    and new: "node_baseAddress node \<noteq> 0" "store_slot (ctx_nodes C) (node_baseAddress node) = None"
  defines "C1 \<equiv> FIRCLSBinaryImageStoreNode C True node"
  defines "C2 \<equiv> FIRCLSBinaryImageStoreNode C1 False node"
  defines "C3 \<equiv> FIRCLSBinaryImageStoreNode C2 True node"
  defines "C4 \<equiv> FIRCLSBinaryImageStoreNode C3 False node"
  shows "ctx_nodes C4 = (ctx_nodes C)[k := zero_node\<lparr>node_baseAddress := node_baseAddress node\<rparr>, k' := node]"
    and "ctx_nodes_at C4 = ctx_nodes_at C" "ctx_initialized C4 = ctx_initialized C"
proof -
  let ?b = "node_baseAddress node" and ?N = "ctx_nodes C"
  let ?z = "zero_node\<lparr>node_baseAddress := ?b\<rparr>"
  note slot = free(3) [unfolded store_slot_iff] and none = new(2) [unfolded store_slot_None]
  have len: "length ?N = 512" using C(1) by (simp add: table_ok_def CLS_BINARY_IMAGE_RUNTIME_NODE_COUNT_def)
  have ok: "table_ok C1" "table_ok C2" "table_ok C3" "table_ok C4"
    "ctx_writable C1" "ctx_writable C2" "ctx_writable C3" "ctx_writable C4"
    using C by (simp_all add: C1_def C2_def C3_def C4_def store_keeps_table_ok store_node_result(4))
  have n1: "ctx_nodes C1 = ?N[k := node]"
    using store_node_result(1) [OF C, of True node] free(3) by (simp add: C1_def)
  have "store_slot (?N[k := node]) ?b = Some k"
    using slot none len by (auto simp: store_slot_iff)
  then have n2: "ctx_nodes C2 = ?N[k := ?z]"
    using store_node_result(1) [OF ok(1,5), of False node] n1 by (simp add: C2_def)
  have "store_slot (?N[k := ?z]) 0 = Some k'"
    using slot none len free new by (auto simp: store_slot_iff nth_list_update nat_neq_iff)
  then have n3: "ctx_nodes C3 = ?N[k := ?z, k' := node]"
    using store_node_result(1) [OF ok(2,6), of True node] n2 by (simp add: C3_def)
  have "store_slot (?N[k := ?z, k' := node]) ?b = Some k"
    using slot none len free by (auto simp: store_slot_iff nth_list_update zero_node_def)
  then show "ctx_nodes C4 = ?N[k := ?z, k' := node]"
    using store_node_result(1) [OF ok(3,7), of False node] n3 free
    by (simp add: C4_def list_update_swap)
  show "ctx_nodes_at C4 = ctx_nodes_at C" "ctx_initialized C4 = ctx_initialized C"
    using C ok by (simp_all add: C4_def C3_def C2_def C1_def store_node_result(2,3))
qed

subsection \<open>Two threads\<close>

lemma store_schedule_append:
  "store_schedule a (bs @ cs) s = store_schedule a cs (store_schedule a bs s)"
  by (induction a bs s rule: store_schedule.induct) (simp_all add: split_beta Let_def)

lemma store_schedule_second:
  "store_schedule a (replicate n True) (nodes, t1, t2) =
     (fst (store_run a n (nodes, t2)), t1, snd (store_run a n (nodes, t2)))"
  by (induction n arbitrary: nodes t2) (simp_all add: store_run_simps split_beta Let_def)

text \<open>Both threads find the first slot free; the first swaps its address in, the second fails, goes on with
  the first one's address as the address it searches for, and stores nothing.\<close>

definition lost_store_schedule :: "bool list" where
  "lost_store_schedule = [False, True, False, True] @ replicate 512 True @ [False]"

lemma lost_store:
  assumes "length nodes = 512" "4096 \<le> unat a" "unat a + 512 * 40 < 2 ^ 64"
    and "node_baseAddress (nodes ! 0) = 0" "node_baseAddress n1 \<noteq> 0"
    and "\<forall>k<512. node_baseAddress (nodes ! k) \<noteq> node_baseAddress n1"
  shows "fst (store_schedule a lost_store_schedule (nodes, store_begin True n1, store_begin True n2)) = nodes[0 := n1] \<and>
    th_pc (snd (snd (store_schedule a lost_store_schedule (nodes, store_begin True n1, store_begin True n2)))) =
      Store_done False"
proof -
  let ?m = "nodes[0 := (nodes ! 0)\<lparr>node_baseAddress := node_baseAddress n1\<rparr>]"
  let ?t1 = "(store_begin True n1)\<lparr>th_pc := Store_write\<rparr>"
  let ?t2 = "next_slot ((store_begin True n2)\<lparr>th_pc := Store_swap, th_search := node_baseAddress n1\<rparr>)"
  have a: "a \<noteq> 0" using assms(2) by auto
  have l: "0 < length nodes" using assms(1) by simp
  have s: "store_schedule a [False, True, False, True] (nodes, store_begin True n1, store_begin True n2) = (?m, ?t1, ?t2)"
    using assms(4,5) a l
    by (simp add: store_step_def CLS_BINARY_IMAGE_RUNTIME_NODE_COUNT_def next_slot_def)
  have "store_run a 511 (?m, ?t2) = (?m, ?t2\<lparr>th_index := 1 + 511\<rparr>)"
    using assms by (intro store_run_skip) (simp_all add: next_slot_def)
  then have "store_run a 512 (?m, ?t2) = store_step a (?m, ?t2\<lparr>th_index := 512\<rparr>)"
    using store_run_add [of a 511 1] by (simp add: store_run_simps)
  also have "\<dots> = (?m, ?t2\<lparr>th_index := 512, th_pc := Store_done False\<rparr>)"
    by (simp add: store_step_def next_slot_def CLS_BINARY_IMAGE_RUNTIME_NODE_COUNT_def)
  finally have r: "store_run a 512 (?m, ?t2) = (?m, ?t2\<lparr>th_index := 512, th_pc := Store_done False\<rparr>)" .
  show ?thesis
    unfolding lost_store_schedule_def store_schedule_append s store_schedule_second r
    by (simp add: store_step_def)
qed


subsection \<open>Properties\<close>

definition example_node :: FIRCLSBinaryImageRuntimeNode where
  "example_node = \<lparr> node_baseAddress = 0x100000, node_size = 0x4000, node_ehFrame = 0, node_unwindInfo = 0x103000,
     node_crashInfo = 0 \<rparr>"

definition empty_table :: image_context where
  "empty_table = \<lparr> ctx_initialized = True, ctx_writable = True, ctx_nodes_at = 0x10000,
     ctx_nodes = replicate 512 zero_node \<rparr>"

lemma empty_table_ok: "table_ok empty_table"
  by (simp add: table_ok_def empty_table_def CLS_BINARY_IMAGE_RUNTIME_NODE_COUNT_def)

lemma empty_table_slots:
  "store_slot (ctx_nodes empty_table) 0 = Some 0"
  "b \<noteq> 0 \<Longrightarrow> store_slot (ctx_nodes empty_table) b = None"
  by (simp_all add: store_slot_iff store_slot_None empty_table_def zero_node_def)

lemma empty_table_covers: "\<forall>n \<in> set (ctx_nodes empty_table). \<not> node_covers n address"
  by (simp add: empty_table_def node_covers_def zero_node_def)

text \<open>C25 (roundtrip): after an image is stored in a table with a free slot, an address inside it, covered by no
  other image, is found to be in it.\<close>

theorem stored_image_found:
  assumes "table_ok C" "ctx_initialized C" "ctx_writable C" "store_slot (ctx_nodes C) 0 = Some k"
    and "address \<noteq> 0" "node_covers node address" "\<forall>n \<in> set (ctx_nodes C). \<not> node_covers n address"
  shows "FIRCLSBinaryImageSafeFindImageForAddress (FIRCLSBinaryImageStoreNode C True node) address = Some node"
  using assms store_slot_Some(1) [OF assms(4)] store_node_result [OF assms(1,3), of True node]
  by (intro find_after_store [of C _ k]) simp_all

theorem stored_image_found_witness:
  "FIRCLSBinaryImageSafeFindImageForAddress (FIRCLSBinaryImageStoreNode empty_table True example_node) 0x101150 =
     Some example_node"
proof -
  have c: "node_covers example_node 0x101150"
    by (simp add: node_covers_def example_node_def)
  have i: "ctx_initialized empty_table" "ctx_writable empty_table" by (simp_all add: empty_table_def)
  show ?thesis
    by (rule stored_image_found [OF empty_table_ok i empty_table_slots(1) _ c empty_table_covers]) simp
qed

text \<open>C37 (error): an image that is loaded, unloaded, loaded at the same address and unloaded again is
  still found: the unload does not clear the address of the slot it empties, and the next unload stops at
  that slot.\<close>

theorem unloaded_image_found:
  assumes "table_ok C" "ctx_initialized C" "ctx_writable C"
    and "k < k'" "k' < 512" "store_slot (ctx_nodes C) 0 = Some k" "node_baseAddress (ctx_nodes C ! k') = 0"
    and "\<forall>j. k < j \<longrightarrow> j < k' \<longrightarrow> node_baseAddress (ctx_nodes C ! j) \<noteq> 0"
    and "node_baseAddress node \<noteq> 0" "store_slot (ctx_nodes C) (node_baseAddress node) = None"
    and "address \<noteq> 0" "node_covers node address" "\<forall>n \<in> set (ctx_nodes C). \<not> node_covers n address"
  shows "FIRCLSBinaryImageSafeFindImageForAddress
    (FIRCLSBinaryImageStoreNode (FIRCLSBinaryImageStoreNode
      (FIRCLSBinaryImageStoreNode (FIRCLSBinaryImageStoreNode C True node) False node) True node) False node) address =
    Some node"
proof -
  let ?z = "zero_node\<lparr>node_baseAddress := node_baseAddress node\<rparr>"
  let ?C = "C\<lparr>ctx_nodes := (ctx_nodes C)[k := ?z]\<rparr>"
  note r = reload_unload [OF assms(1,3,4,5,6,7,8,9,10)]
  have "\<forall>n \<in> set ((ctx_nodes C)[k := ?z]). \<not> node_covers n address"
    using assms(13) set_update_subset_insert [of "ctx_nodes C" k ?z] unloaded_covers_nothing by blast
  with assms r show ?thesis
    by (intro find_after_store [of ?C _ k']) (simp_all add: table_ok_def)
qed

theorem unloaded_image_found_witness:
  "FIRCLSBinaryImageSafeFindImageForAddress
    (FIRCLSBinaryImageStoreNode (FIRCLSBinaryImageStoreNode
      (FIRCLSBinaryImageStoreNode (FIRCLSBinaryImageStoreNode empty_table True example_node) False example_node)
      True example_node) False example_node) 0x101150 = Some example_node"
proof -
  have c: "node_covers example_node 0x101150" "node_baseAddress example_node \<noteq> 0"
    by (simp_all add: node_covers_def example_node_def)
  have i: "ctx_initialized empty_table" "ctx_writable empty_table"
    "node_baseAddress (ctx_nodes empty_table ! 1) = 0"
    by (simp_all add: empty_table_def zero_node_def)
  show ?thesis
    using c i empty_table_slots empty_table_covers
    by (intro unloaded_image_found [of _ 0 1] empty_table_ok) simp_all
qed

text \<open>C38 (error): of two threads that store an image at the same time one can lose: the compare-and-swap that
  fails replaces the address the thread searches for, it never matches a free slot again, and its image is
  not stored however many slots are free.\<close>

theorem concurrent_store_lost:
  assumes "length nodes = 512" "4096 \<le> unat a" "unat a + 512 * 40 < 2 ^ 64"
    and "node_baseAddress (nodes ! 0) = 0" "node_baseAddress n1 \<noteq> 0"
    and "\<forall>k<512. node_baseAddress (nodes ! k) \<noteq> node_baseAddress n1"
  shows "fst (store_schedule a lost_store_schedule (nodes, store_begin True n1, store_begin True n2)) = nodes[0 := n1] \<and>
    th_pc (snd (snd (store_schedule a lost_store_schedule (nodes, store_begin True n1, store_begin True n2)))) =
      Store_done False"
  using assms by (rule lost_store)

theorem concurrent_store_lost_witness:
  "fst (store_schedule 0x10000 lost_store_schedule (replicate 512 zero_node, store_begin True example_node,
     store_begin True (example_node\<lparr>node_baseAddress := 0x200000\<rparr>))) = (replicate 512 zero_node)[0 := example_node]"
proof -
  have "node_baseAddress example_node \<noteq> 0" "\<forall>k<512. node_baseAddress ((replicate 512 zero_node) ! k) \<noteq> node_baseAddress example_node"
    by (simp_all add: example_node_def zero_node_def)
  then show ?thesis
    using concurrent_store_lost [of "replicate 512 zero_node" "0x10000" example_node] by (simp add: zero_node_def)
qed

end
