(* ===== verification/ArchUnwind.thy ===== *)
theory ArchUnwind
  imports CompactUnwind BinaryImage
begin

section \<open>Unwinding a frame on x86-64 and arm64 (FIRCLSUnwind_x86.c, FIRCLSUnwind_arm.c)\<close>

text \<open>
  What each architecture does with a compact encoding or a frame pointer: \<open>Unwind/FIRCLSUnwind_x86.c\<close> and
  \<open>Unwind/FIRCLSUnwind_arm.c\<close>, and the stack scan of \<open>Unwind/FIRCLSUnwind.c\<close> they use.  Functions both files
  define carry the architecture as a prefix.  The masks and modes of \<open>mach-o/compact_unwind_encoding.h\<close> are
  the parameters \<open>x86_compact_abi\<close> and \<open>arm64_compact_abi\<close>.
\<close>

subsection \<open>Scanning the stack\<close>

definition FIRCLSUnwindIsAddressExecutable :: "image_context \<Rightarrow> addr \<Rightarrow> bool" where
  "FIRCLSUnwindIsAddressExecutable C address = (FIRCLSBinaryImageSafeFindImageForAddress C address \<noteq> None)"

text \<open>
  The argument of the debug message at the top of the loop reads the stack, whether or not the message is
  written and before the pointer is checked: reading an unmapped address there is undefined.
\<close>

fun first_executable_loop :: "image_context \<Rightarrow> mem \<Rightarrow> nat \<Rightarrow> addr \<Rightarrow> addr \<Rightarrow> (addr \<times> bool) option" where
  "first_executable_loop C m 0 start ending = None"
| "first_executable_loop C m (Suc fuel) start ending = do {
     _ \<leftarrow> (load_le 8 m start :: u64 option);
     let next = (if start + 8 < ending then first_executable_loop C m fuel (start + 8) ending else Some (0, False));
     if FIRCLSIsValidPointer start then
       (case FIRCLSReadMemory_word m start of
          None \<Rightarrow> Some (0, False)
        | Some address \<Rightarrow>
            if FIRCLSUnwindIsAddressExecutable C address then Some (address, True) else next)
     else next }"

text \<open>The address found, 0 before, and whether one was found.\<close>

definition FIRCLSUnwindFirstExecutableAddress :: "image_context \<Rightarrow> mem \<Rightarrow> addr \<Rightarrow> addr \<Rightarrow> (addr \<times> bool) option" where
  "FIRCLSUnwindFirstExecutableAddress C m start ending =
     first_executable_loop C m (unat (ending - start) div 8 + 2) start ending"

subsection \<open>x86-64\<close>

record x86_compact_abi =
  CLS_X86_MODE_MASK :: u32
  CLS_X86_MODE_BP_FRAME :: u32
  CLS_X86_MODE_STACK_IMMD :: u32
  CLS_X86_MODE_STACK_IND :: u32
  CLS_X86_MODE_DWARF :: u32
  CLS_X86_FRAMELESS_STACK_SIZE :: u32
  CLS_X86_FRAMELESS_STACK_ADJUST :: u32
  CLS_X86_FRAMELESS_STACK_REG_COUNT :: u32
  CLS_X86_FRAMELESS_STACK_REG_PERMUTATION :: u32
  CLS_X86_DWARF_SECTION_OFFSET :: u32
  CLS_X86_REG_RBP :: u64

text \<open>The values of Apple's published format, used by the witnesses.\<close>

definition apple_x86_64 :: x86_compact_abi where
  "apple_x86_64 = \<lparr>
     CLS_X86_MODE_MASK = 0x0F000000,
     CLS_X86_MODE_BP_FRAME = 0x01000000,
     CLS_X86_MODE_STACK_IMMD = 0x02000000,
     CLS_X86_MODE_STACK_IND = 0x03000000,
     CLS_X86_MODE_DWARF = 0x04000000,
     CLS_X86_FRAMELESS_STACK_SIZE = 0x00FF0000,
     CLS_X86_FRAMELESS_STACK_ADJUST = 0x0000E000,
     CLS_X86_FRAMELESS_STACK_REG_COUNT = 0x00001C00,
     CLS_X86_FRAMELESS_STACK_REG_PERMUTATION = 0x000003FF,
     CLS_X86_DWARF_SECTION_OFFSET = 0x00FFFFFF,
     CLS_X86_REG_RBP = 6 \<rparr>"

definition builtin_ctz :: "u32 \<Rightarrow> nat" where
  "builtin_ctz w = length (takeWhile (\<lambda>i. \<not> bit w i) [0 ..< 32])"

definition GET_BITS_WITH_MASK :: "u32 \<Rightarrow> u32 \<Rightarrow> u32" where
  "GET_BITS_WITH_MASK v msk = drop_bit (if msk = 0 then 0 else builtin_ctz msk) (v AND msk)"

definition x86_FIRCLSUnwindStackPointerFromFramePointer :: "u64 \<Rightarrow> u64" where
  "x86_FIRCLSUnwindStackPointerFromFramePointer framePtr = framePtr + 2 * 8"

text \<open>Two words read from the stack at once.\<close>

definition read_frame :: "mem \<Rightarrow> addr \<Rightarrow> (u64 \<times> u64) option" where
  "read_frame m fp = map_option (\<lambda>bs. (word_of_le (take 8 bs), word_of_le (drop 8 bs))) (FIRCLSReadMemory m fp 16)"

definition FIRCLSCompactUnwindBPFrame ::
  "mem \<Rightarrow> u32 \<Rightarrow> x86_thread_state64 option \<Rightarrow> x86_thread_state64 option \<times> bool" where
  "FIRCLSCompactUnwindBPFrame m encoding regs =
     (let framePointer = FIRCLSThreadContextGetFramePointer arch_x86_64 regs in
      case read_frame m framePointer of
        None \<Rightarrow> (regs, False)
      | Some (stack0, stack1) \<Rightarrow>
          (let (regs, ok) = FIRCLSThreadContextSetPC arch_x86_64 regs stack1 in
           if \<not> ok then (regs, False)
           else let (regs, ok) = FIRCLSThreadContextSetFramePointer arch_x86_64 regs stack0 in
             if \<not> ok then (regs, False)
             else FIRCLSThreadContextSetStackPointer arch_x86_64 regs
               (x86_FIRCLSUnwindStackPointerFromFramePointer framePointer)))"

definition FIRCLSUnwindWithStackScanning ::
  "image_context \<Rightarrow> mem \<Rightarrow> x86_thread_state64 option \<Rightarrow> (x86_thread_state64 option \<times> bool) option" where
  "FIRCLSUnwindWithStackScanning C m regs = do {
     (newPC, found) \<leftarrow> FIRCLSUnwindFirstExecutableAddress C m
       (FIRCLSThreadContextGetStackPointer arch_x86_64 regs) (FIRCLSThreadContextGetFramePointer arch_x86_64 regs);
     if \<not> found then Some (regs, False)
     else Some (FIRCLSThreadContextSetPC arch_x86_64 regs newPC) }"

definition x86_FIRCLSUnwindWithFramePointer ::
  "x86_compact_abi \<Rightarrow> image_context \<Rightarrow> mem \<Rightarrow> x86_thread_state64 option \<Rightarrow> bool \<Rightarrow>
   (x86_thread_state64 option \<times> bool) option" where
  "x86_FIRCLSUnwindWithFramePointer X C m regs allowScanning = do {
     (regs, ok) \<leftarrow> (if allowScanning then FIRCLSUnwindWithStackScanning C m regs else Some (regs, False));
     if ok then Some (regs, True)
     else Some (FIRCLSCompactUnwindBPFrame m (CLS_X86_MODE_BP_FRAME X) regs) }"

text \<open>The stack size and whether it could be computed.\<close>

definition FIRCLSCompactUnwindComputeStackSize ::
  "x86_compact_abi \<Rightarrow> mem \<Rightarrow> u32 \<Rightarrow> u64 \<Rightarrow> bool \<Rightarrow> u32 \<Rightarrow> u32 \<times> bool" where
  "FIRCLSCompactUnwindComputeStackSize X m encoding functionStart indirect stackSize =
     (let stackSizeEncoded = GET_BITS_WITH_MASK encoding (CLS_X86_FRAMELESS_STACK_SIZE X) in
      if \<not> indirect then (ucast ((ucast stackSizeEncoded :: u64) * 8), True)
      else case FIRCLSReadMemory m (functionStart + ucast stackSizeEncoded) 4 of
        None \<Rightarrow> (stackSize, False)
      | Some bs \<Rightarrow>
          (let sublValue = (word_of_le bs :: u32);
               stackAdjust = GET_BITS_WITH_MASK encoding (CLS_X86_FRAMELESS_STACK_ADJUST X)
           in (ucast ((ucast sublValue :: u64) + ucast stackAdjust * 8), True)))"

text \<open>The digits of a permutation number for a list of divisors; the last digit is what remains.\<close>

fun permutation_digits :: "u32 list \<Rightarrow> u32 \<Rightarrow> u64 list" where
  "permutation_digits [] permutation = [ucast permutation]"
| "permutation_digits (d # ds) permutation =
     (let p = ucast (permutation div d) :: u64
      in p # permutation_digits ds (ucast (ucast permutation - p * ucast d)))"

definition overwrite :: "'a list \<Rightarrow> 'a list \<Rightarrow> 'a list" where
  "overwrite xs ys = ys @ drop (length ys) xs"

definition FIRCLSCompactUnwindDecompressPermutation ::
  "x86_compact_abi \<Rightarrow> u32 \<Rightarrow> u64 list \<Rightarrow> u64 list \<times> bool" where
  "FIRCLSCompactUnwindDecompressPermutation X encoding permutatedRegisters =
     (let regCount = GET_BITS_WITH_MASK encoding (CLS_X86_FRAMELESS_STACK_REG_COUNT X);
          permutation = GET_BITS_WITH_MASK encoding (CLS_X86_FRAMELESS_STACK_REG_PERMUTATION X)
      in if regCount = 6 then (overwrite permutatedRegisters (permutation_digits [120, 24, 6, 2] permutation @ [0]), True)
         else if regCount = 5 then (overwrite permutatedRegisters (permutation_digits [120, 24, 6, 2] permutation), True)
         else if regCount = 4 then (overwrite permutatedRegisters (permutation_digits [60, 12, 3] permutation), True)
         else if regCount = 3 then (overwrite permutatedRegisters (permutation_digits [20, 4] permutation), True)
         else if regCount = 2 then (overwrite permutatedRegisters (permutation_digits [5] permutation), True)
         else if regCount = 1 then (overwrite permutatedRegisters (permutation_digits [] permutation), True)
         else if regCount = 0 then (permutatedRegisters, True)
         else (permutatedRegisters, False))"

text \<open>The inner loop over the register numbers \<open>us\<close>: the first unused one whose rank among the unused is the
  one looked for.\<close>

fun remap_inner :: "bool list \<Rightarrow> nat list \<Rightarrow> u64 \<Rightarrow> u64 \<Rightarrow> nat option" where
  "remap_inner used [] renum p = None"
| "remap_inner used (u # us) renum p =
     (if \<not> used ! u then
        (if renum = p then Some u else remap_inner used us (renum + 1) p)
      else remap_inner used us renum p)"

text \<open>The outer loop, over the positions from \<open>i\<close> on.\<close>

fun remap_loop :: "u64 list \<Rightarrow> nat \<Rightarrow> nat \<Rightarrow> bool list \<Rightarrow> u64 list \<Rightarrow> u64 list" where
  "remap_loop permutated i 0 used saved = saved"
| "remap_loop permutated i (Suc n) used saved =
     (case remap_inner used [1, 2, 3, 4, 5, 6] 0 (permutated ! i) of
        None \<Rightarrow> remap_loop permutated (i + 1) n used saved
      | Some u \<Rightarrow> remap_loop permutated (i + 1) n (used[u := True]) (saved[i := of_nat u]))"

definition FIRCLSCompactUnwindRemapRegisters ::
  "x86_compact_abi \<Rightarrow> u32 \<Rightarrow> u64 list \<Rightarrow> u64 list \<Rightarrow> u64 list \<times> bool" where
  "FIRCLSCompactUnwindRemapRegisters X encoding permutatedRegisters savedRegisters =
     (let regCount = GET_BITS_WITH_MASK encoding (CLS_X86_FRAMELESS_STACK_REG_COUNT X)
      in if 6 < regCount then (savedRegisters, False)
         else (remap_loop permutatedRegisters 0 (unat regCount) (replicate 7 False) savedRegisters, True))"

text \<open>The loop of \<open>FIRCLSCompactUnwindRestoreRegisters\<close>, over the registers still to restore.\<close>

fun restore_loop ::
  "x86_compact_abi \<Rightarrow> mem \<Rightarrow> u64 list \<Rightarrow> addr \<Rightarrow> x86_thread_state64 option \<Rightarrow>
   x86_thread_state64 option \<times> addr \<times> bool" where
  "restore_loop X m [] address regs = (regs, address, True)"
| "restore_loop X m (r # rs) address regs =
     (if r = CLS_X86_REG_RBP X then
        (case FIRCLSReadMemory_word m address of
           None \<Rightarrow> (regs, address, False)
         | Some v \<Rightarrow>
             (let (regs, ok) = FIRCLSThreadContextSetFramePointer arch_x86_64 regs v in
              if \<not> ok then (regs, address, False)
              else restore_loop X m rs (address + 8) regs))
      else restore_loop X m rs (address + 8) regs)"

definition FIRCLSCompactUnwindRestoreRegisters ::
  "x86_compact_abi \<Rightarrow> mem \<Rightarrow> u32 \<Rightarrow> x86_thread_state64 option \<Rightarrow> u32 \<Rightarrow> u64 list \<Rightarrow> addr \<Rightarrow>
   x86_thread_state64 option \<times> addr \<times> bool" where
  "FIRCLSCompactUnwindRestoreRegisters X m encoding regs stackSize savedRegisters address =
     (if regs = None then (regs, address, False)
      else
        let regCount = GET_BITS_WITH_MASK encoding (CLS_X86_FRAMELESS_STACK_REG_COUNT X);
            address = FIRCLSThreadContextGetStackPointer arch_x86_64 regs + ucast stackSize - 8 - 8 * ucast regCount
        in restore_loop X m (take (unat regCount) savedRegisters) address regs)"

definition FIRCLSCompactUnwindFrameless ::
  "x86_compact_abi \<Rightarrow> mem \<Rightarrow> u32 \<Rightarrow> x86_thread_state64 option \<Rightarrow> u64 \<Rightarrow> bool \<Rightarrow>
   x86_thread_state64 option \<times> bool" where
  "FIRCLSCompactUnwindFrameless X m encoding regs functionStart indirect =
     (let (stackSize, ok) = FIRCLSCompactUnwindComputeStackSize X m encoding functionStart indirect 0 in
      if \<not> ok then (regs, False)
      else let (permutatedRegisters, ok) = FIRCLSCompactUnwindDecompressPermutation X encoding (replicate 6 0) in
      if \<not> ok then (regs, False)
      else let (savedRegisters, ok) =
        FIRCLSCompactUnwindRemapRegisters X encoding permutatedRegisters (replicate 6 0) in
      if \<not> ok then (regs, False)
      else let (regs, address, ok) =
        FIRCLSCompactUnwindRestoreRegisters X m encoding regs stackSize savedRegisters 0 in
      if \<not> ok then (regs, False)
      else case FIRCLSReadMemory_word m address of
        None \<Rightarrow> (regs, False)
      | Some v \<Rightarrow>
          if \<not> FIRCLSIsValidPointer v then (regs, False)
          else let (regs, ok) = FIRCLSThreadContextSetPC arch_x86_64 regs v in
            if \<not> ok then (regs, False)
            else FIRCLSThreadContextSetStackPointer arch_x86_64 regs (address + 8))"

definition x86_FIRCLSCompactUnwindComputeRegisters ::
  "x86_compact_abi \<Rightarrow> mem \<Rightarrow> FIRCLSDwarfCFIRecord \<Rightarrow> x86_thread_state64 compute_registers" where
  "x86_FIRCLSCompactUnwindComputeRegisters X m record_init context result regs =
     (if regs = None then Some (regs, False)
      else let encoding = res_encoding result; mode = encoding AND CLS_X86_MODE_MASK X in
        if mode = CLS_X86_MODE_BP_FRAME X then Some (FIRCLSCompactUnwindBPFrame m encoding regs)
        else if mode = CLS_X86_MODE_STACK_IMMD X then
          Some (FIRCLSCompactUnwindFrameless X m encoding regs (res_functionStart result) False)
        else if mode = CLS_X86_MODE_STACK_IND X then
          Some (FIRCLSCompactUnwindFrameless X m encoding regs (res_functionStart result) True)
        else if mode = CLS_X86_MODE_DWARF X then
          FIRCLSCompactUnwindDwarfFrame arch_x86_64 m record_init context
            (ucast (encoding AND CLS_X86_DWARF_SECTION_OFFSET X)) regs
        else Some (regs, False))"


subsection \<open>arm64\<close>

record arm64_compact_abi =
  UNWIND_ARM64_MODE_MASK :: u32
  UNWIND_ARM64_MODE_FRAMELESS :: u32
  UNWIND_ARM64_MODE_DWARF :: u32
  UNWIND_ARM64_MODE_FRAME :: u32
  UNWIND_ARM64_DWARF_SECTION_OFFSET :: u32

definition apple_arm64 :: arm64_compact_abi where
  "apple_arm64 = \<lparr>
     UNWIND_ARM64_MODE_MASK = 0x0F000000,
     UNWIND_ARM64_MODE_FRAMELESS = 0x02000000,
     UNWIND_ARM64_MODE_DWARF = 0x03000000,
     UNWIND_ARM64_MODE_FRAME = 0x04000000,
     UNWIND_ARM64_DWARF_SECTION_OFFSET = 0x00FFFFFF \<rparr>"

definition FIRCLSUnwindWithLRRegister :: "'s arch \<Rightarrow> 's option \<Rightarrow> 's option \<times> bool" where
  "FIRCLSUnwindWithLRRegister A regs =
     (if regs = None then (regs, False)
      else let v = FIRCLSThreadContextGetLinkRegister A regs in
        if \<not> FIRCLSIsValidPointer v then (regs, False)
        else FIRCLSThreadContextSetPC A regs v)"

definition arm64_FIRCLSUnwindStackPointerFromFramePointer :: "u64 \<Rightarrow> u64" where
  "arm64_FIRCLSUnwindStackPointerFromFramePointer framePtr = framePtr + 2 * 8"

definition arm64_FIRCLSUnwindWithFramePointer ::
  "'s arm64_sdk \<Rightarrow> mem \<Rightarrow> 's option \<Rightarrow> bool \<Rightarrow> 's option \<times> bool" where
  "arm64_FIRCLSUnwindWithFramePointer K m regs allowScanning =
     (let A = arch_arm64 K;
          (regs, ok) = (if allowScanning then FIRCLSUnwindWithLRRegister A regs else (regs, False))
      in if ok then (regs, True)
         else let framePointer = FIRCLSThreadContextGetFramePointer A regs in
           case read_frame m framePointer of
             None \<Rightarrow> (regs, False)
           | Some (stack0, stack1) \<Rightarrow>
               (let (regs, ok) = FIRCLSThreadContextSetPC A regs stack1 in
                if \<not> ok then (regs, False)
                else let (regs, ok) = FIRCLSThreadContextSetFramePointer A regs stack0 in
                  if \<not> ok then (regs, False)
                  else FIRCLSThreadContextSetStackPointer A regs
                    (arm64_FIRCLSUnwindStackPointerFromFramePointer framePointer)))"

definition arm64_FIRCLSCompactUnwindComputeRegisters ::
  "'s arm64_sdk \<Rightarrow> arm64_compact_abi \<Rightarrow> mem \<Rightarrow> FIRCLSDwarfCFIRecord \<Rightarrow> 's compute_registers" where
  "arm64_FIRCLSCompactUnwindComputeRegisters K X m record_init context result regs =
     (if regs = None then Some (regs, False)
      else let encoding = res_encoding result; mode = encoding AND UNWIND_ARM64_MODE_MASK X in
        if mode = UNWIND_ARM64_MODE_FRAMELESS X then Some (FIRCLSUnwindWithLRRegister (arch_arm64 K) regs)
        else if mode = UNWIND_ARM64_MODE_DWARF X then
          FIRCLSCompactUnwindDwarfFrame (arch_arm64 K) m record_init context
            (ucast (encoding AND UNWIND_ARM64_DWARF_SECTION_OFFSET X)) regs
        else if mode = UNWIND_ARM64_MODE_FRAME X then Some (arm64_FIRCLSUnwindWithFramePointer K m regs False)
        else Some (regs, False))"

subsection \<open>Permutations\<close>

text \<open>
  How a list of distinct registers from 1 to 6 is numbered: each register by its rank among the ones not
  yet named, and the ranks as the digits of a number.
\<close>

definition unused_registers :: "nat list \<Rightarrow> nat list" where
  "unused_registers seen = filter (\<lambda>u. u \<notin> set seen) [1, 2, 3, 4, 5, 6]"

definition register_rank :: "nat list \<Rightarrow> nat \<Rightarrow> nat" where
  "register_rank seen r = length (takeWhile (\<lambda>u. u \<noteq> r) (unused_registers seen))"

fun register_ranks :: "nat list \<Rightarrow> nat list \<Rightarrow> nat list" where
  "register_ranks seen [] = []"
| "register_ranks seen (r # rs) = register_rank seen r # register_ranks (seen @ [r]) rs"

text \<open>Position \<open>i\<close> has \<open>6 - i\<close> choices; a digit counts for all the choices of the positions behind it.\<close>

fun permutation_number :: "nat \<Rightarrow> nat list \<Rightarrow> nat" where
  "permutation_number i [] = 0"
| "permutation_number i (d # ds) =
     d * prod_list (map (\<lambda>j. 6 - j) [Suc i ..< Suc i + length ds]) + permutation_number (Suc i) ds"

definition register_list :: "nat list \<Rightarrow> bool" where
  "register_list rs \<longleftrightarrow> distinct rs \<and> set rs \<subseteq> set [1, 2, 3, 4, 5, 6]"

lemma length_register_ranks [simp]: "length (register_ranks seen rs) = length rs"
  by (induction rs arbitrary: seen) simp_all

lemma length_unused:
  assumes "register_list seen"
  shows "length (unused_registers seen) = 6 - length seen"
proof -
  have "distinct (unused_registers seen)"
    unfolding unused_registers_def by (rule distinct_filter) simp
  moreover have "set (unused_registers seen) = set [1, 2, 3, 4, 5, 6] - set seen"
    unfolding unused_registers_def by auto
  ultimately have "length (unused_registers seen) = card (set [1, 2, 3, 4, 5, 6] - set seen)"
    by (metis distinct_card)
  also have "\<dots> = 6 - card (set seen)"
    using assms by (subst card_Diff_subset) (simp_all add: register_list_def)
  finally show ?thesis using assms by (simp add: register_list_def distinct_card)
qed

lemma register_list_length: "register_list rs \<Longrightarrow> length rs \<le> 6"
  using card_mono [of "set [1, 2, 3, 4, 5, 6 :: nat]" "set rs"]
  by (simp add: register_list_def distinct_card)

lemma rank_bound:
  assumes "register_list (seen @ [r])"
  shows "register_rank seen r < 6 - length seen" "unused_registers seen ! register_rank seen r = r"
proof -
  have r: "r \<in> set (unused_registers seen)" "register_list seen"
    using assms by (auto simp: register_list_def unused_registers_def)
  have "takeWhile (\<lambda>u. u \<noteq> r) (unused_registers seen) \<noteq> unused_registers seen"
    using r(1) by (simp add: takeWhile_eq_all_conv)
  then have "register_rank seen r < length (unused_registers seen)"
    unfolding register_rank_def by (metis length_takeWhile_le le_neq_implies_less takeWhile_eq_take take_all_iff)
  with r(2) show "register_rank seen r < 6 - length seen" by (simp add: length_unused)
  show "unused_registers seen ! register_rank seen r = r"
    using \<open>register_rank seen r < length (unused_registers seen)\<close> unfolding register_rank_def
    by (metis (mono_tags, lifting) nth_length_takeWhile)
qed

text \<open>The first digit is below \<open>n\<close>, the next below \<open>n - 1\<close>, and so on.\<close>

fun ranks_ok :: "nat \<Rightarrow> nat list \<Rightarrow> bool" where
  "ranks_ok n [] \<longleftrightarrow> True"
| "ranks_ok n (d # ds) \<longleftrightarrow> d < n \<and> ranks_ok (n - 1) ds"

lemma ranks_okE:
  assumes "ranks_ok n ds"
  obtains "ds = []" | d xs where "ds = d # xs" "d < n" "ranks_ok (n - 1) xs"
  using assms by (cases ds) auto

lemma ranks_ok_0: "ranks_ok 0 ds \<longleftrightarrow> ds = []"
  by (cases ds) auto

lemmas ranks_ok_elims =
  ranks_okE [where n = 6, simplified] ranks_okE [where n = 5, simplified] ranks_okE [where n = 4, simplified]
  ranks_okE [where n = 3, simplified] ranks_okE [where n = 2, simplified] ranks_okE [where n = 1, simplified]

lemma ranks_bound: "register_list (seen @ rs) \<Longrightarrow> ranks_ok (6 - length seen) (register_ranks seen rs)"
proof (induction rs arbitrary: seen)
  case (Cons r rs)
  have "register_list (seen @ [r])" using Cons.prems by (auto simp: register_list_def)
  with rank_bound(1) Cons.IH [of "seen @ [r]"] Cons.prems show ?case by simp
qed simp

subsection \<open>The number is taken apart\<close>

lemma permutation_digits_step:
  assumes "r < d" "d < 2 ^ 32" "unat p = a * d + r"
  shows "permutation_digits (of_nat d # ds) p = of_nat a # permutation_digits ds (of_nat r)"
proof -
  have "unat p < 2 ^ LENGTH(32)" by (rule unsigned_less)
  with assms(3) have p: "a * d + r < 2 ^ 32" by simp
  have ud: "unat (of_nat d :: u32) = d" using assms(2) by (simp add: unat_of_nat)
  have q: "unat (p div of_nat d) = a" using assms(1) by (simp add: unat_div ud assms(3))
  have w: "(ucast (p div of_nat d) :: u64) = of_nat a" by (metis q of_nat_unat)
  have d64: "(ucast (of_nat d :: u32) :: u64) = of_nat d" by (metis ud of_nat_unat)
  have p64: "(ucast p :: u64) = of_nat (a * d + r)" by (metis assms(3) of_nat_unat)
  have "(ucast p :: u64) - of_nat a * of_nat d = of_nat r" by (simp add: p64)
  moreover have "(ucast (of_nat r :: u64) :: u32) = of_nat r"
    by (simp add: word_unat_eq_iff unsigned_ucast_eq unsigned_of_nat)
  ultimately show ?thesis by (simp add: Let_def w d64)
qed


lemma permutation_digits_of_nat:
  "r < d \<Longrightarrow> d < 2 ^ 32 \<Longrightarrow> a * d + r < 2 ^ 32 \<Longrightarrow>
   permutation_digits (of_nat d # ds) (of_nat (a * d + r)) = of_nat a # permutation_digits ds (of_nat r)"
  by (rule permutation_digits_step) (simp_all add: unat_of_nat del: of_nat_add of_nat_mult)

lemma permutation_digits_last: "r < 2 ^ 32 \<Longrightarrow> permutation_digits [] (of_nat r) = [of_nat r]"
  by (simp add: word_unat_eq_iff unsigned_ucast_eq unsigned_of_nat take_bit_nat_eq_self)

lemmas digit_simps =
  permutation_digits_of_nat [where d = 120, unfolded of_nat_numeral] permutation_digits_of_nat [where d = 24, unfolded of_nat_numeral]
  permutation_digits_of_nat [where d = 6, unfolded of_nat_numeral] permutation_digits_of_nat [where d = 2, unfolded of_nat_numeral]
  permutation_digits_of_nat [where d = 60, unfolded of_nat_numeral] permutation_digits_of_nat [where d = 12, unfolded of_nat_numeral]
  permutation_digits_of_nat [where d = 3, unfolded of_nat_numeral] permutation_digits_of_nat [where d = 20, unfolded of_nat_numeral]
  permutation_digits_of_nat [where d = 4, unfolded of_nat_numeral] permutation_digits_of_nat [where d = 5, unfolded of_nat_numeral]
  permutation_digits_last

text \<open>The digits of a list of ranks, for every number of registers.\<close>

definition decompressed :: "nat \<Rightarrow> u32 \<Rightarrow> u64 list" where
  "decompressed n p =
     (if n = 6 then permutation_digits [120, 24, 6, 2] p @ [0]
      else if n = 5 then permutation_digits [120, 24, 6, 2] p
      else if n = 4 then permutation_digits [60, 12, 3] p
      else if n = 3 then permutation_digits [20, 4] p
      else if n = 2 then permutation_digits [5] p
      else if n = 1 then permutation_digits [] p
      else [])"

lemma decompressed_ranks:
  assumes "ranks_ok 6 ds"
  shows "decompressed (length ds) (of_nat (permutation_number 0 ds)) = map of_nat ds"
proof -
  note digits = decompressed_def digit_simps upt_rec
  consider "ds = []" | a where "ds = [a]" "a < 6"
    | a b where "ds = [a, b]" "a < 6" "b < 5"
    | a b c where "ds = [a, b, c]" "a < 6" "b < 5" "c < 4"
    | a b c d where "ds = [a, b, c, d]" "a < 6" "b < 5" "c < 4" "d < 3"
    | a b c d e where "ds = [a, b, c, d, e]" "a < 6" "b < 5" "c < 4" "d < 3" "e < 2"
    | a b c d e where "ds = [a, b, c, d, e, 0]" "a < 6" "b < 5" "c < 4" "d < 3" "e < 2"
    using assms by (elim ranks_ok_elims; simp add: ranks_ok_0)
  then show ?thesis
    by cases (simp_all add: digits del: of_nat_add of_nat_mult permutation_digits.simps)
qed


lemma decompress_ranks:
  assumes "register_list rs"
    and "GET_BITS_WITH_MASK encoding (CLS_X86_FRAMELESS_STACK_REG_COUNT X) = of_nat (length rs)"
    and "GET_BITS_WITH_MASK encoding (CLS_X86_FRAMELESS_STACK_REG_PERMUTATION X) =
      of_nat (permutation_number 0 (register_ranks [] rs))"
  shows "FIRCLSCompactUnwindDecompressPermutation X encoding (replicate 6 0) =
    (map of_nat (register_ranks [] rs) @ replicate (6 - length rs) 0, True)"
proof -
  let ?ds = "register_ranks [] rs"
  have len: "length rs \<le> 6" by (rule register_list_length [OF assms(1)])
  then have n: "unat (of_nat (length rs) :: u32) = length rs" by (simp add: unat_of_nat)
  then have num: "(of_nat (length rs) :: u32) = numeral k \<longleftrightarrow> length rs = unat (numeral k :: u32)" for k
    by (metis of_nat_unat word_unat_eq_iff)
  have one: "(of_nat (length rs) :: u32) = 1 \<longleftrightarrow> length rs = 1" "(of_nat (length rs) :: u32) = 0 \<longleftrightarrow> length rs = 0"
    using n by (auto simp: word_unat_eq_iff)
  have "ranks_ok 6 ?ds" using ranks_bound [of "[]" rs] assms(1) by simp
  from decompressed_ranks [OF this]
  have d: "decompressed (length rs) (of_nat (permutation_number 0 ?ds)) = map of_nat ?ds" by simp
  have c: "FIRCLSCompactUnwindDecompressPermutation X encoding (replicate 6 0) =
      (overwrite (replicate 6 0) (decompressed (length rs) (of_nat (permutation_number 0 ?ds))), True)"
    using len
    by (simp add: FIRCLSCompactUnwindDecompressPermutation_def Let_def assms(2,3) decompressed_def num one
        overwrite_def cong: if_cong) (auto simp: le_Suc_eq eval_nat_numeral)
  show ?thesis unfolding c d by (simp add: overwrite_def)
qed

subsection \<open>The ranks are put back into registers\<close>

lemma remap_inner_nth:
  assumes "k < 64"
  shows "remap_inner used us renum (renum + of_nat k) =
    (let xs = filter (\<lambda>u. \<not> used ! u) us in if k < length xs then Some (xs ! k) else None)"
  using assms
proof (induction us arbitrary: renum k)
  case (Cons u us)
  show ?case
  proof (cases "used ! u")
    case False
    show ?thesis
    proof (cases k)
      case (Suc j)
      have "(of_nat (Suc j) :: u64) \<noteq> 0"
        using Suc Cons.prems by (simp add: word_unat_eq_iff unat_of_nat del: of_nat_Suc)
      then have "renum \<noteq> renum + of_nat k" using Suc by simp
      moreover have "renum + of_nat k = (renum + 1) + of_nat j" using Suc by simp
      ultimately show ?thesis
        using False Suc Cons.prems Cons.IH [of j "renum + 1"] by (simp add: Let_def add.assoc)
    qed (use False in simp)
  qed (use Cons in \<open>simp add: Let_def\<close>)
qed (simp add: Let_def)

lemma remap_loop_ranks:
  assumes "register_list (seen @ rs)" "length used = 7"
    and "\<forall>u \<in> set [1, 2, 3, 4, 5, 6]. used ! u \<longleftrightarrow> u \<in> set seen"
    and "\<forall>j < length rs. permutated ! (i + j) = of_nat (register_ranks seen rs ! j)"
    and "i + length rs \<le> length saved"
  shows "remap_loop permutated i (length rs) used saved =
    take i saved @ map of_nat rs @ drop (i + length rs) saved"
  using assms
proof (induction rs arbitrary: i used saved seen)
  case (Cons r rs)
  have r: "register_list (seen @ [r])" using Cons.prems(1) by (auto simp: register_list_def)
  note rank = rank_bound [OF r]
  have "register_list seen" using r by (simp add: register_list_def)
  then have lu: "register_rank seen r < length (unused_registers seen)"
    using rank(1) by (simp add: length_unused)
  have u: "filter (\<lambda>u. \<not> used ! u) [1, 2, 3, 4, 5, 6] = unused_registers seen"
    unfolding unused_registers_def using Cons.prems(3) by (intro filter_cong) auto
  have p: "permutated ! i = of_nat (register_rank seen r)"
    using Cons.prems(4) [rule_format, of 0] by simp
  have "register_rank seen r < 64" using rank(1) by simp
  from remap_inner_nth [OF this, of used "[1, 2, 3, 4, 5, 6]" 0]
  have "remap_inner used [1, 2, 3, 4, 5, 6] 0 (0 + of_nat (register_rank seen r)) = Some r"
    by (simp only: u Let_def lu if_True rank(2))
  then have "remap_inner used [1, 2, 3, 4, 5, 6] 0 (permutated ! i) = Some r" by (simp only: p add_0)
  moreover have "remap_loop permutated (i + 1) (length rs) (used[r := True]) (saved[i := of_nat r]) =
      take (i + 1) (saved[i := of_nat r]) @ map of_nat rs @ drop (i + 1 + length rs) (saved[i := of_nat r])"
  proof (rule Cons.IH)
    show "register_list ((seen @ [r]) @ rs)" using Cons.prems(1) by simp
    show "\<forall>u \<in> set [1, 2, 3, 4, 5, 6]. used[r := True] ! u \<longleftrightarrow> u \<in> set (seen @ [r])"
    proof
      fix u :: nat assume u: "u \<in> set [1, 2, 3, 4, 5, 6]"
      have "r \<in> set [1, 2, 3, 4, 5, 6]" using r unfolding register_list_def by (metis in_set_conv_decomp subsetD)
      then have "r < length used" using Cons.prems(2) by auto
      with Cons.prems(3) u show "used[r := True] ! u \<longleftrightarrow> u \<in> set (seen @ [r])"
        by (cases "u = r") (simp_all only: nth_list_update_eq nth_list_update_neq set_append Un_iff, auto)
    qed
    show "\<forall>j < length rs. permutated ! (i + 1 + j) = of_nat (register_ranks (seen @ [r]) rs ! j)"
    proof (intro allI impI)
      fix j assume "j < length rs"
      then show "permutated ! (i + 1 + j) = of_nat (register_ranks (seen @ [r]) rs ! j)"
        using Cons.prems(4) [rule_format, of "Suc j"] by simp
    qed
  qed (use Cons.prems in simp_all)
  ultimately show ?case
    using Cons.prems(5) by (simp add: take_Suc_conv_app_nth)
qed simp

lemma remap_ranks:
  assumes "register_list rs"
    and "GET_BITS_WITH_MASK encoding (CLS_X86_FRAMELESS_STACK_REG_COUNT X) = of_nat (length rs)"
  shows "FIRCLSCompactUnwindRemapRegisters X encoding
      (map of_nat (register_ranks [] rs) @ replicate (6 - length rs) 0) (replicate 6 0) =
    (map of_nat rs @ replicate (6 - length rs) 0, True)"
proof -
  have len: "length rs \<le> 6" by (rule register_list_length [OF assms(1)])
  then have n: "unat (of_nat (length rs) :: u32) = length rs" by (simp add: unat_of_nat)
  then have "\<not> 6 < (of_nat (length rs) :: u32)" using len by (simp add: word_less_nat_alt)
  moreover have "remap_loop (map of_nat (register_ranks [] rs) @ replicate (6 - length rs) 0) 0 (length rs)
      (replicate 7 False) (replicate 6 0) = take 0 (replicate 6 0) @ map of_nat rs @ drop (0 + length rs) (replicate 6 0)"
    using assms(1) len
    by (intro remap_loop_ranks [where seen = "[]"]) (auto simp: nth_append nth_Cons' eval_nat_numeral)
  ultimately show ?thesis
    by (simp add: FIRCLSCompactUnwindRemapRegisters_def Let_def assms(2) n)
qed


subsection \<open>Frames without a frame pointer\<close>

lemma restore_loop_skip:
  "CLS_X86_REG_RBP X \<notin> set rs \<Longrightarrow>
   restore_loop X m rs a regs = (regs, a + 8 * of_nat (length rs), True)"
  by (induction rs arbitrary: a) (auto simp: algebra_simps)

lemma restore_loop_rbp:
  assumes "i < length rs" "rs ! i = CLS_X86_REG_RBP X" "distinct rs"
    and "FIRCLSReadMemory_word m (a + 8 * of_nat i) = Some v"
  shows "restore_loop X m rs a (Some r) = (Some (r\<lparr>ss_rbp := v\<rparr>), a + 8 * of_nat (length rs), True)"
  using assms
proof (induction rs arbitrary: a i)
  case (Cons q rs)
  show ?case
  proof (cases i)
    case 0
    with Cons.prems have "q = CLS_X86_REG_RBP X" "CLS_X86_REG_RBP X \<notin> set rs" by simp_all
    with 0 Cons.prems(4) show ?thesis
      by (simp add: restore_loop_skip thread_context_defs arch_x86_64_def algebra_simps)
  next
    case (Suc j)
    with Cons.prems nth_mem [of j rs] have "q \<noteq> CLS_X86_REG_RBP X" by auto
    moreover have "restore_loop X m rs (a + 8) (Some r) =
        (Some (r\<lparr>ss_rbp := v\<rparr>), a + 8 + 8 * of_nat (length rs), True)"
      using Cons.prems Suc by (intro Cons.IH [of j]) (simp_all add: algebra_simps)
    ultimately show ?thesis by (simp add: algebra_simps)
  qed
qed simp

lemma frameless_correct:
  assumes rs: "register_list rs"
    and bits: "GET_BITS_WITH_MASK encoding (CLS_X86_FRAMELESS_STACK_REG_COUNT X) = of_nat (length rs)"
      "GET_BITS_WITH_MASK encoding (CLS_X86_FRAMELESS_STACK_REG_PERMUTATION X) =
        of_nat (permutation_number 0 (register_ranks [] rs))"
    and rbp: "CLS_X86_REG_RBP X = of_nat rbp" "rbp \<le> 6"
    and size: "FIRCLSCompactUnwindComputeStackSize X m encoding functionStart indirect 0 = (stackSize, True)"
    and pc: "FIRCLSReadMemory_word m (ss_rsp r + ucast stackSize - 8) = Some pc" "FIRCLSIsValidPointer pc"
    and slot: "\<forall>i < length rs. rs ! i = rbp \<longrightarrow>
      FIRCLSReadMemory_word m (ss_rsp r + ucast stackSize - 8 - 8 * of_nat (length rs) + 8 * of_nat i) = Some fp"
  shows "FIRCLSCompactUnwindFrameless X m encoding (Some r) functionStart indirect =
    (Some (r\<lparr>ss_rbp := (if rbp \<in> set rs then fp else ss_rbp r), ss_rip := pc,
       ss_rsp := ss_rsp r + ucast stackSize\<rparr>), True)"
proof -
  let ?a = "ss_rsp r + ucast stackSize - 8 - 8 * of_nat (length rs)"
  let ?r = "r\<lparr>ss_rbp := (if rbp \<in> set rs then fp else ss_rbp r)\<rparr>"
  have len: "length rs \<le> 6" by (rule register_list_length [OF rs])
  then have n: "unat (of_nat (length rs) :: u32) = length rs" by (simp add: unat_of_nat)
  have n64: "(ucast (of_nat (length rs) :: u32) :: u64) = of_nat (length rs)" by (metis n of_nat_unat)
  have small: "u \<le> 6" if "u \<in> set rs" for u using rs that by (auto simp: register_list_def)
  have inj: "(of_nat u :: u64) = of_nat w \<longleftrightarrow> u = w" if "u \<le> 6" "w \<le> 6" for u w
    using that by (simp add: word_unat_eq_iff unat_of_nat)
  have dist: "distinct (map of_nat rs :: u64 list)"
  proof -
    have "inj_on (of_nat :: nat \<Rightarrow> u64) (set rs)"
      by (rule inj_onI) (use small inj in blast)
    then show ?thesis using rs by (simp add: distinct_map register_list_def)
  qed
  have restore: "restore_loop X m (map of_nat rs) ?a (Some r) = (Some ?r, ?a + 8 * of_nat (length rs), True)"
  proof (cases "rbp \<in> set rs")
    case True
    then obtain i where i: "i < length rs" "rs ! i = rbp" by (metis in_set_conv_nth)
    then have "restore_loop X m (map of_nat rs) ?a (Some r) =
        (Some (r\<lparr>ss_rbp := fp\<rparr>), ?a + 8 * of_nat (length (map of_nat rs :: u64 list)), True)"
      using rbp(1) dist slot by (intro restore_loop_rbp [where i = i]) simp_all
    with True show ?thesis by simp
  next
    case False
    then have "CLS_X86_REG_RBP X \<notin> set (map of_nat rs)" using inj small rbp by auto
    with False show ?thesis by (simp add: restore_loop_skip)
  qed
  have "FIRCLSCompactUnwindRestoreRegisters X m encoding (Some r) stackSize
      (map of_nat rs @ replicate (6 - length rs) 0) 0 = (Some ?r, ss_rsp r + ucast stackSize - 8, True)"
    using restore
    by (simp add: FIRCLSCompactUnwindRestoreRegisters_def Let_def bits(1) n n64 thread_context_defs arch_x86_64_def)
  then show ?thesis
    using pc
    by (simp add: FIRCLSCompactUnwindFrameless_def Let_def size decompress_ranks [OF rs bits] remap_ranks [OF rs bits(1)]
        thread_context_defs arch_x86_64_def)
qed

subsection \<open>The stack scan\<close>

text \<open>The words the scan looks at: every eighth byte from the start on, up to the end but at least one.\<close>

definition stack_words :: "mem \<Rightarrow> addr \<Rightarrow> addr \<Rightarrow> u64 list \<Rightarrow> bool" where
  "stack_words m start ending ws \<longleftrightarrow> ws \<noteq> [] \<and>
     unat start + 8 * length ws < 2 ^ 64 \<and>
     (\<forall>i < length ws. load_le 8 m (start + 8 * of_nat i) = Some (ws ! i)) \<and>
     (\<forall>i. Suc i < length ws \<longrightarrow> unat start + 8 * Suc i < unat ending) \<and>
     unat ending \<le> unat start + 8 * length ws"

lemma first_executable_loop_finds:
  assumes "4096 \<le> unat start" "stack_words m start ending ws" "length ws \<le> fuel"
  shows "first_executable_loop C m fuel start ending =
    Some (case find (FIRCLSUnwindIsAddressExecutable C) ws of None \<Rightarrow> (0, False) | Some a \<Rightarrow> (a, True))"
  using assms
proof (induction ws arbitrary: start fuel)
  case Nil
  then show ?case by (simp add: stack_words_def)
next
  case (Cons w ws)
  note p = Cons.prems(2) [unfolded stack_words_def]
  obtain f where f: "fuel = Suc f" using Cons.prems(3) by (cases fuel) auto
  have v: "FIRCLSIsValidPointer start" using Cons.prems(1) by (simp add: FIRCLSIsValidPointer_def word_le_nat_alt)
  have l: "load_le 8 m start = Some w" using p by force
  then have rd: "FIRCLSReadMemory_word m start = Some w"
    using v by (simp add: FIRCLSReadMemory_word_def FIRCLSReadMemory_def load_le_def)
  have u: "unat (start + 8) = unat start + 8" using p by (simp add: unat_word_ariths)
  have rest: "(if start + 8 < ending then first_executable_loop C m f (start + 8) ending else Some (0, False)) =
      Some (case find (FIRCLSUnwindIsAddressExecutable C) ws of None \<Rightarrow> (0, False) | Some a \<Rightarrow> (a, True))"
  proof (cases ws)
    case Nil
    then have "\<not> start + 8 < ending" using p u by (simp add: word_less_nat_alt)
    with Nil show ?thesis by simp
  next
    case (Cons w' ws')
    then have less: "start + 8 < ending" using p u by (auto simp: word_less_nat_alt)
    have "stack_words m (start + 8) ending ws"
      unfolding stack_words_def
    proof (intro conjI allI impI)
      show "load_le 8 m (start + 8 + 8 * of_nat i) = Some (ws ! i)" if "i < length ws" for i
        using p that by (auto simp: algebra_simps dest!: spec [of _ "Suc i"])
      show "unat (start + 8) + 8 * Suc i < unat ending" if "Suc i < length ws" for i
        using p that u by (auto dest!: spec [of _ "Suc i"])
    qed (use p u Cons in auto)
    with Cons.IH [of "start + 8" f] Cons.prems u f less show ?thesis by simp
  qed
  show ?case using l v rd rest by (simp add: f Let_def)
qed


lemma stack_words_count:
  assumes "stack_words m start ending ws"
  shows "length ws \<le> unat (ending - start) div 8 + 2"
proof (cases "length ws = 1")
  case False
  with assms obtain k where k: "length ws = Suc (Suc k)"
    unfolding stack_words_def by (cases ws; cases "tl ws") auto
  with assms have "unat start + 8 * Suc k < unat ending" by (auto simp: stack_words_def)
  then have "8 * Suc k < unat (ending - start)" by (simp add: unat_sub_if')
  with k show ?thesis by simp
qed simp

subsection \<open>Frames with a frame pointer\<close>

lemma arm64_frame_step:
  assumes "arm64_sdk_laws K" "read_frame m (CLS_PTRAUTH_STRIP (arm_thread_state64_get_fp K r)) = Some (prev, ret)"
  shows "arm64_FIRCLSUnwindWithFramePointer K m (Some r) False =
    (Some (arm_thread_state64_set_sp K (arm_thread_state64_set_fp K (arm_thread_state64_set_pc_fptr K r ret) prev)
      (CLS_PTRAUTH_STRIP (arm_thread_state64_get_fp K r) + 16)), True)"
  using assms
  by (simp add: arm64_FIRCLSUnwindWithFramePointer_def Let_def thread_context_defs arch_arm64_def
      arm64_FIRCLSUnwindStackPointerFromFramePointer_def)

subsection \<open>Properties\<close>

text \<open>C8 (functional): a compact encoding of a frame without a frame pointer names the saved registers by a
  permutation number.  For the number of any list of distinct registers, the unwinder decodes that list,
  takes the return address from the top of the frame and the saved frame pointer from its slot, moves the
  stack pointer behind the frame and leaves the other registers alone.\<close>

theorem frameless_unwinds:
  assumes "register_list rs"
    and "GET_BITS_WITH_MASK encoding (CLS_X86_FRAMELESS_STACK_REG_COUNT X) = of_nat (length rs)"
    and "GET_BITS_WITH_MASK encoding (CLS_X86_FRAMELESS_STACK_REG_PERMUTATION X) =
      of_nat (permutation_number 0 (register_ranks [] rs))"
    and "CLS_X86_REG_RBP X = of_nat rbp" "rbp \<le> 6"
    and "FIRCLSCompactUnwindComputeStackSize X m encoding functionStart indirect 0 = (stackSize, True)"
    and "FIRCLSReadMemory_word m (ss_rsp r + ucast stackSize - 8) = Some pc" "FIRCLSIsValidPointer pc"
    and "\<forall>i < length rs. rs ! i = rbp \<longrightarrow>
      FIRCLSReadMemory_word m (ss_rsp r + ucast stackSize - 8 - 8 * of_nat (length rs) + 8 * of_nat i) = Some fp"
  shows "FIRCLSCompactUnwindFrameless X m encoding (Some r) functionStart indirect =
    (Some (r\<lparr>ss_rbp := (if rbp \<in> set rs then fp else ss_rbp r), ss_rip := pc,
       ss_rsp := ss_rsp r + ucast stackSize\<rparr>), True)"
  using assms by (rule frameless_correct)

text \<open>A frame of 32 bytes with \<open>rbx\<close> (1) and \<open>rbp\<close> (6) saved below the return address.\<close>

definition frameless_context :: x86_thread_state64 where
  "frameless_context = \<lparr> ss_rax = 0, ss_rdx = 0, ss_rcx = 0, ss_rbx = 0, ss_rsi = 0, ss_rdi = 0, ss_rbp = 0,
     ss_rsp = 0x10000, ss_r8 = 0, ss_r9 = 0, ss_r10 = 0, ss_r11 = 0, ss_r12 = 0, ss_r13 = 0, ss_r14 = 0, ss_r15 = 0,
     ss_rip = 0x101050 \<rparr>"

definition frameless_stack :: mem where
  "frameless_stack = bytes_at 0x10000 (concat (map (le_of_word 8) [0, 0x77, 0x7000, 0x102000 :: u64]))"

theorem frameless_unwinds_witness:
  "FIRCLSCompactUnwindFrameless apple_x86_64 frameless_stack 0x02040804 (Some frameless_context) 0 False =
     (Some (frameless_context\<lparr>ss_rbp := 0x7000, ss_rip := 0x102000, ss_rsp := 0x10020\<rparr>), True)"
proof -
  have rs: "register_list [1, 6]" by (simp add: register_list_def)
  have bits: "GET_BITS_WITH_MASK 0x02040804 (CLS_X86_FRAMELESS_STACK_REG_COUNT apple_x86_64) = of_nat (length [1, 6 :: nat])"
    "GET_BITS_WITH_MASK 0x02040804 (CLS_X86_FRAMELESS_STACK_REG_PERMUTATION apple_x86_64) =
      of_nat (permutation_number 0 (register_ranks [] [1, 6]))"
    by code_simp+
  have rbp: "CLS_X86_REG_RBP apple_x86_64 = of_nat 6" by (simp add: apple_x86_64_def)
  have size: "FIRCLSCompactUnwindComputeStackSize apple_x86_64 frameless_stack 0x02040804 0 False 0 = (32, True)"
    by code_simp
  have "FIRCLSReadMemory_word frameless_stack 0x10018 = Some 0x102000"
    "FIRCLSReadMemory_word frameless_stack 0x10010 = Some 0x7000"
    by code_simp+
  then show ?thesis
    using frameless_unwinds [OF rs bits rbp _ size, of frameless_context "0x102000" "0x7000"]
    by (simp add: frameless_context_def FIRCLSIsValidPointer_def less_Suc_eq)
qed

text \<open>C24 (roundtrip): the permutation number of a list of up to six distinct registers is decoded to that
  list.\<close>

theorem permutation_roundtrip:
  assumes "register_list rs"
    and "GET_BITS_WITH_MASK encoding (CLS_X86_FRAMELESS_STACK_REG_COUNT X) = of_nat (length rs)"
    and "GET_BITS_WITH_MASK encoding (CLS_X86_FRAMELESS_STACK_REG_PERMUTATION X) =
      of_nat (permutation_number 0 (register_ranks [] rs))"
  shows "FIRCLSCompactUnwindRemapRegisters X encoding
      (fst (FIRCLSCompactUnwindDecompressPermutation X encoding (replicate 6 0))) (replicate 6 0) =
    (map of_nat rs @ replicate (6 - length rs) 0, True)"
  using decompress_ranks [OF assms] remap_ranks [OF assms(1,2)] by simp

theorem permutation_roundtrip_witness:
  "FIRCLSCompactUnwindRemapRegisters apple_x86_64 0x02000C21
      (fst (FIRCLSCompactUnwindDecompressPermutation apple_x86_64 0x02000C21 (replicate 6 0))) (replicate 6 0) =
    ([2, 5, 3, 0, 0, 0], True)"
proof -
  have rs: "register_list [2, 5, 3]" by (simp add: register_list_def)
  have bits: "GET_BITS_WITH_MASK 0x02000C21 (CLS_X86_FRAMELESS_STACK_REG_COUNT apple_x86_64) = of_nat (length [2, 5, 3 :: nat])"
    "GET_BITS_WITH_MASK 0x02000C21 (CLS_X86_FRAMELESS_STACK_REG_PERMUTATION apple_x86_64) =
      of_nat (permutation_number 0 (register_ranks [] [2, 5, 3]))"
    by code_simp+
  show ?thesis
    using permutation_roundtrip [OF rs bits] by (simp add: eval_nat_numeral)
qed

text \<open>C33 (functional): on a readable stack the scan returns the first word that is an address in a loaded
  image, or fails when there is none, and it ends.\<close>

theorem scan_finds_first:
  assumes "4096 \<le> unat start" "stack_words m start ending ws"
  shows "FIRCLSUnwindFirstExecutableAddress C m start ending =
    Some (case find (FIRCLSUnwindIsAddressExecutable C) ws of None \<Rightarrow> (0, False) | Some a \<Rightarrow> (a, True))"
  using first_executable_loop_finds [OF assms stack_words_count [OF assms(2)]]
  by (simp add: FIRCLSUnwindFirstExecutableAddress_def)

theorem scan_finds_first_witness:
  "FIRCLSUnwindFirstExecutableAddress
     (FIRCLSBinaryImageStoreNode empty_table True example_node) frameless_stack 0x10000 0x10020 = Some (0x102000, True)"
proof -
  let ?C = "FIRCLSBinaryImageStoreNode empty_table True example_node"
  have w: "stack_words frameless_stack 0x10000 0x10020 [0, 0x77, 0x7000, 0x102000]"
  proof -
    have "load_le 8 frameless_stack 0x10000 = Some (0 :: u64)" "load_le 8 frameless_stack 0x10008 = Some (0x77 :: u64)"
      "load_le 8 frameless_stack 0x10010 = Some (0x7000 :: u64)" "load_le 8 frameless_stack 0x10018 = Some (0x102000 :: u64)"
      by code_simp+
    then show ?thesis by (simp add: stack_words_def less_Suc_eq)
  qed
  have n: "ctx_nodes ?C = (replicate 512 zero_node)[0 := example_node]"
    using store_node_result(1) [OF empty_table_ok, of True example_node] empty_table_slots(1)
    by (simp add: empty_table_def)
  have e: "FIRCLSUnwindIsAddressExecutable ?C a = (\<exists>n \<in> set (ctx_nodes ?C). node_covers n a)" if "a \<noteq> 0" for a
    using that find_image_find [OF store_keeps_table_ok [OF empty_table_ok], of True example_node a]
      store_node_result(3) [OF empty_table_ok, of True example_node]
    by (simp add: FIRCLSUnwindIsAddressExecutable_def find_None_iff empty_table_def Bex_def)
  have "set (ctx_nodes ?C) = {example_node, zero_node}"
    unfolding n by (simp add: replicate_Suc [of 511, simplified])
  with e have e': "FIRCLSUnwindIsAddressExecutable ?C a = (node_covers example_node a \<or> node_covers zero_node a)"
    if "a \<noteq> 0" for a using that by simp
  have c: "\<not> node_covers zero_node a" for a
    using unloaded_covers_nothing [of 0 a] by (simp add: zero_node_def)
  have "\<not> FIRCLSUnwindIsAddressExecutable ?C 0"
    by (simp add: FIRCLSUnwindIsAddressExecutable_def FIRCLSBinaryImageSafeFindImageForAddress_def)
  moreover have "\<not> FIRCLSUnwindIsAddressExecutable ?C 0x77" "\<not> FIRCLSUnwindIsAddressExecutable ?C 0x7000"
    by (subst e'; simp add: c; simp add: node_covers_def example_node_def)+
  moreover have "FIRCLSUnwindIsAddressExecutable ?C 0x102000"
    by (subst e') (simp_all add: c node_covers_def example_node_def)
  ultimately show ?thesis
    by (simp add: scan_finds_first [OF _ w])
qed

text \<open>The scan does not survive an unreadable stack: the debug message reads the word before the
  code checks that it can be read, so where the check would make the scan fail the behaviour is already
  undefined.\<close>

theorem scan_unreadable:
  assumes "\<not> mapped m start 8"
  shows "FIRCLSUnwindFirstExecutableAddress C m start ending = None"
proof -
  have "(load_le 8 m start :: u64 option) = None" using assms by (simp add: load_le_None_iff)
  then show ?thesis by (simp add: FIRCLSUnwindFirstExecutableAddress_def)
qed

theorem scan_unreadable_witness:
  "FIRCLSUnwindFirstExecutableAddress
     \<lparr> ctx_initialized = False, ctx_writable = False, ctx_nodes_at = 0, ctx_nodes = [] \<rparr> frameless_stack 0x20000 0x20020 = None"
proof -
  have "frameless_stack 0x20000 = None" by (simp add: frameless_stack_def bytes_at_def)
  then have "\<not> mapped frameless_stack 0x20000 8" by (auto simp: mapped_def intro!: exI [of _ 0])
  then show ?thesis by (rule scan_unreadable)
qed

text \<open>On arm64 a frame record at the frame pointer is undone: the program counter becomes the
  saved return address, the frame pointer the saved one, without pointer authentication bits, and the stack
  pointer the address behind the record.\<close>

theorem arm64_frame_pointer:
  assumes "arm64_sdk_laws K" "read_frame m (CLS_PTRAUTH_STRIP (arm_thread_state64_get_fp K r)) = Some (prev, ret)"
  shows "\<exists>r'. arm64_FIRCLSUnwindWithFramePointer K m (Some r) False = (Some r', True) \<and>
    FIRCLSThreadContextGetPC (arch_arm64 K) (Some r') = CLS_PTRAUTH_STRIP ret \<and>
    FIRCLSThreadContextGetFramePointer (arch_arm64 K) (Some r') = CLS_PTRAUTH_STRIP prev \<and>
    FIRCLSThreadContextGetStackPointer (arch_arm64 K) (Some r') =
      CLS_PTRAUTH_STRIP (CLS_PTRAUTH_STRIP (arm_thread_state64_get_fp K r) + 16)"
  using assms(1) arm64_frame_step [OF assms]
  by (simp add: arm64_sdk_laws_def thread_context_defs arch_arm64_def)

theorem arm64_frame_pointer_witness:
  "\<exists>r'. arm64_FIRCLSUnwindWithFramePointer plain_sdk frameless_stack
      (Some \<lparr> ss_x = (\<lambda>_. 0), ss_fp = 0x10010, ss_lr = 0, ss_sp = 0x10000, ss_pc = 0x101050 \<rparr>) False = (Some r', True) \<and>
    FIRCLSThreadContextGetPC (arch_arm64 plain_sdk) (Some r') = 0x102000"
proof -
  have f: "read_frame frameless_stack (CLS_PTRAUTH_STRIP (arm_thread_state64_get_fp plain_sdk
      \<lparr> ss_x = (\<lambda>_. 0), ss_fp = 0x10010, ss_lr = 0, ss_sp = 0x10000, ss_pc = 0x101050 \<rparr>)) = Some (0x7000, 0x102000)"
    by code_simp
  have "CLS_PTRAUTH_STRIP 0x102000 = 0x102000" by (simp add: CLS_PTRAUTH_STRIP_def)
  with arm64_frame_pointer [OF plain_sdk_laws f] show ?thesis by auto
qed

end
