(* ===== verification/Unwind.thy ===== *)
theory Unwind
  imports ArchUnwind
begin

section \<open>Walking a stack (FIRCLSUnwind.c)\<close>

text \<open>
  \<open>Unwind/FIRCLSUnwind.c\<close>: the context of one walk and the step to the next frame, by compact unwind
  information where the image has it and by the frame pointer otherwise, and the loop of
  \<open>FIRCLSProcessRecordThread\<close> (\<open>Components/FIRCLSProcess.c\<close>) that writes a thread's stack trace.

  The file is compiled for one architecture; the record \<open>unwind_env\<close> names what it uses of it and of its
  surroundings: register access, the two functions of \<open>FIRCLSUnwind_x86.c\<close> or \<open>FIRCLSUnwind_arm.c\<close>, the
  limit on the number of frames, the table of images and the memory of the process.  \<open>x86_64_env\<close> and
  \<open>arm64_env\<close> are its two values.  The callers pass the address of a local unwind context, a valid pointer.
\<close>

record 'r unwind_env =
  env_arch :: "'r arch"
  env_abi :: compact_abi
  env_images :: image_context
  env_mem :: mem
  env_max_frames :: u32
  env_compute :: "'r compute_registers"
  env_frame_pointer :: "'r option \<Rightarrow> bool \<Rightarrow> ('r option \<times> bool) option"

definition FIRCLSUnwindMaxFrames :: "bool \<Rightarrow> u32" where
  "FIRCLSUnwindMaxFrames target_os_embedded = (if target_os_embedded then 100000 else 600000)"

definition FIRCLSUnwindInfiniteRecursionCountThreshold :: u32 where
  "FIRCLSUnwindInfiniteRecursionCountThreshold = 10"

definition x86_64_env ::
  "bool \<Rightarrow> compact_abi \<Rightarrow> x86_compact_abi \<Rightarrow> FIRCLSDwarfCFIRecord \<Rightarrow> image_context \<Rightarrow> mem \<Rightarrow>
   x86_thread_state64 unwind_env" where
  "x86_64_env embedded K X record_init C m = \<lparr>
     env_arch = arch_x86_64, env_abi = K, env_images = C, env_mem = m,
     env_max_frames = FIRCLSUnwindMaxFrames embedded,
     env_compute = x86_FIRCLSCompactUnwindComputeRegisters X m record_init,
     env_frame_pointer = x86_FIRCLSUnwindWithFramePointer X C m \<rparr>"

definition arm64_env ::
  "bool \<Rightarrow> 's arm64_sdk \<Rightarrow> compact_abi \<Rightarrow> arm64_compact_abi \<Rightarrow> FIRCLSDwarfCFIRecord \<Rightarrow> image_context \<Rightarrow> mem \<Rightarrow>
   's unwind_env" where
  "arm64_env embedded S K X record_init C m = \<lparr>
     env_arch = arch_arm64 S, env_abi = K, env_images = C, env_mem = m,
     env_max_frames = FIRCLSUnwindMaxFrames embedded,
     env_compute = arm64_FIRCLSCompactUnwindComputeRegisters S X m record_init,
     env_frame_pointer = (\<lambda>regs scan. Some (arm64_FIRCLSUnwindWithFramePointer S m regs scan)) \<rparr>"

subsection \<open>The context\<close>

record 'r FIRCLSUnwindContext =
  uw_registers :: 'r
  uw_frameCount :: u32
  uw_compactUnwindState :: FIRCLSCompactUnwindContext
  uw_lastFramePC :: u64
  uw_repeatCount :: u32

definition FIRCLSUnwindInit :: "'r \<Rightarrow> 'r FIRCLSUnwindContext" where
  "FIRCLSUnwindInit threadContext =
     \<lparr> uw_registers = threadContext, uw_frameCount = 0, uw_compactUnwindState = zero_compact_context,
       uw_lastFramePC = 0, uw_repeatCount = 0 \<rparr>"

text \<open>Storing the registers a function returned through the pointer to them.\<close>

definition store_registers :: "'r FIRCLSUnwindContext \<Rightarrow> 'r option \<Rightarrow> 'r FIRCLSUnwindContext" where
  "store_registers context regs =
     (case regs of None \<Rightarrow> context | Some r \<Rightarrow> context\<lparr>uw_registers := r\<rparr>)"

definition FIRCLSUnwindGetPC :: "'r unwind_env \<Rightarrow> 'r FIRCLSUnwindContext \<Rightarrow> u64" where
  "FIRCLSUnwindGetPC E context = FIRCLSThreadContextGetPC (env_arch E) (Some (uw_registers context))"

definition FIRCLSUnwindGetStackPointer :: "'r unwind_env \<Rightarrow> 'r FIRCLSUnwindContext \<Rightarrow> u64" where
  "FIRCLSUnwindGetStackPointer E context =
     FIRCLSThreadContextGetStackPointer (env_arch E) (Some (uw_registers context))"

definition FIRCLSUnwindGetFramePointer :: "'r unwind_env \<Rightarrow> 'r FIRCLSUnwindContext \<Rightarrow> u64" where
  "FIRCLSUnwindGetFramePointer E context =
     FIRCLSThreadContextGetFramePointer (env_arch E) (Some (uw_registers context))"

definition FIRCLSUnwindGetFrameRepeatCount :: "'r FIRCLSUnwindContext \<Rightarrow> u32" where
  "FIRCLSUnwindGetFrameRepeatCount context = uw_repeatCount context"

definition FIRCLSUnwindContextHasValidPCAndSP :: "'r unwind_env \<Rightarrow> 'r FIRCLSUnwindContext \<Rightarrow> bool" where
  "FIRCLSUnwindContextHasValidPCAndSP E context \<longleftrightarrow>
     FIRCLSIsValidPointer (FIRCLSUnwindGetPC E context) \<and> FIRCLSIsValidPointer (FIRCLSUnwindGetStackPointer E context)"

subsection \<open>One frame\<close>

definition FIRCLSUnwindWithCompactUnwindInfo ::
  "'r unwind_env \<Rightarrow> 'r FIRCLSUnwindContext \<Rightarrow> ('r FIRCLSUnwindContext \<times> bool) option" where
  "FIRCLSUnwindWithCompactUnwindInfo E context =
     (let pc = FIRCLSUnwindGetPC E context in
      case FIRCLSBinaryImageSafeFindImageForAddress (env_images E) pc of
        None \<Rightarrow> Some (context, False)
      | Some node \<Rightarrow>
          if \<not> FIRCLSBinaryImageSafeHasUnwindInfo node then Some (context, False)
          else
            let (state, ok) = FIRCLSCompactUnwindInit (env_abi E) (env_mem E) True (uw_compactUnwindState context)
                  (node_unwindInfo node) (node_ehFrame node) (node_baseAddress node);
                context = context\<lparr>uw_compactUnwindState := state\<rparr>
            in if \<not> ok then Some (context, False)
               else do {
                 (state, regs, ok) \<leftarrow> FIRCLSCompactUnwindLookupAndCompute (env_arch E) (env_abi E) (env_compute E)
                   (env_mem E) state (Some (uw_registers context));
                 Some (store_registers (context\<lparr>uw_compactUnwindState := state\<rparr>) regs, ok) })"

definition FIRCLSUnwindNextFrameUsingAllStrategies ::
  "'r unwind_env \<Rightarrow> 'r FIRCLSUnwindContext \<Rightarrow> ('r FIRCLSUnwindContext \<times> bool) option" where
  "FIRCLSUnwindNextFrameUsingAllStrategies E context =
     (if env_max_frames E \<le> uw_frameCount context then Some (context, False)
      else
        let pc = FIRCLSUnwindGetPC E context;
            (pc, context, ok) =
              (if 0 < uw_frameCount context then
                 (let (regs, ok) = FIRCLSThreadContextSetPC (env_arch E) (Some (uw_registers context)) (pc - 1)
                  in (pc - 1, store_registers context regs, ok))
               else (pc, context, True))
        in if \<not> ok then Some (context, False)
           else if \<not> FIRCLSIsValidPointer pc then Some (context, False)
           else if uw_frameCount context = 0 then Some (context, True)
           else do {
             (context, ok) \<leftarrow> FIRCLSUnwindWithCompactUnwindInfo E context;
             if ok then Some (context, True)
             else if FIRCLSUnwindGetFramePointer E context = 0 then
               (let (regs, ok) = FIRCLSThreadContextSetPC (env_arch E) (Some (uw_registers context)) 0
                in Some (store_registers context regs, ok))
             else do {
               (regs, ok) \<leftarrow> env_frame_pointer E (Some (uw_registers context)) (uw_frameCount context = 1);
               Some (store_registers context regs, ok) } })"

definition FIRCLSUnwindNextFrame ::
  "'r unwind_env \<Rightarrow> 'r FIRCLSUnwindContext \<Rightarrow> ('r FIRCLSUnwindContext \<times> bool) option" where
  "FIRCLSUnwindNextFrame E context =
     (if \<not> FIRCLSUnwindContextHasValidPCAndSP E context then Some (context, False)
      else do {
        (context, ok) \<leftarrow> FIRCLSUnwindNextFrameUsingAllStrategies E context;
        if \<not> ok then Some (context, False)
        else
          let pc = FIRCLSUnwindGetPC E context; sp = FIRCLSUnwindGetStackPointer E context
          in if \<not> FIRCLSIsValidPointer pc then Some (context, False)
             else if \<not> FIRCLSIsValidPointer sp then Some (context, False)
             else
               let context = (if uw_lastFramePC context = pc
                 then context\<lparr>uw_repeatCount := uw_repeatCount context + 1\<rparr>
                 else context\<lparr>uw_repeatCount := 0\<rparr>)
               in Some (context\<lparr>uw_frameCount := uw_frameCount context + 1, uw_lastFramePC := pc\<rparr>, True) })"

subsection \<open>The stack trace of a thread\<close>

text \<open>
  The loop of \<open>FIRCLSProcessRecordThread\<close>: the program counters written, oldest first, the repeated program
  counter and how often it repeats.  The level of the log, which it also changes, is left out.
\<close>

record stacktrace =
  tr_pcs :: "u64 list"
  tr_repeatedPC :: u64
  tr_repeatedPCCount :: u32

definition record_frame :: "u64 \<Rightarrow> u32 \<Rightarrow> stacktrace \<Rightarrow> stacktrace" where
  "record_frame pc frameCount tr =
     (if tr_repeatedPC tr = pc \<and> tr_repeatedPC tr \<noteq> 0 then tr\<lparr>tr_repeatedPCCount := frameCount\<rparr>
      else if FIRCLSUnwindInfiniteRecursionCountThreshold \<le> frameCount \<and> tr_repeatedPC tr = 0 then
        tr\<lparr>tr_repeatedPC := pc\<rparr>
      else tr\<lparr>tr_pcs := tr_pcs tr @ [pc]\<rparr>)"

fun stacktrace_loop ::
  "'r unwind_env \<Rightarrow> nat \<Rightarrow> 'r FIRCLSUnwindContext \<Rightarrow> stacktrace \<Rightarrow> stacktrace option" where
  "stacktrace_loop E 0 context tr = None"
| "stacktrace_loop E (Suc fuel) context tr = do {
     (context, ok) \<leftarrow> FIRCLSUnwindNextFrame E context;
     if \<not> ok then Some tr
     else stacktrace_loop E fuel context
       (record_frame (FIRCLSUnwindGetPC E context) (FIRCLSUnwindGetFrameRepeatCount context) tr) }"

definition record_stacktrace :: "'r unwind_env \<Rightarrow> 'r \<Rightarrow> stacktrace option" where
  "record_stacktrace E threadContext =
     stacktrace_loop E (unat (env_max_frames E) + 1) (FIRCLSUnwindInit threadContext)
       \<lparr> tr_pcs = [], tr_repeatedPC = 0, tr_repeatedPCCount = 0 \<rparr>"


subsection \<open>What a step changes\<close>

text \<open>The counters of a context, which only \<open>FIRCLSUnwindNextFrame\<close> changes.\<close>

definition counters :: "'r FIRCLSUnwindContext \<Rightarrow> u32 \<times> u64 \<times> u32" where
  "counters context = (uw_frameCount context, uw_lastFramePC context, uw_repeatCount context)"

lemma counters_updates [simp]:
  "counters (store_registers context regs) = counters context"
  "counters (context\<lparr>uw_registers := r\<rparr>) = counters context"
  "counters (context\<lparr>uw_compactUnwindState := s\<rparr>) = counters context"
  by (simp_all add: counters_def store_registers_def split: option.split)

lemma compact_keeps_counters:
  "FIRCLSUnwindWithCompactUnwindInfo E context = Some (context', ok) \<Longrightarrow> counters context' = counters context"
  by (auto simp: FIRCLSUnwindWithCompactUnwindInfo_def Let_def bind_Some_iff split_beta
      split: option.splits if_splits)

lemma strategies_keep_counters:
  assumes "FIRCLSUnwindNextFrameUsingAllStrategies E context = Some (context', ok)"
  shows "counters context' = counters context"
  using assms
  by (auto simp: FIRCLSUnwindNextFrameUsingAllStrategies_def Let_def bind_Some_iff split_beta
      dest!: compact_keeps_counters split: if_splits)

lemma strategies_bound:
  "FIRCLSUnwindNextFrameUsingAllStrategies E context = Some (context', True) \<Longrightarrow>
   uw_frameCount context < env_max_frames E"
  by (auto simp: FIRCLSUnwindNextFrameUsingAllStrategies_def not_le split: if_splits)

lemma next_frame_result:
  assumes "FIRCLSUnwindNextFrame E context = Some (context', True)"
  shows "uw_frameCount context < env_max_frames E \<and> uw_frameCount context' = uw_frameCount context + 1 \<and>
    uw_lastFramePC context' = FIRCLSUnwindGetPC E context' \<and>
    uw_repeatCount context' =
      (if uw_lastFramePC context = FIRCLSUnwindGetPC E context' then uw_repeatCount context + 1 else 0) \<and>
    FIRCLSUnwindContextHasValidPCAndSP E context'"
proof -
  from assms obtain c where c: "FIRCLSUnwindNextFrameUsingAllStrategies E context = Some (c, True)"
    and pc: "FIRCLSIsValidPointer (FIRCLSUnwindGetPC E c)" "FIRCLSIsValidPointer (FIRCLSUnwindGetStackPointer E c)"
    and c': "context' = (if uw_lastFramePC c = FIRCLSUnwindGetPC E c
        then c\<lparr>uw_repeatCount := uw_repeatCount c + 1\<rparr> else c\<lparr>uw_repeatCount := 0\<rparr>)
      \<lparr>uw_frameCount := uw_frameCount c + 1, uw_lastFramePC := FIRCLSUnwindGetPC E c\<rparr>"
    by (auto simp: FIRCLSUnwindNextFrame_def Let_def bind_Some_iff split: if_splits)
  show ?thesis
    using strategies_bound [OF c] strategies_keep_counters [OF c] pc unfolding c'
    by (simp add: counters_def FIRCLSUnwindGetPC_def FIRCLSUnwindGetStackPointer_def
        FIRCLSUnwindContextHasValidPCAndSP_def)
qed

subsection \<open>The loop ends\<close>

text \<open>\<open>trace_stuck\<close>: after steps that succeed, the walk is at a context whose step has no result.  This is the only way
  in which the trace has none: the frame count limits the steps.\<close>

inductive trace_stuck :: "'r unwind_env \<Rightarrow> 'r FIRCLSUnwindContext \<Rightarrow> bool" for E where
  undefined_frame: "FIRCLSUnwindNextFrame E context = None \<Longrightarrow> trace_stuck E context"
| later_frame: "FIRCLSUnwindNextFrame E context = Some (context', True) \<Longrightarrow> trace_stuck E context' \<Longrightarrow>
     trace_stuck E context"

inductive_simps trace_stuck_unfold: "trace_stuck E context"

lemma next_frame_left:
  assumes "FIRCLSUnwindNextFrame E context = Some (c, True)"
  shows "unat (env_max_frames E) - unat (uw_frameCount context) = Suc (unat (env_max_frames E) - unat (uw_frameCount c))"
proof -
  from next_frame_result [OF assms] have lt: "unat (uw_frameCount context) < unat (env_max_frames E)"
    and suc: "uw_frameCount c = uw_frameCount context + 1"
    by (simp_all add: word_less_nat_alt)
  have "unat (env_max_frames E) < 2 ^ LENGTH(32)" by (rule unsigned_less)
  then have "unat (uw_frameCount c) = Suc (unat (uw_frameCount context))"
    using lt by (simp add: suc unat_word_ariths)
  with lt show ?thesis by simp
qed

lemma stacktrace_loop_result:
  assumes "unat (env_max_frames E) - unat (uw_frameCount context) < fuel"
  shows "stacktrace_loop E fuel context tr = None \<longleftrightarrow> trace_stuck E context"
  using assms
proof (induction fuel arbitrary: "context" tr)
  case (Suc fuel)
  consider "FIRCLSUnwindNextFrame E context = None"
    | c where "FIRCLSUnwindNextFrame E context = Some (c, False)"
    | c where "FIRCLSUnwindNextFrame E context = Some (c, True)"
    by (cases "FIRCLSUnwindNextFrame E context") auto
  then show ?case
  proof cases
    case (3 c)
    then show ?thesis using Suc.IH [of c] Suc.prems next_frame_left [OF 3]
      by (subst trace_stuck_unfold) simp
  qed (subst trace_stuck_unfold, simp)+
qed simp

lemma stacktrace_loop_length:
  "stacktrace_loop E fuel context tr = Some tr' \<Longrightarrow>
   length (tr_pcs tr') \<le> length (tr_pcs tr) + (unat (env_max_frames E) - unat (uw_frameCount context))"
proof (induction fuel arbitrary: "context" tr)
  case (Suc fuel)
  from Suc.prems obtain c ok where c: "FIRCLSUnwindNextFrame E context = Some (c, ok)"
    by (auto simp: bind_Some_iff)
  let ?tr = "record_frame (FIRCLSUnwindGetPC E c) (FIRCLSUnwindGetFrameRepeatCount c) tr"
  have "length (tr_pcs ?tr) \<le> Suc (length (tr_pcs tr))" by (simp add: record_frame_def)
  then show ?case
    using Suc.IH [of c ?tr] Suc.prems c next_frame_left [of E "context" c] by (cases ok) auto
qed simp

subsection \<open>A chain of frame records\<close>

text \<open>
  A stack of frame records on arm64, seen from the frame pointer: each record holds the previous frame
  pointer and a return address, and the chain ends with the frame pointer 0.  Addresses carry no pointer
  authentication bits and return addresses are valid pointers even after the decrement the unwinder looks
  them up with.
\<close>

definition plain_address :: "addr \<Rightarrow> bool" where
  "plain_address a \<longleftrightarrow> a \<le> 0x0000000FFFFFFFFF"

definition code_address :: "addr \<Rightarrow> bool" where
  "code_address a \<longleftrightarrow> plain_address a \<and> 4097 \<le> a"

fun frame_chain :: "mem \<Rightarrow> addr \<Rightarrow> u64 list \<Rightarrow> bool" where
  "frame_chain m fp [] \<longleftrightarrow> fp = 0"
| "frame_chain m fp (ret # rets) \<longleftrightarrow>
     (case read_frame m fp of
        None \<Rightarrow> False
      | Some (prev, ret') \<Rightarrow> ret' = ret \<and> code_address ret \<and> plain_address prev \<and> plain_address (fp + 16) \<and>
          4096 \<le> fp + 16 \<and> fp \<noteq> 0 \<and> frame_chain m prev rets)"

lemma strip_plain: "plain_address a \<Longrightarrow> CLS_PTRAUTH_STRIP a = a"
proof -
  assume "plain_address a"
  then have "unat a < 2 ^ 36" by (simp add: plain_address_def word_le_nat_alt)
  then have "take_bit 36 a = a" by (simp add: word_unat_eq_iff unsigned_take_bit_eq take_bit_nat_eq_self)
  moreover have "(0x0000000FFFFFFFFF :: u64) = mask 36" by (simp add: mask_eq_exp_minus_1)
  ultimately show ?thesis by (simp add: CLS_PTRAUTH_STRIP_def take_bit_eq_mask)
qed

definition no_images :: "image_context \<Rightarrow> bool" where
  "no_images C \<longleftrightarrow> (\<forall>a. FIRCLSBinaryImageSafeFindImageForAddress C a = None)"

lemma code_address_decrement:
  assumes "code_address a"
  shows "CLS_PTRAUTH_STRIP (a - 1) = a - 1" "FIRCLSIsValidPointer (a - 1)"
proof -
  have u: "unat (a - 1) = unat a - 1" using assms by (auto simp: code_address_def unat_sub_if' word_le_nat_alt)
  moreover have "unat a \<le> 68719476735" using assms by (simp add: code_address_def plain_address_def word_le_nat_alt)
  ultimately have "unat (a - 1) \<le> 68719476735" by linarith
  then have "plain_address (a - 1)" by (simp add: plain_address_def word_le_nat_alt)
  then show "CLS_PTRAUTH_STRIP (a - 1) = a - 1" by (rule strip_plain)
  have "4097 \<le> unat a" using assms by (simp add: code_address_def word_le_nat_alt)
  with u have "4096 \<le> unat (a - 1)" by linarith
  then show "FIRCLSIsValidPointer (a - 1)" by (simp add: FIRCLSIsValidPointer_def word_le_nat_alt)
qed

text \<open>A context in the middle of the walk: past the first two frames, at a program counter it has recorded.\<close>

definition walking :: "'s arm64_sdk \<Rightarrow> 's FIRCLSUnwindContext \<Rightarrow> u64 \<Rightarrow> addr \<Rightarrow> bool" where
  "walking S context pc fp \<longleftrightarrow>
     CLS_PTRAUTH_STRIP (arm_thread_state64_get_pc S (uw_registers context)) = pc \<and> code_address pc \<and>
     CLS_PTRAUTH_STRIP (arm_thread_state64_get_fp S (uw_registers context)) = fp \<and>
     4096 \<le> CLS_PTRAUTH_STRIP (arm_thread_state64_get_sp S (uw_registers context)) \<and>
     uw_lastFramePC context = pc \<and> uw_repeatCount context = 0"

lemma arm64_env_simps [simp]:
  "env_arch (arm64_env embedded S K X i C m) = arch_arm64 S"
  "env_images (arm64_env embedded S K X i C m) = C"
  "env_max_frames (arm64_env embedded S K X i C m) = FIRCLSUnwindMaxFrames embedded"
  "env_frame_pointer (arm64_env embedded S K X i C m) regs scan =
     Some (arm64_FIRCLSUnwindWithFramePointer S m regs scan)"
  by (simp_all add: arm64_env_def)

lemma no_compact:
  "no_images (env_images E) \<Longrightarrow> FIRCLSUnwindWithCompactUnwindInfo E context = Some (context, False)"
  by (simp add: FIRCLSUnwindWithCompactUnwindInfo_def no_images_def Let_def)

lemma arm64_step:
  assumes "arm64_sdk_laws S" "no_images C" "walking S context pc fp"
    and "1 < uw_frameCount context" "uw_frameCount context < FIRCLSUnwindMaxFrames embedded"
    and "frame_chain m fp (ret # rets)" "ret \<noteq> pc"
  shows "\<exists>c prev. FIRCLSUnwindNextFrame (arm64_env embedded S K X i C m) context = Some (c, True) \<and>
    FIRCLSUnwindGetPC (arm64_env embedded S K X i C m) c = ret \<and> walking S c ret prev \<and>
    frame_chain m prev rets \<and> uw_frameCount c = uw_frameCount context + 1"
proof -
  let ?E = "arm64_env embedded S K X i C m"
  from assms(6) obtain prev where rf: "read_frame m fp = Some (prev, ret)"
    and ret: "code_address ret" and prev: "plain_address prev" and fp: "plain_address (fp + 16)" "4096 \<le> fp + 16" "fp \<noteq> 0"
    and chain: "frame_chain m prev rets"
    by (auto split: option.splits prod.splits)
  note w = assms(3) [unfolded walking_def]
  let ?r = "arm_thread_state64_set_pc_fptr S (uw_registers context) (pc - 1)"
  let ?r' = "arm_thread_state64_set_sp S (arm_thread_state64_set_fp S (arm_thread_state64_set_pc_fptr S ?r ret) prev) (fp + 16)"
  have laws: "arm_thread_state64_get_pc S ?r = pc - 1"
    "arm_thread_state64_get_fp S ?r = arm_thread_state64_get_fp S (uw_registers context)"
    "arm_thread_state64_get_pc S ?r' = ret" "arm_thread_state64_get_fp S ?r' = prev"
    "arm_thread_state64_get_sp S ?r' = fp + 16"
    using assms(1) by (simp_all add: arm64_sdk_laws_def)
  have step: "arm64_FIRCLSUnwindWithFramePointer S m (Some ?r) False = (Some ?r', True)"
    using arm64_frame_step [OF assms(1), of m ?r prev ret] laws(2) w rf by simp
  have pc: "CLS_PTRAUTH_STRIP (pc - 1) = pc - 1" "FIRCLSIsValidPointer (pc - 1)" "FIRCLSIsValidPointer pc"
    using code_address_decrement [of pc] w
    by (simp_all add: FIRCLSIsValidPointer_def) (simp add: code_address_def word_le_nat_alt)
  have "0 < uw_frameCount context" "uw_frameCount context \<noteq> 1" "\<not> FIRCLSUnwindMaxFrames embedded \<le> uw_frameCount context"
    using assms(4,5) by (auto simp: word_less_nat_alt word_le_nat_alt)
  then have strategies: "FIRCLSUnwindNextFrameUsingAllStrategies ?E context =
      Some (context\<lparr>uw_registers := ?r'\<rparr>, True)"
    using w pc laws step fp(3) no_compact [of ?E] assms(2)
    by (simp add: FIRCLSUnwindNextFrameUsingAllStrategies_def Let_def FIRCLSUnwindGetPC_def
        FIRCLSUnwindGetFramePointer_def thread_context_defs arch_arm64_def store_registers_def)
  have strip: "CLS_PTRAUTH_STRIP ret = ret" "CLS_PTRAUTH_STRIP prev = prev" "CLS_PTRAUTH_STRIP (fp + 16) = fp + 16"
    "FIRCLSIsValidPointer ret"
    using ret prev fp by (simp_all add: code_address_def strip_plain FIRCLSIsValidPointer_def word_le_nat_alt)
  let ?c = "context\<lparr>uw_registers := ?r', uw_repeatCount := 0, uw_frameCount := uw_frameCount context + 1,
    uw_lastFramePC := ret\<rparr>"
  have "FIRCLSUnwindNextFrame ?E context = Some (?c, True)"
    using w pc strategies laws strip fp(2) assms(7)
    by (simp add: FIRCLSUnwindNextFrame_def Let_def FIRCLSUnwindContextHasValidPCAndSP_def FIRCLSUnwindGetPC_def
        FIRCLSUnwindGetStackPointer_def thread_context_defs arch_arm64_def FIRCLSIsValidPointer_def)
  moreover have "walking S ?c ret prev" using laws strip ret fp(2) by (simp add: walking_def)
  moreover have "FIRCLSUnwindGetPC ?E ?c = ret"
    using laws strip by (simp add: FIRCLSUnwindGetPC_def thread_context_defs arch_arm64_def)
  moreover have "uw_frameCount ?c = uw_frameCount context + 1" by simp
  ultimately show ?thesis using chain by blast
qed


lemma arm64_last_step:
  assumes "arm64_sdk_laws S" "no_images C" "walking S context pc 0" "1 < uw_frameCount context"
  shows "\<exists>c. FIRCLSUnwindNextFrame (arm64_env embedded S K X i C m) context = Some (c, False)"
proof -
  let ?E = "arm64_env embedded S K X i C m"
  let ?r = "arm_thread_state64_set_pc_fptr S (uw_registers context) (pc - 1)"
  note w = assms(3) [unfolded walking_def]
  have laws: "arm_thread_state64_get_pc S (arm_thread_state64_set_pc_fptr S r v) = v"
    "arm_thread_state64_get_fp S (arm_thread_state64_set_pc_fptr S r v) = arm_thread_state64_get_fp S r" for r v
    using assms(1) by (simp_all add: arm64_sdk_laws_def)
  have pc: "CLS_PTRAUTH_STRIP (pc - 1) = pc - 1" "FIRCLSIsValidPointer (pc - 1)" "FIRCLSIsValidPointer pc"
    using code_address_decrement [of pc] w
    by (simp_all add: FIRCLSIsValidPointer_def) (simp add: code_address_def word_le_nat_alt)
  have "0 < uw_frameCount context" "uw_frameCount context \<noteq> 0" using assms(4) by (auto simp: word_less_nat_alt)
  then have "FIRCLSUnwindNextFrameUsingAllStrategies ?E context =
      Some (if FIRCLSUnwindMaxFrames embedded \<le> uw_frameCount context then (context, False)
        else (context\<lparr>uw_registers := arm_thread_state64_set_pc_fptr S ?r 0\<rparr>, True))"
    using w pc laws no_compact [of ?E] assms(2)
    by (simp add: FIRCLSUnwindNextFrameUsingAllStrategies_def Let_def FIRCLSUnwindGetPC_def
        FIRCLSUnwindGetFramePointer_def thread_context_defs arch_arm64_def store_registers_def)
  then show ?thesis
    using w pc laws
    by (cases "FIRCLSUnwindMaxFrames embedded \<le> uw_frameCount context")
      (simp_all add: FIRCLSUnwindNextFrame_def Let_def FIRCLSUnwindContextHasValidPCAndSP_def
        FIRCLSUnwindGetPC_def FIRCLSUnwindGetStackPointer_def thread_context_defs arch_arm64_def
        FIRCLSIsValidPointer_def CLS_PTRAUTH_STRIP_def)
qed

lemma record_new_frame:
  "tr_repeatedPC tr = 0 \<Longrightarrow> record_frame pc 0 tr = tr\<lparr>tr_pcs := tr_pcs tr @ [pc]\<rparr>"
  by (simp add: record_frame_def FIRCLSUnwindInfiniteRecursionCountThreshold_def)

lemma arm64_chain_loop:
  assumes "arm64_sdk_laws S" "no_images C"
  shows "walking S context pc fp \<Longrightarrow> 1 < uw_frameCount context \<Longrightarrow> frame_chain m fp rets \<Longrightarrow>
    distinct_adj (pc # rets) \<Longrightarrow> unat (uw_frameCount context) + length rets < unat (FIRCLSUnwindMaxFrames embedded) \<Longrightarrow>
    tr_repeatedPC tr = 0 \<Longrightarrow> length rets < fuel \<Longrightarrow>
    stacktrace_loop (arm64_env embedded S K X i C m) fuel context tr = Some (tr\<lparr>tr_pcs := tr_pcs tr @ rets\<rparr>)"
proof (induction rets arbitrary: "context" pc fp tr fuel)
  case Nil
  obtain f where f: "fuel = Suc f" using Nil.prems(7) by (cases fuel) auto
  from Nil.prems have "walking S context pc 0" by simp
  from arm64_last_step [OF assms this Nil.prems(2), of embedded K X i m]
  obtain c where "FIRCLSUnwindNextFrame (arm64_env embedded S K X i C m) context = Some (c, False)" by blast
  with f show ?case by simp
next
  case (Cons ret rets)
  obtain f where f: "fuel = Suc f" using Cons.prems(7) by (cases fuel) auto
  have bound: "uw_frameCount context < FIRCLSUnwindMaxFrames embedded"
    using Cons.prems(5) by (simp add: word_less_nat_alt)
  have ne: "ret \<noteq> pc" using Cons.prems(4) by auto
  obtain c prev where c: "FIRCLSUnwindNextFrame (arm64_env embedded S K X i C m) context = Some (c, True)"
    "FIRCLSUnwindGetPC (arm64_env embedded S K X i C m) c = ret" "walking S c ret prev"
    "frame_chain m prev rets" "uw_frameCount c = uw_frameCount context + 1"
    using arm64_step [OF assms Cons.prems(1,2) bound Cons.prems(3) ne] by blast
  have "unat (FIRCLSUnwindMaxFrames embedded) < 2 ^ LENGTH(32)" by (rule unsigned_less)
  then have u: "unat (uw_frameCount c) = Suc (unat (uw_frameCount context))"
    using Cons.prems(5) by (simp add: c(5) unat_word_ariths)
  let ?tr = "tr\<lparr>tr_pcs := tr_pcs tr @ [ret]\<rparr>"
  have "stacktrace_loop (arm64_env embedded S K X i C m) f c ?tr = Some (?tr\<lparr>tr_pcs := tr_pcs ?tr @ rets\<rparr>)"
    using Cons.prems u f by (intro Cons.IH [OF c(3) _ c(4)]) (auto simp: word_less_nat_alt)
  moreover have "FIRCLSUnwindGetFrameRepeatCount c = 0"
    using c(3) by (simp add: walking_def FIRCLSUnwindGetFrameRepeatCount_def)
  ultimately show ?case using c(1,2) f Cons.prems(6) by (simp add: record_new_frame)
qed

subsection \<open>The first two frames\<close>

definition crashed :: "'s arm64_sdk \<Rightarrow> 's \<Rightarrow> u64 \<Rightarrow> u64 \<Rightarrow> addr \<Rightarrow> bool" where
  "crashed S r pc lr fp \<longleftrightarrow>
     CLS_PTRAUTH_STRIP (arm_thread_state64_get_pc S r) = pc \<and> code_address pc \<and>
     CLS_PTRAUTH_STRIP (arm_thread_state64_get_lr S r) = lr \<and> code_address lr \<and>
     CLS_PTRAUTH_STRIP (arm_thread_state64_get_fp S r) = fp \<and> fp \<noteq> 0 \<and>
     4096 \<le> CLS_PTRAUTH_STRIP (arm_thread_state64_get_sp S r)"

lemma arm64_first_frames:
  assumes "arm64_sdk_laws S" "no_images C" "crashed S r pc lr fp" "lr \<noteq> pc"
  shows "\<exists>c1 c2. FIRCLSUnwindNextFrame (arm64_env embedded S K X i C m) (FIRCLSUnwindInit r) = Some (c1, True) \<and>
    FIRCLSUnwindGetPC (arm64_env embedded S K X i C m) c1 = pc \<and> uw_repeatCount c1 = 0 \<and>
    FIRCLSUnwindNextFrame (arm64_env embedded S K X i C m) c1 = Some (c2, True) \<and>
    FIRCLSUnwindGetPC (arm64_env embedded S K X i C m) c2 = lr \<and> walking S c2 lr fp \<and> uw_frameCount c2 = 2"
proof -
  let ?E = "arm64_env embedded S K X i C m"
  note w = assms(3) [unfolded crashed_def]
  let ?c1 = "(FIRCLSUnwindInit r)\<lparr>uw_frameCount := 1, uw_lastFramePC := pc\<rparr>"
  let ?r = "arm_thread_state64_set_pc_fptr S (arm_thread_state64_set_pc_fptr S r (pc - 1)) lr"
  let ?c2 = "?c1\<lparr>uw_registers := ?r, uw_frameCount := 2, uw_lastFramePC := lr\<rparr>"
  have laws: "arm_thread_state64_get_pc S (arm_thread_state64_set_pc_fptr S q v) = v"
    "arm_thread_state64_get_fp S (arm_thread_state64_set_pc_fptr S q v) = arm_thread_state64_get_fp S q"
    "arm_thread_state64_get_sp S (arm_thread_state64_set_pc_fptr S q v) = arm_thread_state64_get_sp S q"
    "arm_thread_state64_get_lr S (arm_thread_state64_set_pc_fptr S q v) = arm_thread_state64_get_lr S q" for q v
    using assms(1) by (simp_all add: arm64_sdk_laws_def)
  have valid: "FIRCLSIsValidPointer a" "CLS_PTRAUTH_STRIP a = a" "a \<noteq> 0" if "code_address a" for a
    using that strip_plain [of a] by (auto simp: code_address_def FIRCLSIsValidPointer_def word_le_nat_alt)
  have max: "\<not> FIRCLSUnwindMaxFrames embedded \<le> 0" "\<not> FIRCLSUnwindMaxFrames embedded \<le> 1"
    by (simp_all add: FIRCLSUnwindMaxFrames_def word_le_nat_alt)
  have s1: "FIRCLSUnwindNextFrameUsingAllStrategies ?E (FIRCLSUnwindInit r) = Some (FIRCLSUnwindInit r, True)"
    using w valid [of pc] max
    by (simp add: FIRCLSUnwindNextFrameUsingAllStrategies_def FIRCLSUnwindInit_def Let_def FIRCLSUnwindGetPC_def
        thread_context_defs arch_arm64_def)
  have n1: "FIRCLSUnwindNextFrame ?E (FIRCLSUnwindInit r) = Some (?c1, True)"
    using w valid [of pc] s1
    by (simp add: FIRCLSUnwindNextFrame_def Let_def FIRCLSUnwindContextHasValidPCAndSP_def FIRCLSUnwindGetPC_def
        FIRCLSUnwindGetStackPointer_def thread_context_defs arch_arm64_def FIRCLSUnwindInit_def FIRCLSIsValidPointer_def)
  have s2: "FIRCLSUnwindNextFrameUsingAllStrategies ?E ?c1 = Some (?c1\<lparr>uw_registers := ?r\<rparr>, True)"
    using w valid [of pc] valid [of lr] code_address_decrement [of pc] laws max no_compact [of ?E] assms(2)
    by (simp add: FIRCLSUnwindNextFrameUsingAllStrategies_def Let_def FIRCLSUnwindGetPC_def FIRCLSUnwindInit_def
        FIRCLSUnwindGetFramePointer_def thread_context_defs arch_arm64_def store_registers_def
        arm64_FIRCLSUnwindWithFramePointer_def FIRCLSUnwindWithLRRegister_def)
  have n2: "FIRCLSUnwindNextFrame ?E ?c1 = Some (?c2, True)"
    using w valid [of pc] valid [of lr] s2 laws assms(4)
    by (simp add: FIRCLSUnwindNextFrame_def Let_def FIRCLSUnwindContextHasValidPCAndSP_def FIRCLSUnwindGetPC_def
        FIRCLSUnwindGetStackPointer_def thread_context_defs arch_arm64_def FIRCLSUnwindInit_def FIRCLSIsValidPointer_def)
  have "walking S ?c2 lr fp"
    using w valid [of lr] laws by (simp add: walking_def FIRCLSUnwindInit_def)
  moreover have "FIRCLSUnwindGetPC ?E ?c1 = pc" "FIRCLSUnwindGetPC ?E ?c2 = lr" "uw_repeatCount ?c1 = 0"
    "uw_frameCount ?c2 = 2"
    using w valid [of lr] laws
    by (simp_all add: FIRCLSUnwindGetPC_def FIRCLSUnwindInit_def thread_context_defs arch_arm64_def)
  ultimately show ?thesis using n1 n2 by blast
qed


subsection \<open>Properties\<close>

lemma arm64_trace:
  assumes "arm64_sdk_laws S" "no_images C" "crashed S r pc lr fp" "frame_chain m fp rets"
    and "distinct_adj (pc # lr # rets)" "length rets + 2 < unat (FIRCLSUnwindMaxFrames embedded)"
  shows "record_stacktrace (arm64_env embedded S K X i C m) r =
    Some \<lparr> tr_pcs = pc # lr # rets, tr_repeatedPC = 0, tr_repeatedPCCount = 0 \<rparr>"
proof -
  let ?E = "arm64_env embedded S K X i C m"
  let ?tr = "\<lparr> tr_pcs = [pc, lr], tr_repeatedPC = 0, tr_repeatedPCCount = 0 \<rparr>"
  have ne: "lr \<noteq> pc" using assms(5) by auto
  obtain c1 c2 where c: "FIRCLSUnwindNextFrame ?E (FIRCLSUnwindInit r) = Some (c1, True)"
    "FIRCLSUnwindGetPC ?E c1 = pc" "uw_repeatCount c1 = 0" "FIRCLSUnwindNextFrame ?E c1 = Some (c2, True)"
    "FIRCLSUnwindGetPC ?E c2 = lr" "walking S c2 lr fp" "uw_frameCount c2 = 2"
    using arm64_first_frames [OF assms(1-3) ne, of embedded K X i m] by blast
  obtain f where f: "unat (FIRCLSUnwindMaxFrames embedded) = Suc f" "length rets < f"
    using assms(6) by (cases "unat (FIRCLSUnwindMaxFrames embedded)") auto
  have "stacktrace_loop ?E f c2 ?tr = Some (?tr\<lparr>tr_pcs := tr_pcs ?tr @ rets\<rparr>)"
    using assms c(7) f by (intro arm64_chain_loop [OF assms(1,2) c(6) _ assms(4)]) simp_all
  moreover have "FIRCLSUnwindGetFrameRepeatCount c1 = 0" "FIRCLSUnwindGetFrameRepeatCount c2 = 0"
    using c(3,6) by (simp_all add: FIRCLSUnwindGetFrameRepeatCount_def walking_def)
  ultimately show ?thesis
    using c(1,2,4,5) f(1) by (simp add: record_stacktrace_def record_new_frame)
qed


definition crashed_thread :: arm_thread_state64 where
  "crashed_thread = \<lparr> ss_x = (\<lambda>_. 0), ss_fp = 0x10000, ss_lr = 0x102000, ss_sp = 0xFF00, ss_pc = 0x101150 \<rparr>"

definition crashed_stack :: mem where
  "crashed_stack = bytes_at 0x10000 (concat (map (le_of_word 8) [0x10020, 0x103000, 0, 0, 0, 0x104000 :: u64]))"

definition no_table :: image_context where
  "no_table = \<lparr> ctx_initialized = False, ctx_writable = False, ctx_nodes_at = 0, ctx_nodes = [] \<rparr>"

lemma no_table_no_images: "no_images no_table"
  by (simp add: no_images_def no_table_def FIRCLSBinaryImageSafeFindImageForAddress_def)

definition zero_record :: FIRCLSDwarfCFIRecord where
  "zero_record = \<lparr> cfi_cie = zero_cie, cfi_fde = \<lparr> fde_length = 0, fde_cieOffset = 0, fde_startAddress = 0,
    fde_rangeSize = 0, fde_instructions = zero_instructions \<rparr> \<rparr>"


text \<open>C21 (bounds): a step that succeeds was below the limit on the number of frames, counts one more, records
  the new program counter, which is valid, and counts its repetitions.\<close>

theorem next_frame_counts:
  assumes "FIRCLSUnwindNextFrame E context = Some (context', True)"
  shows "uw_frameCount context < env_max_frames E \<and> uw_frameCount context' = uw_frameCount context + 1 \<and>
    uw_lastFramePC context' = FIRCLSUnwindGetPC E context' \<and>
    uw_repeatCount context' =
      (if uw_lastFramePC context = FIRCLSUnwindGetPC E context' then uw_repeatCount context + 1 else 0) \<and>
    FIRCLSUnwindContextHasValidPCAndSP E context'"
  using assms by (rule next_frame_result)

theorem next_frame_counts_witness:
  "\<exists>c. FIRCLSUnwindNextFrame (arm64_env True plain_sdk apple_abi apple_arm64 zero_record no_table crashed_stack)
     (FIRCLSUnwindInit crashed_thread) = Some (c, True) \<and> uw_frameCount c = 1"
proof -
  have "crashed plain_sdk crashed_thread 0x101150 0x102000 0x10000" by code_simp
  from arm64_first_frames [OF plain_sdk_laws no_table_no_images this, of True apple_abi apple_arm64 zero_record crashed_stack]
  obtain c where c: "FIRCLSUnwindNextFrame (arm64_env True plain_sdk apple_abi apple_arm64 zero_record no_table crashed_stack)
     (FIRCLSUnwindInit crashed_thread) = Some (c, True)" by auto
  with next_frame_counts [OF c] show ?thesis by (simp add: FIRCLSUnwindInit_def)
qed

text \<open>C20 (termination): on every architecture the stack trace of a thread ends, whatever its stack holds: it is
  finished, with no more program counters than the limit on the number of frames, unless the walk reaches, by
  steps that succeed, a context whose step is undefined.\<close>

theorem stacktrace_terminates:
  "case record_stacktrace E r of
     None \<Rightarrow> trace_stuck E (FIRCLSUnwindInit r)
   | Some tr \<Rightarrow> \<not> trace_stuck E (FIRCLSUnwindInit r) \<and> length (tr_pcs tr) \<le> unat (env_max_frames E)"
  using stacktrace_loop_result [of E "FIRCLSUnwindInit r" "unat (env_max_frames E) + 1"]
    stacktrace_loop_length [of E "unat (env_max_frames E) + 1" "FIRCLSUnwindInit r"]
  by (fastforce simp: record_stacktrace_def FIRCLSUnwindInit_def split: option.split)

lemma arm64_no_images_defined:
  assumes "no_images C"
  shows "FIRCLSUnwindNextFrame (arm64_env embedded S K X i C m) c \<noteq> None"
proof -
  let ?E = "arm64_env embedded S K X i C m"
  have bools: "Ex Not" "\<exists>b. b" by blast+
  have "FIRCLSUnwindNextFrameUsingAllStrategies ?E c \<noteq> None"
    using no_compact [of ?E] assms
    by (simp add: FIRCLSUnwindNextFrameUsingAllStrategies_def Let_def split_beta bools)
  then obtain c' ok where "FIRCLSUnwindNextFrameUsingAllStrategies ?E c = Some (c', ok)" by auto
  then show ?thesis by (simp add: FIRCLSUnwindNextFrame_def Let_def bools)
qed

lemma arm64_no_images_not_stuck:
  assumes "no_images C"
  shows "\<not> trace_stuck (arm64_env embedded S K X i C m) c"
proof
  assume "trace_stuck (arm64_env embedded S K X i C m) c"
  then show False by induction (simp_all add: arm64_no_images_defined [OF assms])
qed

theorem stacktrace_terminates_witness:
  "\<exists>tr. record_stacktrace (arm64_env True plain_sdk apple_abi apple_arm64 zero_record no_table crashed_stack) crashed_thread = Some tr \<and>
     length (tr_pcs tr) \<le> 100000"
proof -
  let ?E = "arm64_env True plain_sdk apple_abi apple_arm64 zero_record no_table crashed_stack"
  have "\<not> trace_stuck ?E (FIRCLSUnwindInit crashed_thread)"
    by (rule arm64_no_images_not_stuck [OF no_table_no_images])
  with stacktrace_terminates [of ?E crashed_thread] show ?thesis
    by (auto simp: FIRCLSUnwindMaxFrames_def split: option.splits)
qed

end
