(* ===== verification/Allocate.thy ===== *)
theory Allocate
  imports ThreadState
begin

section \<open>The crash-time allocator (FIRCLSAllocate.c)\<close>

text \<open>
  \<open>Helpers/FIRCLSAllocate.c\<close>: two regions of memory with guard pages, from which any thread allocates by
  moving a cursor with a compare-and-swap, without ever freeing.  The system calls are parameters: the page
  size, the address \<open>mmap\<close> returns (or failure), whether an \<open>mprotect\<close> succeeds, and \<open>malloc\<close>.

  \<open>FIRCLSAllocatorSafeAllocateFromRegion\<close> is given as the steps of one thread; the function runs them alone,
  and \<open>alloc_trans\<close> interleaves any number of threads.
\<close>

type_synonym size_t = u64

record FIRCLSAllocationRegion =
  rg_size :: size_t
  rg_start :: addr
  rg_cursor :: addr

record FIRCLSAllocator =
  al_buffer :: addr
  al_protectionEnabled :: bool
  al_writeableRegion :: FIRCLSAllocationRegion
  al_readableRegion :: FIRCLSAllocationRegion

datatype FIRCLSAllocationType = CLS_READONLY | CLS_READWRITE

datatype protection = PROT_NONE | PROT_READ | PROT_READ_WRITE

definition sizeof_allocator :: size_t where
  "sizeof_allocator = 64"

record os =
  os_page_size :: u64
  os_mmap :: "size_t \<Rightarrow> addr option"
  os_mprotect :: "addr \<Rightarrow> size_t \<Rightarrow> protection \<Rightarrow> bool"
  os_malloc :: "size_t \<Rightarrow> addr"

subsection \<open>Allocating from a region\<close>

text \<open>Where a thread is: about to read the cursor, about to swap the one it read, or done with a block of the
  region or of \<open>malloc\<close>.\<close>

datatype alloc_pc = Alloc_load | Alloc_swap addr | Alloc_region addr | Alloc_malloc addr

definition alloc_step :: "os \<Rightarrow> size_t \<Rightarrow> FIRCLSAllocationRegion \<times> alloc_pc \<Rightarrow> FIRCLSAllocationRegion \<times> alloc_pc" where
  "alloc_step K n = (\<lambda>(region, pc).
     case pc of
       Alloc_load \<Rightarrow>
         let originalCursor = rg_cursor region in
         if rg_size region < originalCursor - rg_start region + n then (region, Alloc_malloc (os_malloc K n))
         else (region, Alloc_swap originalCursor)
     | Alloc_swap originalCursor \<Rightarrow>
         let newCursor = originalCursor + n in
         if rg_cursor region = originalCursor then (region\<lparr>rg_cursor := newCursor\<rparr>, Alloc_region originalCursor)
         else (region, Alloc_load)
     | Alloc_region p \<Rightarrow> (region, pc)
     | Alloc_malloc p \<Rightarrow> (region, pc))"

fun alloc_result :: "alloc_pc \<Rightarrow> addr option" where
  "alloc_result (Alloc_region p) = Some p"
| "alloc_result (Alloc_malloc p) = Some p"
| "alloc_result Alloc_load = None"
| "alloc_result (Alloc_swap p) = None"

text \<open>A thread that is not disturbed is done after two steps: its swap finds the cursor it read.\<close>

definition FIRCLSAllocatorSafeAllocateFromRegion ::
  "os \<Rightarrow> FIRCLSAllocationRegion \<Rightarrow> size_t \<Rightarrow> FIRCLSAllocationRegion \<times> addr" where
  "FIRCLSAllocatorSafeAllocateFromRegion K region n =
     (let (region, pc) = alloc_step K n (alloc_step K n (region, Alloc_load))
      in (region, case alloc_result pc of Some p \<Rightarrow> p | None \<Rightarrow> 0))"

subsection \<open>The allocator\<close>

definition region_size :: "u64 \<Rightarrow> size_t \<Rightarrow> size_t" where
  "region_size pageSize space = (if 0 < space then (space div pageSize + 1) * pageSize else 0)"

text \<open>The allocator and the address it is placed at.\<close>

definition FIRCLSAllocatorCreate :: "os \<Rightarrow> size_t \<Rightarrow> size_t \<Rightarrow> (addr \<times> FIRCLSAllocator) option" where
  "FIRCLSAllocatorCreate K writableSpace readableSpace =
     (let pageSize = os_page_size K;
          readableSpace = readableSpace + sizeof_allocator;
          writableSize = region_size pageSize writableSpace;
          readableSize = region_size pageSize readableSpace;
          allocationSize = writableSize + readableSize + pageSize * 3
      in case os_mmap K allocationSize of
           None \<Rightarrow> None
         | Some buffer \<Rightarrow>
             let writableRegion = \<lparr> rg_size = writableSize, rg_start = buffer + pageSize, rg_cursor = buffer + pageSize \<rparr>;
                 readableStart = buffer + pageSize + writableSize + pageSize;
                 readableRegion = \<lparr> rg_size = readableSize, rg_start = readableStart, rg_cursor = readableStart \<rparr>
             in if \<not> os_mprotect K buffer pageSize PROT_NONE then None
                else if \<not> os_mprotect K (buffer + pageSize + writableSize) pageSize PROT_NONE then None
                else if \<not> os_mprotect K (buffer + pageSize + writableSize + pageSize + readableSize) pageSize PROT_NONE
                then None
                else
                  let (readableRegion, allocator) =
                        FIRCLSAllocatorSafeAllocateFromRegion K readableRegion sizeof_allocator
                  in Some (allocator, \<lparr> al_buffer = buffer, al_protectionEnabled = False,
                       al_writeableRegion = writableRegion, al_readableRegion = readableRegion \<rparr>))"

text \<open>\<open>None\<close> is an allocator pointer that is \<open>NULL\<close>; of the other functions the address is not looked at.\<close>

definition FIRCLSAllocatorProtect :: "os \<Rightarrow> FIRCLSAllocator option \<Rightarrow> FIRCLSAllocator option \<times> bool" where
  "FIRCLSAllocatorProtect K allocator =
     (case allocator of
        None \<Rightarrow> (allocator, False)
      | Some a \<Rightarrow>
          if al_protectionEnabled a then (Some a, True)
          else
            let a = a\<lparr>al_protectionEnabled := True\<rparr>;
                pageSize = os_page_size K;
                address = al_buffer a + pageSize + rg_size (al_writeableRegion a) + pageSize
            in (Some a, os_mprotect K address (rg_size (al_readableRegion a)) PROT_READ))"

definition FIRCLSAllocatorUnprotect :: "os \<Rightarrow> FIRCLSAllocator option \<Rightarrow> FIRCLSAllocator option \<times> bool" where
  "FIRCLSAllocatorUnprotect K allocator =
     (case allocator of
        None \<Rightarrow> (allocator, False)
      | Some a \<Rightarrow>
          let pageSize = os_page_size K;
              bufferSize = al_buffer a + pageSize + rg_size (al_writeableRegion a) + pageSize +
                rg_size (al_readableRegion a) + pageSize;
              a = a\<lparr>al_protectionEnabled := \<not> os_mprotect K (al_buffer a) bufferSize PROT_READ_WRITE\<rparr>
          in (Some a, al_protectionEnabled a))"

definition FIRCLSAllocatorSafeAllocate ::
  "os \<Rightarrow> FIRCLSAllocator option \<Rightarrow> size_t \<Rightarrow> FIRCLSAllocationType \<Rightarrow> FIRCLSAllocator option \<times> addr" where
  "FIRCLSAllocatorSafeAllocate K allocator n type =
     (case allocator of
        None \<Rightarrow> (allocator, os_malloc K n)
      | Some a \<Rightarrow>
          if al_protectionEnabled a then (Some a, os_malloc K n)
          else case type of
            CLS_READONLY \<Rightarrow>
              (let (r, p) = FIRCLSAllocatorSafeAllocateFromRegion K (al_readableRegion a) n
               in (Some (a\<lparr>al_readableRegion := r\<rparr>), p))
          | CLS_READWRITE \<Rightarrow>
              (let (r, p) = FIRCLSAllocatorSafeAllocateFromRegion K (al_writeableRegion a) n
               in (Some (a\<lparr>al_writeableRegion := r\<rparr>), p)))"

subsection \<open>Many threads\<close>

record alloc_state =
  as_region :: FIRCLSAllocationRegion
  as_threads :: "nat \<Rightarrow> (size_t \<times> alloc_pc) option"

inductive alloc_trans :: "os \<Rightarrow> alloc_state \<Rightarrow> alloc_state \<Rightarrow> bool" for K where
  start: "as_threads s t = None \<Longrightarrow> n \<le> 2 ^ 63 \<Longrightarrow>
    alloc_trans K s (s\<lparr>as_threads := (as_threads s)(t \<mapsto> (n, Alloc_load))\<rparr>)"
| step: "as_threads s t = Some (n, pc) \<Longrightarrow> alloc_step K n (as_region s, pc) = (region', pc') \<Longrightarrow>
    alloc_trans K s (s\<lparr>as_region := region', as_threads := (as_threads s)(t \<mapsto> (n, pc'))\<rparr>)"

inductive_cases alloc_transE: "alloc_trans K s s'"

definition alloc_initial :: "FIRCLSAllocationRegion \<Rightarrow> alloc_state" where
  "alloc_initial region = \<lparr> as_region = region, as_threads = Map.empty \<rparr>"

text \<open>The region is empty and its end is a 63-bit address, as user addresses are.\<close>

definition fresh_region :: "FIRCLSAllocationRegion \<Rightarrow> bool" where
  "fresh_region region \<longleftrightarrow>
     rg_cursor region = rg_start region \<and> unat (rg_start region) + unat (rg_size region) < 2 ^ 63"

text \<open>Numbers instead of words: a block of the region and the part of it the cursor has passed.\<close>

definition block_of :: "(size_t \<times> alloc_pc) option \<Rightarrow> (nat \<times> nat) option" where
  "block_of th = (case th of Some (n, Alloc_region p) \<Rightarrow> Some (unat p, unat p + unat n) | _ \<Rightarrow> None)"

definition region_inv :: "FIRCLSAllocationRegion \<Rightarrow> bool" where
  "region_inv region \<longleftrightarrow> unat (rg_start region) + unat (rg_size region) < 2 ^ 63 \<and>
     unat (rg_start region) \<le> unat (rg_cursor region) \<and>
     unat (rg_cursor region) \<le> unat (rg_start region) + unat (rg_size region)"

definition alloc_inv :: "alloc_state \<Rightarrow> bool" where
  "alloc_inv s \<longleftrightarrow> region_inv (as_region s) \<and>
     (\<forall>t n pc. as_threads s t = Some (n, pc) \<longrightarrow> n \<le> 2 ^ 63) \<and>
     (\<forall>t n p. as_threads s t = Some (n, Alloc_swap p) \<longrightarrow>
        unat (rg_start (as_region s)) \<le> unat p \<and>
        unat p + unat n \<le> unat (rg_start (as_region s)) + unat (rg_size (as_region s))) \<and>
     (\<forall>t a b. block_of (as_threads s t) = Some (a, b) \<longrightarrow>
        unat (rg_start (as_region s)) \<le> a \<and> b \<le> unat (rg_cursor (as_region s))) \<and>
     (\<forall>t u a b c d. t \<noteq> u \<longrightarrow> block_of (as_threads s t) = Some (a, b) \<longrightarrow>
        block_of (as_threads s u) = Some (c, d) \<longrightarrow> b \<le> c \<or> d \<le> a)"


subsection \<open>No two blocks overlap\<close>

lemma block_of_simps [simp]:
  "block_of None = None" "block_of (Some (n, Alloc_load)) = None" "block_of (Some (n, Alloc_swap p)) = None"
  "block_of (Some (n, Alloc_malloc p)) = None"
  "block_of (Some (n, Alloc_region p)) = Some (unat p, unat p + unat n)"
  by (simp_all add: block_of_def)

lemma region_check:
  assumes "region_inv region" "n \<le> 2 ^ 63"
    and "\<not> rg_size region < rg_cursor region - rg_start region + n"
  shows "unat (rg_cursor region) + unat n \<le> unat (rg_start region) + unat (rg_size region)"
proof -
  note i = assms(1) [unfolded region_inv_def]
  have n: "unat n \<le> 2 ^ 63" using assms(2) by (simp add: word_le_nat_alt)
  have d: "unat (rg_cursor region - rg_start region) = unat (rg_cursor region) - unat (rg_start region)"
    using i by (simp add: unat_sub_if')
  have "unat (rg_cursor region - rg_start region) + unat n < 2 ^ 64"
  proof -
    have "unat (rg_cursor region) < 2 ^ 63" using i by auto
    moreover have "unat (rg_cursor region) - unat (rg_start region) \<le> unat (rg_cursor region)" by simp
    ultimately show ?thesis unfolding d using n by simp
  qed
  then have "unat (rg_cursor region - rg_start region + n) =
      unat (rg_cursor region - rg_start region) + unat n"
    by (subst unat_add_lem [symmetric]) simp
  with assms(3) d i show ?thesis by (simp add: word_less_nat_alt)
qed

lemma alloc_inv_initial: "fresh_region region \<Longrightarrow> alloc_inv (alloc_initial region)"
  by (simp add: alloc_inv_def alloc_initial_def fresh_region_def region_inv_def)

text \<open>A step changes one thread and at most the cursor, which it only moves up.\<close>

lemma alloc_inv_update:
  assumes "alloc_inv s" "as_threads s t = Some (n, pc)"
    and r: "region_inv r'" "rg_start r' = rg_start (as_region s)" "rg_size r' = rg_size (as_region s)"
      "unat (rg_cursor (as_region s)) \<le> unat (rg_cursor r')"
    and swap: "\<And>p. pc' = Alloc_swap p \<Longrightarrow> unat (rg_start r') \<le> unat p \<and>
      unat p + unat n \<le> unat (rg_start r') + unat (rg_size r')"
    and block: "\<And>p. pc' = Alloc_region p \<Longrightarrow> pc = pc' \<and> r' = as_region s \<or>
      unat (rg_cursor (as_region s)) \<le> unat p \<and> unat p + unat n \<le> unat (rg_cursor r')"
  shows "alloc_inv (s\<lparr>as_region := r', as_threads := (as_threads s)(t \<mapsto> (n, pc'))\<rparr>)"
proof -
  let ?s = "s\<lparr>as_region := r', as_threads := (as_threads s)(t \<mapsto> (n, pc'))\<rparr>"
  note i = assms(1) [unfolded alloc_inv_def]
  have old: "unat (rg_start (as_region s)) \<le> a \<and> b \<le> unat (rg_cursor (as_region s))"
    if "block_of (as_threads s u) = Some (a, b)" for u a b
    using i that by blast
  have new: "unat (rg_start r') \<le> a \<and> b \<le> unat (rg_cursor r')"
    and apart: "\<And>u c d. u \<noteq> t \<Longrightarrow> block_of (as_threads s u) = Some (c, d) \<Longrightarrow> b \<le> c \<or> d \<le> a"
    if th: "block_of (Some (n, pc')) = Some (a, b)" for a b
  proof -
    obtain p where p: "pc' = Alloc_region p" "a = unat p" "b = unat p + unat n"
      using th by (cases pc') auto
    have c: "pc = pc' \<and> r' = as_region s \<or> unat (rg_cursor (as_region s)) \<le> a \<and> b \<le> unat (rg_cursor r')"
      using block [OF p(1)] p(2,3) by simp
    have ri: "unat (rg_start (as_region s)) \<le> unat (rg_cursor (as_region s))"
      using i by (simp add: region_inv_def)
    show "unat (rg_start r') \<le> a \<and> b \<le> unat (rg_cursor r')"
      using c old [of t a b] assms(2) th r ri by auto
    show "b \<le> c \<or> d \<le> a" if "u \<noteq> t" "block_of (as_threads s u) = Some (c, d)" for u c d
    proof (cases "pc = pc' \<and> r' = as_region s")
      case True
      then have "block_of (as_threads s t) = Some (a, b)" using assms(2) th by simp
      then show ?thesis using i that by blast
    next
      case False
      then show ?thesis using c old [OF that(2)] by auto
    qed
  qed
  have old': "unat (rg_start r') \<le> a \<and> b \<le> unat (rg_cursor r')"
    if "block_of (as_threads s u) = Some (a, b)" for u a b
    using old [OF that] r by simp
  have n: "n \<le> 2 ^ 63" using i assms(2) by blast
  show ?thesis
    unfolding alloc_inv_def
  proof (intro conjI allI impI)
    show "region_inv (as_region ?s)" using r(1) by simp
    show "m \<le> 2 ^ 63" if "as_threads ?s u = Some (m, q)" for u m q
      using that i n by (auto split: if_splits)
    show "unat (rg_start (as_region ?s)) \<le> unat p"
      "unat p + unat m \<le> unat (rg_start (as_region ?s)) + unat (rg_size (as_region ?s))"
      if "as_threads ?s u = Some (m, Alloc_swap p)" for u m p
      using that i swap r(2,3) by (auto split: if_splits)
    show "unat (rg_start (as_region ?s)) \<le> a" "b \<le> unat (rg_cursor (as_region ?s))"
      if "block_of (as_threads ?s u) = Some (a, b)" for u a b
      using that new old' by (auto split: if_splits)
    show "b \<le> c \<or> d \<le> a"
      if ne: "u \<noteq> v" and blocks: "block_of (as_threads ?s u) = Some (a, b)" "block_of (as_threads ?s v) = Some (c, d)"
      for u v a b c d
    proof -
      consider "u = t" "v \<noteq> t" | "v = t" "u \<noteq> t" | "u \<noteq> t" "v \<noteq> t" using ne by auto
      then show ?thesis
      proof cases
        case 1
        then show ?thesis using blocks apart [of a b v c d] by simp
      next
        case 2
        then show ?thesis using blocks apart [of c d u a b] by auto
      next
        case 3
        then have "block_of (as_threads s u) = Some (a, b)" "block_of (as_threads s v) = Some (c, d)"
          using blocks by simp_all
        with i ne show ?thesis by blast
      qed
    qed
  qed
qed

lemma alloc_inv_step:
  assumes "alloc_trans K s s'" "alloc_inv s"
  shows "alloc_inv s'"
  using assms(1)
proof cases
  case (start t n)
  then show ?thesis
    using assms(2) by (auto simp: alloc_inv_def fun_upd_apply)
next
  case (step t n pc region' pc')
  note i = assms(2) [unfolded alloc_inv_def]
  have n: "n \<le> 2 ^ 63" and ri: "region_inv (as_region s)" using i step(2) by blast+
  show ?thesis
    unfolding step(1)
  proof (rule alloc_inv_update [OF assms(2) step(2)])
    have moved: "unat (rg_cursor (as_region s) + n) = unat (rg_cursor (as_region s)) + unat n"
      if "pc = Alloc_swap (rg_cursor (as_region s))"
    proof -
      have "unat (rg_cursor (as_region s)) + unat n < 2 ^ 63"
        using i step(2) that ri by (fastforce simp: region_inv_def)
      then show ?thesis by (subst unat_add_lem [symmetric]) simp
    qed
    have top: "unat (rg_cursor (as_region s)) + unat n \<le> unat (rg_start (as_region s)) + unat (rg_size (as_region s))"
      if "pc = Alloc_swap (rg_cursor (as_region s))"
      using i step(2) that by blast
    note c = step(3) [unfolded alloc_step_def]
    show "region_inv region'"
      using c ri moved top by (auto simp: Let_def region_inv_def split: alloc_pc.splits if_splits)
    show "rg_start region' = rg_start (as_region s)" "rg_size region' = rg_size (as_region s)"
      using c by (auto simp: Let_def split: alloc_pc.splits if_splits)
    show "unat (rg_cursor (as_region s)) \<le> unat (rg_cursor region')"
      using c moved by (auto simp: Let_def split: alloc_pc.splits if_splits)
    show "unat (rg_start region') \<le> unat p \<and> unat p + unat n \<le> unat (rg_start region') + unat (rg_size region')"
      if "pc' = Alloc_swap p" for p
      using c that ri region_check [OF ri n] by (auto simp: Let_def region_inv_def split: alloc_pc.splits if_splits)
    show "pc = pc' \<and> region' = as_region s \<or>
        unat (rg_cursor (as_region s)) \<le> unat p \<and> unat p + unat n \<le> unat (rg_cursor region')"
      if "pc' = Alloc_region p" for p
      using c that moved by (auto simp: Let_def split: alloc_pc.splits if_splits)
  qed
qed

lemma alloc_inv_reachable:
  assumes "(alloc_trans K)\<^sup>*\<^sup>* (alloc_initial region) s" "fresh_region region"
  shows "alloc_inv s \<and> rg_start (as_region s) = rg_start region \<and> rg_size (as_region s) = rg_size region"
  using assms(1)
proof (induction rule: rtranclp_induct)
  case base
  then show ?case using alloc_inv_initial [OF assms(2)] by (simp add: alloc_initial_def)
next
  case (step s s')
  from step.hyps(2) have "rg_start (as_region s') = rg_start (as_region s) \<and> rg_size (as_region s') = rg_size (as_region s)"
    by cases (auto simp: alloc_step_def Let_def split: alloc_pc.splits if_splits)
  with step.IH alloc_inv_step [OF step.hyps(2)] show ?case by simp
qed


subsection \<open>Alone\<close>

lemma alloc_alone:
  "alloc_step K n (alloc_step K n (region, Alloc_load)) =
     (if rg_size region < rg_cursor region - rg_start region + n then (region, Alloc_malloc (os_malloc K n))
      else (region\<lparr>rg_cursor := rg_cursor region + n\<rparr>, Alloc_region (rg_cursor region)))"
  by (simp add: alloc_step_def Let_def)

lemma allocate_from_region:
  "FIRCLSAllocatorSafeAllocateFromRegion K region n =
     (if rg_size region < rg_cursor region - rg_start region + n then (region, os_malloc K n)
      else (region\<lparr>rg_cursor := rg_cursor region + n\<rparr>, rg_cursor region))"
  by (simp add: FIRCLSAllocatorSafeAllocateFromRegion_def alloc_alone)

subsection \<open>The layout of the regions\<close>

lemma len64: "LENGTH(64) = 64"
  by simp

lemma region_size_exact:
  assumes "0 < unat pageSize" "unat space + unat pageSize < 2 ^ 63"
  shows "unat space \<le> unat (region_size pageSize space)"
    and "unat (region_size pageSize space) \<le> unat space + unat pageSize"
proof -
  let ?p = "unat pageSize" and ?s = "unat space"
  have le: "?s div ?p * ?p \<le> ?s" by simp
  have "(?s div ?p + 1) * ?p = ?s div ?p * ?p + ?p" by simp
  moreover have "(2 :: nat) ^ 63 < 2 ^ 64" by simp
  ultimately have "(?s div ?p + 1) * ?p < 2 ^ 64" using le assms(2) by linarith
  moreover have "?s div ?p + 1 < 2 ^ 64"
    using div_le_dividend [of ?s ?p] assms(2) \<open>(2 :: nat) ^ 63 < 2 ^ 64\<close> by linarith
  moreover have "unat (space div pageSize) = ?s div ?p" by (simp add: unat_div)
  ultimately have "unat (space div pageSize + 1) = ?s div ?p + 1"
    by (subst unat_add_lem [THEN iffD1]) simp_all
  then have "unat ((space div pageSize + 1) * pageSize) = (?s div ?p + 1) * ?p"
    using iffD1 [OF unat_mult_lem, of "space div pageSize + 1" pageSize] \<open>(?s div ?p + 1) * ?p < 2 ^ 64\<close>
    by (simp only: len64)
  then have u: "unat ((space div pageSize + 1) * pageSize) = ?s div ?p * ?p + ?p"
    by (simp only: add_mult_distrib mult_1)
  have "?s < ?s div ?p * ?p + ?p" using dividend_less_div_times [OF assms(1), of ?s] by (simp add: add.commute)
  then show "?s \<le> unat (region_size pageSize space)" by (cases "space = 0") (simp_all add: region_size_def u word_gt_0)
  show "unat (region_size pageSize space) \<le> ?s + ?p" using le by (simp add: region_size_def u)
qed

subsection \<open>Properties\<close>

text \<open>C3 (safety): whatever threads allocate from a region, in whatever order their steps are taken, the blocks
  they get lie inside the region and no two of them overlap, as long as no thread asks for more than
  \<open>2 ^ 63\<close> bytes.\<close>

theorem allocations_disjoint:
  assumes "fresh_region region" "(alloc_trans K)\<^sup>*\<^sup>* (alloc_initial region) s"
    and "as_threads s t = Some (n, Alloc_region p)" "as_threads s u = Some (k, Alloc_region q)" "t \<noteq> u"
  shows "unat (rg_start region) \<le> unat p \<and> unat p + unat n \<le> unat (rg_start region) + unat (rg_size region) \<and>
    (unat p + unat n \<le> unat q \<or> unat q + unat k \<le> unat p)"
proof -
  note r = alloc_inv_reachable [OF assms(2,1)]
  have b: "block_of (as_threads s t) = Some (unat p, unat p + unat n)"
    "block_of (as_threads s u) = Some (unat q, unat q + unat k)"
    using assms(3,4) by simp_all
  have "unat (rg_start (as_region s)) \<le> unat p \<and> unat p + unat n \<le> unat (rg_cursor (as_region s))"
    "unat (rg_cursor (as_region s)) \<le> unat (rg_start (as_region s)) + unat (rg_size (as_region s))"
    "unat p + unat n \<le> unat q \<or> unat q + unat k \<le> unat p"
    using r b assms(5) unfolding alloc_inv_def region_inv_def by blast+
  with r show ?thesis by auto
qed

text \<open>Two threads read the same cursor; the second has to start over.\<close>

definition example_os :: os where
  "example_os = \<lparr> os_page_size = 0x4000, os_mmap = (\<lambda>n. Some 0x100000), os_mprotect = (\<lambda>a n p. True),
     os_malloc = (\<lambda>n. 0x7000000) \<rparr>"

definition example_region :: FIRCLSAllocationRegion where
  "example_region = \<lparr> rg_size = 0x4000, rg_start = 0x104000, rg_cursor = 0x104000 \<rparr>"

lemma alloc_start:
  "as_threads s t = None \<Longrightarrow> n \<le> 2 ^ 63 \<Longrightarrow> (alloc_trans K)\<^sup>*\<^sup>* s0 s \<Longrightarrow>
   (alloc_trans K)\<^sup>*\<^sup>* s0 (s\<lparr>as_threads := (as_threads s)(t \<mapsto> (n, Alloc_load))\<rparr>)"
  by (erule rtranclp.rtrancl_into_rtrancl) (rule alloc_trans.start)

lemma alloc_run:
  "(alloc_trans K)\<^sup>*\<^sup>* s0 s \<Longrightarrow> as_threads s t = Some (n, pc) \<Longrightarrow> s' = s\<lparr>as_region := fst (alloc_step K n (as_region s, pc)),
     as_threads := (as_threads s)(t \<mapsto> (n, snd (alloc_step K n (as_region s, pc))))\<rparr> \<Longrightarrow>
   (alloc_trans K)\<^sup>*\<^sup>* s0 s'"
  by (cases "alloc_step K n (as_region s, pc)") (simp add: rtranclp.rtrancl_into_rtrancl alloc_trans.step)

theorem allocations_disjoint_witness:
  "\<exists>s. (alloc_trans example_os)\<^sup>*\<^sup>* (alloc_initial example_region) s \<and>
     as_threads s 0 = Some (16, Alloc_region 0x104000) \<and> as_threads s 1 = Some (32, Alloc_region 0x104010) \<and>
     unat (0x104000 :: addr) + unat (16 :: u64) \<le> unat (0x104010 :: addr)"
proof -
  let ?s = "\<lambda>r a b. \<lparr> as_region = example_region\<lparr>rg_cursor := r\<rparr>, as_threads = [0 \<mapsto> (16, a), 1 \<mapsto> (32, b)] \<rparr>"
  let ?R = "(alloc_trans example_os)\<^sup>*\<^sup>* (alloc_initial example_region)"
  have "?R (?s 0x104000 Alloc_load Alloc_load)"
    using alloc_start [OF _ _ alloc_start [OF _ _ rtranclp.rtrancl_refl, of "alloc_initial example_region" 0 16 example_os], of 1 32]
    by (simp add: alloc_initial_def example_region_def word_le_nat_alt)
  then have "?R (?s 0x104000 (Alloc_swap 0x104000) Alloc_load)"
    by (rule alloc_run [where t = 0 and n = 16 and pc = Alloc_load]) (simp_all add: alloc_step_def example_region_def fun_eq_iff)
  then have "?R (?s 0x104000 (Alloc_swap 0x104000) (Alloc_swap 0x104000))"
    by (rule alloc_run [where t = 1 and n = 32 and pc = Alloc_load]) (simp_all add: alloc_step_def example_region_def fun_eq_iff)
  then have "?R (?s 0x104010 (Alloc_region 0x104000) (Alloc_swap 0x104000))"
    by (rule alloc_run [where t = 0 and n = 16 and pc = "Alloc_swap 0x104000"]) (simp_all add: alloc_step_def example_region_def fun_eq_iff)
  then have "?R (?s 0x104010 (Alloc_region 0x104000) Alloc_load)"
    by (rule alloc_run [where t = 1 and n = 32 and pc = "Alloc_swap 0x104000"]) (simp_all add: alloc_step_def example_region_def fun_eq_iff)
  then have "?R (?s 0x104010 (Alloc_region 0x104000) (Alloc_swap 0x104010))"
    by (rule alloc_run [where t = 1 and n = 32 and pc = Alloc_load]) (simp_all add: alloc_step_def example_region_def fun_eq_iff)
  then have r: "?R (?s 0x104030 (Alloc_region 0x104000) (Alloc_region 0x104010))"
    by (rule alloc_run [where t = 1 and n = 32 and pc = "Alloc_swap 0x104010"]) (simp_all add: alloc_step_def example_region_def fun_eq_iff)
  have f: "fresh_region example_region" by (simp add: fresh_region_def example_region_def)
  from allocations_disjoint [OF f r, of 0 16 "0x104000" 1 32 "0x104010"] r show ?thesis
    by (intro exI [of _ "?s 0x104030 (Alloc_region 0x104000) (Alloc_region 0x104010)"]) simp
qed

text \<open>C34 (liveness): a thread that runs alone is done after at most three steps, wherever the others
  left it.\<close>

theorem allocation_finishes:
  "alloc_result (snd (alloc_step K n (alloc_step K n (alloc_step K n (region, pc))))) \<noteq> None"
  by (cases pc) (simp_all add: alloc_step_def Let_def)

text \<open>The size check adds to the part already used without regard to overflow: a request that makes
  the sum wrap passes it, and moves the cursor back onto blocks already handed out.\<close>

theorem allocate_wraps:
  assumes "0 < unat (rg_cursor region) - unat (rg_start region)"
    and "unat (rg_cursor region) - unat (rg_start region) + unat n = 2 ^ 64 + unat back"
    and "unat back \<le> unat (rg_size region)"
  shows "FIRCLSAllocatorSafeAllocateFromRegion K region n =
    (region\<lparr>rg_cursor := rg_start region + back\<rparr>, rg_cursor region)"
proof -
  have le: "unat (rg_start region) \<le> unat (rg_cursor region)" using assms(1) by simp
  then have "(of_nat (unat (rg_cursor region) - unat (rg_start region) + unat n) :: u64) =
      rg_cursor region - rg_start region + n"
    by (simp add: of_nat_diff)
  moreover have "(of_nat (2 ^ 64 + unat back) :: u64) = back" by simp
  ultimately have b: "rg_cursor region - rg_start region + n = back" using assms(2) by simp
  then have "rg_cursor region + n = rg_start region + back" by (simp flip: b)
  with b assms(3) show ?thesis by (simp add: allocate_from_region word_less_nat_alt)
qed

theorem allocate_wraps_witness:
  "FIRCLSAllocatorSafeAllocateFromRegion example_os (example_region\<lparr>rg_cursor := 0x104040\<rparr>) (- 0x40) =
     (example_region\<lparr>rg_cursor := 0x104000\<rparr>, 0x104040)"
  using allocate_wraps [of "example_region\<lparr>rg_cursor := 0x104040\<rparr>" "- 0x40" 0 example_os]
  by (simp add: example_region_def)

text \<open>\<open>FIRCLSAllocatorUnprotect\<close> asks for the protection of a range whose length is the absolute end
  address of the buffer, and returns true exactly when the call has failed.\<close>

theorem unprotect_inverted:
  "snd (FIRCLSAllocatorUnprotect K (Some a)) =
     (\<not> os_mprotect K (al_buffer a)
       (al_buffer a + (rg_size (al_writeableRegion a) + rg_size (al_readableRegion a) + os_page_size K * 3)) PROT_READ_WRITE)"
  by (simp add: FIRCLSAllocatorUnprotect_def Let_def algebra_simps)


text \<open>A new allocator has its two regions at the size asked for or more, a guard page before, between
  and behind them, and itself in the first 64 bytes of the readable region.\<close>

theorem create_layout:
  assumes "FIRCLSAllocatorCreate K w r = Some (p, a)" "0 < unat (os_page_size K)"
    and "unat (al_buffer a) + unat w + unat r + 64 + 5 * unat (os_page_size K) < 2 ^ 63"
  shows "unat (rg_start (al_writeableRegion a)) = unat (al_buffer a) + unat (os_page_size K) \<and>
    unat w \<le> unat (rg_size (al_writeableRegion a)) \<and>
    unat (rg_start (al_readableRegion a)) =
      unat (rg_start (al_writeableRegion a)) + unat (rg_size (al_writeableRegion a)) + unat (os_page_size K) \<and>
    p = rg_start (al_readableRegion a) \<and> rg_cursor (al_readableRegion a) = p + 64 \<and>
    unat r + 64 \<le> unat (rg_size (al_readableRegion a)) \<and> fresh_region (al_writeableRegion a)"
proof -
  let ?P = "unat (os_page_size K)"
  let ?w = "region_size (os_page_size K) w" and ?r = "region_size (os_page_size K) (r + 64)"
  have u: "unat (r + 64) = unat r + 64"
    using assms(3) by (simp add: unat_word_ariths)
  have w: "unat w \<le> unat ?w" "unat ?w \<le> unat w + ?P"
    using region_size_exact [OF assms(2), of w] assms(3) by simp_all
  have rr: "unat r + 64 \<le> unat ?r"
    using region_size_exact(1) [OF assms(2), of "r + 64"] assms(3) u by simp
  have ok: "\<not> ?r < 64" "unat (rg_start (al_writeableRegion a)) \<le> unat (rg_start (al_writeableRegion a))"
    using rr by (simp_all add: word_less_nat_alt)
  from assms(1) obtain buffer where a: "al_buffer a = buffer"
    "al_writeableRegion a = \<lparr> rg_size = ?w, rg_start = buffer + os_page_size K, rg_cursor = buffer + os_page_size K \<rparr>"
    "p = buffer + os_page_size K + ?w + os_page_size K"
    "al_readableRegion a = \<lparr> rg_size = ?r, rg_start = p, rg_cursor = p + 64 \<rparr>"
    using ok(1)
    by (auto simp: FIRCLSAllocatorCreate_def Let_def allocate_from_region sizeof_allocator_def
        split: option.splits if_splits)
  have s: "unat (buffer + os_page_size K) = unat buffer + ?P"
    using assms(3) a(1) by (simp add: unat_word_ariths)
  moreover have "unat (buffer + os_page_size K + ?w) = unat buffer + ?P + unat ?w"
    using s w(2) assms(3) a(1) by (subst unat_add_lem [THEN iffD1]) simp_all
  ultimately have "unat p = unat buffer + ?P + unat ?w + ?P"
    unfolding a(3) using w(2) assms(3) a(1) by (subst unat_add_lem [THEN iffD1]) simp_all
  then show ?thesis using a s w rr assms(3) by (simp add: fresh_region_def)
qed

theorem create_layout_witness:
  "\<exists>p a. FIRCLSAllocatorCreate example_os 1000 100 = Some (p, a) \<and> p = rg_start (al_readableRegion a) \<and>
     1000 \<le> unat (rg_size (al_writeableRegion a))"
proof -
  let ?a = "\<lparr> al_buffer = 0x100000, al_protectionEnabled = False,
      al_writeableRegion = \<lparr> rg_size = 0x4000, rg_start = 0x104000, rg_cursor = 0x104000 \<rparr>,
      al_readableRegion = \<lparr> rg_size = 0x4000, rg_start = 0x10C000, rg_cursor = 0x10C040 \<rparr> \<rparr>"
  have "FIRCLSAllocatorCreate example_os 1000 100 = Some (0x10C000, ?a)" by code_simp
  with create_layout [OF this] show ?thesis by (simp add: example_os_def)
qed

end
