(* ===== verification/PbFields.thy ===== *)
theory PbFields
  imports DwarfData
begin

section \<open>nanopb: field descriptions and the field iterator\<close>

text \<open>
  \<open>Pods/nanopb/pb.h\<close> and \<open>pb_common.c\<close>, compiled with the flags of the pod (\<open>PB_FIELD_32BIT\<close>,
  \<open>PB_NO_PACKED_STRUCTS\<close>, \<open>PB_ENABLE_MALLOC\<close>).  A message type is described by a constant array of
  \<open>pb_field_t\<close>, written by a generator and ended by an element with tag 0.

  \<^item> A table, of type \<open>pb_tables\<close>, gives for the address of such an array its elements; a pointer to an
    element of the array, as the iterator keeps it, is the pair of the address \<open>it_start\<close> and the index
    \<open>it_pos\<close>, and using one outside of the array is undefined.  The tables are data the program is
    linked with, a parameter of the model.
  \<^item> \<open>pb_size_t\<close> has 32 bits and so does \<open>pb_ssize_t\<close>, which is read as a signed number.  The C code
    extends both to 64 bits when it adds them to a pointer, which \<open>ucast\<close> and \<open>scast\<close> write out.

  The lemmas show what the iterator promises its callers: \<open>pb_field_iter_next\<close> visits the fields in
  their order, with the address of the data of each, and wraps at the end; \<open>pb_field_iter_find\<close>, which
  starts anywhere, finds a field with the tag exactly when the message type has one.
\<close>

subsection \<open>Descriptions of fields\<close>

type_synonym pb_size_t = u32
type_synonym pb_ssize_t = u32

record pb_field_t =
  fld_tag :: pb_size_t
  fld_type :: u8
  fld_data_offset :: pb_size_t
  fld_size_offset :: pb_ssize_t
  fld_data_size :: pb_size_t
  fld_array_size :: pb_size_t
  fld_ptr :: addr

type_synonym pb_tables = "addr \<Rightarrow> pb_field_t list option"

definition PB_LTYPE_BOOL :: u8 where "PB_LTYPE_BOOL = 0x00"
definition PB_LTYPE_VARINT :: u8 where "PB_LTYPE_VARINT = 0x01"
definition PB_LTYPE_UVARINT :: u8 where "PB_LTYPE_UVARINT = 0x02"
definition PB_LTYPE_SVARINT :: u8 where "PB_LTYPE_SVARINT = 0x03"
definition PB_LTYPE_FIXED32 :: u8 where "PB_LTYPE_FIXED32 = 0x04"
definition PB_LTYPE_FIXED64 :: u8 where "PB_LTYPE_FIXED64 = 0x05"
definition PB_LTYPE_LAST_PACKABLE :: u8 where "PB_LTYPE_LAST_PACKABLE = 0x05"
definition PB_LTYPE_BYTES :: u8 where "PB_LTYPE_BYTES = 0x06"
definition PB_LTYPE_STRING :: u8 where "PB_LTYPE_STRING = 0x07"
definition PB_LTYPE_SUBMESSAGE :: u8 where "PB_LTYPE_SUBMESSAGE = 0x08"
definition PB_LTYPE_EXTENSION :: u8 where "PB_LTYPE_EXTENSION = 0x09"
definition PB_LTYPE_FIXED_LENGTH_BYTES :: u8 where "PB_LTYPE_FIXED_LENGTH_BYTES = 0x0A"

definition PB_HTYPE_REQUIRED :: u8 where "PB_HTYPE_REQUIRED = 0x00"
definition PB_HTYPE_OPTIONAL :: u8 where "PB_HTYPE_OPTIONAL = 0x10"
definition PB_HTYPE_REPEATED :: u8 where "PB_HTYPE_REPEATED = 0x20"
definition PB_HTYPE_ONEOF :: u8 where "PB_HTYPE_ONEOF = 0x30"

definition PB_ATYPE_STATIC :: u8 where "PB_ATYPE_STATIC = 0x00"
definition PB_ATYPE_POINTER :: u8 where "PB_ATYPE_POINTER = 0x80"
definition PB_ATYPE_CALLBACK :: u8 where "PB_ATYPE_CALLBACK = 0x40"

definition PB_ATYPE :: "u8 \<Rightarrow> u8" where "PB_ATYPE x = x AND 0xC0"
definition PB_HTYPE :: "u8 \<Rightarrow> u8" where "PB_HTYPE x = x AND 0x30"
definition PB_LTYPE :: "u8 \<Rightarrow> u8" where "PB_LTYPE x = x AND 0x0F"

definition PB_SIZE_MAX :: pb_size_t where "PB_SIZE_MAX = 0xFFFFFFFF"

lemmas ltypes =
  PB_LTYPE_BOOL_def PB_LTYPE_VARINT_def PB_LTYPE_UVARINT_def PB_LTYPE_SVARINT_def PB_LTYPE_FIXED32_def
  PB_LTYPE_FIXED64_def PB_LTYPE_LAST_PACKABLE_def PB_LTYPE_BYTES_def PB_LTYPE_STRING_def
  PB_LTYPE_SUBMESSAGE_def PB_LTYPE_EXTENSION_def PB_LTYPE_FIXED_LENGTH_BYTES_def

lemmas pb_types = ltypes
  PB_HTYPE_REQUIRED_def PB_HTYPE_OPTIONAL_def PB_HTYPE_REPEATED_def PB_HTYPE_ONEOF_def
  PB_ATYPE_STATIC_def PB_ATYPE_POINTER_def PB_ATYPE_CALLBACK_def

lemma htype_distinct [simp]:
  "PB_HTYPE_REQUIRED \<noteq> PB_HTYPE_OPTIONAL" "PB_HTYPE_REQUIRED \<noteq> PB_HTYPE_REPEATED" "PB_HTYPE_REQUIRED \<noteq> PB_HTYPE_ONEOF"
  "PB_HTYPE_OPTIONAL \<noteq> PB_HTYPE_REQUIRED" "PB_HTYPE_OPTIONAL \<noteq> PB_HTYPE_REPEATED" "PB_HTYPE_OPTIONAL \<noteq> PB_HTYPE_ONEOF"
  "PB_HTYPE_REPEATED \<noteq> PB_HTYPE_REQUIRED" "PB_HTYPE_REPEATED \<noteq> PB_HTYPE_OPTIONAL" "PB_HTYPE_REPEATED \<noteq> PB_HTYPE_ONEOF"
  "PB_HTYPE_ONEOF \<noteq> PB_HTYPE_REQUIRED" "PB_HTYPE_ONEOF \<noteq> PB_HTYPE_OPTIONAL" "PB_HTYPE_ONEOF \<noteq> PB_HTYPE_REPEATED"
  by (simp_all add: pb_types)

lemma atype_distinct [simp]:
  "PB_ATYPE_STATIC \<noteq> PB_ATYPE_POINTER" "PB_ATYPE_STATIC \<noteq> PB_ATYPE_CALLBACK"
  "PB_ATYPE_POINTER \<noteq> PB_ATYPE_STATIC" "PB_ATYPE_POINTER \<noteq> PB_ATYPE_CALLBACK"
  "PB_ATYPE_CALLBACK \<noteq> PB_ATYPE_STATIC" "PB_ATYPE_CALLBACK \<noteq> PB_ATYPE_POINTER"
  by (simp_all add: pb_types)

text \<open>The terminator of every table, \<open>PB_LAST_FIELD\<close>.\<close>

definition PB_LAST_FIELD :: pb_field_t where
  "PB_LAST_FIELD = \<lparr> fld_tag = 0, fld_type = 0, fld_data_offset = 0, fld_size_offset = 0, fld_data_size = 0,
     fld_array_size = 0, fld_ptr = 0 \<rparr>"

subsection \<open>The iterator\<close>

record pb_field_iter_t =
  it_start :: addr
  it_pos :: nat
  it_required_field_index :: u32
  it_dest_struct :: addr
  it_pData :: addr
  it_pSize :: addr

definition field_of :: "pb_tables \<Rightarrow> pb_field_iter_t \<Rightarrow> pb_field_t option" where
  "field_of T iter = do {
     flds \<leftarrow> T (it_start iter);
     if it_pos iter < length flds then Some (flds ! it_pos iter) else None }"

definition pb_field_iter_begin :: "pb_tables \<Rightarrow> addr \<Rightarrow> addr \<Rightarrow> (pb_field_iter_t \<times> bool) option" where
  "pb_field_iter_begin T flds dest_struct = do {
     let iter = \<lparr> it_start = flds, it_pos = 0, it_required_field_index = 0, it_dest_struct = dest_struct,
       it_pData = 0, it_pSize = 0 \<rparr>;
     pos \<leftarrow> field_of T iter;
     let pData = dest_struct + ucast (fld_data_offset pos);
     Some (iter\<lparr>it_pData := pData, it_pSize := pData + scast (fld_size_offset pos)\<rparr>, fld_tag pos \<noteq> 0) }"

definition pb_field_iter_next :: "pb_tables \<Rightarrow> pb_field_iter_t \<Rightarrow> (pb_field_iter_t \<times> bool) option" where
  "pb_field_iter_next T iter = do {
     prev_field \<leftarrow> field_of T iter;
     if fld_tag prev_field = 0 then Some (iter, False)
     else do {
       let iter = iter\<lparr>it_pos := it_pos iter + 1\<rparr>;
       pos \<leftarrow> field_of T iter;
       if fld_tag pos = 0 then do {
         (iter, _) \<leftarrow> pb_field_iter_begin T (it_start iter) (it_dest_struct iter);
         Some (iter, False) }
       else
         let prev_size = (ucast (fld_data_size prev_field) :: u64)
         in if PB_HTYPE (fld_type prev_field) = PB_HTYPE_ONEOF \<and> PB_HTYPE (fld_type pos) = PB_HTYPE_ONEOF \<and>
               fld_data_offset pos = PB_SIZE_MAX
            then Some (iter, True)
            else
              let prev_size =
                    (if PB_ATYPE (fld_type prev_field) = PB_ATYPE_STATIC \<and>
                        PB_HTYPE (fld_type prev_field) = PB_HTYPE_REPEATED
                     then prev_size * ucast (fld_array_size prev_field)
                     else if PB_ATYPE (fld_type prev_field) = PB_ATYPE_POINTER then 8 else prev_size);
                  iter = (if PB_HTYPE (fld_type prev_field) = PB_HTYPE_REQUIRED
                    then iter\<lparr>it_required_field_index := it_required_field_index iter + 1\<rparr> else iter);
                  pData = it_pData iter + prev_size + ucast (fld_data_offset pos)
              in Some (iter\<lparr>it_pData := pData, it_pSize := pData + scast (fld_size_offset pos)\<rparr>, True) } }"

text \<open>The loop of \<open>pb_field_iter_find\<close> is left when it is back at its start; the number of elements of
  the table bounds its turns.\<close>

fun iter_find_loop :: "pb_tables \<Rightarrow> nat \<Rightarrow> nat \<Rightarrow> u32 \<Rightarrow> pb_field_iter_t \<Rightarrow> (pb_field_iter_t \<times> bool) option" where
  "iter_find_loop T 0 start tag iter = None"
| "iter_find_loop T (Suc fuel) start tag iter = do {
     pos \<leftarrow> field_of T iter;
     if fld_tag pos = tag \<and> PB_LTYPE (fld_type pos) \<noteq> PB_LTYPE_EXTENSION then Some (iter, True)
     else do {
       (iter, _) \<leftarrow> pb_field_iter_next T iter;
       if it_pos iter = start then Some (iter, False) else iter_find_loop T fuel start tag iter } }"

definition table_length :: "pb_tables \<Rightarrow> addr \<Rightarrow> nat" where
  "table_length T a = (case T a of None \<Rightarrow> 0 | Some flds \<Rightarrow> length flds)"

definition pb_field_iter_find :: "pb_tables \<Rightarrow> pb_field_iter_t \<Rightarrow> u32 \<Rightarrow> (pb_field_iter_t \<times> bool) option" where
  "pb_field_iter_find T iter tag =
     iter_find_loop T (Suc (table_length T (it_start iter))) (it_pos iter) tag iter"

subsection \<open>The fields in their order\<close>

text \<open>What a well-formed table describes: the fields before the terminator, and for each the address of
  its data and of its count or presence flag in the structure, from the sizes of the fields before it.\<close>

definition table :: "pb_tables \<Rightarrow> addr \<Rightarrow> pb_field_t list \<Rightarrow> bool" where
  "table T a body \<longleftrightarrow> T a = Some (body @ [PB_LAST_FIELD]) \<and> (\<forall>f \<in> set body. fld_tag f \<noteq> 0)"

definition in_union :: "pb_field_t \<Rightarrow> pb_field_t \<Rightarrow> bool" where
  "in_union prev f \<longleftrightarrow> PB_HTYPE (fld_type prev) = PB_HTYPE_ONEOF \<and> PB_HTYPE (fld_type f) = PB_HTYPE_ONEOF \<and>
     fld_data_offset f = PB_SIZE_MAX"

definition field_size :: "pb_field_t \<Rightarrow> u64" where
  "field_size f =
     (if PB_ATYPE (fld_type f) = PB_ATYPE_STATIC \<and> PB_HTYPE (fld_type f) = PB_HTYPE_REPEATED
      then ucast (fld_data_size f) * ucast (fld_array_size f)
      else if PB_ATYPE (fld_type f) = PB_ATYPE_POINTER then 8 else ucast (fld_data_size f))"

fun data_at :: "pb_field_t list \<Rightarrow> addr \<Rightarrow> nat \<Rightarrow> addr" where
  "data_at body dest 0 = dest + ucast (fld_data_offset (body ! 0))"
| "data_at body dest (Suc i) =
     (if in_union (body ! i) (body ! Suc i) then data_at body dest i
      else data_at body dest i + field_size (body ! i) + ucast (fld_data_offset (body ! Suc i)))"

fun size_at :: "pb_field_t list \<Rightarrow> addr \<Rightarrow> nat \<Rightarrow> addr" where
  "size_at body dest 0 = data_at body dest 0 + scast (fld_size_offset (body ! 0))"
| "size_at body dest (Suc i) =
     (if in_union (body ! i) (body ! Suc i) then size_at body dest i
      else data_at body dest (Suc i) + scast (fld_size_offset (body ! Suc i)))"

definition is_required :: "pb_field_t \<Rightarrow> bool" where
  "is_required f \<longleftrightarrow> PB_HTYPE (fld_type f) = PB_HTYPE_REQUIRED"

definition iter_at :: "addr \<Rightarrow> pb_field_t list \<Rightarrow> addr \<Rightarrow> nat \<Rightarrow> pb_field_iter_t" where
  "iter_at a body dest i =
     \<lparr> it_start = a, it_pos = i, it_required_field_index = of_nat (length (filter is_required (take i body))),
       it_dest_struct = dest, it_pData = data_at body dest i, it_pSize = size_at body dest i \<rparr>"

lemma iter_at_simps [simp]:
  "it_start (iter_at a body dest i) = a" "it_pos (iter_at a body dest i) = i"
  "it_dest_struct (iter_at a body dest i) = dest" "it_pData (iter_at a body dest i) = data_at body dest i"
  "it_pSize (iter_at a body dest i) = size_at body dest i"
  by (simp_all add: iter_at_def)

lemma last_field_tag [simp]: "fld_tag PB_LAST_FIELD = 0"
  by (simp add: PB_LAST_FIELD_def)

lemma table_length: "table T a body \<Longrightarrow> table_length T a = Suc (length body)"
  by (simp add: table_def table_length_def)

lemma field_of_at:
  "table T a body \<Longrightarrow> it_start iter = a \<Longrightarrow> it_pos iter < length body \<Longrightarrow>
     field_of T iter = Some (body ! it_pos iter)"
  by (simp add: field_of_def table_def nth_append)

lemma field_of_end:
  "table T a body \<Longrightarrow> it_start iter = a \<Longrightarrow> it_pos iter = length body \<Longrightarrow> field_of T iter = Some PB_LAST_FIELD"
  by (simp add: field_of_def table_def nth_append)

lemma table_tag: "table T a body \<Longrightarrow> i < length body \<Longrightarrow> fld_tag (body ! i) \<noteq> 0"
  by (simp add: table_def)

lemma iter_begin:
  assumes "table T a body" "body \<noteq> []"
  shows "pb_field_iter_begin T a dest = Some (iter_at a body dest 0, True)"
  using assms by (simp add: pb_field_iter_begin_def field_of_at [OF assms(1)] table_tag iter_at_def Let_def)

lemma iter_begin_empty:
  assumes "table T a []"
  shows "\<exists>iter. pb_field_iter_begin T a dest = Some (iter, False) \<and> it_start iter = a \<and> it_pos iter = 0"
  using assms by (simp add: pb_field_iter_begin_def field_of_end [OF assms] Let_def)

lemma iter_next:
  assumes "table T a body" "Suc i < length body"
  shows "pb_field_iter_next T (iter_at a body dest i) = Some (iter_at a body dest (Suc i), True)"
proof -
  have u: "PB_HTYPE_ONEOF \<noteq> PB_HTYPE_REQUIRED" by (simp add: PB_HTYPE_ONEOF_def PB_HTYPE_REQUIRED_def)
  have "take (Suc i) body = take i body @ [body ! i]"
    using assms(2) by (simp add: take_Suc_conv_app_nth)
  with assms u show ?thesis
    by (simp add: pb_field_iter_next_def field_of_at [OF assms(1)] table_tag iter_at_def in_union_def
        field_size_def is_required_def Let_def)
qed

lemma iter_next_wraps:
  assumes "table T a body" "Suc i = length body"
  shows "pb_field_iter_next T (iter_at a body dest i) = Some (iter_at a body dest 0, False)"
proof -
  have "i < length body" "body \<noteq> []" using assms(2) by auto
  with assms show ?thesis
    by (simp add: pb_field_iter_next_def field_of_at [OF assms(1)] field_of_end [OF assms(1)] table_tag
        iter_begin [OF assms(1)])
qed

lemma iter_next_mod:
  assumes "table T a body" "i < length body"
  shows "\<exists>b. pb_field_iter_next T (iter_at a body dest i) = Some (iter_at a body dest (Suc i mod length body), b)"
  using iter_next [OF assms(1)] iter_next_wraps [OF assms(1)] assms(2)
  by (cases "Suc i = length body") auto

subsection \<open>Finding a field\<close>

definition field_matches :: "u32 \<Rightarrow> pb_field_t \<Rightarrow> bool" where
  "field_matches tag f \<longleftrightarrow> fld_tag f = tag \<and> PB_LTYPE (fld_type f) \<noteq> PB_LTYPE_EXTENSION"

lemma suc_mod_eq:
  assumes "(k + d) mod n = s" "Suc k mod n = s" "0 < d" "d \<le> n"
  shows "d = (1::nat)"
proof -
  from assms(1-3) have "(Suc k + (d - 1)) mod n = Suc k mod n" by simp
  then have "n dvd d - 1" by (metis add_diff_cancel_left' le_add1 mod_eq_dvd_iff_nat)
  with assms(3,4) show ?thesis by (auto dest: dvd_imp_le)
qed

lemma find_loop:
  assumes t: "table T a body"
  shows "k < length body \<Longrightarrow> 0 < d \<Longrightarrow> d \<le> length body \<Longrightarrow> (k + d) mod length body = s \<Longrightarrow> d \<le> fuel \<Longrightarrow>
    if \<exists>e<d. field_matches tag (body ! ((k + e) mod length body))
    then \<exists>j<length body. field_matches tag (body ! j) \<and>
           iter_find_loop T fuel s tag (iter_at a body dest k) = Some (iter_at a body dest j, True)
    else iter_find_loop T fuel s tag (iter_at a body dest k) = Some (iter_at a body dest s, False)"
proof (induction d arbitrary: k fuel)
  case 0
  then show ?case by simp
next
  case (Suc d)
  then obtain fuel' where fuel: "fuel = Suc fuel'" by (cases fuel) auto
  let ?n = "length body" and ?k = "Suc k mod length body"
  have here: "field_of T (iter_at a body dest k) = Some (body ! k)"
    using Suc.prems(1) by (simp add: field_of_at [OF t])
  obtain b where step: "pb_field_iter_next T (iter_at a body dest k) = Some (iter_at a body dest ?k, b)"
    using iter_next_mod [OF t Suc.prems(1)] by blast
  show ?case
  proof (cases "field_matches tag (body ! k)")
    case True
    then have "iter_find_loop T fuel s tag (iter_at a body dest k) = Some (iter_at a body dest k, True)"
      by (simp add: fuel here field_matches_def)
    moreover have "\<exists>e<Suc d. field_matches tag (body ! ((k + e) mod ?n))"
      using True Suc.prems(1) by (intro exI [of _ 0]) simp
    ultimately show ?thesis using True Suc.prems(1) by auto
  next
    case False
    have loop: "iter_find_loop T fuel s tag (iter_at a body dest k) =
      (if ?k = s then Some (iter_at a body dest ?k, False)
       else iter_find_loop T fuel' s tag (iter_at a body dest ?k))"
      using False by (auto simp add: fuel here step field_matches_def)
    have shift: "(\<exists>e<Suc d. field_matches tag (body ! ((k + e) mod ?n))) \<longleftrightarrow>
        (\<exists>e<d. field_matches tag (body ! ((?k + e) mod ?n)))"
      using False Suc.prems(1) by (simp add: Ex_less_Suc2 mod_Suc_eq mod_add_left_eq)
    show ?thesis
    proof (cases "?k = s")
      case True
      then have "d = 0" using suc_mod_eq [of k "Suc d" ?n s] Suc.prems by simp
      then show ?thesis using True False Suc.prems(1) by (simp add: loop del: iter_find_loop.simps)
    next
      case ne: False
      with Suc.prems have "0 < d" by (cases d) auto
      moreover have "?k < ?n" using Suc.prems(1) by (intro mod_less_divisor) linarith
      moreover have "(?k + d) mod ?n = s" using Suc.prems(4) by (simp add: mod_add_left_eq)
      ultimately show ?thesis
        using Suc.IH [of ?k fuel'] Suc.prems(3,5) ne
        by (simp only: loop shift) (simp add: fuel)
    qed
  qed
qed

lemma iter_find:
  assumes t: "table T a body" and i: "i < length body"
  shows "if \<exists>f \<in> set body. field_matches tag f
    then \<exists>j<length body. field_matches tag (body ! j) \<and>
           pb_field_iter_find T (iter_at a body dest i) tag = Some (iter_at a body dest j, True)
    else pb_field_iter_find T (iter_at a body dest i) tag = Some (iter_at a body dest i, False)"
proof -
  let ?n = "length body"
  have "(\<exists>e<?n. field_matches tag (body ! ((i + e) mod ?n))) \<longleftrightarrow> (\<exists>f \<in> set body. field_matches tag f)"
  proof
    assume "\<exists>e<?n. field_matches tag (body ! ((i + e) mod ?n))"
    moreover have "(i + e) mod ?n < ?n" for e using i by (intro mod_less_divisor) linarith
    ultimately show "\<exists>f \<in> set body. field_matches tag f" by (meson nth_mem)
  next
    assume "\<exists>f \<in> set body. field_matches tag f"
    then obtain j where j: "j < ?n" "field_matches tag (body ! j)" by (auto simp: in_set_conv_nth)
    have "(i + (?n + j - i) mod ?n) mod ?n = j"
      using i j(1) by (simp add: mod_add_right_eq)
    moreover have "(?n + j - i) mod ?n < ?n" using i by (intro mod_less_divisor) linarith
    ultimately show "\<exists>e<?n. field_matches tag (body ! ((i + e) mod ?n))" using j(2) by metis
  qed
  note this [symmetric, simp]
  have "0 < ?n" "(i + ?n) mod ?n = i" using i by auto
  then show ?thesis
    using find_loop [OF t i, of ?n i "Suc (Suc ?n)" tag dest]
    unfolding pb_field_iter_find_def iter_at_simps table_length [OF t] by simp
qed

text \<open>On an empty message type the iterator points to the terminator, and a search for tag 0 succeeds there.\<close>

lemma iter_find_empty:
  assumes "table T a []" "pb_field_iter_begin T a dest = Some (iter, b)"
  shows "pb_field_iter_find T iter tag = Some (iter, tag = 0)"
proof -
  from iter_begin_empty [OF assms(1), of dest] assms(2)
  have it: "it_start iter = a" "it_pos iter = 0" by auto
  have "field_of T iter = Some PB_LAST_FIELD" using it by (simp add: field_of_end [OF assms(1)])
  moreover from this have "pb_field_iter_next T iter = Some (iter, False)"
    by (simp add: pb_field_iter_next_def)
  moreover have "PB_LTYPE (fld_type PB_LAST_FIELD) \<noteq> PB_LTYPE_EXTENSION"
    by (simp add: PB_LAST_FIELD_def PB_LTYPE_def PB_LTYPE_EXTENSION_def)
  ultimately show ?thesis
    using it by (auto simp: pb_field_iter_find_def table_length [OF assms(1)])
qed

end
