(* ===== verification/PbEncode.thy ===== *)
theory PbEncode
  imports PbFields
begin

section \<open>nanopb: the encoder\<close>

text \<open>
  \<open>Pods/nanopb/pb_encode.c\<close>, every function of it.

  \<^item> \<open>pb_ostream_t\<close> is the output stream.  Its \<open>callback\<close> is a function of the stream's \<open>state\<close> and the
    bytes to write; \<open>'w\<close> is the world it writes to, which every encoder threads.  No callback makes
    a sizing stream.  For a stream over a buffer the callback is \<open>buf_write\<close> and the world is the memory
    that holds the buffer; it is separate from the memory \<open>en_mem\<close> the message is read from, that is,
    the buffer does not overlap the message.
  \<^item> \<open>pb_encode_env\<close> holds what an encoding reads: the tables, the memory of the message and, by address,
    the application's functions in callback fields and extensions, which are parameters.
  \<^item> \<open>pb_encode\<close> calls itself for a submessage through the table of encoders.  The functions in between
    take the recursive call as the argument \<open>sub\<close> (and \<open>dflt\<close> for the test of the default value), and
    \<open>pb_encode\<close> ties the knot with the nesting of messages as fuel.  The loops over the fields are
    bounded by the length of the table, those over the items of an array by their number.
  \<^item> \<open>and_then f g\<close> is the sequence \<open>if (!f(...)) return false; return g(...)\<close> of the source.
\<close>

subsection \<open>Streams\<close>

type_synonym 'w write_callback = "addr \<Rightarrow> u8 list \<Rightarrow> 'w \<Rightarrow> (addr \<times> 'w \<times> bool) option"

record 'w pb_ostream_t =
  os_callback :: "'w write_callback option"
  os_state :: addr
  os_max_size :: u64
  os_bytes_written :: u64
  os_errmsg :: "string option"

type_synonym 'w enc = "'w pb_ostream_t \<Rightarrow> 'w \<Rightarrow> ('w pb_ostream_t \<times> 'w \<times> bool) option"

text \<open>A pointer to the bytes to write, as what can be read through it: the first \<open>n\<close> bytes, if they are there.\<close>

type_synonym cbuf = "nat \<Rightarrow> u8 list option"

definition null_buf :: cbuf where
  "null_buf n = (if n = 0 then Some [] else None)"

definition local_buf :: "u8 list \<Rightarrow> cbuf" where
  "local_buf bs n = (if n \<le> length bs then Some (take n bs) else None)"

definition mem_buf :: "mem \<Rightarrow> addr \<Rightarrow> cbuf" where
  "mem_buf m p n = load_bytes m p n"

definition PB_RETURN_ERROR :: "string \<Rightarrow> 'w enc" where
  "PB_RETURN_ERROR msg stream w =
     Some (stream\<lparr>os_errmsg := (case os_errmsg stream of None \<Rightarrow> Some msg | Some e \<Rightarrow> Some e)\<rparr>, w, False)"

definition enc_return :: "bool \<Rightarrow> 'w enc" where
  "enc_return b stream w = Some (stream, w, b)"

definition and_then :: "'w enc \<Rightarrow> 'w enc \<Rightarrow> 'w enc" where
  "and_then f g stream w = do {
     (stream, w, ok) \<leftarrow> f stream w;
     if ok then g stream w else Some (stream, w, False) }"

text \<open>\<open>buf_write\<close> copies byte by byte; the source and the destination do not overlap.\<close>

definition buf_write :: "mem write_callback" where
  "buf_write state buf w = do {
     w \<leftarrow> store_bytes w state buf;
     Some (state + of_nat (length buf), w, True) }"

definition pb_ostream_from_buffer :: "addr \<Rightarrow> u64 \<Rightarrow> mem pb_ostream_t" where
  "pb_ostream_from_buffer buf bufsize =
     \<lparr> os_callback = Some buf_write, os_state = buf, os_max_size = bufsize, os_bytes_written = 0, os_errmsg = None \<rparr>"

definition PB_OSTREAM_SIZING :: "'w pb_ostream_t" where
  "PB_OSTREAM_SIZING =
     \<lparr> os_callback = None, os_state = 0, os_max_size = 0, os_bytes_written = 0, os_errmsg = None \<rparr>"

definition pb_write :: "cbuf \<Rightarrow> u64 \<Rightarrow> 'w enc" where
  "pb_write buf count stream w =
     (case (if 0 < count then os_callback stream else None) of
        None \<Rightarrow> Some (stream\<lparr>os_bytes_written := os_bytes_written stream + count\<rparr>, w, True)
      | Some callback \<Rightarrow>
          if os_bytes_written stream + count < os_bytes_written stream \<or>
             os_max_size stream < os_bytes_written stream + count
          then PB_RETURN_ERROR ''stream full'' stream w
          else do {
            bs \<leftarrow> buf (unat count);
            (state, w, ok) \<leftarrow> callback (os_state stream) bs w;
            let stream = stream\<lparr>os_state := state\<rparr>;
            if \<not> ok then PB_RETURN_ERROR ''io error'' stream w
            else Some (stream\<lparr>os_bytes_written := os_bytes_written stream + count\<rparr>, w, True) })"

subsection \<open>Integers\<close>

text \<open>The loop fills the local \<open>buffer[10]\<close>; a write behind it is undefined.\<close>

function varint_loop :: "u64 \<Rightarrow> u8 list \<Rightarrow> u8 list option" where
  "varint_loop value buffer =
     (if value = 0 then Some buffer
      else if 10 \<le> length buffer then None
      else varint_loop (drop_bit 7 value) (buffer @ [ucast ((value AND 0x7F) OR 0x80)]))"
  by pat_completeness auto
termination by (relation "measure (\<lambda>(value, buffer). 10 - length buffer)") auto

declare varint_loop.simps [simp del]

definition pb_encode_varint :: "u64 \<Rightarrow> 'w enc" where
  "pb_encode_varint value stream w =
     (if value \<le> 0x7F then pb_write (local_buf [ucast value]) 1 stream w
      else do {
        buffer \<leftarrow> varint_loop value [];
        let i = length buffer;
        let buffer = buffer[i - 1 := buffer ! (i - 1) AND 0x7F];
        pb_write (local_buf buffer) (of_nat i) stream w })"

definition pb_encode_svarint :: "u64 \<Rightarrow> 'w enc" where
  "pb_encode_svarint value =
     pb_encode_varint (if sint value < 0 then NOT (push_bit 1 value) else push_bit 1 value)"

definition pb_encode_fixed32 :: "mem \<Rightarrow> addr \<Rightarrow> 'w enc" where
  "pb_encode_fixed32 m value stream w = do {
     (val :: u32) \<leftarrow> load_le 4 m value;
     pb_write (local_buf [ucast (val AND 0xFF), ucast (drop_bit 8 val AND 0xFF), ucast (drop_bit 16 val AND 0xFF),
       ucast (drop_bit 24 val AND 0xFF)]) 4 stream w }"

definition pb_encode_fixed64 :: "mem \<Rightarrow> addr \<Rightarrow> 'w enc" where
  "pb_encode_fixed64 m value stream w = do {
     (val :: u64) \<leftarrow> load_le 8 m value;
     pb_write (local_buf [ucast (val AND 0xFF), ucast (drop_bit 8 val AND 0xFF), ucast (drop_bit 16 val AND 0xFF),
       ucast (drop_bit 24 val AND 0xFF), ucast (drop_bit 32 val AND 0xFF), ucast (drop_bit 40 val AND 0xFF),
       ucast (drop_bit 48 val AND 0xFF), ucast (drop_bit 56 val AND 0xFF)]) 8 stream w }"

definition PB_WT_VARINT :: u32 where "PB_WT_VARINT = 0"
definition PB_WT_64BIT :: u32 where "PB_WT_64BIT = 1"
definition PB_WT_STRING :: u32 where "PB_WT_STRING = 2"
definition PB_WT_32BIT :: u32 where "PB_WT_32BIT = 5"

lemmas wire_types = PB_WT_VARINT_def PB_WT_64BIT_def PB_WT_STRING_def PB_WT_32BIT_def

definition pb_encode_tag :: "u32 \<Rightarrow> u32 \<Rightarrow> 'w enc" where
  "pb_encode_tag wiretype field_number = pb_encode_varint (push_bit 3 (ucast field_number) OR ucast wiretype)"

definition pb_encode_tag_for_field :: "pb_field_t \<Rightarrow> 'w enc" where
  "pb_encode_tag_for_field field =
     (let ltype = PB_LTYPE (fld_type field) in
      if ltype = PB_LTYPE_BOOL \<or> ltype = PB_LTYPE_VARINT \<or> ltype = PB_LTYPE_UVARINT \<or> ltype = PB_LTYPE_SVARINT
      then pb_encode_tag PB_WT_VARINT (fld_tag field)
      else if ltype = PB_LTYPE_FIXED32 then pb_encode_tag PB_WT_32BIT (fld_tag field)
      else if ltype = PB_LTYPE_FIXED64 then pb_encode_tag PB_WT_64BIT (fld_tag field)
      else if ltype = PB_LTYPE_BYTES \<or> ltype = PB_LTYPE_STRING \<or> ltype = PB_LTYPE_SUBMESSAGE \<or>
              ltype = PB_LTYPE_FIXED_LENGTH_BYTES
      then pb_encode_tag PB_WT_STRING (fld_tag field)
      else PB_RETURN_ERROR ''invalid field type'')"

definition pb_encode_string :: "cbuf \<Rightarrow> u64 \<Rightarrow> 'w enc" where
  "pb_encode_string buffer n = and_then (pb_encode_varint n) (pb_write buffer n)"

subsection \<open>Encoders of single values\<close>

record 'w pb_encode_env =
  en_tables :: pb_tables
  en_mem :: mem
  en_callback :: "addr \<Rightarrow> pb_field_t \<Rightarrow> addr \<Rightarrow> 'w enc"
  en_extension :: "addr \<Rightarrow> addr \<Rightarrow> 'w enc"

type_synonym 'w pb_encoder_t = "pb_field_t \<Rightarrow> addr \<Rightarrow> 'w enc"

text \<open>The encoding of the message of a table in a structure: what \<open>pb_encode\<close> is called for.\<close>

type_synonym 'w sub_encoder = "addr \<Rightarrow> addr \<Rightarrow> 'w enc"

definition safe_read_bool :: "mem \<Rightarrow> addr \<Rightarrow> bool option" where
  "safe_read_bool m p = do { b \<leftarrow> m p; Some (b \<noteq> 0) }"

definition pb_enc_bool :: "'w pb_encode_env \<Rightarrow> 'w pb_encoder_t" where
  "pb_enc_bool V field src stream w = do {
     b \<leftarrow> safe_read_bool (en_mem V) src;
     pb_encode_varint (if b then 1 else 0) stream w }"

text \<open>The value of an integer field of 1, 2, 4 or 8 bytes, sign or zero extended to 64 bits; \<open>None\<close> inside for
  another size.\<close>

definition read_signed :: "mem \<Rightarrow> pb_size_t \<Rightarrow> addr \<Rightarrow> u64 option option" where
  "read_signed m data_size src =
     (if data_size = 1 then do { (v :: u8) \<leftarrow> load_le 1 m src; Some (Some (scast v)) }
      else if data_size = 2 then do { (v :: u16) \<leftarrow> load_le 2 m src; Some (Some (scast v)) }
      else if data_size = 4 then do { (v :: u32) \<leftarrow> load_le 4 m src; Some (Some (scast v)) }
      else if data_size = 8 then do { v \<leftarrow> load_le 8 m src; Some (Some v) }
      else Some None)"

definition read_unsigned :: "mem \<Rightarrow> pb_size_t \<Rightarrow> addr \<Rightarrow> u64 option option" where
  "read_unsigned m data_size src =
     (if data_size = 1 then do { (v :: u8) \<leftarrow> load_le 1 m src; Some (Some (ucast v)) }
      else if data_size = 2 then do { (v :: u16) \<leftarrow> load_le 2 m src; Some (Some (ucast v)) }
      else if data_size = 4 then do { (v :: u32) \<leftarrow> load_le 4 m src; Some (Some (ucast v)) }
      else if data_size = 8 then do { v \<leftarrow> load_le 8 m src; Some (Some v) }
      else Some None)"

definition pb_enc_varint :: "'w pb_encode_env \<Rightarrow> 'w pb_encoder_t" where
  "pb_enc_varint V field src stream w = do {
     r \<leftarrow> read_signed (en_mem V) (fld_data_size field) src;
     case r of
       None \<Rightarrow> PB_RETURN_ERROR ''invalid data_size'' stream w
     | Some value \<Rightarrow> pb_encode_varint value stream w }"

definition pb_enc_uvarint :: "'w pb_encode_env \<Rightarrow> 'w pb_encoder_t" where
  "pb_enc_uvarint V field src stream w = do {
     r \<leftarrow> read_unsigned (en_mem V) (fld_data_size field) src;
     case r of
       None \<Rightarrow> PB_RETURN_ERROR ''invalid data_size'' stream w
     | Some value \<Rightarrow> pb_encode_varint value stream w }"

definition pb_enc_svarint :: "'w pb_encode_env \<Rightarrow> 'w pb_encoder_t" where
  "pb_enc_svarint V field src stream w = do {
     r \<leftarrow> read_signed (en_mem V) (fld_data_size field) src;
     case r of
       None \<Rightarrow> PB_RETURN_ERROR ''invalid data_size'' stream w
     | Some value \<Rightarrow> pb_encode_svarint value stream w }"

definition pb_enc_fixed64 :: "'w pb_encode_env \<Rightarrow> 'w pb_encoder_t" where
  "pb_enc_fixed64 V field src = pb_encode_fixed64 (en_mem V) src"

definition pb_enc_fixed32 :: "'w pb_encode_env \<Rightarrow> 'w pb_encoder_t" where
  "pb_enc_fixed32 V field src = pb_encode_fixed32 (en_mem V) src"

definition PB_BYTES_ARRAY_T_ALLOCSIZE :: "u64 \<Rightarrow> u64" where
  "PB_BYTES_ARRAY_T_ALLOCSIZE n = n + 4"

definition pb_enc_bytes :: "'w pb_encode_env \<Rightarrow> 'w pb_encoder_t" where
  "pb_enc_bytes V field src stream w =
     (if src = 0 then pb_encode_string null_buf 0 stream w
      else do {
        (n :: pb_size_t) \<leftarrow> load_le 4 (en_mem V) src;
        let allocsize = PB_BYTES_ARRAY_T_ALLOCSIZE (ucast n);
        if allocsize < ucast n \<or>
           PB_ATYPE (fld_type field) = PB_ATYPE_STATIC \<and> ucast (fld_data_size field) < allocsize
        then PB_RETURN_ERROR ''bytes size exceeded'' stream w
        else pb_encode_string (mem_buf (en_mem V) (src + 4)) (ucast n) stream w })"

text \<open>The number of bytes before the first zero byte among the first \<open>n\<close>.\<close>

fun pb_strnlen :: "mem \<Rightarrow> addr \<Rightarrow> nat \<Rightarrow> nat option" where
  "pb_strnlen m p 0 = Some 0"
| "pb_strnlen m p (Suc n) = do {
     b \<leftarrow> m p;
     if b = 0 then Some 0 else do { k \<leftarrow> pb_strnlen m (p + 1) n; Some (Suc k) } }"

definition pb_enc_string :: "'w pb_encode_env \<Rightarrow> 'w pb_encoder_t" where
  "pb_enc_string V field src stream w = do {
     let max_size = (if PB_ATYPE (fld_type field) = PB_ATYPE_POINTER then - 1 else ucast (fld_data_size field) :: u64);
     n \<leftarrow> (if src = 0 then Some 0 else pb_strnlen (en_mem V) src (unat max_size));
     pb_encode_string (mem_buf (en_mem V) src) (of_nat n) stream w }"

definition pb_enc_fixed_length_bytes :: "'w pb_encode_env \<Rightarrow> 'w pb_encoder_t" where
  "pb_enc_fixed_length_bytes V field src =
     pb_encode_string (mem_buf (en_mem V) src) (ucast (fld_data_size field))"

subsection \<open>Submessages\<close>

definition pb_encode_submessage :: "'w sub_encoder \<Rightarrow> addr \<Rightarrow> addr \<Rightarrow> 'w enc" where
  "pb_encode_submessage sub flds src_struct stream w = do {
     (substream, w, ok) \<leftarrow> sub flds src_struct PB_OSTREAM_SIZING w;
     if \<not> ok then Some (stream\<lparr>os_errmsg := os_errmsg substream\<rparr>, w, False)
     else
       let n = os_bytes_written substream in
       and_then (pb_encode_varint n) (\<lambda>stream w.
         case os_callback stream of
           None \<Rightarrow> pb_write null_buf n stream w
         | Some callback \<Rightarrow>
             if os_max_size stream < os_bytes_written stream + n
             then PB_RETURN_ERROR ''stream full'' stream w
             else do {
               let substream = \<lparr> os_callback = Some callback, os_state = os_state stream, os_max_size = n,
                 os_bytes_written = 0, os_errmsg = None \<rparr>;
               (substream, w, status) \<leftarrow> sub flds src_struct substream w;
               let stream = stream\<lparr>os_bytes_written := os_bytes_written stream + os_bytes_written substream,
                 os_state := os_state substream, os_errmsg := os_errmsg substream\<rparr>;
               if os_bytes_written substream \<noteq> n then PB_RETURN_ERROR ''submsg size changed'' stream w
               else Some (stream, w, status) }) stream w }"

definition pb_enc_submessage :: "'w sub_encoder \<Rightarrow> 'w pb_encoder_t" where
  "pb_enc_submessage sub field src =
     (if fld_ptr field = 0 then PB_RETURN_ERROR ''invalid field descriptor''
      else pb_encode_submessage sub (fld_ptr field) src)"

text \<open>The table of encoders: no entry behind its end, and a null function for extensions.\<close>

definition PB_ENCODERS :: "'w sub_encoder \<Rightarrow> 'w pb_encode_env \<Rightarrow> u8 \<Rightarrow> 'w pb_encoder_t option" where
  "PB_ENCODERS sub V ltype =
     (if ltype = PB_LTYPE_BOOL then Some (pb_enc_bool V)
      else if ltype = PB_LTYPE_VARINT then Some (pb_enc_varint V)
      else if ltype = PB_LTYPE_UVARINT then Some (pb_enc_uvarint V)
      else if ltype = PB_LTYPE_SVARINT then Some (pb_enc_svarint V)
      else if ltype = PB_LTYPE_FIXED32 then Some (pb_enc_fixed32 V)
      else if ltype = PB_LTYPE_FIXED64 then Some (pb_enc_fixed64 V)
      else if ltype = PB_LTYPE_BYTES then Some (pb_enc_bytes V)
      else if ltype = PB_LTYPE_STRING then Some (pb_enc_string V)
      else if ltype = PB_LTYPE_SUBMESSAGE then Some (pb_enc_submessage sub)
      else if ltype = PB_LTYPE_EXTENSION then Some (\<lambda>field src stream w. None)
      else if ltype = PB_LTYPE_FIXED_LENGTH_BYTES then Some (pb_enc_fixed_length_bytes V)
      else None)"

subsection \<open>Arrays\<close>

fun encode_items :: "'w pb_encoder_t \<Rightarrow> pb_field_t \<Rightarrow> nat \<Rightarrow> addr \<Rightarrow> 'w enc" where
  "encode_items func field 0 p = enc_return True"
| "encode_items func field (Suc n) p =
     and_then (func field p) (encode_items func field n (p + ucast (fld_data_size field)))"

fun encode_tagged_items :: "mem \<Rightarrow> 'w pb_encoder_t \<Rightarrow> pb_field_t \<Rightarrow> nat \<Rightarrow> addr \<Rightarrow> 'w enc" where
  "encode_tagged_items m func field 0 p = enc_return True"
| "encode_tagged_items m func field (Suc n) p =
     and_then (pb_encode_tag_for_field field)
       (and_then
         (\<lambda>stream w.
           if PB_ATYPE (fld_type field) = PB_ATYPE_POINTER \<and>
              (PB_LTYPE (fld_type field) = PB_LTYPE_STRING \<or> PB_LTYPE (fld_type field) = PB_LTYPE_BYTES)
           then do { q \<leftarrow> load_le 8 m p; func field q stream w }
           else func field p stream w)
         (encode_tagged_items m func field n (p + ucast (fld_data_size field))))"

text \<open>The size of the data of a packed array; for numbers of variable length the items are encoded into a
  stream that counts.\<close>

definition packed_size ::
  "'w pb_encoder_t \<Rightarrow> pb_field_t \<Rightarrow> addr \<Rightarrow> u64 \<Rightarrow> 'w \<Rightarrow> (u64 \<times> 'w \<times> bool) option" where
  "packed_size func field pData count w =
     (if PB_LTYPE (fld_type field) = PB_LTYPE_FIXED32 then Some (4 * count, w, True)
      else if PB_LTYPE (fld_type field) = PB_LTYPE_FIXED64 then Some (8 * count, w, True)
      else do {
        (sizestream, w, ok) \<leftarrow> encode_items func field (unat count) pData PB_OSTREAM_SIZING w;
        Some (os_bytes_written sizestream, w, ok) })"

definition encode_array :: "mem \<Rightarrow> pb_field_t \<Rightarrow> addr \<Rightarrow> u64 \<Rightarrow> 'w pb_encoder_t \<Rightarrow> 'w enc" where
  "encode_array m field pData count func =
     (if count = 0 then enc_return True
      else if PB_ATYPE (fld_type field) \<noteq> PB_ATYPE_POINTER \<and> ucast (fld_array_size field) < count
      then PB_RETURN_ERROR ''array max size exceeded''
      else if PB_LTYPE (fld_type field) \<le> PB_LTYPE_LAST_PACKABLE then
        and_then (pb_encode_tag PB_WT_STRING (fld_tag field)) (\<lambda>stream w. do {
          (n, w, ok) \<leftarrow> packed_size func field pData count w;
          if \<not> ok then Some (stream, w, False)
          else and_then (pb_encode_varint n) (\<lambda>stream w.
            case os_callback stream of
              None \<Rightarrow> pb_write null_buf n stream w
            | Some _ \<Rightarrow> encode_items func field (unat count) pData stream w) stream w })
      else encode_tagged_items m func field (unat count) pData)"

subsection \<open>Default values\<close>

fun bytes_zero :: "mem \<Rightarrow> addr \<Rightarrow> nat \<Rightarrow> bool option" where
  "bytes_zero m p 0 = Some True"
| "bytes_zero m p (Suc n) = do { b \<leftarrow> m p; if b \<noteq> 0 then Some False else bytes_zero m (p + 1) n }"

fun fields_default_loop ::
  "nat \<Rightarrow> (pb_field_t \<Rightarrow> addr \<Rightarrow> bool option) \<Rightarrow> pb_tables \<Rightarrow> pb_field_iter_t \<Rightarrow> bool option" where
  "fields_default_loop 0 dflt T iter = None"
| "fields_default_loop (Suc fuel) dflt T iter = do {
     pos \<leftarrow> field_of T iter;
     z \<leftarrow> dflt pos (it_pData iter);
     if \<not> z then Some False
     else do {
       (iter, more) \<leftarrow> pb_field_iter_next T iter;
       if more then fields_default_loop fuel dflt T iter else Some True } }"

definition default_step ::
  "(pb_field_t \<Rightarrow> addr \<Rightarrow> bool option) \<Rightarrow> pb_tables \<Rightarrow> mem \<Rightarrow> pb_field_t \<Rightarrow> addr \<Rightarrow> bool option" where
  "default_step dflt T m field pData =
     (let type = fld_type field; pSize = pData + scast (fld_size_offset field) in
      if PB_HTYPE type = PB_HTYPE_REQUIRED then Some False
      else if PB_HTYPE type = PB_HTYPE_REPEATED \<and> fld_size_offset field \<noteq> 0 then
        do { (count :: pb_size_t) \<leftarrow> load_le 4 m pSize; Some (count = 0) }
      else if PB_HTYPE type = PB_HTYPE_REPEATED \<and> PB_ATYPE type = PB_ATYPE_STATIC then Some False
      else if PB_HTYPE type = PB_HTYPE_ONEOF then
        do { (which :: pb_size_t) \<leftarrow> load_le 4 m pSize; Some (which = 0) }
      else if PB_HTYPE type = PB_HTYPE_OPTIONAL \<and> fld_size_offset field \<noteq> 0 then
        do { has \<leftarrow> safe_read_bool m pSize; Some (\<not> has) }
      else if PB_ATYPE type = PB_ATYPE_STATIC \<and> PB_LTYPE type = PB_LTYPE_BYTES then
        do { (n :: pb_size_t) \<leftarrow> load_le 4 m pData; Some (n = 0) }
      else if PB_ATYPE type = PB_ATYPE_STATIC \<and> PB_LTYPE type = PB_LTYPE_STRING then
        do { b \<leftarrow> m pData; Some (b = 0) }
      else if PB_ATYPE type = PB_ATYPE_STATIC \<and> PB_LTYPE type = PB_LTYPE_FIXED_LENGTH_BYTES then
        Some (fld_data_size field = 0)
      else if PB_ATYPE type = PB_ATYPE_STATIC \<and> PB_LTYPE type = PB_LTYPE_SUBMESSAGE then do {
        (iter, ok) \<leftarrow> pb_field_iter_begin T (fld_ptr field) pData;
        if ok then fields_default_loop (table_length T (fld_ptr field)) dflt T iter else Some True }
      else if PB_ATYPE type = PB_ATYPE_POINTER \<and> PB_LTYPE_LAST_PACKABLE < PB_LTYPE type then
        do { (p :: addr) \<leftarrow> load_le 8 m pData; Some (p = 0) }
      else bytes_zero m pData (unat (fld_data_size field)))"

fun pb_check_proto3_default_value :: "nat \<Rightarrow> pb_tables \<Rightarrow> mem \<Rightarrow> pb_field_t \<Rightarrow> addr \<Rightarrow> bool option" where
  "pb_check_proto3_default_value 0 T m = (\<lambda>field pData. None)"
| "pb_check_proto3_default_value (Suc n) T m = default_step (pb_check_proto3_default_value n T m) T m"

subsection \<open>Fields\<close>

type_synonym default_check = "pb_field_t \<Rightarrow> addr \<Rightarrow> bool option"

text \<open>\<open>pSize\<close> is the address of the flag or count in the message, or \<open>None\<close> for the local \<open>implicit_has\<close>.\<close>

definition encode_basic_field ::
  "default_check \<Rightarrow> 'w sub_encoder \<Rightarrow> 'w pb_encode_env \<Rightarrow> pb_field_t \<Rightarrow> addr \<Rightarrow> 'w enc" where
  "encode_basic_field dflt sub V field pData stream w = do {
     let type = fld_type field;
     let m = en_mem V;
     func \<leftarrow> PB_ENCODERS sub V (PB_LTYPE type);
     (pSize, implicit_has) \<leftarrow>
       (if fld_size_offset field \<noteq> 0 then Some (Some (pData + scast (fld_size_offset field)), True)
        else if PB_HTYPE type = PB_HTYPE_OPTIONAL then do { z \<leftarrow> dflt field pData; Some (None, \<not> z) }
        else Some (None, True));
     (pData, implicit_has) \<leftarrow>
       (if PB_ATYPE type = PB_ATYPE_POINTER then do { p \<leftarrow> load_le 8 m pData; Some (p, p \<noteq> 0) }
        else Some (pData, implicit_has));
     if PB_HTYPE type = PB_HTYPE_REQUIRED then
       (if pData = 0 then PB_RETURN_ERROR ''missing required field'' stream w
        else and_then (pb_encode_tag_for_field field) (func field pData) stream w)
     else if PB_HTYPE type = PB_HTYPE_OPTIONAL then do {
       has \<leftarrow> (case pSize of None \<Rightarrow> Some implicit_has | Some p \<Rightarrow> safe_read_bool m p);
       if has then and_then (pb_encode_tag_for_field field) (func field pData) stream w
       else Some (stream, w, True) }
     else if PB_HTYPE type = PB_HTYPE_REPEATED then do {
       (count :: pb_size_t) \<leftarrow> (case pSize of None \<Rightarrow> Some (fld_array_size field) | Some p \<Rightarrow> load_le 4 m p);
       encode_array m field pData (ucast count) func stream w }
     else if PB_HTYPE type = PB_HTYPE_ONEOF then do {
       (which :: pb_size_t) \<leftarrow> (case pSize of None \<Rightarrow> None | Some p \<Rightarrow> load_le 4 m p);
       if which = fld_tag field then and_then (pb_encode_tag_for_field field) (func field pData) stream w
       else Some (stream, w, True) }
     else PB_RETURN_ERROR ''invalid field type'' stream w }"

text \<open>A \<open>pb_callback_t\<close> holds the encoder function and, 8 bytes on, its argument, passed by address.\<close>

definition encode_callback_field :: "'w pb_encode_env \<Rightarrow> pb_field_t \<Rightarrow> addr \<Rightarrow> 'w enc" where
  "encode_callback_field V field pData stream w = do {
     (encode :: addr) \<leftarrow> load_le 8 (en_mem V) pData;
     if encode \<noteq> 0 then do {
       (stream, w, ok) \<leftarrow> en_callback V encode field (pData + 8) stream w;
       if \<not> ok then PB_RETURN_ERROR ''callback error'' stream w else Some (stream, w, True) }
     else Some (stream, w, True) }"

definition encode_field ::
  "default_check \<Rightarrow> 'w sub_encoder \<Rightarrow> 'w pb_encode_env \<Rightarrow> pb_field_t \<Rightarrow> addr \<Rightarrow> 'w enc" where
  "encode_field dflt sub V field pData =
     (let atype = PB_ATYPE (fld_type field) in
      if atype = PB_ATYPE_STATIC \<or> atype = PB_ATYPE_POINTER then encode_basic_field dflt sub V field pData
      else if atype = PB_ATYPE_CALLBACK then encode_callback_field V field pData
      else PB_RETURN_ERROR ''invalid field type'')"

subsection \<open>Extensions\<close>

text \<open>A \<open>pb_extension_t\<close> has its type at 0, the data at 8 and the next extension at 16, the type its
  encoder at 8 and the argument, by default the field, at 16.\<close>

definition default_extension_encoder ::
  "default_check \<Rightarrow> 'w sub_encoder \<Rightarrow> 'w pb_encode_env \<Rightarrow> addr \<Rightarrow> 'w enc" where
  "default_extension_encoder dflt sub V extension stream w = do {
     type \<leftarrow> load_le 8 (en_mem V) extension;
     (arg :: addr) \<leftarrow> load_le 8 (en_mem V) (type + 16);
     flds \<leftarrow> en_tables V arg;
     field \<leftarrow> (case flds of [] \<Rightarrow> None | f # _ \<Rightarrow> Some f);
     if PB_ATYPE (fld_type field) = PB_ATYPE_POINTER
     then encode_field dflt sub V field (extension + 8) stream w
     else do { dest \<leftarrow> load_le 8 (en_mem V) (extension + 8); encode_field dflt sub V field dest stream w } }"

partial_function (option) encode_extension_loop ::
  "(addr \<Rightarrow> 'w enc) \<Rightarrow> 'w pb_encode_env \<Rightarrow> addr \<Rightarrow> 'w enc" where
  "encode_extension_loop deflt V extension stream w =
     (if extension = 0 then Some (stream, w, True)
      else do {
        type \<leftarrow> load_le 8 (en_mem V) extension;
        (encode :: addr) \<leftarrow> load_le 8 (en_mem V) (type + 8);
        (stream, w, status) \<leftarrow>
          (if encode \<noteq> 0 then en_extension V encode extension stream w else deflt extension stream w);
        if \<not> status then Some (stream, w, False)
        else do {
          extension \<leftarrow> load_le 8 (en_mem V) (extension + 16);
          encode_extension_loop deflt V extension stream w } })"

definition encode_extension_field ::
  "default_check \<Rightarrow> 'w sub_encoder \<Rightarrow> 'w pb_encode_env \<Rightarrow> pb_field_t \<Rightarrow> addr \<Rightarrow> 'w enc" where
  "encode_extension_field dflt sub V field pData stream w = do {
     extension \<leftarrow> load_le 8 (en_mem V) pData;
     encode_extension_loop (default_extension_encoder dflt sub V) V extension stream w }"

subsection \<open>Messages\<close>

fun encode_fields_loop ::
  "nat \<Rightarrow> default_check \<Rightarrow> 'w sub_encoder \<Rightarrow> 'w pb_encode_env \<Rightarrow> pb_field_iter_t \<Rightarrow> 'w enc" where
  "encode_fields_loop 0 dflt sub V iter stream w = None"
| "encode_fields_loop (Suc fuel) dflt sub V iter stream w = do {
     pos \<leftarrow> field_of (en_tables V) iter;
     and_then
       (if PB_LTYPE (fld_type pos) = PB_LTYPE_EXTENSION
        then encode_extension_field dflt sub V pos (it_pData iter)
        else encode_field dflt sub V pos (it_pData iter))
       (\<lambda>stream w. do {
         (iter, more) \<leftarrow> pb_field_iter_next (en_tables V) iter;
         if more then encode_fields_loop fuel dflt sub V iter stream w else Some (stream, w, True) })
       stream w }"

definition encode_message :: "default_check \<Rightarrow> 'w sub_encoder \<Rightarrow> 'w pb_encode_env \<Rightarrow> 'w sub_encoder" where
  "encode_message dflt sub V flds src_struct stream w = do {
     (iter, ok) \<leftarrow> pb_field_iter_begin (en_tables V) flds src_struct;
     if \<not> ok then Some (stream, w, True)
     else encode_fields_loop (table_length (en_tables V) flds) dflt sub V iter stream w }"

fun pb_encode :: "nat \<Rightarrow> 'w pb_encode_env \<Rightarrow> 'w sub_encoder" where
  "pb_encode 0 V = (\<lambda>flds src_struct stream w. None)"
| "pb_encode (Suc n) V =
     encode_message (pb_check_proto3_default_value (Suc n) (en_tables V) (en_mem V)) (pb_encode n V) V"

definition pb_encode_delimited :: "nat \<Rightarrow> 'w pb_encode_env \<Rightarrow> 'w sub_encoder" where
  "pb_encode_delimited n V flds src_struct = pb_encode_submessage (pb_encode n V) flds src_struct"

definition pb_encode_nullterminated :: "nat \<Rightarrow> 'w pb_encode_env \<Rightarrow> 'w sub_encoder" where
  "pb_encode_nullterminated n V flds src_struct =
     and_then (pb_encode n V flds src_struct) (pb_write (local_buf [0]) 1)"

definition pb_get_encoded_size :: "nat \<Rightarrow> 'w pb_encode_env \<Rightarrow> addr \<Rightarrow> addr \<Rightarrow> 'w \<Rightarrow> (u64 option \<times> 'w) option" where
  "pb_get_encoded_size n V flds src_struct w = do {
     (stream, w, ok) \<leftarrow> pb_encode n V flds src_struct PB_OSTREAM_SIZING w;
     Some (if ok then Some (os_bytes_written stream) else None, w) }"

end
