(* ===== verification/PbStream.thy ===== *)
theory PbStream
  imports PbEncode
begin

section \<open>nanopb: what an encoder writes\<close>

text \<open>
  The encoder writes in many small pieces, twice where it has to know a length first, and fails when the
  stream is full.  This theory says what it means for such a computation to write a list of bytes, on any
  output stream: \<open>writes cb room within g bs\<close> holds when \<open>g\<close> behaves as one call of \<open>pb_write\<close> with \<open>bs\<close>
  where the bytes fit, and fails in the part of the output that \<open>within\<close> allows where they do not.  It is closed
  under sequences, arrays and submessages; the encoders are put together from there in \<open>PbWire\<close>.

  The contract of the write callback of a stream is the locale \<open>output_stream\<close>, from the rules in
  \<open>pb_encode.h\<close>: \<open>room st k w\<close> says that at state \<open>st\<close> the callback can take \<open>k\<close> more bytes, and
  \<open>within st k bs w w'\<close> what may have become of the world when \<open>bs\<close> was to be written at \<open>st\<close>, where \<open>k\<close> bytes fit,
  and it failed half way.  It is interpreted with \<open>buf_write\<close>, twice: a prefix of the bytes was written, and no byte
  outside of the space.
\<close>

subsection \<open>Laws of the callback\<close>

locale output_stream =
  fixes cb :: "'w write_callback"
    and room :: "addr \<Rightarrow> nat \<Rightarrow> 'w \<Rightarrow> bool"
    and within :: "addr \<Rightarrow> nat \<Rightarrow> u8 list \<Rightarrow> 'w \<Rightarrow> 'w \<Rightarrow> bool"
  assumes cb_takes: "room st k w \<Longrightarrow> bs \<noteq> [] \<Longrightarrow> length bs \<le> k \<Longrightarrow>
      \<exists>st' w'. cb st bs w = Some (st', w', True) \<and> room st' (k - length bs) w' \<and>
        (\<forall>ys w''. within st' (k - length bs) ys w' w'' \<longrightarrow> within st k (bs @ ys) w w'')"
    and cb_append: "cb st xs w = Some (st', w', True) \<Longrightarrow> cb st (xs @ ys) w = cb st' ys w'"
    and room_mono: "room st k w \<Longrightarrow> j \<le> k \<Longrightarrow> room st j w"
    and within_refl: "within st k bs w w"
    and within_append: "within st k xs w w' \<Longrightarrow> within st k (xs @ ys) w w'"

definition fits :: "'w write_callback \<Rightarrow> (addr \<Rightarrow> nat \<Rightarrow> 'w \<Rightarrow> bool) \<Rightarrow> nat \<Rightarrow> 'w pb_ostream_t \<Rightarrow> 'w \<Rightarrow> bool" where
  "fits cb room n s w \<longleftrightarrow> os_errmsg s = None \<and>
     (os_callback s = None \<or>
      os_callback s = Some cb \<and> unat (os_bytes_written s) + n \<le> unat (os_max_size s) \<and>
      room (os_state s) (unat (os_max_size s) - unat (os_bytes_written s)) w)"

definition overflows :: "'w write_callback \<Rightarrow> (addr \<Rightarrow> nat \<Rightarrow> 'w \<Rightarrow> bool) \<Rightarrow> nat \<Rightarrow> 'w pb_ostream_t \<Rightarrow> 'w \<Rightarrow> bool" where
  "overflows cb room n s w \<longleftrightarrow> os_errmsg s = None \<and> os_callback s = Some cb \<and>
     unat (os_bytes_written s) \<le> unat (os_max_size s) \<and> unat (os_max_size s) < unat (os_bytes_written s) + n \<and>
     unat (os_bytes_written s) + n < 2 ^ 64 \<and>
     room (os_state s) (unat (os_max_size s) - unat (os_bytes_written s)) w"

definition writes ::
  "'w write_callback \<Rightarrow> (addr \<Rightarrow> nat \<Rightarrow> 'w \<Rightarrow> bool) \<Rightarrow> (addr \<Rightarrow> nat \<Rightarrow> u8 list \<Rightarrow> 'w \<Rightarrow> 'w \<Rightarrow> bool) \<Rightarrow> 'w enc \<Rightarrow> u8 list \<Rightarrow> bool" where
  "writes cb room within g bs \<longleftrightarrow> (length bs < 2 ^ 64 \<longrightarrow>
     (\<forall>s w. fits cb room (length bs) s w \<longrightarrow> g s w = pb_write (local_buf bs) (of_nat (length bs)) s w) \<and>
     (\<forall>s w. overflows cb room (length bs) s w \<longrightarrow>
       (\<exists>s' w'. g s w = Some (s', w', False) \<and>
          within (os_state s) (unat (os_max_size s) - unat (os_bytes_written s)) bs w w')))"

lemma writes_fit:
  "writes cb room within g bs \<Longrightarrow> length bs < 2 ^ 64 \<Longrightarrow> fits cb room (length bs) s w \<Longrightarrow>
     g s w = pb_write (local_buf bs) (of_nat (length bs)) s w"
  by (simp add: writes_def)

lemma writes_over:
  "writes cb room within g bs \<Longrightarrow> length bs < 2 ^ 64 \<Longrightarrow> overflows cb room (length bs) s w \<Longrightarrow>
     \<exists>s' w'. g s w = Some (s', w', False) \<and>
       within (os_state s) (unat (os_max_size s) - unat (os_bytes_written s)) bs w w'"
  by (simp add: writes_def)

lemma local_buf_all [simp]: "local_buf bs (length bs) = Some bs"
  by (simp add: local_buf_def)

lemma unat_of_nat_64: "n < 2 ^ 64 \<Longrightarrow> unat (of_nat n :: u64) = n"
  by (simp add: unat_of_nat)

lemma and_then_assoc: "and_then (and_then f g) h = and_then f (and_then g h)"
  by (intro ext) (auto simp: and_then_def split: option.splits prod.splits Option.bind_splits)

lemma and_then_return [simp]: "and_then f (enc_return True) = f"
  by (intro ext) (auto simp: and_then_def enc_return_def split: Option.bind_splits prod.splits)

subsection \<open>One write\<close>

context output_stream
begin

lemma write_fits:
  assumes f: "fits cb room (length bs) s w" and n: "length bs < 2 ^ 64" and c: "c (length bs) = Some bs"
  obtains st w' where
    "pb_write c (of_nat (length bs)) s w =
       Some (s\<lparr>os_state := st, os_bytes_written := os_bytes_written s + of_nat (length bs)\<rparr>, w', True)"
    "os_callback s = None \<longrightarrow> st = os_state s \<and> w' = w"
    "os_callback s \<noteq> None \<longrightarrow> (if bs = [] then st = os_state s \<and> w' = w else cb (os_state s) bs w = Some (st, w', True)) \<and>
      room st (unat (os_max_size s) - unat (os_bytes_written s) - length bs) w' \<and>
      (\<forall>ys w''. within st (unat (os_max_size s) - unat (os_bytes_written s) - length bs) ys w' w'' \<longrightarrow>
         within (os_state s) (unat (os_max_size s) - unat (os_bytes_written s)) (bs @ ys) w w'')"
proof (cases "os_callback s = None \<or> bs = []")
  case True
  have *: "s\<lparr>os_state := os_state s, os_bytes_written := x\<rparr> = s\<lparr>os_bytes_written := x\<rparr>" for x by simp
  show thesis
  proof (rule that)
    show "pb_write c (of_nat (length bs)) s w =
       Some (s\<lparr>os_state := os_state s, os_bytes_written := os_bytes_written s + of_nat (length bs)\<rparr>, w, True)"
      using True by (auto simp: pb_write_def)
  qed (use True f in \<open>auto simp: fits_def\<close>)
next
  case False
  let ?k = "unat (os_max_size s) - unat (os_bytes_written s)"
  from False f have cb: "os_callback s = Some cb" and r: "room (os_state s) ?k w"
    and le: "unat (os_bytes_written s) + length bs \<le> unat (os_max_size s)" by (auto simp: fits_def)
  have u: "unat (of_nat (length bs) :: u64) = length bs" using n by (rule unat_of_nat_64)
  have "unat (os_max_size s) < 2 ^ LENGTH(64)" by (rule unsigned_less)
  then have "unat (os_bytes_written s + of_nat (length bs)) = unat (os_bytes_written s) + length bs"
    using le by (intro unat_add_of_nat) simp
  then have ok: "\<not> os_bytes_written s + of_nat (length bs) < os_bytes_written s"
    "\<not> os_max_size s < os_bytes_written s + of_nat (length bs)"
    using le by (simp_all add: word_less_nat_alt)
  have pos: "(0 :: u64) < of_nat (length bs)" using False u by (simp add: word_less_nat_alt)
  have "length bs \<le> ?k" using le by simp
  from cb_takes [OF r _ this] False obtain st w' where
    t: "cb (os_state s) bs w = Some (st, w', True)" "room st (?k - length bs) w'"
      "\<forall>ys w''. within st (?k - length bs) ys w' w'' \<longrightarrow> within (os_state s) ?k (bs @ ys) w w''" by auto
  show thesis
  proof (rule that)
    show "pb_write c (of_nat (length bs)) s w =
       Some (s\<lparr>os_state := st, os_bytes_written := os_bytes_written s + of_nat (length bs)\<rparr>, w', True)"
      using pos cb ok t(1) by (simp add: pb_write_def u c)
  qed (use False t cb in auto)
qed

end

subsection \<open>Sequences\<close>

context output_stream
begin

lemma write_ok:
  assumes "fits cb room (length bs) s w" "length bs < 2 ^ 64"
  shows "\<exists>s1 w1. pb_write (local_buf bs) (of_nat (length bs)) s w = Some (s1, w1, True)"
  by (rule write_fits [OF assms, of "local_buf bs"]) auto

lemma write_result:
  assumes f: "fits cb room (length bs) s w" and n: "length bs < 2 ^ 64"
    and p: "pb_write (local_buf bs) (of_nat (length bs)) s w = Some (s1, w1, b)"
  shows "s1 = s\<lparr>os_state := os_state s1, os_bytes_written := os_bytes_written s + of_nat (length bs)\<rparr>"
    and "os_callback s = None \<Longrightarrow> os_state s1 = os_state s \<and> w1 = w"
    and "os_callback s \<noteq> None \<Longrightarrow>
      (if bs = [] then os_state s1 = os_state s \<and> w1 = w else cb (os_state s) bs w = Some (os_state s1, w1, True))"
    and "os_callback s \<noteq> None \<Longrightarrow>
      room (os_state s1) (unat (os_max_size s) - unat (os_bytes_written s) - length bs) w1 \<and>
      (\<forall>ys w''. within (os_state s1) (unat (os_max_size s) - unat (os_bytes_written s) - length bs) ys w1 w'' \<longrightarrow>
         within (os_state s) (unat (os_max_size s) - unat (os_bytes_written s)) (bs @ ys) w w'')"
proof -
  obtain st w' where
    q: "pb_write (local_buf bs) (of_nat (length bs)) s w =
       Some (s\<lparr>os_state := st, os_bytes_written := os_bytes_written s + of_nat (length bs)\<rparr>, w', True)"
    and r: "os_callback s = None \<longrightarrow> st = os_state s \<and> w' = w"
    "os_callback s \<noteq> None \<longrightarrow> (if bs = [] then st = os_state s \<and> w' = w else cb (os_state s) bs w = Some (st, w', True)) \<and>
      room st (unat (os_max_size s) - unat (os_bytes_written s) - length bs) w' \<and>
      (\<forall>ys w''. within st (unat (os_max_size s) - unat (os_bytes_written s) - length bs) ys w' w'' \<longrightarrow>
         within (os_state s) (unat (os_max_size s) - unat (os_bytes_written s)) (bs @ ys) w w'')"
    by (rule write_fits [OF f n, of "local_buf bs"]) simp
  from p q have e: "s1 = s\<lparr>os_state := st, os_bytes_written := os_bytes_written s + of_nat (length bs)\<rparr>" "w1 = w'"
    by simp_all
  have st: "os_state s1 = st" by (simp add: e)
  show "s1 = s\<lparr>os_state := os_state s1, os_bytes_written := os_bytes_written s + of_nat (length bs)\<rparr>"
    by (simp add: e)
  show "os_callback s = None \<Longrightarrow> os_state s1 = os_state s \<and> w1 = w" using r(1) by (simp add: e)
  show "os_callback s \<noteq> None \<Longrightarrow>
      (if bs = [] then os_state s1 = os_state s \<and> w1 = w else cb (os_state s) bs w = Some (os_state s1, w1, True))"
    using r(2) unfolding st e(2) by blast
  show "os_callback s \<noteq> None \<Longrightarrow>
      room (os_state s1) (unat (os_max_size s) - unat (os_bytes_written s) - length bs) w1 \<and>
      (\<forall>ys w''. within (os_state s1) (unat (os_max_size s) - unat (os_bytes_written s) - length bs) ys w1 w'' \<longrightarrow>
         within (os_state s) (unat (os_max_size s) - unat (os_bytes_written s)) (bs @ ys) w w'')"
    using r(2) unfolding st e(2) by blast
qed

lemma fits_prefix: "fits cb room (m + n) s w \<Longrightarrow> fits cb room m s w"
  by (auto simp: fits_def)

lemma written_add:
  "unat (os_bytes_written s) + n \<le> unat (os_max_size s) \<Longrightarrow>
     unat (os_bytes_written s + of_nat n) = unat (os_bytes_written s) + n"
proof (rule unat_add_of_nat)
  assume le: "unat (os_bytes_written s) + n \<le> unat (os_max_size s)"
  have "unat (os_max_size s) < 2 ^ LENGTH(64)" by (rule unsigned_less)
  with le show "unat (os_bytes_written s) + n < 2 ^ 64" by simp
qed

lemma write_split:
  assumes f: "fits cb room (length (xs @ ys)) s w" and n: "length (xs @ ys) < 2 ^ 64"
    and p: "pb_write (local_buf xs) (of_nat (length xs)) s w = Some (s1, w1, True)"
  shows "fits cb room (length ys) s1 w1 \<and>
    pb_write (local_buf ys) (of_nat (length ys)) s1 w1 =
      pb_write (local_buf (xs @ ys)) (of_nat (length (xs @ ys))) s w"
proof -
  from f have fx: "fits cb room (length xs) s w" by (auto intro: fits_prefix)
  from n have nx: "length xs < 2 ^ 64" and ny: "length ys < 2 ^ 64" by simp_all
  note x = write_result [OF fx nx p]
  obtain st1 where s1: "s1 = s\<lparr>os_state := st1, os_bytes_written := os_bytes_written s + of_nat (length xs)\<rparr>"
    using x(1) by blast
  have b1: "unat (os_bytes_written s1) = unat (os_bytes_written s) + length xs" if "os_callback s \<noteq> None"
    using f that by (simp add: s1 fits_def written_add)
  have "os_callback s1 = None \<or> os_callback s1 = Some cb \<and>
    unat (os_bytes_written s1) + length ys \<le> unat (os_max_size s1) \<and>
    room (os_state s1) (unat (os_max_size s1) - unat (os_bytes_written s1)) w1"
    using f x(4) b1 by (cases "os_callback s") (simp_all add: s1 fits_def diff_diff_eq)
  then have fy: "fits cb room (length ys) s1 w1"
    using f by (simp add: s1 fits_def)
  from write_ok [OF fy ny] obtain s2 w2
    where p2: "pb_write (local_buf ys) (of_nat (length ys)) s1 w1 = Some (s2, w2, True)" by blast
  note y = write_result [OF fy ny p2]
  from write_ok [OF f n] obtain s3 w3
    where p3: "pb_write (local_buf (xs @ ys)) (of_nat (length (xs @ ys))) s w = Some (s3, w3, True)" by blast
  note xy = write_result [OF f n p3]
  have "os_state s2 = os_state s3 \<and> w2 = w3"
  proof (cases "os_callback s")
    case None
    then show ?thesis using x(2) y(2) xy(2) by (simp add: s1)
  next
    case (Some c)
    then show ?thesis using x(3) y(3) xy(3) cb_append [of "os_state s" xs w "os_state s1" w1 ys]
      by (cases "xs = []"; cases "ys = []") (simp_all add: s1)
  qed
  moreover have "s2 = s3" if "os_state s2 = os_state s3"
    using y(1) xy(1) that by (simp add: s1 add.assoc)
  ultimately have "s2 = s3 \<and> w2 = w3" by blast
  with fy show ?thesis using p2 p3 by simp
qed

lemma write_overflow:
  assumes o: "overflows cb room (length xs + n) s w" and f: "fits cb room (length xs) s w"
    and l: "length xs < 2 ^ 64"
    and p: "pb_write (local_buf xs) (of_nat (length xs)) s w = Some (s1, w1, True)"
  shows "overflows cb room n s1 w1 \<and>
    (\<forall>ys w''. within (os_state s1) (unat (os_max_size s1) - unat (os_bytes_written s1)) ys w1 w'' \<longrightarrow>
       within (os_state s) (unat (os_max_size s) - unat (os_bytes_written s)) (xs @ ys) w w'')"
proof -
  from o have c: "os_callback s \<noteq> None" by (simp add: overflows_def)
  note x = write_result [OF f l p]
  obtain st1 where s1: "s1 = s\<lparr>os_state := st1, os_bytes_written := os_bytes_written s + of_nat (length xs)\<rparr>"
    using x(1) by blast
  have b1: "unat (os_bytes_written s1) = unat (os_bytes_written s) + length xs"
    using f c by (simp add: s1 fits_def written_add)
  have "unat (os_bytes_written s) + length xs \<le> unat (os_max_size s)" using f c by (simp add: fits_def)
  then show ?thesis
    using o b1 x(4) [OF c] by (simp add: s1 overflows_def diff_diff_eq)
qed

lemma fits_or_overflows:
  assumes "overflows cb room (m + n) s w"
  shows "fits cb room m s w \<or> overflows cb room m s w"
  using assms by (auto simp: overflows_def fits_def)

lemma writes_append:
  assumes f: "writes cb room within f xs" and g: "writes cb room within g ys"
  shows "writes cb room within (and_then f g) (xs @ ys)"
  unfolding writes_def
proof (intro impI conjI allI)
  assume n: "length (xs @ ys) < 2 ^ 64"
  then have nx: "length xs < 2 ^ 64" and ny: "length ys < 2 ^ 64" by simp_all
  note F = writes_fit [OF f nx] writes_over [OF f nx] and G = writes_fit [OF g ny] writes_over [OF g ny]
  fix s w
  {
    assume fit: "fits cb room (length (xs @ ys)) s w"
    then have fx: "fits cb room (length xs) s w" by (auto intro: fits_prefix)
    from write_ok [OF fx nx] obtain s1 w1
      where p: "pb_write (local_buf xs) (of_nat (length xs)) s w = Some (s1, w1, True)" by blast
    from write_split [OF fit n p] G(1) [of s1 w1] F(1) [OF fx] p
    show "and_then f g s w = pb_write (local_buf (xs @ ys)) (of_nat (length (xs @ ys))) s w"
      by (simp add: and_then_def)
  }
  {
    assume "overflows cb room (length (xs @ ys)) s w"
    then have o: "overflows cb room (length xs + length ys) s w" by simp
    show "\<exists>s' w'. and_then f g s w = Some (s', w', False) \<and>
        within (os_state s) (unat (os_max_size s) - unat (os_bytes_written s)) (xs @ ys) w w'"
    proof (cases "fits cb room (length xs) s w")
      case fx: True
      from write_ok [OF fx nx] obtain s1 w1
        where p: "pb_write (local_buf xs) (of_nat (length xs)) s w = Some (s1, w1, True)" by blast
      from write_overflow [OF o fx nx p] G(2) [of s1 w1] F(1) [OF fx] p show ?thesis
        by (fastforce simp: and_then_def)
    next
      case False
      with fits_or_overflows [OF o] F(2) [of s w] obtain s' w' where "f s w = Some (s', w', False)"
        "within (os_state s) (unat (os_max_size s) - unat (os_bytes_written s)) xs w w'" by blast
      then show ?thesis using within_append by (auto simp: and_then_def)
    qed
  }
qed

lemma writes_write: "c (length bs) = Some bs \<Longrightarrow> writes cb room within (pb_write c (of_nat (length bs))) bs"
  unfolding writes_def
proof (intro impI conjI allI)
  assume c: "c (length bs) = Some bs" and n: "length bs < 2 ^ 64"
  then have u: "unat (of_nat (length bs) :: u64) = length bs" by (intro unat_of_nat_64)
  fix s :: "'w pb_ostream_t" and w
  have "c (unat (of_nat (length bs) :: u64)) = local_buf bs (unat (of_nat (length bs) :: u64))"
    unfolding u by (simp add: c)
  then show "pb_write c (of_nat (length bs)) s w = pb_write (local_buf bs) (of_nat (length bs)) s w"
    by (simp only: pb_write_def)
  assume o: "overflows cb room (length bs) s w"
  then have "unat (os_bytes_written s + of_nat (length bs)) = unat (os_bytes_written s) + length bs"
    by (intro unat_add_of_nat) (simp add: overflows_def)
  then have "os_max_size s < os_bytes_written s + of_nat (length bs)" "(0 :: u64) < of_nat (length bs)"
    using o u by (auto simp: overflows_def word_less_nat_alt)
  with o have "\<exists>s'. pb_write c (of_nat (length bs)) s w = Some (s', w, False)"
    by (simp add: pb_write_def overflows_def PB_RETURN_ERROR_def)
  with within_refl show "\<exists>s' w'. pb_write c (of_nat (length bs)) s w = Some (s', w', False) \<and>
      within (os_state s) (unat (os_max_size s) - unat (os_bytes_written s)) bs w w'" by blast
qed

lemma writes_nothing: "writes cb room within (enc_return True) []"
  using writes_write [of null_buf "[]"]
  by (auto simp: writes_def enc_return_def null_buf_def pb_write_def overflows_def)

end

subsection \<open>Numbers\<close>

lemma low_bits: "(of_nat (n mod 128) :: u8) AND 0x80 = 0"
proof -
  have "unat (of_nat (n mod 128) :: u8) < 2 ^ 7" by (simp add: unat_of_nat)
  from bit_less_pow [OF this, of 7] have "\<not> bit (of_nat (n mod 128) :: u8) 7" by blast
  moreover have "((of_nat (n mod 128) :: u8) AND 2 ^ 7 = 0) \<longleftrightarrow> \<not> bit (of_nat (n mod 128) :: u8) 7"
    by (rule and_exp_eq_0_iff_not_bit)
  ultimately show ?thesis by simp
qed

lemma more_byte: "(of_nat (n mod 128) :: u8) OR 0x80 = of_nat (n mod 128 + 128)"
  using disjunctive_add_eq_or [OF low_bits [of n]] by simp

lemma of_nat_mod_take7: "take_bit 7 (of_nat (n mod 128) :: u8) = of_nat (n mod 128)"
proof -
  have "(of_nat (take_bit 7 n) :: u8) = take_bit 7 (of_nat n)" by (simp add: take_bit_of_nat)
  then show ?thesis by (simp add: take_bit_eq_mod [of 7 n])
qed

lemma more_byte_low: "((of_nat (n mod 128) :: u8) OR 0x80) AND 0x7F = of_nat (n mod 128)"
proof -
  have "(of_nat (n mod 128) :: u8) AND 0x7F = of_nat (n mod 128)"
  proof -
    have "(of_nat (n mod 128) :: u8) AND 0x7F = take_bit 7 (of_nat (n mod 128))"
      by (simp add: take_bit_eq_mask mask_eq_exp_minus_1)
    also have "\<dots> = of_nat (n mod 128)"
      by (simp add: of_nat_mod_take7)
    finally show ?thesis .
  qed
  moreover have "(0x80 :: u8) AND 0x7F = 0" by simp
  ultimately show ?thesis by (simp add: and.left_commute bit.conj_disj_distrib2 bit.conj_disj_distrib)
qed

lemma low_byte: "(ucast (v AND 0x7F) :: u8) = of_nat (unat v mod 128)" for v :: u64
proof (rule unsigned_word_eqI)
  have "v AND 0x7F = take_bit 7 v" by (simp add: take_bit_eq_mask mask_eq_exp_minus_1)
  then have u: "unat (v AND 0x7F) = unat v mod 128" by (simp add: take_bit_eq_mod unat_mod)
  have "unat (ucast (v AND 0x7F) :: u8) = unat v mod 128"
    unfolding unsigned_ucast_eq u by (simp add: take_bit_nat_eq_self)
  then show "unat (ucast (v AND 0x7F) :: u8) = unat (of_nat (unat v mod 128) :: u8)"
    by (simp add: unat_of_nat)
qed

lemma varint_byte: "(ucast ((v AND 0x7F) OR 0x80) :: u8) = of_nat (unat v mod 128) OR 0x80" for v :: u64
proof -
  have "(ucast ((v AND 0x7F) OR 0x80) :: u8) = ucast (v AND 0x7F) OR 0x80"
    by (intro bit_word_eqI) (auto simp: bit_simps)
  then show ?thesis by (simp add: low_byte)
qed

lemma uleb_nonempty [simp]: "uleb_bytes n \<noteq> []"
  by (subst uleb_bytes.simps) simp

lemma uleb_length: "n < 2 ^ (7 * k) \<Longrightarrow> 0 < k \<Longrightarrow> length (uleb_bytes n) \<le> k"
proof (induction k arbitrary: n)
  case (Suc k)
  show ?case
  proof (cases "n < 128")
    case False
    then have "0 < k" using Suc.prems(1) by (cases k) auto
    moreover have "n div 128 < 2 ^ (7 * k)" using Suc.prems(1) by (simp add: div_less_iff_less_mult power_add)
    ultimately show ?thesis using Suc.IH [of "n div 128"] False by (simp add: uleb_bytes_big)
  qed (simp add: uleb_bytes_small)
qed simp

lemma uleb_length_64: "length (uleb_bytes (unat v)) \<le> 10" for v :: u64
proof -
  have "unat v < 2 ^ LENGTH(64)" by (rule unsigned_less)
  also have "(2 :: nat) ^ LENGTH(64) \<le> 2 ^ (7 * 10)" by (intro power_increasing) simp_all
  finally show ?thesis by (rule uleb_length) simp
qed

lemma unat_drop7: "unat (drop_bit 7 v) = unat v div 128" for v :: u64
  by (simp add: drop_bit_eq_div unat_div)

lemma varint_loop_bytes:
  "v \<noteq> 0 \<Longrightarrow> length buffer + length (uleb_bytes (unat v)) \<le> 10 \<Longrightarrow>
     varint_loop v buffer = Some (buffer @ butlast (uleb_bytes (unat v)) @ [last (uleb_bytes (unat v)) OR 0x80])"
proof (induction v buffer rule: varint_loop.induct)
  case (1 v buffer)
  have "length (uleb_bytes (unat v)) \<noteq> 0" by simp
  with "1.prems" have room: "\<not> 10 \<le> length buffer" by linarith
  show ?case
  proof (cases "unat v < 128")
    case True
    then have "drop_bit 7 v = 0" using unat_drop7 [of v] by (simp add: unat_eq_zero [symmetric] del: unat_eq_zero)
    with True show ?thesis using "1.prems" room
      by (simp add: varint_loop.simps [of v] varint_loop.simps [of 0] uleb_bytes_small varint_byte)
  next
    case False
    have d: "uleb_bytes (unat v) = of_nat (unat v mod 128 + 128) # uleb_bytes (unat (drop_bit 7 v))"
      using False by (simp add: uleb_bytes_big unat_drop7)
    have "unat (drop_bit 7 v) \<noteq> 0" using False by (simp add: unat_drop7)
    then have nz: "drop_bit 7 v \<noteq> 0" by auto
    show ?thesis
      using "1.IH" [OF "1.prems"(1) room nz] "1.prems" room
      by (simp add: varint_loop.simps [of v] d varint_byte more_byte)
  qed
qed

lemma ucast_of_unat: "(ucast v :: u8) = of_nat (unat v)" for v :: u64
  by (simp add: unsigned_of_nat flip: ucast_eq)

lemma varint_writes_bytes:
  "pb_encode_varint v = pb_write (local_buf (uleb_bytes (unat v))) (of_nat (length (uleb_bytes (unat v))))"
proof (intro ext)
  fix stream :: "'w pb_ostream_t" and w
  have le: "v \<le> 0x7F \<longleftrightarrow> unat v < 128" by (simp add: word_le_nat_alt) linarith
  show "pb_encode_varint v stream w =
    pb_write (local_buf (uleb_bytes (unat v))) (of_nat (length (uleb_bytes (unat v)))) stream w"
  proof (cases "unat v < 128")
    case True
    have "(ucast v :: u8) = of_nat (unat v)" by (rule ucast_of_unat)
    with True le show ?thesis by (simp add: pb_encode_varint_def uleb_bytes_small)
  next
    case False
    let ?b = "uleb_bytes (unat v)"
    have "v \<noteq> 0" using False by auto
    then have loop: "varint_loop v [] = Some (butlast ?b @ [last ?b OR 0x80])"
      using varint_loop_bytes [of v "[]"] uleb_length_64 [of v] by simp
    have "\<exists>k. last (uleb_bytes n) = of_nat (k mod 128)" for n
      by (induction n rule: uleb_bytes.induct)
        (metis last.simps uleb_bytes_small uleb_bytes_big uleb_nonempty mod_less not_less)
    then obtain k where k: "last ?b = of_nat (k mod 128)" by blast
    have l: "(last ?b OR 0x80) AND 0x7F = last ?b" unfolding k by (rule more_byte_low)
    have "(butlast ?b @ [last ?b OR 0x80])[length ?b - 1 := (last ?b OR 0x80) AND 0x7F] = ?b"
      using uleb_nonempty [of "unat v"] by (simp add: list_update_append l)
    then show ?thesis
      using False le loop by (simp add: pb_encode_varint_def Let_def nth_append)
  qed
qed


subsection \<open>Tags, strings, submessages\<close>

definition wire_tag :: "u32 \<Rightarrow> u32 \<Rightarrow> u8 list" where
  "wire_tag wiretype number = uleb_bytes (unat number * 8 + unat wiretype)"

lemma tag_number:
  fixes number wiretype :: u32
  assumes "unat wiretype < 8"
  shows "unat (push_bit 3 (ucast number) OR ucast wiretype :: u64) = unat number * 8 + unat wiretype"
proof -
  let ?n = "ucast number :: u64" and ?w = "ucast wiretype :: u64"
  have u: "unat (ucast x :: u64) = unat x" and lt: "unat x < 2 ^ 32" for x :: u32
  proof -
    have "unat x < 2 ^ LENGTH(32)" by (rule unsigned_less)
    then show lt: "unat x < 2 ^ 32" by simp
    show "unat (ucast x :: u64) = unat x"
      unfolding unsigned_ucast_eq using lt by (simp add: take_bit_nat_eq_self_iff)
  qed
  note w = u [of wiretype] and n = u [of number] and lt = lt [of number]
  have "push_bit 3 ?n AND ?w = 0"
  proof (rule bit_word_eqI)
    fix k
    have "bit ?w k \<Longrightarrow> k < 3" using bit_less_pow [of ?w 3 k] assms w by simp
    then show "bit (push_bit 3 ?n AND ?w) k = bit 0 k" by (auto simp: bit_simps)
  qed
  then have "push_bit 3 ?n OR ?w = push_bit 3 ?n + ?w" by (rule disjunctive_add_eq_or [symmetric])
  moreover have "unat (push_bit 3 ?n) = unat number * 8"
    using lt n by (simp add: push_bit_eq_mult unat_word_ariths)
  ultimately show ?thesis
    using lt assms w by (simp add: unat_word_ariths)
qed

text \<open>The second half of \<open>pb_encode_submessage\<close>, once the size is known and written.\<close>

definition submessage_rest :: "'w enc \<Rightarrow> u64 \<Rightarrow> 'w enc" where
  "submessage_rest g n stream w =
     (case os_callback stream of
        None \<Rightarrow> pb_write null_buf n stream w
      | Some callback \<Rightarrow>
          if os_max_size stream < os_bytes_written stream + n
          then PB_RETURN_ERROR ''stream full'' stream w
          else do {
            let substream = \<lparr> os_callback = Some callback, os_state = os_state stream, os_max_size = n,
              os_bytes_written = 0, os_errmsg = None \<rparr>;
            (substream, w, status) \<leftarrow> g substream w;
            let stream = stream\<lparr>os_bytes_written := os_bytes_written stream + os_bytes_written substream,
              os_state := os_state substream, os_errmsg := os_errmsg substream\<rparr>;
            if os_bytes_written substream \<noteq> n then PB_RETURN_ERROR ''submsg size changed'' stream w
            else Some (stream, w, status) })"

context output_stream
begin

lemma writes_varint: "writes cb room within (pb_encode_varint v) (uleb_bytes (unat v))"
  unfolding varint_writes_bytes by (rule writes_write) simp

lemma writes_length: "n < 2 ^ 64 \<Longrightarrow> writes cb room within (pb_encode_varint (of_nat n)) (uleb_bytes n)"
  using writes_varint [of "of_nat n"] by (simp add: unat_of_nat)

lemma writes_tag: "unat wt < 8 \<Longrightarrow> writes cb room within (pb_encode_tag wt number) (wire_tag wt number)"
  using writes_varint [of "push_bit 3 (ucast number) OR ucast wt"]
  by (simp add: pb_encode_tag_def wire_tag_def tag_number)

lemma writes_if_short: "(length bs < 2 ^ 64 \<Longrightarrow> writes cb room within g bs) \<Longrightarrow> writes cb room within g bs"
  by (auto simp: writes_def)

lemma writes_string:
  assumes "c (length bs) = Some bs"
  shows "writes cb room within (pb_encode_string c (of_nat (length bs))) (uleb_bytes (length bs) @ bs)"
proof (rule writes_if_short)
  assume "length (uleb_bytes (length bs) @ bs) < 2 ^ 64"
  then have "length bs < 2 ^ 64" by simp
  then show ?thesis
    unfolding pb_encode_string_def
    by (intro writes_append writes_length writes_write assms)
qed

lemma writes_cong: "(\<And>s w. f s w = g s w) \<Longrightarrow> writes cb room within f bs = writes cb room within g bs"
  by (simp add: writes_def)

lemma sizing_fits: "fits cb room n PB_OSTREAM_SIZING w"
  by (simp add: fits_def PB_OSTREAM_SIZING_def)

lemma writes_sizing:
  assumes "writes cb room within g bs" "length bs < 2 ^ 64"
  shows "g PB_OSTREAM_SIZING w = Some (PB_OSTREAM_SIZING\<lparr>os_bytes_written := of_nat (length bs)\<rparr>, w, True)"
  using writes_fit [OF assms sizing_fits]
  by (simp add: pb_write_def PB_OSTREAM_SIZING_def)

text \<open>Bytes that are only counted on a sizing stream and written on the others.\<close>

lemma writes_counted:
  assumes g: "writes cb room within g bs"
  shows "writes cb room within
    (\<lambda>stream w. case os_callback stream of
       None \<Rightarrow> pb_write null_buf (of_nat (length bs)) stream w
     | Some _ \<Rightarrow> g stream w) bs"
proof (rule writes_if_short)
  assume n: "length bs < 2 ^ 64"
  show ?thesis
    unfolding writes_def
  proof (intro impI conjI allI)
    fix s w
    assume f: "fits cb room (length bs) s w"
    show "(case os_callback s of None \<Rightarrow> pb_write null_buf (of_nat (length bs)) s w | Some _ \<Rightarrow> g s w) =
        pb_write (local_buf bs) (of_nat (length bs)) s w"
      using writes_fit [OF g n f] by (cases "os_callback s") (simp_all add: pb_write_def)
  next
    fix s w
    assume o: "overflows cb room (length bs) s w"
    then have "os_callback s = Some cb" by (simp add: overflows_def)
    with writes_over [OF g n o] show "\<exists>s' w'. (case os_callback s of
          None \<Rightarrow> pb_write null_buf (of_nat (length bs)) s w | Some _ \<Rightarrow> g s w) = Some (s', w', False) \<and>
        within (os_state s) (unat (os_max_size s) - unat (os_bytes_written s)) bs w w'"
      by simp
  qed
qed

lemma submessage_fits:
  assumes g: "writes cb room within g bs" and n: "length bs < 2 ^ 64" and f: "fits cb room (length bs) s w"
  shows "submessage_rest g (of_nat (length bs)) s w = pb_write (local_buf bs) (of_nat (length bs)) s w"
proof (cases "os_callback s")
  case None
  then show ?thesis by (simp add: submessage_rest_def pb_write_def)
next
  case (Some c)
  with f have cb: "os_callback s = Some cb" and r: "room (os_state s) (unat (os_max_size s) - unat (os_bytes_written s)) w"
    and le: "unat (os_bytes_written s) + length bs \<le> unat (os_max_size s)" and e: "os_errmsg s = None"
    by (auto simp: fits_def)
  let ?s = "\<lparr> os_callback = Some cb, os_state = os_state s, os_max_size = of_nat (length bs),
    os_bytes_written = 0, os_errmsg = None \<rparr> :: 'w pb_ostream_t"
  have u: "unat (of_nat (length bs) :: u64) = length bs" using n by (rule unat_of_nat_64)
  have "room (os_state s) (length bs) w" by (rule room_mono [OF r]) (use le in simp)
  then have f': "fits cb room (length bs) ?s w" by (simp add: fits_def u)
  from write_ok [OF f' n] obtain s1 w1 where
    p: "pb_write (local_buf bs) (of_nat (length bs)) ?s w = Some (s1, w1, True)" by blast
  note x = write_result [OF f' n p]
  from write_ok [OF f n] obtain s2 w2 where
    q: "pb_write (local_buf bs) (of_nat (length bs)) s w = Some (s2, w2, True)" by blast
  note y = write_result [OF f n q]
  have "os_state s1 = os_state s2 \<and> w1 = w2"
    using x(3) y(3) cb by (cases "bs = []") simp_all
  moreover obtain st1 where s1: "s1 = ?s\<lparr>os_state := st1, os_bytes_written := of_nat (length bs)\<rparr>"
    using x(1) by auto
  moreover obtain st2 where s2: "s2 = s\<lparr>os_state := st2, os_bytes_written := os_bytes_written s + of_nat (length bs)\<rparr>"
    using y(1) by blast
  moreover have "\<not> os_max_size s < os_bytes_written s + of_nat (length bs)"
    using written_add [OF le] le by (simp add: word_less_nat_alt)
  moreover have "g ?s w = Some (s1, w1, True)" using writes_fit [OF g n f'] p by simp
  ultimately show ?thesis using cb e q by (simp add: submessage_rest_def)
qed

lemma writes_submessage_rest:
  assumes g: "writes cb room within g bs"
  shows "writes cb room within (submessage_rest g (of_nat (length bs))) bs"
proof (rule writes_if_short)
  assume n: "length bs < 2 ^ 64"
  show ?thesis
    unfolding writes_def
  proof (intro impI conjI allI)
    fix s w
    assume "fits cb room (length bs) s w"
    then show "submessage_rest g (of_nat (length bs)) s w = pb_write (local_buf bs) (of_nat (length bs)) s w"
      by (rule submessage_fits [OF g n])
  next
    fix s w
    assume o: "overflows cb room (length bs) s w"
    then have "unat (os_bytes_written s + of_nat (length bs)) = unat (os_bytes_written s) + length bs"
      by (intro unat_add_of_nat) (simp add: overflows_def)
    with o have "os_max_size s < os_bytes_written s + of_nat (length bs)"
      by (simp add: word_less_nat_alt overflows_def)
    with o have "\<exists>s'. submessage_rest g (of_nat (length bs)) s w = Some (s', w, False)"
      by (simp add: submessage_rest_def overflows_def PB_RETURN_ERROR_def)
    with within_refl show "\<exists>s' w'. submessage_rest g (of_nat (length bs)) s w = Some (s', w', False) \<and>
        within (os_state s) (unat (os_max_size s) - unat (os_bytes_written s)) bs w w'" by blast
  qed
qed

lemma writes_submessage:
  assumes g: "writes cb room within (sub flds src) bs"
  shows "writes cb room within (pb_encode_submessage sub flds src) (uleb_bytes (length bs) @ bs)"
proof (rule writes_if_short)
  assume "length (uleb_bytes (length bs) @ bs) < 2 ^ 64"
  then have n: "length bs < 2 ^ 64" by simp
  have "pb_encode_submessage sub flds src s w =
      and_then (pb_encode_varint (of_nat (length bs))) (submessage_rest (sub flds src) (of_nat (length bs))) s w" for s w
    by (simp add: pb_encode_submessage_def writes_sizing [OF g n] submessage_rest_def [abs_def] Let_def)
  moreover have "writes cb room within
      (and_then (pb_encode_varint (of_nat (length bs))) (submessage_rest (sub flds src) (of_nat (length bs))))
      (uleb_bytes (length bs) @ bs)"
    by (intro writes_append writes_length n writes_submessage_rest g)
  ultimately show ?thesis by (simp add: writes_def)
qed

end


end
