(* ===== verification/PbWire.thy ===== *)
theory PbWire
  imports PbStream
begin

section \<open>nanopb: the encoder produces the wire format\<close>

text \<open>
  The reference: \<open>pb_wire\<close> computes the bytes of a message in the wire format of Protocol Buffers, as a
  list, by recursion on the nesting of messages, with no stream, no sizing pass and no iterator: a field is
  its tag followed by its value, a value of variable length is preceded by its length, a message is the
  concatenation of its fields in the order of the table.  \<open>None\<close> stands for a message that has no
  encoding: a missing required field, an array longer than its storage, a description that is not one,
  data that cannot be read.  The functions of the application, in callback fields and extensions, are
  represented by the bytes they write.

  \<open>encode_writes\<close> is the refinement: on every output stream \<open>pb_encode\<close> writes exactly these bytes.  It is
  proved once in the locale of \<open>PbStream\<close> and used for buffers through the interpretations \<open>buffer\<close> and, where a
  message does not fit, \<open>prefixes\<close>.
\<close>

subsection \<open>The wire format\<close>

type_synonym wire_sub = "addr \<Rightarrow> addr \<Rightarrow> u8 list option"

definition zigzag :: "int \<Rightarrow> nat" where
  "zigzag v = (if 0 \<le> v then nat (2 * v) else nat (- 2 * v - 1))"

definition counted :: "u8 list \<Rightarrow> u8 list" where
  "counted bs = uleb_bytes (length bs) @ bs"

definition wire_int :: "u64 option option \<Rightarrow> (u64 \<Rightarrow> nat) \<Rightarrow> u8 list option" where
  "wire_int r number = do { x \<leftarrow> r; v \<leftarrow> x; Some (uleb_bytes (number v)) }"

definition wire_bytes :: "mem \<Rightarrow> pb_field_t \<Rightarrow> addr \<Rightarrow> u8 list option" where
  "wire_bytes m field p =
     (if p = 0 then Some (counted [])
      else do {
        (k :: u32) \<leftarrow> load_le 4 m p;
        if PB_ATYPE (fld_type field) = PB_ATYPE_STATIC \<and> unat (fld_data_size field) < unat k + 4 then None
        else do { bs \<leftarrow> load_bytes m (p + 4) (unat k); Some (counted bs) } })"

definition wire_string :: "mem \<Rightarrow> pb_field_t \<Rightarrow> addr \<Rightarrow> u8 list option" where
  "wire_string m field p =
     (if p = 0 then Some (counted [])
      else do {
        k \<leftarrow> pb_strnlen m p
          (if PB_ATYPE (fld_type field) = PB_ATYPE_POINTER then 2 ^ 64 - 1 else unat (fld_data_size field));
        bs \<leftarrow> load_bytes m p k;
        Some (counted bs) })"

definition wire_value :: "wire_sub \<Rightarrow> mem \<Rightarrow> pb_field_t \<Rightarrow> addr \<Rightarrow> u8 list option" where
  "wire_value sub m field p =
     (let ltype = PB_LTYPE (fld_type field); n = fld_data_size field in
      if ltype = PB_LTYPE_BOOL then do { b \<leftarrow> m p; Some [if b \<noteq> 0 then 1 else 0] }
      else if ltype = PB_LTYPE_VARINT then wire_int (read_signed m n p) unat
      else if ltype = PB_LTYPE_UVARINT then wire_int (read_unsigned m n p) unat
      else if ltype = PB_LTYPE_SVARINT then wire_int (read_signed m n p) (\<lambda>v. zigzag (sint v))
      else if ltype = PB_LTYPE_FIXED32 then load_bytes m p 4
      else if ltype = PB_LTYPE_FIXED64 then load_bytes m p 8
      else if ltype = PB_LTYPE_BYTES then wire_bytes m field p
      else if ltype = PB_LTYPE_STRING then wire_string m field p
      else if ltype = PB_LTYPE_SUBMESSAGE then
        (if fld_ptr field = 0 then None else do { bs \<leftarrow> sub (fld_ptr field) p; Some (counted bs) })
      else if ltype = PB_LTYPE_FIXED_LENGTH_BYTES then
        do { bs \<leftarrow> load_bytes m p (unat n); Some (counted bs) }
      else None)"

definition wire_type_of :: "pb_field_t \<Rightarrow> u32 option" where
  "wire_type_of field =
     (let ltype = PB_LTYPE (fld_type field) in
      if ltype \<le> PB_LTYPE_SVARINT then Some PB_WT_VARINT
      else if ltype = PB_LTYPE_FIXED32 then Some PB_WT_32BIT
      else if ltype = PB_LTYPE_FIXED64 then Some PB_WT_64BIT
      else if ltype \<le> PB_LTYPE_SUBMESSAGE \<or> ltype = PB_LTYPE_FIXED_LENGTH_BYTES then Some PB_WT_STRING
      else None)"

definition tagged :: "pb_field_t \<Rightarrow> u8 list option \<Rightarrow> u8 list option" where
  "tagged field value = do {
     wt \<leftarrow> wire_type_of field;
     bs \<leftarrow> value;
     Some (wire_tag wt (fld_tag field) @ bs) }"

fun wire_all :: "('a \<Rightarrow> u8 list option) \<Rightarrow> 'a list \<Rightarrow> u8 list option" where
  "wire_all f [] = Some []"
| "wire_all f (x # xs) = do { a \<leftarrow> f x; b \<leftarrow> wire_all f xs; Some (a @ b) }"

fun item_addresses :: "nat \<Rightarrow> addr \<Rightarrow> u64 \<Rightarrow> addr list" where
  "item_addresses 0 p d = []"
| "item_addresses (Suc n) p d = p # item_addresses n (p + d) d"

text \<open>Arrays of numbers are packed; the items of the others are fields of their own, and where the array is
  on the heap an item that is a string is a pointer to it.\<close>

definition wire_array :: "wire_sub \<Rightarrow> mem \<Rightarrow> pb_field_t \<Rightarrow> addr \<Rightarrow> nat \<Rightarrow> u8 list option" where
  "wire_array sub m field p count =
     (let ptr = (PB_ATYPE (fld_type field) = PB_ATYPE_POINTER); ltype = PB_LTYPE (fld_type field);
          items = item_addresses count p (ucast (fld_data_size field)) in
      if count = 0 then Some []
      else if \<not> ptr \<and> unat (fld_array_size field) < count then None
      else if ltype \<le> PB_LTYPE_LAST_PACKABLE then do {
        bs \<leftarrow> wire_all (wire_value sub m field) items;
        Some (wire_tag PB_WT_STRING (fld_tag field) @ counted bs) }
      else wire_all (\<lambda>q. tagged field (do {
        q \<leftarrow> (if ptr \<and> (ltype = PB_LTYPE_STRING \<or> ltype = PB_LTYPE_BYTES) then load_le 8 m q else Some q);
        wire_value sub m field q })) items)"

definition present :: "default_check \<Rightarrow> mem \<Rightarrow> pb_field_t \<Rightarrow> addr \<Rightarrow> addr \<Rightarrow> bool option" where
  "present dflt m field at p =
     (let type = fld_type field in
      if PB_HTYPE type = PB_HTYPE_REQUIRED then (if p = 0 then None else Some True)
      else if PB_HTYPE type = PB_HTYPE_ONEOF then
        (if fld_size_offset field = 0 then None
         else do { (which :: u32) \<leftarrow> load_le 4 m (at + scast (fld_size_offset field)); Some (which = fld_tag field) })
      else if fld_size_offset field \<noteq> 0 then safe_read_bool m (at + scast (fld_size_offset field))
      else do { z \<leftarrow> dflt field at; Some (if PB_ATYPE type = PB_ATYPE_POINTER then p \<noteq> 0 else \<not> z) })"

definition wire_basic :: "default_check \<Rightarrow> wire_sub \<Rightarrow> mem \<Rightarrow> pb_field_t \<Rightarrow> addr \<Rightarrow> u8 list option" where
  "wire_basic dflt sub m field at = do {
     p \<leftarrow> (if PB_ATYPE (fld_type field) = PB_ATYPE_POINTER then load_le 8 m at else Some at);
     if PB_HTYPE (fld_type field) = PB_HTYPE_REPEATED then do {
       (count :: u32) \<leftarrow> (if fld_size_offset field = 0 then Some (fld_array_size field)
                           else load_le 4 m (at + scast (fld_size_offset field)));
       wire_array sub m field p (unat count) }
     else do {
       has \<leftarrow> present dflt m field at p;
       if has then tagged field (wire_value sub m field p) else Some [] } }"

text \<open>What the functions of the application write.\<close>

record wire_calls =
  wc_callback :: "addr \<Rightarrow> pb_field_t \<Rightarrow> addr \<Rightarrow> u8 list"
  wc_extension :: "addr \<Rightarrow> addr \<Rightarrow> u8 list"

definition wire_field ::
  "wire_calls \<Rightarrow> default_check \<Rightarrow> wire_sub \<Rightarrow> mem \<Rightarrow> pb_field_t \<Rightarrow> addr \<Rightarrow> u8 list option" where
  "wire_field X dflt sub m field at =
     (if PB_ATYPE (fld_type field) = PB_ATYPE_CALLBACK then do {
        (f :: addr) \<leftarrow> load_le 8 m at;
        Some (if f = 0 then [] else wc_callback X f field (at + 8)) }
      else if PB_ATYPE (fld_type field) = PB_ATYPE_STATIC \<or> PB_ATYPE (fld_type field) = PB_ATYPE_POINTER
      then (if PB_LTYPE (fld_type field) = PB_LTYPE_EXTENSION \<or> PB_LTYPE_FIXED_LENGTH_BYTES < PB_LTYPE (fld_type field)
            then None else wire_basic dflt sub m field at)
      else None)"

text \<open>A chain of extensions, a linked list in memory.\<close>

fun wire_extensions ::
  "nat \<Rightarrow> wire_calls \<Rightarrow> default_check \<Rightarrow> wire_sub \<Rightarrow> pb_tables \<Rightarrow> mem \<Rightarrow> addr \<Rightarrow> u8 list option" where
  "wire_extensions n X dflt sub T m ext =
     (if ext = 0 then Some []
      else case n of 0 \<Rightarrow> None | Suc k \<Rightarrow> do {
        type \<leftarrow> load_le 8 m ext;
        (f :: addr) \<leftarrow> load_le 8 m (type + 8);
        bs \<leftarrow> (if f \<noteq> 0 then Some (wc_extension X f ext)
              else do {
                (arg :: addr) \<leftarrow> load_le 8 m (type + 16);
                flds \<leftarrow> T arg;
                field \<leftarrow> (case flds of [] \<Rightarrow> None | f # _ \<Rightarrow> Some f);
                dest \<leftarrow> (if PB_ATYPE (fld_type field) = PB_ATYPE_POINTER then Some (ext + 8) else load_le 8 m (ext + 8));
                wire_field X dflt sub m field dest });
        next \<leftarrow> load_le 8 m (ext + 16);
        rest \<leftarrow> wire_extensions k X dflt sub T m next;
        Some (bs @ rest) })"

declare wire_extensions.simps [simp del]

definition wire_any_field ::
  "nat \<Rightarrow> wire_calls \<Rightarrow> default_check \<Rightarrow> wire_sub \<Rightarrow> pb_tables \<Rightarrow> mem \<Rightarrow> pb_field_t \<Rightarrow> addr \<Rightarrow> u8 list option" where
  "wire_any_field n X dflt sub T m field at =
     (if PB_LTYPE (fld_type field) = PB_LTYPE_EXTENSION
      then do { ext \<leftarrow> load_le 8 m at; wire_extensions n X dflt sub T m ext }
      else wire_field X dflt sub m field at)"

definition table_fields :: "pb_tables \<Rightarrow> addr \<Rightarrow> pb_field_t list option" where
  "table_fields T a = do {
     flds \<leftarrow> T a;
     if flds \<noteq> [] \<and> last flds = PB_LAST_FIELD \<and> list_all (\<lambda>f. fld_tag f \<noteq> 0) (butlast flds)
     then Some (butlast flds) else None }"

fun pb_wire :: "nat \<Rightarrow> wire_calls \<Rightarrow> pb_tables \<Rightarrow> mem \<Rightarrow> wire_sub" where
  "pb_wire 0 X T m flds src = None"
| "pb_wire (Suc n) X T m flds src = do {
     body \<leftarrow> table_fields T flds;
     wire_all (\<lambda>i. wire_any_field n X (pb_check_proto3_default_value (Suc n) T m) (pb_wire n X T m) T m
       (body ! i) (data_at body src i)) [0..<length body] }"

subsection \<open>Values\<close>

lemma zigzag_encodes:
  "unat (if sint v < 0 then NOT (push_bit 1 v) else push_bit 1 v) = zigzag (sint v)" for v :: u64
proof -
  have lt: "unat v < 2 ^ 64" using unsigned_less [of v, where 'a = nat] by simp
  have top: "bit (uint v) 63 \<longleftrightarrow> 2 ^ 63 \<le> unat v"
  proof -
    have "bit (uint v) 63 \<longleftrightarrow> bit (unat v) 63" by (simp add: bit_simps)
    also have "\<dots> \<longleftrightarrow> odd (unat v div 2 ^ 63)" by (simp add: bit_iff_odd)
    also have "\<dots> \<longleftrightarrow> 2 ^ 63 \<le> unat v"
    proof (cases "2 ^ 63 \<le> unat v")
      case True
      with lt have "unat v div 2 ^ 63 = 1" by (intro div_nat_eqI) simp_all
      with True show ?thesis by simp
    qed simp
    finally show ?thesis .
  qed
  have s: "sint v = (if unat v < 2 ^ 63 then int (unat v) else int (unat v) - 2 ^ 64)"
  proof -
    have "sint v = signed_take_bit 63 (uint v)" by (simp add: sint_uint)
    also have "\<dots> = take_bit (Suc 63) (uint v) - 2 ^ Suc 63 * of_bool (bit (uint v) 63)"
      by (rule signed_take_bit_eq_take_bit_minus)
    also have "take_bit (Suc 63) (uint v) = uint v"
      by (rule take_bit_int_eq_self) (use unsigned_less [of v, where 'a = int] in simp_all)
    finally show ?thesis using top by (cases "unat v < 2 ^ 63") simp_all
  qed
  have p: "unat (push_bit 1 v) = (2 * unat v) mod 2 ^ 64"
    by (simp add: push_bit_eq_mult unat_word_ariths mult.commute)
  show ?thesis
  proof (cases "unat v < 2 ^ 63")
    case True
    then have "unat (push_bit 1 v) = 2 * unat v" unfolding p by simp
    with True show ?thesis by (simp add: s zigzag_def del: of_nat_unat push_bit_of_1)
  next
    case False
    have "unat (push_bit 1 v) = 2 * unat v - 2 ^ 64"
      unfolding p using False lt by (simp add: mod_if)
    moreover have "unat (NOT x) = 2 ^ 64 - 1 - unat x" for x :: u64
    proof -
      have "NOT x = - 1 - x" by (simp add: not_eq_complement)
      moreover have "unat (- 1 :: u64) = 2 ^ 64 - 1" by (simp add: unsigned_minus_1_eq_mask mask_eq_exp_minus_1)
      moreover have "unat x < 2 ^ 64" using unsigned_less [of x, where 'a = nat] by simp
      ultimately show ?thesis by (simp add: unat_sub_if')
    qed
    ultimately show ?thesis using False lt by (simp add: s zigzag_def del: of_nat_unat)
  qed
qed

lemma byte_of: "(ucast (x AND 0xFF) :: u8) = ucast x" for x :: "'a::len word"
proof -
  have m: "(0xFF :: 'a word) = mask 8" by (simp add: mask_eq_exp_minus_1)
  show ?thesis unfolding m by (intro bit_word_eqI) (auto simp: bit_simps dest: bit_imp_le_length)
qed

lemma fixed32_bytes:
  "[ucast (val AND 0xFF), ucast (drop_bit 8 val AND 0xFF), ucast (drop_bit 16 val AND 0xFF),
    ucast (drop_bit 24 val AND 0xFF)] = le_of_word 4 val" for val :: u32
  by (simp add: byte_of numeral_eq_Suc drop_bit_drop_bit)

lemma fixed64_bytes:
  "[ucast (val AND 0xFF), ucast (drop_bit 8 val AND 0xFF), ucast (drop_bit 16 val AND 0xFF),
    ucast (drop_bit 24 val AND 0xFF), ucast (drop_bit 32 val AND 0xFF), ucast (drop_bit 40 val AND 0xFF),
    ucast (drop_bit 48 val AND 0xFF), ucast (drop_bit 56 val AND 0xFF)] = le_of_word 8 val" for val :: u64
  by (simp add: byte_of numeral_eq_Suc drop_bit_drop_bit)

definition subs_write ::
  "'w write_callback \<Rightarrow> (addr \<Rightarrow> nat \<Rightarrow> 'w \<Rightarrow> bool) \<Rightarrow> (addr \<Rightarrow> nat \<Rightarrow> u8 list \<Rightarrow> 'w \<Rightarrow> 'w \<Rightarrow> bool) \<Rightarrow>
     'w sub_encoder \<Rightarrow> wire_sub \<Rightarrow> bool" where
  "subs_write cb room within csub sub \<longleftrightarrow>
     (\<forall>flds src bs. sub flds src = Some bs \<longrightarrow> writes cb room within (csub flds src) bs)"

lemma load_le_bytes: "load_le n m p = Some v \<Longrightarrow> \<exists>bs. load_bytes m p n = Some bs \<and> v = word_of_le bs"
  by (auto simp: load_le_def)

context output_stream
begin

lemma writes_pointwise: "(\<And>s w. f s w = g s w) \<Longrightarrow> writes cb room within g bs \<Longrightarrow> writes cb room within f bs"
  by (simp add: writes_def)

lemma enc_bool_writes:
  assumes "en_mem V p = Some b"
  shows "writes cb room within (pb_enc_bool V field p) [if b \<noteq> 0 then 1 else 0]"
proof -
  have "writes cb room within (pb_encode_varint (if b \<noteq> 0 then 1 else 0)) [if b \<noteq> 0 then 1 else 0]"
    using writes_varint [of "if b \<noteq> 0 then 1 else 0"] by (simp add: uleb_bytes_small split: if_splits)
  then show ?thesis
    by (rule writes_pointwise [rotated]) (simp add: pb_enc_bool_def safe_read_bool_def assms)
qed

lemma enc_int_writes:
  "wire_int (read_signed (en_mem V) (fld_data_size field) p) unat = Some bs \<Longrightarrow>
     writes cb room within (pb_enc_varint V field p) bs"
  "wire_int (read_unsigned (en_mem V) (fld_data_size field) p) unat = Some bs \<Longrightarrow>
     writes cb room within (pb_enc_uvarint V field p) bs"
  "wire_int (read_signed (en_mem V) (fld_data_size field) p) (\<lambda>v. zigzag (sint v)) = Some bs \<Longrightarrow>
     writes cb room within (pb_enc_svarint V field p) bs"
proof -
  assume "wire_int (read_signed (en_mem V) (fld_data_size field) p) unat = Some bs"
  then obtain v where "read_signed (en_mem V) (fld_data_size field) p = Some (Some v)" "bs = uleb_bytes (unat v)"
    by (auto simp: wire_int_def bind_Some_iff)
  then show "writes cb room within (pb_enc_varint V field p) bs"
    using writes_varint [of v] by (auto simp: pb_enc_varint_def intro: writes_pointwise [rotated])
next
  assume "wire_int (read_unsigned (en_mem V) (fld_data_size field) p) unat = Some bs"
  then obtain v where "read_unsigned (en_mem V) (fld_data_size field) p = Some (Some v)" "bs = uleb_bytes (unat v)"
    by (auto simp: wire_int_def bind_Some_iff)
  then show "writes cb room within (pb_enc_uvarint V field p) bs"
    using writes_varint [of v] by (auto simp: pb_enc_uvarint_def intro: writes_pointwise [rotated])
next
  assume "wire_int (read_signed (en_mem V) (fld_data_size field) p) (\<lambda>v. zigzag (sint v)) = Some bs"
  then obtain v where "read_signed (en_mem V) (fld_data_size field) p = Some (Some v)" "bs = uleb_bytes (zigzag (sint v))"
    by (auto simp: wire_int_def bind_Some_iff)
  moreover have "writes cb room within (pb_encode_svarint v) (uleb_bytes (zigzag (sint v)))"
    unfolding pb_encode_svarint_def zigzag_encodes [symmetric] by (rule writes_varint)
  ultimately show "writes cb room within (pb_enc_svarint V field p) bs"
    by (auto simp: pb_enc_svarint_def intro: writes_pointwise [rotated])
qed

lemma enc_fixed_writes:
  "load_bytes (en_mem V) p 4 = Some bs \<Longrightarrow> writes cb room within (pb_enc_fixed32 V field p) bs"
  "load_bytes (en_mem V) p 8 = Some bs \<Longrightarrow> writes cb room within (pb_enc_fixed64 V field p) bs"
proof -
  assume l: "load_bytes (en_mem V) p 4 = Some bs"
  then have n: "length bs = 4" by (rule load_bytes_length)
  then have le: "le_of_word 4 (word_of_le bs :: u32) = bs" using le_of_word_inverse [of bs, where 'a = 32] by simp
  show "writes cb room within (pb_enc_fixed32 V field p) bs"
  proof (rule writes_pointwise)
    show "writes cb room within (pb_write (local_buf bs) 4) bs"
      using writes_write [of "local_buf bs" bs, OF local_buf_all] n by simp
    show "pb_enc_fixed32 V field p s w = pb_write (local_buf bs) 4 s w" for s w
      unfolding pb_enc_fixed32_def pb_encode_fixed32_def fixed32_bytes by (simp add: load_le_def l le)
  qed
next
  assume l: "load_bytes (en_mem V) p 8 = Some bs"
  then have n: "length bs = 8" by (rule load_bytes_length)
  then have le: "le_of_word 8 (word_of_le bs :: u64) = bs" using le_of_word_inverse [of bs, where 'a = 64] by simp
  show "writes cb room within (pb_enc_fixed64 V field p) bs"
  proof (rule writes_pointwise)
    show "writes cb room within (pb_write (local_buf bs) 8) bs"
      using writes_write [of "local_buf bs" bs, OF local_buf_all] n by simp
    show "pb_enc_fixed64 V field p s w = pb_write (local_buf bs) 8 s w" for s w
      unfolding pb_enc_fixed64_def pb_encode_fixed64_def fixed64_bytes by (simp add: load_le_def l le)
  qed
qed

lemma writes_mem_string:
  assumes "load_bytes m p n = Some bs"
  shows "writes cb room within (pb_encode_string (mem_buf m p) (of_nat n)) (counted bs)"
  using writes_string [of "mem_buf m p" bs] assms load_bytes_length [OF assms]
  by (simp add: counted_def mem_buf_def)

lemma writes_null_string: "writes cb room within (pb_encode_string c 0) (counted [])"
proof -
  have "(pb_encode_string c 0 :: 'w enc) = pb_encode_string null_buf 0"
    by (simp add: pb_encode_string_def pb_write_def [abs_def])
  then show ?thesis using writes_string [of null_buf "[]"] by (simp add: counted_def null_buf_def)
qed

end

lemma ucast_u32:
  fixes k :: u32
  shows "(ucast k :: u64) = of_nat (unat k)" and "unat (ucast k :: u64) = unat k" and "unat k < 2 ^ 32"
proof -
  have "unat k < 2 ^ LENGTH(32)" by (rule unsigned_less)
  then show lt: "unat k < 2 ^ 32" by simp
  show u: "unat (ucast k :: u64) = unat k"
    unfolding unsigned_ucast_eq using lt by (simp add: take_bit_nat_eq_self_iff)
  show "(ucast k :: u64) = of_nat (unat k)" unfolding u [symmetric] by simp
qed

lemma allocsize: "unat (PB_BYTES_ARRAY_T_ALLOCSIZE (ucast k)) = unat k + 4" for k :: u32
  using ucast_u32(2,3) [of k] by (simp add: PB_BYTES_ARRAY_T_ALLOCSIZE_def unat_word_ariths)

context output_stream
begin

lemma enc_bytes_writes:
  assumes w: "wire_bytes (en_mem V) field p = Some xs"
  shows "writes cb room within (pb_enc_bytes V field p) xs"
proof (cases "p = 0")
  case True
  with w have "xs = counted []" by (simp add: wire_bytes_def)
  then show ?thesis
    by (simp add: writes_null_string writes_pointwise [OF _ writes_null_string] pb_enc_bytes_def True)
next
  case False
  with w obtain k :: u32 and bs where k: "load_le 4 (en_mem V) p = Some k"
    and n: "\<not> (PB_ATYPE (fld_type field) = PB_ATYPE_STATIC \<and> unat (fld_data_size field) < unat k + 4)"
    and bs: "load_bytes (en_mem V) (p + 4) (unat k) = Some bs" and xs: "xs = counted bs"
    by (simp only: wire_bytes_def bind_Some_iff if_False) (auto split: if_splits simp: bind_Some_iff)
  show ?thesis
    unfolding xs
  proof (rule writes_pointwise)
    show "writes cb room within (pb_encode_string (mem_buf (en_mem V) (p + 4)) (of_nat (unat k))) (counted bs)"
      by (rule writes_mem_string [OF bs])
    have "\<not> PB_BYTES_ARRAY_T_ALLOCSIZE (ucast k) < ucast k"
      unfolding word_less_nat_alt allocsize ucast_u32(2) by simp
    moreover have "ucast (fld_data_size field) < PB_BYTES_ARRAY_T_ALLOCSIZE (ucast k) \<longleftrightarrow>
        unat (fld_data_size field) < unat k + 4"
      by (simp only: word_less_nat_alt allocsize ucast_u32(2))
    ultimately show "pb_enc_bytes V field p s w =
        pb_encode_string (mem_buf (en_mem V) (p + 4)) (of_nat (unat k)) s w" for s w
      using False n k by (auto simp: pb_enc_bytes_def ucast_u32(1) [symmetric])
  qed
qed

lemma enc_string_writes:
  assumes w: "wire_string (en_mem V) field p = Some xs"
  shows "writes cb room within (pb_enc_string V field p) xs"
proof (cases "p = 0")
  case True
  with w have "xs = counted []" by (simp add: wire_string_def)
  then show ?thesis
    by (simp add: writes_null_string writes_pointwise [OF _ writes_null_string] pb_enc_string_def True)
next
  case False
  have m: "unat (if PB_ATYPE (fld_type field) = PB_ATYPE_POINTER then - 1 else ucast (fld_data_size field) :: u64) =
      (if PB_ATYPE (fld_type field) = PB_ATYPE_POINTER then 2 ^ 64 - 1 else unat (fld_data_size field))"
    by (simp add: ucast_u32(2) unsigned_minus_1_eq_mask mask_eq_exp_minus_1)
  from w False obtain k bs where
    k: "pb_strnlen (en_mem V) p
       (if PB_ATYPE (fld_type field) = PB_ATYPE_POINTER then 2 ^ 64 - 1 else unat (fld_data_size field)) = Some k"
    and bs: "load_bytes (en_mem V) p k = Some bs" and xs: "xs = counted bs"
    by (simp only: wire_string_def bind_Some_iff if_False) auto
  show ?thesis
    unfolding xs
  proof (rule writes_pointwise)
    show "writes cb room within (pb_encode_string (mem_buf (en_mem V) p) (of_nat k)) (counted bs)"
      by (rule writes_mem_string [OF bs])
    show "pb_enc_string V field p s w = pb_encode_string (mem_buf (en_mem V) p) (of_nat k) s w" for s w
    proof -
      have "pb_enc_string V field p s w = do {
          n \<leftarrow> pb_strnlen (en_mem V) p (unat (if PB_ATYPE (fld_type field) = PB_ATYPE_POINTER then - 1
            else ucast (fld_data_size field) :: u64));
          pb_encode_string (mem_buf (en_mem V) p) (of_nat n) s w }"
        using False by (simp only: pb_enc_string_def Let_def if_False)
      then show ?thesis unfolding m k by simp
    qed
  qed
qed

lemma enc_submessage_writes:
  assumes "subs_write cb room within csub sub" "fld_ptr field \<noteq> 0" "sub (fld_ptr field) p = Some bs"
  shows "writes cb room within (pb_enc_submessage csub field p) (counted bs)"
  using assms writes_submessage [of csub "fld_ptr field" p bs]
  by (simp add: subs_write_def pb_enc_submessage_def counted_def)

lemma enc_fixed_length_writes:
  assumes "load_bytes (en_mem V) p (unat (fld_data_size field)) = Some bs"
  shows "writes cb room within (pb_enc_fixed_length_bytes V field p) (counted bs)"
  unfolding pb_enc_fixed_length_bytes_def ucast_u32(1) by (rule writes_mem_string [OF assms])

text \<open>The entry of the table of encoders for the type of a field writes the value of the wire format.\<close>

lemma value_writes:
  assumes s: "subs_write cb room within csub sub" and v: "wire_value sub (en_mem V) field p = Some bs"
    and f: "PB_ENCODERS csub V (PB_LTYPE (fld_type field)) = Some func"
  shows "writes cb room within (func field p) bs"
proof -
  note w = v [unfolded wire_value_def Let_def] and e = f [unfolded PB_ENCODERS_def]
  consider "PB_LTYPE (fld_type field) = PB_LTYPE_BOOL" | "PB_LTYPE (fld_type field) = PB_LTYPE_VARINT"
    | "PB_LTYPE (fld_type field) = PB_LTYPE_UVARINT" | "PB_LTYPE (fld_type field) = PB_LTYPE_SVARINT"
    | "PB_LTYPE (fld_type field) = PB_LTYPE_FIXED32" | "PB_LTYPE (fld_type field) = PB_LTYPE_FIXED64"
    | "PB_LTYPE (fld_type field) = PB_LTYPE_BYTES" | "PB_LTYPE (fld_type field) = PB_LTYPE_STRING"
    | "PB_LTYPE (fld_type field) = PB_LTYPE_SUBMESSAGE" | "PB_LTYPE (fld_type field) = PB_LTYPE_FIXED_LENGTH_BYTES"
    using v by (auto simp: wire_value_def Let_def split: if_splits)
  then show ?thesis
  proof cases
    case 1
    with w obtain b where "en_mem V p = Some b" "bs = [if b \<noteq> 0 then 1 else 0]" by (auto simp: bind_Some_iff)
    moreover from 1 e have "func = pb_enc_bool V" by simp
    ultimately show ?thesis using enc_bool_writes by simp
  next
    case 2
    with w e show ?thesis by (auto simp: ltypes intro: enc_int_writes)
  next
    case 3
    with w e show ?thesis by (auto simp: ltypes intro: enc_int_writes)
  next
    case 4
    with w e show ?thesis by (auto simp: ltypes intro: enc_int_writes)
  next
    case 5
    with w e show ?thesis by (auto simp: ltypes intro: enc_fixed_writes)
  next
    case 6
    with w e show ?thesis by (auto simp: ltypes intro: enc_fixed_writes)
  next
    case 7
    with w e show ?thesis by (auto simp: ltypes intro: enc_bytes_writes)
  next
    case 8
    with w e show ?thesis by (auto simp: ltypes intro: enc_string_writes)
  next
    case 9
    with w e show ?thesis by (auto simp: ltypes bind_Some_iff split: if_splits intro: enc_submessage_writes [OF s])
  next
    case 10
    with w e show ?thesis by (auto simp: ltypes bind_Some_iff intro: enc_fixed_length_writes)
  qed
qed

end

subsection \<open>Fields\<close>

lemma ltype_le:
  fixes x :: u8
  shows "x \<le> 3 \<longleftrightarrow> x = 0 \<or> x = 1 \<or> x = 2 \<or> x = 3"
    and "x \<le> 5 \<longleftrightarrow> x \<le> 3 \<or> x = 4 \<or> x = 5"
    and "x \<le> 8 \<longleftrightarrow> x \<le> 5 \<or> x = 6 \<or> x = 7 \<or> x = 8"
    and "10 < x \<longleftrightarrow> \<not> x \<le> 8 \<and> x \<noteq> 9 \<and> x \<noteq> 10"
  by (simp_all add: word_le_nat_alt word_less_nat_alt word_unat_eq_iff) linarith+

lemma tag_for_field: "wire_type_of field = Some wt \<Longrightarrow> pb_encode_tag_for_field field = pb_encode_tag wt (fld_tag field) \<and> unat wt < 8"
  by (auto simp: wire_type_of_def pb_encode_tag_for_field_def Let_def ltypes ltype_le wire_types split: if_splits)

lemma encoder_exists:
  "PB_LTYPE (fld_type field) \<noteq> PB_LTYPE_EXTENSION \<Longrightarrow> \<not> PB_LTYPE_FIXED_LENGTH_BYTES < PB_LTYPE (fld_type field) \<Longrightarrow>
     \<exists>func. PB_ENCODERS csub V (PB_LTYPE (fld_type field)) = Some func"
  by (auto simp: PB_ENCODERS_def ltypes ltype_le)

lemma wire_all_length:
  "wire_all f xs = Some bs \<Longrightarrow> (\<And>x b. f x = Some b \<Longrightarrow> length b = k) \<Longrightarrow> length bs = k * length xs"
  by (induction xs arbitrary: bs) (auto simp: bind_Some_iff)

lemma length_item_addresses [simp]: "length (item_addresses n p d) = n"
  by (induction n arbitrary: p) simp_all

context output_stream
begin

lemma tagged_writes:
  assumes "tagged field val = Some bs" "\<And>xs. val = Some xs \<Longrightarrow> writes cb room within g xs"
  shows "writes cb room within (and_then (pb_encode_tag_for_field field) g) bs"
proof -
  from assms(1) obtain wt xs where wt: "wire_type_of field = Some wt" and xs: "val = Some xs"
    and bs: "bs = wire_tag wt (fld_tag field) @ xs" by (auto simp: tagged_def bind_Some_iff)
  show ?thesis
  proof -
    have "(pb_encode_tag_for_field field :: 'w enc) = pb_encode_tag wt (fld_tag field)" "unat wt < 8"
      using tag_for_field [OF wt] by blast+
    with writes_append [OF writes_tag assms(2) [OF xs]] show ?thesis by (simp add: bs)
  qed
qed

lemma items_write:
  assumes f: "\<And>p xs. val p = Some xs \<Longrightarrow> writes cb room within (func field p) xs"
  shows "wire_all val (item_addresses n p (ucast (fld_data_size field))) = Some bs \<Longrightarrow>
    writes cb room within (encode_items func field n p) bs"
proof (induction n arbitrary: p bs)
  case 0
  then show ?case by (simp add: writes_nothing)
next
  case (Suc n)
  then show ?case by (auto simp: bind_Some_iff intro!: writes_append f)
qed

lemma tagged_items_write:
  fixes m :: mem
  assumes f: "\<And>p xs. val p = Some xs \<Longrightarrow> writes cb room within (func field p) xs"
  defines "deref q \<equiv> (if PB_ATYPE (fld_type field) = PB_ATYPE_POINTER \<and>
      (PB_LTYPE (fld_type field) = PB_LTYPE_STRING \<or> PB_LTYPE (fld_type field) = PB_LTYPE_BYTES)
      then load_le 8 m q else Some q)"
  shows "wire_all (\<lambda>q. tagged field (do { q \<leftarrow> deref q; val q })) (item_addresses n p (ucast (fld_data_size field))) = Some bs \<Longrightarrow>
    writes cb room within (encode_tagged_items m func field n p) bs"
proof (induction n arbitrary: p bs)
  case 0
  then show ?case by (simp add: writes_nothing)
next
  case (Suc n)
  let ?d = "ucast (fld_data_size field)"
  from Suc.prems obtain xs ys where xs: "tagged field (do { q \<leftarrow> deref p; val q }) = Some xs"
    and ys: "wire_all (\<lambda>q. tagged field (do { q \<leftarrow> deref q; val q })) (item_addresses n (p + ?d) ?d) = Some ys"
    and bs: "bs = xs @ ys" by (auto simp: bind_Some_iff)
  let ?g = "\<lambda>stream w.
           if PB_ATYPE (fld_type field) = PB_ATYPE_POINTER \<and>
              (PB_LTYPE (fld_type field) = PB_LTYPE_STRING \<or> PB_LTYPE (fld_type field) = PB_LTYPE_BYTES)
           then do { q \<leftarrow> load_le 8 m p; func field q stream w }
           else func field p stream w"
  have "writes cb room within ?g zs" if "do { q \<leftarrow> deref p; val q } = Some zs" for zs
  proof -
    from that obtain q where q: "deref p = Some q" "val q = Some zs" by (auto simp: bind_Some_iff)
    show ?thesis
    proof (rule writes_pointwise [OF _ f [OF q(2)]])
      show "?g s w = func field q s w" for s w using q(1) by (auto simp: deref_def split: if_splits)
    qed
  qed
  with xs have "writes cb room within (and_then (pb_encode_tag_for_field field) ?g) xs" by (rule tagged_writes)
  from writes_append [OF this Suc.IH [OF ys]] show ?case
    by (simp add: bs and_then_assoc)
qed

lemma packed_size_counts:
  assumes s: "subs_write cb room within csub sub"
    and f: "PB_ENCODERS csub V (PB_LTYPE (fld_type field)) = Some func"
    and w: "wire_all (wire_value sub (en_mem V) field) (item_addresses (unat count) p (ucast (fld_data_size field))) = Some bs"
    and n: "length bs < 2 ^ 64"
  shows "packed_size func field p count w = Some (of_nat (length bs), w, True)"
proof -
  have fixed: "k * count = of_nat (length bs)" if "\<And>p b. wire_value sub (en_mem V) field p = Some b \<Longrightarrow> length b = unat k"
    for k :: u64
    using wire_all_length [OF w that] by simp
  consider "PB_LTYPE (fld_type field) = PB_LTYPE_FIXED32" | "PB_LTYPE (fld_type field) = PB_LTYPE_FIXED64"
    | "PB_LTYPE (fld_type field) \<noteq> PB_LTYPE_FIXED32" "PB_LTYPE (fld_type field) \<noteq> PB_LTYPE_FIXED64" by blast
  then show ?thesis
  proof cases
    case 1
    then have "wire_value sub (en_mem V) field q = load_bytes (en_mem V) q 4" for q
      by (simp add: wire_value_def ltypes)
    with fixed [of 4] load_bytes_length 1 show ?thesis by (simp add: packed_size_def)
  next
    case 2
    then have "wire_value sub (en_mem V) field q = load_bytes (en_mem V) q 8" for q
      by (simp add: wire_value_def ltypes)
    with fixed [of 8] load_bytes_length 2 show ?thesis by (simp add: packed_size_def ltypes)
  next
    case 3
    have "writes cb room within (encode_items func field (unat count) p) bs"
      using w by (rule items_write [rotated]) (rule value_writes [OF s _ f])
    from writes_sizing [OF this n] show ?thesis using 3 by (simp add: packed_size_def)
  qed
qed

lemma array_writes:
  fixes count :: u32
  assumes s: "subs_write cb room within csub sub"
    and f: "PB_ENCODERS csub V (PB_LTYPE (fld_type field)) = Some func"
    and w: "wire_array sub (en_mem V) field p (unat count) = Some bs"
  shows "writes cb room within (encode_array (en_mem V) field p (ucast count) func) bs"
proof -
  let ?m = "en_mem V" and ?d = "ucast (fld_data_size field) :: u64"
  note vw = value_writes [OF s _ f]
  have zero: "(ucast count = (0 :: u64)) \<longleftrightarrow> unat count = 0" and
    big: "(ucast (fld_array_size field) < (ucast count :: u64)) \<longleftrightarrow> unat (fld_array_size field) < unat count"
    by (simp_all only: word_unat_eq_iff word_less_nat_alt ucast_u32(2)) simp
  show ?thesis
  proof (cases "unat count = 0")
    case True
    with w zero show ?thesis by (simp add: wire_array_def encode_array_def writes_nothing)
  next
    case nz: False
    with w have fit: "\<not> (PB_ATYPE (fld_type field) \<noteq> PB_ATYPE_POINTER \<and> unat (fld_array_size field) < unat count)"
      by (auto simp: wire_array_def Let_def)
    show ?thesis
    proof (cases "PB_LTYPE (fld_type field) \<le> PB_LTYPE_LAST_PACKABLE")
      case False
      with w nz fit have "writes cb room within (encode_tagged_items ?m func field (unat count) p) bs"
        by (intro tagged_items_write [where val = "wire_value sub ?m field"] vw) (auto simp: wire_array_def Let_def)
      with False nz fit zero big show ?thesis by (auto simp: encode_array_def ucast_u32(2))
    next
      case True
      with w nz fit obtain xs where xs: "wire_all (wire_value sub ?m field) (item_addresses (unat count) p ?d) = Some xs"
        and bs: "bs = wire_tag PB_WT_STRING (fld_tag field) @ counted xs"
        by (auto simp: wire_array_def Let_def bind_Some_iff)
      have g: "writes cb room within (encode_items func field (unat count) p) xs"
        using xs by (rule items_write [rotated]) (rule vw)
      show ?thesis
      proof (rule writes_if_short)
        assume "length bs < 2 ^ 64"
        then have n: "length xs < 2 ^ 64" by (simp add: bs counted_def)
        have size: "packed_size func field p (ucast count) w = Some (of_nat (length xs), w, True)" for w
          using packed_size_counts [OF s f _ n, of "ucast count"] xs by (simp add: ucast_u32(2))
        let ?rest = "and_then (pb_encode_varint (of_nat (length xs))) (\<lambda>stream w.
            case os_callback stream of
              None \<Rightarrow> pb_write null_buf (of_nat (length xs)) stream w
            | Some _ \<Rightarrow> encode_items func field (unat count) p stream w)"
        have "writes cb room within (and_then (pb_encode_tag PB_WT_STRING (fld_tag field)) ?rest) bs"
          unfolding bs counted_def
          by (intro writes_append writes_tag writes_length n writes_counted [OF g]) (simp add: wire_types)
        then show ?thesis
          unfolding encode_array_def ucast_u32(2) using True nz fit zero big by (auto simp: size)
      qed
    qed
  qed
qed

end

lemma and_exp: "x AND 2 ^ n = (if bit x n then 2 ^ n else 0)" for x :: u8
  by (intro bit_word_eqI) (auto simp: bit_simps)

lemma htype_cases:
  "PB_HTYPE x = PB_HTYPE_REQUIRED \<or> PB_HTYPE x = PB_HTYPE_OPTIONAL \<or> PB_HTYPE x = PB_HTYPE_REPEATED \<or>
   PB_HTYPE x = PB_HTYPE_ONEOF"
proof -
  have "(0x30 :: u8) = 2 ^ 4 OR 2 ^ 5" by simp
  then have "x AND 0x30 = (x AND 2 ^ 4) OR (x AND 2 ^ 5)" by (simp only: bit.conj_disj_distrib)
  also have "\<dots> = (if bit x 4 then 0x10 else 0) OR (if bit x 5 then 0x20 else 0)"
    unfolding and_exp by simp
  finally show ?thesis by (auto simp: PB_HTYPE_def pb_types)
qed

definition calls_write ::
  "'w write_callback \<Rightarrow> (addr \<Rightarrow> nat \<Rightarrow> 'w \<Rightarrow> bool) \<Rightarrow> (addr \<Rightarrow> nat \<Rightarrow> u8 list \<Rightarrow> 'w \<Rightarrow> 'w \<Rightarrow> bool) \<Rightarrow>
     'w pb_encode_env \<Rightarrow> wire_calls \<Rightarrow> bool" where
  "calls_write cb room within V X \<longleftrightarrow>
     (\<forall>f field arg. writes cb room within (en_callback V f field arg) (wc_callback X f field arg)) \<and>
     (\<forall>f ext. writes cb room within (en_extension V f ext) (wc_extension X f ext))"

lemma basic_repeated:
  assumes "PB_HTYPE (fld_type field) = PB_HTYPE_REPEATED"
    and "PB_ENCODERS csub V (PB_LTYPE (fld_type field)) = Some func"
    and "(if PB_ATYPE (fld_type field) = PB_ATYPE_POINTER then load_le 8 (en_mem V) at else Some at) = Some p"
    and "(if fld_size_offset field = 0 then Some (fld_array_size field)
          else load_le 4 (en_mem V) (at + scast (fld_size_offset field))) = Some count"
  shows "encode_basic_field dflt csub V field at s w = encode_array (en_mem V) field p (ucast count) func s w"
  using assms
  by (cases "PB_ATYPE (fld_type field) = PB_ATYPE_POINTER"; cases "fld_size_offset field = 0")
    (simp_all add: encode_basic_field_def)

lemma basic_single:
  assumes "PB_HTYPE (fld_type field) \<noteq> PB_HTYPE_REPEATED"
    and "PB_ENCODERS csub V (PB_LTYPE (fld_type field)) = Some func"
    and "(if PB_ATYPE (fld_type field) = PB_ATYPE_POINTER then load_le 8 (en_mem V) at else Some at) = Some p"
    and "present dflt (en_mem V) field at p = Some has"
  shows "encode_basic_field dflt csub V field at s w =
    (if has then and_then (pb_encode_tag_for_field field) (func field p) s w else Some (s, w, True))"
proof -
  consider "PB_HTYPE (fld_type field) = PB_HTYPE_REQUIRED" | "PB_HTYPE (fld_type field) = PB_HTYPE_OPTIONAL"
    | "PB_HTYPE (fld_type field) = PB_HTYPE_ONEOF"
    using htype_cases [of "fld_type field"] assms(1) by blast
  then show ?thesis
  proof cases
    case 1
    then show ?thesis using assms(2-4)
      by (cases "PB_ATYPE (fld_type field) = PB_ATYPE_POINTER"; cases "fld_size_offset field = 0")
        (simp_all add: encode_basic_field_def present_def split: if_splits)
  next
    case 2
    show ?thesis
    proof (cases "fld_size_offset field = 0")
      case True
      from assms(4) 2 True obtain z where z: "dflt field at = Some z"
        and has: "has = (if PB_ATYPE (fld_type field) = PB_ATYPE_POINTER then p \<noteq> 0 else \<not> z)"
        by (auto simp: present_def bind_Some_iff)
      show ?thesis using assms(2,3) 2 True z has
        by (cases "PB_ATYPE (fld_type field) = PB_ATYPE_POINTER") (simp_all add: encode_basic_field_def)
    next
      case False
      then have "safe_read_bool (en_mem V) (at + scast (fld_size_offset field)) = Some has"
        using assms(4) 2 by (simp add: present_def)
      then show ?thesis using assms(2,3) 2 False
        by (cases "PB_ATYPE (fld_type field) = PB_ATYPE_POINTER") (simp_all add: encode_basic_field_def)
    qed
  next
    case 3
    with assms(4) obtain which :: u32 where o: "fld_size_offset field \<noteq> 0"
      and l: "load_le 4 (en_mem V) (at + scast (fld_size_offset field)) = Some which" and has: "has = (which = fld_tag field)"
      by (auto simp: present_def bind_Some_iff split: if_splits)
    show ?thesis using assms(2,3) 3 o l has
      by (cases "PB_ATYPE (fld_type field) = PB_ATYPE_POINTER") (simp_all add: encode_basic_field_def)
  qed
qed

context output_stream
begin

lemma basic_writes:
  assumes s: "subs_write cb room within csub sub" and w: "wire_basic dflt sub (en_mem V) field at = Some bs"
    and f: "PB_ENCODERS csub V (PB_LTYPE (fld_type field)) = Some func"
  shows "writes cb room within (encode_basic_field dflt csub V field at) bs"
proof -
  let ?m = "en_mem V"
  from w obtain p where
    p: "(if PB_ATYPE (fld_type field) = PB_ATYPE_POINTER then load_le 8 ?m at else Some at) = Some p"
    by (auto simp only: wire_basic_def bind_Some_iff)
  show ?thesis
  proof (cases "PB_HTYPE (fld_type field) = PB_HTYPE_REPEATED")
    case True
    with w p obtain count where
      c: "(if fld_size_offset field = 0 then Some (fld_array_size field)
          else load_le 4 ?m (at + scast (fld_size_offset field))) = Some count"
      and a: "wire_array sub ?m field p (unat count) = Some bs"
      by (auto simp: wire_basic_def bind_Some_iff)
    show ?thesis
      by (rule writes_pointwise [OF basic_repeated [OF True f p c] array_writes [OF s f a]])
  next
    case False
    with w p obtain has where has: "present dflt ?m field at p = Some has"
      and v: "(if has then tagged field (wire_value sub ?m field p) else Some []) = Some bs"
      by (auto simp: wire_basic_def bind_Some_iff)
    have "writes cb room within (if has then and_then (pb_encode_tag_for_field field) (func field p) else enc_return True) bs"
      using v value_writes [OF s _ f] by (cases has) (auto intro: tagged_writes simp: writes_nothing)
    moreover have "encode_basic_field dflt csub V field at s w =
        (if has then and_then (pb_encode_tag_for_field field) (func field p) else enc_return True) s w" for s w
      using basic_single [OF False f p has] by (simp add: enc_return_def)
    ultimately show ?thesis by (simp add: writes_pointwise)
  qed
qed

lemma callback_writes:
  assumes c: "calls_write cb room within V X"
    and w: "do { (f :: addr) \<leftarrow> load_le 8 (en_mem V) at; Some (if f = 0 then [] else wc_callback X f field (at + 8)) } = Some bs"
  shows "writes cb room within (encode_callback_field V field at) bs"
proof -
  from w obtain f where f: "load_le 8 (en_mem V) at = Some f"
    and bs: "bs = (if f = 0 then [] else wc_callback X f field (at + 8))" by (auto simp: bind_Some_iff)
  show ?thesis
  proof (cases "f = 0")
    case True
    have "encode_callback_field V field at s w = enc_return True s w" for s w
      using True by (simp add: f encode_callback_field_def enc_return_def)
    from writes_pointwise [OF this writes_nothing] show ?thesis using True by (simp add: bs)
  next
    case False
    have g: "writes cb room within (en_callback V f field (at + 8)) bs"
      using c False by (simp add: calls_write_def bs)
    show ?thesis
    proof (rule writes_if_short)
      assume n: "length bs < 2 ^ 64"
      show ?thesis
        unfolding writes_def
      proof (intro impI conjI allI)
        fix s w
        assume fit: "fits cb room (length bs) s w"
        from write_ok [OF fit n] writes_fit [OF g n fit] False
        show "encode_callback_field V field at s w = pb_write (local_buf bs) (of_nat (length bs)) s w"
          by (auto simp: encode_callback_field_def f)
      next
        fix s w
        assume "overflows cb room (length bs) s w"
        from writes_over [OF g n this] False
        show "\<exists>s' w'. encode_callback_field V field at s w = Some (s', w', False) \<and>
            within (os_state s) (unat (os_max_size s) - unat (os_bytes_written s)) bs w w'"
          by (auto simp: encode_callback_field_def f PB_RETURN_ERROR_def)
      qed
    qed
  qed
qed

end

subsection \<open>Messages\<close>

lemma table_fields_table: "table_fields T a = Some body \<Longrightarrow> table T a body"
proof -
  assume "table_fields T a = Some body"
  then obtain flds where f: "T a = Some flds" "flds \<noteq> []" "last flds = PB_LAST_FIELD"
    "list_all (\<lambda>f. fld_tag f \<noteq> 0) (butlast flds)" "body = butlast flds"
    by (auto simp: table_fields_def bind_Some_iff split: if_splits)
  have e: "flds = body @ [PB_LAST_FIELD]" using append_butlast_last_id [OF f(2)] f(3,5) by simp
  show "table T a body" using f(1,4) by (simp add: table_def list_all_iff e)
qed

lemma table_fieldsI: "table T a body \<Longrightarrow> table_fields T a = Some body"
  by (simp add: table_fields_def table_def list_all_iff)

lemma and_then_True [simp]: "and_then f (\<lambda>stream w. Some (stream, w, True)) = f"
  using and_then_return [of f] by (simp add: enc_return_def [abs_def])

context output_stream
begin

lemma field_writes:
  assumes s: "subs_write cb room within csub sub" and c: "calls_write cb room within V X"
    and w: "wire_field X dflt sub (en_mem V) field at = Some bs"
  shows "writes cb room within (encode_field dflt csub V field at) bs"
proof (cases "PB_ATYPE (fld_type field) = PB_ATYPE_CALLBACK")
  case True
  with w have "do { (f :: addr) \<leftarrow> load_le 8 (en_mem V) at;
      Some (if f = 0 then [] else wc_callback X f field (at + 8)) } = Some bs"
    by (simp add: wire_field_def)
  from callback_writes [OF c this] show ?thesis using True by (simp add: encode_field_def)
next
  case False
  with w have a: "PB_ATYPE (fld_type field) = PB_ATYPE_STATIC \<or> PB_ATYPE (fld_type field) = PB_ATYPE_POINTER"
    and l: "PB_LTYPE (fld_type field) \<noteq> PB_LTYPE_EXTENSION" "\<not> PB_LTYPE_FIXED_LENGTH_BYTES < PB_LTYPE (fld_type field)"
    and b: "wire_basic dflt sub (en_mem V) field at = Some bs"
    by (auto simp: wire_field_def split: if_splits)
  obtain func where "PB_ENCODERS csub V (PB_LTYPE (fld_type field)) = Some func"
    using encoder_exists [OF l] by blast
  from basic_writes [OF s b this] a show ?thesis by (simp add: encode_field_def)
qed

lemma extensions_write:
  assumes s: "subs_write cb room within csub sub" and c: "calls_write cb room within V X"
  shows "wire_extensions n X dflt sub (en_tables V) (en_mem V) ext = Some bs \<Longrightarrow>
    writes cb room within (encode_extension_loop (default_extension_encoder dflt csub V) V ext) bs"
proof (induction n arbitrary: ext bs)
  case 0
  then have e: "ext = 0" "bs = []" by (simp_all add: wire_extensions.simps split: if_splits)
  show ?case
    unfolding e(2)
  proof (rule writes_pointwise [OF _ writes_nothing])
    show "encode_extension_loop (default_extension_encoder dflt csub V) V ext s w = enc_return True s w" for s w
      by (simp add: e encode_extension_loop.simps enc_return_def)
  qed
next
  case (Suc n)
  let ?D = "default_extension_encoder dflt csub V" and ?m = "en_mem V"
  show ?case
  proof (cases "ext = 0")
    case True
    with Suc.prems have "bs = []" by (simp add: wire_extensions.simps)
    moreover have "encode_extension_loop ?D V ext s w = enc_return True s w" for s w
      by (simp add: True encode_extension_loop.simps enc_return_def)
    ultimately show ?thesis using writes_nothing by (simp add: writes_pointwise)
  next
    case nz: False
    define first where "first type f =
      (if f \<noteq> 0 then Some (wc_extension X f ext)
       else do {
         (arg :: addr) \<leftarrow> load_le 8 ?m (type + 16);
         flds \<leftarrow> en_tables V arg;
         field \<leftarrow> (case flds of [] \<Rightarrow> None | f # _ \<Rightarrow> Some f);
         dest \<leftarrow> (if PB_ATYPE (fld_type field) = PB_ATYPE_POINTER then Some (ext + 8) else load_le 8 ?m (ext + 8));
         wire_field X dflt sub ?m field dest })" for type and f :: addr
    from Suc.prems nz obtain type f xs nxt ys where type: "load_le 8 ?m ext = Some type"
      and f: "load_le 8 ?m (type + 8) = Some f" and xs: "first type f = Some xs"
      and nxt: "load_le 8 ?m (ext + 16) = Some nxt"
      and ys: "wire_extensions n X dflt sub (en_tables V) ?m nxt = Some ys" and bs: "bs = xs @ ys"
      unfolding first_def by (subst (asm) wire_extensions.simps) (auto simp: bind_Some_iff)
    let ?g = "\<lambda>s w. if f \<noteq> 0 then en_extension V f ext s w else ?D ext s w"
    have "writes cb room within ?g xs"
    proof (cases "f = 0")
      case False
      with xs c show ?thesis by (auto simp: first_def calls_write_def)
    next
      case True
      with xs obtain arg field rest dest where a: "load_le 8 ?m (type + 16) = Some arg"
        and t: "en_tables V arg = Some (field # rest)"
        and d: "(if PB_ATYPE (fld_type field) = PB_ATYPE_POINTER then Some (ext + 8) else load_le 8 ?m (ext + 8)) = Some dest"
        and w: "wire_field X dflt sub ?m field dest = Some xs"
      proof -
        from xs True obtain arg flds where a: "load_le 8 ?m (type + 16) = Some arg" and t: "en_tables V arg = Some flds"
          and r: "do {
            field \<leftarrow> (case flds of [] \<Rightarrow> None | f # _ \<Rightarrow> Some f);
            dest \<leftarrow> (if PB_ATYPE (fld_type field) = PB_ATYPE_POINTER then Some (ext + 8) else load_le 8 ?m (ext + 8));
            wire_field X dflt sub ?m field dest } = Some xs"
          by (auto simp: first_def bind_Some_iff)
        from r show ?thesis
          by (cases flds) (auto simp: bind_Some_iff intro: that [OF a] simp: t)
      qed
      have "?g s w = encode_field dflt csub V field dest s w" for s w
        using True d by (cases "PB_ATYPE (fld_type field) = PB_ATYPE_POINTER")
          (simp_all add: default_extension_encoder_def type a t)
      from writes_pointwise [OF this field_writes [OF s c w]] show ?thesis .
    qed
    from writes_append [OF this Suc.IH [OF ys]]
    have "writes cb room within (and_then ?g (encode_extension_loop ?D V nxt)) bs" by (simp add: bs)
    moreover have "encode_extension_loop ?D V ext s w = and_then ?g (encode_extension_loop ?D V nxt) s w" for s w
      using nz by (subst encode_extension_loop.simps) (auto simp: type f nxt and_then_def split: Option.bind_splits prod.splits)
    ultimately show ?thesis by (simp add: writes_pointwise)
  qed
qed

lemma any_field_writes:
  assumes s: "subs_write cb room within csub sub" and c: "calls_write cb room within V X"
    and w: "wire_any_field n X dflt sub (en_tables V) (en_mem V) field at = Some bs"
  shows "writes cb room within
    (if PB_LTYPE (fld_type field) = PB_LTYPE_EXTENSION then encode_extension_field dflt csub V field at
     else encode_field dflt csub V field at) bs"
proof (cases "PB_LTYPE (fld_type field) = PB_LTYPE_EXTENSION")
  case True
  with w obtain ext where e: "load_le 8 (en_mem V) at = Some ext"
    and x: "wire_extensions n X dflt sub (en_tables V) (en_mem V) ext = Some bs"
    by (auto simp: wire_any_field_def bind_Some_iff)
  have "encode_extension_field dflt csub V field at s w =
      encode_extension_loop (default_extension_encoder dflt csub V) V ext s w" for s w
    by (simp add: encode_extension_field_def e)
  from writes_pointwise [OF this extensions_write [OF s c x]] True show ?thesis by simp
next
  case False
  with w have "wire_field X dflt sub (en_mem V) field at = Some bs" by (simp add: wire_any_field_def)
  from field_writes [OF s c this] False show ?thesis by simp
qed

lemma fields_write:
  fixes src and dflt and n :: nat
  assumes s: "subs_write cb room within csub sub" and c: "calls_write cb room within V X"
    and t: "table (en_tables V) a body"
  defines "wire i \<equiv> wire_any_field n X dflt sub (en_tables V) (en_mem V) (body ! i) (data_at body src i)"
  shows "i < length body \<Longrightarrow> length body - i \<le> fuel \<Longrightarrow> wire_all wire [i..<length body] = Some bs \<Longrightarrow>
    writes cb room within (encode_fields_loop fuel dflt csub V (iter_at a body src i)) bs"
proof (induction fuel arbitrary: i bs)
  case 0
  then show ?case by simp
next
  case (Suc fuel)
  let ?it = "iter_at a body src i"
  let ?g = "if PB_LTYPE (fld_type (body ! i)) = PB_LTYPE_EXTENSION
    then encode_extension_field dflt csub V (body ! i) (data_at body src i)
    else encode_field dflt csub V (body ! i) (data_at body src i)"
  have cons: "[i..<length body] = i # [Suc i..<length body]" using Suc.prems(1) by (rule upt_conv_Cons)
  from Suc.prems(3) obtain xs ys where xs: "wire i = Some xs" and ys: "wire_all wire [Suc i..<length body] = Some ys"
    and bs: "bs = xs @ ys" unfolding cons by (auto simp: bind_Some_iff)
  have g: "writes cb room within ?g xs"
    using xs unfolding wire_def by (rule any_field_writes [OF s c])
  have here: "field_of (en_tables V) ?it = Some (body ! i)" using Suc.prems(1) by (simp add: field_of_at [OF t])
  show ?case
  proof (cases "Suc i < length body")
    case True
    from Suc.IH [OF True _ ys] Suc.prems(2)
    have r: "writes cb room within (encode_fields_loop fuel dflt csub V (iter_at a body src (Suc i))) ys" by simp
    have "encode_fields_loop (Suc fuel) dflt csub V ?it s w =
        and_then ?g (encode_fields_loop fuel dflt csub V (iter_at a body src (Suc i))) s w" for s w
      by (simp add: here iter_next [OF t True] and_then_def)
    from writes_pointwise [OF this writes_append [OF g r]] show ?thesis by (simp add: bs)
  next
    case False
    then have e: "Suc i = length body" using Suc.prems(1) by simp
    with ys have "ys = []" by simp
    moreover have "encode_fields_loop (Suc fuel) dflt csub V ?it s w = ?g s w" for s w
      by (simp add: here iter_next_wraps [OF t e])
    from writes_pointwise [OF this g] \<open>ys = []\<close> show ?thesis by (simp add: bs)
  qed
qed

lemma encode_writes:
  assumes c: "calls_write cb room within V X"
  shows "pb_wire n X (en_tables V) (en_mem V) flds src = Some bs \<Longrightarrow>
    writes cb room within (pb_encode n V flds src) bs"
proof (induction n arbitrary: flds src bs)
  case 0
  then show ?case by simp
next
  case (Suc n)
  let ?T = "en_tables V" and ?m = "en_mem V"
  let ?d = "pb_check_proto3_default_value (Suc n) ?T ?m"
  from Suc.prems obtain body where b: "table_fields ?T flds = Some body"
    and w: "wire_all (\<lambda>i. wire_any_field n X ?d (pb_wire n X ?T ?m) ?T ?m (body ! i) (data_at body src i))
      [0..<length body] = Some bs" by (auto simp: bind_Some_iff simp del: pb_check_proto3_default_value.simps)
  note t = table_fields_table [OF b]
  have s: "subs_write cb room within (pb_encode n V) (pb_wire n X ?T ?m)"
    using Suc.IH by (simp add: subs_write_def)
  show ?case
  proof (cases "body = []")
    case True
    with w have "bs = []" by simp
    obtain iter where "pb_field_iter_begin ?T flds src = Some (iter, False)"
      using iter_begin_empty [of ?T flds src] t True by blast
    then have "pb_encode (Suc n) V flds src st w = enc_return True st w" for st w
      by (simp add: encode_message_def enc_return_def)
    from writes_pointwise [OF this writes_nothing] show ?thesis using \<open>bs = []\<close> by simp
  next
    case False
    have "writes cb room within (encode_fields_loop (table_length ?T flds) ?d (pb_encode n V) V (iter_at flds body src 0)) bs"
      using False w by (intro fields_write [OF s c t, where n = n]) (simp_all add: table_length [OF t])
    moreover have "pb_encode (Suc n) V flds src st w =
        encode_fields_loop (table_length ?T flds) ?d (pb_encode n V) V (iter_at flds body src 0) st w" for st w
      by (simp add: encode_message_def iter_begin [OF t False] del: pb_check_proto3_default_value.simps)
    ultimately show ?thesis by (simp add: writes_pointwise del: pb_encode.simps)
  qed
qed

end

subsection \<open>Streams over a buffer\<close>

definition buf_room :: "addr \<Rightarrow> nat \<Rightarrow> mem \<Rightarrow> bool" where
  "buf_room st k w \<longleftrightarrow> mapped w st k \<and> k \<le> 2 ^ 64"

text \<open>What a write that fails half way leaves behind: no change outside of the space that was given, and more
  precisely a prefix of the bytes that were to be written.\<close>

definition buf_within :: "addr \<Rightarrow> nat \<Rightarrow> u8 list \<Rightarrow> mem \<Rightarrow> mem \<Rightarrow> bool" where
  "buf_within st k bs w w' \<longleftrightarrow> (\<forall>x. \<not> in_block st k x \<longrightarrow> w' x = w x)"

definition buf_prefix :: "addr \<Rightarrow> nat \<Rightarrow> u8 list \<Rightarrow> mem \<Rightarrow> mem \<Rightarrow> bool" where
  "buf_prefix st k bs w w' \<longleftrightarrow> (\<exists>j. j \<le> k \<and> j \<le> length bs \<and> store_bytes w st (take j bs) = Some w')"

lemma store_bytes_append:
  "store_bytes w a (xs @ ys) = do { w1 \<leftarrow> store_bytes w a xs; store_bytes w1 (a + of_nat (length xs)) ys }"
  by (induction xs arbitrary: w a) (simp_all add: add.assoc)

lemma in_block_later:
  assumes "in_block (a + of_nat j) (k - j) x" "k \<le> 2 ^ 64"
  shows "in_block a k x"
proof -
  from assms(1) have l: "unat (x - (a + of_nat j)) < k - j" by (simp add: in_block_def)
  then have j: "j < 2 ^ 64" using assms(2) by simp
  have "x - a = (x - (a + of_nat j)) + of_nat j" by simp
  also have "unat \<dots> = unat (x - (a + of_nat j)) + j"
    using l assms(2) by (intro unat_add_of_nat) simp
  finally show ?thesis using l by (simp add: in_block_def)
qed

lemma buf_write_takes:
  assumes r: "buf_room st k w" and le: "length bs \<le> k"
  shows "\<exists>w'. buf_write st bs w = Some (st + of_nat (length bs), w', True) \<and> store_bytes w st bs = Some w' \<and>
    buf_room (st + of_nat (length bs)) (k - length bs) w'"
proof -
  from r le have k: "k \<le> 2 ^ 64" and m: "mapped w st k" and l: "length bs \<le> 2 ^ 64" by (simp_all add: buf_room_def)
  from m le have "mapped w st (length bs)" by (simp add: mapped_def)
  with l obtain w' where s: "store_bytes w st bs = Some w'" using store_bytes_total by blast
  have "mapped w' (st + of_nat (length bs)) (k - length bs)"
    unfolding mapped_def
  proof (intro allI impI)
    fix i assume "i < k - length bs"
    with m have "w (st + of_nat (length bs + i)) \<noteq> None" by (simp only: mapped_def) simp
    then have "st + of_nat (length bs + i) \<in> dom w'" using store_bytes_dom [OF s] by blast
    then show "w' (st + of_nat (length bs) + of_nat i) \<noteq> None" by (simp add: add.assoc dom_def)
  qed
  with k s show ?thesis by (auto simp: buf_write_def buf_room_def)
qed

lemma buf_write_append:
  "buf_write st xs w = Some (st', w', True) \<Longrightarrow> buf_write st (xs @ ys) w = buf_write st' ys w'"
  by (auto simp: buf_write_def bind_Some_iff store_bytes_append add.assoc)

lemma buf_room_mono: "buf_room st k w \<Longrightarrow> j \<le> k \<Longrightarrow> buf_room st j w"
  by (auto simp: buf_room_def mapped_def)

interpretation buffer: output_stream buf_write buf_room buf_within
proof
  fix st k w and bs :: "u8 list"
  assume r: "buf_room st k w" and le: "length bs \<le> k"
  then have k: "k \<le> 2 ^ 64" and l: "length bs \<le> 2 ^ 64" by (simp_all add: buf_room_def)
  from buf_write_takes [OF r le] obtain w' where w': "buf_write st bs w = Some (st + of_nat (length bs), w', True)"
    "store_bytes w st bs = Some w'" "buf_room (st + of_nat (length bs)) (k - length bs) w'" by blast
  have "buf_within st k (bs @ ys) w w''" if w: "buf_within (st + of_nat (length bs)) (k - length bs) ys w' w''" for ys w''
    unfolding buf_within_def
  proof (intro allI impI)
    fix x assume x: "\<not> in_block st k x"
    then have "w' x = w x"
      using store_bytes_other [OF w'(2) l] in_block_mono [OF _ le] by blast
    moreover have "w'' x = w' x"
      using w x in_block_later [OF _ k] by (auto simp: buf_within_def)
    ultimately show "w'' x = w x" by simp
  qed
  with w' show "\<exists>st' w'. buf_write st bs w = Some (st', w', True) \<and> buf_room st' (k - length bs) w' \<and>
      (\<forall>ys w''. buf_within st' (k - length bs) ys w' w'' \<longrightarrow> buf_within st k (bs @ ys) w w'')" by blast
qed (auto simp: buf_within_def intro: buf_write_append buf_room_mono)

interpretation prefixes: output_stream buf_write buf_room buf_prefix
proof
  fix st k w and bs :: "u8 list"
  assume r: "buf_room st k w" and le: "length bs \<le> k"
  from buf_write_takes [OF r le] obtain w' where w': "buf_write st bs w = Some (st + of_nat (length bs), w', True)"
    "store_bytes w st bs = Some w'" "buf_room (st + of_nat (length bs)) (k - length bs) w'" by blast
  have "buf_prefix st k (bs @ ys) w w''" if p: "buf_prefix (st + of_nat (length bs)) (k - length bs) ys w' w''" for ys w''
  proof -
    from p obtain j where j: "j \<le> k - length bs" "j \<le> length ys"
      "store_bytes w' (st + of_nat (length bs)) (take j ys) = Some w''" by (auto simp: buf_prefix_def)
    then have "store_bytes w st (take (length bs + j) (bs @ ys)) = Some w''"
      using w'(2) by (simp add: store_bytes_append)
    with j le show ?thesis by (auto simp: buf_prefix_def intro!: exI [of _ "length bs + j"])
  qed
  with w' show "\<exists>st' w'. buf_write st bs w = Some (st', w', True) \<and> buf_room st' (k - length bs) w' \<and>
      (\<forall>ys w''. buf_prefix st' (k - length bs) ys w' w'' \<longrightarrow> buf_prefix st k (bs @ ys) w w'')" by blast
next
  fix st k w and xs ys :: "u8 list" and w'
  assume "buf_prefix st k xs w w'"
  then show "buf_prefix st k (xs @ ys) w w'" by (force simp: buf_prefix_def)
qed (auto simp: buf_prefix_def intro: buf_write_append buf_room_mono intro!: exI [of _ 0])

lemma buffer_fits:
  assumes "n \<le> unat bufsize" "mapped w buf (unat bufsize)"
  shows "fits buf_write buf_room n (pb_ostream_from_buffer buf bufsize) w"
proof -
  have "unat bufsize < 2 ^ LENGTH(64)" by (rule unsigned_less)
  with assms show ?thesis by (simp add: fits_def pb_ostream_from_buffer_def buf_room_def)
qed

lemma buffer_overflows:
  assumes "unat bufsize < n" "n < 2 ^ 64" "mapped w buf (unat bufsize)"
  shows "overflows buf_write buf_room n (pb_ostream_from_buffer buf bufsize) w"
  using assms by (simp add: overflows_def pb_ostream_from_buffer_def buf_room_def)

lemma encode_to_buffer:
  assumes c: "calls_write buf_write buf_room buf_within V X"
    and b: "pb_wire n X (en_tables V) (en_mem V) flds src = Some bs"
    and l: "length bs \<le> unat bufsize" and m: "mapped w buf (unat bufsize)"
  shows "\<exists>s' w'. pb_encode n V flds src (pb_ostream_from_buffer buf bufsize) w = Some (s', w', True) \<and>
    store_bytes w buf bs = Some w' \<and> unat (os_bytes_written s') = length bs"
proof -
  let ?s = "pb_ostream_from_buffer buf bufsize"
  have "unat bufsize < 2 ^ LENGTH(64)" by (rule unsigned_less)
  with l have n: "length bs < 2 ^ 64" by simp
  note f = buffer_fits [OF l m]
  note g = buffer.encode_writes [OF c b]
  from buffer.write_ok [OF f n] obtain s1 w1 where
    p: "pb_write (local_buf bs) (of_nat (length bs)) ?s w = Some (s1, w1, True)" by blast
  note x = buffer.write_result [OF f n p]
  have "store_bytes w buf bs = Some w1"
    using x(3) by (cases "bs = []") (auto simp: pb_ostream_from_buffer_def buf_write_def bind_Some_iff)
  moreover have "os_bytes_written s1 = of_nat (length bs)"
    by (subst x(1)) (simp add: pb_ostream_from_buffer_def)
  then have "unat (os_bytes_written s1) = length bs" using n by (simp add: unat_of_nat)
  ultimately show ?thesis using writes_fit [OF g n f] p by auto
qed

lemma encoded_size:
  assumes c: "calls_write buf_write buf_room buf_within V X"
    and b: "pb_wire n X (en_tables V) (en_mem V) flds src = Some bs" and l: "length bs < 2 ^ 64"
  shows "pb_get_encoded_size n V flds src w = Some (Some (of_nat (length bs)), w)"
  using buffer.writes_sizing [OF buffer.encode_writes [OF c b] l, of w]
  by (simp add: pb_get_encoded_size_def)

lemma encode_stays_inside:
  assumes c: "calls_write buf_write buf_room buf_prefix V X"
    and b: "pb_wire n X (en_tables V) (en_mem V) flds src = Some bs"
    and l: "unat bufsize < length bs" "length bs < 2 ^ 64" and m: "mapped w buf (unat bufsize)"
  shows "\<exists>s' w' j. pb_encode n V flds src (pb_ostream_from_buffer buf bufsize) w = Some (s', w', False) \<and>
    j \<le> unat bufsize \<and> store_bytes w buf (take j bs) = Some w'"
  using writes_over [OF prefixes.encode_writes [OF c b] l(2) buffer_overflows [OF l m]]
  by (auto simp: buf_prefix_def pb_ostream_from_buffer_def)

subsection \<open>An example message\<close>

text \<open>A message with a number, an optional string and a submessage with a signed number, as a generated
  structure lays it out: the number at 0, the flag at 4, the string of 8 bytes at 5, the submessage at 16.\<close>

definition example_field :: "u32 \<Rightarrow> u8 \<Rightarrow> u32 \<Rightarrow> u32 \<Rightarrow> u32 \<Rightarrow> addr \<Rightarrow> pb_field_t" where
  "example_field tag type data_off size_off data_sz p = \<lparr> fld_tag = tag, fld_type = type, fld_data_offset = data_off,
     fld_size_offset = size_off, fld_data_size = data_sz, fld_array_size = 0, fld_ptr = p \<rparr>"

definition example_fields :: "pb_field_t list" where
  "example_fields = [example_field 1 0x01 0 0 4 0, example_field 2 0x17 1 0xFFFFFFFF 8 0, example_field 3 0x08 3 0 4 0x6000]"

definition example_tables :: pb_tables where
  "example_tables a =
     (if a = 0x5000 then Some (example_fields @ [PB_LAST_FIELD])
      else if a = 0x6000 then Some [example_field 1 0x03 0 0 4 0, PB_LAST_FIELD] else None)"

definition example_message :: "u8 list" where
  "example_message = [150, 0, 0, 0, 1, 104, 105, 0, 0, 0, 0, 0, 0, 0, 0, 0, 0xFD, 0xFF, 0xFF, 0xFF]"

definition example_env :: "'w pb_encode_env" where
  "example_env = \<lparr> en_tables = example_tables, en_mem = bytes_at 0x1000 example_message,
     en_callback = (\<lambda>f field arg. enc_return True), en_extension = (\<lambda>f ext. enc_return True) \<rparr>"

definition no_calls :: wire_calls where
  "no_calls = \<lparr> wc_callback = (\<lambda>f field arg. []), wc_extension = (\<lambda>f ext. []) \<rparr>"

definition example_bytes :: "u8 list" where
  "example_bytes = [0x08, 0x96, 0x01, 0x12, 0x02, 0x68, 0x69, 0x1A, 0x02, 0x08, 0x05]"

definition output_buffer :: mem where
  "output_buffer = bytes_at 0x2000 (replicate 16 0)"

lemma example_length [simp]: "length example_bytes = 11"
  by (simp add: example_bytes_def)

lemma example_env_simps [simp]:
  "en_tables example_env = example_tables" "en_mem example_env = bytes_at 0x1000 example_message"
  by (simp_all add: example_env_def)

lemma example_calls:
  "calls_write buf_write buf_room buf_within example_env no_calls"
  "calls_write buf_write buf_room buf_prefix example_env no_calls"
  by (simp_all add: calls_write_def example_env_def no_calls_def buffer.writes_nothing prefixes.writes_nothing)

lemma example_wire: "pb_wire 2 no_calls example_tables (bytes_at 0x1000 example_message) 0x5000 0x1000 = Some example_bytes"
  by code_simp

lemma output_mapped: "n \<le> 16 \<Longrightarrow> mapped output_buffer 0x2000 n"
  by (simp add: mapped_def output_buffer_def bytes_at_def unat_of_nat)

text \<open>C6 (refinement): encoding a message into a buffer that is large enough writes its bytes in the wire
  format, in order and nothing else, reports their number, and the sizing function computes this number.\<close>

theorem encode_wire:
  assumes "calls_write buf_write buf_room buf_within V X"
    and "pb_wire n X (en_tables V) (en_mem V) flds src = Some bs"
    and "length bs \<le> unat bufsize" and "mapped w buf (unat bufsize)"
  shows "\<exists>s' w'. pb_encode n V flds src (pb_ostream_from_buffer buf bufsize) w = Some (s', w', True) \<and>
    store_bytes w buf bs = Some w' \<and> unat (os_bytes_written s') = length bs"
  using assms by (rule encode_to_buffer)

theorem encode_wire_witness:
  "\<exists>s' w'. pb_encode 2 example_env 0x5000 0x1000 (pb_ostream_from_buffer 0x2000 16) output_buffer = Some (s', w', True) \<and>
     store_bytes output_buffer 0x2000 example_bytes = Some w' \<and> unat (os_bytes_written s') = 11"
proof -
  have "length example_bytes \<le> unat (16 :: u64)" "mapped output_buffer 0x2000 (unat (16 :: u64))"
    by (simp_all add: output_mapped)
  from encode_wire [OF example_calls(1) _ this, of 2 "0x5000" "0x1000"] example_wire
  show ?thesis by simp
qed

text \<open>C22 (equivalence): the sizing pass returns exactly the number of bytes the encoder writes, and
  changes nothing.\<close>

theorem encoded_size_exact:
  assumes "calls_write buf_write buf_room buf_within V X"
    and "pb_wire n X (en_tables V) (en_mem V) flds src = Some bs" and "length bs < 2 ^ 64"
  shows "pb_get_encoded_size n V flds src w = Some (Some (of_nat (length bs)), w)"
  using assms by (rule encoded_size)

theorem encoded_size_exact_witness:
  "pb_get_encoded_size 2 example_env 0x5000 0x1000 output_buffer = Some (Some 11, output_buffer)"
  using encoded_size_exact [OF example_calls(1), of 2 "0x5000" "0x1000" example_bytes output_buffer] example_wire
  by simp

text \<open>C23 (safety): a message that does not fit makes the encoder fail, and what has been written is a prefix of the
  message that lies in the buffer: no other byte has changed.\<close>

theorem encode_overflow:
  assumes "calls_write buf_write buf_room buf_prefix V X"
    and "pb_wire n X (en_tables V) (en_mem V) flds src = Some bs"
    and "unat bufsize < length bs" "length bs < 2 ^ 64" and "mapped w buf (unat bufsize)"
  shows "\<exists>s' w' j. pb_encode n V flds src (pb_ostream_from_buffer buf bufsize) w = Some (s', w', False) \<and>
    j \<le> unat bufsize \<and> store_bytes w buf (take j bs) = Some w'"
  using assms by (rule encode_stays_inside)

theorem encode_overflow_witness:
  "\<exists>s' w' j. pb_encode 2 example_env 0x5000 0x1000 (pb_ostream_from_buffer 0x2000 9) output_buffer = Some (s', w', False) \<and>
     j \<le> 9 \<and> store_bytes output_buffer 0x2000 (take j example_bytes) = Some w'"
proof -
  have "unat (9 :: u64) < length example_bytes" "length example_bytes < 2 ^ 64" "mapped output_buffer 0x2000 (unat (9 :: u64))"
    by (simp_all add: output_mapped)
  from encode_overflow [OF example_calls(2) _ this, of 2 "0x5000" "0x1000"] example_wire
  show ?thesis by simp
qed

end
