(* ===== verification/PbDecode.thy ===== *)
theory PbDecode
  imports PbWire
begin

section \<open>nanopb: input streams and the decoders of single values\<close>

text \<open>
  The first half of \<open>Pods/nanopb/pb_decode.c\<close>: \<open>pb_istream_t\<close>, the readers of numbers and tags, skipping,
  substreams, and the field decoders of numbers.

  \<^item> Decoding reads its input from the same memory it writes the message to.  The state of a decoder is
    the stream and a \<open>pb_world\<close>: the memory, and the blocks on the heap with their sizes.
  \<^item> The code compares the callback of a stream with \<open>buf_read\<close>, so callbacks are a datatype: that one, or
    a function of the application, a parameter of the environment.  It returns the new state of the
    stream and the bytes it has put into the buffer.
  \<^item> A decoder is a function of the stream and the world, \<open>None\<close> where the behaviour is undefined; its
    result is an option itself, \<open>None\<close> for the \<open>false\<close> of the source, so that an output that is only
    assigned on success is only there then.  \<open>dec_then\<close> is \<open>if (!f(...)) return false; ...\<close>.
  \<^item> \<open>uint_fast8_t\<close> has 8 bits on the target, and \<open>bitpos\<close> wraps.  The loops read a byte of the stream in
    every turn, whence their fuel.
\<close>

subsection \<open>Streams\<close>

datatype read_fn = Buf_read | User_read addr

record pb_istream_t =
  is_callback :: read_fn
  is_state :: addr
  is_bytes_left :: u64
  is_errmsg :: "string option"

record pb_world =
  wd_mem :: mem
  wd_heap :: "addr \<Rightarrow> nat option"

type_synonym 'a dec = "pb_istream_t \<Rightarrow> pb_world \<Rightarrow> (pb_istream_t \<times> pb_world \<times> 'a option) option"

text \<open>What the application provides: the callbacks of streams, fields and extensions, by address, and the
  allocator's choice of the address of a new block (0 when there is none) and what the block holds.
  \<open>de_frame\<close> is where the locals whose address the code takes are on the stack, by the depth of the call.\<close>

record pb_decode_env =
  de_tables :: pb_tables
  de_read :: "addr \<Rightarrow> addr \<Rightarrow> u64 \<Rightarrow> pb_world \<Rightarrow> (addr \<times> pb_world \<times> u8 list \<times> bool) option"
  de_callback :: "addr \<Rightarrow> pb_field_t \<Rightarrow> addr \<Rightarrow> unit dec"
  de_extension :: "addr \<Rightarrow> addr \<Rightarrow> u32 \<Rightarrow> u32 \<Rightarrow> unit dec"
  de_choose :: "pb_world \<Rightarrow> u64 \<Rightarrow> addr"
  de_fresh :: "addr \<Rightarrow> u8"
  de_frame :: "nat \<Rightarrow> addr"

definition dec_return :: "'a \<Rightarrow> 'a dec" where
  "dec_return x stream w = Some (stream, w, Some x)"

definition dec_false :: "'a dec" where
  "dec_false stream w = Some (stream, w, None)"

definition dec_error :: "string \<Rightarrow> 'a dec" where
  "dec_error msg stream w =
     Some (stream\<lparr>is_errmsg := (case is_errmsg stream of None \<Rightarrow> Some msg | Some e \<Rightarrow> Some e)\<rparr>, w, None)"

definition dec_then :: "'a dec \<Rightarrow> ('a \<Rightarrow> 'b dec) \<Rightarrow> 'b dec" where
  "dec_then f g stream w = do {
     (stream, w, r) \<leftarrow> f stream w;
     case r of None \<Rightarrow> Some (stream, w, None) | Some x \<Rightarrow> g x stream w }"

text \<open>Accesses to memory in the middle of a decoder.\<close>

definition dec_load :: "nat \<Rightarrow> addr \<Rightarrow> 'a::len word dec" where
  "dec_load n p stream w = do { v \<leftarrow> load_le n (wd_mem w) p; Some (stream, w, Some v) }"

definition dec_store_bytes :: "addr \<Rightarrow> u8 list \<Rightarrow> unit dec" where
  "dec_store_bytes p bs stream w = do {
     m \<leftarrow> store_bytes (wd_mem w) p bs;
     Some (stream, w\<lparr>wd_mem := m\<rparr>, Some ()) }"

definition dec_store :: "nat \<Rightarrow> addr \<Rightarrow> 'a::len word \<Rightarrow> unit dec" where
  "dec_store n p v = dec_store_bytes p (le_of_word n v)"

text \<open>The destination of a read: the null pointer, a local buffer, an address.  The bytes of a read into a
  local buffer are its result.\<close>

datatype cdest = Dest_null | Dest_local | Dest_mem addr

definition buf_read :: "cdest \<Rightarrow> u64 \<Rightarrow> addr \<Rightarrow> pb_world \<Rightarrow> (addr \<times> pb_world \<times> u8 list) option" where
  "buf_read buf count state w =
     (case buf of
        Dest_null \<Rightarrow> Some (state + count, w, [])
      | Dest_local \<Rightarrow> do { bs \<leftarrow> load_bytes (wd_mem w) state (unat count); Some (state + count, w, bs) }
      | Dest_mem p \<Rightarrow> do {
          bs \<leftarrow> load_bytes (wd_mem w) state (unat count);
          m \<leftarrow> store_bytes (wd_mem w) p bs;
          Some (state + count, w\<lparr>wd_mem := m\<rparr>, bs) })"

definition call_read ::
  "pb_decode_env \<Rightarrow> pb_istream_t \<Rightarrow> cdest \<Rightarrow> u64 \<Rightarrow> pb_world \<Rightarrow> (pb_istream_t \<times> pb_world \<times> u8 list \<times> bool) option" where
  "call_read E stream buf count w =
     (case is_callback stream of
        Buf_read \<Rightarrow> do {
          (state, w, bs) \<leftarrow> buf_read buf count (is_state stream) w;
          Some (stream\<lparr>is_state := state\<rparr>, w, bs, True) }
      | User_read f \<Rightarrow> do {
          (state, w, bs, ok) \<leftarrow> de_read E f (is_state stream) count w;
          m \<leftarrow> (case buf of Dest_mem p \<Rightarrow> store_bytes (wd_mem w) p bs | _ \<Rightarrow> Some (wd_mem w));
          Some (stream\<lparr>is_state := state\<rparr>, w\<lparr>wd_mem := m\<rparr>, bs, ok) })"

text \<open>\<open>pb_read\<close> behind its test for skipping.\<close>

definition read_some :: "pb_decode_env \<Rightarrow> cdest \<Rightarrow> u64 \<Rightarrow> u8 list dec" where
  "read_some E buf count stream w =
     (if is_bytes_left stream < count then dec_error ''end-of-stream'' stream w
      else do {
        (stream, w, bs, ok) \<leftarrow> call_read E stream buf count w;
        if \<not> ok then dec_error ''io error'' stream w
        else Some (stream\<lparr>is_bytes_left := is_bytes_left stream - count\<rparr>, w, Some bs) })"

function skip_chunks :: "pb_decode_env \<Rightarrow> u64 \<Rightarrow> u8 list dec" where
  "skip_chunks E count =
     (if 16 < count then dec_then (read_some E Dest_local 16) (\<lambda>_. skip_chunks E (count - 16))
      else if count = 0 then dec_return []
      else read_some E Dest_local count)"
  by pat_completeness auto
termination by (relation "measure (\<lambda>(E, count). unat count)") (auto simp: unat_sub_if' word_less_nat_alt)

declare skip_chunks.simps [simp del]

definition pb_read :: "pb_decode_env \<Rightarrow> cdest \<Rightarrow> u64 \<Rightarrow> u8 list dec" where
  "pb_read E buf count stream w =
     (if count = 0 then Some (stream, w, Some [])
      else if buf = Dest_null \<and> is_callback stream \<noteq> Buf_read then skip_chunks E count stream w
      else read_some E buf count stream w)"

text \<open>The byte is uninitialised when the callback has not written it.\<close>

definition pb_readbyte :: "pb_decode_env \<Rightarrow> u8 dec" where
  "pb_readbyte E stream w =
     (if is_bytes_left stream = 0 then dec_error ''end-of-stream'' stream w
      else do {
        (stream, w, bs, ok) \<leftarrow> call_read E stream Dest_local 1 w;
        if \<not> ok then dec_error ''io error'' stream w
        else case bs of
          [] \<Rightarrow> None
        | b # _ \<Rightarrow> Some (stream\<lparr>is_bytes_left := is_bytes_left stream - 1\<rparr>, w, Some b) })"

definition pb_istream_from_buffer :: "addr \<Rightarrow> u64 \<Rightarrow> pb_istream_t" where
  "pb_istream_from_buffer buf bufsize =
     \<lparr> is_callback = Buf_read, is_state = buf, is_bytes_left = bufsize, is_errmsg = None \<rparr>"

subsection \<open>Numbers\<close>

fun varint32_loop :: "nat \<Rightarrow> pb_decode_env \<Rightarrow> u32 \<Rightarrow> u8 \<Rightarrow> u32 dec" where
  "varint32_loop 0 E result bitpos = (\<lambda>stream w. None)"
| "varint32_loop (Suc fuel) E result bitpos = dec_then (pb_readbyte E) (\<lambda>byte.
     let sign_extension = (if bitpos < 63 then 0xFF else 0x01) :: u8 in
     if 32 \<le> bitpos \<and> byte AND 0x7F \<noteq> 0 \<and> (drop_bit 31 result = 0 \<or> byte \<noteq> sign_extension)
     then dec_error ''varint overflow''
     else
       let result = (if 32 \<le> bitpos then result else result OR push_bit (unat bitpos) (ucast (byte AND 0x7F)));
           bitpos = bitpos + 7
       in if byte AND 0x80 \<noteq> 0 then varint32_loop fuel E result bitpos
          else if bitpos = 35 \<and> byte AND 0x70 \<noteq> 0 then dec_error ''varint overflow''
          else dec_return result)"

text \<open>The result and whether the end of the stream was found where the number should start.\<close>

definition pb_decode_varint32_eof ::
  "pb_decode_env \<Rightarrow> pb_istream_t \<Rightarrow> pb_world \<Rightarrow> (pb_istream_t \<times> pb_world \<times> u32 option \<times> bool) option" where
  "pb_decode_varint32_eof E stream w = do {
     (stream, w, r) \<leftarrow> pb_readbyte E stream w;
     case r of
       None \<Rightarrow> Some (stream, w, None, is_bytes_left stream = 0)
     | Some byte \<Rightarrow>
         if byte AND 0x80 = 0 then Some (stream, w, Some (ucast byte), False)
         else do {
           (stream, w, r) \<leftarrow>
             varint32_loop (Suc (unat (is_bytes_left stream))) E (ucast (byte AND 0x7F)) 7 stream w;
           Some (stream, w, r, False) } }"

definition pb_decode_varint32 :: "pb_decode_env \<Rightarrow> u32 dec" where
  "pb_decode_varint32 E stream w = do {
     (stream, w, r, _) \<leftarrow> pb_decode_varint32_eof E stream w;
     Some (stream, w, r) }"

fun varint64_loop :: "nat \<Rightarrow> pb_decode_env \<Rightarrow> u64 \<Rightarrow> u8 \<Rightarrow> u64 dec" where
  "varint64_loop 0 E result bitpos = (\<lambda>stream w. None)"
| "varint64_loop (Suc fuel) E result bitpos =
     (if 64 \<le> bitpos then dec_error ''varint overflow''
      else dec_then (pb_readbyte E) (\<lambda>byte.
        let result = result OR push_bit (unat bitpos) (ucast (byte AND 0x7F));
            bitpos = bitpos + 7
        in if byte AND 0x80 \<noteq> 0 then varint64_loop fuel E result bitpos else dec_return result))"

text \<open>Ten bytes fill the 64 bits, and the turn after them fails.\<close>

definition pb_decode_varint :: "pb_decode_env \<Rightarrow> u64 dec" where
  "pb_decode_varint E = varint64_loop 11 E 0 0"

fun skip_varint_loop :: "nat \<Rightarrow> pb_decode_env \<Rightarrow> unit dec" where
  "skip_varint_loop 0 E = (\<lambda>stream w. None)"
| "skip_varint_loop (Suc fuel) E = dec_then (pb_read E Dest_local 1) (\<lambda>bs.
     case bs of [] \<Rightarrow> (\<lambda>stream w. None)
     | byte # _ \<Rightarrow> if byte AND 0x80 \<noteq> 0 then skip_varint_loop fuel E else dec_return ())"

definition pb_skip_varint :: "pb_decode_env \<Rightarrow> unit dec" where
  "pb_skip_varint E stream = skip_varint_loop (Suc (unat (is_bytes_left stream))) E stream"

definition pb_skip_string :: "pb_decode_env \<Rightarrow> unit dec" where
  "pb_skip_string E = dec_then (pb_decode_varint32 E) (\<lambda>n.
     dec_then (pb_read E Dest_null (ucast n)) (\<lambda>_. dec_return ()))"

text \<open>The wire type and the tag, or none, and whether the message is at its end.\<close>

definition pb_decode_tag ::
  "pb_decode_env \<Rightarrow> pb_istream_t \<Rightarrow> pb_world \<Rightarrow> (pb_istream_t \<times> pb_world \<times> (u32 \<times> u32) option \<times> bool) option" where
  "pb_decode_tag E stream w = do {
     (stream, w, r, eof) \<leftarrow> pb_decode_varint32_eof E stream w;
     case r of
       None \<Rightarrow> Some (stream, w, None, eof)
     | Some temp \<Rightarrow>
         if temp = 0 then Some (stream, w, None, True)
         else Some (stream, w, Some (temp AND 7, drop_bit 3 temp), eof) }"

definition pb_skip_field :: "pb_decode_env \<Rightarrow> u32 \<Rightarrow> unit dec" where
  "pb_skip_field E wire_type =
     (if wire_type = PB_WT_VARINT then pb_skip_varint E
      else if wire_type = PB_WT_64BIT then dec_then (pb_read E Dest_null 8) (\<lambda>_. dec_return ())
      else if wire_type = PB_WT_STRING then pb_skip_string E
      else if wire_type = PB_WT_32BIT then dec_then (pb_read E Dest_null 4) (\<lambda>_. dec_return ())
      else dec_error ''invalid wire_type'')"

text \<open>\<open>read_raw_value\<close> reads into a local buffer of the caller, which holds \<open>max_size\<close> bytes.\<close>

fun raw_varint_loop :: "nat \<Rightarrow> pb_decode_env \<Rightarrow> u8 list \<Rightarrow> u8 list dec" where
  "raw_varint_loop 0 E buf = dec_false"
| "raw_varint_loop (Suc room) E buf = dec_then (pb_read E Dest_local 1) (\<lambda>bs.
     case bs of [] \<Rightarrow> (\<lambda>stream w. None)
     | byte # _ \<Rightarrow> if byte AND 0x80 \<noteq> 0 then raw_varint_loop room E (buf @ [byte]) else dec_return (buf @ [byte]))"

definition read_raw_value :: "pb_decode_env \<Rightarrow> u32 \<Rightarrow> nat \<Rightarrow> u8 list dec" where
  "read_raw_value E wire_type max_size =
     (if wire_type = PB_WT_VARINT then raw_varint_loop max_size E []
      else if wire_type = PB_WT_64BIT then pb_read E Dest_local 8
      else if wire_type = PB_WT_32BIT then pb_read E Dest_local 4
      else dec_error ''invalid wire_type'')"

subsection \<open>Substreams\<close>

definition pb_make_string_substream :: "pb_decode_env \<Rightarrow> pb_istream_t dec" where
  "pb_make_string_substream E = dec_then (pb_decode_varint32 E) (\<lambda>n stream w.
     let substream = stream in
     if is_bytes_left substream < ucast n then dec_error ''parent stream too short'' stream w
     else Some (stream\<lparr>is_bytes_left := is_bytes_left stream - ucast n\<rparr>, w,
                Some (substream\<lparr>is_bytes_left := ucast n\<rparr>)))"

definition pb_close_string_substream :: "pb_decode_env \<Rightarrow> pb_istream_t \<Rightarrow> unit dec" where
  "pb_close_string_substream E substream stream w = do {
     (substream, w, r) \<leftarrow>
       (if is_bytes_left substream \<noteq> 0 then pb_read E Dest_null (is_bytes_left substream) substream w
        else Some (substream, w, Some []));
     case r of
       None \<Rightarrow> Some (stream, w, None)
     | Some _ \<Rightarrow> Some (stream\<lparr>is_state := is_state substream, is_errmsg := is_errmsg substream\<rparr>, w, Some ()) }"

text \<open>A decoder that runs on a substream while the parent waits.\<close>

definition on_substream :: "pb_istream_t \<Rightarrow> 'a dec \<Rightarrow> (pb_istream_t \<times> 'a option) dec" where
  "on_substream substream f stream w = do {
     (substream, w, r) \<leftarrow> f substream w;
     Some (stream, w, Some (substream, r)) }"

subsection \<open>Decoders of numbers\<close>

type_synonym pb_decoder_t = "pb_field_t \<Rightarrow> addr \<Rightarrow> unit dec"

definition pb_dec_bool :: "pb_decode_env \<Rightarrow> pb_decoder_t" where
  "pb_dec_bool E field dest = dec_then (pb_decode_varint32 E) (\<lambda>v.
     dec_store_bytes dest [if v \<noteq> 0 then 1 else 0])"

definition pb_decode_bool :: "pb_decode_env \<Rightarrow> addr \<Rightarrow> unit dec" where
  "pb_decode_bool E dest = pb_dec_bool E PB_LAST_FIELD dest"

definition pb_decode_svarint :: "pb_decode_env \<Rightarrow> u64 dec" where
  "pb_decode_svarint E = dec_then (pb_decode_varint E) (\<lambda>v.
     if v AND 1 \<noteq> 0 then dec_return (NOT (drop_bit 1 v)) else dec_return (drop_bit 1 v))"

definition pb_decode_fixed32 :: "pb_decode_env \<Rightarrow> addr \<Rightarrow> unit dec" where
  "pb_decode_fixed32 E dest = dec_then (pb_read E Dest_local 4) (\<lambda>bytes.
     case bytes of
       b0 # b1 # b2 # b3 # _ \<Rightarrow>
         dec_store 4 dest (push_bit 0 (ucast b0) OR push_bit 8 (ucast b1) OR push_bit 16 (ucast b2) OR
           push_bit 24 (ucast b3) :: u32)
     | _ \<Rightarrow> (\<lambda>stream w. None))"

definition pb_decode_fixed64 :: "pb_decode_env \<Rightarrow> addr \<Rightarrow> unit dec" where
  "pb_decode_fixed64 E dest = dec_then (pb_read E Dest_local 8) (\<lambda>bytes.
     case bytes of
       b0 # b1 # b2 # b3 # b4 # b5 # b6 # b7 # _ \<Rightarrow>
         dec_store 8 dest (push_bit 0 (ucast b0) OR push_bit 8 (ucast b1) OR push_bit 16 (ucast b2) OR
           push_bit 24 (ucast b3) OR push_bit 32 (ucast b4) OR push_bit 40 (ucast b5) OR push_bit 48 (ucast b6) OR
           push_bit 56 (ucast b7) :: u64)
     | _ \<Rightarrow> (\<lambda>stream w. None))"

text \<open>The cast to the size of the field: the value is stored before it is known to fit.\<close>

definition store_signed :: "pb_size_t \<Rightarrow> addr \<Rightarrow> u64 \<Rightarrow> u64 dec" where
  "store_signed data_size dest v =
     (if data_size = 8 then dec_then (dec_store 8 dest v) (\<lambda>_. dec_return v)
      else if data_size = 4 then dec_then (dec_store 4 dest v) (\<lambda>_. dec_return (scast (ucast v :: u32)))
      else if data_size = 2 then dec_then (dec_store 2 dest v) (\<lambda>_. dec_return (scast (ucast v :: u16)))
      else if data_size = 1 then dec_then (dec_store 1 dest v) (\<lambda>_. dec_return (scast (ucast v :: u8)))
      else dec_error ''invalid data_size'')"

definition store_unsigned :: "pb_size_t \<Rightarrow> addr \<Rightarrow> u64 \<Rightarrow> u64 dec" where
  "store_unsigned data_size dest v =
     (if data_size = 8 then dec_then (dec_store 8 dest v) (\<lambda>_. dec_return v)
      else if data_size = 4 then dec_then (dec_store 4 dest v) (\<lambda>_. dec_return (ucast (ucast v :: u32)))
      else if data_size = 2 then dec_then (dec_store 2 dest v) (\<lambda>_. dec_return (ucast (ucast v :: u16)))
      else if data_size = 1 then dec_then (dec_store 1 dest v) (\<lambda>_. dec_return (ucast (ucast v :: u8)))
      else dec_error ''invalid data_size'')"

definition pb_dec_varint :: "pb_decode_env \<Rightarrow> pb_decoder_t" where
  "pb_dec_varint E field dest = dec_then (pb_decode_varint E) (\<lambda>v.
     let svalue = (if fld_data_size field = 8 then v else scast (ucast v :: u32)) in
     dec_then (store_signed (fld_data_size field) dest svalue) (\<lambda>clamped.
       if clamped \<noteq> svalue then dec_error ''integer too large'' else dec_return ()))"

definition pb_dec_uvarint :: "pb_decode_env \<Rightarrow> pb_decoder_t" where
  "pb_dec_uvarint E field dest = dec_then (pb_decode_varint E) (\<lambda>v.
     dec_then (store_unsigned (fld_data_size field) dest v) (\<lambda>clamped.
       if clamped \<noteq> v then dec_error ''integer too large'' else dec_return ()))"

definition pb_dec_svarint :: "pb_decode_env \<Rightarrow> pb_decoder_t" where
  "pb_dec_svarint E field dest = dec_then (pb_decode_svarint E) (\<lambda>v.
     dec_then (store_signed (fld_data_size field) dest v) (\<lambda>clamped.
       if clamped \<noteq> v then dec_error ''integer too large'' else dec_return ()))"

definition pb_dec_fixed32 :: "pb_decode_env \<Rightarrow> pb_decoder_t" where
  "pb_dec_fixed32 E field dest = pb_decode_fixed32 E dest"

definition pb_dec_fixed64 :: "pb_decode_env \<Rightarrow> pb_decoder_t" where
  "pb_dec_fixed64 E field dest = pb_decode_fixed64 E dest"

definition pb_dec_fixed_length_bytes :: "pb_decode_env \<Rightarrow> pb_decoder_t" where
  "pb_dec_fixed_length_bytes E field dest = dec_then (pb_decode_varint32 E) (\<lambda>n.
     if PB_SIZE_MAX < n then dec_error ''bytes overflow''
     else if n = 0 then dec_store_bytes dest (replicate (unat (fld_data_size field)) 0)
     else if n \<noteq> fld_data_size field then dec_error ''incorrect fixed length bytes size''
     else dec_then (pb_read E (Dest_mem dest) (ucast (fld_data_size field))) (\<lambda>_. dec_return ()))"

subsection \<open>Reading what was written\<close>

text \<open>The bytes a stream over a buffer is at, and the stream behind them.\<close>

definition at_bytes :: "pb_istream_t \<Rightarrow> pb_world \<Rightarrow> u8 list \<Rightarrow> bool" where
  "at_bytes s w bs \<longleftrightarrow> is_callback s = Buf_read \<and> length bs \<le> unat (is_bytes_left s) \<and>
     load_bytes (wd_mem w) (is_state s) (length bs) = Some bs"

definition behind :: "pb_istream_t \<Rightarrow> nat \<Rightarrow> pb_istream_t" where
  "behind s n = s\<lparr>is_state := is_state s + of_nat n, is_bytes_left := is_bytes_left s - of_nat n\<rparr>"

lemma behind_0 [simp]: "behind s 0 = s"
  by (simp add: behind_def)

lemma behind_behind [simp]: "behind (behind s a) b = behind s (a + b)"
  by (simp add: behind_def add.assoc)

lemma behind_simps [simp]:
  "is_callback (behind s n) = is_callback s" "is_errmsg (behind s n) = is_errmsg s"
  "is_state (behind s n) = is_state s + of_nat n"
  by (simp_all add: behind_def)

lemma behind_left: "n \<le> unat (is_bytes_left s) \<Longrightarrow> unat (is_bytes_left (behind s n)) = unat (is_bytes_left s) - n"
proof -
  assume n: "n \<le> unat (is_bytes_left s)"
  have "unat (is_bytes_left s) < 2 ^ LENGTH(64)" by (rule unsigned_less)
  with n have "unat (of_nat n :: u64) = n" by (simp add: unat_of_nat)
  with n show ?thesis by (simp add: behind_def unat_sub_if')
qed

lemma at_bytes_append:
  assumes "at_bytes s w (xs @ ys)"
  shows "at_bytes s w xs" and "at_bytes (behind s (length xs)) w ys"
proof -
  from assms have l: "load_bytes (wd_mem w) (is_state s) (length (xs @ ys)) = Some (xs @ ys)"
    and n: "length xs + length ys \<le> unat (is_bytes_left s)" and c: "is_callback s = Buf_read"
    by (simp_all add: at_bytes_def)
  have "unat (is_bytes_left (behind s (length xs))) = unat (is_bytes_left s) - length xs"
    using n by (intro behind_left) simp
  with load_bytes_appendD [OF l] n c show "at_bytes s w xs" "at_bytes (behind s (length xs)) w ys" by (simp_all add: at_bytes_def)
qed

lemma at_bytes_Cons:
  assumes "at_bytes s w (b # bs)"
  shows "at_bytes s w [b]" and "at_bytes (behind s 1) w bs"
  using at_bytes_append [of s w "[b]" bs] assms by simp_all

lemma readbyte_at:
  assumes "at_bytes s w (b # bs)"
  shows "pb_readbyte E s w = Some (behind s 1, w, Some b)"
proof -
  from assms have "is_bytes_left s \<noteq> 0" by (auto simp: at_bytes_def)
  moreover from at_bytes_Cons(1) [OF assms] have "wd_mem w (is_state s) = Some b" "is_callback s = Buf_read"
    by (auto simp: at_bytes_def bind_Some_iff)
  ultimately show ?thesis by (simp add: pb_readbyte_def call_read_def buf_read_def behind_def)
qed

lemma read_at:
  assumes a: "at_bytes s w bs" and n: "unat count = length bs"
  shows "pb_read E Dest_local count s w = Some (behind s (length bs), w, Some bs)"
    and "\<exists>r. pb_read E Dest_null count s w = Some (behind s (length bs), w, Some r)"
proof -
  from n have c: "count = of_nat (length bs)" by (simp flip: n)
  have le: "\<not> is_bytes_left s < count" using a n by (simp add: at_bytes_def word_less_nat_alt)
  have z: "bs = []" if "count = 0" using that n by simp
  show "pb_read E Dest_local count s w = Some (behind s (length bs), w, Some bs)"
    "\<exists>r. pb_read E Dest_null count s w = Some (behind s (length bs), w, Some r)"
    using a le n z by (auto simp: pb_read_def read_some_def call_read_def buf_read_def at_bytes_def behind_def c)
qed

text \<open>The seven bits of a byte of a number and its mark.\<close>

lemma low7_of: "(ucast (b AND 0x7F) :: 'a::len word) = of_nat (unat b mod 128)" for b :: u8
proof -
  have "uint (b AND 0x7F) = int (unat b mod 128)" using low7 [of b] by (simp add: and.commute)
  then have "unat (b AND 0x7F) = unat b mod 128" by (metis nat_int unat_eq_nat_uint)
  then have "(of_nat (unat (b AND 0x7F)) :: 'a word) = of_nat (unat b mod 128)" by simp
  then show ?thesis by simp
qed

lemma high_of: "b AND 0x80 = 0 \<longleftrightarrow> unat b < 128" for b :: u8
  using high1 [of b] by (simp add: and.commute)

lemma uleb_bytes_cases:
  obtains (last) "n < 128" "uleb_bytes n = [of_nat n]" "unat (of_nat n :: u8) = n"
  | (more) "128 \<le> n" "uleb_bytes n = of_nat (n mod 128 + 128) # uleb_bytes (n div 128)"
      "unat (of_nat (n mod 128 + 128) :: u8) = n mod 128 + 128" "length (uleb_bytes n) = Suc (length (uleb_bytes (n div 128)))"
proof (cases "n < 128")
  case True
  with last show ?thesis by (simp add: uleb_bytes_small unat_of_nat)
next
  case False
  then have e: "uleb_bytes n = of_nat (n mod 128 + 128) # uleb_bytes (n div 128)" by (simp add: uleb_bytes_big)
  moreover have "n mod 128 + 128 < 256" by simp
  then have "unat (of_nat (n mod 128 + 128) :: u8) = n mod 128 + 128" unfolding unat_of_nat by simp
  ultimately show ?thesis using False more by simp
qed

lemma or_push:
  fixes r :: "'a::len word"
  assumes "unat r < 2 ^ s"
  shows "r OR push_bit s (of_nat v) = r + of_nat (v * 2 ^ s)"
proof -
  have "r AND push_bit s (of_nat v) = 0"
    using bit_less_pow [OF assms] by (intro bit_word_eqI) (auto simp: bit_simps dest!: bit_less_pow [OF assms])
  then have "r + push_bit s (of_nat v) = r OR push_bit s (of_nat v)" by (rule disjunctive_add_eq_or)
  then show ?thesis by (simp add: push_bit_eq_mult)
qed

lemma shift_digit: "(n mod 128) * 2 ^ s + (n div 128) * 2 ^ (s + 7) = n * 2 ^ s" for n s :: nat
  by (rule uleb_split)

lemma next_shift: "128 \<le> n \<Longrightarrow> n * 2 ^ s < 2 ^ w \<Longrightarrow> s + 7 < w" for n s w :: nat
proof -
  assume n: "128 \<le> n" and lt: "n * 2 ^ s < 2 ^ w"
  have "(2 :: nat) ^ (s + 7) = 128 * 2 ^ s" by (simp add: power_add)
  also have "\<dots> \<le> n * 2 ^ s" using n by (rule mult_le_mono1)
  also note lt
  finally show "s + 7 < w" by (rule power_less_imp_less_exp [rotated]) simp
qed

lemma bitpos_step: "unat bp < 64 \<Longrightarrow> unat (bp + 7) = unat bp + 7" for bp :: u8
  by (simp add: unat_word_ariths)

lemma varint64_reads:
  "at_bytes s w (uleb_bytes n) \<Longrightarrow> length (uleb_bytes n) \<le> fuel \<Longrightarrow> unat bp < 64 \<Longrightarrow> unat r < 2 ^ unat bp \<Longrightarrow>
     unat r + n * 2 ^ unat bp < 2 ^ 64 \<Longrightarrow>
     varint64_loop fuel E r bp s w =
       Some (behind s (length (uleb_bytes n)), w, Some (r + of_nat (n * 2 ^ unat bp)))"
proof (induction fuel arbitrary: n s r bp)
  case 0
  then show ?case by simp
next
  case (Suc fuel)
  have bp: "\<not> 64 \<le> bp" using Suc.prems(3) by (simp add: word_le_nat_alt)
  show ?case
  proof (cases n rule: uleb_bytes_cases)
    case last
    from Suc.prems(1) last have "pb_readbyte E s w = Some (behind s 1, w, Some (of_nat n))"
      using readbyte_at [of s w "of_nat n" "[]" E] by simp
    then show ?thesis
      using bp last Suc.prems(4)
      by (simp add: dec_then_def Let_def high_of low7_of or_push dec_return_def)
  next
    case more
    let ?b = "of_nat (n mod 128 + 128) :: u8" and ?r = "r + of_nat (n mod 128 * 2 ^ unat bp)"
    from Suc.prems(1) more have a: "at_bytes s w (?b # uleb_bytes (n div 128))" by simp
    have read: "pb_readbyte E s w = Some (behind s 1, w, Some ?b)" by (rule readbyte_at [OF a])
    have next_bp: "unat bp + 7 < 64"
      using more(1) Suc.prems(5) by (intro next_shift [of n "unat bp" 64]) simp_all
    have split: "n mod 128 * 2 ^ unat bp + n div 128 * 2 ^ (unat bp + 7) = n * 2 ^ unat bp" by (rule shift_digit)
    then have ur: "unat ?r = unat r + n mod 128 * 2 ^ unat bp"
      using Suc.prems(5) by (intro unat_add_of_nat) linarith
    have "n mod 128 * 2 ^ unat bp \<le> 127 * 2 ^ unat bp" by (intro mult_le_mono1) simp
    moreover have "(2 :: nat) ^ unat (bp + 7) = 128 * 2 ^ unat bp"
      using Suc.prems(3) by (simp add: bitpos_step power_add)
    ultimately have lt: "unat ?r < 2 ^ unat (bp + 7)"
      using Suc.prems(4) ur by linarith
    have total: "unat ?r + n div 128 * 2 ^ unat (bp + 7) < 2 ^ 64"
      using Suc.prems(3,5) ur split by (simp add: bitpos_step)
    have "length (uleb_bytes (n div 128)) \<le> fuel" using Suc.prems(2) more(4) by simp
    from Suc.IH [OF at_bytes_Cons(2) [OF a] this _ lt total] next_bp Suc.prems(3)
    have "varint64_loop fuel E ?r (bp + 7) (behind s 1) w =
        Some (behind s (length (uleb_bytes n)), w, Some (?r + of_nat (n div 128 * 2 ^ unat (bp + 7))))"
      by (simp add: bitpos_step more(4))
    moreover have "?r + of_nat (n div 128 * 2 ^ unat (bp + 7)) = r + of_nat (n * 2 ^ unat bp)"
      using Suc.prems(3) unfolding split [symmetric] by (simp add: bitpos_step)
    ultimately show ?thesis
      using bp more(3) Suc.prems(4)
      by (simp add: dec_then_def read Let_def high_of low7_of or_push)
  qed
qed

lemma decode_varint_at:
  assumes "at_bytes s w (uleb_bytes (unat v))"
  shows "pb_decode_varint E s w = Some (behind s (length (uleb_bytes (unat v))), w, Some v)"
proof -
  have "unat v < 2 ^ LENGTH(64)" by (rule unsigned_less)
  with varint64_reads [OF assms, of 11 0 0 E] uleb_length_64 [of v] show ?thesis
    by (simp add: pb_decode_varint_def)
qed

lemma bits_0x70: "n < 16 \<Longrightarrow> (of_nat n :: u8) AND 0x70 = 0"
proof (rule bit_word_eqI)
  fix k assume n: "n < 16"
  then have "unat (of_nat n :: u8) < 2 ^ 4" by (simp add: unat_of_nat)
  then have "bit (of_nat n :: u8) k \<Longrightarrow> k < 4" by (rule bit_less_pow)
  moreover have "(0x70 :: u8) = push_bit 4 7" by simp
  then have "bit (0x70 :: u8) k \<Longrightarrow> 4 \<le> k" by (simp only: bit_push_bit_iff)
  ultimately show "bit ((of_nat n :: u8) AND 0x70) k = bit 0 k" by (auto simp: bit_and_iff)
qed

lemma unat_add_of_nat32: "unat r + x < 2 ^ 32 \<Longrightarrow> unat (r + of_nat x) = unat r + x" for r :: u32
  by (simp add: unat_word_ariths unat_of_nat)

lemma varint32_reads:
  "at_bytes s w (uleb_bytes n) \<Longrightarrow> length (uleb_bytes n) \<le> fuel \<Longrightarrow> unat bp < 32 \<Longrightarrow> unat bp mod 7 = 0 \<Longrightarrow>
     unat r < 2 ^ unat bp \<Longrightarrow> unat r + n * 2 ^ unat bp < 2 ^ 32 \<Longrightarrow>
     varint32_loop fuel E r bp s w =
       Some (behind s (length (uleb_bytes n)), w, Some (r + of_nat (n * 2 ^ unat bp)))"
proof (induction fuel arbitrary: n s r bp)
  case 0
  then show ?case by simp
next
  case (Suc fuel)
  have bp: "\<not> 32 \<le> bp" using Suc.prems(3) by (simp add: word_le_nat_alt)
  show ?case
  proof (cases n rule: uleb_bytes_cases)
    case last
    from Suc.prems(1) last have read: "pb_readbyte E s w = Some (behind s 1, w, Some (of_nat n))"
      using readbyte_at [of s w "of_nat n" "[]" E] by simp
    have "(of_nat n :: u8) AND 0x70 = 0" if "bp + 7 = 35"
    proof -
      from that have "bp = 35 - 7" by (simp only: eq_diff_eq)
      then have "bp = 28" by simp
      with Suc.prems(6) have "n < 16" by simp
      then show ?thesis by (rule bits_0x70)
    qed
    then show ?thesis
      using bp last Suc.prems(5)
      by (auto simp add: dec_then_def Let_def high_of low7_of or_push dec_return_def read)
  next
    case more
    let ?b = "of_nat (n mod 128 + 128) :: u8" and ?r = "r + of_nat (n mod 128 * 2 ^ unat bp)"
    from Suc.prems(1) more have a: "at_bytes s w (?b # uleb_bytes (n div 128))" by simp
    have read: "pb_readbyte E s w = Some (behind s 1, w, Some ?b)" by (rule readbyte_at [OF a])
    have next_bp: "unat bp + 7 < 32"
      using more(1) Suc.prems(6) by (intro next_shift [of n "unat bp" 32]) simp_all
    have bp7: "unat (bp + 7) = unat bp + 7" using Suc.prems(3) by (intro bitpos_step) simp
    have split: "n mod 128 * 2 ^ unat bp + n div 128 * 2 ^ (unat bp + 7) = n * 2 ^ unat bp" by (rule shift_digit)
    then have ur: "unat ?r = unat r + n mod 128 * 2 ^ unat bp"
      using Suc.prems(6) by (intro unat_add_of_nat32) linarith
    have "n mod 128 * 2 ^ unat bp \<le> 127 * 2 ^ unat bp" by (intro mult_le_mono1) simp
    moreover have "(2 :: nat) ^ unat (bp + 7) = 128 * 2 ^ unat bp" by (simp add: bp7 power_add)
    ultimately have lt: "unat ?r < 2 ^ unat (bp + 7)" using Suc.prems(5) ur by linarith
    have total: "unat ?r + n div 128 * 2 ^ unat (bp + 7) < 2 ^ 32"
      using Suc.prems(6) ur split by (simp add: bp7)
    have "length (uleb_bytes (n div 128)) \<le> fuel" using Suc.prems(2) more(4) by simp
    from Suc.IH [OF at_bytes_Cons(2) [OF a] this _ _ lt total] next_bp Suc.prems(4)
    have "varint32_loop fuel E ?r (bp + 7) (behind s 1) w =
        Some (behind s (length (uleb_bytes n)), w, Some (?r + of_nat (n div 128 * 2 ^ unat (bp + 7))))"
      by (simp add: bp7 more(4))
    moreover have "?r + of_nat (n div 128 * 2 ^ unat (bp + 7)) = r + of_nat (n * 2 ^ unat bp)"
      unfolding split [symmetric] by (simp add: bp7)
    ultimately show ?thesis
      using bp more(3) Suc.prems(5)
      by (simp add: dec_then_def read Let_def high_of low7_of or_push)
  qed
qed

lemma decode_varint32_at:
  assumes a: "at_bytes s w (uleb_bytes n)" and n: "n < 2 ^ 32"
  shows "pb_decode_varint32_eof E s w = Some (behind s (length (uleb_bytes n)), w, Some (of_nat n), False)"
    and "pb_decode_varint32 E s w = Some (behind s (length (uleb_bytes n)), w, Some (of_nat n))"
proof -
  show 1: "pb_decode_varint32_eof E s w = Some (behind s (length (uleb_bytes n)), w, Some (of_nat n), False)"
  proof (cases n rule: uleb_bytes_cases)
    case last
    with a have "pb_readbyte E s w = Some (behind s 1, w, Some (of_nat n))"
      using readbyte_at [of s w "of_nat n" "[]" E] by simp
    moreover have "(ucast (of_nat n :: u8) :: u32) = of_nat n"
      using last(1,3) by (metis of_nat_unat)
    ultimately show ?thesis using last by (simp add: pb_decode_varint32_eof_def high_of)
  next
    case more
    let ?b = "of_nat (n mod 128 + 128) :: u8"
    from a more have b: "at_bytes s w (?b # uleb_bytes (n div 128))" by simp
    have read: "pb_readbyte E s w = Some (behind s 1, w, Some ?b)" by (rule readbyte_at [OF b])
    note tail = at_bytes_Cons(2) [OF b]
    then have len: "length (uleb_bytes (n div 128)) \<le> Suc (unat (is_bytes_left (behind s 1)))"
      by (simp add: at_bytes_def)
    have r: "unat (of_nat (n mod 128) :: u32) = n mod 128" by (simp add: unat_of_nat)
    have "varint32_loop (Suc (unat (is_bytes_left (behind s 1)))) E (of_nat (n mod 128)) 7 (behind s 1) w =
        Some (behind (behind s 1) (length (uleb_bytes (n div 128))), w,
          Some (of_nat (n mod 128) + of_nat (n div 128 * 2 ^ unat (7 :: u8))))"
      using n by (intro varint32_reads [OF tail len]) (simp_all add: r)
    moreover have "(of_nat (n mod 128) :: u32) + of_nat (n div 128 * 2 ^ unat (7 :: u8)) = of_nat n"
    proof -
      have "n mod 128 + n div 128 * 2 ^ unat (7 :: u8) = n" by simp
      then show ?thesis by (metis of_nat_add)
    qed
    ultimately show ?thesis
      using more(3,4) by (simp add: pb_decode_varint32_eof_def read high_of low7_of del: varint32_loop.simps)
  qed
  show "pb_decode_varint32 E s w = Some (behind s (length (uleb_bytes n)), w, Some (of_nat n))"
    by (simp add: pb_decode_varint32_def 1)
qed

lemma decode_tag_at:
  assumes a: "at_bytes s w (wire_tag wt tag)" and wt: "unat wt < 8" and tag: "0 < tag" "unat tag < 2 ^ 29"
  shows "pb_decode_tag E s w = Some (behind s (length (wire_tag wt tag)), w, Some (wt, tag), False)"
proof -
  let ?n = "unat tag * 8 + unat wt"
  have lt: "?n < 2 ^ 32" using wt tag(2) by simp
  have "0 < unat tag" using tag(1) by (simp add: word_less_nat_alt)
  then have pos: "0 < ?n" by simp
  have u: "unat (of_nat ?n :: u32) = ?n" using lt unfolding unat_of_nat by simp
  have nz: "(of_nat ?n :: u32) \<noteq> 0" using u pos by (metis less_numeral_extra(3) unat_0)
  have "(of_nat ?n :: u32) AND 7 = wt"
  proof (rule unsigned_word_eqI [where 'a = nat])
    have "(of_nat ?n :: u32) AND 7 = take_bit 3 (of_nat ?n)" by (simp add: take_bit_eq_mask mask_eq_exp_minus_1)
    also have "\<dots> = of_nat ?n mod 8" by (simp add: take_bit_eq_mod)
    also have "unat \<dots> = ?n mod 8" unfolding unat_mod u by simp
    finally show "unat ((of_nat ?n :: u32) AND 7) = unat wt" using wt by simp
  qed
  moreover have "drop_bit 3 (of_nat ?n :: u32) = tag"
  proof (rule unsigned_word_eqI [where 'a = nat])
    have "drop_bit 3 (of_nat ?n :: u32) = of_nat ?n div 8" by (simp add: drop_bit_eq_div)
    also have "unat \<dots> = ?n div 8" unfolding unat_div u by simp
    finally show "unat (drop_bit 3 (of_nat ?n :: u32)) = unat tag" using wt by simp
  qed
  ultimately show ?thesis
    using decode_varint32_at(1) [OF a [unfolded wire_tag_def] lt, of E] nz
    by (simp add: pb_decode_tag_def wire_tag_def del: of_nat_add of_nat_mult)
qed

lemma unzigzag:
  fixes v v' :: u64
  assumes "v' = (if sint v < 0 then NOT (push_bit 1 v) else push_bit 1 v)"
  shows "(if v' AND 1 \<noteq> 0 then NOT (drop_bit 1 v') else drop_bit 1 v') = v"
proof -
  define x where "x = push_bit 1 v"
  have b0: "\<not> bit x 0" and bs: "bit x (Suc k) \<longleftrightarrow> k < 63 \<and> bit v k" for k
    unfolding x_def bit_push_bit_iff by auto
  have v': "v' = (if sint v < 0 then NOT x else x)" using assms by (simp only: x_def)
  have one: "y AND 1 \<noteq> 0 \<longleftrightarrow> bit y 0" for y :: u64
    by (simp add: and_one_eq bit_0 odd_iff_mod_2_eq_one)
  have top: "k < 64 \<Longrightarrow> k < 63 \<or> k = 63" for k :: nat by linarith
  show ?thesis
  proof (cases "sint v < 0")
    case True
    then have "bit v 63" using bit_last_iff [of v] by simp
    then have "NOT (drop_bit 1 (NOT x)) = v"
      by (intro bit_word_eqI) (auto simp: bit_simps bs dest: top)
    with True b0 show ?thesis by (simp add: v' one bit_not_iff)
  next
    case False
    then have "\<not> bit v 63" using bit_last_iff [of v] by simp
    then have "drop_bit 1 x = v"
      by (intro bit_word_eqI) (auto simp: bit_simps bs dest: top)
    with False b0 show ?thesis by (simp add: v' one)
  qed
qed

lemma decode_svarint_at:
  assumes "at_bytes s w (uleb_bytes (zigzag (sint v)))"
  shows "pb_decode_svarint E s w = Some (behind s (length (uleb_bytes (zigzag (sint v)))), w, Some v)"
proof -
  note z = zigzag_encodes [of v, symmetric]
  show ?thesis
    using decode_varint_at [OF assms [unfolded z], of E] unzigzag [OF refl, of v]
    by (auto simp add: pb_decode_svarint_def dec_then_def dec_return_def z [symmetric] split: if_splits)
qed

lemma skip_varint_loop_at:
  "at_bytes s w (uleb_bytes n) \<Longrightarrow> length (uleb_bytes n) \<le> fuel \<Longrightarrow>
     skip_varint_loop fuel E s w = Some (behind s (length (uleb_bytes n)), w, Some ())"
proof (induction fuel arbitrary: n s)
  case 0
  then show ?case by simp
next
  case (Suc fuel)
  show ?case
  proof (cases n rule: uleb_bytes_cases)
    case last
    with Suc.prems(1) have "pb_read E Dest_local 1 s w = Some (behind s 1, w, Some [of_nat n])"
      using read_at(1) [of s w "[of_nat n]" 1 E] by simp
    then show ?thesis using last by (simp add: dec_then_def high_of dec_return_def)
  next
    case more
    let ?b = "of_nat (n mod 128 + 128) :: u8"
    from Suc.prems(1) more have a: "at_bytes s w (?b # uleb_bytes (n div 128))" by simp
    from at_bytes_Cons(1) [OF a] have "pb_read E Dest_local 1 s w = Some (behind s 1, w, Some [?b])"
      using read_at(1) [of s w "[?b]" 1 E] by simp
    with Suc.IH [OF at_bytes_Cons(2) [OF a]] Suc.prems(2) more show ?thesis
      by (simp add: dec_then_def high_of)
  qed
qed

lemma skip_varint_at:
  assumes "at_bytes s w (uleb_bytes n)"
  shows "pb_skip_varint E s w = Some (behind s (length (uleb_bytes n)), w, Some ())"
  using assms unfolding pb_skip_varint_def
  by (intro skip_varint_loop_at) (auto simp: at_bytes_def)

lemma skip_string_at:
  assumes a: "at_bytes s w (counted bs)" and n: "length bs < 2 ^ 32"
  shows "pb_skip_string E s w = Some (behind s (length (counted bs)), w, Some ())"
proof -
  note p = at_bytes_append [OF a [unfolded counted_def]]
  have u: "unat (of_nat (length bs) :: u32) = length bs" using n by (simp add: unat_of_nat)
  then have "unat (ucast (of_nat (length bs) :: u32) :: u64) = length bs" by (simp add: ucast_u32(2))
  from read_at(2) [OF p(2) this, of E] obtain r where
    "pb_read E Dest_null (ucast (of_nat (length bs) :: u32)) (behind s (length (uleb_bytes (length bs)))) w =
       Some (behind s (length (counted bs)), w, Some r)" by (auto simp: counted_def)
  with decode_varint32_at(2) [OF p(1) n, of E] show ?thesis
    by (simp add: pb_skip_string_def dec_then_def dec_return_def)
qed

text \<open>A value of the wire format is skipped as a whole by its wire type.\<close>

lemma skip_field_at:
  assumes v: "wire_value sub m field p = Some bs" and t: "wire_type_of field = Some wt"
    and n: "length bs < 2 ^ 32" and a: "at_bytes s w bs"
  shows "pb_skip_field E wt s w = Some (behind s (length bs), w, Some ())"
proof -
  let ?l = "PB_LTYPE (fld_type field)"
  have varint: "pb_skip_field E PB_WT_VARINT s w = Some (behind s (length bs), w, Some ())" if "bs = uleb_bytes k" for k
    using skip_varint_at [of s w k E] a that by (simp add: pb_skip_field_def)
  have string: "pb_skip_field E PB_WT_STRING s w = Some (behind s (length bs), w, Some ())" if "bs = counted xs" for xs
    using skip_string_at [of s w xs E] a that n by (simp add: pb_skip_field_def wire_types counted_def)
  have fixed: "pb_skip_field E wt' s w = Some (behind s (length bs), w, Some ())"
    if "(wt', length bs) = (PB_WT_32BIT, 4) \<or> (wt', length bs) = (PB_WT_64BIT, 8)" for wt'
    using that read_at(2) [OF a, of "of_nat (length bs)" E]
    by (auto simp: pb_skip_field_def wire_types dec_then_def dec_return_def)
  consider "?l = PB_LTYPE_BOOL" | "?l = PB_LTYPE_VARINT \<or> ?l = PB_LTYPE_UVARINT \<or> ?l = PB_LTYPE_SVARINT"
    | "?l = PB_LTYPE_FIXED32" | "?l = PB_LTYPE_FIXED64"
    | "?l = PB_LTYPE_BYTES \<or> ?l = PB_LTYPE_STRING \<or> ?l = PB_LTYPE_SUBMESSAGE \<or> ?l = PB_LTYPE_FIXED_LENGTH_BYTES"
    using v by (auto simp: wire_value_def Let_def split: if_splits)
  then show ?thesis
  proof cases
    case 1
    with v obtain b :: u8 where "bs = [if b \<noteq> 0 then 1 else 0 :: u8]"
      by (auto simp: wire_value_def bind_Some_iff)
    then have "bs = uleb_bytes (if b \<noteq> 0 then 1 else 0)" by (simp add: uleb_bytes_small)
    moreover have "wt = PB_WT_VARINT" using t 1 by (simp add: wire_type_of_def ltypes)
    ultimately show ?thesis using varint by blast
  next
    case 2
    with v obtain k where "bs = uleb_bytes k"
      by (auto simp: wire_value_def wire_int_def ltypes bind_Some_iff)
    moreover have "wt = PB_WT_VARINT" using t 2 by (auto simp: wire_type_of_def ltypes)
    ultimately show ?thesis using varint by blast
  next
    case 3
    with v t fixed load_bytes_length show ?thesis
      by (auto simp: wire_value_def wire_type_of_def ltypes)
  next
    case 4
    with v t fixed load_bytes_length show ?thesis
      by (auto simp: wire_value_def wire_type_of_def ltypes)
  next
    case 5
    with v obtain xs where "bs = counted xs"
      by (auto simp: wire_value_def wire_bytes_def wire_string_def ltypes bind_Some_iff split: if_splits)
    moreover have "wt = PB_WT_STRING" using t 5 by (auto simp: wire_type_of_def ltypes)
    ultimately show ?thesis using string by blast
  qed
qed

end
