(* ===== verification/PbRelease.thy ===== *)
theory PbRelease
  imports PbDecode
begin

section \<open>nanopb: the heap, default values and releasing of messages\<close>

text \<open>
  The part of \<open>Pods/nanopb/pb_decode.c\<close> that owns memory: \<open>allocate_field\<close>, the initialisation of messages
  and \<open>pb_release\<close>.

  \<^item> \<open>realloc\<close> and \<open>free\<close> of the C library act on \<open>wd_heap\<close>, which holds the size of every block, and on
    the memory: the bytes of a block are accessible as long as it lives.  A pointer that is not the
    start of a live block is undefined for both, as is freeing twice.
  \<^item> These functions do not fail, they change the world or are undefined: \<open>upd\<close>.
  \<^item> \<open>pb_field_set_to_default\<close> and \<open>pb_release_single_field\<close> call themselves, for submessages and for
    extensions, and have the nesting as fuel.  The lists of extensions are walked by a
    \<open>partial_function\<close>: a list that is a circle is walked forever.
\<close>

type_synonym upd = "pb_world \<Rightarrow> pb_world option"

definition wd_load :: "nat \<Rightarrow> addr \<Rightarrow> pb_world \<Rightarrow> 'a::len word option" where
  "wd_load n p w = load_le n (wd_mem w) p"

definition wd_store_bytes :: "addr \<Rightarrow> u8 list \<Rightarrow> upd" where
  "wd_store_bytes p bs w = do { m \<leftarrow> store_bytes (wd_mem w) p bs; Some (w\<lparr>wd_mem := m\<rparr>) }"

definition wd_store :: "nat \<Rightarrow> addr \<Rightarrow> 'a::len word \<Rightarrow> upd" where
  "wd_store n p v = wd_store_bytes p (le_of_word n v)"

text \<open>An update in the middle of a decoder.\<close>

definition dec_upd :: "upd \<Rightarrow> unit dec" where
  "dec_upd f stream w = do { w \<leftarrow> f w; Some (stream, w, Some ()) }"

subsection \<open>The heap\<close>

definition map_block :: "addr \<Rightarrow> u8 list \<Rightarrow> mem \<Rightarrow> mem" where
  "map_block p bs m = (\<lambda>a. if unat (a - p) < length bs then Some (bs ! unat (a - p)) else m a)"

definition unmap_block :: "addr \<Rightarrow> nat \<Rightarrow> mem \<Rightarrow> mem" where
  "unmap_block p n m = (\<lambda>a. if unat (a - p) < n then None else m a)"

text \<open>The new block starts with what the old one held; the rest of it holds anything.\<close>

definition pb_realloc :: "pb_decode_env \<Rightarrow> addr \<Rightarrow> u64 \<Rightarrow> pb_world \<Rightarrow> (pb_world \<times> addr) option" where
  "pb_realloc E ptr n w = do {
     old \<leftarrow> (if ptr = 0 then Some [] else do {
       k \<leftarrow> wd_heap w ptr;
       load_bytes (wd_mem w) ptr k });
     let p = de_choose E w n;
     if p = 0 then Some (w, 0)
     else
       let m = (if ptr = 0 then wd_mem w else unmap_block ptr (length old) (wd_mem w));
           h = (if ptr = 0 then wd_heap w else (wd_heap w)(ptr := None));
           bs = take (unat n) old @ map (\<lambda>i. de_fresh E (p + of_nat i)) [length old..<unat n]
       in Some (w\<lparr>wd_mem := map_block p bs m, wd_heap := h(p \<mapsto> unat n)\<rparr>, p) }"

definition pb_free :: "addr \<Rightarrow> upd" where
  "pb_free ptr w =
     (if ptr = 0 then Some w
      else do {
        k \<leftarrow> wd_heap w ptr;
        Some (w\<lparr>wd_mem := unmap_block ptr k (wd_mem w), wd_heap := (wd_heap w)(ptr := None)\<rparr>) })"

definition allocate_field :: "pb_decode_env \<Rightarrow> addr \<Rightarrow> u64 \<Rightarrow> u64 \<Rightarrow> unit dec" where
  "allocate_field E pData data_size array_size = dec_then (dec_load 8 pData) (\<lambda>ptr.
     if data_size = 0 \<or> array_size = 0 then dec_error ''invalid size''
     else if (push_bit 32 1 \<le> data_size \<or> push_bit 32 1 \<le> array_size) \<and> (- 1) div array_size < data_size
     then dec_error ''size too large''
     else dec_then (\<lambda>stream w. do {
         (w, ptr) \<leftarrow> pb_realloc E ptr (array_size * data_size) w;
         Some (stream, w, Some ptr) }) (\<lambda>ptr.
       if ptr = 0 then dec_error ''realloc failed'' else dec_store 8 pData ptr))"

subsection \<open>Extensions as fields\<close>

text \<open>A \<open>pb_extension_t\<close> has its type at 0, the data at 8, the next extension at 16 and \<open>found\<close> at 24; the
  type has its decoder at 0 and its argument, the field, at 16.\<close>

definition iter_from_extension :: "pb_tables \<Rightarrow> addr \<Rightarrow> pb_world \<Rightarrow> pb_field_iter_t option" where
  "iter_from_extension T extension w = do {
     type \<leftarrow> wd_load 8 extension w;
     field \<leftarrow> wd_load 8 (type + 16) w;
     dest \<leftarrow> wd_load 8 (extension + 8) w;
     (iter, _) \<leftarrow> pb_field_iter_begin T field dest;
     let iter = iter\<lparr>it_pData := dest, it_pSize := extension + 24\<rparr>;
     pos \<leftarrow> field_of T iter;
     Some (if PB_ATYPE (fld_type pos) = PB_ATYPE_POINTER then iter\<lparr>it_pData := extension + 8\<rparr> else iter) }"

text \<open>The loops over the fields of a message and over a list of extensions.\<close>

fun each_field :: "nat \<Rightarrow> pb_tables \<Rightarrow> (pb_field_iter_t \<Rightarrow> upd) \<Rightarrow> pb_field_iter_t \<Rightarrow> upd" where
  "each_field 0 T f iter w = None"
| "each_field (Suc fuel) T f iter w = do {
     w \<leftarrow> f iter w;
     (iter, more) \<leftarrow> pb_field_iter_next T iter;
     if more then each_field fuel T f iter w else Some w }"

definition each_field_of :: "pb_tables \<Rightarrow> (pb_field_iter_t \<Rightarrow> upd) \<Rightarrow> addr \<Rightarrow> addr \<Rightarrow> upd" where
  "each_field_of T f flds dest w = do {
     (iter, ok) \<leftarrow> pb_field_iter_begin T flds dest;
     if ok then each_field (table_length T flds) T f iter w else Some w }"

partial_function (option) each_extension :: "(addr \<Rightarrow> upd) \<Rightarrow> addr \<Rightarrow> upd" where
  "each_extension f ext w =
     (if ext = 0 then Some w
      else do {
        w \<leftarrow> f ext w;
        ext \<leftarrow> wd_load 8 (ext + 16) w;
        each_extension f ext w })"

declare each_extension.simps [code]

subsection \<open>Default values\<close>

definition set_static_to_default :: "(addr \<Rightarrow> addr \<Rightarrow> upd) \<Rightarrow> pb_field_t \<Rightarrow> pb_field_iter_t \<Rightarrow> upd" where
  "set_static_to_default msg pos iter w =
     (let type = fld_type pos in do {
        (w, init_data) \<leftarrow>
          (if PB_HTYPE type = PB_HTYPE_OPTIONAL \<and> it_pSize iter \<noteq> it_pData iter then
             do { w \<leftarrow> wd_store_bytes (it_pSize iter) [0] w; Some (w, True) }
           else if PB_HTYPE type = PB_HTYPE_REPEATED \<or> PB_HTYPE type = PB_HTYPE_ONEOF then
             do { w \<leftarrow> wd_store 4 (it_pSize iter) (0 :: pb_size_t) w; Some (w, False) }
           else Some (w, True));
        if \<not> init_data then Some w
        else if PB_LTYPE type = PB_LTYPE_SUBMESSAGE then msg (fld_ptr pos) (it_pData iter) w
        else if fld_ptr pos \<noteq> 0 then do {
          bs \<leftarrow> load_bytes (wd_mem w) (fld_ptr pos) (unat (fld_data_size pos));
          wd_store_bytes (it_pData iter) bs w }
        else wd_store_bytes (it_pData iter) (replicate (unat (fld_data_size pos)) 0) w })"

definition default_field_step ::
  "(pb_field_iter_t \<Rightarrow> upd) \<Rightarrow> (addr \<Rightarrow> addr \<Rightarrow> upd) \<Rightarrow> pb_tables \<Rightarrow> pb_field_iter_t \<Rightarrow> upd" where
  "default_field_step self msg T iter w = do {
     pos \<leftarrow> field_of T iter;
     let type = fld_type pos;
     if PB_LTYPE type = PB_LTYPE_EXTENSION then do {
       ext \<leftarrow> wd_load 8 (it_pData iter) w;
       each_extension (\<lambda>ext w. do {
         w \<leftarrow> wd_store_bytes (ext + 24) [0] w;
         ext_iter \<leftarrow> iter_from_extension T ext w;
         self ext_iter w }) ext w }
     else if PB_ATYPE type = PB_ATYPE_STATIC then set_static_to_default msg pos iter w
     else if PB_ATYPE type = PB_ATYPE_POINTER then do {
       w \<leftarrow> wd_store 8 (it_pData iter) (0 :: addr) w;
       if PB_HTYPE type = PB_HTYPE_REPEATED \<or> PB_HTYPE type = PB_HTYPE_ONEOF
       then wd_store 4 (it_pSize iter) (0 :: pb_size_t) w else Some w }
     else Some w }"

fun pb_field_set_to_default :: "nat \<Rightarrow> pb_tables \<Rightarrow> pb_field_iter_t \<Rightarrow> upd" where
  "pb_field_set_to_default 0 T = (\<lambda>iter w. None)"
| "pb_field_set_to_default (Suc n) T =
     default_field_step (pb_field_set_to_default n T) (each_field_of T (pb_field_set_to_default n T)) T"

definition pb_message_set_to_defaults :: "nat \<Rightarrow> pb_tables \<Rightarrow> addr \<Rightarrow> addr \<Rightarrow> upd" where
  "pb_message_set_to_defaults n T = each_field_of T (pb_field_set_to_default n T)"

text \<open>Clearing a new item.\<close>

definition initialize_pointer_field :: "nat \<Rightarrow> pb_tables \<Rightarrow> pb_field_t \<Rightarrow> addr \<Rightarrow> upd" where
  "initialize_pointer_field n T pos pItem w =
     (if PB_LTYPE (fld_type pos) = PB_LTYPE_STRING \<or> PB_LTYPE (fld_type pos) = PB_LTYPE_BYTES
      then wd_store 8 pItem (0 :: addr) w
      else if PB_LTYPE (fld_type pos) = PB_LTYPE_SUBMESSAGE then do {
        w \<leftarrow> wd_store_bytes pItem (replicate (unat (fld_data_size pos)) 0) w;
        pb_message_set_to_defaults n T (fld_ptr pos) pItem w }
      else Some w)"

subsection \<open>Releasing\<close>

fun release_items :: "(addr \<Rightarrow> upd) \<Rightarrow> pb_size_t \<Rightarrow> nat \<Rightarrow> addr \<Rightarrow> upd" where
  "release_items f data_size 0 pItem w = Some w"
| "release_items f data_size (Suc count) pItem w = do {
     w \<leftarrow> f pItem w;
     release_items f data_size count (pItem + ucast data_size) w }"

fun free_items :: "nat \<Rightarrow> addr \<Rightarrow> upd" where
  "free_items 0 pItem w = Some w"
| "free_items (Suc count) pItem w = do {
     p \<leftarrow> wd_load 8 pItem w;
     w \<leftarrow> pb_free p w;
     w \<leftarrow> wd_store 8 pItem (0 :: addr) w;
     free_items count (pItem + 8) w }"

definition item_count :: "pb_field_t \<Rightarrow> pb_field_iter_t \<Rightarrow> pb_world \<Rightarrow> pb_size_t option" where
  "item_count pos iter w =
     (let type = fld_type pos in
      if PB_HTYPE type = PB_HTYPE_REPEATED then do {
        count \<leftarrow>
          (if PB_ATYPE type = PB_ATYPE_STATIC \<and> it_pSize iter = it_pData iter then Some (fld_array_size pos)
           else wd_load 4 (it_pSize iter) w);
        Some (if PB_ATYPE type = PB_ATYPE_STATIC \<and> fld_array_size pos < count then fld_array_size pos else count) }
      else Some 1)"

text \<open>What a field contains, and the block it owns itself.\<close>

definition release_contents ::
  "(pb_field_iter_t \<Rightarrow> upd) \<Rightarrow> (addr \<Rightarrow> addr \<Rightarrow> upd) \<Rightarrow> pb_tables \<Rightarrow> pb_field_t \<Rightarrow> pb_field_iter_t \<Rightarrow> upd" where
  "release_contents self msg T pos iter w =
     (let type = fld_type pos in
      if PB_LTYPE type = PB_LTYPE_EXTENSION then do {
        ext \<leftarrow> wd_load 8 (it_pData iter) w;
        each_extension (\<lambda>ext w. do { ext_iter \<leftarrow> iter_from_extension T ext w; self ext_iter w }) ext w }
      else if PB_LTYPE type = PB_LTYPE_SUBMESSAGE \<and> PB_ATYPE type \<noteq> PB_ATYPE_CALLBACK then do {
        pItem \<leftarrow> (if PB_ATYPE type = PB_ATYPE_POINTER then wd_load 8 (it_pData iter) w else Some (it_pData iter));
        count \<leftarrow> item_count pos iter w;
        if pItem \<noteq> 0 then release_items (msg (fld_ptr pos)) (fld_data_size pos) (unat count) pItem w else Some w }
      else Some w)"

definition release_pointer :: "pb_field_t \<Rightarrow> pb_field_iter_t \<Rightarrow> upd" where
  "release_pointer pos iter w =
     (let type = fld_type pos in do {
        w \<leftarrow>
          (if PB_HTYPE type = PB_HTYPE_REPEATED \<and> (PB_LTYPE type = PB_LTYPE_STRING \<or> PB_LTYPE type = PB_LTYPE_BYTES)
           then do {
             pItem \<leftarrow> wd_load 8 (it_pData iter) w;
             (count :: pb_size_t) \<leftarrow> wd_load 4 (it_pSize iter) w;
             free_items (unat count) pItem w }
           else Some w);
        w \<leftarrow> (if PB_HTYPE type = PB_HTYPE_REPEATED then wd_store 4 (it_pSize iter) (0 :: pb_size_t) w else Some w);
        p \<leftarrow> wd_load 8 (it_pData iter) w;
        w \<leftarrow> pb_free p w;
        wd_store 8 (it_pData iter) (0 :: addr) w })"

definition release_field_step ::
  "(pb_field_iter_t \<Rightarrow> upd) \<Rightarrow> (addr \<Rightarrow> addr \<Rightarrow> upd) \<Rightarrow> pb_tables \<Rightarrow> pb_field_iter_t \<Rightarrow> upd" where
  "release_field_step self msg T iter w = do {
     pos \<leftarrow> field_of T iter;
     let type = fld_type pos;
     current \<leftarrow>
       (if PB_HTYPE type = PB_HTYPE_ONEOF
        then do { (which :: pb_size_t) \<leftarrow> wd_load 4 (it_pSize iter) w; Some (which = fld_tag pos) }
        else Some True);
     if \<not> current then Some w
     else do {
       w \<leftarrow> release_contents self msg T pos iter w;
       if PB_ATYPE type = PB_ATYPE_POINTER then release_pointer pos iter w else Some w } }"

definition release_message :: "pb_tables \<Rightarrow> (pb_field_iter_t \<Rightarrow> upd) \<Rightarrow> addr \<Rightarrow> addr \<Rightarrow> upd" where
  "release_message T f flds dest_struct w =
     (if dest_struct = 0 then Some w else each_field_of T f flds dest_struct w)"

fun pb_release_single_field :: "nat \<Rightarrow> pb_tables \<Rightarrow> pb_field_iter_t \<Rightarrow> upd" where
  "pb_release_single_field 0 T = (\<lambda>iter w. None)"
| "pb_release_single_field (Suc n) T =
     release_field_step (pb_release_single_field n T) (release_message T (pb_release_single_field n T)) T"

definition pb_release :: "nat \<Rightarrow> pb_tables \<Rightarrow> addr \<Rightarrow> addr \<Rightarrow> upd" where
  "pb_release n T = release_message T (pb_release_single_field n T)"

text \<open>The old member of a oneof is released before another one takes its place.  The iterator is moved to
  the old member and back.\<close>

definition pb_release_union_field :: "nat \<Rightarrow> pb_tables \<Rightarrow> pb_field_iter_t \<Rightarrow> pb_field_iter_t dec" where
  "pb_release_union_field n T iter stream w = do {
     pos \<leftarrow> field_of T iter;
     (old_tag :: pb_size_t) \<leftarrow> wd_load 4 (it_pSize iter) w;
     let new_tag = fld_tag pos;
     if old_tag = 0 \<or> old_tag = new_tag then Some (stream, w, Some iter)
     else do {
       (iter, found) \<leftarrow> pb_field_iter_find T iter old_tag;
       if \<not> found then dec_error ''invalid union tag'' stream w
       else do {
         w \<leftarrow> pb_release_single_field n T iter w;
         (iter, found) \<leftarrow> pb_field_iter_find T iter new_tag;
         if \<not> found then dec_error ''iterator error'' stream w else Some (stream, w, Some iter) } } }"

end
