(* ===== verification/PbMessage.thy ===== *)
theory PbMessage
  imports PbRelease
begin

section \<open>nanopb: decoding of fields and messages\<close>

text \<open>
  The rest of \<open>Pods/nanopb/pb_decode.c\<close>: the decoders of strings, bytes and submessages, of the fields of a
  message by their kind of allocation, of extensions, and of whole messages.

  \<^item> \<open>pb_decode_noinit\<close> and \<open>pb_decode\<close> call each other for submessages through the table of decoders.  The
    functions in between are given the two recursive calls as a \<open>sub_decoders\<close>, and \<open>pb_decoders\<close> ties
    the knot with the nesting as fuel, as in the encoder.
  \<^item> The loop over the fields of the input and those over packed arrays take at least a byte of the
    stream in every turn, whence their fuel.  A callback that does not read is called forever
    (\<open>callback_loop\<close>), and so is a circular list of extensions walked.
  \<^item> Two locals have their address taken: \<open>buffer\<close> of \<open>decode_callback_field\<close> and \<open>fixed_count_size\<close> of
    \<open>pb_decode_noinit\<close>.  \<open>dec_local\<close> makes the bytes of such a local accessible for the time of a call,
    at an address in \<open>de_frame\<close>.
\<close>

definition dec_local :: "addr \<Rightarrow> u8 list \<Rightarrow> 'a dec \<Rightarrow> 'a dec" where
  "dec_local p bs f stream w = do {
     (stream, w, r) \<leftarrow> f stream (w\<lparr>wd_mem := map_block p bs (wd_mem w)\<rparr>);
     Some (stream, w\<lparr>wd_mem := unmap_block p (length bs) (wd_mem w)\<rparr>, r) }"

subsection \<open>Strings, bytes and submessages\<close>

text \<open>Where the bytes go: to a new block, or to the field if they fit.\<close>

definition dest_or_alloc :: "pb_decode_env \<Rightarrow> pb_field_t \<Rightarrow> addr \<Rightarrow> u64 \<Rightarrow> string \<Rightarrow> addr dec" where
  "dest_or_alloc E field dest alloc_size msg =
     (if PB_ATYPE (fld_type field) = PB_ATYPE_POINTER
      then dec_then (allocate_field E dest alloc_size 1) (\<lambda>_. dec_load 8 dest)
      else if ucast (fld_data_size field) < alloc_size then dec_error msg
      else dec_return dest)"

definition pb_dec_bytes :: "pb_decode_env \<Rightarrow> pb_decoder_t" where
  "pb_dec_bytes E field dest = dec_then (pb_decode_varint32 E) (\<lambda>n.
     let alloc_size = PB_BYTES_ARRAY_T_ALLOCSIZE (ucast n) in
     if PB_SIZE_MAX < n then dec_error ''bytes overflow''
     else if alloc_size < ucast n then dec_error ''size too large''
     else dec_then (dest_or_alloc E field dest alloc_size ''bytes overflow'') (\<lambda>bdest.
       dec_then (dec_store 4 bdest n) (\<lambda>_.
       dec_then (pb_read E (Dest_mem (bdest + 4)) (ucast n)) (\<lambda>_. dec_return ()))))"

definition pb_dec_string :: "pb_decode_env \<Rightarrow> pb_decoder_t" where
  "pb_dec_string E field dest = dec_then (pb_decode_varint32 E) (\<lambda>n.
     let alloc_size = (ucast (n + 1) :: u64) in
     if alloc_size < ucast n then dec_error ''size too large''
     else dec_then (dest_or_alloc E field dest alloc_size ''string overflow'') (\<lambda>dest stream w. do {
       (stream, w, status) \<leftarrow> pb_read E (Dest_mem dest) (ucast n) stream w;
       w \<leftarrow> wd_store_bytes (dest + ucast n) [0] w;
       Some (stream, w, map_option (\<lambda>_. ()) status) }))"

text \<open>The recursive calls: \<open>pb_decode_noinit\<close>, \<open>pb_decode\<close>.\<close>

type_synonym sub_decoders = "(addr \<Rightarrow> addr \<Rightarrow> unit dec) \<times> (addr \<Rightarrow> addr \<Rightarrow> unit dec)"

text \<open>A decoder on a substream that is closed whether it succeeds or not.\<close>

definition then_close :: "pb_decode_env \<Rightarrow> pb_istream_t \<Rightarrow> unit dec \<Rightarrow> unit dec" where
  "then_close E substream f = dec_then (on_substream substream f) (\<lambda>(substream, status).
     dec_then (pb_close_string_substream E substream) (\<lambda>_ stream w. Some (stream, w, status)))"

definition pb_dec_submessage :: "sub_decoders \<Rightarrow> pb_decode_env \<Rightarrow> pb_decoder_t" where
  "pb_dec_submessage sub E field dest = dec_then (pb_make_string_substream E) (\<lambda>substream.
     if fld_ptr field = 0 then dec_error ''invalid field descriptor''
     else then_close E substream
       ((if PB_HTYPE (fld_type field) = PB_HTYPE_REPEATED then snd sub else fst sub) (fld_ptr field) dest))"

definition PB_DECODERS :: "sub_decoders \<Rightarrow> pb_decode_env \<Rightarrow> u8 \<Rightarrow> pb_decoder_t option" where
  "PB_DECODERS sub E ltype =
     (if ltype = PB_LTYPE_BOOL then Some (pb_dec_bool E)
      else if ltype = PB_LTYPE_VARINT then Some (pb_dec_varint E)
      else if ltype = PB_LTYPE_UVARINT then Some (pb_dec_uvarint E)
      else if ltype = PB_LTYPE_SVARINT then Some (pb_dec_svarint E)
      else if ltype = PB_LTYPE_FIXED32 then Some (pb_dec_fixed32 E)
      else if ltype = PB_LTYPE_FIXED64 then Some (pb_dec_fixed64 E)
      else if ltype = PB_LTYPE_BYTES then Some (pb_dec_bytes E)
      else if ltype = PB_LTYPE_STRING then Some (pb_dec_string E)
      else if ltype = PB_LTYPE_SUBMESSAGE then Some (pb_dec_submessage sub E)
      else if ltype = PB_LTYPE_EXTENSION then Some (\<lambda>field dest stream w. None)
      else if ltype = PB_LTYPE_FIXED_LENGTH_BYTES then Some (pb_dec_fixed_length_bytes E)
      else None)"

subsection \<open>Fields in the message\<close>

text \<open>The address of an item: the offset is computed with the 32 bits of a \<open>pb_size_t\<close>.\<close>

definition item_at :: "addr \<Rightarrow> pb_field_t \<Rightarrow> pb_size_t \<Rightarrow> addr" where
  "item_at p pos i = p + ucast (fld_data_size pos * i)"

text \<open>A loop that decodes items from a substream; its result is \<open>status\<close>.\<close>

fun packed_static_loop :: "nat \<Rightarrow> pb_decoder_t \<Rightarrow> pb_field_t \<Rightarrow> pb_field_iter_t \<Rightarrow> unit dec" where
  "packed_static_loop 0 func pos iter substream w = None"
| "packed_static_loop (Suc fuel) func pos iter substream w =
     (if is_bytes_left substream = 0 then Some (substream, w, Some ())
      else do {
        count \<leftarrow> wd_load 4 (it_pSize iter) w;
        if fld_array_size pos \<le> count then Some (substream, w, Some ())
        else do {
          (substream, w, r) \<leftarrow> func pos (item_at (it_pData iter) pos count) substream w;
          case r of
            None \<Rightarrow> Some (substream, w, None)
          | Some _ \<Rightarrow> do {
              (count :: pb_size_t) \<leftarrow> wd_load 4 (it_pSize iter) w;
              w \<leftarrow> wd_store 4 (it_pSize iter) (count + 1) w;
              packed_static_loop fuel func pos iter substream w } } })"

definition decode_packed_static :: "pb_decode_env \<Rightarrow> pb_decoder_t \<Rightarrow> pb_field_t \<Rightarrow> pb_field_iter_t \<Rightarrow> unit dec" where
  "decode_packed_static E func pos iter = dec_then (pb_make_string_substream E) (\<lambda>substream.
     dec_then
       (on_substream substream
         (packed_static_loop (Suc (unat (is_bytes_left substream))) func pos iter))
       (\<lambda>(substream, status).
         if is_bytes_left substream \<noteq> 0 then dec_error ''array overflow''
         else dec_then (pb_close_string_substream E substream) (\<lambda>_ stream w. Some (stream, w, status))))"

definition decode_static_field ::
  "nat \<Rightarrow> sub_decoders \<Rightarrow> pb_decode_env \<Rightarrow> u32 \<Rightarrow> pb_field_iter_t \<Rightarrow> unit dec" where
  "decode_static_field n sub E wire_type iter stream w = do {
     pos \<leftarrow> field_of (de_tables E) iter;
     let type = fld_type pos;
     func \<leftarrow> PB_DECODERS sub E (PB_LTYPE type);
     (if PB_HTYPE type = PB_HTYPE_REQUIRED then func pos (it_pData iter)
      else if PB_HTYPE type = PB_HTYPE_OPTIONAL then
        dec_then (if it_pSize iter \<noteq> it_pData iter then dec_store_bytes (it_pSize iter) [1] else dec_return ())
          (\<lambda>_. func pos (it_pData iter))
      else if PB_HTYPE type = PB_HTYPE_REPEATED then
        (if wire_type = PB_WT_STRING \<and> PB_LTYPE type \<le> PB_LTYPE_LAST_PACKABLE
         then decode_packed_static E func pos iter
         else dec_then (dec_load 4 (it_pSize iter)) (\<lambda>count.
           dec_then (dec_store 4 (it_pSize iter) (count + 1)) (\<lambda>_.
             if fld_array_size pos \<le> count then dec_error ''array overflow''
             else func pos (item_at (it_pData iter) pos count))))
      else if PB_HTYPE type = PB_HTYPE_ONEOF then
        dec_then (dec_store 4 (it_pSize iter) (fld_tag pos)) (\<lambda>_.
          dec_then
            (if PB_LTYPE type = PB_LTYPE_SUBMESSAGE then dec_upd (\<lambda>w. do {
               w \<leftarrow> wd_store_bytes (it_pData iter) (replicate (unat (fld_data_size pos)) 0) w;
               pb_message_set_to_defaults n (de_tables E) (fld_ptr pos) (it_pData iter) w })
             else dec_return ())
            (\<lambda>_. func pos (it_pData iter)))
      else dec_error ''invalid field type'') stream w }"

subsection \<open>Fields on the heap\<close>

text \<open>The loop over a packed array.  \<open>allocated_size\<close> is how many items fit the block; a guess of the number
  of the remaining ones makes it larger.  The result is \<open>status\<close> and whether there are too many items.\<close>

definition grow :: "u64 \<Rightarrow> pb_size_t \<Rightarrow> u64 \<Rightarrow> u64 option" where
  "grow bytes_left data_size allocated_size =
     (if data_size = 0 then None
      else
        let remain = (bytes_left - 1) div ucast data_size + 1
        in Some (if remain < ucast PB_SIZE_MAX - allocated_size then allocated_size + remain else allocated_size + 1))"

fun packed_pointer_loop ::
  "nat \<Rightarrow> nat \<Rightarrow> pb_decode_env \<Rightarrow> pb_decoder_t \<Rightarrow> pb_field_t \<Rightarrow> pb_field_iter_t \<Rightarrow> u64 \<Rightarrow> pb_istream_t \<Rightarrow> pb_world \<Rightarrow>
     (pb_istream_t \<times> pb_world \<times> bool \<times> bool) option" where
  "packed_pointer_loop 0 n E func pos iter allocated_size substream w = None"
| "packed_pointer_loop (Suc fuel) n E func pos iter allocated_size substream w =
     (if is_bytes_left substream = 0 then Some (substream, w, True, False)
      else do {
        (count :: pb_size_t) \<leftarrow> wd_load 4 (it_pSize iter) w;
        if count = PB_SIZE_MAX then Some (substream, w, False, True)
        else do {
          new_size \<leftarrow>
            (if allocated_size < ucast count + 1 then grow (is_bytes_left substream) (fld_data_size pos) allocated_size
             else Some allocated_size);
          (substream, w, r) \<leftarrow>
            (if allocated_size < ucast count + 1
             then allocate_field E (it_pData iter) (ucast (fld_data_size pos)) new_size substream w
             else Some (substream, w, Some ()));
          if r = None then Some (substream, w, False, False)
          else do {
            p \<leftarrow> wd_load 8 (it_pData iter) w;
            (count :: pb_size_t) \<leftarrow> wd_load 4 (it_pSize iter) w;
            let pItem = item_at p pos count;
            w \<leftarrow> initialize_pointer_field n (de_tables E) pos pItem w;
            (substream, w, r) \<leftarrow> func pos pItem substream w;
            case r of
              None \<Rightarrow> Some (substream, w, False, False)
            | Some _ \<Rightarrow> do {
                (count :: pb_size_t) \<leftarrow> wd_load 4 (it_pSize iter) w;
                w \<leftarrow> wd_store 4 (it_pSize iter) (count + 1) w;
                packed_pointer_loop fuel n E func pos iter new_size substream w } } } })"

definition decode_packed_pointer ::
  "nat \<Rightarrow> pb_decode_env \<Rightarrow> pb_decoder_t \<Rightarrow> pb_field_t \<Rightarrow> pb_field_iter_t \<Rightarrow> unit dec" where
  "decode_packed_pointer n E func pos iter = dec_then (dec_load 4 (it_pSize iter)) (\<lambda>(count :: pb_size_t).
     dec_then (pb_make_string_substream E) (\<lambda>substream stream w. do {
       (substream, w, status, too_many) \<leftarrow>
         packed_pointer_loop (Suc (unat (is_bytes_left substream))) n E func pos iter (ucast count) substream w;
       let stream = (if too_many then stream\<lparr>is_errmsg := Some ''too many array entries''\<rparr> else stream);
       dec_then (pb_close_string_substream E substream)
         (\<lambda>_. if status then dec_return () else dec_false) stream w }))"

definition decode_pointer_field ::
  "nat \<Rightarrow> sub_decoders \<Rightarrow> pb_decode_env \<Rightarrow> u32 \<Rightarrow> pb_field_iter_t \<Rightarrow> unit dec" where
  "decode_pointer_field n sub E wire_type iter stream w = do {
     pos \<leftarrow> field_of (de_tables E) iter;
     let type = fld_type pos;
     func \<leftarrow> PB_DECODERS sub E (PB_LTYPE type);
     (if PB_HTYPE type = PB_HTYPE_REQUIRED \<or> PB_HTYPE type = PB_HTYPE_OPTIONAL \<or> PB_HTYPE type = PB_HTYPE_ONEOF then
        dec_then
          (if PB_LTYPE type = PB_LTYPE_SUBMESSAGE
           then dec_then (dec_load 8 (it_pData iter)) (\<lambda>(p :: addr).
             if p \<noteq> 0 then dec_upd (pb_release_single_field n (de_tables E) iter) else dec_return ())
           else dec_return ())
          (\<lambda>_. dec_then
            (if PB_HTYPE type = PB_HTYPE_ONEOF then dec_store 4 (it_pSize iter) (fld_tag pos) else dec_return ())
            (\<lambda>_.
              if PB_LTYPE type = PB_LTYPE_STRING \<or> PB_LTYPE type = PB_LTYPE_BYTES then func pos (it_pData iter)
              else dec_then (allocate_field E (it_pData iter) (ucast (fld_data_size pos)) 1) (\<lambda>_.
                dec_then (dec_load 8 (it_pData iter)) (\<lambda>p.
                  dec_then (dec_upd (initialize_pointer_field n (de_tables E) pos p)) (\<lambda>_.
                    dec_then (dec_load 8 (it_pData iter)) (func pos))))))
      else if PB_HTYPE type = PB_HTYPE_REPEATED then
        (if wire_type = PB_WT_STRING \<and> PB_LTYPE type \<le> PB_LTYPE_LAST_PACKABLE
         then decode_packed_pointer n E func pos iter
         else dec_then (dec_load 4 (it_pSize iter)) (\<lambda>(count :: pb_size_t).
           if count = PB_SIZE_MAX then dec_error ''too many array entries''
           else dec_then (allocate_field E (it_pData iter) (ucast (fld_data_size pos)) (ucast (count + 1))) (\<lambda>_.
             dec_then (dec_load 8 (it_pData iter)) (\<lambda>p.
             dec_then (dec_load 4 (it_pSize iter)) (\<lambda>count.
             dec_then (dec_store 4 (it_pSize iter) (count + 1)) (\<lambda>_.
             dec_then (dec_upd (initialize_pointer_field n (de_tables E) pos (item_at p pos count))) (\<lambda>_.
               func pos (item_at p pos count))))))))
      else dec_error ''invalid field type'') stream w }"

subsection \<open>Fields handed to callbacks\<close>

text \<open>A \<open>pb_callback_t\<close> holds the decoder function and, 8 bytes on, its argument, passed by address.  The
  function is called as long as the substream has bytes.\<close>

partial_function (option) callback_loop ::
  "pb_decode_env \<Rightarrow> pb_field_t \<Rightarrow> addr \<Rightarrow> pb_istream_t \<Rightarrow> pb_world \<Rightarrow> (pb_istream_t \<times> pb_world \<times> unit option) option" where
  "callback_loop E pos pCallback substream w = do {
     decode \<leftarrow> wd_load 8 pCallback w;
     (substream, w, r) \<leftarrow> de_callback E decode pos (pCallback + 8) substream w;
     if r = None then Some (substream, w, None)
     else if is_bytes_left substream \<noteq> 0 then callback_loop E pos pCallback substream w
     else Some (substream, w, Some ()) }"

declare callback_loop.simps [code]

definition decode_callback_field :: "nat \<Rightarrow> pb_decode_env \<Rightarrow> u32 \<Rightarrow> pb_field_iter_t \<Rightarrow> unit dec" where
  "decode_callback_field n E wire_type iter stream w = do {
     pos \<leftarrow> field_of (de_tables E) iter;
     let pCallback = it_pData iter;
     decode \<leftarrow> (if pCallback = 0 then Some 0 else wd_load 8 pCallback w);
     if (decode :: addr) = 0 then pb_skip_field E wire_type stream w
     else if wire_type = PB_WT_STRING then
       dec_then (pb_make_string_substream E) (\<lambda>substream.
         dec_then (on_substream substream (callback_loop E pos pCallback)) (\<lambda>(substream, r).
           if r = None then dec_error ''callback failed''
           else pb_close_string_substream E substream)) stream w
     else
       dec_then (read_raw_value E wire_type 10) (\<lambda>buffer.
         dec_local (de_frame E n) buffer (\<lambda>stream w. do {
           decode \<leftarrow> wd_load 8 pCallback w;
           (substream, w, r) \<leftarrow> de_callback E decode pos (pCallback + 8)
             (pb_istream_from_buffer (de_frame E n) (of_nat (length buffer))) w;
           Some (stream, w, r) })) stream w }"

subsection \<open>Fields of any kind, extensions\<close>

definition decode_field :: "nat \<Rightarrow> sub_decoders \<Rightarrow> pb_decode_env \<Rightarrow> u32 \<Rightarrow> pb_field_iter_t \<Rightarrow> unit dec" where
  "decode_field n sub E wire_type iter stream w = do {
     pos \<leftarrow> field_of (de_tables E) iter;
     dec_then
       (if PB_HTYPE (fld_type pos) = PB_HTYPE_ONEOF then pb_release_union_field n (de_tables E) iter else dec_return iter)
       (\<lambda>iter stream w. do {
         pos \<leftarrow> field_of (de_tables E) iter;
         let atype = PB_ATYPE (fld_type pos);
         (if atype = PB_ATYPE_STATIC then decode_static_field n sub E wire_type iter
          else if atype = PB_ATYPE_POINTER then decode_pointer_field n sub E wire_type iter
          else if atype = PB_ATYPE_CALLBACK then decode_callback_field n E wire_type iter
          else dec_error ''invalid field type'') stream w })
       stream w }"

definition default_extension_decoder ::
  "nat \<Rightarrow> sub_decoders \<Rightarrow> pb_decode_env \<Rightarrow> addr \<Rightarrow> u32 \<Rightarrow> u32 \<Rightarrow> unit dec" where
  "default_extension_decoder n sub E extension tag wire_type stream w = do {
     type \<leftarrow> wd_load 8 extension w;
     arg \<leftarrow> wd_load 8 (type + 16) w;
     flds \<leftarrow> de_tables E arg;
     field \<leftarrow> (case flds of [] \<Rightarrow> None | f # _ \<Rightarrow> Some f);
     if fld_tag field \<noteq> tag then Some (stream, w, Some ())
     else do {
       iter \<leftarrow> iter_from_extension (de_tables E) extension w;
       w \<leftarrow> wd_store_bytes (extension + 24) [1] w;
       decode_field n sub E wire_type iter stream w } }"

partial_function (option) decode_extension_loop ::
  "(addr \<Rightarrow> u32 \<Rightarrow> u32 \<Rightarrow> unit dec) \<Rightarrow> pb_decode_env \<Rightarrow> u64 \<Rightarrow> u32 \<Rightarrow> u32 \<Rightarrow> addr \<Rightarrow>
     pb_istream_t \<Rightarrow> pb_world \<Rightarrow> (pb_istream_t \<times> pb_world \<times> unit option) option" where
  "decode_extension_loop deflt E pos tag wire_type extension stream w =
     (if extension = 0 \<or> pos \<noteq> is_bytes_left stream then Some (stream, w, Some ())
      else do {
        type \<leftarrow> wd_load 8 extension w;
        (decode :: addr) \<leftarrow> wd_load 8 type w;
        (stream, w, status) \<leftarrow>
          (if decode \<noteq> 0 then de_extension E decode extension tag wire_type stream w
           else deflt extension tag wire_type stream w);
        if status = None then Some (stream, w, None)
        else do {
          extension \<leftarrow> wd_load 8 (extension + 16) w;
          decode_extension_loop deflt E pos tag wire_type extension stream w } })"

declare decode_extension_loop.simps [code]

definition decode_extension ::
  "nat \<Rightarrow> sub_decoders \<Rightarrow> pb_decode_env \<Rightarrow> u32 \<Rightarrow> u32 \<Rightarrow> pb_field_iter_t \<Rightarrow> unit dec" where
  "decode_extension n sub E tag wire_type iter stream w = do {
     extension \<leftarrow> wd_load 8 (it_pData iter) w;
     decode_extension_loop (default_extension_decoder n sub E) E (is_bytes_left stream) tag wire_type extension
       stream w }"

fun find_extension_loop :: "nat \<Rightarrow> pb_tables \<Rightarrow> nat \<Rightarrow> pb_field_iter_t \<Rightarrow> (pb_field_iter_t \<times> bool) option" where
  "find_extension_loop 0 T start iter = None"
| "find_extension_loop (Suc fuel) T start iter = do {
     pos \<leftarrow> field_of T iter;
     if PB_LTYPE (fld_type pos) = PB_LTYPE_EXTENSION then Some (iter, True)
     else do {
       (iter, _) \<leftarrow> pb_field_iter_next T iter;
       if it_pos iter = start then Some (iter, False) else find_extension_loop fuel T start iter } }"

definition find_extension_field :: "pb_tables \<Rightarrow> pb_field_iter_t \<Rightarrow> (pb_field_iter_t \<times> bool) option" where
  "find_extension_field T iter =
     find_extension_loop (Suc (table_length T (it_start iter))) T (it_pos iter) iter"

subsection \<open>Messages\<close>

text \<open>The locals of \<open>pb_decode_noinit\<close>.  \<open>fixed_count_field\<close> points into the table of the message, or is
  null.\<close>

record decode_state =
  ds_iter :: pb_field_iter_t
  ds_fields_seen :: "u32 list"
  ds_extension_range_start :: u32
  ds_fixed_count_field :: "nat option"

definition PB_MAX_REQUIRED_FIELDS :: u32 where "PB_MAX_REQUIRED_FIELDS = 64"

text \<open>A field whose tag the message type does not have.\<close>

definition decode_unknown ::
  "nat \<Rightarrow> sub_decoders \<Rightarrow> pb_decode_env \<Rightarrow> u32 \<Rightarrow> u32 \<Rightarrow> decode_state \<Rightarrow> decode_state dec" where
  "decode_unknown n sub E tag wire_type st stream w =
     (if tag < ds_extension_range_start st
      then dec_then (pb_skip_field E wire_type) (\<lambda>_. dec_return st) stream w
      else do {
        (iter, found) \<leftarrow> find_extension_field (de_tables E) (ds_iter st);
        start \<leftarrow> (if found then do { pos \<leftarrow> field_of (de_tables E) iter; Some (fld_tag pos) } else Some (- 1));
        let st = st\<lparr>ds_iter := iter, ds_extension_range_start := start\<rparr>;
        let left = is_bytes_left stream;
        dec_then
          (if start \<le> tag then decode_extension n sub E tag wire_type iter else dec_return ())
          (\<lambda>_ stream.
            if left \<noteq> is_bytes_left stream then dec_return st stream
            else dec_then (pb_skip_field E wire_type) (\<lambda>_. dec_return st) stream)
          stream w })"

text \<open>Fixed arrays have no count in the message; the local \<open>fixed_count_size\<close>, at \<open>fcs\<close>, counts instead.\<close>

definition count_complete :: "pb_tables \<Rightarrow> addr \<Rightarrow> decode_state \<Rightarrow> unit dec" where
  "count_complete T fcs st stream w =
     (case ds_fixed_count_field st of
        None \<Rightarrow> dec_return () stream w
      | Some i \<Rightarrow> do {
          field \<leftarrow> field_of T ((ds_iter st)\<lparr>it_pos := i\<rparr>);
          n \<leftarrow> wd_load 4 fcs w;
          if n \<noteq> fld_array_size field then dec_error ''wrong size for fixed count field'' stream w
          else dec_return () stream w })"

definition use_fixed_count :: "pb_tables \<Rightarrow> addr \<Rightarrow> pb_field_t \<Rightarrow> decode_state \<Rightarrow> decode_state dec" where
  "use_fixed_count T fcs pos st =
     (let iter = ds_iter st in
      if PB_HTYPE (fld_type pos) = PB_HTYPE_REPEATED \<and> it_pSize iter = it_pData iter then
        dec_then
          (if ds_fixed_count_field st \<noteq> Some (it_pos iter)
           then dec_then (count_complete T fcs st) (\<lambda>_. dec_store 4 fcs (0 :: pb_size_t))
           else dec_return ())
          (\<lambda>_. dec_return (st\<lparr>ds_fixed_count_field := Some (it_pos iter), ds_iter := iter\<lparr>it_pSize := fcs\<rparr>\<rparr>))
      else dec_return st)"

definition mark_required :: "pb_field_t \<Rightarrow> decode_state \<Rightarrow> decode_state" where
  "mark_required pos st =
     (let i = it_required_field_index (ds_iter st) in
      if PB_HTYPE (fld_type pos) = PB_HTYPE_REQUIRED \<and> i < PB_MAX_REQUIRED_FIELDS
      then
        let tmp = push_bit (unat (i AND 31)) 1; k = unat (drop_bit 5 i)
        in st\<lparr>ds_fields_seen := (ds_fields_seen st)[k := ds_fields_seen st ! k OR tmp]\<rparr>
      else st)"

text \<open>One field of the input; the result is whether the message goes on.\<close>

definition decode_next ::
  "nat \<Rightarrow> sub_decoders \<Rightarrow> pb_decode_env \<Rightarrow> addr \<Rightarrow> decode_state \<Rightarrow> (decode_state \<times> bool) dec" where
  "decode_next n sub E fcs st stream w = do {
     (stream, w, r, eof) \<leftarrow> pb_decode_tag E stream w;
     case r of
       None \<Rightarrow> if eof then Some (stream, w, Some (st, False)) else Some (stream, w, None)
     | Some (wire_type, tag) \<Rightarrow> do {
         (iter, found) \<leftarrow> pb_field_iter_find (de_tables E) (ds_iter st) tag;
         let st = st\<lparr>ds_iter := iter\<rparr>;
         if \<not> found then dec_then (decode_unknown n sub E tag wire_type st) (\<lambda>st. dec_return (st, True)) stream w
         else do {
           pos \<leftarrow> field_of (de_tables E) iter;
           dec_then (use_fixed_count (de_tables E) fcs pos st) (\<lambda>st.
             let st = mark_required pos st in
             dec_then (decode_field n sub E wire_type (ds_iter st)) (\<lambda>_. dec_return (st, True))) stream w } } }"

fun decode_loop ::
  "nat \<Rightarrow> nat \<Rightarrow> sub_decoders \<Rightarrow> pb_decode_env \<Rightarrow> addr \<Rightarrow> decode_state \<Rightarrow> decode_state dec" where
  "decode_loop 0 n sub E fcs st stream w = None"
| "decode_loop (Suc fuel) n sub E fcs st stream w =
     (if is_bytes_left stream = 0 then Some (stream, w, Some st)
      else
        dec_then (decode_next n sub E fcs st) (\<lambda>(st, more).
          if more then decode_loop fuel n sub E fcs st else dec_return st) stream w)"

text \<open>Behind the loop: to the end of the table for the number of required fields, whose bits must be set.\<close>

fun seek_end :: "nat \<Rightarrow> pb_tables \<Rightarrow> pb_field_iter_t \<Rightarrow> (pb_field_iter_t \<times> u32 \<times> u8) option" where
  "seek_end 0 T iter = None"
| "seek_end (Suc fuel) T iter = do {
     let req_field_count = it_required_field_index iter;
     pos \<leftarrow> field_of T iter;
     (iter, more) \<leftarrow> pb_field_iter_next T iter;
     if more then seek_end fuel T iter else Some (iter, req_field_count, fld_type pos) }"

definition required_field_count :: "pb_tables \<Rightarrow> pb_field_iter_t \<Rightarrow> u32 option" where
  "required_field_count T iter = do {
     (iter, req_field_count, last_type) \<leftarrow> seek_end (Suc (table_length T (it_start iter))) T iter;
     pos \<leftarrow> field_of T iter;
     let req_field_count =
       (if PB_HTYPE last_type = PB_HTYPE_REQUIRED \<and> fld_tag pos \<noteq> 0 then req_field_count + 1 else req_field_count);
     Some (if PB_MAX_REQUIRED_FIELDS < req_field_count then PB_MAX_REQUIRED_FIELDS else req_field_count) }"

definition all_seen :: "u32 \<Rightarrow> u32 list \<Rightarrow> bool" where
  "all_seen req_field_count fields_seen \<longleftrightarrow>
     (\<forall>i \<in> set [0..<unat (drop_bit 5 req_field_count)]. fields_seen ! i = - 1) \<and>
     (req_field_count AND 31 \<noteq> 0 \<longrightarrow>
        fields_seen ! unat (drop_bit 5 req_field_count) = drop_bit (unat (32 - (req_field_count AND 31))) (- 1))"

definition check_required :: "pb_tables \<Rightarrow> decode_state \<Rightarrow> unit dec" where
  "check_required T st stream w = do {
     req_field_count \<leftarrow> required_field_count T (ds_iter st);
     if all_seen req_field_count (ds_fields_seen st) then dec_return () stream w
     else dec_error ''missing required field'' stream w }"

definition decode_noinit_step :: "nat \<Rightarrow> sub_decoders \<Rightarrow> pb_decode_env \<Rightarrow> addr \<Rightarrow> addr \<Rightarrow> unit dec" where
  "decode_noinit_step n sub E flds dest_struct =
     (let fcs = de_frame E n + 16 in
      dec_local fcs [0, 0, 0, 0] (\<lambda>stream w. do {
        (iter, _) \<leftarrow> pb_field_iter_begin (de_tables E) flds dest_struct;
        let st = \<lparr> ds_iter = iter, ds_fields_seen = [0, 0], ds_extension_range_start = 0, ds_fixed_count_field = None \<rparr>;
        dec_then (decode_loop (Suc (unat (is_bytes_left stream))) n sub E fcs st) (\<lambda>st.
          dec_then (count_complete (de_tables E) fcs st) (\<lambda>_.
            check_required (de_tables E) st)) stream w }))"

definition decode_step :: "nat \<Rightarrow> (addr \<Rightarrow> addr \<Rightarrow> unit dec) \<Rightarrow> pb_decode_env \<Rightarrow> addr \<Rightarrow> addr \<Rightarrow> unit dec" where
  "decode_step n noinit E flds dest_struct stream w = do {
     w \<leftarrow> pb_message_set_to_defaults n (de_tables E) flds dest_struct w;
     (stream, w, status) \<leftarrow> noinit flds dest_struct stream w;
     w \<leftarrow> (if status = None then pb_release n (de_tables E) flds dest_struct w else Some w);
     Some (stream, w, status) }"

fun pb_decoders :: "nat \<Rightarrow> pb_decode_env \<Rightarrow> sub_decoders" where
  "pb_decoders 0 E = (\<lambda>flds dest stream w. None, \<lambda>flds dest stream w. None)"
| "pb_decoders (Suc n) E =
     (let noinit = decode_noinit_step (Suc n) (pb_decoders n E) E
      in (noinit, decode_step (Suc n) noinit E))"

definition pb_decode_noinit :: "nat \<Rightarrow> pb_decode_env \<Rightarrow> addr \<Rightarrow> addr \<Rightarrow> unit dec" where
  "pb_decode_noinit n E = fst (pb_decoders n E)"

definition pb_decode :: "nat \<Rightarrow> pb_decode_env \<Rightarrow> addr \<Rightarrow> addr \<Rightarrow> unit dec" where
  "pb_decode n E = snd (pb_decoders n E)"

definition pb_decode_delimited_noinit :: "nat \<Rightarrow> pb_decode_env \<Rightarrow> addr \<Rightarrow> addr \<Rightarrow> unit dec" where
  "pb_decode_delimited_noinit n E flds dest_struct = dec_then (pb_make_string_substream E) (\<lambda>substream.
     then_close E substream (pb_decode_noinit n E flds dest_struct))"

definition pb_decode_delimited :: "nat \<Rightarrow> pb_decode_env \<Rightarrow> addr \<Rightarrow> addr \<Rightarrow> unit dec" where
  "pb_decode_delimited n E flds dest_struct = dec_then (pb_make_string_substream E) (\<lambda>substream.
     then_close E substream (pb_decode n E flds dest_struct))"

definition pb_decode_nullterminated :: "nat \<Rightarrow> pb_decode_env \<Rightarrow> addr \<Rightarrow> addr \<Rightarrow> unit dec" where
  "pb_decode_nullterminated n E = pb_decode n E"

end
