(* ===== verification/PbPosition.thy ===== *)
theory PbPosition
  imports PbMessage
begin

section \<open>nanopb: the decoder and its input\<close>

text \<open>
  What every decoder promises of its stream, for any table, any memory and any input, also a malicious one.

  \<^item> \<open>advances\<close>: the callback of the stream stays, and the bytes left do not become more.
  \<^item> \<open>in_step\<close>: over a buffer, the position has moved by as many bytes as are less left.  A decoder that
    fails may leave the stream elsewhere, so this holds on success.

  \<open>steady\<close> joins the two, and is closed under the composition of decoders, substreams included.  The
  application's callbacks are required to be steady, which is what a function is that reads from its
  stream by \<open>pb_read\<close> only.  From \<open>steady\<close> it follows that the loops end with the fuel they are given.
\<close>

definition advances :: "pb_istream_t \<Rightarrow> pb_istream_t \<Rightarrow> bool" where
  "advances s s' \<longleftrightarrow> is_callback s' = is_callback s \<and> is_bytes_left s' \<le> is_bytes_left s"

definition in_step :: "pb_istream_t \<Rightarrow> pb_istream_t \<Rightarrow> bool" where
  "in_step s s' \<longleftrightarrow> (is_callback s = Buf_read \<longrightarrow> is_state s' + is_bytes_left s' = is_state s + is_bytes_left s)"

definition steady :: "'a dec \<Rightarrow> bool" where
  "steady f \<longleftrightarrow> (\<forall>s w s' w' r. f s w = Some (s', w', r) \<longrightarrow> advances s s' \<and> (r \<noteq> None \<longrightarrow> in_step s s'))"

named_theorems steadies \<open>decoders that are steady\<close>

lemma steadyI:
  "(\<And>s w s' w' r. f s w = Some (s', w', r) \<Longrightarrow> advances s s' \<and> (r \<noteq> None \<longrightarrow> in_step s s')) \<Longrightarrow> steady f"
  by (simp add: steady_def)

lemma steadyD:
  assumes "steady f" "f s w = Some (s', w', r)"
  shows "advances s s'" and "r \<noteq> None \<Longrightarrow> in_step s s'"
  using assms by (auto simp: steady_def)

lemma advances_refl [simp]: "advances s s"
  by (simp add: advances_def)

lemma in_step_refl [simp]: "in_step s s"
  by (simp add: in_step_def)

lemma advances_trans: "advances s t \<Longrightarrow> advances t u \<Longrightarrow> advances s u"
  by (auto simp: advances_def)

lemma in_step_trans: "in_step s t \<Longrightarrow> in_step t u \<Longrightarrow> advances s t \<Longrightarrow> in_step s u"
  by (auto simp: in_step_def advances_def)

lemma stream_errmsg [simp]:
  "advances s (t\<lparr>is_errmsg := m\<rparr>) = advances s t" "in_step s (t\<lparr>is_errmsg := m\<rparr>) = in_step s t"
  by (simp_all add: advances_def in_step_def)

lemma steady_then [steadies]:
  assumes f: "steady f" and g: "\<And>x. steady (g x)"
  shows "steady (dec_then f g)"
proof (rule steadyI)
  fix s w s' w' r
  assume "dec_then f g s w = Some (s', w', r)"
  then obtain t v q where t: "f s w = Some (t, v, q)"
    and c: "(case q of None \<Rightarrow> Some (t, v, None) | Some x \<Rightarrow> g x t v) = Some (s', w', r)"
    by (auto simp: dec_then_def bind_Some_iff)
  note F = steadyD [OF f t]
  show "advances s s' \<and> (r \<noteq> None \<longrightarrow> in_step s s')"
  proof (cases q)
    case None
    with c F show ?thesis by auto
  next
    case (Some x)
    with c have "g x t v = Some (s', w', r)" by simp
    from steadyD [OF g this] F Some show ?thesis by (auto intro: advances_trans in_step_trans)
  qed
qed

lemma steady_basic [steadies]:
  "steady (dec_return x)" "steady (dec_error msg)" "steady dec_false" "steady (dec_load n p)"
  "steady (dec_store_bytes p bs)" "steady (dec_store n p v)" "steady (dec_upd u)" "steady (\<lambda>s w. None)"
  by (auto intro!: steadyI
      simp: dec_return_def dec_error_def dec_false_def dec_load_def dec_store_bytes_def dec_store_def dec_upd_def bind_Some_iff)

lemma steady_if [steadies]: "(b \<Longrightarrow> steady f) \<Longrightarrow> (\<not> b \<Longrightarrow> steady g) \<Longrightarrow> steady (if b then f else g)"
  by simp

lemma steady_Let [steadies]: "(\<And>x. steady (f x)) \<Longrightarrow> steady (let x = a in f x)"
  by simp

lemma steady_list [steadies]: "steady f \<Longrightarrow> (\<And>y ys. steady (g y ys)) \<Longrightarrow> steady (case xs of [] \<Rightarrow> f | y # ys \<Rightarrow> g y ys)"
  by (cases xs) simp_all

lemma steady_cond:
  "steady f \<Longrightarrow> steady g \<Longrightarrow> steady (\<lambda>s w. if b s w then f s w else g s w)"
  by (auto simp: steady_def)

text \<open>A decoder that first asks the world.\<close>

lemma steady_ask: "(\<And>x. steady (f x)) \<Longrightarrow> steady (\<lambda>s w. Option.bind (q w) (\<lambda>x. f x s w))"
  by (auto simp: steady_def bind_Some_iff)

lemma steady_given: "(\<And>x. q = Some x \<Longrightarrow> steady (f x)) \<Longrightarrow> steady (\<lambda>s w. Option.bind q (\<lambda>x. f x s w))"
  by (auto simp: steady_def bind_Some_iff)

subsection \<open>Reading\<close>

lemma call_read_steady:
  assumes "call_read E s buf count w = Some (s', w', bs, ok)"
  shows "is_callback s' = is_callback s \<and> is_bytes_left s' = is_bytes_left s \<and>
    (is_callback s = Buf_read \<longrightarrow> is_state s' = is_state s + count)"
  using assms
  by (cases "is_callback s"; cases buf) (auto simp: call_read_def buf_read_def bind_Some_iff)

lemma read_some_left:
  assumes "read_some E buf count s w = Some (s', w', Some bs)"
  shows "is_bytes_left s' = is_bytes_left s - count" "count \<le> is_bytes_left s"
  using assms
  by (auto simp: read_some_def dec_error_def bind_Some_iff not_less dest!: call_read_steady split: if_splits)

lemma read_some_steady [steadies]: "steady (read_some E buf count)"
proof (rule steadyI)
  fix s w s' w' r
  assume r: "read_some E buf count s w = Some (s', w', r)"
  show "advances s s' \<and> (r \<noteq> None \<longrightarrow> in_step s s')"
  proof (cases "is_bytes_left s < count")
    case True
    with r show ?thesis by (auto simp: read_some_def dec_error_def)
  next
    case False
    with r obtain t v bs ok where t: "call_read E s buf count w = Some (t, v, bs, ok)"
      and c: "(if \<not> ok then dec_error ''io error'' t v
        else Some (t\<lparr>is_bytes_left := is_bytes_left t - count\<rparr>, v, Some bs)) = Some (s', w', r)"
      by (auto simp: read_some_def bind_Some_iff)
    have "is_bytes_left s - count \<le> is_bytes_left s"
      using False by (simp add: word_le_nat_alt unat_sub_if' not_less)
    with c call_read_steady [OF t] show ?thesis
      by (auto simp: advances_def in_step_def dec_error_def split: if_splits)
  qed
qed

lemma skip_chunks_steady [steadies]: "steady (skip_chunks E count)"
proof (induction count rule: skip_chunks.induct)
  case (1 E count)
  then show ?case by (subst skip_chunks.simps) (auto intro!: steadies)
qed

lemma read_steady [steadies]: "steady (pb_read E buf count)"
proof -
  have "pb_read E buf count = (\<lambda>s w. if count = 0 then dec_return [] s w
      else if buf = Dest_null \<and> is_callback s \<noteq> Buf_read then skip_chunks E count s w else read_some E buf count s w)"
    by (auto simp: fun_eq_iff pb_read_def dec_return_def)
  then show ?thesis by (auto intro!: steady_cond steadies)
qed

lemma readbyte_consumes:
  assumes "pb_readbyte E s w = Some (s', w', Some b)"
  shows "is_bytes_left s' < is_bytes_left s"
proof -
  have "is_bytes_left s \<noteq> 0" using assms by (auto simp: pb_readbyte_def dec_error_def)
  then have "is_bytes_left s - 1 < is_bytes_left s" by (simp add: word_less_nat_alt unat_minus_one unat_gt_0)
  with assms show ?thesis
    by (auto simp: pb_readbyte_def dec_error_def bind_Some_iff dest!: call_read_steady split: if_splits list.splits)
qed

lemma readbyte_steady [steadies]: "steady (pb_readbyte E)"
proof (rule steadyI)
  fix s w s' w' r
  assume r: "pb_readbyte E s w = Some (s', w', r)"
  show "advances s s' \<and> (r \<noteq> None \<longrightarrow> in_step s s')"
  proof (cases r)
    case None
    with r show ?thesis
      by (auto simp: pb_readbyte_def dec_error_def bind_Some_iff advances_def dest!: call_read_steady
          split: if_splits list.splits)
  next
    case (Some b)
    with r readbyte_consumes have "is_bytes_left s' < is_bytes_left s" by blast
    with r show ?thesis
      by (auto simp: pb_readbyte_def dec_error_def bind_Some_iff advances_def in_step_def dest!: call_read_steady
          split: if_splits list.splits)
  qed
qed

subsection \<open>Numbers and skipping\<close>

lemma varint32_loop_steady [steadies]: "steady (varint32_loop fuel E r bp)"
  by (induction fuel arbitrary: r bp) (auto intro!: steadies simp: Let_def)

lemma varint64_loop_steady [steadies]: "steady (varint64_loop fuel E r bp)"
  by (induction fuel arbitrary: r bp) (auto intro!: steadies simp: Let_def)

lemma varint_steady [steadies]: "steady (pb_decode_varint E)"
  by (simp add: pb_decode_varint_def steadies del: varint64_loop.simps)

lemma varint32_eof_steady:
  assumes "pb_decode_varint32_eof E s w = Some (s', w', r, eof)"
  shows "advances s s'" and "r \<noteq> None \<Longrightarrow> in_step s s'"
    and "r \<noteq> None \<Longrightarrow> is_bytes_left s' < is_bytes_left s"
proof -
  from assms obtain t v q where t: "pb_readbyte E s w = Some (t, v, q)"
    and c: "(case q of
       None \<Rightarrow> Some (t, v, None, is_bytes_left t = 0)
     | Some byte \<Rightarrow>
         if byte AND 0x80 = 0 then Some (t, v, Some (ucast byte), False)
         else do {
           (t, v, r) \<leftarrow> varint32_loop (Suc (unat (is_bytes_left t))) E (ucast (byte AND 0x7F)) 7 t v;
           Some (t, v, r, False) }) = Some (s', w', r, eof)"
    by (auto simp: pb_decode_varint32_eof_def bind_Some_iff)
  note T = steadyD [OF readbyte_steady t]
  have "advances s s' \<and> (r \<noteq> None \<longrightarrow> in_step s s' \<and> is_bytes_left s' < is_bytes_left s)"
  proof (cases q)
    case None
    with c T show ?thesis by auto
  next
    case (Some byte)
    from readbyte_consumes t Some have less: "is_bytes_left t < is_bytes_left s" by blast
    show ?thesis
    proof (cases "byte AND 0x80 = 0")
      case True
      with c Some T less show ?thesis by auto
    next
      case False
      with c Some have "varint32_loop (Suc (unat (is_bytes_left t))) E (ucast (byte AND 0x7F)) 7 t v = Some (s', w', r)"
        by (auto simp: bind_Some_iff simp del: varint32_loop.simps)
      from steadyD [OF varint32_loop_steady this] T Some less show ?thesis
        by (auto intro: advances_trans in_step_trans simp: advances_def)
    qed
  qed
  then show "advances s s'" "r \<noteq> None \<Longrightarrow> in_step s s'" "r \<noteq> None \<Longrightarrow> is_bytes_left s' < is_bytes_left s" by auto
qed

lemma varint32_steady [steadies]: "steady (pb_decode_varint32 E)"
  by (rule steadyI) (auto simp: pb_decode_varint32_def bind_Some_iff dest: varint32_eof_steady)

lemma tag_steady:
  assumes "pb_decode_tag E s w = Some (s', w', r, eof)"
  shows "advances s s'" and "r \<noteq> None \<Longrightarrow> in_step s s'"
    and "r \<noteq> None \<Longrightarrow> is_bytes_left s' < is_bytes_left s"
  using assms
  by (auto simp: pb_decode_tag_def bind_Some_iff dest: varint32_eof_steady split: option.splits if_splits)

lemma skip_varint_loop_steady [steadies]: "steady (skip_varint_loop fuel E)"
  by (induction fuel) (auto intro!: steadies)

lemma skip_varint_steady [steadies]: "steady (pb_skip_varint E)"
  by (rule steadyI) (auto simp: pb_skip_varint_def simp del: skip_varint_loop.simps
      dest: steadyD [OF skip_varint_loop_steady])

lemma skip_string_steady [steadies]: "steady (pb_skip_string E)"
  unfolding pb_skip_string_def by (intro steadies)

lemma skip_field_steady [steadies]: "steady (pb_skip_field E wt)"
  unfolding pb_skip_field_def by (intro steadies)

lemma raw_varint_loop_steady [steadies]: "steady (raw_varint_loop n E buf)"
  by (induction n arbitrary: buf) (auto intro!: steadies)

lemma read_raw_value_steady [steadies]: "steady (read_raw_value E wt n)"
  unfolding read_raw_value_def by (intro steadies)

lemma store_signed_steady [steadies]: "steady (store_signed n p v)"
  unfolding store_signed_def by (intro steadies)

lemma store_unsigned_steady [steadies]: "steady (store_unsigned n p v)"
  unfolding store_unsigned_def by (intro steadies)

lemma svarint_steady [steadies]: "steady (pb_decode_svarint E)"
  unfolding pb_decode_svarint_def by (intro steadies)

lemma numbers_steady [steadies]:
  "steady (pb_dec_bool E field dest)" "steady (pb_dec_varint E field dest)" "steady (pb_dec_uvarint E field dest)"
  "steady (pb_dec_svarint E field dest)" "steady (pb_dec_fixed32 E field dest)" "steady (pb_dec_fixed64 E field dest)"
  "steady (pb_dec_fixed_length_bytes E field dest)"
  unfolding pb_dec_bool_def pb_dec_varint_def pb_dec_uvarint_def pb_dec_svarint_def pb_dec_fixed32_def pb_dec_fixed64_def
    pb_dec_fixed_length_bytes_def pb_decode_fixed32_def pb_decode_fixed64_def
  by (intro steadies)+

subsection \<open>Substreams\<close>

lemma dec_thenE:
  assumes "dec_then f g s w = Some (s', w', r)"
  obtains t v q where "f s w = Some (t, v, q)"
    and "(case q of None \<Rightarrow> Some (t, v, None) | Some x \<Rightarrow> g x t v) = Some (s', w', r)"
  using assms by (auto simp: dec_then_def bind_Some_iff)

lemma dec_error_steady: "dec_error msg s w = Some (s', w', r) \<Longrightarrow> advances s s' \<and> r = None"
  by (auto simp: dec_error_def)

text \<open>What a substream takes from its parent.\<close>

definition splits :: "pb_istream_t \<Rightarrow> pb_istream_t \<Rightarrow> pb_istream_t \<Rightarrow> bool" where
  "splits s t sub \<longleftrightarrow> advances s t \<and> is_callback sub = is_callback s \<and>
     (is_callback s = Buf_read \<longrightarrow> is_state sub + is_bytes_left sub + is_bytes_left t = is_state s + is_bytes_left s)"

lemma make_substream:
  assumes "pb_make_string_substream E s w = Some (s', w', r)"
  shows "advances s s'" and "\<And>sub. r = Some sub \<Longrightarrow> splits s s' sub"
proof -
  from assms obtain t v q where t: "pb_decode_varint32 E s w = Some (t, v, q)"
    and c: "(case q of None \<Rightarrow> Some (t, v, None)
      | Some n \<Rightarrow> if is_bytes_left t < ucast n then dec_error ''parent stream too short'' t v
          else Some (t\<lparr>is_bytes_left := is_bytes_left t - ucast n\<rparr>, v, Some (t\<lparr>is_bytes_left := ucast n\<rparr>))) =
        Some (s', w', r)"
    by (auto simp: pb_make_string_substream_def dec_then_def bind_Some_iff)
  note T = steadyD [OF varint32_steady t]
  have less: "\<not> x < y \<Longrightarrow> x - y \<le> x" for x y :: u64 by (simp add: word_le_nat_alt unat_sub_if' not_less)
  have "advances s s' \<and> (\<forall>sub. r = Some sub \<longrightarrow> splits s s' sub)"
  proof (cases q)
    case None
    with c T show ?thesis by auto
  next
    case (Some n)
    with c T less [of "is_bytes_left t" "ucast n"] show ?thesis
      by (auto simp: dec_error_def splits_def advances_def in_step_def add.assoc split: if_splits)
  qed
  then show "advances s s'" and "\<And>sub. r = Some sub \<Longrightarrow> splits s s' sub" by auto
qed

lemma read_all:
  assumes "pb_read E Dest_null (is_bytes_left s) s w = Some (s', w', Some bs)"
  shows "is_callback s = Buf_read \<Longrightarrow> is_bytes_left s' = 0"
  using assms by (auto simp: pb_read_def dest: read_some_left split: if_splits)

lemma close_substream:
  assumes "pb_close_string_substream E sub t w = Some (t', w', r)"
  shows "advances t t'" and "r \<noteq> None \<Longrightarrow> splits s t sub0 \<Longrightarrow> advances sub0 sub \<Longrightarrow> in_step sub0 sub \<Longrightarrow> in_step s t'"
proof -
  from assms obtain sub' v q
    where r: "(if is_bytes_left sub \<noteq> 0 then pb_read E Dest_null (is_bytes_left sub) sub w else Some (sub, w, Some [])) =
        Some (sub', v, q)"
      and c: "(case q of None \<Rightarrow> Some (t, v, None)
        | Some _ \<Rightarrow> Some (t\<lparr>is_state := is_state sub', is_errmsg := is_errmsg sub'\<rparr>, v, Some ())) = Some (t', w', r)"
    by (auto simp: pb_close_string_substream_def bind_Some_iff)
  from c show "advances t t'" by (auto simp: advances_def split: option.splits)
  show "in_step s t'" if "r \<noteq> None" "splits s t sub0" "advances sub0 sub" "in_step sub0 sub"
  proof (unfold in_step_def, rule impI)
    assume b: "is_callback s = Buf_read"
    from c \<open>r \<noteq> None\<close> obtain bs where q: "q = Some bs" by (cases q) auto
    have "is_callback sub = Buf_read" using b that(2,3) by (simp add: splits_def advances_def)
    then have "is_state sub' = is_state sub + is_bytes_left sub"
      using r q read_all [of E sub w sub' v bs] steadyD(2) [OF read_steady, of E Dest_null "is_bytes_left sub" sub w sub' v q]
      by (auto simp: in_step_def split: if_splits)
    with b c q that show "is_state t' + is_bytes_left t' = is_state s + is_bytes_left s"
      by (auto simp: splits_def in_step_def advances_def)
  qed
qed

text \<open>A decoder on a substream, then the closing of the substream.\<close>

lemma steady_substream:
  assumes f: "\<And>sub. steady (f sub)"
    and g: "\<And>sub q t w t' w' r. g sub q t w = Some (t', w', r) \<Longrightarrow> advances t t' \<and>
      (r \<noteq> None \<longrightarrow> q \<noteq> None \<and> (\<exists>v u v'. pb_close_string_substream E sub t v = Some (t', v', Some u)))"
  shows "steady (dec_then (pb_make_string_substream E) (\<lambda>sub. dec_then (on_substream sub (f sub)) (\<lambda>(sub, q). g sub q)))"
proof (rule steadyI)
  fix s w s' w' r
  assume "dec_then (pb_make_string_substream E) (\<lambda>sub. dec_then (on_substream sub (f sub)) (\<lambda>(sub, q). g sub q)) s w =
    Some (s', w', r)"
  then obtain t v p where t: "pb_make_string_substream E s w = Some (t, v, p)"
    and c: "(case p of None \<Rightarrow> Some (t, v, None)
      | Some sub \<Rightarrow> dec_then (on_substream sub (f sub)) (\<lambda>(sub, q). g sub q) t v) = Some (s', w', r)"
    by (rule dec_thenE)
  show "advances s s' \<and> (r \<noteq> None \<longrightarrow> in_step s s')"
  proof (cases p)
    case None
    with c make_substream(1) [OF t] show ?thesis by auto
  next
    case (Some sub)
    note sp = make_substream(2) [OF t Some]
    from c Some obtain sub' v' q where f': "f sub sub v = Some (sub', v', q)" and g': "g sub' q t v' = Some (s', w', r)"
      by (auto simp: dec_then_def on_substream_def bind_Some_iff)
    note F = steadyD [OF f f']
    from g [OF g'] have adv: "advances t s'" by simp
    have "in_step s s'" if r: "r \<noteq> None"
    proof -
      from g [OF g'] r obtain a u b where q: "q \<noteq> None"
        and cl: "pb_close_string_substream E sub' t a = Some (s', b, Some u)" by blast
      from close_substream(2) [OF cl _ sp F(1)] F(2) [OF q] show ?thesis by simp
    qed
    with adv make_substream(1) [OF t] show ?thesis by (auto intro: advances_trans)
  qed
qed

lemma close_status:
  assumes "dec_then (pb_close_string_substream E sub) (\<lambda>_ s w. Some (s, w, q)) t w = Some (t', w', r)"
  shows "advances t t' \<and> (r \<noteq> None \<longrightarrow> q \<noteq> None \<and> (\<exists>v u v'. pb_close_string_substream E sub t v = Some (t', v', Some u)))"
  using assms by (auto simp: dec_then_def bind_Some_iff dest: close_substream(1) split: option.splits)

lemma then_close_steady [steadies]:
  "(\<And>sub. steady (f sub)) \<Longrightarrow> steady (dec_then (pb_make_string_substream E) (\<lambda>sub. then_close E sub (f sub)))"
  unfolding then_close_def by (intro steady_substream close_status) assumption+

subsection \<open>Fields\<close>

lemma steady_still: "(\<And>s w s' w' r. f s w = Some (s', w', r) \<Longrightarrow> s' = s) \<Longrightarrow> steady f"
  by (rule steadyI) (metis advances_refl in_step_refl)

lemma allocate_steady [steadies]: "steady (allocate_field E pData data_size n)"
  unfolding allocate_field_def by (intro steadies) (auto intro!: steady_still simp: bind_Some_iff)

lemma dest_or_alloc_steady [steadies]: "steady (dest_or_alloc E field dest n msg)"
  unfolding dest_or_alloc_def by (intro steadies)

lemma bytes_steady [steadies]: "steady (pb_dec_bytes E field dest)"
  unfolding pb_dec_bytes_def Let_def by (intro steadies)

lemma string_steady [steadies]: "steady (pb_dec_string E field dest)"
proof -
  have "steady (\<lambda>s w. do {
       (s, w, status) \<leftarrow> pb_read E (Dest_mem p) n s w;
       w \<leftarrow> wd_store_bytes q bs w;
       Some (s, w, map_option (\<lambda>_. ()) status) })" for p n q bs
    by (auto simp: steady_def bind_Some_iff dest: steadyD [OF read_steady])
  then show ?thesis unfolding pb_dec_string_def Let_def by (intro steadies)
qed

definition steady_subs :: "sub_decoders \<Rightarrow> bool" where
  "steady_subs sub \<longleftrightarrow> (\<forall>flds dest. steady (fst sub flds dest) \<and> steady (snd sub flds dest))"

lemma submessage_steady [steadies]: "steady_subs sub \<Longrightarrow> steady (pb_dec_submessage sub E field dest)"
proof (cases "fld_ptr field = 0")
  case True
  then have "pb_dec_submessage sub E field dest =
      dec_then (pb_make_string_substream E) (\<lambda>sub s w. dec_error ''invalid field descriptor'' s w)"
    by (simp add: pb_dec_submessage_def)
  then show ?thesis
    by (auto simp: steady_def dec_then_def bind_Some_iff dest!: make_substream(1) dec_error_steady
        intro: advances_trans split: option.splits)
next
  case False
  assume "steady_subs sub"
  with False show ?thesis by (auto simp: pb_dec_submessage_def steady_subs_def intro!: steadies)
qed

lemma decoders_steady: "steady_subs sub \<Longrightarrow> PB_DECODERS sub E t = Some func \<Longrightarrow> steady (func pos p)"
  by (auto simp: PB_DECODERS_def intro!: steadies split: if_splits)

lemma packed_static_loop_step:
  "packed_static_loop (Suc fuel) func pos iter = (\<lambda>s w.
     if is_bytes_left s = 0 then dec_return () s w
     else dec_then (dec_load 4 (it_pSize iter)) (\<lambda>count.
       if fld_array_size pos \<le> count then dec_return ()
       else dec_then (func pos (item_at (it_pData iter) pos count)) (\<lambda>_.
         dec_then (dec_load 4 (it_pSize iter)) (\<lambda>count.
           dec_then (dec_store 4 (it_pSize iter) (count + 1 :: pb_size_t)) (\<lambda>_.
             packed_static_loop fuel func pos iter)))) s w)"
  by (intro ext) (auto simp: dec_then_def dec_return_def dec_load_def dec_store_def dec_store_bytes_def wd_load_def
      wd_store_def wd_store_bytes_def intro!: Option.bind_cong split: option.splits)

lemma packed_static_loop_steady:
  assumes "\<And>p. steady (func pos p)"
  shows "steady (packed_static_loop fuel func pos iter)"
proof (induction fuel)
  case 0
  then show ?case by (simp add: steady_def)
next
  case (Suc fuel)
  show ?case
    unfolding packed_static_loop_step
    by (intro steady_cond steadies Suc assms)
qed

lemma decode_packed_static_steady:
  assumes "\<And>p. steady (func pos p)"
  shows "steady (decode_packed_static E func pos iter)"
  unfolding decode_packed_static_def
proof (rule steady_substream)
  show "steady (packed_static_loop (Suc (unat (is_bytes_left sub))) func pos iter)" for sub
    by (rule packed_static_loop_steady) (rule assms)
next
  fix sub q t w t' w' r
  assume g: "(if is_bytes_left sub \<noteq> 0 then dec_error ''array overflow''
     else dec_then (pb_close_string_substream E sub) (\<lambda>_ s w. Some (s, w, q))) t w = Some (t', w', r)"
  show "advances t t' \<and>
      (r \<noteq> None \<longrightarrow> q \<noteq> None \<and> (\<exists>v u v'. pb_close_string_substream E sub t v = Some (t', v', Some u)))"
  proof (cases "is_bytes_left sub = 0")
    case True
    with g have "dec_then (pb_close_string_substream E sub) (\<lambda>_ s w. Some (s, w, q)) t w = Some (t', w', r)" by simp
    then show ?thesis by (rule close_status)
  next
    case False
    with g show ?thesis by (auto simp: dec_error_def)
  qed
qed

lemma packed_pointer_loop_steady:
  assumes f: "\<And>p. steady (func pos p)"
  shows "packed_pointer_loop fuel n E func pos iter k s w = Some (s', w', ok, b) \<Longrightarrow>
    advances s s' \<and> (ok \<longrightarrow> in_step s s')"
proof (induction fuel arbitrary: k s w)
  case 0
  then show ?case by simp
next
  case (Suc fuel)
  show ?case
  proof (cases "is_bytes_left s = 0")
    case True
    with Suc.prems show ?thesis by auto
  next
    case False
    obtain count where c: "wd_load 4 (it_pSize iter) w = Some (count :: pb_size_t)"
      using Suc.prems False by (auto simp: bind_Some_iff)
    show ?thesis
    proof (cases "count = PB_SIZE_MAX")
      case True
      with Suc.prems False c show ?thesis by auto
    next
      case ne: False
      let ?grow = "k < ucast count + 1"
      from Suc.prems False ne c obtain k' t v q where
        t: "(if ?grow then allocate_field E (it_pData iter) (ucast (fld_data_size pos)) k' s w else Some (s, w, Some ())) =
            Some (t, v, q)"
        and rest: "(if q = None then Some (t, v, False, False)
          else do {
            p \<leftarrow> wd_load 8 (it_pData iter) v;
            (count :: pb_size_t) \<leftarrow> wd_load 4 (it_pSize iter) v;
            let pItem = item_at p pos count;
            v \<leftarrow> initialize_pointer_field n (de_tables E) pos pItem v;
            (t, v, r) \<leftarrow> func pos pItem t v;
            case r of
              None \<Rightarrow> Some (t, v, False, False)
            | Some _ \<Rightarrow> do {
                (count :: pb_size_t) \<leftarrow> wd_load 4 (it_pSize iter) v;
                v \<leftarrow> wd_store 4 (it_pSize iter) (count + 1) v;
                packed_pointer_loop fuel n E func pos iter k' t v } }) = Some (s', w', ok, b)"
        by (auto simp: bind_Some_iff split: if_splits)
      have T: "advances s t \<and> (q \<noteq> None \<longrightarrow> in_step s t)"
        using t steadyD [OF allocate_steady] by (auto split: if_splits)
      show ?thesis
      proof (cases q)
        case None
        with rest T show ?thesis by auto
      next
        case (Some u)
        from rest Some obtain p v' a v'' r where a: "func pos p t v' = Some (a, v'', r)"
          and fin: "(case r of
              None \<Rightarrow> Some (a, v'', False, False)
            | Some _ \<Rightarrow> do {
                (count :: pb_size_t) \<leftarrow> wd_load 4 (it_pSize iter) v'';
                v \<leftarrow> wd_store 4 (it_pSize iter) (count + 1) v'';
                packed_pointer_loop fuel n E func pos iter k' a v }) = Some (s', w', ok, b)"
          by (auto simp: bind_Some_iff Let_def)
        note A = steadyD [OF f a]
        show ?thesis
        proof (cases r)
          case None
          with fin A T show ?thesis by (auto intro: advances_trans)
        next
          case r: (Some x)
          with fin obtain v3 where "packed_pointer_loop fuel n E func pos iter k' a v3 = Some (s', w', ok, b)"
            by (auto simp: bind_Some_iff)
          from Suc.IH [OF this] A T Some r show ?thesis
            by (auto intro: advances_trans in_step_trans)
        qed
      qed
    qed
  qed
qed

lemma decode_packed_pointer_steady:
  assumes f: "\<And>p. steady (func pos p)"
  shows "steady (decode_packed_pointer n E func pos iter)"
proof -
  have S: "steady (dec_then (pb_make_string_substream E) (\<lambda>sub t w. do {
       (sub, w, status, too_many) \<leftarrow>
         packed_pointer_loop (Suc (unat (is_bytes_left sub))) n E func pos iter k sub w;
       let t = (if too_many then t\<lparr>is_errmsg := Some ''too many array entries''\<rparr> else t);
       dec_then (pb_close_string_substream E sub)
         (\<lambda>_. if status then dec_return () else dec_false) t w }))" (is "steady (dec_then _ ?g)") for k
  proof (rule steadyI)
    fix s w s' w' r
    assume "dec_then (pb_make_string_substream E) ?g s w = Some (s', w', r)"
    then obtain t v p where t: "pb_make_string_substream E s w = Some (t, v, p)"
      and c: "(case p of None \<Rightarrow> Some (t, v, None) | Some sub \<Rightarrow> ?g sub t v) = Some (s', w', r)"
      by (rule dec_thenE)
    show "advances s s' \<and> (r \<noteq> None \<longrightarrow> in_step s s')"
    proof (cases p)
      case None
      with c make_substream(1) [OF t] show ?thesis by auto
    next
      case (Some sub)
      note sp = make_substream(2) [OF t Some]
      from c Some obtain sub' v' ok b where
        l: "packed_pointer_loop (Suc (unat (is_bytes_left sub))) n E func pos iter k sub v = Some (sub', v', ok, b)"
        and g: "dec_then (pb_close_string_substream E sub') (\<lambda>_. if ok then dec_return () else dec_false)
            (if b then t\<lparr>is_errmsg := Some ''too many array entries''\<rparr> else t) v' = Some (s', w', r)"
        by (auto simp: bind_Some_iff Let_def simp del: packed_pointer_loop.simps)
      let ?t = "if b then t\<lparr>is_errmsg := Some ''too many array entries''\<rparr> else t"
      note L = packed_pointer_loop_steady [OF f l]
      from g obtain a v'' q where cl: "pb_close_string_substream E sub' ?t v' = Some (a, v'', q)"
        and fin: "(case q of None \<Rightarrow> Some (a, v'', None) | Some x \<Rightarrow> (if ok then dec_return () else dec_false) a v'') =
          Some (s', w', r)"
        by (rule dec_thenE)
      have a: "s' = a" using fin by (auto simp: dec_return_def dec_false_def split: option.splits if_splits)
      have adv: "advances ?t s'" using close_substream(1) [OF cl] a by simp
      have "splits s ?t sub" using sp by (simp add: splits_def advances_def)
      then have "in_step s s'" if "r \<noteq> None"
        using that fin close_substream(2) [OF cl, of s sub] L a
        by (auto simp: dec_return_def dec_false_def split: option.splits if_splits)
      with adv make_substream(1) [OF t] show ?thesis by (auto simp: advances_def split: if_splits)
    qed
  qed
  show ?thesis unfolding decode_packed_pointer_def by (rule steady_then [OF steady_basic(4) S])
qed

lemma decode_static_field_steady [steadies]:
  assumes "steady_subs sub"
  shows "steady (decode_static_field n sub E wt iter)"
  unfolding decode_static_field_def Let_def
proof (intro steady_given, goal_cases)
  case (1 pos func)
  have F: "steady (func q p)" for q p by (rule decoders_steady [OF assms 1(2)])
  show ?case by (intro steadies F decode_packed_static_steady)
qed

lemma decode_pointer_field_steady [steadies]:
  assumes "steady_subs sub"
  shows "steady (decode_pointer_field n sub E wt iter)"
  unfolding decode_pointer_field_def Let_def
proof (intro steady_given, goal_cases)
  case (1 pos func)
  have F: "steady (func q p)" for q p by (rule decoders_steady [OF assms 1(2)])
  show ?case by (intro steadies F decode_packed_pointer_steady)
qed

subsection \<open>Callbacks and extensions\<close>

definition steady_env :: "pb_decode_env \<Rightarrow> bool" where
  "steady_env E \<longleftrightarrow> (\<forall>f pos arg. steady (de_callback E f pos arg)) \<and>
     (\<forall>f ext tag wire_type. steady (de_extension E f ext tag wire_type))"

definition goes_on :: "pb_istream_t \<Rightarrow> pb_istream_t \<times> pb_world \<times> 'a option \<Rightarrow> bool" where
  "goes_on s y \<longleftrightarrow> advances s (fst y) \<and> (snd (snd y) \<noteq> None \<longrightarrow> in_step s (fst y))"

lemma steady_goes_on: "steady f \<longleftrightarrow> (\<forall>s w y. f s w = Some y \<longrightarrow> goes_on s y)"
  by (auto simp: steady_def goes_on_def)

lemma goes_on_trans: "goes_on s (t, v, Some x) \<Longrightarrow> goes_on t y \<Longrightarrow> goes_on s y"
  by (auto simp: goes_on_def intro: advances_trans in_step_trans)

lemma goes_on_stop: "goes_on s (t, v, r) \<Longrightarrow> goes_on s (t, v', None)"
  by (simp add: goes_on_def)

lemma goes_on_done: "goes_on s (t, v, Some x) \<Longrightarrow> goes_on s (t, v', r)"
  by (simp add: goes_on_def)

lemma callback_loop_goes_on:
  "callback_loop E pos p s w = Some y \<Longrightarrow> steady_env E \<Longrightarrow> goes_on s y"
proof (induct rule: callback_loop.raw_induct [rotated, consumes 1, case_names step])
  case (step loop E pos p s w y)
  then obtain decode t v r where t: "de_callback E decode pos (p + 8) s w = Some (t, v, r)"
    and c: "(if r = None then Some (t, v, None)
      else if is_bytes_left t \<noteq> 0 then loop E pos p t v else Some (t, v, Some ())) = Some y"
    by (auto simp: bind_Some_iff)
  have T: "goes_on s (t, v, r)" using t step(3) by (auto simp: steady_env_def steady_goes_on)
  show ?case
  proof (cases r)
    case None
    with c T show ?thesis by auto
  next
    case (Some x)
    with c T step(1) [of E pos p t v y] step(3) show ?thesis
      by (auto intro: goes_on_trans split: if_splits)
  qed
qed

lemma callback_loop_steady: "steady_env E \<Longrightarrow> steady (callback_loop E pos p)"
  by (simp add: steady_goes_on callback_loop_goes_on)

lemma extension_loop_goes_on:
  "decode_extension_loop deflt E pos tag wt ext s w = Some y \<Longrightarrow> steady_env E \<Longrightarrow>
     (\<And>ext tag wt. steady (deflt ext tag wt)) \<Longrightarrow> goes_on s y"
proof (induct rule: decode_extension_loop.raw_induct [rotated, consumes 1, case_names step])
  case (step loop deflt E pos tag wt ext s w y)
  show ?case
  proof (cases "ext = 0 \<or> pos \<noteq> is_bytes_left s")
    case True
    with step(2) show ?thesis by (auto simp: goes_on_def)
  next
    case False
    with step(2) obtain type :: addr where "wd_load 8 ext w = Some type" by (auto simp: bind_Some_iff)
    with False step(2) obtain decode :: addr where "wd_load 8 type w = Some decode" by (auto simp: bind_Some_iff)
    with \<open>wd_load 8 ext w = Some type\<close> False step(2) obtain t v r where
      t: "(if decode \<noteq> 0 then de_extension E decode ext tag wt s w else deflt ext tag wt s w) = Some (t, v, r)"
      and c: "(if r = None then Some (t, v, None)
        else do { ext \<leftarrow> wd_load 8 (ext + 16) v; loop deflt E pos tag wt ext t v }) = Some y"
      by (auto simp: bind_Some_iff)
    have T: "goes_on s (t, v, r)"
      using t step(3,4) by (auto simp: steady_env_def steady_goes_on split: if_splits)
    show ?thesis
    proof (cases r)
      case None
      with c T show ?thesis by auto
    next
      case (Some x)
      with c obtain ext' where "loop deflt E pos tag wt ext' t v = Some y" by (auto simp: bind_Some_iff)
      from step(1) [OF this step(3,4)] T Some show ?thesis by (auto intro: goes_on_trans)
    qed
  qed
qed

lemma decode_callback_field_steady:
  assumes "steady_env E"
  shows "steady (decode_callback_field n E wt iter)"
proof -
  have sub: "steady (dec_then (pb_make_string_substream E) (\<lambda>sub.
      dec_then (on_substream sub (callback_loop E pos p)) (\<lambda>(sub, r).
        if r = None then dec_error ''callback failed'' else pb_close_string_substream E sub)))" for pos p
  proof (rule steady_substream)
    fix sub q t w t' w' r
    assume g: "(if q = None then dec_error ''callback failed'' else pb_close_string_substream E sub) t w = Some (t', w', r)"
    then show "advances t t' \<and>
        (r \<noteq> None \<longrightarrow> q \<noteq> None \<and> (\<exists>v u v'. pb_close_string_substream E sub t v = Some (t', v', Some u)))"
      by (auto dest: dec_error_steady close_substream(1) split: if_splits)
  qed (rule callback_loop_steady [OF assms])
  have buffer: "steady (dec_local q bs (\<lambda>s w. do {
          decode \<leftarrow> wd_load 8 p w;
          (sub, w, r) \<leftarrow> de_callback E decode pos a b w;
          Some (s, w, r) }))" for q bs p pos a b
    by (rule steady_still) (auto simp: dec_local_def bind_Some_iff)
  show ?thesis
    unfolding decode_callback_field_def Let_def
    by (intro steady_given steady_ask)
      (intro steady_cond skip_field_steady sub steady_then read_raw_value_steady buffer)
qed

subsection \<open>Messages\<close>

lemma decode_field_steady:
  assumes "steady_env E" "steady_subs sub"
  shows "steady (decode_field n sub E wt iter)"
proof -
  have "steady (pb_release_union_field n T iter)" for T
  proof (rule steadyI)
    fix s w s' w' r
    assume "pb_release_union_field n T iter s w = Some (s', w', r)"
    then show "advances s s' \<and> (r \<noteq> None \<longrightarrow> in_step s s')"
      by (auto simp: pb_release_union_field_def bind_Some_iff Let_def dest!: dec_error_steady split: if_splits)
  qed
  then show ?thesis
    unfolding decode_field_def Let_def
    by (intro steady_given) (intro steadies steady_given decode_callback_field_steady assms)
qed

lemma decode_extension_steady:
  assumes "steady_env E" "steady_subs sub"
  shows "steady (decode_extension n sub E tag wt iter)"
proof -
  have d: "steady (default_extension_decoder n sub E ext tag wt)" for ext tag wt
  proof (rule steadyI)
    fix s w s' w' r
    assume "default_extension_decoder n sub E ext tag wt s w = Some (s', w', r)"
    then show "advances s s' \<and> (r \<noteq> None \<longrightarrow> in_step s s')"
      by (auto simp: default_extension_decoder_def bind_Some_iff
          dest: steadyD [OF decode_field_steady [OF assms]] split: if_splits)
  qed
  show ?thesis
    unfolding steady_goes_on
  proof (intro allI impI)
    fix s w y
    assume "decode_extension n sub E tag wt iter s w = Some y"
    then obtain ext where "decode_extension_loop (default_extension_decoder n sub E) E (is_bytes_left s) tag wt ext s w = Some y"
      by (auto simp: decode_extension_def bind_Some_iff)
    then show "goes_on s y" by (rule extension_loop_goes_on [OF _ assms(1) d])
  qed
qed

lemma decode_unknown_steady:
  assumes "steady_env E" "steady_subs sub"
  shows "steady (decode_unknown n sub E tag wt st)"
proof -
  have c: "steady (\<lambda>s. if k \<noteq> is_bytes_left s then dec_return x s else dec_then (pb_skip_field E wt) (\<lambda>_. dec_return x) s)"
    for k and x :: decode_state
    using steady_cond [of "dec_return x" "dec_then (pb_skip_field E wt) (\<lambda>_. dec_return x)" "\<lambda>s w. k \<noteq> is_bytes_left s"]
    by (simp add: steadies if_distrib [of "\<lambda>f. f _"] cong: if_cong) (simp add: steady_def)
  have a: "steady (dec_then (if start \<le> tag then decode_extension n sub E tag wt iter else dec_return ())
      (\<lambda>_ s. if k \<noteq> is_bytes_left s then dec_return x s
        else dec_then (pb_skip_field E wt) (\<lambda>_. dec_return x) s))" for start iter k and x :: decode_state
    by (intro steadies decode_extension_steady assms c)
  show ?thesis
  proof (rule steadyI)
    fix s w s' w' r
    assume u: "decode_unknown n sub E tag wt st s w = Some (s', w', r)"
    show "advances s s' \<and> (r \<noteq> None \<longrightarrow> in_step s s')"
    proof (cases "tag < ds_extension_range_start st")
      case True
      with u have "dec_then (pb_skip_field E wt) (\<lambda>_. dec_return st) s w = Some (s', w', r)"
        by (simp add: decode_unknown_def)
      with steadyD [OF steady_then [OF skip_field_steady steady_basic(1)] this] show ?thesis by blast
    next
      case False
      with u obtain start iter x where
        "dec_then (if start \<le> tag then decode_extension n sub E tag wt iter else dec_return ())
          (\<lambda>_ t. if is_bytes_left s \<noteq> is_bytes_left t then dec_return x t
            else dec_then (pb_skip_field E wt) (\<lambda>_. dec_return x) t) s w = Some (s', w', r)"
        by (auto simp: decode_unknown_def bind_Some_iff Let_def)
      with steadyD [OF a this] show ?thesis by blast
    qed
  qed
qed

lemma use_fixed_count_steady: "steady (use_fixed_count T fcs pos st)"
proof -
  have "steady (count_complete T fcs st)"
    unfolding count_complete_def
    by (cases "ds_fixed_count_field st")
      (auto intro!: steadyI simp: bind_Some_iff dec_return_def dest!: dec_error_steady split: if_splits)
  then show ?thesis unfolding use_fixed_count_def Let_def by (intro steadies)
qed

text \<open>Where the input ends, or a tag 0 ends the message, the stream is in step although there is no tag.\<close>

lemma tag_end:
  assumes "pb_decode_tag E s w = Some (s', w', None, True)"
  shows "in_step s s'"
proof -
  from assms obtain q eof where q: "pb_decode_varint32_eof E s w = Some (s', w', q, eof)" and "q = None \<Longrightarrow> eof"
    by (auto simp: pb_decode_tag_def bind_Some_iff split: option.splits if_splits)
  show ?thesis
  proof (cases q)
    case None
    with q \<open>q = None \<Longrightarrow> eof\<close> have "pb_readbyte E s w = Some (s', w', None)"
      by (auto simp: pb_decode_varint32_eof_def bind_Some_iff simp del: varint32_loop.simps not_None_eq
          split: option.splits if_splits)
    then show ?thesis
      by (auto simp: pb_readbyte_def dec_error_def call_read_def in_step_def bind_Some_iff
          split: if_splits list.splits)
  next
    case (Some x)
    with varint32_eof_steady(2) [OF q] show ?thesis by simp
  qed
qed

lemma decode_next_steady:
  assumes "steady_env E" "steady_subs sub"
    and r: "decode_next n sub E fcs st s w = Some (s', w', r)"
  shows "advances s s' \<and> (r \<noteq> None \<longrightarrow> in_step s s')"
    and "r = Some (st', True) \<Longrightarrow> is_bytes_left s' < is_bytes_left s"
proof -
  from r obtain t v q eof where t: "pb_decode_tag E s w = Some (t, v, q, eof)"
    and c: "(case q of
       None \<Rightarrow> if eof then Some (t, v, Some (st, False)) else Some (t, v, None)
     | Some (wire_type, tag) \<Rightarrow> do {
         (iter, found) \<leftarrow> pb_field_iter_find (de_tables E) (ds_iter st) tag;
         let st = st\<lparr>ds_iter := iter\<rparr>;
         if \<not> found then dec_then (decode_unknown n sub E tag wire_type st) (\<lambda>st. dec_return (st, True)) t v
         else do {
           pos \<leftarrow> field_of (de_tables E) iter;
           dec_then (use_fixed_count (de_tables E) fcs pos st) (\<lambda>st.
             let st = mark_required pos st in
             dec_then (decode_field n sub E wire_type (ds_iter st)) (\<lambda>_. dec_return (st, True))) t v } }) =
       Some (s', w', r)"
    by (auto simp: decode_next_def bind_Some_iff)
  have unknown: "steady (dec_then (decode_unknown n sub E tag wt st) (\<lambda>st. dec_return (st, True)))" for tag wt st
    by (intro steadies decode_unknown_steady assms)
  have known: "steady (dec_then (use_fixed_count T fcs pos st) (\<lambda>st.
      let st = mark_required pos st in
      dec_then (decode_field n sub E wt (ds_iter st)) (\<lambda>_. dec_return (st, True))))" for T pos st wt
    unfolding Let_def by (intro steadies use_fixed_count_steady decode_field_steady assms)
  have "(advances s s' \<and> (r \<noteq> None \<longrightarrow> in_step s s')) \<and> (r = Some (st', True) \<longrightarrow> is_bytes_left s' < is_bytes_left s)"
  proof (cases q)
    case None
    with c t tag_steady(1) [OF t] tag_end [of E s w t v] show ?thesis by (auto split: if_splits)
  next
    case (Some wt_tag)
    then obtain wt tag where q: "q = Some (wt, tag)" by (cases wt_tag) auto
    from tag_steady [OF t] q have T: "advances s t" "in_step s t" "is_bytes_left t < is_bytes_left s" by auto
    have "advances t s' \<and> (r \<noteq> None \<longrightarrow> in_step t s')"
      using c q unfolding Let_def
      by (auto simp: bind_Some_iff dest: steadyD [OF unknown] steadyD [OF known [unfolded Let_def]] split: if_splits)
    with T show ?thesis by (auto intro: advances_trans in_step_trans simp: advances_def)
  qed
  then show "advances s s' \<and> (r \<noteq> None \<longrightarrow> in_step s s')"
    and "r = Some (st', True) \<Longrightarrow> is_bytes_left s' < is_bytes_left s" by auto
qed


lemma decode_loop_steady:
  assumes "steady_env E" "steady_subs sub"
  shows "steady (decode_loop fuel n sub E fcs st)"
proof (induction fuel arbitrary: st)
  case 0
  then show ?case by (simp add: steady_def)
next
  case (Suc fuel)
  have nxt: "steady (decode_next n sub E fcs st)"
    by (rule steadyI) (rule decode_next_steady(1) [OF assms])
  have "decode_loop (Suc fuel) n sub E fcs st = (\<lambda>s w. if is_bytes_left s = 0 then dec_return st s w
      else dec_then (decode_next n sub E fcs st) (\<lambda>(st, m).
        if m then decode_loop fuel n sub E fcs st else dec_return st) s w)"
    by (intro ext) (simp add: dec_return_def)
  moreover have "steady (case x of (st, m) \<Rightarrow> if m then decode_loop fuel n sub E fcs st else dec_return st)" for x
    using Suc by (cases x) (auto intro!: steadies)
  ultimately show ?case by (simp only:) (intro steady_cond steady_then nxt steady_basic(1))
qed

text \<open>More fuel than the bytes left does not change the loop: it ends before.\<close>

lemma decode_loop_fuel:
  assumes "steady_env E" "steady_subs sub"
  shows "unat (is_bytes_left s) < k \<Longrightarrow> unat (is_bytes_left s) < k' \<Longrightarrow>
    decode_loop k n sub E fcs st s w = decode_loop k' n sub E fcs st s w"
proof (induction k arbitrary: k' st s w)
  case 0
  then show ?case by simp
next
  case (Suc k)
  then obtain k'' where k': "k' = Suc k''" by (cases k') auto
  show ?case
  proof (cases "is_bytes_left s = 0 \<or> decode_next n sub E fcs st s w = None")
    case True
    then show ?thesis by (auto simp: k' dec_then_def)
  next
    case False
    then obtain t v r where r: "decode_next n sub E fcs st s w = Some (t, v, r)" by auto
    have "decode_loop k n sub E fcs st' t v = decode_loop k'' n sub E fcs st' t v" if "r = Some (st', True)" for st'
    proof (rule Suc.IH)
      have "unat (is_bytes_left t) < unat (is_bytes_left s)"
        using decode_next_steady(2) [OF assms r that] by (simp add: word_less_nat_alt)
      with Suc.prems k' show "unat (is_bytes_left t) < k" "unat (is_bytes_left t) < k''" by auto
    qed
    then show ?thesis using False by (auto simp: k' dec_then_def r split: option.splits)
  qed
qed

lemma dec_local_steady: "steady f \<Longrightarrow> steady (dec_local p bs f)"
  by (auto simp: steady_def dec_local_def bind_Some_iff)

lemma noinit_steady:
  assumes "steady_env E" "steady_subs sub"
  shows "steady (decode_noinit_step n sub E flds dest)"
proof -
  have count: "steady (count_complete T fcs st)" for T fcs st
    unfolding count_complete_def
    by (cases "ds_fixed_count_field st")
      (auto intro!: steadyI simp: bind_Some_iff dec_return_def dest!: dec_error_steady split: if_splits)
  have req: "steady (check_required T st)" for T st
    unfolding check_required_def
    by (auto intro!: steadyI simp: bind_Some_iff dec_return_def dest!: dec_error_steady split: if_splits)
  have body: "steady (dec_then (decode_loop k n sub E fcs st) (\<lambda>st.
      dec_then (count_complete (de_tables E) fcs st) (\<lambda>_. check_required (de_tables E) st)))" for k fcs st
    by (intro steady_then decode_loop_steady count req assms)
  show ?thesis
    unfolding decode_noinit_step_def Let_def
  proof (rule dec_local_steady, rule steadyI)
    fix s w s' w' and r :: "unit option"
    assume "do {
        (iter, _) \<leftarrow> pb_field_iter_begin (de_tables E) flds dest;
        dec_then (decode_loop (Suc (unat (is_bytes_left s))) n sub E (de_frame E n + 16)
            \<lparr>ds_iter = iter, ds_fields_seen = [0, 0], ds_extension_range_start = 0, ds_fixed_count_field = None\<rparr>)
          (\<lambda>st. dec_then (count_complete (de_tables E) (de_frame E n + 16) st) (\<lambda>_. check_required (de_tables E) st)) s w } =
      Some (s', w', r)"
    then obtain iter where "dec_then (decode_loop (Suc (unat (is_bytes_left s))) n sub E (de_frame E n + 16)
            \<lparr>ds_iter = iter, ds_fields_seen = [0, 0], ds_extension_range_start = 0, ds_fixed_count_field = None\<rparr>)
          (\<lambda>st. dec_then (count_complete (de_tables E) (de_frame E n + 16) st) (\<lambda>_. check_required (de_tables E) st)) s w =
        Some (s', w', r)"
      by (auto simp: bind_Some_iff simp del: decode_loop.simps)
    with steadyD [OF body this] show "advances s s' \<and> (r \<noteq> None \<longrightarrow> in_step s s')" by blast
  qed
qed

lemma decoders_steady_all: "steady_env E \<Longrightarrow> steady_subs (pb_decoders n E)"
proof (induction n)
  case 0
  then show ?case by (simp add: steady_subs_def steady_def)
next
  case (Suc n)
  then have noinit: "steady (decode_noinit_step (Suc n) (pb_decoders n E) E flds dest)" for flds dest
    by (intro noinit_steady)
  have "steady (decode_step (Suc n) (decode_noinit_step (Suc n) (pb_decoders n E) E) E flds dest)" for flds dest
    by (rule steadyI) (auto simp: decode_step_def bind_Some_iff dest: steadyD [OF noinit])
  with noinit show ?case by (simp add: steady_subs_def Let_def)
qed

end
