(* ===== verification/PbRoundTrip.thy ===== *)
theory PbRoundTrip
  imports PbPosition
begin

section \<open>nanopb: a decoded message is the one that was encoded\<close>

text \<open>
  The round trip of whole messages: \<open>pb_decode\<close> reads the bytes of the wire format (\<open>PbWire\<close>: what
  \<open>pb_encode\<close> writes) back into a structure, and every field has its value again.

  It covers messages whose fields are stored in the structure: required and optional fields, with a flag
  or, as in proto3, without, that are numbers of all types, strings, arrays of bytes of a fixed length and
  submessages, to any depth.  \<open>same_message\<close> compares the two structures field by field, so that padding
  and what is behind the end of a string do not count.

  \<open>plain_message\<close> says which tables are meant and that the fields have their place in the structure, next to
  each other; \<open>changes d n\<close> is the frame: memory may change in the block of \<open>n\<close> bytes at \<open>d\<close> only.
\<close>

definition changes :: "addr \<Rightarrow> nat \<Rightarrow> pb_world \<Rightarrow> pb_world \<Rightarrow> bool" where
  "changes d n w w' \<longleftrightarrow> wd_heap w' = wd_heap w \<and> dom (wd_mem w') = dom (wd_mem w) \<and>
     (\<forall>x. \<not> in_block d n x \<longrightarrow> wd_mem w' x = wd_mem w x)"

lemma changes_refl [simp]: "changes d n w w"
  by (simp add: changes_def)

lemma changes_trans: "changes d n w w1 \<Longrightarrow> changes d n w1 w2 \<Longrightarrow> changes d n w w2"
  by (simp add: changes_def)

lemma changes_within:
  "changes d n w w' \<Longrightarrow> (\<And>x. in_block d n x \<Longrightarrow> in_block e k x) \<Longrightarrow> changes e k w w'"
  unfolding changes_def by blast

lemma changes_mapped: "changes d n w w' \<Longrightarrow> mapped (wd_mem w') a k = mapped (wd_mem w) a k"
  by (intro mapped_cong_dom) (simp add: changes_def)

lemma changes_load:
  "changes d n w w' \<Longrightarrow> k \<le> 2 ^ 64 \<Longrightarrow> disjoint_blocks d n a k \<Longrightarrow>
     load_bytes (wd_mem w') a k = load_bytes (wd_mem w) a k"
  by (intro load_bytes_cong) (auto simp: changes_def disjoint_blocks_def)

lemma changes_at_bytes:
  "changes d n w w' \<Longrightarrow> disjoint_blocks d n (is_state s) (length bs) \<Longrightarrow> at_bytes s w bs \<Longrightarrow> at_bytes s w' bs"
  using unsigned_less [of "is_bytes_left s", where 'a = nat]
  by (auto simp: at_bytes_def changes_load)

subsection \<open>Storing a value\<close>

lemma store_there:
  assumes "mapped (wd_mem w) d (length bs)" "length bs \<le> 2 ^ 64"
  obtains w' where "wd_store_bytes d bs w = Some w'" "dec_store_bytes d bs s w = Some (s, w', Some ())"
    "changes d (length bs) w w'" "load_bytes (wd_mem w') d (length bs) = Some bs"
proof -
  from store_bytes_total [OF assms] obtain m where m: "store_bytes (wd_mem w) d bs = Some m" by blast
  show thesis
  proof
    show "wd_store_bytes d bs w = Some (w\<lparr>wd_mem := m\<rparr>)" "dec_store_bytes d bs s w = Some (s, w\<lparr>wd_mem := m\<rparr>, Some ())"
      by (simp_all add: wd_store_bytes_def dec_store_bytes_def m)
    show "changes d (length bs) w (w\<lparr>wd_mem := m\<rparr>)"
      using store_bytes_other [OF m assms(2)] store_bytes_dom [OF m] by (simp add: changes_def)
    show "load_bytes (wd_mem (w\<lparr>wd_mem := m\<rparr>)) d (length bs) = Some bs"
      using store_load_same [OF m assms(2)] by simp
  qed
qed

text \<open>What a decoder of a value is to do: store the bytes \<open>cs\<close>, and go behind its input.\<close>

definition stores :: "unit dec \<Rightarrow> pb_istream_t \<Rightarrow> nat \<Rightarrow> addr \<Rightarrow> u8 list \<Rightarrow> pb_world \<Rightarrow> bool" where
  "stores f s n d cs w \<longleftrightarrow> (\<exists>w'. f s w = Some (behind s n, w', Some ()) \<and> changes d (length cs) w w' \<and>
     load_bytes (wd_mem w') d (length cs) = Some cs)"

lemma stores_bytes:
  "mapped (wd_mem w) d (length bs) \<Longrightarrow> length bs \<le> 2 ^ 64 \<Longrightarrow> g s w = Some (behind s n, w, Some x) \<Longrightarrow>
     f s w = dec_store_bytes d bs (behind s n) w \<Longrightarrow> stores f s n d bs w"
  by (rule store_there [of w d bs "behind s n"]) (auto simp: stores_def)

lemma le_of_word_cast:
  fixes x :: "'a::len word"
  assumes "8 * n \<le> LENGTH('a)" "LENGTH('a) \<le> LENGTH('b::len)"
  shows "le_of_word n (ucast x :: 'b word) = le_of_word n x" "le_of_word n (scast x :: 'b word) = le_of_word n x"
proof -
  have *: "le_of_word n y = le_of_word n x" if b: "\<And>k. k < LENGTH('a) \<Longrightarrow> bit y k = bit x k" for y :: "'b word"
  proof (rule nth_equalityI)
    fix i
    assume "i < length (le_of_word n y)"
    then have i: "i < n" by simp
    have "bit (ucast (drop_bit (8 * i) y) :: u8) k = bit (ucast (drop_bit (8 * i) x) :: u8) k" if "k < 8" for k
    proof -
      have "8 * i + k < LENGTH('a)" using i that assms(1) by linarith
      with b [of "8 * i + k"] that assms(2) show ?thesis by (auto simp: bit_simps)
    qed
    with i show "le_of_word n y ! i = le_of_word n x ! i"
      by (intro bit_word_eqI) (simp add: nth_le_of_word)
  qed simp
  show "le_of_word n (ucast x :: 'b word) = le_of_word n x"
    using assms(2) by (intro *) (simp add: bit_simps)
  show "le_of_word n (scast x :: 'b word) = le_of_word n x"
    using assms(2) by (intro *) (auto simp: bit_simps)
qed

lemma read_signed_bytes:
  assumes "read_signed m n p = Some (Some v)"
  obtains bs where "load_bytes m p (unat n) = Some bs" "le_of_word (unat n) v = bs" "n \<in> {1, 2, 4, 8}"
    "n = 1 \<Longrightarrow> \<exists>x :: u8. v = scast x" "n = 2 \<Longrightarrow> \<exists>x :: u16. v = scast x" "n = 4 \<Longrightarrow> \<exists>x :: u32. v = scast x"
proof -
  from assms consider
      bs and x :: u8 where "n = 1" "load_bytes m p 1 = Some bs" "x = word_of_le bs" "v = scast x"
    | bs and x :: u16 where "n = 2" "load_bytes m p 2 = Some bs" "x = word_of_le bs" "v = scast x"
    | bs and x :: u32 where "n = 4" "load_bytes m p 4 = Some bs" "x = word_of_le bs" "v = scast x"
    | bs where "n = 8" "load_bytes m p 8 = Some bs" "v = word_of_le bs"
    by (auto simp: read_signed_def load_le_def bind_Some_iff simp del: load_le_byte split: if_splits)
  then show thesis
  proof cases
    case (1 bs x)
    then show thesis
      using that [of bs] load_bytes_length [OF 1(2)] le_of_word_inverse [of bs, where 'a = 8]
      by (auto simp: le_of_word_cast(2) [where 'a = 8 and n = "Suc 0"] simp del: le_of_word.simps load_bytes.simps)
  next
    case (2 bs x)
    then show thesis
      using that [of bs] load_bytes_length [OF 2(2)] le_of_word_inverse [of bs, where 'a = 16]
      by (auto simp: le_of_word_cast(2) [where 'a = 16 and n = 2])
  next
    case (3 bs x)
    then show thesis
      using that [of bs] load_bytes_length [OF 3(2)] le_of_word_inverse [of bs, where 'a = 32]
      by (auto simp: le_of_word_cast(2) [where 'a = 32 and n = 4])
  next
    case (4 bs)
    then show thesis
      using that [of bs] load_bytes_length [OF 4(2)] le_of_word_inverse [of bs, where 'a = 64] by auto
  qed
qed

lemma read_unsigned_bytes:
  assumes "read_unsigned m n p = Some (Some v)"
  obtains bs where "load_bytes m p (unat n) = Some bs" "le_of_word (unat n) v = bs" "n \<in> {1, 2, 4, 8}"
    "n = 1 \<Longrightarrow> \<exists>x :: u8. v = ucast x" "n = 2 \<Longrightarrow> \<exists>x :: u16. v = ucast x" "n = 4 \<Longrightarrow> \<exists>x :: u32. v = ucast x"
proof -
  from assms consider
      bs and x :: u8 where "n = 1" "load_bytes m p 1 = Some bs" "x = word_of_le bs" "v = ucast x"
    | bs and x :: u16 where "n = 2" "load_bytes m p 2 = Some bs" "x = word_of_le bs" "v = ucast x"
    | bs and x :: u32 where "n = 4" "load_bytes m p 4 = Some bs" "x = word_of_le bs" "v = ucast x"
    | bs where "n = 8" "load_bytes m p 8 = Some bs" "v = word_of_le bs"
    by (auto simp: read_unsigned_def load_le_def bind_Some_iff simp del: load_le_byte split: if_splits)
  then show thesis
  proof cases
    case (1 bs x)
    then show thesis
      using that [of bs] load_bytes_length [OF 1(2)] le_of_word_inverse [of bs, where 'a = 8]
      by (auto simp: le_of_word_cast(1) [where 'a = 8 and n = "Suc 0"] simp del: le_of_word.simps load_bytes.simps)
  next
    case (2 bs x)
    then show thesis
      using that [of bs] load_bytes_length [OF 2(2)] le_of_word_inverse [of bs, where 'a = 16]
      by (auto simp: le_of_word_cast(1) [where 'a = 16 and n = 2])
  next
    case (3 bs x)
    then show thesis
      using that [of bs] load_bytes_length [OF 3(2)] le_of_word_inverse [of bs, where 'a = 32]
      by (auto simp: le_of_word_cast(1) [where 'a = 32 and n = 4])
  next
    case (4 bs)
    then show thesis
      using that [of bs] load_bytes_length [OF 4(2)] le_of_word_inverse [of bs, where 'a = 64] by auto
  qed
qed

lemma cast_back [simp]:
  "ucast (scast x :: 'b::len word) = (x :: 'a::len word)" "ucast (ucast x :: 'b word) = x"
  if "LENGTH('a) \<le> LENGTH('b)"
  using that by (auto intro!: bit_word_eqI simp: bit_simps dest: bit_imp_le_length)

lemma scast_scast_32 [simp]:
  "scast (ucast (scast (x :: u8) :: u64) :: u32) = (scast x :: u64)"
  "scast (ucast (scast (y :: u16) :: u64) :: u32) = (scast y :: u64)"
proof -
  have "min 7 (min 31 k) = min 7 k" "min 15 (min 31 k) = min 15 k" for k :: nat by simp_all
  then show "scast (ucast (scast (x :: u8) :: u64) :: u32) = (scast x :: u64)"
    "scast (ucast (scast (y :: u16) :: u64) :: u32) = (scast y :: u64)"
    by (auto intro!: bit_word_eqI simp: bit_simps simp flip: min.assoc)
qed

lemma store_signed_same:
  assumes "read_signed m n p = Some (Some v)"
  shows "store_signed n d v = dec_then (dec_store (unat n) d v) (\<lambda>_. dec_return v)"
    and "n \<noteq> 8 \<Longrightarrow> scast (ucast v :: u32) = v"
proof -
  from read_signed_bytes [OF assms] consider
    "n = 8" | x :: u8 where "n = 1" "v = scast x" | x :: u16 where "n = 2" "v = scast x" | x :: u32 where "n = 4" "v = scast x"
    by (metis empty_iff insert_iff)
  then have "store_signed n d v = dec_then (dec_store (unat n) d v) (\<lambda>_. dec_return v) \<and>
      (n \<noteq> 8 \<longrightarrow> scast (ucast v :: u32) = v)"
    by cases (simp_all add: store_signed_def)
  then show "store_signed n d v = dec_then (dec_store (unat n) d v) (\<lambda>_. dec_return v)"
    "n \<noteq> 8 \<Longrightarrow> scast (ucast v :: u32) = v" by auto
qed

lemma store_unsigned_same:
  assumes "read_unsigned m n p = Some (Some v)"
  shows "store_unsigned n d v = dec_then (dec_store (unat n) d v) (\<lambda>_. dec_return v)"
proof -
  from read_unsigned_bytes [OF assms] consider
    "n = 8" | x :: u8 where "n = 1" "v = ucast x" | x :: u16 where "n = 2" "v = ucast x" | x :: u32 where "n = 4" "v = ucast x"
    by (metis empty_iff insert_iff)
  then show ?thesis by cases (simp_all add: store_unsigned_def)
qed

text \<open>The decoders of numbers on what the encoders wrote.\<close>

lemma stored_number:
  assumes "load_bytes m p k = Some bs" "le_of_word k v = bs" "mapped (wd_mem w) d k" "k \<le> 8"
    and "f s w = dec_then (dec_store k d v) (\<lambda>_. dec_return ()) (behind s n) w"
  shows "\<exists>bs. load_bytes m p k = Some bs \<and> stores f s n d bs w"
proof -
  have l: "length bs = k" by (rule load_bytes_length) (rule assms(1))
  show ?thesis
  proof (rule store_there [of w d bs "behind s n"])
    show "mapped (wd_mem w) d (length bs)" "length bs \<le> 2 ^ 64" using assms(3,4) l by simp_all
  next
    fix w'
    assume "dec_store_bytes d bs (behind s n) w = Some (behind s n, w', Some ())" "changes d (length bs) w w'"
      "load_bytes (wd_mem w') d (length bs) = Some bs"
    then show ?thesis
      using assms(1,2,5) by (auto simp: stores_def dec_store_def dec_then_def dec_return_def)
  qed
qed

lemma integer_stored:
  assumes w: "mapped (wd_mem w) d (unat n)" and v: "read_signed m n p = Some (Some v) \<or> read_unsigned m n p = Some (Some v)"
    and f: "f s w = dec_then (dec_store (unat n) d v) (\<lambda>_. dec_return ()) (behind s k) w"
  shows "\<exists>cs. load_bytes m p (unat n) = Some cs \<and> stores f s k d cs w"
proof -
  from v obtain cs where "load_bytes m p (unat n) = Some cs" "le_of_word (unat n) v = cs" "n \<in> {1, 2, 4, 8}"
    by (metis read_signed_bytes read_unsigned_bytes)
  with w f show ?thesis by (intro stored_number) auto
qed

lemma integers_stored:
  assumes w: "mapped (wd_mem w) d (unat (fld_data_size f))" and a: "at_bytes s w bs"
  shows "wire_int (read_signed m (fld_data_size f) p) unat = Some bs \<Longrightarrow>
      \<exists>cs. load_bytes m p (unat (fld_data_size f)) = Some cs \<and> stores (pb_dec_varint E f d) s (length bs) d cs w"
    and "wire_int (read_unsigned m (fld_data_size f) p) unat = Some bs \<Longrightarrow>
      \<exists>cs. load_bytes m p (unat (fld_data_size f)) = Some cs \<and> stores (pb_dec_uvarint E f d) s (length bs) d cs w"
    and "wire_int (read_signed m (fld_data_size f) p) (\<lambda>v. zigzag (sint v)) = Some bs \<Longrightarrow>
      \<exists>cs. load_bytes m p (unat (fld_data_size f)) = Some cs \<and> stores (pb_dec_svarint E f d) s (length bs) d cs w"
proof -
  let ?n = "fld_data_size f"
  show "\<exists>cs. load_bytes m p (unat ?n) = Some cs \<and> stores (pb_dec_varint E f d) s (length bs) d cs w"
    if i: "wire_int (read_signed m ?n p) unat = Some bs"
  proof -
    from i obtain v where v: "read_signed m ?n p = Some (Some v)" and bs: "bs = uleb_bytes (unat v)"
      by (auto simp: wire_int_def bind_Some_iff)
    have dec: "pb_decode_varint E s w = Some (behind s (length bs), w, Some v)"
      using decode_varint_at a unfolding bs by blast
    have "(if ?n = 8 then v else scast (ucast v :: u32)) = v" using store_signed_same(2) [OF v] by auto
    then have "pb_dec_varint E f d s w = dec_then (dec_store (unat ?n) d v) (\<lambda>_. dec_return ()) (behind s (length bs)) w"
      by (simp add: pb_dec_varint_def dec_then_def [of "pb_decode_varint E"] dec store_signed_same(1) [OF v] Let_def)
        (simp add: dec_then_def dec_store_def dec_store_bytes_def dec_return_def bind_Some_iff split: option.splits)
    with w v show ?thesis by (intro integer_stored) auto
  qed
  show "\<exists>cs. load_bytes m p (unat ?n) = Some cs \<and> stores (pb_dec_uvarint E f d) s (length bs) d cs w"
    if i: "wire_int (read_unsigned m ?n p) unat = Some bs"
  proof -
    from i obtain v where v: "read_unsigned m ?n p = Some (Some v)" and bs: "bs = uleb_bytes (unat v)"
      by (auto simp: wire_int_def bind_Some_iff)
    have dec: "pb_decode_varint E s w = Some (behind s (length bs), w, Some v)"
      using decode_varint_at a unfolding bs by blast
    have "pb_dec_uvarint E f d s w = dec_then (dec_store (unat ?n) d v) (\<lambda>_. dec_return ()) (behind s (length bs)) w"
      by (simp add: pb_dec_uvarint_def dec_then_def [of "pb_decode_varint E"] dec store_unsigned_same [OF v])
        (simp add: dec_then_def dec_store_def dec_store_bytes_def dec_return_def bind_Some_iff split: option.splits)
    with w v show ?thesis by (intro integer_stored) auto
  qed
  show "\<exists>cs. load_bytes m p (unat ?n) = Some cs \<and> stores (pb_dec_svarint E f d) s (length bs) d cs w"
    if i: "wire_int (read_signed m ?n p) (\<lambda>v. zigzag (sint v)) = Some bs"
  proof -
    from i obtain v where v: "read_signed m ?n p = Some (Some v)" and bs: "bs = uleb_bytes (zigzag (sint v))"
      by (auto simp: wire_int_def bind_Some_iff)
    have dec: "pb_decode_svarint E s w = Some (behind s (length bs), w, Some v)"
      using decode_svarint_at a unfolding bs by blast
    have "pb_dec_svarint E f d s w = dec_then (dec_store (unat ?n) d v) (\<lambda>_. dec_return ()) (behind s (length bs)) w"
      by (simp add: pb_dec_svarint_def dec_then_def [of "pb_decode_svarint E"] dec store_signed_same(1) [OF v])
        (simp add: dec_then_def dec_store_def dec_store_bytes_def dec_return_def bind_Some_iff split: option.splits)
    with w v show ?thesis by (intro integer_stored) auto
  qed
qed

lemma bool_stored:
  assumes a: "at_bytes s w [if b \<noteq> 0 then 1 else 0 :: u8]" and w: "mapped (wd_mem w) d 1"
  shows "stores (pb_dec_bool E f d) s 1 d [if b \<noteq> (0 :: u8) then 1 else 0] w"
proof (rule stores_bytes)
  show "mapped (wd_mem w) d (length [if b \<noteq> 0 then 1 else 0 :: u8])" using w by simp
  show "pb_decode_varint32 E s w = Some (behind s 1, w, Some (of_nat (if b \<noteq> 0 then 1 else 0)))"
    using decode_varint32_at(2) [of s w "if b \<noteq> 0 then 1 else 0" E] a by (simp add: uleb_bytes_small split: if_splits)
  then show "pb_dec_bool E f d s w = dec_store_bytes d [if b \<noteq> 0 then 1 else 0] (behind s 1) w"
    by (simp add: pb_dec_bool_def dec_then_def)
qed simp

lemma fixed32_stored:
  assumes bs: "load_bytes m p 4 = Some bs" and a: "at_bytes s w bs" and w: "mapped (wd_mem w) d 4"
  shows "stores (pb_dec_fixed32 E f d) s (length bs) d bs w"
proof -
  have n: "length bs = 4" using bs by (rule load_bytes_length)
  then obtain b0 b1 b2 b3 where b: "bs = [b0, b1, b2, b3]" by (auto simp: numeral_eq_Suc length_Suc_conv)
  have "push_bit 0 (ucast b0) OR push_bit 8 (ucast b1) OR push_bit 16 (ucast b2) OR push_bit 24 (ucast b3) =
      (word_of_le bs :: u32)"
    by (simp add: b push_bit_or or.assoc)
  moreover have "le_of_word 4 (word_of_le bs :: u32) = bs"
    using le_of_word_inverse [of bs, where 'a = 32] n by simp
  ultimately have le: "le_of_word 4 (push_bit 0 (ucast b0) OR push_bit 8 (ucast b1) OR push_bit 16 (ucast b2) OR
      push_bit 24 (ucast b3) :: u32) = bs" by simp
  have r: "pb_read E Dest_local 4 s w = Some (behind s (length bs), w, Some bs)"
    using read_at(1) [OF a, of 4 E] n by simp
  have "pb_dec_fixed32 E f d s w = dec_store_bytes d bs (behind s (length bs)) w"
    unfolding pb_dec_fixed32_def pb_decode_fixed32_def dec_then_def [of "pb_read E Dest_local 4"] r
    using le by (simp add: b dec_store_def)
  with r w n show ?thesis by (intro stores_bytes) auto
qed

lemma fixed64_stored:
  assumes bs: "load_bytes m p 8 = Some bs" and a: "at_bytes s w bs" and w: "mapped (wd_mem w) d 8"
  shows "stores (pb_dec_fixed64 E f d) s (length bs) d bs w"
proof -
  have n: "length bs = 8" using bs by (rule load_bytes_length)
  then obtain b0 b1 b2 b3 b4 b5 b6 b7 where b: "bs = [b0, b1, b2, b3, b4, b5, b6, b7]"
    by (auto simp: numeral_eq_Suc length_Suc_conv)
  have "push_bit 0 (ucast b0) OR push_bit 8 (ucast b1) OR push_bit 16 (ucast b2) OR push_bit 24 (ucast b3) OR
      push_bit 32 (ucast b4) OR push_bit 40 (ucast b5) OR push_bit 48 (ucast b6) OR push_bit 56 (ucast b7) =
      (word_of_le bs :: u64)"
    by (simp add: b push_bit_or or.assoc)
  moreover have "le_of_word 8 (word_of_le bs :: u64) = bs"
    using le_of_word_inverse [of bs, where 'a = 64] n by simp
  ultimately have le: "le_of_word 8 (push_bit 0 (ucast b0) OR push_bit 8 (ucast b1) OR push_bit 16 (ucast b2) OR
      push_bit 24 (ucast b3) OR push_bit 32 (ucast b4) OR push_bit 40 (ucast b5) OR push_bit 48 (ucast b6) OR
      push_bit 56 (ucast b7) :: u64) = bs" by simp
  have r: "pb_read E Dest_local 8 s w = Some (behind s (length bs), w, Some bs)"
    using read_at(1) [OF a, of 8 E] n by simp
  have "pb_dec_fixed64 E f d s w = dec_store_bytes d bs (behind s (length bs)) w"
    unfolding pb_dec_fixed64_def pb_decode_fixed64_def dec_then_def [of "pb_read E Dest_local 8"] r
    using le by (simp add: b dec_store_def)
  with r w n show ?thesis by (intro stores_bytes) auto
qed

text \<open>A read into memory.\<close>

lemma read_mem_at:
  assumes a: "at_bytes s w bs" and n: "unat count = length bs" and m: "mapped (wd_mem w) d (length bs)"
  obtains w' where "pb_read E (Dest_mem d) count s w = Some (behind s (length bs), w', Some bs)"
    "changes d (length bs) w w'" "load_bytes (wd_mem w') d (length bs) = Some bs"
proof -
  from n have c: "count = of_nat (length bs)" by (simp flip: n)
  have le: "\<not> is_bytes_left s < count" using a n by (simp add: at_bytes_def word_less_nat_alt)
  have z: "bs = []" if "count = 0" using that n by simp
  have l64: "length bs \<le> 2 ^ 64" using n unsigned_less [of count, where 'a = nat] by simp
  obtain w' where w': "wd_store_bytes d bs w = Some w'" "changes d (length bs) w w'"
      "load_bytes (wd_mem w') d (length bs) = Some bs"
    using m l64 by (rule store_there)
  have "pb_read E (Dest_mem d) count s w = Some (behind s (length bs), w', Some bs)"
  proof (cases "bs = []")
    case True
    with c w'(1) show ?thesis by (auto simp: wd_store_bytes_def pb_read_def)
  next
    case False
    from w'(1) obtain mm where "store_bytes (wd_mem w) d bs = Some mm" "w' = w\<lparr>wd_mem := mm\<rparr>"
      by (auto simp: wd_store_bytes_def bind_Some_iff)
    with False a le n show ?thesis
      by (auto simp: pb_read_def read_some_def call_read_def buf_read_def at_bytes_def behind_def c)
  qed
  with w' show thesis by (intro that) auto
qed

lemma counted_at:
  assumes a: "at_bytes s w (counted bs)" and n: "length bs < 2 ^ 32"
  shows "pb_decode_varint32 E s w = Some (behind s (length (uleb_bytes (length bs))), w, Some (of_nat (length bs)))"
    and "at_bytes (behind s (length (uleb_bytes (length bs)))) w bs"
    and "unat (of_nat (length bs) :: u32) = length bs"
  using at_bytes_append [OF a [unfolded counted_def]] n decode_varint32_at(2) [of s w "length bs" E]
  by (simp_all add: unat_of_nat)

lemma fixed_length_stored:
  assumes bs: "load_bytes m p (unat (fld_data_size f)) = Some bs" and a: "at_bytes s w (counted bs)"
    and w: "mapped (wd_mem w) d (unat (fld_data_size f))"
  shows "stores (pb_dec_fixed_length_bytes E f d) s (length (counted bs)) d bs w"
proof -
  let ?n = "fld_data_size f" and ?k = "length (uleb_bytes (length bs))"
  have n: "length bs = unat ?n" using bs by (rule load_bytes_length)
  have "length bs < 2 ^ 32" using n unsigned_less [of ?n, where 'a = nat] by simp
  note c = counted_at [OF a this]
  have v: "pb_decode_varint32 E s w = Some (behind s ?k, w, Some ?n)" using c(1) [of E] n by simp
  have max: "\<not> PB_SIZE_MAX < ?n"
    using unsigned_less [of ?n, where 'a = nat] by (simp add: PB_SIZE_MAX_def word_less_nat_alt)
  show ?thesis
  proof (cases "?n = 0")
    case True
    with n have "bs = []" by simp
    with True v max show ?thesis
      by (auto simp: stores_def pb_dec_fixed_length_bytes_def dec_then_def dec_store_bytes_def counted_def)
  next
    case False
    have "unat (ucast ?n :: u64) = length bs" using n by (simp add: ucast_u32(2))
    from read_mem_at [OF c(2) this, of d E] w n obtain w' where
      "pb_read E (Dest_mem d) (ucast ?n) (behind s ?k) w = Some (behind (behind s ?k) (length bs), w', Some bs)"
      "changes d (length bs) w w'" "load_bytes (wd_mem w') d (length bs) = Some bs" by auto
    with False v max show ?thesis
      by (auto simp: stores_def pb_dec_fixed_length_bytes_def dec_then_def dec_return_def counted_def)
  qed
qed


lemma changes_block_append:
  assumes "changes d k w w1" "changes (d + of_nat k) j w1 w2" "k + j < 2 ^ 64"
  shows "changes d (k + j) w w2"
proof (rule changes_trans)
  have "in_block d (k + j) x" if "in_block (d + of_nat k) j x" for x
  proof -
    from that have "unat (x - (d + of_nat k)) < j" by (simp add: in_block_def)
    moreover have "unat (x - d) \<le> unat (x - (d + of_nat k)) + unat (of_nat k :: u64)"
    proof -
      have "x - d = (x - (d + of_nat k)) + of_nat k" by (simp add: diff_diff_eq)
      moreover have "unat (y + z) \<le> unat y + unat z" for y z :: u64 by (simp add: unat_word_ariths)
      ultimately show ?thesis by metis
    qed
    moreover have "unat (of_nat k :: u64) = k" using assms(3) by (simp add: unat_of_nat)
    ultimately show ?thesis by (simp add: in_block_def)
  qed
  with assms(2) show "changes d (k + j) w1 w2" by (rule changes_within)
  show "changes d (k + j) w w1" using assms(1) by (rule changes_within) (simp add: in_block_def)
qed

lemma string_stored:
  assumes k: "pb_strnlen m p (unat (fld_data_size f)) = Some k" and bs: "load_bytes m p k = Some bs"
    and less: "k < unat (fld_data_size f)" and st: "PB_ATYPE (fld_type f) \<noteq> PB_ATYPE_POINTER"
    and a: "at_bytes s w (counted bs)" and w: "mapped (wd_mem w) d (unat (fld_data_size f))"
  shows "stores (pb_dec_string E f d) s (length (counted bs)) d (bs @ [0]) w"
proof -
  let ?k = "length (uleb_bytes (length bs))"
  have n: "length bs = k" using bs by (rule load_bytes_length)
  have k32: "k + 1 < 2 ^ 32" using less unsigned_less [of "fld_data_size f", where 'a = nat] by simp
  have n32: "length bs < 2 ^ 32" using k32 n by simp
  note c = counted_at [OF a n32]
  have u: "unat (of_nat (k + 1) :: u32) = k + 1" using k32 unfolding unat_of_nat by simp
  have "(of_nat k :: u32) + 1 = of_nat (k + 1)" by simp
  then have size: "unat (ucast ((of_nat k :: u32) + 1) :: u64) = k + 1"
    using u by (simp only: ucast_u32(2))
  have uk: "unat (ucast (of_nat k :: u32) :: u64) = k" using k32 by (simp add: ucast_u32(2) unat_of_nat)
  have fits: "\<not> (ucast ((of_nat k :: u32) + 1) :: u64) < ucast (of_nat k :: u32)"
      "\<not> ucast (fld_data_size f) < (ucast ((of_nat k :: u32) + 1) :: u64)"
    using size uk less by (simp_all add: word_less_nat_alt ucast_u32(2) del: of_nat_Suc)
  have m: "mapped (wd_mem w) d (k + 1)"
    using w less by (auto simp: mapped_def)
  then have md: "mapped (wd_mem w) d (length bs)" and m1: "mapped (wd_mem w) (d + of_nat k) 1"
    using n by (auto simp: mapped_def)
  have "unat (ucast (of_nat k :: u32) :: u64) = length bs" using uk n by simp
  from read_mem_at [OF c(2) this md, of E] obtain w1 where
    w1: "pb_read E (Dest_mem d) (ucast (of_nat k :: u32)) (behind s ?k) w = Some (behind (behind s ?k) (length bs), w1, Some bs)"
      "changes d (length bs) w w1" "load_bytes (wd_mem w1) d (length bs) = Some bs" by blast
  have d: "d + ucast (of_nat k :: u32) = d + of_nat k" using uk by (metis of_nat_unat ucast_id)
  have "mapped (wd_mem w1) (d + of_nat k) (length [0 :: u8])" using m1 changes_mapped [OF w1(2)] by simp
  then obtain w2 where w2: "wd_store_bytes (d + of_nat k) [0] w1 = Some w2" "changes (d + of_nat k) (length [0 :: u8]) w1 w2"
      "load_bytes (wd_mem w2) (d + of_nat k) (length [0 :: u8]) = Some [0]"
    by (rule store_there) simp_all
  have "load_bytes (wd_mem w2) d (length bs) = Some bs"
  proof -
    have "disjoint_blocks (d + of_nat k) 1 d k"
      using k32 by (auto simp: disjoint_blocks_def in_block_def unsigned_eq_0_iff unat_of_nat)
    with changes_load [OF w2(2), of k d] w1(3) n k32 show ?thesis by simp
  qed
  with w2(3) n have "load_bytes (wd_mem w2) d (k + 1) = Some (bs @ [0])"
    unfolding load_bytes_append by (simp del: load_bytes.simps(2))
  moreover have "changes d (k + 1) w w2"
    using changes_block_append [OF w1(2), of 1 w2] w2(2) n k32 by simp
  moreover have "pb_dec_string E f d s w = Some (behind s (length (counted bs)), w2, Some ())"
    using c(1) [of E] st fits w1(1) w2(1) n
    by (simp add: pb_dec_string_def dest_or_alloc_def dec_then_def dec_return_def Let_def d counted_def)
  ultimately show ?thesis using n by (auto simp: stores_def)
qed

subsection \<open>The same value in two structures\<close>

definition same_value :: "(addr \<Rightarrow> addr \<Rightarrow> addr \<Rightarrow> bool) \<Rightarrow> mem \<Rightarrow> mem \<Rightarrow> pb_field_t \<Rightarrow> addr \<Rightarrow> addr \<Rightarrow> bool" where
  "same_value sub m m' f p d =
     (let l = PB_LTYPE (fld_type f); n = unat (fld_data_size f) in
      if l = PB_LTYPE_SUBMESSAGE then sub (fld_ptr f) p d
      else if l = PB_LTYPE_BOOL then
        (case (m p, m' d) of (Some a, Some b) \<Rightarrow> b = (if a \<noteq> 0 then 1 else 0) | _ \<Rightarrow> False)
      else if l = PB_LTYPE_STRING then
        (case pb_strnlen m p n of
           None \<Rightarrow> False
         | Some k \<Rightarrow> k < n \<and> load_bytes m p k \<noteq> None \<and>
             load_bytes m' d (k + 1) = map_option (\<lambda>bs. bs @ [0]) (load_bytes m p k))
      else load_bytes m p n \<noteq> None \<and> load_bytes m' d n = load_bytes m p n)"

definition plain_value :: "pb_field_t \<Rightarrow> bool" where
  "plain_value f \<longleftrightarrow>
     (let l = PB_LTYPE (fld_type f); n = fld_data_size f in
      l = PB_LTYPE_BOOL \<and> n = 1 \<or>
      l \<in> {PB_LTYPE_VARINT, PB_LTYPE_UVARINT, PB_LTYPE_SVARINT} \<and> n \<in> {1, 2, 4, 8} \<or>
      l = PB_LTYPE_FIXED32 \<and> n = 4 \<or> l = PB_LTYPE_FIXED64 \<and> n = 8 \<or>
      l \<in> {PB_LTYPE_STRING, PB_LTYPE_FIXED_LENGTH_BYTES, PB_LTYPE_SUBMESSAGE})"

text \<open>The source of a string is terminated inside its array; the encoder would also accept one that fills it,
  which the decoder rejects.\<close>

definition terminated :: "mem \<Rightarrow> pb_field_t \<Rightarrow> addr \<Rightarrow> bool" where
  "terminated m f p \<longleftrightarrow>
     (PB_LTYPE (fld_type f) = PB_LTYPE_STRING \<longrightarrow> p \<noteq> 0 \<and>
       (case pb_strnlen m p (unat (fld_data_size f)) of None \<Rightarrow> False | Some k \<Rightarrow> k < unat (fld_data_size f)))"

definition restores ::
  "(mem \<Rightarrow> addr \<Rightarrow> addr \<Rightarrow> addr \<Rightarrow> bool) \<Rightarrow> mem \<Rightarrow> pb_field_t \<Rightarrow> addr \<Rightarrow> unit dec \<Rightarrow> pb_istream_t \<Rightarrow> nat \<Rightarrow> addr \<Rightarrow>
     pb_world \<Rightarrow> bool" where
  "restores S m f p g s n d w \<longleftrightarrow> (\<exists>w'. g s w = Some (behind s n, w', Some ()) \<and>
     changes d (unat (fld_data_size f)) w w' \<and> same_value (S (wd_mem w')) m (wd_mem w') f p d)"

lemma stores_restores:
  assumes "stores g s n d cs w" "length cs \<le> unat (fld_data_size f)"
    and "\<And>w' :: pb_world. load_bytes (wd_mem w') d (length cs) = Some cs \<Longrightarrow> same_value (S (wd_mem w')) m (wd_mem w') f p d"
  shows "restores S m f p g s n d w"
proof -
  from assms(1) obtain w' where w': "g s w = Some (behind s n, w', Some ())" "changes d (length cs) w w'"
    "load_bytes (wd_mem w') d (length cs) = Some cs" by (auto simp: stores_def)
  have "changes d (unat (fld_data_size f)) w w'"
    using w'(2) by (rule changes_within) (rule in_block_mono [OF _ assms(2)])
  with w'(1) assms(3) [OF w'(3)] show ?thesis by (auto simp: restores_def)
qed

lemma value_restored:
  assumes v: "wire_value sub m f p = Some bs" and plain: "plain_value f" and t: "terminated m f p"
    and st: "PB_ATYPE (fld_type f) = PB_ATYPE_STATIC" and no_sub: "PB_LTYPE (fld_type f) \<noteq> PB_LTYPE_SUBMESSAGE"
    and func: "PB_DECODERS subs E (PB_LTYPE (fld_type f)) = Some func"
    and a: "at_bytes s w bs" and w: "mapped (wd_mem w) d (unat (fld_data_size f))"
  shows "restores S m f p (func f d) s (length bs) d w"
proof -
  let ?l = "PB_LTYPE (fld_type f)" and ?n = "fld_data_size f"
  have same: "restores S m f p (func f d) s (length bs) d w"
    if "load_bytes m p (unat ?n) = Some cs" "stores (func f d) s (length bs) d cs w"
      "?l \<noteq> PB_LTYPE_BOOL" "?l \<noteq> PB_LTYPE_STRING" for cs
    using that(2)
  proof (rule stores_restores)
    show "length cs \<le> unat ?n" using load_bytes_length [OF that(1)] by simp
  qed (use that no_sub load_bytes_length [OF that(1)] in \<open>simp add: same_value_def Let_def\<close>)
  consider (bool) "?l = PB_LTYPE_BOOL" "?n = 1" | (varint) "?l = PB_LTYPE_VARINT" | (uvarint) "?l = PB_LTYPE_UVARINT"
    | (svarint) "?l = PB_LTYPE_SVARINT" | (fixed32) "?l = PB_LTYPE_FIXED32" "?n = 4"
    | (fixed64) "?l = PB_LTYPE_FIXED64" "?n = 8" | (string) "?l = PB_LTYPE_STRING"
    | (bytes) "?l = PB_LTYPE_FIXED_LENGTH_BYTES"
    using plain no_sub by (auto simp: plain_value_def Let_def)
  then show ?thesis
  proof cases
    case bool
    with v obtain b where b: "m p = Some b" "bs = [if b \<noteq> 0 then 1 else 0]"
      by (auto simp: wire_value_def bind_Some_iff)
    have fn: "func = pb_dec_bool E" using func bool by (simp add: PB_DECODERS_def)
    have "stores (func f d) s (length bs) d [if b \<noteq> 0 then 1 else 0] w"
      using bool_stored [of s w b d E f] a b w bool fn by simp
    then show ?thesis
    proof (rule stores_restores)
      fix w' :: pb_world
      assume "load_bytes (wd_mem w') d (length [if b \<noteq> 0 then 1 else 0 :: u8]) = Some [if b \<noteq> 0 then 1 else 0]"
      then have "wd_mem w' d = Some (if b \<noteq> 0 then 1 else 0)" by (auto simp: bind_Some_iff)
      with bool b no_sub show "same_value (S (wd_mem w')) m (wd_mem w') f p d" by (simp add: same_value_def Let_def)
    qed (simp add: bool)
  next
    case varint
    then have "wire_int (read_signed m ?n p) unat = Some bs" "func = pb_dec_varint E"
      using v func by (simp_all add: wire_value_def PB_DECODERS_def ltypes)
    with integers_stored(1) [OF w a] same varint show ?thesis by (auto simp: ltypes)
  next
    case uvarint
    then have "wire_int (read_unsigned m ?n p) unat = Some bs" "func = pb_dec_uvarint E"
      using v func by (simp_all add: wire_value_def PB_DECODERS_def ltypes)
    with integers_stored(2) [OF w a] same uvarint show ?thesis by (auto simp: ltypes)
  next
    case svarint
    then have "wire_int (read_signed m ?n p) (\<lambda>v. zigzag (sint v)) = Some bs" "func = pb_dec_svarint E"
      using v func by (simp_all add: wire_value_def PB_DECODERS_def ltypes)
    with integers_stored(3) [OF w a] same svarint show ?thesis by (auto simp: ltypes)
  next
    case fixed32
    then have b: "load_bytes m p 4 = Some bs" and "func = pb_dec_fixed32 E"
      using v func by (simp_all add: wire_value_def PB_DECODERS_def ltypes)
    with fixed32_stored [OF b a] same [of bs] fixed32 w show ?thesis by (auto simp: ltypes)
  next
    case fixed64
    then have b: "load_bytes m p 8 = Some bs" and "func = pb_dec_fixed64 E"
      using v func by (simp_all add: wire_value_def PB_DECODERS_def ltypes)
    with fixed64_stored [OF b a] same [of bs] fixed64 w show ?thesis by (auto simp: ltypes)
  next
    case string
    from t string obtain k where k: "pb_strnlen m p (unat ?n) = Some k" "k < unat ?n" "p \<noteq> 0"
      by (auto simp: terminated_def split: option.splits)
    have "wire_string m f p = Some bs" "func = pb_dec_string E"
      using v func string by (simp_all add: wire_value_def PB_DECODERS_def ltypes)
    with k st obtain cs where cs: "load_bytes m p k = Some cs" "bs = counted cs"
      by (auto simp: wire_string_def bind_Some_iff)
    have "stores (func f d) s (length bs) d (cs @ [0]) w"
      using string_stored [OF k(1) cs(1) k(2) _ _ w, of s E] a st cs \<open>func = pb_dec_string E\<close> by simp
    then show ?thesis
    proof (rule stores_restores)
      show "length (cs @ [0]) \<le> unat ?n" using load_bytes_length [OF cs(1)] k(2) by simp
    qed (use string k(1,2) cs(1) load_bytes_length [OF cs(1)] in \<open>simp add: same_value_def Let_def ltypes\<close>)
  next
    case bytes
    then obtain cs where cs: "load_bytes m p (unat ?n) = Some cs" "bs = counted cs" and fn: "func = pb_dec_fixed_length_bytes E"
      using v func by (auto simp: wire_value_def PB_DECODERS_def ltypes bind_Some_iff)
    with fixed_length_stored [OF cs(1) _ w] a same [of cs] bytes show ?thesis by (auto simp: ltypes)
  qed
qed

lemma submessage_restored:
  assumes a: "at_bytes s w (counted bs)" and n: "length bs < 2 ^ 32"
    and ptr: "fld_ptr f \<noteq> 0" and req: "PB_HTYPE (fld_type f) \<noteq> PB_HTYPE_REPEATED"
    and l: "PB_LTYPE (fld_type f) = PB_LTYPE_SUBMESSAGE"
    and inner: "\<And>t. at_bytes t w bs \<Longrightarrow> unat (is_bytes_left t) = length bs \<Longrightarrow>
      is_state t = is_state s + of_nat (length (uleb_bytes (length bs))) \<Longrightarrow> \<exists>w'.
      fst subs (fld_ptr f) d t w = Some (behind t (length bs), w', Some ()) \<and>
      changes d (unat (fld_data_size f)) w w' \<and> S (wd_mem w') (fld_ptr f) p d"
  shows "restores S m f p (pb_dec_submessage subs E f d) s (length (counted bs)) d w"
proof -
  let ?k = "length (uleb_bytes (length bs))"
  let ?s = "behind s ?k"
  note c = counted_at [OF a n]
  define t where "t = ?s\<lparr>is_bytes_left := of_nat (length bs)\<rparr>"
  have len: "unat (of_nat (length bs) :: u64) = length bs" using n by (simp add: unat_of_nat)
  have u: "(ucast (of_nat (length bs) :: u32) :: u64) = of_nat (length bs)"
    using c(3) len by (metis ucast_u32(2) unsigned_word_eqI)
  have le: "\<not> is_bytes_left ?s < of_nat (length bs)"
    using c(2) len by (simp add: at_bytes_def word_less_nat_alt)
  have mk: "pb_make_string_substream E s w =
      Some (?s\<lparr>is_bytes_left := is_bytes_left ?s - of_nat (length bs)\<rparr>, w, Some t)"
    using c(1) [of E] le by (simp add: pb_make_string_substream_def dec_then_def u t_def Let_def)
  have "at_bytes t w bs" using c(2) len by (simp add: at_bytes_def t_def)
  from inner [OF this] len obtain w' where w': "fst subs (fld_ptr f) d t w = Some (behind t (length bs), w', Some ())"
    "changes d (unat (fld_data_size f)) w w'" "S (wd_mem w') (fld_ptr f) p d" by (auto simp: t_def)
  have left: "is_bytes_left (behind t (length bs)) = 0" by (simp add: behind_def t_def)
  have "pb_dec_submessage subs E f d s w = Some (behind s (length (counted bs)), w', Some ())"
    using ptr req mk w'(1) left
    by (simp add: pb_dec_submessage_def dec_then_def then_close_def on_substream_def pb_close_string_substream_def)
      (simp add: behind_def t_def counted_def diff_diff_eq)
  with w' l show ?thesis by (auto simp: restores_def same_value_def Let_def)
qed

subsection \<open>Plain messages\<close>

definition has_flag :: "pb_field_t \<Rightarrow> bool" where
  "has_flag f \<longleftrightarrow> PB_HTYPE (fld_type f) = PB_HTYPE_OPTIONAL \<and> fld_size_offset f \<noteq> 0"

text \<open>The fields stored in the structure itself.  A field without a flag has zero as its default.\<close>

definition plain_field :: "pb_field_t \<Rightarrow> bool" where
  "plain_field f \<longleftrightarrow> PB_ATYPE (fld_type f) = PB_ATYPE_STATIC \<and>
     PB_HTYPE (fld_type f) \<in> {PB_HTYPE_REQUIRED, PB_HTYPE_OPTIONAL} \<and> plain_value f \<and>
     0 < fld_tag f \<and> unat (fld_tag f) < 2 ^ 29 \<and>
     (if PB_LTYPE (fld_type f) = PB_LTYPE_SUBMESSAGE
      then fld_ptr f \<noteq> 0 \<and> (has_flag f \<or> PB_HTYPE (fld_type f) = PB_HTYPE_REQUIRED)
      else fld_ptr f = 0)"

text \<open>Where the fields are in the structure, as offsets and sizes: inside, and apart from each other.\<close>

definition blocks_of :: "pb_field_t list \<Rightarrow> nat \<Rightarrow> (addr \<times> nat) list" where
  "blocks_of body i = (data_at body 0 i, unat (fld_data_size (body ! i))) #
     (if has_flag (body ! i) then [(size_at body 0 i, 1)] else [])"

definition apart :: "addr \<times> nat \<Rightarrow> addr \<times> nat \<Rightarrow> bool" where
  "apart r q \<longleftrightarrow> unat (fst r) + snd r \<le> unat (fst q) \<or> unat (fst q) + snd q \<le> unat (fst r)"

definition layout :: "pb_field_t list \<Rightarrow> nat \<Rightarrow> bool" where
  "layout body sz \<longleftrightarrow> sz < 2 ^ 64 \<and> (\<forall>i \<in> set [0..<length body].
     sorted_wrt apart (blocks_of body i) \<and>
     (\<forall>r \<in> set (blocks_of body i). unat (fst r) + snd r \<le> sz \<and>
        (\<forall>j \<in> set [0..<i]. \<forall>q \<in> set (blocks_of body j). apart q r)))"

fun plain_message :: "nat \<Rightarrow> pb_tables \<Rightarrow> addr \<Rightarrow> nat \<Rightarrow> bool" where
  "plain_message 0 T flds sz = False"
| "plain_message (Suc n) T flds sz =
     (case table_fields T flds of
        None \<Rightarrow> False
      | Some body \<Rightarrow> layout body sz \<and> distinct (map fld_tag body) \<and> length body < 2 ^ 32 \<and>
          list_all (\<lambda>f. plain_field f \<and>
            (PB_LTYPE (fld_type f) = PB_LTYPE_SUBMESSAGE \<longrightarrow>
               plain_message n T (fld_ptr f) (unat (fld_data_size f)))) body)"

text \<open>The comparison of two messages: the flags agree, and where they are set the values do.\<close>

definition same_field ::
  "(addr \<Rightarrow> addr \<Rightarrow> addr \<Rightarrow> bool) \<Rightarrow> mem \<Rightarrow> mem \<Rightarrow> pb_field_t list \<Rightarrow> addr \<Rightarrow> addr \<Rightarrow> nat \<Rightarrow> bool" where
  "same_field sub m m' body p d i =
     (let f = body ! i; same = same_value sub m m' f (data_at body p i) (data_at body d i) in
      if has_flag f then
        (case (safe_read_bool m (size_at body p i), safe_read_bool m' (size_at body d i)) of
           (Some a, Some b) \<Rightarrow> a = b \<and> (a \<longrightarrow> same)
         | _ \<Rightarrow> False)
      else same)"

fun same_message :: "nat \<Rightarrow> pb_tables \<Rightarrow> mem \<Rightarrow> mem \<Rightarrow> addr \<Rightarrow> addr \<Rightarrow> addr \<Rightarrow> bool" where
  "same_message 0 T m m' flds p d = False"
| "same_message (Suc n) T m m' flds p d =
     (case table_fields T flds of
        None \<Rightarrow> False
      | Some body \<Rightarrow> list_all (same_field (same_message n T m m') m m' body p d) [0..<length body])"

text \<open>The strings of the source end in their arrays.\<close>

fun terminated_message :: "nat \<Rightarrow> pb_tables \<Rightarrow> mem \<Rightarrow> addr \<Rightarrow> addr \<Rightarrow> bool" where
  "terminated_message 0 T m flds p = False"
| "terminated_message (Suc n) T m flds p =
     (case table_fields T flds of
        None \<Rightarrow> False
      | Some body \<Rightarrow> list_all (\<lambda>i.
          has_flag (body ! i) \<and> safe_read_bool m (size_at body p i) = Some False \<or>
          terminated m (body ! i) (data_at body p i) \<and>
          (PB_LTYPE (fld_type (body ! i)) = PB_LTYPE_SUBMESSAGE \<longrightarrow>
             terminated_message n T m (fld_ptr (body ! i)) (data_at body p i))) [0..<length body])"

text \<open>A structure as \<open>pb_message_set_to_defaults\<close> leaves it.\<close>

definition cleared_field :: "(addr \<Rightarrow> addr \<Rightarrow> bool) \<Rightarrow> mem \<Rightarrow> pb_field_t list \<Rightarrow> addr \<Rightarrow> nat \<Rightarrow> bool" where
  "cleared_field sub m body d i \<longleftrightarrow>
     (let f = body ! i; n = unat (fld_data_size f) in
      (has_flag f \<longrightarrow> m (size_at body d i) = Some 0) \<and>
      (if PB_LTYPE (fld_type f) = PB_LTYPE_SUBMESSAGE then sub (fld_ptr f) (data_at body d i)
       else load_bytes m (data_at body d i) n = Some (replicate n 0)))"

fun cleared_message :: "nat \<Rightarrow> pb_tables \<Rightarrow> mem \<Rightarrow> addr \<Rightarrow> addr \<Rightarrow> bool" where
  "cleared_message 0 T m flds d = False"
| "cleared_message (Suc n) T m flds d =
     (case table_fields T flds of
        None \<Rightarrow> False
      | Some body \<Rightarrow> list_all (cleared_field (cleared_message n T m) m body d) [0..<length body])"

subsection \<open>The place of a field\<close>

definition field_region :: "pb_field_t list \<Rightarrow> addr \<Rightarrow> nat \<Rightarrow> addr \<Rightarrow> bool" where
  "field_region body d i x \<longleftrightarrow> in_block (data_at body d i) (unat (fld_data_size (body ! i))) x \<or>
     (has_flag (body ! i) \<and> x = size_at body d i)"

lemma data_at_shift: "data_at body d i = d + data_at body 0 i"
  by (induction i) (simp_all add: add.assoc)

lemma size_at_shift: "size_at body d i = d + size_at body 0 i"
proof (induction i)
  case 0
  then show ?case by (simp add: add.assoc)
next
  case (Suc i)
  then show ?case using data_at_shift [of body d "Suc i"] by (simp add: add.assoc del: data_at.simps)
qed

lemma in_block_shift:
  assumes "unat off + n < 2 ^ 64"
  shows "in_block (d + off) n x \<longleftrightarrow> unat off \<le> unat (x - d) \<and> unat (x - d) < unat off + n"
proof -
  have e: "x - (d + off) = (x - d) - off" by (simp add: diff_diff_eq)
  show ?thesis
  proof (cases "unat off \<le> unat (x - d)")
    case True
    then show ?thesis unfolding in_block_def e by (auto simp: unat_sub_if')
  next
    case False
    then show ?thesis using assms unfolding in_block_def e by (simp add: unat_sub_if')
  qed
qed

lemma layoutD:
  assumes "layout body sz" "i < length body"
  shows "sz < 2 ^ 64" "sorted_wrt apart (blocks_of body i)"
    "r \<in> set (blocks_of body i) \<Longrightarrow> unat (fst r) + snd r \<le> sz"
    "r \<in> set (blocks_of body i) \<Longrightarrow> j < i \<Longrightarrow> q \<in> set (blocks_of body j) \<Longrightarrow> apart q r"
  using assms by (auto simp: layout_def)

lemma region_blocks:
  assumes "layout body sz" "i < length body"
  shows "field_region body d i x \<longleftrightarrow>
    (\<exists>(off, n) \<in> set (blocks_of body i). unat off \<le> unat (x - d) \<and> unat (x - d) < unat off + n)"
proof -
  have b: "unat (fst r) + snd r < 2 ^ 64" if "r \<in> set (blocks_of body i)" for r
    using layoutD(1,3) [OF assms] that by (meson le_less_trans)
  have one: "x = d + off \<longleftrightarrow> in_block (d + off) 1 x" for off
    by (auto simp: in_block_def unsigned_eq_0_iff)
  have "unat (data_at body 0 i) + unat (fld_data_size (body ! i)) < 2 ^ 64"
    using b [of "(data_at body 0 i, unat (fld_data_size (body ! i)))"] by (simp add: blocks_of_def)
  moreover have "has_flag (body ! i) \<Longrightarrow> unat (size_at body 0 i) + 1 < 2 ^ 64"
    using b [of "(size_at body 0 i, 1)"] by (simp add: blocks_of_def)
  ultimately show ?thesis
    unfolding field_region_def data_at_shift [of body d] size_at_shift [of body d] one
    by (auto simp: blocks_of_def in_block_shift)
qed

lemma region_inside:
  assumes "layout body sz" "i < length body" "field_region body d i x"
  shows "in_block d sz x"
proof -
  from assms(3) region_blocks [OF assms(1,2)] obtain off n where
    "(off, n) \<in> set (blocks_of body i)" "unat (x - d) < unat off + n" by auto
  moreover from layoutD(3) [OF assms(1,2) this(1)] have "unat off + n \<le> sz" by simp
  ultimately show ?thesis by (simp add: in_block_def)
qed

lemma region_apart:
  assumes l: "layout body sz" and i: "i < length body" and j: "j < length body" and ne: "i \<noteq> j"
    and x: "field_region body d i x"
  shows "\<not> field_region body d j x"
proof
  assume y: "field_region body d j x"
  from x region_blocks [OF l i] obtain r where r: "r \<in> set (blocks_of body i)"
    "unat (fst r) \<le> unat (x - d)" "unat (x - d) < unat (fst r) + snd r" by auto
  from y region_blocks [OF l j] obtain q where q: "q \<in> set (blocks_of body j)"
    "unat (fst q) \<le> unat (x - d)" "unat (x - d) < unat (fst q) + snd q" by auto
  have "apart q r \<or> apart r q"
    using layoutD(4) [OF l j q(1) _ r(1)] layoutD(4) [OF l i r(1) _ q(1)] ne by (cases "i < j") auto
  with r q show False by (auto simp: apart_def)
qed

lemma flag_apart:
  assumes l: "layout body sz" and i: "i < length body" and f: "has_flag (body ! i)"
  shows "\<not> in_block (data_at body d i) (unat (fld_data_size (body ! i))) (size_at body d i)"
proof -
  have "apart (data_at body 0 i, unat (fld_data_size (body ! i))) (size_at body 0 i, 1)"
    using layoutD(2) [OF l i] f by (simp add: blocks_of_def)
  moreover have "unat (data_at body 0 i) + unat (fld_data_size (body ! i)) < 2 ^ 64"
    using layoutD(1) [OF l i] layoutD(3) [OF l i, of "(data_at body 0 i, unat (fld_data_size (body ! i)))"]
    by (simp add: blocks_of_def)
  ultimately show ?thesis
    unfolding data_at_shift [of body d] size_at_shift [of body d] by (auto simp: in_block_shift apart_def)
qed

subsection \<open>What the comparison depends on\<close>

lemma value_size_pos:
  assumes "plain_value f"
  shows "PB_LTYPE (fld_type f) = PB_LTYPE_BOOL \<Longrightarrow> fld_data_size f = 1"
  using assms by (auto simp: plain_value_def ltypes Let_def)

lemma same_value_frame:
  assumes "plain_value f" and eq: "\<And>x. in_block d (unat (fld_data_size f)) x \<Longrightarrow> m'' x = m' x"
    and sub: "PB_LTYPE (fld_type f) = PB_LTYPE_SUBMESSAGE \<Longrightarrow> sub (fld_ptr f) p d = sub' (fld_ptr f) p d"
  shows "same_value sub m m' f p d = same_value sub' m m'' f p d"
proof -
  let ?n = "unat (fld_data_size f)"
  have n: "?n < 2 ^ 32" using unsigned_less [of "fld_data_size f", where 'a = nat] by simp
  have load: "load_bytes m'' d k = load_bytes m' d k" if "k \<le> ?n" for k
    using that n eq by (intro load_bytes_cong) (auto intro: in_block_mono)
  have bool: "m'' d = m' d" if "PB_LTYPE (fld_type f) = PB_LTYPE_BOOL"
    using eq [of d] value_size_pos [OF assms(1) that] by simp
  have string: "(case pb_strnlen m p ?n of None \<Rightarrow> False
      | Some k \<Rightarrow> k < ?n \<and> load_bytes m p k \<noteq> None \<and> load_bytes m' d (k + 1) = map_option (\<lambda>bs. bs @ [0]) (load_bytes m p k)) =
    (case pb_strnlen m p ?n of None \<Rightarrow> False
      | Some k \<Rightarrow> k < ?n \<and> load_bytes m p k \<noteq> None \<and> load_bytes m'' d (k + 1) = map_option (\<lambda>bs. bs @ [0]) (load_bytes m p k))"
    using load by (cases "pb_strnlen m p ?n") (auto simp del: load_bytes.simps)
  show ?thesis
    unfolding same_value_def Let_def
    by (intro if_cong refl) (simp_all only: sub bool string load order_refl)
qed

lemma same_field_frame:
  assumes "plain_value (body ! i)" and eq: "\<And>x. field_region body d i x \<Longrightarrow> m'' x = m' x"
    and sub: "PB_LTYPE (fld_type (body ! i)) = PB_LTYPE_SUBMESSAGE \<Longrightarrow>
      sub (fld_ptr (body ! i)) (data_at body p i) (data_at body d i) =
      sub' (fld_ptr (body ! i)) (data_at body p i) (data_at body d i)"
  shows "same_field sub m m' body p d i = same_field sub' m m'' body p d i"
proof -
  have "same_value sub m m' (body ! i) (data_at body p i) (data_at body d i) =
      same_value sub' m m'' (body ! i) (data_at body p i) (data_at body d i)"
    using assms(1) eq sub by (intro same_value_frame) (auto simp: field_region_def)
  moreover have "has_flag (body ! i) \<Longrightarrow> m'' (size_at body d i) = m' (size_at body d i)"
    using eq by (simp add: field_region_def)
  ultimately show ?thesis by (cases "has_flag (body ! i)") (simp_all add: same_field_def safe_read_bool_def)
qed

lemma plain_messageD:
  assumes "plain_message (Suc n) T flds sz"
  obtains body where "table_fields T flds = Some body" "layout body sz" "distinct (map fld_tag body)"
    "length body < 2 ^ 32" "\<And>i. i < length body \<Longrightarrow> plain_field (body ! i)"
    "\<And>i. i < length body \<Longrightarrow> PB_LTYPE (fld_type (body ! i)) = PB_LTYPE_SUBMESSAGE \<Longrightarrow>
       plain_message n T (fld_ptr (body ! i)) (unat (fld_data_size (body ! i)))"
  using assms by (auto simp: list_all_length split: option.splits)

lemma data_inside:
  assumes "layout body sz" "i < length body" "in_block (data_at body d i) (unat (fld_data_size (body ! i))) x"
  shows "in_block d sz x"
  using assms by (intro region_inside) (auto simp: field_region_def)

lemma same_message_frame:
  "plain_message n T flds sz \<Longrightarrow> (\<And>x. in_block d sz x \<Longrightarrow> m'' x = m' x) \<Longrightarrow>
     same_message n T m m' flds p d = same_message n T m m'' flds p d"
proof (induction n arbitrary: flds sz p d)
  case 0
  then show ?case by simp
next
  case (Suc n)
  from Suc.prems(1) obtain body where b: "table_fields T flds = Some body" "layout body sz"
    "\<And>i. i < length body \<Longrightarrow> plain_field (body ! i)"
    "\<And>i. i < length body \<Longrightarrow> PB_LTYPE (fld_type (body ! i)) = PB_LTYPE_SUBMESSAGE \<Longrightarrow>
       plain_message n T (fld_ptr (body ! i)) (unat (fld_data_size (body ! i)))"
    by (rule plain_messageD) metis
  have "same_field (same_message n T m m') m m' body p d i = same_field (same_message n T m m'') m m'' body p d i"
    if i: "i < length body" for i
  proof (rule same_field_frame)
    show "plain_value (body ! i)" using b(3) [OF i] by (simp add: plain_field_def)
    show "m'' x = m' x" if "field_region body d i x" for x
      using region_inside [OF b(2) i that] by (rule Suc.prems(2))
  next
    assume "PB_LTYPE (fld_type (body ! i)) = PB_LTYPE_SUBMESSAGE"
    from Suc.IH [OF b(4) [OF i this]] data_inside [OF b(2) i] Suc.prems(2)
    show "same_message n T m m' (fld_ptr (body ! i)) (data_at body p i) (data_at body d i) =
      same_message n T m m'' (fld_ptr (body ! i)) (data_at body p i) (data_at body d i)" by blast
  qed
  then show ?case by (simp add: b(1) list_all_iff)
qed

lemma cleared_field_frame:
  assumes "\<And>x. field_region body d i x \<Longrightarrow> m'' x = m' x"
    and sub: "PB_LTYPE (fld_type (body ! i)) = PB_LTYPE_SUBMESSAGE \<Longrightarrow>
      sub (fld_ptr (body ! i)) (data_at body d i) = sub' (fld_ptr (body ! i)) (data_at body d i)"
  shows "cleared_field sub m' body d i = cleared_field sub' m'' body d i"
proof -
  have "load_bytes m'' (data_at body d i) (unat (fld_data_size (body ! i))) =
      load_bytes m' (data_at body d i) (unat (fld_data_size (body ! i)))"
    using assms(1) unsigned_less [of "fld_data_size (body ! i)", where 'a = nat]
    by (intro load_bytes_cong) (auto simp: field_region_def)
  moreover have "has_flag (body ! i) \<Longrightarrow> m'' (size_at body d i) = m' (size_at body d i)"
    using assms(1) by (simp add: field_region_def)
  ultimately show ?thesis using sub by (auto simp: cleared_field_def Let_def)
qed

lemma cleared_message_frame:
  "plain_message n T flds sz \<Longrightarrow> (\<And>x. in_block d sz x \<Longrightarrow> m'' x = m' x) \<Longrightarrow>
     cleared_message n T m' flds d = cleared_message n T m'' flds d"
proof (induction n arbitrary: flds sz d)
  case 0
  then show ?case by simp
next
  case (Suc n)
  from Suc.prems(1) obtain body where b: "table_fields T flds = Some body" "layout body sz"
    "\<And>i. i < length body \<Longrightarrow> PB_LTYPE (fld_type (body ! i)) = PB_LTYPE_SUBMESSAGE \<Longrightarrow>
       plain_message n T (fld_ptr (body ! i)) (unat (fld_data_size (body ! i)))"
    by (rule plain_messageD) metis
  have "cleared_field (cleared_message n T m') m' body d i = cleared_field (cleared_message n T m'') m'' body d i"
    if i: "i < length body" for i
  proof (rule cleared_field_frame)
    show "m'' x = m' x" if "field_region body d i x" for x
      using region_inside [OF b(2) i that] by (rule Suc.prems(2))
  next
    assume "PB_LTYPE (fld_type (body ! i)) = PB_LTYPE_SUBMESSAGE"
    from Suc.IH [OF b(3) [OF i this]] data_inside [OF b(2) i] Suc.prems(2)
    show "cleared_message n T m' (fld_ptr (body ! i)) (data_at body d i) =
      cleared_message n T m'' (fld_ptr (body ! i)) (data_at body d i)" by blast
  qed
  then show ?case by (simp add: b(1) list_all_iff)
qed

text \<open>The same facts for a field of a plain message, as the loops over the fields use them.\<close>

definition plain_body :: "nat \<Rightarrow> pb_tables \<Rightarrow> pb_field_t list \<Rightarrow> nat \<Rightarrow> bool" where
  "plain_body n T body sz \<longleftrightarrow> layout body sz \<and> distinct (map fld_tag body) \<and> length body < 2 ^ 32 \<and>
     (\<forall>i<length body. plain_field (body ! i) \<and>
       (PB_LTYPE (fld_type (body ! i)) = PB_LTYPE_SUBMESSAGE \<longrightarrow>
          plain_message n T (fld_ptr (body ! i)) (unat (fld_data_size (body ! i)))))"

lemma plain_bodyD:
  assumes "plain_body n T body sz" "i < length body"
  shows "layout body sz" "plain_field (body ! i)"
    "PB_LTYPE (fld_type (body ! i)) = PB_LTYPE_SUBMESSAGE \<Longrightarrow>
       plain_message n T (fld_ptr (body ! i)) (unat (fld_data_size (body ! i)))"
  using assms by (auto simp: plain_body_def)

lemma plain_message_body:
  assumes "plain_message (Suc n) T flds sz"
  obtains body where "table_fields T flds = Some body" "plain_body n T body sz"
  using plain_messageD [OF assms] unfolding plain_body_def by metis

lemma same_kept:
  assumes b: "plain_body n T body sz" and i: "i < length body"
    and eq: "\<And>x. field_region body d i x \<Longrightarrow> m'' x = m' x"
  shows "same_field (same_message n T m m') m m' body p d i = same_field (same_message n T m m'') m m'' body p d i"
proof (rule same_field_frame [OF _ eq])
  show "plain_value (body ! i)" using plain_bodyD(2) [OF b i] by (simp add: plain_field_def)
next
  assume "PB_LTYPE (fld_type (body ! i)) = PB_LTYPE_SUBMESSAGE"
  then show "same_message n T m m' (fld_ptr (body ! i)) (data_at body p i) (data_at body d i) =
    same_message n T m m'' (fld_ptr (body ! i)) (data_at body p i) (data_at body d i)"
    by (intro same_message_frame [OF plain_bodyD(3) [OF b i]] eq) (simp_all add: field_region_def)
qed

lemma cleared_kept:
  assumes b: "plain_body n T body sz" and i: "i < length body"
    and eq: "\<And>x. field_region body d i x \<Longrightarrow> m'' x = m' x"
  shows "cleared_field (cleared_message n T m') m' body d i = cleared_field (cleared_message n T m'') m'' body d i"
proof (rule cleared_field_frame [OF eq])
  assume "PB_LTYPE (fld_type (body ! i)) = PB_LTYPE_SUBMESSAGE"
  then show "cleared_message n T m' (fld_ptr (body ! i)) (data_at body d i) =
    cleared_message n T m'' (fld_ptr (body ! i)) (data_at body d i)"
    by (intro cleared_message_frame [OF plain_bodyD(3) [OF b i]] eq) (simp_all add: field_region_def)
qed

definition changes_in :: "(addr \<Rightarrow> bool) \<Rightarrow> pb_world \<Rightarrow> pb_world \<Rightarrow> bool" where
  "changes_in P w w' \<longleftrightarrow> wd_heap w' = wd_heap w \<and> dom (wd_mem w') = dom (wd_mem w) \<and>
     (\<forall>x. \<not> P x \<longrightarrow> wd_mem w' x = wd_mem w x)"

lemma changes_block: "changes d n = changes_in (in_block d n)"
  by (simp add: fun_eq_iff changes_def changes_in_def)

lemma changes_in_mono: "changes_in P w w' \<Longrightarrow> (\<And>x. P x \<Longrightarrow> Q x) \<Longrightarrow> changes_in Q w w'"
  unfolding changes_in_def by blast

lemma changes_in_trans: "changes_in P w w1 \<Longrightarrow> changes_in P w1 w2 \<Longrightarrow> changes_in P w w2"
  by (simp add: changes_in_def)

lemma changes_in_mapped: "changes_in P w w' \<Longrightarrow> mapped (wd_mem w') a k = mapped (wd_mem w) a k"
  by (intro mapped_cong_dom) (simp add: changes_in_def)

lemma region_changes:
  "layout body sz \<Longrightarrow> i < length body \<Longrightarrow> changes_in (field_region body d i) w w' \<Longrightarrow> changes d sz w w'"
  unfolding changes_block by (erule changes_in_mono) (rule region_inside)

lemma region_keeps:
  "layout body sz \<Longrightarrow> i < length body \<Longrightarrow> j < length body \<Longrightarrow> i \<noteq> j \<Longrightarrow> changes_in (field_region body d i) w w' \<Longrightarrow>
     field_region body d j x \<Longrightarrow> wd_mem w' x = wd_mem w x"
  using region_apart by (auto simp: changes_in_def)

lemma mapped_block: "mapped m d n \<Longrightarrow> in_block d n x \<Longrightarrow> m x \<noteq> None"
proof -
  assume "mapped m d n" "in_block d n x"
  then have "m (d + of_nat (unat (x - d))) \<noteq> None" by (auto simp: mapped_def in_block_def)
  then show "m x \<noteq> None" by simp
qed

lemma mapped_of_region:
  assumes "mapped m d sz" "layout body sz" "i < length body"
  shows "mapped m (data_at body d i) (unat (fld_data_size (body ! i)))"
    and "has_flag (body ! i) \<Longrightarrow> mapped m (size_at body d i) 1"
proof -
  have lt: "unat (fld_data_size (body ! i)) \<le> 2 ^ 64"
    using unsigned_less [of "fld_data_size (body ! i)", where 'a = nat] by simp
  have "field_region body d i x \<Longrightarrow> m x \<noteq> None" for x
    using mapped_block [OF assms(1) region_inside [OF assms(2,3)]] by blast
  moreover have "in_block (data_at body d i) (unat (fld_data_size (body ! i))) (data_at body d i + of_nat k)"
    if "k < unat (fld_data_size (body ! i))" for k using that lt by (rule in_block_offset)
  ultimately show "mapped m (data_at body d i) (unat (fld_data_size (body ! i)))"
    "has_flag (body ! i) \<Longrightarrow> mapped m (size_at body d i) 1"
    by (simp_all add: mapped_def field_region_def)
qed

lemma plain_not_union:
  assumes "plain_field f"
  shows "PB_HTYPE (fld_type f) \<noteq> PB_HTYPE_ONEOF" "PB_HTYPE (fld_type f) \<noteq> PB_HTYPE_REPEATED"
    "PB_LTYPE (fld_type f) \<noteq> PB_LTYPE_EXTENSION"
  using assms by (auto simp: plain_field_def plain_value_def ltypes Let_def)

lemma plain_size_at:
  assumes "plain_field (body ! i)"
  shows "size_at body d i = data_at body d i + scast (fld_size_offset (body ! i))"
  using plain_not_union(1) [OF assms] by (cases i) (simp_all add: in_union_def)

lemma has_flag_iff:
  assumes "plain_field (body ! i)"
  shows "has_flag (body ! i) \<longleftrightarrow>
    PB_HTYPE (fld_type (body ! i)) = PB_HTYPE_OPTIONAL \<and> size_at body d i \<noteq> data_at body d i"
proof -
  have "(scast x :: u64) = 0 \<longleftrightarrow> x = 0" for x :: u32
  proof
    assume "(scast x :: u64) = 0"
    then have "(ucast (scast x :: u64) :: u32) = ucast (0 :: u64)" by simp
    then show "x = 0" by simp
  qed simp
  then show ?thesis by (simp add: has_flag_def plain_size_at [OF assms])
qed

subsection \<open>Default values\<close>

lemma load_flag: "load_bytes m a (length [b]) = Some [b] \<longleftrightarrow> m a = Some b"
  by (auto simp: bind_Some_iff)

lemma field_default:
  assumes b: "plain_body n T body sz" and t: "table T a body" and i: "i < length body"
    and m: "mapped (wd_mem w) d sz"
    and sub: "\<And>w flds k e. plain_message n T flds k \<Longrightarrow> mapped (wd_mem w) e k \<Longrightarrow>
      \<exists>w'. pb_message_set_to_defaults n T flds e w = Some w' \<and> changes e k w w' \<and> cleared_message n T (wd_mem w') flds e"
  shows "\<exists>w'. pb_field_set_to_default (Suc n) T (iter_at a body d i) w = Some w' \<and>
    changes_in (field_region body d i) w w' \<and> cleared_field (cleared_message n T (wd_mem w')) (wd_mem w') body d i"
proof -
  let ?f = "body ! i" and ?p = "data_at body d i" and ?q = "size_at body d i"
  let ?n = "unat (fld_data_size (body ! i))"
  note p = plain_bodyD(2) [OF b i] and l = plain_bodyD(1) [OF b i]
  note nu = plain_not_union [OF p]
  have st: "PB_ATYPE (fld_type ?f) = PB_ATYPE_STATIC" using p by (simp add: plain_field_def)
  note mp = mapped_of_region [OF m l i]
  obtain w1 where w1: "changes_in (field_region body d i) w w1" "has_flag ?f \<Longrightarrow> wd_mem w1 ?q = Some 0"
    and s1: "if PB_HTYPE (fld_type ?f) = PB_HTYPE_OPTIONAL \<and> ?q \<noteq> ?p then wd_store_bytes ?q [0] w = Some w1 else w1 = w"
  proof (cases "has_flag ?f")
    case True
    have "mapped (wd_mem w) ?q (length [0 :: u8])" using mp(2) [OF True] by simp
    then obtain w1 where w1: "wd_store_bytes ?q [0] w = Some w1" "changes ?q (length [0 :: u8]) w w1"
        "load_bytes (wd_mem w1) ?q (length [0 :: u8]) = Some [0]" by (rule store_there) simp_all
    have "changes_in (field_region body d i) w w1"
      using w1(2) [unfolded changes_block]
      by (rule changes_in_mono) (auto simp: True field_region_def in_block_def unsigned_eq_0_iff)
    with w1 True show thesis
      using has_flag_iff [OF p, of d] by (intro that [of w1]) (simp_all only: load_flag, simp)
  next
    case False
    then show thesis using has_flag_iff [OF p, of d] by (intro that [of w]) (auto simp: changes_in_def)
  qed
  have m1: "mapped (wd_mem w1) ?p ?n" using mp(1) changes_in_mapped [OF w1(1)] by simp
  obtain w2 where w2: "changes ?p ?n w1 w2"
    and s2: "(if PB_LTYPE (fld_type ?f) = PB_LTYPE_SUBMESSAGE
      then pb_message_set_to_defaults n T (fld_ptr ?f) ?p w1
      else wd_store_bytes ?p (replicate ?n 0) w1) = Some w2"
    and c2: "if PB_LTYPE (fld_type ?f) = PB_LTYPE_SUBMESSAGE then cleared_message n T (wd_mem w2) (fld_ptr ?f) ?p
      else load_bytes (wd_mem w2) ?p ?n = Some (replicate ?n 0)"
  proof (cases "PB_LTYPE (fld_type ?f) = PB_LTYPE_SUBMESSAGE")
    case True
    with sub [OF plain_bodyD(3) [OF b i True] m1] show thesis by (auto intro: that)
  next
    case False
    have "mapped (wd_mem w1) ?p (length (replicate ?n (0 :: u8)))" using m1 by simp
    moreover have "length (replicate ?n (0 :: u8)) \<le> 2 ^ 64"
      using unsigned_less [of "fld_data_size ?f", where 'a = nat] by simp
    ultimately obtain w2 where "wd_store_bytes ?p (replicate ?n 0) w1 = Some w2" "changes ?p (length (replicate ?n (0 :: u8))) w1 w2"
      "load_bytes (wd_mem w2) ?p (length (replicate ?n (0 :: u8))) = Some (replicate ?n 0)" by (rule store_there)
    with False show thesis by (intro that [of w2]) simp_all
  qed
  have "changes_in (field_region body d i) w1 w2"
    using w2 unfolding changes_block by (rule changes_in_mono) (simp add: field_region_def)
  with w1(1) have ch: "changes_in (field_region body d i) w w2" by (rule changes_in_trans)
  have "has_flag ?f \<Longrightarrow> wd_mem w2 ?q = Some 0"
    using w1(2) w2 flag_apart [OF l i] by (simp add: changes_def)
  with c2 have "cleared_field (cleared_message n T (wd_mem w2)) (wd_mem w2) body d i"
    by (simp add: cleared_field_def Let_def split: if_splits)
  moreover have "pb_field_set_to_default (Suc n) T (iter_at a body d i) w = Some w2"
  proof -
    have "pb_field_set_to_default (Suc n) T (iter_at a body d i) w =
        set_static_to_default (pb_message_set_to_defaults n T) ?f (iter_at a body d i) w"
      using nu(3) st i by (simp add: default_field_step_def field_of_at [OF t] pb_message_set_to_defaults_def Let_def)
    also have "\<dots> = Some w2"
      using nu s1 s2 p unfolding set_static_to_default_def Let_def iter_at_simps
      by (auto simp: plain_field_def split: if_splits)
    finally show ?thesis .
  qed
  ultimately show ?thesis using ch by blast
qed

abbreviation cleared_at :: "nat \<Rightarrow> pb_tables \<Rightarrow> pb_field_t list \<Rightarrow> addr \<Rightarrow> pb_world \<Rightarrow> nat \<Rightarrow> bool" where
  "cleared_at n T body d w \<equiv> cleared_field (cleared_message n T (wd_mem w)) (wd_mem w) body d"

lemma cleared_other:
  assumes b: "plain_body n T body sz" and i: "i < length body" and j: "j < length body" and "i \<noteq> j"
    and "changes_in (field_region body d i) w w'"
  shows "cleared_at n T body d w' j = cleared_at n T body d w j"
  by (rule cleared_kept [OF b j, symmetric]) (rule region_keeps [OF plain_bodyD(1) [OF b i] i j assms(4,5)])

lemma defaults_loop:
  assumes b: "plain_body n T body sz" and t: "table T a body"
    and sub: "\<And>w flds k e. plain_message n T flds k \<Longrightarrow> mapped (wd_mem w) e k \<Longrightarrow>
      \<exists>w'. pb_message_set_to_defaults n T flds e w = Some w' \<and> changes e k w w' \<and> cleared_message n T (wd_mem w') flds e"
  shows "i < length body \<Longrightarrow> length body - i \<le> fuel \<Longrightarrow> mapped (wd_mem w) d sz \<Longrightarrow> \<forall>j<i. cleared_at n T body d w j \<Longrightarrow>
    \<exists>w'. each_field fuel T (pb_field_set_to_default (Suc n) T) (iter_at a body d i) w = Some w' \<and>
      changes d sz w w' \<and> (\<forall>j<length body. cleared_at n T body d w' j)"
proof (induction fuel arbitrary: i w)
  case 0
  then show ?case by simp
next
  case (Suc fuel)
  note i = Suc.prems(1)
  note l = plain_bodyD(1) [OF b i]
  from field_default [OF b t i Suc.prems(3) sub] obtain w1 where
    w1: "pb_field_set_to_default (Suc n) T (iter_at a body d i) w = Some w1"
      "changes_in (field_region body d i) w w1" "cleared_at n T body d w1 i" by blast
  note ch = region_changes [OF l i w1(2)]
  have all_done: "\<forall>j<Suc i. cleared_at n T body d w1 j"
  proof (intro allI impI)
    fix j assume j: "j < Suc i"
    show "cleared_at n T body d w1 j"
    proof (cases "j = i")
      case True
      with w1(3) show ?thesis by simp
    next
      case False
      with j i have "j < length body" "i \<noteq> j" by auto
      with cleared_other [OF b i this w1(2)] Suc.prems(4) j False show ?thesis by simp
    qed
  qed
  show ?case
  proof (cases "Suc i < length body")
    case True
    have "mapped (wd_mem w1) d sz" using Suc.prems(3) changes_mapped [OF ch] by simp
    moreover have "length body - Suc i \<le> fuel" using Suc.prems(2) by linarith
    ultimately obtain w' where
      "each_field fuel T (pb_field_set_to_default (Suc n) T) (iter_at a body d (Suc i)) w1 = Some w'"
      "changes d sz w1 w'" "\<forall>j<length body. cleared_at n T body d w' j"
      using Suc.IH [OF True _ _ all_done] by blast
    with w1(1) iter_next [OF t True] ch show ?thesis
      by (auto simp del: pb_field_set_to_default.simps intro: changes_trans)
  next
    case False
    then have "Suc i = length body" using i by simp
    with w1(1) iter_next_wraps [OF t this] ch all_done show ?thesis
      by (auto simp del: pb_field_set_to_default.simps)
  qed
qed

lemma message_defaults:
  "plain_message n T flds sz \<Longrightarrow> mapped (wd_mem w) d sz \<Longrightarrow>
    \<exists>w'. pb_message_set_to_defaults n T flds d w = Some w' \<and> changes d sz w w' \<and> cleared_message n T (wd_mem w') flds d"
proof (induction n arbitrary: flds sz d w)
  case 0
  then show ?case by simp
next
  case (Suc n)
  from Suc.prems(1) obtain body where b: "table_fields T flds = Some body" "plain_body n T body sz"
    by (rule plain_message_body)
  note t = table_fields_table [OF b(1)]
  show ?case
  proof (cases "body = []")
    case True
    with iter_begin_empty [of T flds d] t show ?thesis
      by (auto simp: pb_message_set_to_defaults_def each_field_of_def b(1))
  next
    case False
    have "\<exists>w'. each_field (table_length T flds) T (pb_field_set_to_default (Suc n) T) (iter_at flds body d 0) w = Some w' \<and>
        changes d sz w w' \<and> (\<forall>j<length body. cleared_at n T body d w' j)"
      using False Suc.prems(2) by (intro defaults_loop [OF b(2) t Suc.IH]) (auto simp: table_length [OF t])
    then show ?thesis
      using iter_begin [OF t False, of d]
      by (auto simp: pb_message_set_to_defaults_def each_field_of_def b(1) list_all_iff
          simp del: pb_field_set_to_default.simps)
  qed
qed

subsection \<open>Fields\<close>

text \<open>The locals of the calls at each depth have their place, apart from each other and from all else.\<close>

definition frames_free :: "nat \<Rightarrow> pb_decode_env \<Rightarrow> pb_world \<Rightarrow> bool" where
  "frames_free n E w \<longleftrightarrow> (\<forall>k \<le> n. \<forall>x. in_block (de_frame E k + 16) 4 x \<longrightarrow> wd_mem w x = None) \<and>
     (\<forall>k \<le> n. \<forall>j < k. disjoint_blocks (de_frame E k + 16) 4 (de_frame E j + 16) 4)"

lemma frames_free_dom: "dom (wd_mem w') = dom (wd_mem w) \<Longrightarrow> frames_free n E w \<Longrightarrow> frames_free n E w'"
proof -
  assume "dom (wd_mem w') = dom (wd_mem w)"
  then have "wd_mem w' x = None \<longleftrightarrow> wd_mem w x = None" for x by (metis domIff)
  then show "frames_free n E w \<Longrightarrow> frames_free n E w'" by (simp add: frames_free_def)
qed

text \<open>What is proved of the decoding of a message, by induction on its depth.\<close>

definition restoring :: "nat \<Rightarrow> wire_calls \<Rightarrow> pb_decode_env \<Rightarrow> mem \<Rightarrow> bool" where
  "restoring n X E m \<longleftrightarrow> (\<forall>flds k p e t w bs. plain_message n (de_tables E) flds k \<longrightarrow>
     pb_wire n X (de_tables E) m flds p = Some bs \<longrightarrow> terminated_message n (de_tables E) m flds p \<longrightarrow>
     at_bytes t w bs \<longrightarrow> unat (is_bytes_left t) = length bs \<longrightarrow> length bs < 2 ^ 32 \<longrightarrow> mapped (wd_mem w) e k \<longrightarrow>
     disjoint_blocks e k (is_state t) (length bs) \<longrightarrow> cleared_message n (de_tables E) (wd_mem w) flds e \<longrightarrow>
     frames_free n E w \<longrightarrow>
     (\<exists>w'. fst (pb_decoders n E) flds e t w = Some (behind t (length bs), w', Some ()) \<and> changes e k w w' \<and>
        same_message n (de_tables E) m (wd_mem w') flds p e))"

lemma disjoint_blocks_sub:
  "disjoint_blocks a n b k \<Longrightarrow> (\<And>x. in_block a' n' x \<Longrightarrow> in_block a n x) \<Longrightarrow> (\<And>x. in_block b' k' x \<Longrightarrow> in_block b k x) \<Longrightarrow>
     disjoint_blocks a' n' b' k'"
  unfolding disjoint_blocks_def by blast

lemma counted_split: "length bs \<le> length (counted bs)"
  by (simp add: counted_def)

lemma in_later:
  assumes "k + n < 2 ^ 64" "in_block (a + of_nat k) n x"
  shows "in_block a (k + n) x"
proof -
  have "unat (of_nat k :: u64) = k" using assms(1) by (simp add: unat_of_nat)
  with in_block_shift [of "of_nat k" n a x] assms show ?thesis by (simp add: in_block_def)
qed

lemma field_value_decoded:
  assumes r: "restoring n X E m" and b: "plain_body n (de_tables E) body sz" and i: "i < length body"
    and v: "wire_value (pb_wire n X (de_tables E) m) m (body ! i) p = Some vs"
    and tm: "terminated m (body ! i) p" "PB_LTYPE (fld_type (body ! i)) = PB_LTYPE_SUBMESSAGE \<Longrightarrow>
      terminated_message n (de_tables E) m (fld_ptr (body ! i)) p"
    and a: "at_bytes s w vs" and len: "length vs < 2 ^ 32"
    and mp: "mapped (wd_mem w) e (unat (fld_data_size (body ! i)))"
    and dj: "disjoint_blocks e (unat (fld_data_size (body ! i))) (is_state s) (length vs)"
    and cl: "PB_LTYPE (fld_type (body ! i)) = PB_LTYPE_SUBMESSAGE \<Longrightarrow>
      cleared_message n (de_tables E) (wd_mem w) (fld_ptr (body ! i)) e"
    and fr: "frames_free n E w"
    and func: "PB_DECODERS (pb_decoders n E) E (PB_LTYPE (fld_type (body ! i))) = Some func"
  shows "restores (\<lambda>m'. same_message n (de_tables E) m m') m (body ! i) p (func (body ! i) e) s (length vs) e w"
proof (cases "PB_LTYPE (fld_type (body ! i)) = PB_LTYPE_SUBMESSAGE")
  case False
  have "plain_value (body ! i)" "PB_ATYPE (fld_type (body ! i)) = PB_ATYPE_STATIC"
    using plain_bodyD(2) [OF b i] by (simp_all add: plain_field_def)
  with value_restored [OF v _ tm(1) _ False func a mp] show ?thesis by blast
next
  case True
  let ?f = "body ! i"
  from v True obtain xs where xs: "pb_wire n X (de_tables E) m (fld_ptr ?f) p = Some xs" "vs = counted xs" "fld_ptr ?f \<noteq> 0"
    by (auto simp: wire_value_def ltypes bind_Some_iff split: if_splits)
  have fn: "func = pb_dec_submessage (pb_decoders n E) E" using func True by (simp add: PB_DECODERS_def ltypes)
  have n32: "length xs < 2 ^ 32" using len xs(2) counted_split [of xs] by simp
  show ?thesis
    unfolding fn xs(2)
  proof (rule submessage_restored)
    show "at_bytes s w (counted xs)" using a xs(2) by simp
    show "PB_HTYPE (fld_type ?f) \<noteq> PB_HTYPE_REPEATED" using plain_not_union(2) [OF plain_bodyD(2) [OF b i]] .
  next
    fix t
    assume t: "at_bytes t w xs" "unat (is_bytes_left t) = length xs"
      "is_state t = is_state s + of_nat (length (uleb_bytes (length xs)))"
    have vs: "length vs = length (uleb_bytes (length xs)) + length xs" by (simp add: xs(2) counted_def)
    have "disjoint_blocks e (unat (fld_data_size ?f)) (is_state t) (length xs)"
      using dj by (rule disjoint_blocks_sub) (use len in \<open>auto simp: vs t(3) intro: in_later\<close>)
    then show "\<exists>w'. fst (pb_decoders n E) (fld_ptr ?f) e t w = Some (behind t (length xs), w', Some ()) \<and>
        changes e (unat (fld_data_size ?f)) w w' \<and> same_message n (de_tables E) m (wd_mem w') (fld_ptr ?f) p e"
      using r plain_bodyD(3) [OF b i True] xs(1) tm(2) [OF True] t(1,2) n32 mp cl [OF True] fr
      unfolding restoring_def by blast
  qed (use n32 xs True in auto)
qed

lemma field_decoded:
  assumes r: "restoring n X E m" and b: "plain_body n (de_tables E) body sz" and t: "table (de_tables E) a body"
    and i: "i < length body"
    and v: "wire_value (pb_wire n X (de_tables E) m) m (body ! i) (data_at body p i) = Some vs"
    and tm: "terminated m (body ! i) (data_at body p i)" "PB_LTYPE (fld_type (body ! i)) = PB_LTYPE_SUBMESSAGE \<Longrightarrow>
      terminated_message n (de_tables E) m (fld_ptr (body ! i)) (data_at body p i)"
    and a: "at_bytes s w vs" and len: "length vs < 2 ^ 32" and mp: "mapped (wd_mem w) d sz"
    and dj: "disjoint_blocks d sz (is_state s) (length vs)"
    and cl: "cleared_at n (de_tables E) body d w i" and fr: "frames_free n E w"
    and func: "PB_DECODERS (pb_decoders n E) E (PB_LTYPE (fld_type (body ! i))) = Some func"
  shows "\<exists>w'. decode_field k (pb_decoders n E) E wt (iter_at a body d i) s w = Some (behind s (length vs), w', Some ()) \<and>
    changes_in (field_region body d i) w w' \<and> (has_flag (body ! i) \<longrightarrow> wd_mem w' (size_at body d i) = Some 1) \<and>
    same_value (same_message n (de_tables E) m (wd_mem w')) m (wd_mem w') (body ! i) (data_at body p i) (data_at body d i)"
proof -
  let ?f = "body ! i" and ?p = "data_at body d i" and ?q = "size_at body d i" and ?T = "de_tables E"
  let ?n = "unat (fld_data_size ?f)"
  note pl = plain_bodyD(2) [OF b i] and l = plain_bodyD(1) [OF b i]
  note nu = plain_not_union [OF pl]
  have st: "PB_ATYPE (fld_type ?f) = PB_ATYPE_STATIC"
    and ht: "PB_HTYPE (fld_type ?f) \<in> {PB_HTYPE_REQUIRED, PB_HTYPE_OPTIONAL}" using pl by (simp_all add: plain_field_def)
  note mr = mapped_of_region [OF mp l i]
  obtain w1 where w1: "changes_in (field_region body d i) w w1" "\<And>x. in_block ?p ?n x \<Longrightarrow> wd_mem w1 x = wd_mem w x"
      "has_flag ?f \<Longrightarrow> wd_mem w1 ?q = Some 1"
    and s1: "PB_HTYPE (fld_type ?f) = PB_HTYPE_OPTIONAL \<Longrightarrow>
      (if ?q \<noteq> ?p then dec_store_bytes ?q [1] else dec_return ()) s w = Some (s, w1, Some ())"
      "PB_HTYPE (fld_type ?f) \<noteq> PB_HTYPE_OPTIONAL \<Longrightarrow> w1 = w"
  proof (cases "has_flag ?f")
    case True
    have "mapped (wd_mem w) ?q (length [1 :: u8])" using mr(2) [OF True] by simp
    then obtain w1 where w1: "dec_store_bytes ?q [1] s w = Some (s, w1, Some ())" "changes ?q (length [1 :: u8]) w w1"
        "load_bytes (wd_mem w1) ?q (length [1 :: u8]) = Some [1]" by (rule store_there) simp_all
    show thesis
    proof (rule that [of w1])
      show "changes_in (field_region body d i) w w1"
        using w1(2) [unfolded changes_block]
        by (rule changes_in_mono) (auto simp: True field_region_def in_block_def unsigned_eq_0_iff)
      show "wd_mem w1 x = wd_mem w x" if "in_block ?p ?n x" for x
        using w1(2) that flag_apart [OF l i True, of d]
        by (cases "x = ?q") (auto simp: changes_def in_block_def unsigned_eq_0_iff)
      show "has_flag ?f \<Longrightarrow> wd_mem w1 ?q = Some 1" using w1(3) by (simp only: load_flag)
    qed (use w1(1) True has_flag_iff [OF pl, of d] in auto)
  next
    case False
    then show thesis
      using has_flag_iff [OF pl, of d] by (intro that [of w]) (auto simp: changes_in_def dec_return_def)
  qed
  note ch1 = region_changes [OF l i w1(1)]
  have len64: "length vs \<le> 2 ^ 64" using len by simp
  have "restores (\<lambda>m'. same_message n ?T m m') m ?f (data_at body p i) (func ?f ?p) s (length vs) ?p w1"
  proof (rule field_value_decoded [OF r b i v tm _ len _ _ _ _ func])
    show "at_bytes s w1 vs" using changes_at_bytes [OF ch1 dj a] .
    show "mapped (wd_mem w1) ?p ?n" using mr(1) changes_in_mapped [OF w1(1)] by simp
    show "disjoint_blocks ?p ?n (is_state s) (length vs)"
      using dj by (rule disjoint_blocks_sub) (simp_all add: data_inside [OF l i])
    show "frames_free n E w1" using fr ch1 by (intro frames_free_dom [of w1 w]) (simp_all add: changes_def)
    assume sm: "PB_LTYPE (fld_type ?f) = PB_LTYPE_SUBMESSAGE"
    then have "cleared_message n ?T (wd_mem w) (fld_ptr ?f) ?p" using cl by (simp add: cleared_field_def Let_def)
    then show "cleared_message n ?T (wd_mem w1) (fld_ptr ?f) ?p"
      using cleared_message_frame [OF plain_bodyD(3) [OF b i sm] w1(2)] by simp
  qed
  then obtain w2 where w2: "func ?f ?p s w1 = Some (behind s (length vs), w2, Some ())" "changes ?p ?n w1 w2"
    "same_value (same_message n ?T m (wd_mem w2)) m (wd_mem w2) ?f (data_at body p i) ?p" by (auto simp: restores_def)
  have "changes_in (field_region body d i) w1 w2"
    using w2(2) unfolding changes_block by (rule changes_in_mono) (simp add: field_region_def)
  with w1(1) have "changes_in (field_region body d i) w w2" by (rule changes_in_trans)
  moreover have "has_flag ?f \<longrightarrow> wd_mem w2 ?q = Some 1"
    using w1(3) w2(2) flag_apart [OF l i] by (simp add: changes_def)
  moreover have "decode_field k (pb_decoders n E) E wt (iter_at a body d i) s w =
      decode_static_field k (pb_decoders n E) E wt (iter_at a body d i) s w"
    using nu st i by (simp add: decode_field_def field_of_at [OF t] dec_then_def dec_return_def)
  moreover have "decode_static_field k (pb_decoders n E) E wt (iter_at a body d i) s w = Some (behind s (length vs), w2, Some ())"
    using ht s1 w2(1) i by (auto simp: decode_static_field_def field_of_at [OF t] func dec_then_def Let_def)
  ultimately show ?thesis using w2(3) by auto
qed

subsection \<open>Required fields\<close>

text \<open>The bits of the first \<open>r\<close> required fields are set, as far as there are bits.\<close>

definition seen :: "u32 list \<Rightarrow> nat \<Rightarrow> bool" where
  "seen fs r \<longleftrightarrow> length fs = 2 \<and> (\<forall>b<64. bit (fs ! (b div 32)) (b mod 32) \<longleftrightarrow> b < r)"

definition required_before :: "pb_field_t list \<Rightarrow> nat \<Rightarrow> nat" where
  "required_before body i = length (filter is_required (take i body))"

lemma required_before_Suc:
  "i < length body \<Longrightarrow> required_before body (Suc i) = required_before body i + (if is_required (body ! i) then 1 else 0)"
  by (simp add: required_before_def take_Suc_conv_app_nth)

lemma required_before_le: "required_before body i \<le> length body"
  unfolding required_before_def by (rule order_trans [OF length_filter_le]) simp

lemma split_index:
  fixes c :: nat
  assumes "c < 64"
  shows "unat ((of_nat c :: u32) AND 31) = c mod 32" "unat (drop_bit 5 (of_nat c :: u32)) = c div 32"
proof -
  have c: "unat (of_nat c :: u32) = c" using assms by (simp add: unat_of_nat)
  have "(of_nat c :: u32) AND 31 = take_bit 5 (of_nat c)" by (simp add: take_bit_eq_mask mask_eq_exp_minus_1)
  also have "\<dots> = of_nat c mod 32" by (simp add: take_bit_eq_mod)
  finally have "(of_nat c :: u32) AND 31 = of_nat c mod 32" .
  then show "unat ((of_nat c :: u32) AND 31) = c mod 32" unfolding unat_mod c by (simp add: c unat_mod)
  have "drop_bit 5 (of_nat c :: u32) = of_nat c div 32" by (simp add: drop_bit_eq_div)
  then show "unat (drop_bit 5 (of_nat c :: u32)) = c div 32" by (simp add: c unat_div)
qed

lemma seen_mark:
  assumes s: "seen fs c" and c: "c < 64"
  shows "seen (fs[c div 32 := fs ! (c div 32) OR push_bit (c mod 32) 1]) (Suc c)"
proof -
  have len: "length fs = 2" and bits: "\<And>b. b < 64 \<Longrightarrow> bit (fs ! (b div 32)) (b mod 32) \<longleftrightarrow> b < c"
    using s by (auto simp: seen_def)
  have "bit (fs[c div 32 := fs ! (c div 32) OR push_bit (c mod 32) 1] ! (b div 32)) (b mod 32) \<longleftrightarrow> b < Suc c"
    if b: "b < 64" for b
  proof (cases "b div 32 = c div 32")
    case True
    have k: "c div 32 < length fs" using c len by auto
    have "b = c \<longleftrightarrow> b mod 32 = c mod 32" using True by (metis div_mult_mod_eq)
    then show ?thesis
      using bits [OF b] True k by (auto simp: bit_or_iff bit_exp_iff less_Suc_eq)
  next
    case False
    then have "b \<noteq> c" by auto
    with False bits [OF b] show ?thesis by (simp add: less_Suc_eq)
  qed
  with len show ?thesis by (simp add: seen_def)
qed

lemma seen_beyond: "seen fs c \<Longrightarrow> 64 \<le> c \<Longrightarrow> seen fs (Suc c)"
  by (auto simp: seen_def)

lemma mark_required_seen:
  assumes st: "it_required_field_index (ds_iter st) = of_nat c" and c: "c < 2 ^ 32" and s: "seen (ds_fields_seen st) c"
  shows "\<exists>fs. mark_required pos st = st\<lparr>ds_fields_seen := fs\<rparr> \<and> seen fs (c + (if is_required pos then 1 else 0))"
proof -
  have u: "unat (of_nat c :: u32) = c" using c by (simp add: unat_of_nat)
  have max: "(of_nat c :: u32) < PB_MAX_REQUIRED_FIELDS \<longleftrightarrow> c < 64"
    using u by (simp add: PB_MAX_REQUIRED_FIELDS_def word_less_nat_alt)
  show ?thesis
  proof (cases "is_required pos \<and> c < 64")
    case True
    with seen_mark [OF s] st max split_index [of c] show ?thesis
      by (auto simp: mark_required_def is_required_def Let_def)
  next
    case False
    then have "mark_required pos st = st\<lparr>ds_fields_seen := ds_fields_seen st\<rparr>"
      using st max by (auto simp: mark_required_def is_required_def Let_def)
    moreover have "seen (ds_fields_seen st) (c + (if is_required pos then 1 else 0))"
      using s seen_beyond [OF s] False by auto
    ultimately show ?thesis by blast
  qed
qed

lemma index_below: "i < r div 32 \<Longrightarrow> k < 32 \<Longrightarrow> 32 * i + k < r" for i k r :: nat
proof -
  assume "i < r div 32" "k < 32"
  then have "Suc i * 32 \<le> r" by (simp flip: less_eq_div_iff_mult_less_eq)
  with \<open>k < 32\<close> show ?thesis by simp
qed

lemma all_seen_seen:
  assumes s: "seen fs c"
  shows "all_seen (of_nat (min 64 c)) fs"
proof -
  let ?r = "min 64 c"
  have bits: "\<And>b. b < 64 \<Longrightarrow> bit (fs ! (b div 32)) (b mod 32) \<longleftrightarrow> b < c" using s by (simp add: seen_def)
  have u: "unat (of_nat ?r :: u32) = ?r" by (simp add: unat_of_nat)
  have d: "unat (drop_bit 5 (of_nat ?r :: u32)) = ?r div 32"
    by (simp add: drop_bit_eq_div unat_div u del: of_nat_min)
  have ones: "fs ! i = - 1" if "i < ?r div 32" for i
  proof (rule bit_word_eqI)
    fix k assume k: "k < LENGTH(32)"
    have "32 * i + k < ?r" by (rule index_below) (use that k in simp_all)
    with bits [of "32 * i + k"] k show "bit (fs ! i) k = bit (- 1 :: u32) k" by simp
  qed
  have rest: "fs ! (?r div 32) = drop_bit (32 - ?r mod 32) (- 1)" if "?r mod 32 \<noteq> 0"
  proof (rule bit_word_eqI)
    fix k assume k: "k < LENGTH(32)"
    have c: "?r = c" and c64: "c < 64" using that by (auto simp: min_def split: if_splits)
    have "c div 32 < 2" using c64 by simp
    then have "32 * (c div 32) + k < 64" using k by simp
    from bits [OF this] k have "bit (fs ! (c div 32)) k \<longleftrightarrow> 32 * (c div 32) + k < c" by simp
    also have "\<dots> \<longleftrightarrow> k < c mod 32"
    proof -
      have "32 * (c div 32) + c mod 32 = c" by simp
      then show ?thesis by linarith
    qed
    finally show "bit (fs ! (?r div 32)) k = bit (drop_bit (32 - ?r mod 32) (- 1 :: u32)) k"
      using k that unfolding c by (auto simp: bit_drop_bit_eq bit_mask_iff)
  qed
  have m: "unat ((of_nat ?r :: u32) AND 31) = ?r mod 32"
  proof -
    have "(of_nat ?r :: u32) AND 31 = take_bit 5 (of_nat ?r)"
      by (simp add: take_bit_eq_mask mask_eq_exp_minus_1 del: of_nat_min)
    also have "\<dots> = of_nat ?r mod 32" by (simp add: take_bit_eq_mod del: of_nat_min)
    finally show ?thesis by (simp add: unat_mod u del: of_nat_min)
  qed
  then have "unat (32 - ((of_nat ?r :: u32) AND 31)) = 32 - ?r mod 32"
    by (simp add: unat_sub_if' word_le_nat_alt del: of_nat_min)
  moreover have "(of_nat ?r :: u32) AND 31 = 0 \<longleftrightarrow> ?r mod 32 = 0" using m by (metis unat_eq_zero unat_0)
  ultimately show ?thesis using ones rest d by (auto simp: all_seen_def simp del: of_nat_min)
qed

lemma iter_at_required: "it_required_field_index (iter_at a body d i) = of_nat (required_before body i)"
  by (simp add: iter_at_def required_before_def)

lemma seek_end_at:
  assumes t: "table T a body"
  shows "i < length body \<Longrightarrow> length body - i \<le> fuel \<Longrightarrow> seek_end fuel T (iter_at a body d i) =
    Some (iter_at a body d 0, of_nat (required_before body (length body - 1)), fld_type (body ! (length body - 1)))"
proof (induction fuel arbitrary: i)
  case 0
  then show ?case by simp
next
  case (Suc fuel)
  have f: "field_of T (iter_at a body d i) = Some (body ! i)"
    using Suc.prems(1) by (simp add: field_of_at [OF t])
  show ?case
  proof (cases "Suc i < length body")
    case True
    have "length body - Suc i \<le> fuel" using Suc.prems(2) by linarith
    with Suc.IH [OF True] iter_next [OF t True] f show ?thesis by simp
  next
    case False
    then have e: "Suc i = length body" using Suc.prems(1) by simp
    then have "length body - 1 = i" by simp
    with iter_next_wraps [OF t e] f show ?thesis by (simp add: iter_at_required)
  qed
qed

lemma required_count:
  assumes t: "table T a body" and i: "i < length body" and len: "length body < 2 ^ 32"
  shows "required_field_count T (iter_at a body d i) = Some (of_nat (min 64 (required_before body (length body))))"
proof -
  let ?k = "length body - 1" and ?c = "required_before body (length body)"
  have k: "?k < length body" "Suc ?k = length body" using i by auto
  have c: "?c = required_before body ?k + (if is_required (body ! ?k) then 1 else 0)"
    using required_before_Suc [OF k(1)] k(2) by simp
  have c32: "?c < 2 ^ 32" using required_before_le [of body "length body"] len by linarith
  have f0: "field_of T (iter_at a body d 0) = Some (body ! 0)" "fld_tag (body ! 0) \<noteq> 0"
    using k(1) field_of_at [OF t, of "iter_at a body d 0"] table_tag [OF t, of 0] by (cases body; simp)+
  have s: "seek_end (Suc (table_length T a)) T (iter_at a body d i) =
      Some (iter_at a body d 0, of_nat (required_before body ?k), fld_type (body ! ?k))"
    using i by (intro seek_end_at [OF t]) (simp_all add: table_length [OF t])
  have x: "(if PB_HTYPE (fld_type (body ! ?k)) = PB_HTYPE_REQUIRED \<and> fld_tag (body ! 0) \<noteq> 0
      then of_nat (required_before body ?k) + 1 else of_nat (required_before body ?k)) = (of_nat ?c :: u32)"
    using f0(2) by (simp add: c is_required_def)
  have y: "(if PB_MAX_REQUIRED_FIELDS < of_nat ?c then PB_MAX_REQUIRED_FIELDS else of_nat ?c) = (of_nat (min 64 ?c) :: u32)"
  proof -
    have "unat (of_nat ?c :: u32) = ?c" using c32 by (simp add: unat_of_nat)
    then have "PB_MAX_REQUIRED_FIELDS < of_nat ?c \<longleftrightarrow> 64 < ?c"
      by (simp add: PB_MAX_REQUIRED_FIELDS_def word_less_nat_alt)
    then show ?thesis by (simp add: PB_MAX_REQUIRED_FIELDS_def min_def)
  qed
  show ?thesis
    unfolding required_field_count_def Let_def iter_at_simps s
    by (simp only: bind.bind_lunit prod.case f0(1) x y)
qed

lemma check_required_seen:
  assumes t: "table T a body" and i: "i < length body" and len: "length body < 2 ^ 32"
    and st: "ds_iter st = iter_at a body d i" "seen (ds_fields_seen st) (required_before body (length body))"
  shows "check_required T st s w = Some (s, w, Some ())"
  using required_count [OF t i len] all_seen_seen [OF st(2)] st(1)
  by (simp add: check_required_def dec_return_def del: of_nat_min)

lemma check_required_empty:
  assumes t: "table T a []" and b: "pb_field_iter_begin T a d = Some (iter, ok)" and st: "ds_iter st = iter"
  shows "check_required T st s w = Some (s, w, Some ())"
proof -
  have it: "it_start iter = a" "it_pos iter = 0" "it_required_field_index iter = 0"
    using b field_of_end [OF t] by (auto simp: pb_field_iter_begin_def bind_Some_iff Let_def)
  have f: "field_of T iter = Some PB_LAST_FIELD" using it by (simp add: field_of_end [OF t])
  then have "pb_field_iter_next T iter = Some (iter, False)" by (simp add: pb_field_iter_next_def)
  with f it have "required_field_count T iter = Some 0"
    by (simp add: required_field_count_def PB_MAX_REQUIRED_FIELDS_def table_length [OF t])
  then show ?thesis by (simp add: check_required_def st all_seen_def dec_return_def)
qed

text \<open>The search finds the one field with the tag.\<close>

lemma find_tag:
  assumes t: "table T a body" and k: "k < length body" and i: "i < length body" and d: "distinct (map fld_tag body)"
    and e: "PB_LTYPE (fld_type (body ! i)) \<noteq> PB_LTYPE_EXTENSION"
  shows "pb_field_iter_find T (iter_at a body e k) (fld_tag (body ! i)) = Some (iter_at a body e i, True)"
proof -
  have m: "field_matches (fld_tag (body ! i)) (body ! i)" using e by (simp add: field_matches_def)
  have "\<exists>f \<in> set body. field_matches (fld_tag (body ! i)) f" using m i by (meson nth_mem)
  with iter_find [OF t k, of "fld_tag (body ! i)" e] obtain j where
    j: "j < length body" "field_matches (fld_tag (body ! i)) (body ! j)"
      "pb_field_iter_find T (iter_at a body e k) (fld_tag (body ! i)) = Some (iter_at a body e j, True)" by auto
  have "j = i" using d i j(1,2) by (auto simp: field_matches_def distinct_conv_nth)
  with j(3) show ?thesis by simp
qed

lemma find_field:
  assumes "table T a body" "k < length body" "i < length body" "distinct (map fld_tag body)" "plain_field (body ! i)"
  shows "pb_field_iter_find T (iter_at a body e k) (fld_tag (body ! i)) = Some (iter_at a body e i, True)"
  using assms plain_not_union(3) by (intro find_tag)

lemma wire_type_small: "wire_type_of f = Some wt \<Longrightarrow> unat wt < 8"
  by (auto simp: wire_type_of_def Let_def wire_types split: if_splits)

lemma decoder_exists:
  assumes "plain_value f"
  shows "\<exists>func. PB_DECODERS subs E (PB_LTYPE (fld_type f)) = Some func"
  using assms by (auto simp: plain_value_def PB_DECODERS_def Let_def)

subsection \<open>The loop over the input\<close>

abbreviation same_at ::
  "nat \<Rightarrow> pb_tables \<Rightarrow> mem \<Rightarrow> pb_field_t list \<Rightarrow> addr \<Rightarrow> addr \<Rightarrow> pb_world \<Rightarrow> nat \<Rightarrow> bool" where
  "same_at n T m body p d w \<equiv> same_field (same_message n T m (wd_mem w)) m (wd_mem w) body p d"

lemma same_other:
  assumes b: "plain_body n T body sz" and i: "i < length body" and j: "j < length body" and "i \<noteq> j"
    and "changes_in (field_region body d i) w w'"
  shows "same_at n T m body p d w' j = same_at n T m body p d w j"
  by (rule same_kept [OF b j, symmetric]) (rule region_keeps [OF plain_bodyD(1) [OF b i] i j assms(4,5)])

text \<open>The state of the loop when the fields before \<open>i\<close> have been decoded.\<close>

definition loop_state :: "addr \<Rightarrow> pb_field_t list \<Rightarrow> addr \<Rightarrow> nat \<Rightarrow> decode_state \<Rightarrow> bool" where
  "loop_state a body d i st \<longleftrightarrow> (\<exists>k < length body. ds_iter st = iter_at a body d k) \<and> ds_fixed_count_field st = None \<and>
     seen (ds_fields_seen st) (required_before body i)"

lemma decode_next_field:
  assumes r: "restoring n X E m" and b: "plain_body n (de_tables E) body sz" and t: "table (de_tables E) a body"
    and i: "i < length body" and st: "loop_state a body d i st"
    and v: "wire_value (pb_wire n X (de_tables E) m) m (body ! i) (data_at body p i) = Some vs"
    and wt: "wire_type_of (body ! i) = Some wt"
    and tm: "terminated m (body ! i) (data_at body p i)" "PB_LTYPE (fld_type (body ! i)) = PB_LTYPE_SUBMESSAGE \<Longrightarrow>
      terminated_message n (de_tables E) m (fld_ptr (body ! i)) (data_at body p i)"
    and a: "at_bytes s w (wire_tag wt (fld_tag (body ! i)) @ vs)"
    and len: "length (wire_tag wt (fld_tag (body ! i)) @ vs) < 2 ^ 32" and mp: "mapped (wd_mem w) d sz"
    and dj: "disjoint_blocks d sz (is_state s) (length (wire_tag wt (fld_tag (body ! i)) @ vs))"
    and cl: "cleared_at n (de_tables E) body d w i" and fr: "frames_free n E w"
  shows "\<exists>w' st'. decode_next k (pb_decoders n E) E fcs st s w =
      Some (behind s (length (wire_tag wt (fld_tag (body ! i)) @ vs)), w', Some (st', True)) \<and>
    loop_state a body d (Suc i) st' \<and> changes_in (field_region body d i) w w' \<and>
    (has_flag (body ! i) \<longrightarrow> wd_mem w' (size_at body d i) = Some 1) \<and>
    same_value (same_message n (de_tables E) m (wd_mem w')) m (wd_mem w') (body ! i) (data_at body p i) (data_at body d i)"
proof -
  let ?f = "body ! i" and ?T = "de_tables E"
  let ?tag = "wire_tag wt (fld_tag ?f)"
  let ?s = "behind s (length ?tag)"
  note pl = plain_bodyD(2) [OF b i]
  have tag: "0 < fld_tag ?f" "unat (fld_tag ?f) < 2 ^ 29" "plain_value ?f" using pl by (simp_all add: plain_field_def)
  obtain func where func: "PB_DECODERS (pb_decoders n E) E (PB_LTYPE (fld_type ?f)) = Some func"
    using decoder_exists [OF tag(3)] by blast
  from st obtain j where j: "j < length body" "ds_iter st = iter_at a body d j" and fixed: "ds_fixed_count_field st = None"
    and sn: "seen (ds_fields_seen st) (required_before body i)" by (auto simp: loop_state_def)
  note at = at_bytes_append [OF a]
  have "distinct (map fld_tag body)" using b by (simp add: plain_body_def)
  note find = find_field [OF t j(1) i this pl, of d]
  have "disjoint_blocks d sz (is_state ?s) (length vs)"
    using dj by (rule disjoint_blocks_sub) (use len in \<open>auto intro: in_later\<close>)
  from field_decoded [OF r b t i v tm at(2) _ mp this cl fr func, of k wt] len obtain w' where
    w': "decode_field k (pb_decoders n E) E wt (iter_at a body d i) ?s w = Some (behind ?s (length vs), w', Some ())"
      "changes_in (field_region body d i) w w'" "has_flag ?f \<longrightarrow> wd_mem w' (size_at body d i) = Some 1"
      "same_value (same_message n ?T m (wd_mem w')) m (wd_mem w') ?f (data_at body p i) (data_at body d i)" by auto
  let ?st = "st\<lparr>ds_iter := iter_at a body d i\<rparr>"
  have "required_before body i < 2 ^ 32"
    using required_before_le [of body i] b by (simp add: plain_body_def)
  then obtain fs where fs: "mark_required ?f ?st = ?st\<lparr>ds_fields_seen := fs\<rparr>" "seen fs (required_before body (Suc i))"
    using mark_required_seen [of ?st "required_before body i" ?f] sn required_before_Suc [OF i] by (auto simp: iter_at_required)
  have "decode_next k (pb_decoders n E) E fcs st s w =
      Some (behind s (length (?tag @ vs)), w', Some (?st\<lparr>ds_fields_seen := fs\<rparr>, True))"
    using decode_tag_at [OF at(1) wire_type_small [OF wt] tag(1,2), of E] find j(2) w'(1) fs(1) plain_not_union [OF pl] i
    by (simp add: decode_next_def use_fixed_count_def field_of_at [OF t] dec_then_def dec_return_def Let_def)
  moreover have "loop_state a body d (Suc i) (?st\<lparr>ds_fields_seen := fs\<rparr>)"
    using i fixed fs(2) by (auto simp: loop_state_def)
  ultimately show ?thesis using w'(2-4) by blast
qed

text \<open>A field that is not in the input keeps its default, which is the value it has in the source.\<close>

lemma bytes_zero_load: "bytes_zero m p n = Some True \<Longrightarrow> load_bytes m p n = Some (replicate n 0)"
  by (induction n arbitrary: p) (auto simp: bind_Some_iff split: if_splits)

lemma strnlen_zero: "m p = Some 0 \<Longrightarrow> pb_strnlen m p n = Some k \<Longrightarrow> k = 0"
  by (cases n) auto

lemma default_value:
  assumes pl: "plain_field f" and nf: "\<not> has_flag f" and opt: "PB_HTYPE (fld_type f) = PB_HTYPE_OPTIONAL"
    and z: "default_step dflt T m f p = Some True" and tm: "terminated m f p"
    and cl: "load_bytes m' d (unat (fld_data_size f)) = Some (replicate (unat (fld_data_size f)) 0)"
  shows "same_value S m m' f p d"
proof -
  let ?l = "PB_LTYPE (fld_type f)" and ?n = "unat (fld_data_size f)"
  have st: "PB_ATYPE (fld_type f) = PB_ATYPE_STATIC" and pv: "plain_value f" using pl by (simp_all add: plain_field_def)
  have off: "fld_size_offset f = 0" using nf opt by (simp add: has_flag_def)
  have ns: "?l \<noteq> PB_LTYPE_SUBMESSAGE" using pl nf opt by (auto simp: plain_field_def)
  note nb = value_size_pos [OF pv]
  consider (string) "?l = PB_LTYPE_STRING" | (bytes) "?l = PB_LTYPE_FIXED_LENGTH_BYTES"
    | (number) "?l \<le> PB_LTYPE_LAST_PACKABLE" "?l \<noteq> PB_LTYPE_STRING" "?l \<noteq> PB_LTYPE_FIXED_LENGTH_BYTES" "?l \<noteq> PB_LTYPE_BYTES"
    using pv ns by (auto simp: plain_value_def Let_def ltypes)
  then show ?thesis
  proof cases
    case string
    then have "m p = Some 0" using z st off opt by (auto simp: default_step_def Let_def bind_Some_iff ltypes)
    moreover obtain k where "pb_strnlen m p ?n = Some k" "k < ?n" using tm string by (auto simp: terminated_def split: option.splits)
    moreover have "k = 0" using strnlen_zero [where m = m and p = p and n = ?n and k = k] calculation by simp
    moreover obtain j where "?n = Suc j" using \<open>k < ?n\<close> by (cases ?n) auto
    ultimately show ?thesis using string cl by (auto simp: same_value_def ltypes bind_Some_iff)
  next
    case bytes
    then have "fld_data_size f = 0" using z st off opt by (auto simp: default_step_def Let_def ltypes)
    then show ?thesis using bytes by (simp add: same_value_def ltypes)
  next
    case number
    then have "bytes_zero m p ?n = Some True"
      using z st off opt ns by (auto simp: default_step_def Let_def)
    then have l: "load_bytes m p ?n = Some (replicate ?n 0)" by (rule bytes_zero_load)
    show ?thesis
    proof (cases "?l = PB_LTYPE_BOOL")
      case True
      with nb l cl have "m p = Some 0" "m' d = Some 0" by (auto simp: bind_Some_iff)
      with True show ?thesis by (simp add: same_value_def ltypes)
    next
      case False
      with number ns l cl show ?thesis by (simp add: same_value_def Let_def)
    qed
  qed
qed

text \<open>What a field contributes to the input.\<close>

lemma wire_plain:
  assumes pl: "plain_field f"
  shows "wire_any_field n X dflt sub T m f p = do {
    has \<leftarrow> present dflt m f p p;
    if has then tagged f (wire_value sub m f p) else Some [] }"
proof -
  have "PB_LTYPE (fld_type f) \<le> PB_LTYPE_FIXED_LENGTH_BYTES" "PB_LTYPE (fld_type f) \<noteq> PB_LTYPE_EXTENSION"
    using pl by (auto simp: plain_field_def plain_value_def Let_def ltypes)
  with pl plain_not_union [OF pl] show ?thesis
    by (auto simp: wire_any_field_def wire_field_def wire_basic_def plain_field_def)
qed

lemma absent_same:
  assumes b: "plain_body n T body sz" and i: "i < length body"
    and absent: "present (pb_check_proto3_default_value (Suc n) T m) m (body ! i) (data_at body p i) (data_at body p i) = Some False"
    and tm: "has_flag (body ! i) \<and> safe_read_bool m (size_at body p i) = Some False \<or> terminated m (body ! i) (data_at body p i)"
    and cl: "cleared_at n T body d w i"
  shows "same_at n T m body p d w i"
proof -
  let ?f = "body ! i"
  note pl = plain_bodyD(2) [OF b i]
  note nu = plain_not_union [OF pl]
  show ?thesis
  proof (cases "has_flag ?f")
    case True
    then have "safe_read_bool m (size_at body p i) = Some False"
      using absent nu by (simp add: present_def Let_def has_flag_def plain_size_at [OF pl])
    moreover have "wd_mem w (size_at body d i) = Some 0" using cl True by (simp add: cleared_field_def Let_def)
    ultimately show ?thesis using True by (simp add: same_field_def safe_read_bool_def)
  next
    case False
    have opt: "PB_HTYPE (fld_type ?f) = PB_HTYPE_OPTIONAL"
      using absent pl by (auto simp: present_def Let_def plain_field_def split: if_splits)
    have ns: "PB_LTYPE (fld_type ?f) \<noteq> PB_LTYPE_SUBMESSAGE" using pl False opt by (auto simp: plain_field_def)
    have "default_step (pb_check_proto3_default_value n T m) T m ?f (data_at body p i) = Some True"
      using absent opt False pl by (auto simp: present_def Let_def has_flag_def plain_field_def bind_Some_iff)
    moreover have "load_bytes (wd_mem w) (data_at body d i) (unat (fld_data_size ?f)) = Some (replicate (unat (fld_data_size ?f)) 0)"
      using cl ns by (simp add: cleared_field_def Let_def)
    moreover have "terminated m ?f (data_at body p i)" using tm False by simp
    ultimately have "same_value (same_message n T m (wd_mem w)) m (wd_mem w) ?f (data_at body p i) (data_at body d i)"
      by (intro default_value [OF pl False opt])
    with False show ?thesis by (simp add: same_field_def)
  qed
qed

text \<open>What holds between two turns: the fields before \<open>i\<close> are decoded, those from \<open>i\<close> on are in the input.\<close>

definition loop_inv ::
  "nat \<Rightarrow> wire_calls \<Rightarrow> pb_decode_env \<Rightarrow> mem \<Rightarrow> addr \<Rightarrow> pb_field_t list \<Rightarrow> nat \<Rightarrow> addr \<Rightarrow> addr \<Rightarrow> nat \<Rightarrow> u8 list \<Rightarrow>
     decode_state \<Rightarrow> pb_istream_t \<Rightarrow> pb_world \<Rightarrow> bool" where
  "loop_inv n X E m a body sz p d i bs st s w \<longleftrightarrow>
     wire_all (\<lambda>i. wire_any_field n X (pb_check_proto3_default_value (Suc n) (de_tables E) m)
       (pb_wire n X (de_tables E) m) (de_tables E) m (body ! i) (data_at body p i)) [i..<length body] = Some bs \<and>
     at_bytes s w bs \<and> unat (is_bytes_left s) = length bs \<and> length bs < 2 ^ 32 \<and> mapped (wd_mem w) d sz \<and>
     disjoint_blocks d sz (is_state s) (length bs) \<and> frames_free n E w \<and> loop_state a body d i st \<and>
     (\<forall>j. i \<le> j \<longrightarrow> j < length body \<longrightarrow> cleared_at n (de_tables E) body d w j) \<and>
     (\<forall>j < i. same_at n (de_tables E) m body p d w j)"

lemma decode_loop_restores:
  assumes r: "restoring n X E m" and b: "plain_body n (de_tables E) body sz" and t: "table (de_tables E) a body"
    and tm: "\<And>i. i < length body \<Longrightarrow> has_flag (body ! i) \<and> safe_read_bool m (size_at body p i) = Some False \<or>
      terminated m (body ! i) (data_at body p i) \<and> (PB_LTYPE (fld_type (body ! i)) = PB_LTYPE_SUBMESSAGE \<longrightarrow>
        terminated_message n (de_tables E) m (fld_ptr (body ! i)) (data_at body p i))"
  shows "loop_inv n X E m a body sz p d i bs st s w \<Longrightarrow> i \<le> length body \<Longrightarrow> length bs < fuel \<Longrightarrow>
    \<exists>w' st'. decode_loop fuel k (pb_decoders n E) E fcs st s w = Some (behind s (length bs), w', Some st') \<and>
      changes d sz w w' \<and> loop_state a body d (length body) st' \<and> (\<forall>j<length body. same_at n (de_tables E) m body p d w' j)"
proof (induction "length body - i" arbitrary: i bs st s w fuel)
  case 0
  then have i: "i = length body" by simp
  from 0 i have "bs = []" "loop_state a body d i st" "\<forall>j<length body. same_at n (de_tables E) m body p d w j"
    "is_bytes_left s = 0"
    by (auto simp: loop_inv_def unsigned_eq_0_iff)
  moreover obtain f where "fuel = Suc f" using 0(4) by (cases fuel) auto
  ultimately show ?case using i by (auto simp: dec_return_def)
next
  case (Suc x)
  let ?f = "body ! i" and ?T = "de_tables E" and ?dflt = "pb_check_proto3_default_value (Suc n) (de_tables E) m"
  have i: "i < length body" using Suc.hyps(2) by linarith
  have x: "x = length body - Suc i" using Suc.hyps(2) by linarith
  note pl = plain_bodyD(2) [OF b i] and l = plain_bodyD(1) [OF b i]
  from Suc.prems(1) have inv: "at_bytes s w bs" "unat (is_bytes_left s) = length bs" "length bs < 2 ^ 32"
      "mapped (wd_mem w) d sz" "disjoint_blocks d sz (is_state s) (length bs)" "frames_free n E w" "loop_state a body d i st"
    and cl: "\<And>j. i \<le> j \<Longrightarrow> j < length body \<Longrightarrow> cleared_at n ?T body d w j"
    and sm: "\<And>j. j < i \<Longrightarrow> same_at n ?T m body p d w j"
    by (auto simp: loop_inv_def)
  from Suc.prems(1) i obtain hd tl where bs: "bs = hd @ tl"
    and hd: "wire_any_field n X ?dflt (pb_wire n X ?T m) ?T m ?f (data_at body p i) = Some hd"
    and tl: "wire_all (\<lambda>i. wire_any_field n X ?dflt (pb_wire n X ?T m) ?T m (body ! i) (data_at body p i)) [Suc i..<length body] = Some tl"
    by (auto simp: loop_inv_def upt_conv_Cons bind_Some_iff simp del: pb_check_proto3_default_value.simps)
  from hd obtain has where has: "present ?dflt m ?f (data_at body p i) (data_at body p i) = Some has"
    and hd': "(if has then tagged ?f (wire_value (pb_wire n X ?T m) m ?f (data_at body p i)) else Some []) = Some hd"
    by (auto simp: wire_plain [OF pl] bind_Some_iff simp del: pb_check_proto3_default_value.simps)
  show ?case
  proof (cases has)
    case False
    then have nil: "hd = []" using hd' by simp
    have "same_at n ?T m body p d w i"
    proof (rule absent_same [OF b i])
      show "present ?dflt m ?f (data_at body p i) (data_at body p i) = Some False" using has False by simp
      show "has_flag ?f \<and> safe_read_bool m (size_at body p i) = Some False \<or> terminated m ?f (data_at body p i)"
        using tm [OF i] by blast
      show "cleared_at n ?T body d w i" using cl i by simp
    qed
    then have "\<forall>j < Suc i. same_at n ?T m body p d w j" using sm by (auto simp: less_Suc_eq)
    moreover have "loop_state a body d (Suc i) st"
    proof -
      have "\<not> is_required ?f"
        using has False plain_not_union [OF pl] by (auto simp: present_def is_required_def Let_def split: if_splits)
      with inv(7) show ?thesis by (simp add: loop_state_def required_before_Suc [OF i])
    qed
    ultimately have "loop_inv n X E m a body sz p d (Suc i) bs st s w"
      using inv cl tl nil bs unfolding loop_inv_def by simp
    with Suc.hyps(1) [OF x] i Suc.prems(3) show ?thesis by simp
  next
    case True
    with hd' obtain wt vs where wt: "wire_type_of ?f = Some wt"
      and vs: "wire_value (pb_wire n X ?T m) m ?f (data_at body p i) = Some vs"
      and hd_eq: "hd = wire_tag wt (fld_tag ?f) @ vs" by (auto simp: tagged_def bind_Some_iff)
    have a_hd: "at_bytes s w (wire_tag wt (fld_tag ?f) @ vs)" using at_bytes_append(1) inv(1) unfolding bs hd_eq by blast
    have tm_i: "terminated m ?f (data_at body p i)" "PB_LTYPE (fld_type ?f) = PB_LTYPE_SUBMESSAGE \<Longrightarrow>
        terminated_message n ?T m (fld_ptr ?f) (data_at body p i)"
      using tm [OF i] has True plain_not_union [OF pl]
      by (auto simp: present_def Let_def has_flag_def plain_size_at [OF pl] split: if_splits)
    have len_hd: "length (wire_tag wt (fld_tag ?f) @ vs) < 2 ^ 32" using inv(3) unfolding bs hd_eq by simp
    have dj_hd: "disjoint_blocks d sz (is_state s) (length (wire_tag wt (fld_tag ?f) @ vs))"
      using inv(5) by (rule disjoint_blocks_sub) (auto simp: bs hd_eq in_block_def)
    have cl_i: "cleared_at n ?T body d w i" using cl i by simp
    from decode_next_field [OF r b t i inv(7) vs wt tm_i a_hd len_hd inv(4) dj_hd cl_i inv(6), of k fcs]
    obtain w1 st1 where step: "decode_next k (pb_decoders n E) E fcs st s w = Some (behind s (length hd), w1, Some (st1, True))"
      and ls: "loop_state a body d (Suc i) st1" and ch: "changes_in (field_region body d i) w w1"
      and fl: "has_flag ?f \<longrightarrow> wd_mem w1 (size_at body d i) = Some 1"
      and sv: "same_value (same_message n ?T m (wd_mem w1)) m (wd_mem w1) ?f (data_at body p i) (data_at body d i)"
      unfolding hd_eq by blast
    note chd = region_changes [OF l i ch]
    let ?s = "behind s (length hd)"
    have left: "unat (is_bytes_left ?s) = length tl"
      using inv(2) behind_left [of "length hd" s] bs by simp
    have small: "length hd + length tl < 2 ^ 64" using inv(3) bs by simp
    have dj_tl: "disjoint_blocks d sz (is_state ?s) (length tl)"
      using inv(5) by (rule disjoint_blocks_sub) (use small in \<open>auto simp: bs intro: in_later\<close>)
    have "loop_inv n X E m a body sz p d (Suc i) tl st1 ?s w1"
      unfolding loop_inv_def
    proof (intro conjI)
      show "at_bytes ?s w1 tl"
        using changes_at_bytes [OF chd dj_tl] at_bytes_append(2) [of s w hd tl] inv(1) bs by simp
      show "length tl < 2 ^ 32" using inv(3) bs by simp
      show "mapped (wd_mem w1) d sz" using inv(4) changes_mapped [OF chd] by simp
      show "frames_free n E w1" using inv(6) chd by (intro frames_free_dom [of w1 w]) (simp_all add: changes_def)
      show "\<forall>j. Suc i \<le> j \<longrightarrow> j < length body \<longrightarrow> cleared_at n ?T body d w1 j"
        using cl cleared_other [OF b i _ _ ch] by simp
      show "\<forall>j < Suc i. same_at n ?T m body p d w1 j"
      proof (intro allI impI)
        fix j assume j: "j < Suc i"
        show "same_at n ?T m body p d w1 j"
        proof (cases "j = i")
          case True
          have "has_flag ?f \<Longrightarrow> safe_read_bool m (size_at body p i) = Some True"
            using has \<open>has\<close> plain_not_union [OF pl]
            by (simp add: present_def Let_def has_flag_def plain_size_at [OF pl] split: if_splits)
          with True fl sv show ?thesis by (simp add: same_field_def safe_read_bool_def)
        next
          case False
          with j have "j < i" by simp
          with same_other [OF b i _ _ ch] sm i show ?thesis by simp
        qed
      qed
    qed (use tl left dj_tl ls in simp_all)
    moreover have hd0: "0 < length hd" by (simp add: hd_eq wire_tag_def)
    moreover obtain f where f: "fuel = Suc f" using Suc.prems(3) by (cases fuel) auto
    moreover have "length tl < f"
    proof -
      have "length hd + length tl < Suc f" using Suc.prems(3) f bs by simp
      with hd0 show ?thesis by linarith
    qed
    ultimately obtain w2 st2 where "decode_loop f k (pb_decoders n E) E fcs st1 ?s w1 = Some (behind ?s (length tl), w2, Some st2)"
      "changes d sz w1 w2" "loop_state a body d (length body) st2" "\<forall>j<length body. same_at n ?T m body p d w2 j"
      using Suc.hyps(1) [OF x, of tl st1 ?s w1 f] i Suc.prems(3) bs by auto
    moreover have "is_bytes_left s \<noteq> 0" using inv(2) bs hd0 by auto
    ultimately show ?thesis
      using step chd f bs by (auto simp: dec_then_def intro: changes_trans)
  qed
qed

subsection \<open>Messages\<close>

definition with_local :: "addr \<Rightarrow> u8 list \<Rightarrow> pb_world \<Rightarrow> pb_world" where
  "with_local q bs w = w\<lparr>wd_mem := map_block q bs (wd_mem w)\<rparr>"

lemma with_local_other: "\<not> in_block q (length bs) x \<Longrightarrow> wd_mem (with_local q bs w) x = wd_mem w x"
  by (simp add: with_local_def map_block_def in_block_def)

lemma local_call:
  assumes free: "\<And>x. in_block q (length bs) x \<Longrightarrow> wd_mem w x = None" and m: "mapped (wd_mem w) e k"
    and f: "f s (with_local q bs w) = Some (s', w1, r)" and ch: "changes e k (with_local q bs w) w1"
  shows "\<exists>w'. dec_local q bs f s w = Some (s', w', r) \<and> changes e k w w' \<and>
    (\<forall>x. in_block e k x \<longrightarrow> wd_mem w' x = wd_mem w1 x)"
proof -
  let ?w' = "w1\<lparr>wd_mem := unmap_block q (length bs) (wd_mem w1)\<rparr>"
  have nq: "\<not> in_block q (length bs) x" if "in_block e k x" for x
    using mapped_block [OF m that] free [of x] by auto
  have eq: "wd_mem ?w' x = (if in_block q (length bs) x then None else wd_mem w1 x)" for x
    by (simp add: unmap_block_def in_block_def)
  have out: "wd_mem ?w' x = wd_mem w x" if "\<not> in_block e k x" for x
  proof (cases "in_block q (length bs) x")
    case True
    with eq free show ?thesis by simp
  next
    case False
    with eq ch that with_local_other [OF False, of w] show ?thesis by (simp add: changes_def)
  qed
  have "(wd_mem ?w' x = None) = (wd_mem w x = None)" for x
  proof (cases "in_block e k x")
    case True
    have "wd_mem w1 x \<noteq> None"
      using mapped_block [OF m True] with_local_other [OF nq [OF True], of w] ch unfolding changes_def by (metis domIff)
    with eq nq [OF True] mapped_block [OF m True] show ?thesis by auto
  next
    case False
    with out show ?thesis by simp
  qed
  then have "dom (wd_mem ?w') = dom (wd_mem w)" by (auto simp: dom_def)
  moreover have "wd_heap ?w' = wd_heap w" using ch by (simp add: changes_def with_local_def)
  ultimately have "changes e k w ?w'" using out by (simp add: changes_def)
  moreover have "dec_local q bs f s w = Some (s', ?w', r)"
    using f by (simp add: dec_local_def with_local_def)
  moreover have "\<forall>x. in_block e k x \<longrightarrow> wd_mem ?w' x = wd_mem w1 x" using eq nq by simp
  ultimately show ?thesis by blast
qed

lemma restoring_Suc:
  assumes r: "restoring n X E m"
  shows "restoring (Suc n) X E m"
  unfolding restoring_def
proof (intro allI impI)
  fix flds k p e t w bs
  let ?T = "de_tables E" and ?dflt = "pb_check_proto3_default_value (Suc n) (de_tables E) m"
  let ?q = "de_frame E (Suc n) + 16"
  let ?v = "with_local ?q [0, 0, 0, 0] w"
  assume plain: "plain_message (Suc n) ?T flds k" and wire: "pb_wire (Suc n) X ?T m flds p = Some bs"
    and tm: "terminated_message (Suc n) ?T m flds p" and a: "at_bytes t w bs" and left: "unat (is_bytes_left t) = length bs"
    and len: "length bs < 2 ^ 32" and mp: "mapped (wd_mem w) e k"
    and dj: "disjoint_blocks e k (is_state t) (length bs)" and cl: "cleared_message (Suc n) ?T (wd_mem w) flds e"
    and fr: "frames_free (Suc n) E w"
  from plain obtain body where body: "table_fields ?T flds = Some body" "plain_body n ?T body k" by (rule plain_message_body)
  note tb = table_fields_table [OF body(1)]
  have four: "length [0, 0, 0, 0 :: u8] = 4" by simp
  have free: "wd_mem w x = None" if "in_block ?q (length [0, 0, 0, 0 :: u8]) x" for x
    using fr that unfolding frames_free_def four by blast
  have nq: "\<not> in_block ?q (length [0, 0, 0, 0 :: u8]) x" if "in_block e k x" for x
    using mapped_block [OF mp that] free [of x] by auto
  have ve: "wd_mem ?v x = wd_mem w x" if "in_block e k x" for x
    using nq [OF that] by (rule with_local_other)
  have vm: "mapped (wd_mem ?v) e k"
    using mp by (auto simp: mapped_def with_local_def map_block_def)
  have va: "at_bytes t ?v bs"
  proof -
    have "load_bytes (wd_mem ?v) (is_state t) (length bs) = load_bytes (wd_mem w) (is_state t) (length bs)"
    proof (rule load_bytes_cong)
      fix x assume x: "in_block (is_state t) (length bs) x"
      have "mapped (wd_mem w) (is_state t) (length bs)"
        using a load_bytes_eq_None_iff [of "wd_mem w" "is_state t" "length bs"] by (simp add: at_bytes_def)
      from mapped_block [OF this x] free [of x] have "\<not> in_block ?q (length [0, 0, 0, 0 :: u8]) x" by auto
      then show "wd_mem ?v x = wd_mem w x" by (rule with_local_other)
    qed (use len in simp)
    with a show ?thesis by (simp add: at_bytes_def)
  qed
  have vf: "frames_free n E ?v"
  proof -
    have "wd_mem ?v x = None" if "j \<le> n" "in_block (de_frame E j + 16) 4 x" for j x
    proof -
      have "disjoint_blocks ?q 4 (de_frame E j + 16) 4" using fr that(1) by (simp add: frames_free_def)
      with that(2) have "\<not> in_block ?q (length [0, 0, 0, 0 :: u8]) x" unfolding four by (auto simp: disjoint_blocks_def)
      then have "wd_mem ?v x = wd_mem w x" by (rule with_local_other)
      also have "\<dots> = None" using fr that unfolding frames_free_def by (meson le_Suc_eq)
      finally show ?thesis .
    qed
    with fr show ?thesis by (simp add: frames_free_def)
  qed
  have vc: "cleared_message (Suc n) ?T (wd_mem ?v) flds e"
    using cl cleared_message_frame [where m'' = "wd_mem ?v" and m' = "wd_mem w", OF plain ve] by simp
  let ?body = "\<lambda>stream w. do {
        (iter, _) \<leftarrow> pb_field_iter_begin ?T flds e;
        dec_then (decode_loop (Suc (unat (is_bytes_left stream))) (Suc n) (pb_decoders n E) E ?q
            \<lparr> ds_iter = iter, ds_fields_seen = [0, 0], ds_extension_range_start = 0, ds_fixed_count_field = None \<rparr>) (\<lambda>st.
          dec_then (count_complete ?T ?q st) (\<lambda>_. check_required ?T st)) stream w }"
  have run: "\<exists>w1. ?body t ?v = Some (behind t (length bs), w1, Some ()) \<and> changes e k ?v w1 \<and>
      same_message (Suc n) ?T m (wd_mem w1) flds p e"
  proof (cases "body = []")
    case True
    with tb have tb': "table ?T flds []" by simp
    obtain iter where it: "pb_field_iter_begin ?T flds e = Some (iter, False)" using iter_begin_empty [OF tb'] by blast
    have bs: "bs = []" using wire True by (simp add: body(1))
    with left have "is_bytes_left t = 0" by (simp add: unsigned_eq_0_iff)
    then have "?body t ?v = Some (t, ?v, Some ())"
      using it check_required_empty [OF tb' it]
      by (simp add: dec_then_def count_complete_def dec_return_def)
    with bs show ?thesis by (auto simp: body(1) True)
  next
    case False
    let ?st = "\<lparr> ds_iter = iter_at flds body e 0, ds_fields_seen = [0, 0], ds_extension_range_start = 0, ds_fixed_count_field = None \<rparr>"
    have ls: "loop_state flds body e 0 ?st"
    proof -
      have "([0, 0] :: u32 list) ! (b div 32) = 0" if "b < 64" for b :: nat
        using that by (cases "b div 32") (auto simp: nth_Cons')
      with False show ?thesis by (auto simp: loop_state_def seen_def required_before_def)
    qed
    have "loop_inv n X E m flds body k p e 0 bs ?st t ?v"
      using wire va left len vm dj vf ls vc
      by (simp add: loop_inv_def body(1) list_all_iff del: pb_check_proto3_default_value.simps)
    from decode_loop_restores [OF r body(2) tb _ this, of "Suc (unat (is_bytes_left t))" "Suc n" ?q] left tm
    obtain w1 st1 where w1: "decode_loop (Suc (unat (is_bytes_left t))) (Suc n) (pb_decoders n E) E ?q ?st t ?v =
        Some (behind t (length bs), w1, Some st1)" "changes e k ?v w1" "loop_state flds body e (length body) st1"
        "\<forall>j<length body. same_at n ?T m body p e w1 j"
      by (auto simp: body(1) list_all_iff)
    from w1(3) obtain j where j: "j < length body" "ds_iter st1 = iter_at flds body e j" "ds_fixed_count_field st1 = None"
      "seen (ds_fields_seen st1) (required_before body (length body))" by (auto simp: loop_state_def)
    have "length body < 2 ^ 32" using body(2) by (simp add: plain_body_def)
    note check_required_seen [OF tb j(1) this j(2,4)]
    with w1(1) iter_begin [OF tb False, of e] j(3)
    have "?body t ?v = Some (behind t (length bs), w1, Some ())"
      by (simp add: dec_then_def count_complete_def dec_return_def del: decode_loop.simps)
    with w1 show ?thesis by (auto simp: body(1) list_all_iff)
  qed
  then obtain w1 where w1: "?body t ?v = Some (behind t (length bs), w1, Some ())" "changes e k ?v w1"
    "same_message (Suc n) ?T m (wd_mem w1) flds p e" by blast
  from local_call [where f = ?body, OF free mp w1(1,2)] obtain w' where
    w': "dec_local ?q [0, 0, 0, 0] ?body t w = Some (behind t (length bs), w', Some ())" "changes e k w w'"
    "\<And>x. in_block e k x \<Longrightarrow> wd_mem w' x = wd_mem w1 x" by blast
  have "same_message (Suc n) ?T m (wd_mem w') flds p e"
    using same_message_frame [where m = m and m'' = "wd_mem w'" and m' = "wd_mem w1", OF plain w'(3)] w1(3) by blast
  moreover have "fst (pb_decoders (Suc n) E) flds e t w = Some (behind t (length bs), w', Some ())"
    using w'(1) by (simp add: decode_noinit_step_def Let_def)
  ultimately show "\<exists>w'. fst (pb_decoders (Suc n) E) flds e t w = Some (behind t (length bs), w', Some ()) \<and>
      changes e k w w' \<and> same_message (Suc n) ?T m (wd_mem w') flds p e"
    using w'(2) by blast
qed

lemma restoring_all: "restoring n X E m"
proof (induction n)
  case 0
  show ?case by (simp add: restoring_def)
next
  case (Suc n)
  then show ?case by (rule restoring_Suc)
qed

lemma decode_restores:
  assumes plain: "plain_message n (de_tables E) flds sz" and wire: "pb_wire n X (de_tables E) m flds src = Some bs"
    and tm: "terminated_message n (de_tables E) m flds src" and fr: "frames_free n E w" and mp: "mapped (wd_mem w) dest sz"
    and at: "load_bytes (wd_mem w) buf (length bs) = Some bs" and len: "length bs < 2 ^ 32"
    and dj: "disjoint_blocks dest sz buf (length bs)"
  shows "\<exists>s' w'. pb_decode n E flds dest (pb_istream_from_buffer buf (of_nat (length bs))) w = Some (s', w', Some ()) \<and>
    is_bytes_left s' = 0 \<and> same_message n (de_tables E) m (wd_mem w') flds src dest \<and> changes dest sz w w'"
proof -
  let ?s = "pb_istream_from_buffer buf (of_nat (length bs))"
  obtain k where n: "n = Suc k" using plain by (cases n) auto
  from message_defaults [OF plain mp] obtain w1 where w1: "pb_message_set_to_defaults n (de_tables E) flds dest w = Some w1"
    "changes dest sz w w1" "cleared_message n (de_tables E) (wd_mem w1) flds dest" by blast
  have left: "unat (is_bytes_left ?s) = length bs"
    unfolding pb_istream_from_buffer_def using len by (simp add: unat_of_nat)
  have st: "is_state ?s = buf" by (simp add: pb_istream_from_buffer_def)
  have "load_bytes (wd_mem w1) buf (length bs) = Some bs"
    using changes_load [OF w1(2) _ dj] len at by simp
  then have "at_bytes ?s w1 bs" using left by (simp add: at_bytes_def pb_istream_from_buffer_def)
  moreover have "frames_free n E w1" using fr w1(2) by (intro frames_free_dom [of w1 w]) (simp_all add: changes_def)
  moreover have "mapped (wd_mem w1) dest sz" using mp changes_mapped [OF w1(2)] by simp
  ultimately obtain w2 where w2: "fst (pb_decoders n E) flds dest ?s w1 = Some (behind ?s (length bs), w2, Some ())"
    "changes dest sz w1 w2" "same_message n (de_tables E) m (wd_mem w2) flds src dest"
    using restoring_all [of n X E m] plain wire tm left len dj w1(3) st unfolding restoring_def by metis
  have "pb_decode n E flds dest ?s w = Some (behind ?s (length bs), w2, Some ())"
    using w1(1) w2(1) by (simp add: pb_decode_def n decode_step_def Let_def)
  moreover have "is_bytes_left (behind ?s (length bs)) = 0"
    using behind_left [of "length bs" ?s] left by (simp add: unsigned_eq_0_iff)
  ultimately show ?thesis using w1(2) w2(2,3) by (blast intro: changes_trans)
qed

definition example_decode_env :: pb_decode_env where
  "example_decode_env = \<lparr> de_tables = example_tables, de_read = (\<lambda>cb state count w. Some (state, w, [], False)),
     de_callback = (\<lambda>f field arg. dec_false), de_extension = (\<lambda>f ext tag wire_type. dec_return ()),
     de_choose = (\<lambda>w n. 0), de_fresh = (\<lambda>a. 0), de_frame = (\<lambda>n. 0x8000 + 32 * of_nat n) \<rparr>"

definition example_world :: "pb_world" where
  "example_world = \<lparr> wd_mem = map_block 0x3000 (replicate 20 0xFF) (bytes_at 0x2000 example_bytes), wd_heap = (\<lambda>p. None) \<rparr>"

text \<open>C7 (roundtrip): decoding the wire format of a message of numbers, strings, bytes of fixed length and
  submessages, to any depth, succeeds, takes all of the input, restores every field, and writes nowhere but in the
  structure.\<close>

theorem decode_wire:
  assumes "plain_message n (de_tables E) flds sz" and "pb_wire n X (de_tables E) m flds src = Some bs"
    and "terminated_message n (de_tables E) m flds src" and "frames_free n E w" and "mapped (wd_mem w) dest sz"
    and "load_bytes (wd_mem w) buf (length bs) = Some bs" and "length bs < 2 ^ 32"
    and "disjoint_blocks dest sz buf (length bs)"
  shows "\<exists>s' w'. pb_decode n E flds dest (pb_istream_from_buffer buf (of_nat (length bs))) w = Some (s', w', Some ()) \<and>
    is_bytes_left s' = 0 \<and> same_message n (de_tables E) m (wd_mem w') flds src dest \<and> changes dest sz w w'"
  using assms by (rule decode_restores)

lemma example_block:
  "wd_mem example_world x =
     (if in_block 0x3000 20 x then Some 0xFF else bytes_at 0x2000 example_bytes x)"
  by (simp add: example_world_def map_block_def in_block_def)

lemma blocks_apart:
  assumes "n \<le> unat (b - a)" "k \<le> unat (a - b)"
  shows "disjoint_blocks a n b k"
  unfolding disjoint_blocks_def in_block_def using assms unsigned_less [of a, where 'a = nat] unsigned_less [of b, where 'a = nat]
  by (auto simp: unat_arith_simps split: if_splits)

lemma example_apart: "disjoint_blocks 0x3000 20 0x2000 11"
  by (rule blocks_apart) simp_all

lemma example_frames: "frames_free 2 example_decode_env example_world"
proof -
  have k: "k \<le> 2 \<longleftrightarrow> k = 0 \<or> k = 1 \<or> k = 2" for k :: nat by arith
  have "disjoint_blocks 0x3000 20 (de_frame example_decode_env k + 16) 4 \<and> disjoint_blocks 0x2000 11 (de_frame example_decode_env k + 16) 4"
    if "k \<le> 2" for k
    using that unfolding k by (auto simp: example_decode_env_def intro!: blocks_apart)
  then have "wd_mem example_world x = None" if "k \<le> 2" "in_block (de_frame example_decode_env k + 16) 4 x" for k x
    using that by (auto simp: example_block disjoint_blocks_def bytes_at_def in_block_def)
  moreover have "disjoint_blocks (de_frame example_decode_env k + 16) 4 (de_frame example_decode_env j + 16) 4"
    if "k \<le> 2" "j < k" for j k
  proof -
    have "k = 1 \<and> j = 0 \<or> k = 2 \<and> j = 0 \<or> k = 2 \<and> j = 1" using that by arith
    then show ?thesis by (auto simp: example_decode_env_def intro!: blocks_apart)
  qed
  ultimately show ?thesis by (simp add: frames_free_def)
qed

lemma example_bodies:
  "table_fields example_tables 0x5000 = Some example_fields"
  "table_fields example_tables 0x6000 = Some [example_field 1 0x03 0 0 4 0]"
  by code_simp+

lemma example_layouts: "layout example_fields 20" "layout [example_field 1 0x03 0 0 4 0] 4"
  unfolding layout_def by (simp, code_simp)+

lemma example_field_simps:
  "fld_tag (example_field tag type data_off size_off data_sz p) = tag" "fld_type (example_field tag type data_off size_off data_sz p) = type"
  "fld_data_size (example_field tag type data_off size_off data_sz p) = data_sz" "fld_ptr (example_field tag type data_off size_off data_sz p) = p"
  by (simp_all add: example_field_def)

lemma example_values:
  "plain_field (example_field 1 0x01 0 0 4 0)" "plain_field (example_field 2 0x17 1 0xFFFFFFFF 8 0)"
  "plain_field (example_field 3 0x08 3 0 4 0x6000)" "plain_field (example_field 1 0x03 0 0 4 0)"
  by (simp_all add: plain_field_def plain_value_def has_flag_def example_field_def PB_ATYPE_def PB_HTYPE_def PB_LTYPE_def pb_types)

lemma example_plain: "plain_message 2 example_tables 0x5000 20"
proof -
  have "plain_message (Suc 0) example_tables 0x6000 4"
    by (simp add: example_bodies example_layouts example_values example_field_simps ltypes PB_LTYPE_def)
  then have "plain_message (Suc (Suc 0)) example_tables 0x5000 20"
    using example_layouts(1)
    by (simp add: example_bodies example_values example_field_simps ltypes PB_LTYPE_def example_fields_def del: plain_message.simps(2))
      (simp add: example_bodies example_values example_field_simps ltypes PB_LTYPE_def example_fields_def)
  then show ?thesis by (simp add: numeral_2_eq_2)
qed

lemma example_terminated: "terminated_message 2 example_tables (bytes_at 0x1000 example_message) 0x5000 0x1000"
  by code_simp
lemma example_input: "load_bytes (wd_mem example_world) 0x2000 11 = Some example_bytes"
proof -
  have "load_bytes (wd_mem example_world) 0x2000 11 = load_bytes (bytes_at 0x2000 example_bytes) 0x2000 11"
    using example_apart by (intro load_bytes_cong) (auto simp: example_block disjoint_blocks_def)
  also have "\<dots> = Some example_bytes"
    by code_simp
  finally show ?thesis .
qed


theorem decode_wire_witness:
  "\<exists>s' w'. pb_decode 2 example_decode_env 0x5000 0x3000 (pb_istream_from_buffer 0x2000 11) example_world = Some (s', w', Some ()) \<and>
    is_bytes_left s' = 0 \<and> same_message 2 example_tables (bytes_at 0x1000 example_message) (wd_mem w') 0x5000 0x1000 0x3000"
proof -
  have t: "de_tables example_decode_env = example_tables" by (simp add: example_decode_env_def)
  have "mapped (wd_mem example_world) 0x3000 20"
    by (simp add: mapped_def example_block in_block_def unat_of_nat)
  with decode_wire [of 2 example_decode_env "0x5000" 20 no_calls "bytes_at 0x1000 example_message" "0x1000" example_bytes
      example_world "0x3000" "0x2000"] example_plain example_wire example_terminated example_frames example_input example_apart t
  show ?thesis by auto
qed

text \<open>The composition with the encoder: what \<open>pb_encode\<close> wrote to a buffer, \<open>pb_decode\<close> reads back from it.\<close>

text \<open>C4 (roundtrip): a message of numbers, strings, bytes of fixed length and submessages that is encoded
  into a buffer and decoded from it into another structure has all of its fields restored there.\<close>

theorem encode_decode:
  assumes "calls_write buf_write buf_room buf_within V X"
    and "plain_message n (en_tables V) flds sz" and "terminated_message n (en_tables V) (en_mem V) flds src"
    and "pb_wire n X (en_tables V) (en_mem V) flds src = Some bs"
    and "length bs \<le> unat bufsize" and "length bs < 2 ^ 32" and "mapped (wd_mem w) buf (unat bufsize)"
    and "mapped (wd_mem w) dest sz" and "disjoint_blocks dest sz buf (length bs)"
    and "de_tables E = en_tables V" and "frames_free n E w"
  shows "\<exists>out written s' w'.
    pb_encode n V flds src (pb_ostream_from_buffer buf bufsize) (wd_mem w) = Some (out, written, True) \<and>
    pb_decode n E flds dest (pb_istream_from_buffer buf (os_bytes_written out)) (w\<lparr>wd_mem := written\<rparr>) =
      Some (s', w', Some ()) \<and>
    same_message n (en_tables V) (en_mem V) (wd_mem w') flds src dest"
proof -
  from encode_to_buffer [OF assms(1,4,5,7)] obtain out written where o:
    "pb_encode n V flds src (pb_ostream_from_buffer buf bufsize) (wd_mem w) = Some (out, written, True)"
    "store_bytes (wd_mem w) buf bs = Some written" "unat (os_bytes_written out) = length bs" by blast
  let ?w = "w\<lparr>wd_mem := written\<rparr>"
  have "dom (wd_mem ?w) = dom (wd_mem w)" using store_bytes_dom [OF o(2)] by simp
  with assms(8,11) have "mapped (wd_mem ?w) dest sz" "frames_free n E ?w"
    by (simp_all add: mapped_cong_dom [of written "wd_mem w"] frames_free_dom [of ?w w])
  moreover have "load_bytes (wd_mem ?w) buf (length bs) = Some bs"
    using store_load_same [OF o(2)] assms(6) by simp
  moreover have "(of_nat (length bs) :: u64) = os_bytes_written out" by (simp flip: o(3))
  ultimately show ?thesis
    using decode_restores [of n E flds sz X "en_mem V" src bs ?w dest buf] assms o(1) by auto
qed

text \<open>The same place with nothing in the buffer yet.\<close>

definition empty_room :: pb_world where
  "empty_room = \<lparr> wd_mem = map_block 0x3000 (replicate 20 0xFF) (bytes_at 0x2000 (replicate 11 0)), wd_heap = (\<lambda>p. None) \<rparr>"

lemma empty_room_dom: "wd_mem empty_room x = None \<longleftrightarrow> wd_mem example_world x = None"
  by (simp add: empty_room_def example_world_def map_block_def bytes_at_def)

lemma empty_room_frames: "frames_free 2 example_decode_env empty_room"
  using example_frames by (rule frames_free_dom [rotated]) (auto simp: dom_def empty_room_dom)

theorem encode_decode_witness:
  "\<exists>out written s' w'.
    pb_encode 2 example_env 0x5000 0x1000 (pb_ostream_from_buffer 0x2000 11) (wd_mem empty_room) = Some (out, written, True) \<and>
    pb_decode 2 example_decode_env 0x5000 0x3000 (pb_istream_from_buffer 0x2000 (os_bytes_written out))
      (empty_room\<lparr>wd_mem := written\<rparr>) = Some (s', w', Some ()) \<and>
    same_message 2 example_tables (bytes_at 0x1000 example_message) (wd_mem w') 0x5000 0x1000 0x3000"
proof -
  have t: "de_tables example_decode_env = en_tables example_env" by (simp add: example_decode_env_def)
  have "mapped (wd_mem empty_room) 0x3000 20" "mapped (wd_mem empty_room) 0x2000 (unat (11 :: u64))"
    by (auto simp: mapped_def empty_room_dom example_block in_block_def unat_of_nat bytes_at_def)
  with encode_decode [OF example_calls(1), of 2 "0x5000" 20 "0x1000" example_bytes 11 empty_room "0x2000" "0x3000" example_decode_env]
    example_plain example_wire example_terminated empty_room_frames example_apart t
  show ?thesis by auto
qed

subsection \<open>The position of the stream\<close>

lemma decode_moves:
  assumes "steady_env E" "is_callback s = Buf_read" "pb_decode n E flds dest s w = Some (s', w', Some ())"
  shows "is_state s' + is_bytes_left s' = is_state s + is_bytes_left s \<and> is_bytes_left s' \<le> is_bytes_left s"
proof -
  have "steady (pb_decode n E flds dest)"
    using decoders_steady_all [OF assms(1), of n] by (simp add: steady_subs_def pb_decode_def)
  from steadyD [OF this assms(3)] assms(2) show ?thesis by (simp add: advances_def in_step_def)
qed

text \<open>C30 (invariant): for any message type and any input, decoding from a buffer that succeeds leaves
  the stream in step: its position has moved forward by as many bytes as are less left.\<close>

theorem decode_position:
  assumes "steady_env E" and "is_callback s = Buf_read" and "pb_decode n E flds dest s w = Some (s', w', Some ())"
  shows "is_state s' + is_bytes_left s' = is_state s + is_bytes_left s \<and> is_bytes_left s' \<le> is_bytes_left s"
  using assms by (rule decode_moves)

lemma example_decodes:
  "\<exists>s' w'. pb_decode 2 example_decode_env 0x5000 0x3000 (pb_istream_from_buffer 0x2000 11) example_world = Some (s', w', Some ()) \<and>
    is_bytes_left s' = 0"
proof -
  have t: "de_tables example_decode_env = example_tables" by (simp add: example_decode_env_def)
  have "mapped (wd_mem example_world) 0x3000 20"
    by (simp add: mapped_def example_block in_block_def unat_of_nat)
  with decode_restores [of 2 example_decode_env "0x5000" 20 no_calls "bytes_at 0x1000 example_message" "0x1000" example_bytes
      example_world "0x3000" "0x2000"] example_plain example_wire example_terminated example_frames example_input example_apart t
  show ?thesis by auto
qed

theorem decode_position_witness:
  "\<exists>s' w'. pb_decode 2 example_decode_env 0x5000 0x3000 (pb_istream_from_buffer 0x2000 11) example_world = Some (s', w', Some ()) \<and>
    is_state s' = 0x2000 + 11"
proof -
  from example_decodes obtain s' w' where d:
    "pb_decode 2 example_decode_env 0x5000 0x3000 (pb_istream_from_buffer 0x2000 11) example_world = Some (s', w', Some ())"
    "is_bytes_left s' = 0" by blast
  have "steady_env example_decode_env" by (simp add: steady_env_def example_decode_env_def steadies)
  from decode_position [OF this _ d(1)] d show ?thesis by (auto simp: pb_istream_from_buffer_def)
qed

end
