(* ===== verification/PbSafe.thy ===== *)
theory PbSafe
  imports PbRoundTrip
begin

section \<open>nanopb: decoders that are safe on any input\<close>

text \<open>
  What it means that a decoder is safe on input nobody has checked, and that the decoders of values are.

  \<open>safe D P R f\<close>: over a buffer in accessible memory \<open>f\<close> returns, with success or failure; it accesses only
  the addresses in \<open>D\<close>, which stay accessible, and changes only those in \<open>P\<close>; \<open>R\<close> holds of its result.  The
  stream stays in the buffer: \<open>within\<close>.  \<open>safe\<close> is closed under composition, and the rules that say so are
  collected in \<open>safes\<close>.  \<open>PbSafety\<close> goes on from here to messages.
\<close>

definition within :: "pb_istream_t \<Rightarrow> pb_istream_t \<Rightarrow> bool" where
  "within s' s \<longleftrightarrow> is_callback s' = is_callback s \<and>
     (\<exists>k. is_state s' = is_state s + of_nat k \<and> k + unat (is_bytes_left s') \<le> unat (is_bytes_left s))"

definition ready :: "addr set \<Rightarrow> pb_istream_t \<Rightarrow> pb_world \<Rightarrow> bool" where
  "ready D s w \<longleftrightarrow> is_callback s = Buf_read \<and> dom (wd_mem w) = D \<and>
     (\<forall>x. in_block (is_state s) (unat (is_bytes_left s)) x \<longrightarrow> x \<in> D)"

definition safe :: "addr set \<Rightarrow> (addr \<Rightarrow> bool) \<Rightarrow> ('a \<Rightarrow> bool) \<Rightarrow> 'a dec \<Rightarrow> bool" where
  "safe D P R f \<longleftrightarrow> (\<forall>s w. ready D s w \<longrightarrow>
     (\<exists>s' w' r. f s w = Some (s', w', r) \<and> within s' s \<and> changes_in P w w' \<and> (\<forall>x. r = Some x \<longrightarrow> R x)))"

definition writable :: "addr set \<Rightarrow> (addr \<Rightarrow> bool) \<Rightarrow> addr \<Rightarrow> nat \<Rightarrow> bool" where
  "writable D P d n \<longleftrightarrow> (\<forall>x. in_block d n x \<longrightarrow> x \<in> D \<and> P x)"

named_theorems safes \<open>decoders that are safe\<close>

lemma within_refl [simp]: "within s s"
  by (auto simp: within_def intro: exI [of _ 0])

lemma within_trans: "within t s \<Longrightarrow> within u t \<Longrightarrow> within u s"
proof -
  assume "within t s" "within u t"
  then obtain k l where "is_state t = is_state s + of_nat k" "k + unat (is_bytes_left t) \<le> unat (is_bytes_left s)"
    "is_state u = is_state t + of_nat l" "l + unat (is_bytes_left u) \<le> unat (is_bytes_left t)"
    "is_callback u = is_callback t" "is_callback t = is_callback s" by (auto simp: within_def)
  then show "within u s" by (auto simp: within_def add.assoc intro!: exI [of _ "k + l"])
qed

lemma within_left: "within t s \<Longrightarrow> unat (is_bytes_left t) \<le> unat (is_bytes_left s)"
  by (auto simp: within_def)

lemma within_errmsg [simp]: "within (t\<lparr>is_errmsg := m\<rparr>) s = within t s"
  by (simp add: within_def)

lemma within_take:
  assumes "k \<le> is_bytes_left s"
  shows "within (s\<lparr>is_state := is_state s + k, is_bytes_left := is_bytes_left s - k\<rparr>) s"
proof -
  have "unat k \<le> unat (is_bytes_left s)" using assms by (simp add: word_le_nat_alt)
  then show ?thesis using assms by (auto simp: within_def unat_sub intro!: exI [of _ "unat k"])
qed

lemma in_block_within:
  assumes "within t s" "in_block (is_state t) (unat (is_bytes_left t)) x"
  shows "in_block (is_state s) (unat (is_bytes_left s)) x"
proof -
  from assms(1) obtain k where k: "is_state t = is_state s + of_nat k" "k + unat (is_bytes_left t) \<le> unat (is_bytes_left s)"
    by (auto simp: within_def)
  with assms(2) have "in_block (is_state s) (k + unat (is_bytes_left t)) x"
    using unsigned_less [of "is_bytes_left s", where 'a = nat] by (intro in_later) auto
  then show ?thesis using k(2) by (rule in_block_mono)
qed

lemma changes_in_dom: "changes_in P w w' \<Longrightarrow> dom (wd_mem w') = dom (wd_mem w)"
  by (simp add: changes_in_def)

lemma within_callback: "within t s \<Longrightarrow> is_callback t = is_callback s"
  by (simp add: within_def)

lemma ready_after: "ready D s w \<Longrightarrow> within t s \<Longrightarrow> changes_in P w v \<Longrightarrow> ready D t v"
  using in_block_within [of t s] within_callback [of t s] changes_in_dom [of P w v] by (auto simp: ready_def)

lemma safeI:
  "(\<And>s w. ready D s w \<Longrightarrow> \<exists>s' w' r. f s w = Some (s', w', r) \<and> within s' s \<and> changes_in P w w' \<and> (\<forall>x. r = Some x \<longrightarrow> R x)) \<Longrightarrow>
     safe D P R f"
  by (simp add: safe_def)

lemma safeE:
  assumes "safe D P R f" "ready D s w"
  obtains s' w' r where "f s w = Some (s', w', r)" "within s' s" "changes_in P w w'" "ready D s' w'"
    "\<And>x. r = Some x \<Longrightarrow> R x"
  using assms ready_after [OF assms(2)] unfolding safe_def by metis

lemma safe_mono:
  "safe D P R f \<Longrightarrow> (\<And>x. P x \<Longrightarrow> Q x) \<Longrightarrow> (\<And>x. R x \<Longrightarrow> S x) \<Longrightarrow> safe D Q S f"
  unfolding safe_def by (meson changes_in_mono)

lemma writable_mono: "writable D P d n \<Longrightarrow> (\<And>x. in_block e k x \<Longrightarrow> in_block d n x) \<Longrightarrow> writable D P e k"
  by (simp add: writable_def)

lemma writable_prefix: "writable D P d n \<Longrightarrow> k \<le> n \<Longrightarrow> writable D P d k"
  by (erule writable_mono) (rule in_block_mono)

lemma in_dom_mapped: "dom m = D \<Longrightarrow> (\<And>x. in_block d n x \<Longrightarrow> x \<in> D) \<Longrightarrow> n \<le> 2 ^ 64 \<Longrightarrow> mapped m d n"
proof -
  assume "dom m = D" and b: "\<And>x. in_block d n x \<Longrightarrow> x \<in> D" and "n \<le> 2 ^ 64"
  moreover from this have "d + of_nat i \<in> D" if "i < n" for i using that by (intro b in_block_offset)
  ultimately show "mapped m d n" by (auto simp: mapped_def)
qed

lemma writable_mapped: "dom m = D \<Longrightarrow> writable D P d n \<Longrightarrow> n \<le> 2 ^ 64 \<Longrightarrow> mapped m d n"
  by (rule in_dom_mapped) (auto simp: writable_def)

subsection \<open>Composition\<close>

lemma safe_then:
  assumes f: "safe D P R f" and g: "\<And>x. R x \<Longrightarrow> safe D P S (g x)"
  shows "safe D P S (dec_then f g)"
proof (rule safeI)
  fix s w assume "ready D s w"
  with f obtain t v r where t: "f s w = Some (t, v, r)" "within t s" "changes_in P w v" "ready D t v" "\<And>x. r = Some x \<Longrightarrow> R x"
    by (rule safeE) blast
  show "\<exists>s' w' r. dec_then f g s w = Some (s', w', r) \<and> within s' s \<and> changes_in P w w' \<and> (\<forall>x. r = Some x \<longrightarrow> S x)"
  proof (cases r)
    case None
    with t show ?thesis by (simp add: dec_then_def)
  next
    case (Some x)
    with g t(5) have "safe D P S (g x)" by simp
    from safeE [OF this t(4)] obtain u z q where u: "g x t v = Some (u, z, q)" "within u t" "changes_in P v z" "\<And>y. q = Some y \<Longrightarrow> S y"
      by metis
    have "within u s" using t(2) u(2) by (rule within_trans)
    moreover have "changes_in P w z" using t(3) u(3) by (rule changes_in_trans)
    ultimately show ?thesis using t(1) u(1,4) Some by (simp add: dec_then_def)
  qed
qed

lemma safe_then_any [safes]:
  "safe D P (\<lambda>_. True) f \<Longrightarrow> (\<And>x. safe D P S (g x)) \<Longrightarrow> safe D P S (dec_then f g)"
  by (rule safe_then)

lemma changes_in_refl [simp]: "changes_in P w w"
  by (simp add: changes_in_def)

lemma safe_return [safes]: "R x \<Longrightarrow> safe D P R (dec_return x)"
  by (rule safeI) (simp add: dec_return_def)

lemma safe_fails [safes]: "safe D P R (dec_error msg)" "safe D P R dec_false"
  by (rule safeI, simp add: dec_error_def dec_false_def)+

lemma safe_if [safes]: "(b \<Longrightarrow> safe D P R f) \<Longrightarrow> (\<not> b \<Longrightarrow> safe D P R g) \<Longrightarrow> safe D P R (if b then f else g)"
  by simp

lemma safe_Let [safes]: "(\<And>x. x = a \<Longrightarrow> safe D P R (f x)) \<Longrightarrow> safe D P R (let x = a in f x)"
  by simp

lemma safe_load [safes]: "writable D P p n \<Longrightarrow> n \<le> 2 ^ 64 \<Longrightarrow> safe D P (\<lambda>_. True) (dec_load n p)"
proof (rule safeI)
  fix s w assume "writable D P p n" "n \<le> 2 ^ 64" "ready D s w"
  then have "mapped (wd_mem w) p n" using writable_mapped [of "wd_mem w" D P p n] by (simp add: ready_def)
  then show "\<exists>s' w' r. dec_load n p s w = Some (s', w', r) \<and> within s' s \<and> changes_in P w w' \<and> (\<forall>x. r = Some x \<longrightarrow> True)"
    using load_bytes_mapped [of "wd_mem w" p n] by (auto simp: dec_load_def load_le_def bind_Some_iff)
qed

lemma store_changes:
  assumes "dom (wd_mem w) = D" "writable D P p (length bs)" "length bs \<le> 2 ^ 64"
  obtains w' where "wd_store_bytes p bs w = Some w'" "store_bytes (wd_mem w) p bs = Some (wd_mem w')"
    "w' = w\<lparr>wd_mem := wd_mem w'\<rparr>" "changes_in P w w'"
proof -
  have "mapped (wd_mem w) p (length bs)" using assms by (intro writable_mapped)
  from store_there [OF this assms(3)] obtain w' where w': "wd_store_bytes p bs w = Some w'" "changes p (length bs) w w'" by blast
  show thesis
  proof
    show "wd_store_bytes p bs w = Some w'" by (rule w')
    show "changes_in P w w'"
      using w'(2) unfolding changes_block by (rule changes_in_mono) (use assms(2) in \<open>simp add: writable_def\<close>)
  qed (use w'(1) in \<open>auto simp: wd_store_bytes_def bind_Some_iff\<close>)
qed

lemma safe_store_bytes [safes]:
  assumes "writable D P p (length bs)" "length bs \<le> 2 ^ 64"
  shows "safe D P (\<lambda>_. True) (dec_store_bytes p bs)"
proof (rule safeI)
  fix s w assume "ready D s w"
  then have "dom (wd_mem w) = D" by (simp add: ready_def)
  from store_changes [OF this assms] obtain w' where "wd_store_bytes p bs w = Some w'" "store_bytes (wd_mem w) p bs = Some (wd_mem w')"
    "w' = w\<lparr>wd_mem := wd_mem w'\<rparr>" "changes_in P w w'" by blast
  then show "\<exists>s' w' r. dec_store_bytes p bs s w = Some (s', w', r) \<and> within s' s \<and> changes_in P w w' \<and> (\<forall>x. r = Some x \<longrightarrow> True)"
    by (auto simp: dec_store_bytes_def)
qed

lemma safe_store [safes]: "writable D P p n \<Longrightarrow> n \<le> 2 ^ 64 \<Longrightarrow> safe D P (\<lambda>_. True) (dec_store n p v)"
  unfolding dec_store_def by (rule safe_store_bytes) simp_all

subsection \<open>Reading\<close>

text \<open>Where the bytes of a read go.\<close>

definition dest_writable :: "addr set \<Rightarrow> (addr \<Rightarrow> bool) \<Rightarrow> cdest \<Rightarrow> u64 \<Rightarrow> bool" where
  "dest_writable D P buf count \<longleftrightarrow> (case buf of Dest_mem p \<Rightarrow> writable D P p (unat count) | _ \<Rightarrow> True)"

lemma dest_writable_simps [simp]:
  "dest_writable D P Dest_null n" "dest_writable D P Dest_local n"
  "dest_writable D P (Dest_mem p) n = writable D P p (unat n)"
  by (simp_all add: dest_writable_def)

definition read_length :: "cdest \<Rightarrow> u64 \<Rightarrow> u8 list \<Rightarrow> bool" where
  "read_length buf count bs \<longleftrightarrow> (buf = Dest_local \<longrightarrow> length bs = unat count)"

lemma input_there:
  assumes "ready D s w" "k \<le> is_bytes_left s"
  obtains bs where "load_bytes (wd_mem w) (is_state s) (unat k) = Some bs" "length bs = unat k"
proof -
  have "unat k \<le> unat (is_bytes_left s)" using assms(2) by (simp add: word_le_nat_alt)
  moreover from this have "x \<in> D" if "in_block (is_state s) (unat k) x" for x
    using assms(1) that in_block_mono by (auto simp: ready_def)
  ultimately have "mapped (wd_mem w) (is_state s) (unat k)"
    using assms(1) unsigned_less [of k, where 'a = nat] by (intro in_dom_mapped [of _ D]) (auto simp: ready_def)
  then show thesis using load_bytes_mapped that by blast
qed

lemma call_read_safe:
  assumes "ready D s w" "k \<le> is_bytes_left s" "dest_writable D P buf k"
  obtains w' bs where "call_read E s buf k w = Some (s\<lparr>is_state := is_state s + k\<rparr>, w', bs, True)" "changes_in P w w'"
    "read_length buf k bs"
proof -
  have cb: "is_callback s = Buf_read" using assms(1) by (simp add: ready_def)
  from input_there [OF assms(1,2)] obtain bs where bs: "load_bytes (wd_mem w) (is_state s) (unat k) = Some bs" "length bs = unat k" .
  show thesis
  proof (cases buf)
    case Dest_null
    with cb show thesis by (intro that [of w "[]"]) (simp_all add: call_read_def buf_read_def read_length_def)
  next
    case Dest_local
    with cb bs show thesis by (intro that [of w bs]) (simp_all add: call_read_def buf_read_def read_length_def)
  next
    case (Dest_mem p)
    then have "writable D P p (length bs)" "length bs \<le> 2 ^ 64" "dom (wd_mem w) = D"
      using assms bs(2) unsigned_less [of k, where 'a = nat] by (auto simp: ready_def)
    with store_changes obtain w' where "store_bytes (wd_mem w) p bs = Some (wd_mem w')"
      "w' = w\<lparr>wd_mem := wd_mem w'\<rparr>" "changes_in P w w'" by metis
    with Dest_mem cb bs show thesis
      by (intro that [of w' bs]) (auto simp: call_read_def buf_read_def read_length_def)
  qed
qed

lemma read_some_safe:
  assumes "dest_writable D P buf k"
  shows "safe D P (read_length buf k) (read_some E buf k)"
proof (rule safeI)
  fix s w assume r: "ready D s w"
  show "\<exists>s' w' r. read_some E buf k s w = Some (s', w', r) \<and> within s' s \<and> changes_in P w w' \<and>
      (\<forall>x. r = Some x \<longrightarrow> read_length buf k x)"
  proof (cases "is_bytes_left s < k")
    case True
    then show ?thesis by (simp add: read_some_def dec_error_def)
  next
    case False
    then have k: "k \<le> is_bytes_left s" by simp
    from call_read_safe [OF r k assms] obtain w' bs where
      "call_read E s buf k w = Some (s\<lparr>is_state := is_state s + k\<rparr>, w', bs, True)" "changes_in P w w'" "read_length buf k bs" .
    then show ?thesis using False within_take [OF k] by (simp add: read_some_def)
  qed
qed

lemma read_safe:
  assumes "dest_writable D P buf k"
  shows "safe D P (read_length buf k) (pb_read E buf k)"
proof (rule safeI)
  fix s w assume r: "ready D s w"
  then have cb: "is_callback s = Buf_read" by (simp add: ready_def)
  show "\<exists>s' w' r. pb_read E buf k s w = Some (s', w', r) \<and> within s' s \<and> changes_in P w w' \<and>
      (\<forall>x. r = Some x \<longrightarrow> read_length buf k x)"
  proof (cases "k = 0")
    case True
    then show ?thesis by (simp add: pb_read_def read_length_def)
  next
    case False
    with cb have "pb_read E buf k s w = read_some E buf k s w" by (simp add: pb_read_def)
    with safeE [OF read_some_safe [OF assms, of E] r] show ?thesis by metis
  qed
qed

lemma read_any [safes]: "dest_writable D P buf k \<Longrightarrow> safe D P (\<lambda>_. True) (pb_read E buf k)"
  by (rule safe_mono [OF read_safe]) simp_all

lemma readbyte_safe [safes]: "safe D P (\<lambda>_. True) (pb_readbyte E)"
proof (rule safeI)
  fix s w assume r: "ready D s w"
  show "\<exists>s' w' r. pb_readbyte E s w = Some (s', w', r) \<and> within s' s \<and> changes_in P w w' \<and> (\<forall>x. r = Some x \<longrightarrow> True)"
  proof (cases "is_bytes_left s = 0")
    case True
    then show ?thesis by (simp add: pb_readbyte_def dec_error_def)
  next
    case False
    then have k: "1 \<le> is_bytes_left s" by (simp add: word_le_nat_alt unat_gt_0 Suc_le_eq)
    from call_read_safe [OF r k, of P Dest_local E] obtain w' bs where
      "call_read E s Dest_local 1 w = Some (s\<lparr>is_state := is_state s + 1\<rparr>, w', bs, True)" "changes_in P w w'"
      "read_length Dest_local 1 bs" by auto
    moreover from this obtain b where "bs = [b]" by (auto simp: read_length_def length_Suc_conv)
    ultimately show ?thesis using False within_take [OF k] by (simp add: pb_readbyte_def)
  qed
qed

subsection \<open>Numbers\<close>

text \<open>A loop that reads a byte in every turn ends with more fuel than bytes.\<close>

definition returns ::
  "(addr \<Rightarrow> bool) \<Rightarrow> pb_istream_t \<Rightarrow> pb_world \<Rightarrow> (pb_istream_t \<times> pb_world \<times> 'a option) option \<Rightarrow> bool" where
  "returns P s w y \<longleftrightarrow> (\<exists>s' w' r. y = Some (s', w', r) \<and> within s' s \<and> changes_in P w w')"

lemma returns_simps [simp]:
  "returns P s w (dec_error msg s w)" "returns P s w (dec_return x s w)" "returns P s w (Some (s, w, r))"
  by (simp_all add: returns_def dec_error_def dec_return_def)

lemma returns_then:
  assumes f: "safe D P R f" and r: "ready D s w"
    and g: "\<And>x t v. f s w = Some (t, v, Some x) \<Longrightarrow> ready D t v \<Longrightarrow> within t s \<Longrightarrow> R x \<Longrightarrow> returns P t v (g x t v)"
  shows "returns P s w (dec_then f g s w)"
proof -
  from f r obtain t v y where t: "f s w = Some (t, v, y)" "within t s" "changes_in P w v" "ready D t v" "\<And>x. y = Some x \<Longrightarrow> R x"
    by (rule safeE) blast
  show ?thesis
  proof (cases y)
    case None
    with t show ?thesis by (simp add: dec_then_def returns_def)
  next
    case (Some x)
    with g t obtain s' w' z where z: "g x t v = Some (s', w', z)" "within s' t" "changes_in P v w'" by (auto simp: returns_def)
    have "within s' s" using t(2) z(2) by (rule within_trans)
    moreover have "changes_in P w w'" using t(3) z(3) by (rule changes_in_trans)
    ultimately show ?thesis using t(1) z(1) Some by (simp add: dec_then_def returns_def)
  qed
qed

lemma returns_turn:
  assumes r: "ready D s w" "unat (is_bytes_left s) < Suc fuel"
    and g: "\<And>b t v. ready D t v \<Longrightarrow> unat (is_bytes_left t) < fuel \<Longrightarrow> returns P t v (g b t v)"
  shows "returns P s w (dec_then (pb_readbyte E) g s w)"
  using readbyte_safe r(1)
proof (rule returns_then)
  fix b t v
  assume "pb_readbyte E s w = Some (t, v, Some b)" "ready D t v"
  moreover from this(1) have "is_bytes_left t < is_bytes_left s" by (rule readbyte_consumes)
  ultimately show "returns P t v (g b t v)" using r(2) by (intro g) (simp_all add: word_less_nat_alt)
qed

lemma varint32_loop_returns:
  "ready D s w \<Longrightarrow> unat (is_bytes_left s) < fuel \<Longrightarrow> returns P s w (varint32_loop fuel E result bitpos s w)"
proof (induction fuel arbitrary: result bitpos s w)
  case (Suc fuel)
  show ?case
    unfolding varint32_loop.simps Let_def
    by (rule returns_turn [OF Suc.prems]) (simp add: Suc.IH)
qed simp

lemma varint32_eof_returns:
  assumes "ready D s w"
  obtains s' w' r eof where "pb_decode_varint32_eof E s w = Some (s', w', r, eof)" "within s' s" "changes_in P w w'"
proof -
  from readbyte_safe assms obtain t v b where t: "pb_readbyte E s w = Some (t, v, b)" "within t s" "changes_in P w v" "ready D t v"
    by (rule safeE) blast
  show thesis
  proof (cases b)
    case None
    with t that show thesis by (simp add: pb_decode_varint32_eof_def)
  next
    case (Some byte)
    obtain s' w' r where l: "varint32_loop (Suc (unat (is_bytes_left t))) E (ucast (byte AND 0x7F)) 7 t v = Some (s', w', r)"
      "within s' t" "changes_in P v w'"
      using varint32_loop_returns [OF t(4) lessI, of P E "ucast (byte AND 0x7F)" 7]
      by (auto simp: returns_def simp del: varint32_loop.simps)
    show thesis
    proof (cases "byte AND 0x80 = 0")
      case True
      with t Some that show thesis by (auto simp: pb_decode_varint32_eof_def)
    next
      case False
      have "within s' s" using t(2) l(2) by (rule within_trans)
      moreover have "changes_in P w w'" using t(3) l(3) by (rule changes_in_trans)
      ultimately show thesis
        using that t(1) l(1) Some False by (simp add: pb_decode_varint32_eof_def del: varint32_loop.simps)
    qed
  qed
qed

lemma varint32_safe [safes]: "safe D P (\<lambda>_. True) (pb_decode_varint32 E)"
proof (rule safeI)
  fix s w assume "ready D s w"
  then obtain s' w' r eof where "pb_decode_varint32_eof E s w = Some (s', w', r, eof)" "within s' s" "changes_in P w w'"
    by (rule varint32_eof_returns)
  then show "\<exists>s' w' r. pb_decode_varint32 E s w = Some (s', w', r) \<and> within s' s \<and> changes_in P w w' \<and> (\<forall>x. r = Some x \<longrightarrow> True)"
    by (simp add: pb_decode_varint32_def)
qed

lemma safe_returns: "safe D P (\<lambda>_. True) f \<longleftrightarrow> (\<forall>s w. ready D s w \<longrightarrow> returns P s w (f s w))"
  by (simp add: safe_def returns_def)

lemma tag_returns:
  assumes "ready D s w"
  obtains s' w' r eof where "pb_decode_tag E s w = Some (s', w', r, eof)" "within s' s" "changes_in P w w'"
proof -
  from assms obtain s' w' r eof where "pb_decode_varint32_eof E s w = Some (s', w', r, eof)" "within s' s" "changes_in P w w'"
    by (rule varint32_eof_returns)
  with that show thesis by (cases r; cases "r = Some 0") (simp_all add: pb_decode_tag_def)
qed

lemma skip_varint_loop_returns:
  "ready D s w \<Longrightarrow> unat (is_bytes_left s) < fuel \<Longrightarrow> returns P s w (skip_varint_loop fuel E s w)"
proof (induction fuel arbitrary: s w)
  case (Suc fuel)
  have read: "safe D P (read_length Dest_local 1) (pb_read E Dest_local 1)" by (rule read_safe) simp
  show ?case
    unfolding skip_varint_loop.simps
    using read Suc.prems(1)
  proof (rule returns_then)
    fix bs t v
    assume r: "pb_read E Dest_local 1 s w = Some (t, v, Some bs)" "ready D t v" "read_length Dest_local 1 bs"
    from r(3) obtain b where bs: "bs = [b]" by (auto simp: read_length_def length_Suc_conv)
    have "is_bytes_left t = is_bytes_left s - 1" "1 \<le> is_bytes_left s"
      using r(1) by (auto simp: pb_read_def dest: read_some_left)
    then have "unat (is_bytes_left t) < fuel" using Suc.prems(2) by (simp add: unat_sub word_le_nat_alt)
    with r(2) show "returns P t v ((case bs of [] \<Rightarrow> \<lambda>stream w. None | byte # x \<Rightarrow>
        if byte AND 0x80 \<noteq> 0 then skip_varint_loop fuel E else dec_return ()) t v)"
      by (simp add: bs Suc.IH)
  qed
qed simp

lemma skip_varint_safe [safes]: "safe D P (\<lambda>_. True) (pb_skip_varint E)"
  unfolding safe_returns pb_skip_varint_def by (simp add: skip_varint_loop_returns del: skip_varint_loop.simps)

lemma skip_string_safe [safes]: "safe D P (\<lambda>_. True) (pb_skip_string E)"
  unfolding pb_skip_string_def by (intro safes) simp_all

lemma skip_field_safe [safes]: "safe D P (\<lambda>_. True) (pb_skip_field E wt)"
  unfolding pb_skip_field_def by (intro safes) (simp_all add: safes)

lemma varint64_loop_safe [safes]:
  "unat bitpos + 7 * fuel = 77 \<Longrightarrow> 0 < fuel \<Longrightarrow> safe D P (\<lambda>_. True) (varint64_loop fuel E result bitpos)"
proof (induction fuel arbitrary: result bitpos)
  case (Suc fuel)
  show ?case
  proof (cases "64 \<le> bitpos")
    case True
    then show ?thesis by (simp add: safes)
  next
    case False
    then have "unat bitpos < 64" by (simp add: word_le_nat_alt)
    then have "unat (bitpos + 7) + 7 * fuel = 77" "0 < fuel" using Suc.prems(1) by (simp_all add: unat_word_ariths)
    note Suc.IH [OF this]
    then show ?thesis using False by (auto simp: Let_def intro!: safes simp del: varint64_loop.simps(1))
  qed
qed simp

lemma varint_safe [safes]: "safe D P (\<lambda>_. True) (pb_decode_varint E)"
  unfolding pb_decode_varint_def by (rule varint64_loop_safe) simp_all

lemma svarint_safe [safes]: "safe D P (\<lambda>_. True) (pb_decode_svarint E)"
  unfolding pb_decode_svarint_def by (intro safes) (simp_all add: safes)

lemma store_signed_safe [safes]: "writable D P d (unat n) \<Longrightarrow> safe D P (\<lambda>_. True) (store_signed n d v)"
  unfolding store_signed_def by (intro safes) (simp_all add: safes)

lemma store_unsigned_safe [safes]: "writable D P d (unat n) \<Longrightarrow> safe D P (\<lambda>_. True) (store_unsigned n d v)"
  unfolding store_unsigned_def by (intro safes) (simp_all add: safes)

lemma integers_safe [safes]:
  assumes "writable D P d (unat (fld_data_size f))"
  shows "safe D P (\<lambda>_. True) (pb_dec_varint E f d)" "safe D P (\<lambda>_. True) (pb_dec_uvarint E f d)"
    "safe D P (\<lambda>_. True) (pb_dec_svarint E f d)"
  unfolding pb_dec_varint_def pb_dec_uvarint_def pb_dec_svarint_def
  by (intro safes assms; simp)+

lemma bool_safe [safes]: "writable D P d 1 \<Longrightarrow> safe D P (\<lambda>_. True) (pb_dec_bool E f d)"
  unfolding pb_dec_bool_def by (intro safes) simp_all

lemma fixed32_safe [safes]:
  assumes "writable D P d 4"
  shows "safe D P (\<lambda>_. True) (pb_dec_fixed32 E f d)"
  unfolding pb_dec_fixed32_def pb_decode_fixed32_def
proof (rule safe_then [OF read_safe])
  fix bytes assume "read_length Dest_local 4 bytes"
  then have "length bytes = 4" by (simp add: read_length_def)
  then obtain b0 b1 b2 b3 where "bytes = [b0, b1, b2, b3]" by (auto simp: length_Suc_conv eval_nat_numeral)
  then show "safe D P (\<lambda>_. True) (case bytes of b0 # b1 # b2 # b3 # _ \<Rightarrow>
      dec_store 4 d (push_bit 0 (ucast b0) OR push_bit 8 (ucast b1) OR push_bit 16 (ucast b2) OR
        push_bit 24 (ucast b3) :: u32) | _ \<Rightarrow> (\<lambda>stream w. None))"
    using assms by (auto intro: safes)
qed simp

lemma fixed64_safe [safes]:
  assumes "writable D P d 8"
  shows "safe D P (\<lambda>_. True) (pb_dec_fixed64 E f d)"
  unfolding pb_dec_fixed64_def pb_decode_fixed64_def
proof (rule safe_then [OF read_safe])
  fix bytes assume "read_length Dest_local 8 bytes"
  then have "length bytes = 8" by (simp add: read_length_def)
  then obtain b0 b1 b2 b3 b4 b5 b6 b7 where "bytes = [b0, b1, b2, b3, b4, b5, b6, b7]"
    by (auto simp: length_Suc_conv eval_nat_numeral)
  then show "safe D P (\<lambda>_. True) (case bytes of b0 # b1 # b2 # b3 # b4 # b5 # b6 # b7 # _ \<Rightarrow>
      dec_store 8 d (push_bit 0 (ucast b0) OR push_bit 8 (ucast b1) OR push_bit 16 (ucast b2) OR
        push_bit 24 (ucast b3) OR push_bit 32 (ucast b4) OR push_bit 40 (ucast b5) OR push_bit 48 (ucast b6) OR
        push_bit 56 (ucast b7) :: u64) | _ \<Rightarrow> (\<lambda>stream w. None))"
    using assms by (auto intro: safes)
qed simp

lemma size_small: "unat (n :: u32) \<le> 2 ^ 64"
  using unsigned_less [of n, where 'a = nat] by simp

declare ucast_u32(2) [simp]

lemma fixed_length_safe [safes]:
  assumes "writable D P d (unat (fld_data_size f))"
  shows "safe D P (\<lambda>_. True) (pb_dec_fixed_length_bytes E f d)"
  unfolding pb_dec_fixed_length_bytes_def using assms size_small [of "fld_data_size f"] by (intro safes) simp_all

subsection \<open>Strings and bytes\<close>

lemma writable_offset:
  assumes "writable D P d n" "k + l \<le> n" "n < 2 ^ 64"
  shows "writable D P (d + of_nat k) l"
  using assms(1)
proof (rule writable_mono)
  fix x assume "in_block (d + of_nat k) l x"
  then have "in_block d (k + l) x" using assms(2,3) by (intro in_later) auto
  then show "in_block d n x" using assms(2) by (rule in_block_mono)
qed

lemma dest_or_alloc_safe:
  assumes "PB_ATYPE (fld_type f) = PB_ATYPE_STATIC" "\<not> ucast (fld_data_size f) < n \<Longrightarrow> safe D P S (g d)"
  shows "safe D P S (dec_then (dest_or_alloc E f d n msg) g)"
proof (rule safe_then)
  show "safe D P (\<lambda>x. x = d \<and> \<not> ucast (fld_data_size f) < n) (dest_or_alloc E f d n msg)"
    using assms(1) by (simp add: dest_or_alloc_def safes)
qed (use assms(2) in blast)

lemma bytes_safe [safes]:
  assumes "writable D P d (unat (fld_data_size f))" "PB_ATYPE (fld_type f) = PB_ATYPE_STATIC"
  shows "safe D P (\<lambda>_. True) (pb_dec_bytes E f d)"
  unfolding pb_dec_bytes_def
proof (rule safe_then_any [OF varint32_safe])
  fix n :: u32
  have alloc: "unat (PB_BYTES_ARRAY_T_ALLOCSIZE (ucast n)) = unat n + 4"
    using unsigned_less [of n, where 'a = nat] by (simp add: PB_BYTES_ARRAY_T_ALLOCSIZE_def unat_word_ariths)
  show "safe D P (\<lambda>_. True) (let alloc_size = PB_BYTES_ARRAY_T_ALLOCSIZE (ucast n) in
      if PB_SIZE_MAX < n then dec_error ''bytes overflow''
      else if alloc_size < ucast n then dec_error ''size too large''
      else dec_then (dest_or_alloc E f d alloc_size ''bytes overflow'') (\<lambda>bdest.
        dec_then (dec_store 4 bdest n) (\<lambda>_.
        dec_then (pb_read E (Dest_mem (bdest + 4)) (ucast n)) (\<lambda>_. dec_return ()))))"
    unfolding Let_def
  proof (intro safe_if safe_fails dest_or_alloc_safe assms(2))
    assume "\<not> ucast (fld_data_size f) < PB_BYTES_ARRAY_T_ALLOCSIZE (ucast n)"
    then have "unat n + 4 \<le> unat (fld_data_size f)" using alloc by (simp add: word_less_nat_alt)
    then have "writable D P d 4" "writable D P (d + 4) (unat n)"
      using writable_prefix [OF assms(1)] writable_offset [OF assms(1), of 4 "unat n"]
        unsigned_less [of "fld_data_size f", where 'a = nat] by simp_all
    then show "safe D P (\<lambda>_. True) (dec_then (dec_store 4 d n) (\<lambda>_.
        dec_then (pb_read E (Dest_mem (d + 4)) (ucast n)) (\<lambda>_. dec_return ())))"
      by (intro safes) simp_all
  qed
qed

lemma string_safe [safes]:
  assumes "writable D P d (unat (fld_data_size f))" "PB_ATYPE (fld_type f) = PB_ATYPE_STATIC"
  shows "safe D P (\<lambda>_. True) (pb_dec_string E f d)"
  unfolding pb_dec_string_def
proof (rule safe_then_any [OF varint32_safe])
  fix n :: u32
  let ?g = "\<lambda>dest stream w. do {
       (stream, w, status) \<leftarrow> pb_read E (Dest_mem dest) (ucast n) stream w;
       w \<leftarrow> wd_store_bytes (dest + ucast n) [0] w;
       Some (stream, w, map_option (\<lambda>_. ()) status) }"
  show "safe D P (\<lambda>_. True) (let alloc_size = (ucast (n + 1) :: u64) in
      if alloc_size < ucast n then dec_error ''size too large''
      else dec_then (dest_or_alloc E f d alloc_size ''string overflow'') ?g)"
    unfolding Let_def
  proof (intro safe_if safe_fails dest_or_alloc_safe assms(2))
    assume "\<not> (ucast (n + 1) :: u64) < ucast n" "\<not> ucast (fld_data_size f) < (ucast (n + 1) :: u64)"
    then have le: "unat n \<le> unat (n + 1)" "unat (n + 1) \<le> unat (fld_data_size f)" by (simp_all add: word_less_nat_alt)
    then have "unat (n + 1) = unat n + 1" by (auto simp: unat_word_ariths mod_Suc split: if_splits)
    with le(2) have k: "unat n + 1 \<le> unat (fld_data_size f)" by simp
    have w: "writable D P d (unat n)" "writable D P (d + ucast n) 1"
      using writable_prefix [OF assms(1)] writable_offset [OF assms(1) k] k
        unsigned_less [of "fld_data_size f", where 'a = nat] by simp_all
    show "safe D P (\<lambda>_. True) (?g d)"
    proof (rule safeI)
      fix s w assume "ready D s w"
      moreover have "safe D P (\<lambda>_. True) (pb_read E (Dest_mem d) (ucast n))" using w by (intro safes) simp
      ultimately obtain t v r where t: "pb_read E (Dest_mem d) (ucast n) s w = Some (t, v, r)" "within t s" "changes_in P w v" "ready D t v"
        by (metis safeE)
      from t(4) have "dom (wd_mem v) = D" by (simp add: ready_def)
      from store_changes [OF this, of P "d + ucast n" "[0]"] w(2) obtain u where
        "wd_store_bytes (d + ucast n) [0] v = Some u" "changes_in P v u" by auto
      with t show "\<exists>s' w' r. ?g d s w = Some (s', w', r) \<and> within s' s \<and> changes_in P w w' \<and> (\<forall>x. r = Some x \<longrightarrow> True)"
        by (auto intro: changes_in_trans)
    qed
  qed
qed

end
