(* ===== verification/PbSafety.thy ===== *)
theory PbSafety
  imports PbSafe
begin

section \<open>nanopb: decoding any input is safe\<close>

text \<open>
  What \<open>pb_decode\<close> does with input nobody has checked.  For message types whose fields are all in the
  structure - numbers, strings, bytes, submessages, arrays with a count, oneofs - decoding from a buffer
  returns for every content of the buffer, with success or with failure: it neither runs forever nor
  accesses memory that is not there, and it changes the structure only.

  \<open>static_message\<close> says which tables are meant: every field and its count or flag has its place in the
  structure.  Unlike for the round trip the places may overlap.
\<close>

subsection \<open>Substreams\<close>

lemma make_substream_returns:
  assumes "ready D s w"
  obtains t v r where "pb_make_string_substream E s w = Some (t, v, r)" "within t s" "changes_in P w v" "ready D t v"
    and "\<And>sub. r = Some sub \<Longrightarrow> is_callback sub = Buf_read \<and> is_state sub = is_state t \<and>
      within (t\<lparr>is_bytes_left := is_bytes_left sub + is_bytes_left t\<rparr>) s \<and> ready D sub v \<and>
      unat (is_bytes_left sub + is_bytes_left t) = unat (is_bytes_left sub) + unat (is_bytes_left t)"
proof -
  from varint32_safe assms obtain t v r where t: "pb_decode_varint32 E s w = Some (t, v, r)" "within t s" "changes_in P w v" "ready D t v"
    by (rule safeE) blast
  show thesis
  proof (cases "\<exists>n. r = Some n \<and> ucast n \<le> is_bytes_left t")
    case False
    then have "pb_make_string_substream E s w =
        Some (if r = None then t else t\<lparr>is_errmsg := (case is_errmsg t of None \<Rightarrow> Some ''parent stream too short'' | Some e \<Rightarrow> Some e)\<rparr>, v, None)"
      using t(1) by (cases r) (auto simp: pb_make_string_substream_def dec_then_def dec_error_def not_le)
    moreover have "ready D (t\<lparr>is_errmsg := m\<rparr>) v" for m using t(4) by (simp add: ready_def)
    ultimately show thesis using t(2,3,4) by (cases r) (force intro!: that)+
  next
    case True
    then obtain n where n: "r = Some n" "ucast n \<le> is_bytes_left t" by blast
    let ?t = "t\<lparr>is_bytes_left := is_bytes_left t - ucast n\<rparr>" and ?sub = "t\<lparr>is_bytes_left := ucast n\<rparr>"
    have le: "unat (is_bytes_left t - ucast n) \<le> unat (is_bytes_left t)" "unat (ucast n :: u64) \<le> unat (is_bytes_left t)"
      using n(2) by (simp_all add: unat_sub word_le_nat_alt)
    then have "within ?t t" "within ?sub t" by (auto simp: within_def intro: exI [of _ 0])
    then have "within ?t s" "ready D ?t v" "ready D ?sub v"
      using t(2) ready_after [OF t(4) _ changes_in_refl] by (auto intro: within_trans)
    moreover have "pb_make_string_substream E s w = Some (?t, v, Some ?sub)"
      using t(1) n by (simp add: pb_make_string_substream_def dec_then_def Let_def leD)
    moreover have "unat (ucast n + (is_bytes_left t - ucast n)) = unat (ucast n :: u64) + unat (is_bytes_left t - ucast n)"
      using le n(2) by (simp add: unat_sub)
    ultimately show thesis using t(2,3,4) by (intro that [of ?t v "Some ?sub"]) (auto simp: ready_def)
  qed
qed

text \<open>The substream may have been read in part, and is read to its end when it is closed.\<close>

lemma close_substream_safe:
  assumes sub: "ready D sub w" "within sub sub0" and t: "is_state sub0 = is_state t"
    and s: "within (t\<lparr>is_bytes_left := is_bytes_left sub0 + is_bytes_left t\<rparr>) s" "within t s"
    and sum: "unat (is_bytes_left sub0 + is_bytes_left t) = unat (is_bytes_left sub0) + unat (is_bytes_left t)"
  obtains t' w' r where "pb_close_string_substream E sub t w = Some (t', w', r)" "within t' s" "changes_in P w w'"
proof -
  let ?read = "if is_bytes_left sub \<noteq> 0 then pb_read E Dest_null (is_bytes_left sub) sub w else Some (sub, w, Some [])"
  have cb: "is_callback sub = Buf_read" using sub(1) by (simp add: ready_def)
  then have r: "\<exists>w'. ?read = Some (sub\<lparr>is_state := is_state sub + is_bytes_left sub, is_bytes_left := 0\<rparr>, w, Some [])"
    by (simp add: pb_read_def read_some_def call_read_def buf_read_def)
  let ?t = "t\<lparr>is_state := is_state sub + is_bytes_left sub, is_errmsg := is_errmsg sub\<rparr>"
  from sub(2) obtain k where k: "is_state sub = is_state sub0 + of_nat k" "k + unat (is_bytes_left sub) \<le> unat (is_bytes_left sub0)"
    by (auto simp: within_def)
  have "within ?t (t\<lparr>is_bytes_left := is_bytes_left sub0 + is_bytes_left t\<rparr>)"
    using k t sum by (auto simp: within_def add.assoc intro!: exI [of _ "k + unat (is_bytes_left sub)"])
  then have "within ?t s" using s(1) by (rule within_trans [rotated])
  moreover have "pb_close_string_substream E sub t w = Some (?t, w, Some ())"
    using r by (simp add: pb_close_string_substream_def)
  ultimately show thesis by (intro that [of ?t w "Some ()"]) (simp_all del: within_errmsg)
qed

lemma returns_from: "returns P t v y \<Longrightarrow> within t s \<Longrightarrow> changes_in P w v \<Longrightarrow> returns P s w y"
  by (auto simp: returns_def intro: within_trans changes_in_trans)

text \<open>A decoder that runs on the substream; then it is closed, unless the decoder left something unexpected.\<close>

lemma substream_safe:
  assumes f: "\<And>sub v. ready D sub v \<Longrightarrow> returns P sub v (f sub sub v)"
  shows "safe D P (\<lambda>_. True) (dec_then (pb_make_string_substream E) (\<lambda>sub. dec_then (on_substream sub (f sub)) (\<lambda>(sub, status).
    if c sub then dec_error msg
    else dec_then (pb_close_string_substream E sub) (\<lambda>_ stream w. Some (stream, w, status)))))"
    (is "safe D P _ (dec_then _ (\<lambda>sub. ?rest sub))")
  unfolding safe_returns
proof (intro allI impI)
  fix s w assume r: "ready D s w"
  obtain t v q where t: "pb_make_string_substream E s w = Some (t, v, q)" "within t s" "changes_in P w v" "ready D t v"
    and sub: "\<And>sub. q = Some sub \<Longrightarrow> is_callback sub = Buf_read \<and> is_state sub = is_state t \<and>
      within (t\<lparr>is_bytes_left := is_bytes_left sub + is_bytes_left t\<rparr>) s \<and> ready D sub v \<and>
      unat (is_bytes_left sub + is_bytes_left t) = unat (is_bytes_left sub) + unat (is_bytes_left t)"
    using make_substream_returns [OF r, of E P] by blast
  show "returns P s w (dec_then (pb_make_string_substream E) ?rest s w)"
  proof (cases q)
    case None
    with t show ?thesis by (simp add: dec_then_def returns_def)
  next
    case (Some sub0)
    note S = sub [OF Some]
    from f [of sub0 v] S obtain sub v2 st where f2: "f sub0 sub0 v = Some (sub, v2, st)" "within sub sub0" "changes_in P v v2"
      by (auto simp: returns_def)
    have r2: "ready D sub v2" using ready_after [OF _ f2(2,3)] S by simp
    have ch: "changes_in P w v2" using t(3) f2(3) by (rule changes_in_trans)
    have "returns P s w (if c sub then dec_error msg t v2
        else dec_then (pb_close_string_substream E sub) (\<lambda>_ stream w. Some (stream, w, st)) t v2)"
    proof (cases "c sub")
      case True
      then show ?thesis using returns_from [OF returns_simps(1) t(2) ch] by simp
    next
      case False
      obtain t' w' r' where cl: "pb_close_string_substream E sub t v2 = Some (t', w', r')" "within t' s" "changes_in P v2 w'"
        using close_substream_safe [OF r2 f2(2), of t s E P] S t(2) by auto
      have "changes_in P w w'" using ch cl(3) by (rule changes_in_trans)
      with False cl(1,2) show ?thesis by (cases r') (simp_all add: dec_then_def returns_def)
    qed
    with t(1) Some f2(1) show ?thesis by (cases "c sub") (simp_all add: dec_then_def on_substream_def)
  qed
qed

lemma then_close_safe:
  assumes "\<And>sub. safe D P (\<lambda>_. True) (f sub)"
  shows "safe D P (\<lambda>_. True) (dec_then (pb_make_string_substream E) (\<lambda>sub. then_close E sub (f sub)))"
  using substream_safe [of D P f E "\<lambda>_. False"] assms by (simp add: then_close_def safe_returns)

subsection \<open>Fields in the structure\<close>

definition data_length :: "pb_field_t \<Rightarrow> nat" where
  "data_length f = unat (fld_data_size f) *
     (if PB_HTYPE (fld_type f) = PB_HTYPE_REPEATED then unat (fld_array_size f) else 1)"

definition count_length :: "pb_field_t list \<Rightarrow> nat \<Rightarrow> nat" where
  "count_length body i =
     (let h = PB_HTYPE (fld_type (body ! i)) in
      if h = PB_HTYPE_OPTIONAL then (if size_at body 0 i \<noteq> data_at body 0 i then 1 else 0)
      else if h = PB_HTYPE_REPEATED \<or> h = PB_HTYPE_ONEOF then 4 else 0)"

definition static_field :: "pb_field_t list \<Rightarrow> nat \<Rightarrow> nat \<Rightarrow> bool" where
  "static_field body sz i \<longleftrightarrow>
     (let f = body ! i; l = PB_LTYPE (fld_type f); n = unat (fld_data_size f) in
      PB_ATYPE (fld_type f) = PB_ATYPE_STATIC \<and> l \<le> PB_LTYPE_FIXED_LENGTH_BYTES \<and> l \<noteq> PB_LTYPE_EXTENSION \<and>
      (l = PB_LTYPE_BOOL \<longrightarrow> 1 \<le> n) \<and> (l = PB_LTYPE_FIXED32 \<longrightarrow> 4 \<le> n) \<and> (l = PB_LTYPE_FIXED64 \<longrightarrow> 8 \<le> n) \<and>
      (l = PB_LTYPE_SUBMESSAGE \<longleftrightarrow> fld_ptr f \<noteq> 0) \<and>
      (PB_HTYPE (fld_type f) = PB_HTYPE_REPEATED \<longrightarrow> size_at body 0 i \<noteq> data_at body 0 i \<and> data_length f < 2 ^ 32) \<and>
      unat (data_at body 0 i) + data_length f \<le> sz \<and>
      (0 < count_length body i \<longrightarrow> unat (size_at body 0 i) + count_length body i \<le> sz))"

fun static_message :: "nat \<Rightarrow> pb_tables \<Rightarrow> addr \<Rightarrow> nat \<Rightarrow> bool" where
  "static_message 0 T flds sz = False"
| "static_message (Suc n) T flds sz =
     (case table_fields T flds of
        None \<Rightarrow> False
      | Some body \<Rightarrow> body \<noteq> [] \<and> length body < 2 ^ 32 \<and> sz < 2 ^ 64 \<and> list_all (\<lambda>i. static_field body sz i \<and>
          (PB_LTYPE (fld_type (body ! i)) = PB_LTYPE_SUBMESSAGE \<longrightarrow>
             static_message n T (fld_ptr (body ! i)) (unat (fld_data_size (body ! i))))) [0..<length body])"

lemma static_messageE:
  assumes "static_message n T flds sz"
  obtains k body where "n = Suc k" "table_fields T flds = Some body" "body \<noteq> []" "length body < 2 ^ 32" "sz < 2 ^ 64"
    "\<And>i. i < length body \<Longrightarrow> static_field body sz i"
    "\<And>i. i < length body \<Longrightarrow> PB_LTYPE (fld_type (body ! i)) = PB_LTYPE_SUBMESSAGE \<Longrightarrow>
      static_message k T (fld_ptr (body ! i)) (unat (fld_data_size (body ! i)))"
  using assms by (cases n) (auto simp: list_all_iff split: option.splits)

text \<open>The places of a field can be written when the structure can.\<close>

lemma field_places:
  assumes d: "writable D P d sz" and s: "static_field body sz i" and sz: "sz < 2 ^ 64"
  shows "writable D P (data_at body d i) (data_length (body ! i))"
    and "0 < count_length body i \<Longrightarrow> writable D P (size_at body d i) (count_length body i)"
proof -
  have "unat (data_at body 0 i) + data_length (body ! i) \<le> sz" using s by (simp add: static_field_def Let_def)
  from writable_offset [OF d this sz] show "writable D P (data_at body d i) (data_length (body ! i))"
    using data_at_shift [of body d i] by simp
next
  assume "0 < count_length body i"
  then have "unat (size_at body 0 i) + count_length body i \<le> sz" using s by (simp add: static_field_def Let_def)
  from writable_offset [OF d this sz] show "writable D P (size_at body d i) (count_length body i)"
    using size_at_shift [of body d i] by simp
qed

lemma at_shift_eq: "size_at body d i = data_at body d i \<longleftrightarrow> size_at body 0 i = data_at body 0 i"
  using data_at_shift [of body d i] size_at_shift [of body d i] by simp

lemma data_length_single: "PB_HTYPE (fld_type f) \<noteq> PB_HTYPE_REPEATED \<Longrightarrow> data_length f = unat (fld_data_size f)"
  by (simp add: data_length_def)

lemma count_length_4:
  "PB_HTYPE (fld_type (body ! i)) = PB_HTYPE_REPEATED \<or> PB_HTYPE (fld_type (body ! i)) = PB_HTYPE_ONEOF \<Longrightarrow>
     count_length body i = 4"
  by (auto simp: count_length_def Let_def)

text \<open>An item of an array, with the arithmetic of 32 bits.\<close>

lemma item_writable:
  assumes w: "writable D P p (data_length f)" and h: "PB_HTYPE (fld_type f) = PB_HTYPE_REPEATED"
    and l: "data_length f < 2 ^ 32" and c: "c < fld_array_size f"
  shows "writable D P (item_at p f c) (unat (fld_data_size f))"
proof -
  let ?n = "unat (fld_data_size f)"
  have "Suc (unat c) \<le> unat (fld_array_size f)" using c by (simp add: word_less_nat_alt)
  then have "?n * Suc (unat c) \<le> ?n * unat (fld_array_size f)" by (rule mult_le_mono2)
  then have le: "?n * Suc (unat c) \<le> data_length f" using h by (simp add: data_length_def)
  then have "?n * unat c < 2 ^ 32" using l by simp
  then have "unat (fld_data_size f * c) = ?n * unat c" using unat_mult_lem [of "fld_data_size f" c] by simp
  then have i: "item_at p f c = p + of_nat (?n * unat c)"
    unfolding item_at_def ucast_u32(1) by (simp only:)
  have "?n * unat c + ?n \<le> data_length f" using le by simp
  then show ?thesis unfolding i using l by (intro writable_offset [OF w]) simp_all
qed

subsection \<open>Updates of the memory\<close>

definition safe_upd :: "addr set \<Rightarrow> (addr \<Rightarrow> bool) \<Rightarrow> upd \<Rightarrow> bool" where
  "safe_upd D P u \<longleftrightarrow> (\<forall>w. dom (wd_mem w) = D \<longrightarrow> (\<exists>w'. u w = Some w' \<and> changes_in P w w'))"

lemma safe_updE:
  assumes "safe_upd D P u" "dom (wd_mem w) = D"
  obtains w' where "u w = Some w'" "changes_in P w w'" "dom (wd_mem w') = D"
  using assms changes_in_dom unfolding safe_upd_def by metis

lemma safe_upd_Some [simp]: "safe_upd D P Some"
  by (simp add: safe_upd_def)

lemma safe_upd_bind: "safe_upd D P u \<Longrightarrow> safe_upd D P v \<Longrightarrow> safe_upd D P (\<lambda>w. Option.bind (u w) v)"
proof -
  assume u: "safe_upd D P u" and v: "safe_upd D P v"
  have "\<exists>w'. Option.bind (u w) v = Some w' \<and> changes_in P w w'" if "dom (wd_mem w) = D" for w
  proof -
    from u that obtain w1 where w1: "u w = Some w1" "changes_in P w w1" "dom (wd_mem w1) = D" by (rule safe_updE)
    from v w1(3) obtain w2 where "v w1 = Some w2" "changes_in P w1 w2" by (rule safe_updE)
    with w1 show ?thesis by (auto intro: changes_in_trans)
  qed
  then show ?thesis by (simp add: safe_upd_def)
qed

lemma safe_upd_store: "writable D P p (length bs) \<Longrightarrow> length bs \<le> 2 ^ 64 \<Longrightarrow> safe_upd D P (wd_store_bytes p bs)"
  unfolding safe_upd_def using store_changes by metis

lemma safe_upd_store_word: "writable D P p n \<Longrightarrow> n \<le> 2 ^ 64 \<Longrightarrow> safe_upd D P (wd_store n p v)"
  unfolding wd_store_def by (rule safe_upd_store) simp_all

lemma wd_load_there: "dom (wd_mem w) = D \<Longrightarrow> writable D P p n \<Longrightarrow> n \<le> 2 ^ 64 \<Longrightarrow> \<exists>v. wd_load n p w = Some v"
  using writable_mapped [of "wd_mem w" D P p n] load_bytes_mapped [of "wd_mem w" p n] by (auto simp: wd_load_def load_le_def)

lemma safe_upd_dec [safes]: "safe_upd D P u \<Longrightarrow> safe D P (\<lambda>_. True) (dec_upd u)"
proof (rule safeI)
  fix s w assume u: "safe_upd D P u" and "ready D s w"
  then have "dom (wd_mem w) = D" by (simp add: ready_def)
  from safe_updE [OF u this] obtain w' where "u w = Some w'" "changes_in P w w'" by blast
  then show "\<exists>s' w' r. dec_upd u s w = Some (s', w', r) \<and> within s' s \<and> changes_in P w w' \<and> (\<forall>x. r = Some x \<longrightarrow> True)"
    by (simp add: dec_upd_def)
qed

lemma each_field_safe:
  assumes t: "table T a body" and f: "\<And>i. i < length body \<Longrightarrow> safe_upd D P (f (iter_at a body d i))"
  shows "i < length body \<Longrightarrow> length body - i \<le> fuel \<Longrightarrow> safe_upd D P (each_field fuel T f (iter_at a body d i))"
proof (induction fuel arbitrary: i)
  case 0
  then show ?case by simp
next
  case (Suc fuel)
  note fi = f [OF Suc.prems(1)]
  show ?case
  proof (cases "Suc i < length body")
    case True
    then have "safe_upd D P (each_field fuel T f (iter_at a body d (Suc i)))" using Suc by simp
    from safe_upd_bind [OF fi this] show ?thesis using iter_next [OF t True, of d] by simp
  next
    case False
    then have last: "Suc i = length body" using Suc.prems(1) by simp
    from safe_upd_bind [OF fi safe_upd_Some] show ?thesis using iter_next_wraps [OF t last, of d] by simp
  qed
qed

lemma each_field_of_safe:
  assumes t: "table T a body" "body \<noteq> []" and f: "\<And>i. i < length body \<Longrightarrow> safe_upd D P (f (iter_at a body d i))"
  shows "safe_upd D P (each_field_of T f a d)"
proof -
  have "safe_upd D P (each_field (table_length T a) T f (iter_at a body d 0))"
    using t f by (intro each_field_safe) (simp_all add: table_length)
  then show ?thesis using iter_begin [OF t, of d] by (simp add: safe_upd_def each_field_of_def)
qed

subsection \<open>Default values and releasing\<close>

lemma static_default_safe:
  assumes s: "static_field body sz i" and d: "writable D P d sz" "sz < 2 ^ 64"
    and sub: "\<And>e. PB_LTYPE (fld_type (body ! i)) = PB_LTYPE_SUBMESSAGE \<Longrightarrow>
      writable D P e (unat (fld_data_size (body ! i))) \<Longrightarrow> safe_upd D P (msg (fld_ptr (body ! i)) e)"
  shows "safe_upd D P (set_static_to_default msg (body ! i) (iter_at a body d i))"
proof -
  let ?f = "body ! i" and ?p = "data_at body d i" and ?q = "size_at body d i"
  let ?h = "PB_HTYPE (fld_type (body ! i))" and ?n = "unat (fld_data_size (body ! i))"
  note W = field_places [OF d(1) s d(2)]
  define init where "init = (\<lambda>w. if PB_LTYPE (fld_type ?f) = PB_LTYPE_SUBMESSAGE then msg (fld_ptr ?f) ?p w
      else if fld_ptr ?f \<noteq> 0 then do {
        bs \<leftarrow> load_bytes (wd_mem w) (fld_ptr ?f) ?n;
        wd_store_bytes ?p bs w }
      else wd_store_bytes ?p (replicate ?n 0) w)"
  have init: "safe_upd D P init" if h: "?h \<noteq> PB_HTYPE_REPEATED"
  proof -
    have w: "writable D P ?p ?n" using W(1) by (simp add: data_length_single [OF h])
    show ?thesis
    proof (cases "PB_LTYPE (fld_type ?f) = PB_LTYPE_SUBMESSAGE")
      case True
      with sub [OF True w] show ?thesis by (simp add: init_def)
    next
      case False
      then have "fld_ptr ?f = 0" using s by (simp add: static_field_def Let_def)
      then have "init = wd_store_bytes ?p (replicate ?n 0)" using False by (simp add: init_def)
      with w size_small show ?thesis by (auto intro: safe_upd_store)
    qed
  qed
  consider (flag) "?h = PB_HTYPE_OPTIONAL" "?q \<noteq> ?p" | (count) "?h = PB_HTYPE_REPEATED \<or> ?h = PB_HTYPE_ONEOF"
    | (plain) "\<not> (?h = PB_HTYPE_OPTIONAL \<and> ?q \<noteq> ?p)" "?h \<noteq> PB_HTYPE_REPEATED" "?h \<noteq> PB_HTYPE_ONEOF" by blast
  then show ?thesis
  proof cases
    case flag
    then have "count_length body i = 1" using at_shift_eq [of body d i] by (simp add: count_length_def)
    then have "safe_upd D P (wd_store_bytes ?q [0])" using W(2) by (intro safe_upd_store) simp_all
    from safe_upd_bind [OF this init] have "safe_upd D P (\<lambda>w. Option.bind (wd_store_bytes ?q [0] w) init)" using flag by simp
    moreover have "set_static_to_default msg ?f (iter_at a body d i) = (\<lambda>w. Option.bind (wd_store_bytes ?q [0] w) init)"
      using flag unfolding set_static_to_default_def init_def iter_at_simps by (auto simp: fun_eq_iff)
    ultimately show ?thesis by simp
  next
    case count
    then have "safe_upd D P (wd_store 4 ?q (0 :: pb_size_t))"
      using W(2) by (intro safe_upd_store_word) (simp_all add: count_length_4)
    moreover have "set_static_to_default msg ?f (iter_at a body d i) = (\<lambda>w. Option.bind (wd_store 4 ?q (0 :: pb_size_t) w) Some)"
      using count by (auto simp: fun_eq_iff set_static_to_default_def)
    ultimately show ?thesis using safe_upd_bind [OF _ safe_upd_Some] by simp
  next
    case plain
    then have "set_static_to_default msg ?f (iter_at a body d i) = init"
      unfolding set_static_to_default_def init_def iter_at_simps by (auto simp: fun_eq_iff)
    with init plain(2) show ?thesis by simp
  qed
qed

lemma defaults_safe:
  "static_message n T flds sz \<Longrightarrow> writable D P d sz \<Longrightarrow> safe_upd D P (pb_message_set_to_defaults n T flds d)"
proof (induction n arbitrary: flds sz d)
  case 0
  then show ?case by simp
next
  case (Suc n)
  from Suc.prems(1) obtain body where b: "table_fields T flds = Some body" "body \<noteq> []" "sz < 2 ^ 64"
    "\<And>i. i < length body \<Longrightarrow> static_field body sz i"
    "\<And>i. i < length body \<Longrightarrow> PB_LTYPE (fld_type (body ! i)) = PB_LTYPE_SUBMESSAGE \<Longrightarrow>
      static_message n T (fld_ptr (body ! i)) (unat (fld_data_size (body ! i)))"
    by (rule static_messageE) auto
  note t = table_fields_table [OF b(1)]
  show ?case
    unfolding pb_message_set_to_defaults_def
  proof (rule each_field_of_safe [OF t b(2)])
    fix i assume i: "i < length body"
    have "safe_upd D P (set_static_to_default (pb_message_set_to_defaults n T) (body ! i) (iter_at flds body d i))"
      using Suc.IH [OF b(5) [OF i]] by (intro static_default_safe [OF b(4) [OF i] Suc.prems(2) b(3)])
    moreover have "pb_field_set_to_default (Suc n) T (iter_at flds body d i) =
        set_static_to_default (pb_message_set_to_defaults n T) (body ! i) (iter_at flds body d i)"
      using b(4) [OF i] i
      by (auto simp: fun_eq_iff default_field_step_def field_of_at [OF t] pb_message_set_to_defaults_def static_field_def Let_def)
    ultimately show "safe_upd D P (pb_field_set_to_default (Suc n) T (iter_at flds body d i))" by simp
  qed
qed

lemma release_items_safe:
  assumes f: "\<And>p. writable D P p (unat n) \<Longrightarrow> safe_upd D P (f p)"
  shows "writable D P p (unat (n :: u32) * k) \<Longrightarrow> unat n * k < 2 ^ 64 \<Longrightarrow> safe_upd D P (release_items f n k p)"
proof (induction k arbitrary: p)
  case 0
  then show ?case by (simp add: safe_upd_def)
next
  case (Suc k)
  have "writable D P p (unat n)" using Suc.prems(1) by (rule writable_prefix) simp
  moreover have "writable D P (p + of_nat (unat n)) (unat n * k)"
    using Suc.prems by (rule_tac writable_offset) simp_all
  ultimately have "safe_upd D P (f p)" "safe_upd D P (release_items f n k (p + ucast n))"
    using f Suc.IH Suc.prems(2) unfolding ucast_u32(1) by simp_all
  from safe_upd_bind [OF this] show ?case by simp
qed

lemma release_field_safe:
  assumes t: "table T a body" and i: "i < length body" and s: "static_field body sz i" and d: "writable D P d sz" and sz: "sz < 2 ^ 64"
    and sub: "\<And>e. PB_LTYPE (fld_type (body ! i)) = PB_LTYPE_SUBMESSAGE \<Longrightarrow> writable D P e (unat (fld_data_size (body ! i))) \<Longrightarrow>
      safe_upd D P (pb_release n T (fld_ptr (body ! i)) e)"
  shows "safe_upd D P (pb_release_single_field (Suc n) T (iter_at a body d i))"
proof -
  let ?f = "body ! i" and ?p = "data_at body d i" and ?q = "size_at body d i"
  let ?h = "PB_HTYPE (fld_type (body ! i))" and ?l = "PB_LTYPE (fld_type (body ! i))"
  note W = field_places [OF d s sz]
  have at: "PB_ATYPE (fld_type ?f) = PB_ATYPE_STATIC" "?l \<noteq> PB_LTYPE_EXTENSION" using s by (simp_all add: static_field_def Let_def)
  have items: "safe_upd D P (release_items (pb_release n T (fld_ptr ?f)) (fld_data_size ?f) k ?p)"
    if l: "?l = PB_LTYPE_SUBMESSAGE" and k: "unat (fld_data_size ?f) * k \<le> data_length ?f" for k
  proof (rule release_items_safe)
    show "safe_upd D P (pb_release n T (fld_ptr ?f) p)" if "writable D P p (unat (fld_data_size ?f))" for p
      using sub [OF l that] .
    show "writable D P ?p (unat (fld_data_size ?f) * k)" using W(1) k by (rule writable_prefix)
    have "data_length ?f \<le> sz" using s by (simp add: static_field_def Let_def)
    with k sz show "unat (fld_data_size ?f) * k < 2 ^ 64" by linarith
  qed
  have "\<exists>w'. pb_release_single_field (Suc n) T (iter_at a body d i) w = Some w' \<and> changes_in P w w'"
    if w: "dom (wd_mem w) = D" for w
  proof -
    have load: "\<exists>v. wd_load 4 ?q w = Some (v :: pb_size_t)" if "?h = PB_HTYPE_REPEATED \<or> ?h = PB_HTYPE_ONEOF"
      using W(2) that by (intro wd_load_there [OF w, of P]) (simp_all add: count_length_4)
    have "?h = PB_HTYPE_REPEATED \<Longrightarrow> ?q \<noteq> ?p" using s at_shift_eq [of body d i] by (simp add: static_field_def Let_def)
    then obtain c where c: "item_count ?f (iter_at a body d i) w = Some c"
      "unat (fld_data_size ?f) * unat c \<le> data_length ?f"
    proof (cases "?h = PB_HTYPE_REPEATED")
      case True
      with load obtain v where v: "wd_load 4 ?q w = Some (v :: pb_size_t)" by blast
      let ?c = "if fld_array_size ?f < v then fld_array_size ?f else v"
      have "unat ?c \<le> unat (fld_array_size ?f)" by (simp add: word_le_nat_alt [symmetric] not_less)
      then have "unat (fld_data_size ?f) * unat ?c \<le> data_length ?f" using True by (simp add: data_length_def)
      with v True at \<open>?h = PB_HTYPE_REPEATED \<Longrightarrow> ?q \<noteq> ?p\<close> show thesis
        by (intro that [of ?c]) (simp_all add: item_count_def Let_def)
    next
      case False
      then show thesis by (intro that [of 1]) (simp_all add: item_count_def Let_def data_length_def)
    qed
    have "\<exists>w'. release_contents (pb_release_single_field n T) (release_message T (pb_release_single_field n T)) T ?f
        (iter_at a body d i) w = Some w' \<and> changes_in P w w'"
    proof (cases "?l = PB_LTYPE_SUBMESSAGE \<and> ?p \<noteq> 0")
      case True
      with safe_updE [OF items [of "unat c"] w] c at show ?thesis
        unfolding pb_release_def by (auto simp: release_contents_def Let_def)
    next
      case False
      with c at show ?thesis by (auto simp: release_contents_def Let_def)
    qed
    with load at i show ?thesis
      by (auto simp: release_field_step_def field_of_at [OF t] Let_def)
  qed
  then show ?thesis by (simp add: safe_upd_def)
qed

lemma release_safe:
  "static_message n T flds sz \<Longrightarrow> writable D P d sz \<Longrightarrow> safe_upd D P (pb_release n T flds d)"
proof (induction n arbitrary: flds sz d)
  case 0
  then show ?case by simp
next
  case (Suc n)
  from Suc.prems(1) obtain body where b: "table_fields T flds = Some body" "body \<noteq> []" "sz < 2 ^ 64"
    "\<And>i. i < length body \<Longrightarrow> static_field body sz i"
    "\<And>i. i < length body \<Longrightarrow> PB_LTYPE (fld_type (body ! i)) = PB_LTYPE_SUBMESSAGE \<Longrightarrow>
      static_message n T (fld_ptr (body ! i)) (unat (fld_data_size (body ! i)))"
    by (rule static_messageE) auto
  note t = table_fields_table [OF b(1)]
  have step: "safe_upd D P (pb_release_single_field (Suc n) T (iter_at flds body d i))" if i: "i < length body" for i
    using Suc.IH [OF b(5) [OF i]] by (intro release_field_safe [OF t i b(4) [OF i] Suc.prems(2) b(3)])
  show ?case
    unfolding pb_release_def release_message_def
    using each_field_of_safe [where f = "pb_release_single_field (Suc n) T", OF t b(2) step]
    by (simp add: safe_upd_def del: pb_release_single_field.simps)
qed

subsection \<open>Values\<close>

text \<open>What the two recursive calls promise at the next depth.\<close>

definition safe_subs :: "addr set \<Rightarrow> (addr \<Rightarrow> bool) \<Rightarrow> nat \<Rightarrow> pb_tables \<Rightarrow> sub_decoders \<Rightarrow> bool" where
  "safe_subs D P n T sub \<longleftrightarrow> (\<forall>flds sz d. static_message n T flds sz \<longrightarrow> writable D P d sz \<longrightarrow>
     safe D P (\<lambda>_. True) (fst sub flds d) \<and> safe D P (\<lambda>_. True) (snd sub flds d))"

lemma decoder_there:
  assumes "static_field body sz i"
  obtains func where "PB_DECODERS sub E (PB_LTYPE (fld_type (body ! i))) = Some func"
proof -
  let ?l = "PB_LTYPE (fld_type (body ! i))"
  have "unat ?l \<le> 10" using assms by (simp add: static_field_def Let_def word_le_nat_alt ltypes)
  then have "unat ?l = 0 \<or> unat ?l = 1 \<or> unat ?l = 2 \<or> unat ?l = 3 \<or> unat ?l = 4 \<or> unat ?l = 5 \<or> unat ?l = 6 \<or>
      unat ?l = 7 \<or> unat ?l = 8 \<or> unat ?l = 9 \<or> unat ?l = 10" by arith
  then have "?l = 0 \<or> ?l = 1 \<or> ?l = 2 \<or> ?l = 3 \<or> ?l = 4 \<or> ?l = 5 \<or> ?l = 6 \<or> ?l = 7 \<or> ?l = 8 \<or> ?l = 9 \<or> ?l = 10"
    unfolding word_unat_eq_iff by simp
  then show thesis using that by (auto simp: PB_DECODERS_def ltypes)
qed

lemma value_safe:
  assumes s: "static_field body sz i" and w: "writable D P d (unat (fld_data_size (body ! i)))" and sub: "safe_subs D P n T sub"
    and m: "PB_LTYPE (fld_type (body ! i)) = PB_LTYPE_SUBMESSAGE \<Longrightarrow>
      static_message n T (fld_ptr (body ! i)) (unat (fld_data_size (body ! i)))"
    and func: "PB_DECODERS sub E (PB_LTYPE (fld_type (body ! i))) = Some func"
  shows "safe D P (\<lambda>_. True) (func (body ! i) d)"
proof -
  let ?f = "body ! i" and ?l = "PB_LTYPE (fld_type (body ! i))"
  have at: "PB_ATYPE (fld_type ?f) = PB_ATYPE_STATIC" "?l \<noteq> PB_LTYPE_EXTENSION"
    using s by (simp_all add: static_field_def Let_def)
  have small: "?l = PB_LTYPE_BOOL \<Longrightarrow> writable D P d 1" "?l = PB_LTYPE_FIXED32 \<Longrightarrow> writable D P d 4"
    "?l = PB_LTYPE_FIXED64 \<Longrightarrow> writable D P d 8"
    using s writable_prefix [OF w] by (simp_all add: static_field_def Let_def)
  have "safe D P (\<lambda>_. True) (pb_dec_submessage sub E ?f d)" if "?l = PB_LTYPE_SUBMESSAGE"
  proof -
    have "fld_ptr ?f \<noteq> 0" using s that by (simp add: static_field_def Let_def)
    then show ?thesis
      unfolding pb_dec_submessage_def using sub m [OF that] w by (simp add: safe_subs_def then_close_safe)
  qed
  with func at small w show ?thesis
    unfolding PB_DECODERS_def by (auto intro: safes split: if_splits)
qed

text \<open>The types of which packed arrays are made take at least a byte each.\<close>

definition consumes :: "'a dec \<Rightarrow> bool" where
  "consumes f \<longleftrightarrow> (\<forall>s w t v x. is_callback s = Buf_read \<longrightarrow> f s w = Some (t, v, Some x) \<longrightarrow> is_bytes_left t < is_bytes_left s)"

lemma consumes_then:
  assumes f: "consumes f" and g: "\<And>x. steady (g x)"
  shows "consumes (dec_then f g)"
  unfolding consumes_def
proof (intro allI impI)
  fix s w t v y assume cb: "is_callback s = Buf_read" and r: "dec_then f g s w = Some (t, v, Some y)"
  from r obtain u z x where u: "f s w = Some (u, z, Some x)" "g x u z = Some (t, v, Some y)"
    by (auto simp: dec_then_def bind_Some_iff split: option.splits)
  have "is_bytes_left u < is_bytes_left s" using f cb u(1) unfolding consumes_def by blast
  moreover have "is_bytes_left t \<le> is_bytes_left u" using steadyD(1) [OF g u(2)] by (simp add: advances_def)
  ultimately show "is_bytes_left t < is_bytes_left s" by simp
qed

lemma varint_consumes: "consumes (pb_decode_varint32 E)" "consumes (pb_decode_varint E)"
proof -
  show "consumes (pb_decode_varint32 E)"
    by (auto simp: consumes_def pb_decode_varint32_def bind_Some_iff dest: varint32_eof_steady(3))
  have byte: "consumes (pb_readbyte E)" by (auto simp: consumes_def intro: readbyte_consumes)
  have "consumes (varint64_loop (Suc n) E res 0)" for n res
    unfolding varint64_loop.simps Let_def
    by (simp add: consumes_then [OF byte] steadies)
  then show "consumes (pb_decode_varint E)" unfolding pb_decode_varint_def by (metis numeral_eq_Suc)
qed

lemma read_consumes: "0 < k \<Longrightarrow> consumes (pb_read E Dest_local k)"
  unfolding consumes_def
proof (intro allI impI)
  fix s w t v x assume "0 < k" "is_callback s = Buf_read" "pb_read E Dest_local k s w = Some (t, v, Some x)"
  then have "read_some E Dest_local k s w = Some (t, v, Some x)" by (simp add: pb_read_def split: if_splits)
  from read_some_left [OF this] \<open>0 < k\<close> show "is_bytes_left t < is_bytes_left s"
    by (simp add: word_less_nat_alt word_le_nat_alt unat_sub)
qed

lemma numbers_consume:
  "consumes (pb_dec_bool E f d)" "consumes (pb_dec_varint E f d)" "consumes (pb_dec_uvarint E f d)"
  "consumes (pb_dec_svarint E f d)" "consumes (pb_dec_fixed32 E f d)" "consumes (pb_dec_fixed64 E f d)"
proof -
  have "consumes (pb_decode_svarint E)"
    unfolding pb_decode_svarint_def by (intro consumes_then varint_consumes steadies)
  then show "consumes (pb_dec_svarint E f d)" unfolding pb_dec_svarint_def by (intro consumes_then steadies)
  show "consumes (pb_dec_bool E f d)" unfolding pb_dec_bool_def by (intro consumes_then varint_consumes steadies)
  show "consumes (pb_dec_varint E f d)" unfolding pb_dec_varint_def by (intro consumes_then varint_consumes steadies)
  show "consumes (pb_dec_uvarint E f d)" unfolding pb_dec_uvarint_def by (intro consumes_then varint_consumes steadies)
  show "consumes (pb_dec_fixed32 E f d)"
    unfolding pb_dec_fixed32_def pb_decode_fixed32_def by (intro consumes_then read_consumes steadies) simp
  show "consumes (pb_dec_fixed64 E f d)"
    unfolding pb_dec_fixed64_def pb_decode_fixed64_def by (intro consumes_then read_consumes steadies) simp
qed

lemma packable_consumes:
  assumes p: "PB_LTYPE (fld_type pos) \<le> PB_LTYPE_LAST_PACKABLE"
    and func: "PB_DECODERS sub E (PB_LTYPE (fld_type pos)) = Some func"
  shows "consumes (func pos d)"
proof -
  have "func \<in> {pb_dec_bool E, pb_dec_varint E, pb_dec_uvarint E, pb_dec_svarint E, pb_dec_fixed32 E, pb_dec_fixed64 E}"
    using func p by (auto simp: PB_DECODERS_def ltypes split: if_splits)
  then show ?thesis using numbers_consume by blast
qed

subsection \<open>Fields\<close>

text \<open>A packed array: every turn of the loop takes a byte at least, and no item is past the end of the array.\<close>

lemma packed_static_loop_returns:
  assumes func: "\<And>p. writable D P p (unat (fld_data_size pos)) \<Longrightarrow> safe D P (\<lambda>_. True) (func pos p)"
    and eats: "\<And>p. consumes (func pos p)"
    and q: "writable D P (it_pSize iter) 4" and p: "writable D P (it_pData iter) (data_length pos)"
    and h: "PB_HTYPE (fld_type pos) = PB_HTYPE_REPEATED" and l: "data_length pos < 2 ^ 32"
  shows "ready D s w \<Longrightarrow> unat (is_bytes_left s) < fuel \<Longrightarrow> returns P s w (packed_static_loop fuel func pos iter s w)"
proof (induction fuel arbitrary: s w)
  case (Suc fuel)
  have load: "safe D P (\<lambda>_. True) (dec_load 4 (it_pSize iter) :: pb_size_t dec)" using q by (intro safes) simp_all
  have store: "safe D P (\<lambda>_. True) (dec_store 4 (it_pSize iter) v)" for v :: pb_size_t using q by (intro safes) simp_all
  show ?case
  proof (cases "is_bytes_left s = 0")
    case True
    then show ?thesis by (simp add: packed_static_loop_step dec_return_def)
  next
    case False
    have "returns P s w (dec_then (dec_load 4 (it_pSize iter)) (\<lambda>count.
        if fld_array_size pos \<le> count then dec_return ()
        else dec_then (func pos (item_at (it_pData iter) pos count)) (\<lambda>_.
          dec_then (dec_load 4 (it_pSize iter)) (\<lambda>count.
            dec_then (dec_store 4 (it_pSize iter) (count + 1 :: pb_size_t)) (\<lambda>_. packed_static_loop fuel func pos iter)))) s w)"
      using load Suc.prems(1)
    proof (rule returns_then)
      fix count t v
      assume t: "dec_load 4 (it_pSize iter) s w = Some (t, v, Some (count :: pb_size_t))" "ready D t v"
      then have ts: "t = s" by (auto simp: dec_load_def bind_Some_iff)
      show "returns P t v ((if fld_array_size pos \<le> count then dec_return ()
          else dec_then (func pos (item_at (it_pData iter) pos count)) (\<lambda>_.
            dec_then (dec_load 4 (it_pSize iter)) (\<lambda>count.
              dec_then (dec_store 4 (it_pSize iter) (count + 1 :: pb_size_t)) (\<lambda>_. packed_static_loop fuel func pos iter)))) t v)"
      proof (cases "fld_array_size pos \<le> count")
        case True
        then show ?thesis by simp
      next
        case False
        then have "count < fld_array_size pos" by simp
        from func [OF item_writable [OF p h l this]]
        have "returns P t v (dec_then (func pos (item_at (it_pData iter) pos count)) (\<lambda>_.
            dec_then (dec_load 4 (it_pSize iter)) (\<lambda>count.
              dec_then (dec_store 4 (it_pSize iter) (count + 1 :: pb_size_t)) (\<lambda>_. packed_static_loop fuel func pos iter))) t v)"
          using t(2)
        proof (rule returns_then)
          fix x u z
          assume u: "func pos (item_at (it_pData iter) pos count) t v = Some (u, z, Some x)" "ready D u z"
          have "is_callback t = Buf_read" using t(2) by (simp add: ready_def)
          then have "is_bytes_left u < is_bytes_left s" using eats u(1) unfolding ts consumes_def by blast
          then have fuel: "unat (is_bytes_left u) < fuel" using Suc.prems(2) by (simp add: word_less_nat_alt)
          show "returns P u z (dec_then (dec_load 4 (it_pSize iter)) (\<lambda>count.
              dec_then (dec_store 4 (it_pSize iter) (count + 1 :: pb_size_t)) (\<lambda>_. packed_static_loop fuel func pos iter)) u z)"
            using load u(2)
          proof (rule returns_then)
            fix c u' z'
            assume u': "dec_load 4 (it_pSize iter) u z = Some (u', z', Some (c :: pb_size_t))" "ready D u' z'"
            show "returns P u' z' (dec_then (dec_store 4 (it_pSize iter) (c + 1)) (\<lambda>_. packed_static_loop fuel func pos iter) u' z')"
              using store u'(2)
            proof (rule returns_then)
              fix y u2 z2
              assume "dec_store 4 (it_pSize iter) (c + 1) u' z' = Some (u2, z2, Some y)" "ready D u2 z2"
              moreover from this u'(1) have "u2 = u" by (auto simp: dec_store_def dec_store_bytes_def dec_load_def bind_Some_iff)
              ultimately show "returns P u2 z2 (packed_static_loop fuel func pos iter u2 z2)" using Suc.IH fuel by simp
            qed
          qed
        qed
        with False show ?thesis by simp
      qed
    qed
    with False show ?thesis by (simp add: packed_static_loop_step)
  qed
qed simp

lemma decode_packed_static_safe:
  assumes "\<And>p. writable D P p (unat (fld_data_size pos)) \<Longrightarrow> safe D P (\<lambda>_. True) (func pos p)"
    and "\<And>p. consumes (func pos p)"
    and "writable D P (it_pSize iter) 4" and "writable D P (it_pData iter) (data_length pos)"
    and "PB_HTYPE (fld_type pos) = PB_HTYPE_REPEATED" and "data_length pos < 2 ^ 32"
  shows "safe D P (\<lambda>_. True) (decode_packed_static E func pos iter)"
  unfolding decode_packed_static_def
  by (rule substream_safe) (rule packed_static_loop_returns [where func = func, OF assms]; simp)

text \<open>A message type and its structure: what the lemmas below are about.\<close>

definition message_place :: "addr set \<Rightarrow> (addr \<Rightarrow> bool) \<Rightarrow> nat \<Rightarrow> pb_tables \<Rightarrow> addr \<Rightarrow> pb_field_t list \<Rightarrow> addr \<Rightarrow> nat \<Rightarrow> bool" where
  "message_place D P n T a body d sz \<longleftrightarrow> table T a body \<and> body \<noteq> [] \<and> length body < 2 ^ 32 \<and> sz < 2 ^ 64 \<and> writable D P d sz \<and>
     (\<forall>i<length body. static_field body sz i \<and> (PB_LTYPE (fld_type (body ! i)) = PB_LTYPE_SUBMESSAGE \<longrightarrow>
        static_message n T (fld_ptr (body ! i)) (unat (fld_data_size (body ! i)))))"

lemma message_placeI:
  assumes "static_message (Suc n) T a sz" "writable D P d sz"
  obtains body where "table_fields T a = Some body" "message_place D P n T a body d sz"
proof -
  from assms(1) obtain k body where "Suc n = Suc k" "table_fields T a = Some body" "body \<noteq> []" "length body < 2 ^ 32" "sz < 2 ^ 64"
    "\<And>i. i < length body \<Longrightarrow> static_field body sz i"
    "\<And>i. i < length body \<Longrightarrow> PB_LTYPE (fld_type (body ! i)) = PB_LTYPE_SUBMESSAGE \<Longrightarrow>
      static_message k T (fld_ptr (body ! i)) (unat (fld_data_size (body ! i)))"
    by (rule static_messageE) blast
  with assms(2) show thesis by (intro that [of body]) (simp_all add: message_place_def table_fields_table)
qed

lemma decode_static_field_safe:
  assumes m: "message_place D P n T a body d sz" and T: "T = de_tables E" and i: "i < length body" and sub: "safe_subs D P n T sub"
    and def: "\<And>e. PB_LTYPE (fld_type (body ! i)) = PB_LTYPE_SUBMESSAGE \<Longrightarrow> writable D P e (unat (fld_data_size (body ! i))) \<Longrightarrow>
      safe_upd D P (pb_message_set_to_defaults k T (fld_ptr (body ! i)) e)"
  shows "safe D P (\<lambda>_. True) (decode_static_field k sub E wt (iter_at a body d i))"
proof -
  let ?f = "body ! i" and ?p = "data_at body d i" and ?q = "size_at body d i"
  let ?h = "PB_HTYPE (fld_type (body ! i))" and ?l = "PB_LTYPE (fld_type (body ! i))" and ?n = "unat (fld_data_size (body ! i))"
  from m i have t: "table T a body" and s: "static_field body sz i" and d: "writable D P d sz" "sz < 2 ^ 64"
    and sm: "?l = PB_LTYPE_SUBMESSAGE \<Longrightarrow> static_message n T (fld_ptr ?f) ?n" by (simp_all add: message_place_def)
  note W = field_places [OF d(1) s d(2)]
  obtain func where func: "PB_DECODERS sub E ?l = Some func" using decoder_there [OF s] by blast
  have val: "safe D P (\<lambda>_. True) (func ?f p)" if "writable D P p ?n" for p
    using value_safe [OF s that sub sm func] .
  have single: "?h \<noteq> PB_HTYPE_REPEATED \<Longrightarrow> writable D P ?p ?n" using W(1) by (simp add: data_length_single)
  have count: "?h = PB_HTYPE_REPEATED \<or> ?h = PB_HTYPE_ONEOF \<Longrightarrow> writable D P ?q 4" using W(2) by (simp add: count_length_4)
  have flag: "?h = PB_HTYPE_OPTIONAL \<Longrightarrow> ?q \<noteq> ?p \<Longrightarrow> writable D P ?q 1"
    using W(2) at_shift_eq [of body d i] by (simp add: count_length_def)
  have array: "?h = PB_HTYPE_REPEATED \<Longrightarrow> data_length ?f < 2 ^ 32" using s by (simp add: static_field_def Let_def)
  have req: "safe D P (\<lambda>_. True) (func ?f ?p)" if "?h \<noteq> PB_HTYPE_REPEATED" using val single that by simp
  have opt: "safe D P (\<lambda>_. True) (dec_then (if ?q \<noteq> ?p then dec_store_bytes ?q [1] else dec_return ()) (\<lambda>_. func ?f ?p))"
    if "?h = PB_HTYPE_OPTIONAL"
    using flag [OF that] req that by (intro safes) auto
  have packed: "safe D P (\<lambda>_. True) (decode_packed_static E func ?f (iter_at a body d i))"
    if "?h = PB_HTYPE_REPEATED" "?l \<le> PB_LTYPE_LAST_PACKABLE"
    using that W(1) count array by (intro decode_packed_static_safe val packable_consumes [OF that(2) func]) auto
  have rep: "safe D P (\<lambda>_. True) (dec_then (dec_load 4 ?q) (\<lambda>count. dec_then (dec_store 4 ?q (count + 1)) (\<lambda>_.
      if fld_array_size ?f \<le> count then dec_error ''array overflow'' else func ?f (item_at ?p ?f count))))"
    if h: "?h = PB_HTYPE_REPEATED"
    using count h by (intro safes) (auto intro!: val item_writable [OF W(1) h array [OF h]])
  have oneof: "safe D P (\<lambda>_. True) (dec_then (dec_store 4 ?q (fld_tag ?f)) (\<lambda>_.
      dec_then
        (if ?l = PB_LTYPE_SUBMESSAGE then dec_upd (\<lambda>w. do {
           w \<leftarrow> wd_store_bytes ?p (replicate ?n 0) w;
           pb_message_set_to_defaults k T (fld_ptr ?f) ?p w })
         else dec_return ())
        (\<lambda>_. func ?f ?p)))"
    if h: "?h = PB_HTYPE_ONEOF"
  proof -
    have "safe_upd D P (wd_store_bytes ?p (replicate ?n 0))"
      using single h size_small by (intro safe_upd_store) auto
    then show ?thesis
      using count single req h by (intro safes safe_upd_bind def) auto
  qed
  have fo: "field_of (de_tables E) (iter_at a body d i) = Some ?f"
    using i t unfolding T by (simp add: field_of_at)
  have "decode_static_field k sub E wt (iter_at a body d i) =
      (if ?h = PB_HTYPE_REQUIRED then func ?f ?p
       else if ?h = PB_HTYPE_OPTIONAL then
         dec_then (if ?q \<noteq> ?p then dec_store_bytes ?q [1] else dec_return ()) (\<lambda>_. func ?f ?p)
       else if ?h = PB_HTYPE_REPEATED then
         (if wt = PB_WT_STRING \<and> ?l \<le> PB_LTYPE_LAST_PACKABLE then decode_packed_static E func ?f (iter_at a body d i)
          else dec_then (dec_load 4 ?q) (\<lambda>count. dec_then (dec_store 4 ?q (count + 1)) (\<lambda>_.
            if fld_array_size ?f \<le> count then dec_error ''array overflow'' else func ?f (item_at ?p ?f count))))
       else if ?h = PB_HTYPE_ONEOF then
         dec_then (dec_store 4 ?q (fld_tag ?f)) (\<lambda>_.
           dec_then
             (if ?l = PB_LTYPE_SUBMESSAGE then dec_upd (\<lambda>w. do {
                w \<leftarrow> wd_store_bytes ?p (replicate ?n 0) w;
                pb_message_set_to_defaults k T (fld_ptr ?f) ?p w })
              else dec_return ())
             (\<lambda>_. func ?f ?p))
       else dec_error ''invalid field type'')"
    unfolding decode_static_field_def Let_def iter_at_simps fo func T Option.bind.bind_lunit by (rule refl)
  then show ?thesis using req opt packed rep oneof by (simp add: safes)
qed

lemma static_message_more: "static_message n T flds sz \<Longrightarrow> static_message (Suc n) T flds sz"
proof (induction n arbitrary: flds sz)
  case (Suc n)
  from Suc.prems obtain body where b: "table_fields T flds = Some body" "body \<noteq> []" "length body < 2 ^ 32" "sz < 2 ^ 64"
    "\<And>i. i < length body \<Longrightarrow> static_field body sz i"
    "\<And>i. i < length body \<Longrightarrow> PB_LTYPE (fld_type (body ! i)) = PB_LTYPE_SUBMESSAGE \<Longrightarrow>
      static_message n T (fld_ptr (body ! i)) (unat (fld_data_size (body ! i)))"
    by (rule static_messageE) auto
  from b(6) Suc.IH have "\<And>i. i < length body \<Longrightarrow> PB_LTYPE (fld_type (body ! i)) = PB_LTYPE_SUBMESSAGE \<Longrightarrow>
      static_message (Suc n) T (fld_ptr (body ! i)) (unat (fld_data_size (body ! i)))" by blast
  with b show ?case by (subst static_message.simps(2)) (simp add: list_all_iff del: static_message.simps)
qed simp

text \<open>The member of a oneof that was there before is released; whatever tag the memory has, the iterator
  stays on the fields of the table.\<close>

lemma union_field_safe:
  assumes m: "message_place D P n T a body d sz" and i: "i < length body"
    and h: "PB_HTYPE (fld_type (body ! i)) = PB_HTYPE_ONEOF"
  shows "safe D P (\<lambda>iter. \<exists>j<length body. iter = iter_at a body d j) (pb_release_union_field (Suc n) T (iter_at a body d i))"
proof (rule safeI)
  fix s w assume r: "ready D s w"
  then have w: "dom (wd_mem w) = D" by (simp add: ready_def)
  from m have t: "table T a body" and d: "writable D P d sz" "sz < 2 ^ 64"
    and f: "\<And>i. i < length body \<Longrightarrow> static_field body sz i"
    and sm: "\<And>i. i < length body \<Longrightarrow> PB_LTYPE (fld_type (body ! i)) = PB_LTYPE_SUBMESSAGE \<Longrightarrow>
      static_message n T (fld_ptr (body ! i)) (unat (fld_data_size (body ! i)))"
    by (simp_all add: message_place_def)
  have "writable D P (size_at body d i) 4" using field_places(2) [OF d(1) f [OF i] d(2)] h by (simp add: count_length_4)
  from wd_load_there [OF w this] obtain old where old: "wd_load 4 (size_at body d i) w = Some (old :: pb_size_t)" by auto
  let ?new = "fld_tag (body ! i)"
  have find: "\<exists>k<length body. \<exists>ok. pb_field_iter_find T (iter_at a body d j) tag = Some (iter_at a body d k, ok)"
    if "j < length body" for j tag
    using iter_find [OF t that, of tag d] that by (auto split: if_splits)
  obtain j ok where j: "j < length body" "pb_field_iter_find T (iter_at a body d i) old = Some (iter_at a body d j, ok)"
    using find [OF i] by blast
  obtain w1 where w1: "pb_release_single_field (Suc n) T (iter_at a body d j) w = Some w1" "changes_in P w w1"
  proof -
    have "safe_upd D P (pb_release_single_field (Suc n) T (iter_at a body d j))"
      using release_safe [OF sm [OF j(1)]] by (intro release_field_safe [OF t j(1) f [OF j(1)] d])
    from safe_updE [OF this w] that show thesis by blast
  qed
  obtain k ok' where k: "k < length body" "pb_field_iter_find T (iter_at a body d j) ?new = Some (iter_at a body d k, ok')"
    using find [OF j(1)] by blast
  show "\<exists>s' w' r. pb_release_union_field (Suc n) T (iter_at a body d i) s w = Some (s', w', r) \<and> within s' s \<and>
      changes_in P w w' \<and> (\<forall>x. r = Some x \<longrightarrow> (\<exists>j<length body. x = iter_at a body d j))"
  proof (cases "old = 0 \<or> old = ?new")
    case True
    with old i show ?thesis by (auto simp: pb_release_union_field_def field_of_at [OF t])
  next
    case False
    with old i j w1 k show ?thesis
      by (cases ok; cases ok') (auto simp: pb_release_union_field_def field_of_at [OF t] dec_error_def simp del: pb_release_single_field.simps)
  qed
qed

lemma decode_field_safe:
  assumes m: "message_place D P n T a body d sz" and T: "T = de_tables E" and i: "i < length body" and sub: "safe_subs D P n T sub"
  shows "safe D P (\<lambda>_. True) (decode_field (Suc n) sub E wt (iter_at a body d i))"
proof -
  from m have t: "table T a body"
    and at: "\<And>i. i < length body \<Longrightarrow> PB_ATYPE (fld_type (body ! i)) = PB_ATYPE_STATIC"
    and sm: "\<And>i. i < length body \<Longrightarrow> PB_LTYPE (fld_type (body ! i)) = PB_LTYPE_SUBMESSAGE \<Longrightarrow>
      static_message n T (fld_ptr (body ! i)) (unat (fld_data_size (body ! i)))"
    by (auto simp: message_place_def static_field_def Let_def)
  have fo: "field_of (de_tables E) (iter_at a body d j) = Some (body ! j)" if "j < length body" for j
    using that t unfolding T by (simp add: field_of_at)
  have static: "safe D P (\<lambda>_. True) (decode_static_field (Suc n) sub E wt (iter_at a body d j))" if j: "j < length body" for j
    using defaults_safe [OF static_message_more [OF sm [OF j]]] by (intro decode_static_field_safe [OF m T j sub])
  have union: "safe D P (\<lambda>iter. \<exists>j<length body. iter = iter_at a body d j)
      (if PB_HTYPE (fld_type (body ! i)) = PB_HTYPE_ONEOF then pb_release_union_field (Suc n) T (iter_at a body d i)
       else dec_return (iter_at a body d i))"
    using union_field_safe [OF m i] i by (intro safe_if safe_return) auto
  have "safe D P (\<lambda>_. True) (dec_then
       (if PB_HTYPE (fld_type (body ! i)) = PB_HTYPE_ONEOF then pb_release_union_field (Suc n) T (iter_at a body d i)
        else dec_return (iter_at a body d i))
       (\<lambda>iter stream w. do {
         pos \<leftarrow> field_of (de_tables E) iter;
         let atype = PB_ATYPE (fld_type pos);
         (if atype = PB_ATYPE_STATIC then decode_static_field (Suc n) sub E wt iter
          else if atype = PB_ATYPE_POINTER then decode_pointer_field (Suc n) sub E wt iter
          else if atype = PB_ATYPE_CALLBACK then decode_callback_field (Suc n) E wt iter
          else dec_error ''invalid field type'') stream w }))"
    using union
  proof (rule safe_then)
    fix iter assume "\<exists>j<length body. iter = iter_at a body d j"
    then obtain j where "j < length body" "iter = iter_at a body d j" by blast
    with static show "safe D P (\<lambda>_. True) (\<lambda>stream w. do {
         pos \<leftarrow> field_of (de_tables E) iter;
         let atype = PB_ATYPE (fld_type pos);
         (if atype = PB_ATYPE_STATIC then decode_static_field (Suc n) sub E wt iter
          else if atype = PB_ATYPE_POINTER then decode_pointer_field (Suc n) sub E wt iter
          else if atype = PB_ATYPE_CALLBACK then decode_callback_field (Suc n) E wt iter
          else dec_error ''invalid field type'') stream w })"
      by (simp add: fo at)
  qed
  then show ?thesis unfolding decode_field_def fo [OF i] T Option.bind.bind_lunit .
qed

subsection \<open>Messages\<close>

definition at_field :: "addr \<Rightarrow> pb_field_t list \<Rightarrow> addr \<Rightarrow> decode_state \<Rightarrow> bool" where
  "at_field a body d st \<longleftrightarrow> (\<exists>i<length body. ds_iter st = iter_at a body d i) \<and> ds_fixed_count_field st = None"

lemma find_no_extension:
  assumes t: "table T a body" and e: "\<And>i. i < length body \<Longrightarrow> PB_LTYPE (fld_type (body ! i)) \<noteq> PB_LTYPE_EXTENSION"
  shows "k < length body \<Longrightarrow> 0 < x \<Longrightarrow> x \<le> length body \<Longrightarrow> (k + x) mod length body = s \<Longrightarrow> x \<le> fuel \<Longrightarrow>
    find_extension_loop fuel T s (iter_at a body d k) = Some (iter_at a body d s, False)"
proof (induction x arbitrary: k fuel)
  case 0
  then show ?case by simp
next
  case (Suc x)
  then obtain fuel' where fuel: "fuel = Suc fuel'" by (cases fuel) auto
  let ?n = "length body" and ?k = "Suc k mod length body"
  have here: "field_of T (iter_at a body d k) = Some (body ! k)" using Suc.prems(1) by (simp add: field_of_at [OF t])
  obtain b where step: "pb_field_iter_next T (iter_at a body d k) = Some (iter_at a body d ?k, b)"
    using iter_next_mod [OF t Suc.prems(1)] by blast
  have loop: "find_extension_loop fuel T s (iter_at a body d k) =
      (if ?k = s then Some (iter_at a body d ?k, False) else find_extension_loop fuel' T s (iter_at a body d ?k))"
    using e [OF Suc.prems(1)] by (simp add: fuel here step)
  show ?case
  proof (cases "?k = s")
    case True
    then show ?thesis by (simp add: loop del: find_extension_loop.simps)
  next
    case ne: False
    with Suc.prems have "0 < x" by (cases x) auto
    moreover have "?k < ?n" using Suc.prems(1) by (intro mod_less_divisor) linarith
    moreover have "(?k + x) mod ?n = s" using Suc.prems(4) by (simp add: mod_add_left_eq)
    ultimately show ?thesis using Suc.IH [of ?k fuel'] Suc.prems(3,5) ne by (simp only: loop) (simp add: fuel)
  qed
qed

lemma decode_unknown_safe:
  assumes m: "message_place D P n T a body d sz" and T: "T = de_tables E" and st: "at_field a body d st" and tag: "tag < 2 ^ 29"
  shows "safe D P (at_field a body d) (decode_unknown k sub E tag wt st)"
proof -
  from m have t: "table T a body" and e: "\<And>i. i < length body \<Longrightarrow> PB_LTYPE (fld_type (body ! i)) \<noteq> PB_LTYPE_EXTENSION"
    by (auto simp: message_place_def static_field_def Let_def)
  from st obtain i where i: "i < length body" "ds_iter st = iter_at a body d i" by (auto simp: at_field_def)
  have skip: "safe D P (at_field a body d) (dec_then (pb_skip_field E wt) (\<lambda>_. dec_return st'))" if "at_field a body d st'" for st'
    using that by (intro safes)
  have none: "find_extension_field (de_tables E) (ds_iter st) = Some (iter_at a body d i, False)"
  proof -
    have "0 < length body" "(i + length body) mod length body = i" using i(1) by auto
    from find_no_extension [OF t e i(1) this(1) order_refl this(2), of "Suc (Suc (length body))" d]
    show ?thesis
      unfolding find_extension_field_def i(2) iter_at_simps T [symmetric] table_length [OF t] by simp
  qed
  have big: "\<not> (- 1 :: u32) \<le> tag"
  proof -
    have "unat tag < 2 ^ 29" using tag by (simp add: word_less_nat_alt)
    then show ?thesis by (simp add: word_le_nat_alt unsigned_minus_1_eq_mask mask_eq_exp_minus_1)
  qed
  let ?st = "st\<lparr>ds_iter := iter_at a body d i, ds_extension_range_start := - 1\<rparr>"
  have "at_field a body d ?st" using i(1) st by (auto simp: at_field_def)
  from skip [OF this] have "safe D P (at_field a body d) (\<lambda>stream w. dec_then (dec_return ()) (\<lambda>_ s.
      if is_bytes_left stream \<noteq> is_bytes_left s then dec_return ?st s
      else dec_then (pb_skip_field E wt) (\<lambda>_. dec_return ?st) s) stream w)"
    by (simp add: dec_then_def [of "dec_return ()"] dec_return_def [of "()"])
  then have "safe D P (at_field a body d) (\<lambda>stream w. if tag < ds_extension_range_start st
      then dec_then (pb_skip_field E wt) (\<lambda>_. dec_return st) stream w
      else dec_then (dec_return ()) (\<lambda>_ s.
        if is_bytes_left stream \<noteq> is_bytes_left s then dec_return ?st s
        else dec_then (pb_skip_field E wt) (\<lambda>_. dec_return ?st) s) stream w)"
    using skip [OF st] by (cases "tag < ds_extension_range_start st") simp_all
  moreover have "decode_unknown k sub E tag wt st = (\<lambda>stream w. if tag < ds_extension_range_start st
      then dec_then (pb_skip_field E wt) (\<lambda>_. dec_return st) stream w
      else dec_then (dec_return ()) (\<lambda>_ s.
        if is_bytes_left stream \<noteq> is_bytes_left s then dec_return ?st s
        else dec_then (pb_skip_field E wt) (\<lambda>_. dec_return ?st) s) stream w)"
    using big by (simp add: fun_eq_iff decode_unknown_def none Let_def)
  ultimately show ?thesis by simp
qed

lemma tag_small: "pb_decode_tag E s w = Some (t, v, Some (wt, tag), eof) \<Longrightarrow> tag < 2 ^ 29"
proof -
  assume "pb_decode_tag E s w = Some (t, v, Some (wt, tag), eof)"
  then obtain x :: u32 where x: "tag = drop_bit 3 x" by (auto simp: pb_decode_tag_def bind_Some_iff split: option.splits if_splits)
  have "unat x div 2 ^ 3 < 2 ^ 29" using unsigned_less [of x, where 'a = nat] by simp
  then show ?thesis
    using unsigned_less [of x, where 'a = nat]
    by (simp add: x word_less_nat_alt unsigned_drop_bit_eq drop_bit_nat_def take_bit_nat_eq_self)
qed

text \<open>One field of the input: the decoder goes on with at least a byte less, or stops.\<close>

lemma decode_next_safe:
  assumes m: "message_place D P n T a body d sz" and T: "T = de_tables E" and st: "at_field a body d st"
    and sub: "safe_subs D P n T sub" and r: "ready D s w"
  obtains s' w' r where "decode_next (Suc n) sub E fcs st s w = Some (s', w', r)" "within s' s" "changes_in P w w'" "ready D s' w'"
    "\<And>st' go. r = Some (st', go) \<Longrightarrow> at_field a body d st' \<and> (go \<longrightarrow> is_bytes_left s' < is_bytes_left s)"
proof -
  from m have t: "table T a body" by (simp add: message_place_def)
  from st obtain i where i: "i < length body" "ds_iter st = iter_at a body d i" "ds_fixed_count_field st = None"
    by (auto simp: at_field_def)
  obtain u v q eof where u: "pb_decode_tag E s w = Some (u, v, q, eof)" "within u s" "changes_in P w v"
    using tag_returns [OF r, of E P] by blast
  have ru: "ready D u v" by (rule ready_after [OF r u(2,3)])
  show thesis
  proof (cases q)
    case None
    with u st ru show thesis by (cases eof) (auto intro!: that simp: decode_next_def)
  next
    case (Some wt_tag)
    then obtain wt tag where q: "q = Some (wt, tag)" by (cases wt_tag) auto
    have less: "is_bytes_left u < is_bytes_left s" using tag_steady(3) [OF u(1)] q by simp
    have small: "tag < 2 ^ 29" using u(1) unfolding q by (rule tag_small)
    from iter_find [OF t i(1), of tag d] i(1) obtain j ok where
      j: "j < length body" "pb_field_iter_find T (iter_at a body d i) tag = Some (iter_at a body d j, ok)"
      by (auto split: if_splits)
    let ?st = "st\<lparr>ds_iter := iter_at a body d j\<rparr>"
    have atj: "at_field a body d ?st" using j(1) i(3) by (auto simp: at_field_def)
    define rest where "rest = (if \<not> ok then dec_then (decode_unknown (Suc n) sub E tag wt ?st) (\<lambda>st. dec_return (st, True))
      else dec_then (use_fixed_count T fcs (body ! j) ?st) (\<lambda>st.
        let st = mark_required (body ! j) st in
        dec_then (decode_field (Suc n) sub E wt (ds_iter st)) (\<lambda>_. dec_return (st, True))))"
    have "safe D P (\<lambda>x. at_field a body d (fst x)) rest"
    proof (cases ok)
      case False
      have "safe D P (\<lambda>x. at_field a body d (fst x)) (dec_then (decode_unknown (Suc n) sub E tag wt ?st) (\<lambda>st. dec_return (st, True)))"
        by (rule safe_then [OF decode_unknown_safe [OF m T atj small]]) (auto intro: safes)
      with False show ?thesis by (simp add: rest_def)
    next
      case True
      have sj: "static_field body sz j" using m j(1) by (simp add: message_place_def)
      have "use_fixed_count T fcs (body ! j) ?st = dec_return ?st"
        using sj at_shift_eq [of body d j] by (auto simp: use_fixed_count_def static_field_def Let_def)
      moreover have atm: "at_field a body d (mark_required (body ! j) ?st)" "ds_iter (mark_required (body ! j) ?st) = iter_at a body d j"
        using atj by (auto simp: mark_required_def Let_def at_field_def)
      moreover have "safe D P (\<lambda>x. at_field a body d (fst x)) (dec_then (dec_return ?st) (\<lambda>st.
          let st = mark_required (body ! j) st in
          dec_then (decode_field (Suc n) sub E wt (ds_iter st)) (\<lambda>_. dec_return (st, True))))"
      proof (rule safe_then)
        show "safe D P (\<lambda>x. x = ?st) (dec_return ?st)" by (intro safes) simp
      next
        fix x assume x: "x = ?st"
        have "safe D P (\<lambda>x. at_field a body d (fst x)) (dec_then (decode_field (Suc n) sub E wt (iter_at a body d j))
            (\<lambda>_. dec_return (mark_required (body ! j) ?st, True)))"
          using decode_field_safe [OF m T j(1) sub] atm(1) by (intro safes) simp_all
        then show "safe D P (\<lambda>x. at_field a body d (fst x)) (let st = mark_required (body ! j) x in
            dec_then (decode_field (Suc n) sub E wt (ds_iter st)) (\<lambda>_. dec_return (st, True)))"
          unfolding x Let_def atm(2) .
      qed
      ultimately show ?thesis using True by (simp add: rest_def)
    qed
    from safeE [OF this ru] obtain s' w' y where y: "rest u v = Some (s', w', y)" "within s' u" "changes_in P v w'" "ready D s' w'"
      "\<And>x. y = Some x \<Longrightarrow> at_field a body d (fst x)" by metis
    have "decode_next (Suc n) sub E fcs st s w = rest u v"
      using u(1) q j i(2) by (simp add: decode_next_def rest_def T [symmetric] field_of_at [OF t])
    moreover have "unat (is_bytes_left s') < unat (is_bytes_left s)"
      using within_left [OF y(2)] less by (simp add: word_less_nat_alt)
    moreover have "within s' s" using u(2) y(2) by (rule within_trans)
    moreover have "changes_in P w w'" using u(3) y(3) by (rule changes_in_trans)
    ultimately show thesis using y that by (force simp: word_less_nat_alt)
  qed
qed

lemma decode_loop_safe:
  assumes m: "message_place D P n T a body d sz" and T: "T = de_tables E" and sub: "safe_subs D P n T sub"
  shows "at_field a body d st \<Longrightarrow> ready D s w \<Longrightarrow> unat (is_bytes_left s) < fuel \<Longrightarrow>
    \<exists>s' w' r. decode_loop fuel (Suc n) sub E fcs st s w = Some (s', w', r) \<and> within s' s \<and> changes_in P w w' \<and>
      (\<forall>st'. r = Some st' \<longrightarrow> at_field a body d st')"
proof (induction fuel arbitrary: st s w)
  case (Suc fuel)
  show ?case
  proof (cases "is_bytes_left s = 0")
    case True
    with Suc.prems(1) show ?thesis by simp
  next
    case False
    obtain t v r where t: "decode_next (Suc n) sub E fcs st s w = Some (t, v, r)" "within t s" "changes_in P w v" "ready D t v"
      and g: "\<And>st' go. r = Some (st', go) \<Longrightarrow> at_field a body d st' \<and> (go \<longrightarrow> is_bytes_left t < is_bytes_left s)"
      by (rule decode_next_safe [where fcs = fcs, OF m T Suc.prems(1) sub Suc.prems(2)]) blast
    show ?thesis
    proof (cases "\<exists>st'. r = Some (st', True)")
      case True
      then obtain st' where r: "r = Some (st', True)" by blast
      from g [OF r] have "at_field a body d st'" "unat (is_bytes_left t) < unat (is_bytes_left s)"
        by (simp_all add: word_less_nat_alt)
      then have "at_field a body d st'" "unat (is_bytes_left t) < fuel" using Suc.prems(3) by simp_all
      with Suc.IH [of st' t v] t(4) obtain s' w' q where "decode_loop fuel (Suc n) sub E fcs st' t v = Some (s', w', q)"
        "within s' t" "changes_in P v w'" "\<forall>st'. q = Some st' \<longrightarrow> at_field a body d st'" by blast
      moreover from this have "within s' s" "changes_in P w w'"
        using t(2,3) by (blast intro: within_trans changes_in_trans)+
      ultimately show ?thesis using False t(1) r by (simp add: dec_then_def)
    next
      case stop: False
      then consider "r = None" | st' where "r = Some (st', False)" by (cases r) auto
      then show ?thesis
        using False t g by cases (auto simp: dec_then_def dec_return_def)
    qed
  qed
qed simp

lemma dec_local_safe:
  assumes f: "safe (D \<union> {x. in_block q (length bs) x}) P R f" and q: "\<And>x. in_block q (length bs) x \<Longrightarrow> x \<notin> D"
  shows "safe D P R (dec_local q bs f)"
proof (rule safeI)
  fix s w assume r: "ready D s w"
  let ?v = "with_local q bs w"
  have mem: "wd_mem ?v x = (if in_block q (length bs) x then Some (bs ! unat (x - q)) else wd_mem w x)" for x
    by (simp add: with_local_def map_block_def in_block_def)
  have "dom (wd_mem ?v) = D \<union> {x. in_block q (length bs) x}"
    using r by (auto simp: ready_def dom_def mem split: if_splits)
  with r have "ready (D \<union> {x. in_block q (length bs) x}) s ?v" by (simp add: ready_def)
  from safeE [OF f this] obtain s' v' y where v: "f s ?v = Some (s', v', y)" "within s' s" "changes_in P ?v v'" "\<And>x. y = Some x \<Longrightarrow> R x"
    by metis
  let ?w' = "v'\<lparr>wd_mem := unmap_block q (length bs) (wd_mem v')\<rparr>"
  have out: "wd_mem w x = None" if "in_block q (length bs) x" for x
    using q [OF that] r by (auto simp: ready_def domIff)
  have mem': "wd_mem ?w' x = (if in_block q (length bs) x then None else wd_mem v' x)" for x
    by (simp add: unmap_block_def in_block_def)
  have same: "(wd_mem v' x = None) = (wd_mem ?v x = None)" for x
    using v(3) unfolding changes_in_def by (metis domIff)
  have "(wd_mem ?w' x = None) = (wd_mem w x = None)" for x
    using out [of x] same [of x] mem [of x] mem' [of x] by (cases "in_block q (length bs) x") simp_all
  then have "dom (wd_mem ?w') = dom (wd_mem w)" by (auto simp: dom_def)
  moreover have "wd_mem ?w' x = wd_mem w x" if "\<not> P x" for x
    using v(3) that out [of x] mem [of x] mem' [of x] by (cases "in_block q (length bs) x") (simp_all add: changes_in_def)
  moreover have "wd_heap ?w' = wd_heap w" using v(3) by (simp add: changes_in_def with_local_def)
  ultimately have "changes_in P w ?w'" by (simp add: changes_in_def)
  moreover have "dec_local q bs f s w = Some (s', ?w', y)" using v(1) by (simp add: dec_local_def with_local_def)
  ultimately show "\<exists>s' w' r. dec_local q bs f s w = Some (s', w', r) \<and> within s' s \<and> changes_in P w w' \<and> (\<forall>x. r = Some x \<longrightarrow> R x)"
    using v(2,4) by blast
qed

text \<open>The places of the locals, in terms of the accessible memory.\<close>

definition frames_off :: "nat \<Rightarrow> pb_decode_env \<Rightarrow> addr set \<Rightarrow> bool" where
  "frames_off n E D \<longleftrightarrow> (\<forall>k \<le> n. \<forall>x. in_block (de_frame E k + 16) 4 x \<longrightarrow> x \<notin> D) \<and>
     (\<forall>k \<le> n. \<forall>j < k. disjoint_blocks (de_frame E k + 16) 4 (de_frame E j + 16) 4)"

lemma frames_free_off: "frames_free n E w \<longleftrightarrow> frames_off n E (dom (wd_mem w))"
  by (auto simp: frames_free_def frames_off_def domIff)

lemma frames_off_inner:
  assumes "frames_off (Suc n) E D"
  shows "frames_off n E (D \<union> {x. in_block (de_frame E (Suc n) + 16) 4 x})"
proof -
  have "x \<notin> D \<union> {x. in_block (de_frame E (Suc n) + 16) 4 x}" if "k \<le> n" "in_block (de_frame E k + 16) 4 x" for k x
  proof -
    have "disjoint_blocks (de_frame E (Suc n) + 16) 4 (de_frame E k + 16) 4" using assms that(1) by (simp add: frames_off_def)
    then have "\<not> in_block (de_frame E (Suc n) + 16) 4 x" using that(2) by (auto simp: disjoint_blocks_def)
    moreover have "x \<notin> D" using assms that unfolding frames_off_def by (meson le_SucI)
    ultimately show ?thesis by simp
  qed
  with assms show ?thesis by (simp add: frames_off_def)
qed

lemma decoders_safe: "frames_off n E D \<Longrightarrow> safe_subs D P n (de_tables E) (pb_decoders n E)"
proof (induction n arbitrary: D)
  case 0
  then show ?case by (simp add: safe_subs_def)
next
  case (Suc n)
  let ?T = "de_tables E" and ?q = "de_frame E (Suc n) + 16"
  let ?D = "D \<union> {x. in_block ?q 4 x}"
  have four: "length [0, 0, 0, 0 :: u8] = 4" by simp
  have sub: "safe_subs ?D P n ?T (pb_decoders n E)" using Suc.IH frames_off_inner [OF Suc.prems] by blast
  have noinit: "safe D P (\<lambda>_. True) (decode_noinit_step (Suc n) (pb_decoders n E) E flds d)"
    if sm: "static_message (Suc n) ?T flds sz" and W: "writable D P d sz" for flds d sz
  proof -
    have "writable ?D P d sz" using W by (auto simp: writable_def)
    with sm obtain body where "table_fields ?T flds = Some body" and m: "message_place ?D P n ?T flds body d sz"
      by (rule message_placeI)
    from m have t: "table ?T flds body" and b: "body \<noteq> []" "length body < 2 ^ 32" by (simp_all add: message_place_def)
    let ?st = "\<lparr> ds_iter = iter_at flds body d 0, ds_fields_seen = [0, 0], ds_extension_range_start = 0, ds_fixed_count_field = None \<rparr>"
    let ?after = "\<lambda>st. dec_then (count_complete ?T ?q st) (\<lambda>_. check_required ?T st)"
    have at: "at_field flds body d ?st" using b(1) by (auto simp: at_field_def)
    have after: "returns P s w (?after st s w)" if st: "at_field flds body d st" for st s w
    proof -
      from st obtain i where i: "i < length body" "ds_iter st = iter_at flds body d i" "ds_fixed_count_field st = None"
        by (auto simp: at_field_def)
      then have "?after st s w = check_required ?T st s w" by (simp add: dec_then_def count_complete_def dec_return_def)
      also have "returns P s w \<dots>"
        using required_count [OF t i(1) b(2), of d] i(2) by (simp add: check_required_def del: of_nat_min)
      finally show ?thesis .
    qed
    have "safe ?D P (\<lambda>_. True) (\<lambda>s w. dec_then
        (decode_loop (Suc (unat (is_bytes_left s))) (Suc n) (pb_decoders n E) E ?q ?st) ?after s w)"
      unfolding safe_returns
    proof (intro allI impI)
      fix s w assume r: "ready ?D s w"
      from decode_loop_safe [OF m refl sub at r lessI, of ?q] obtain t v y where
        l: "decode_loop (Suc (unat (is_bytes_left s))) (Suc n) (pb_decoders n E) E ?q ?st s w = Some (t, v, y)"
          "within t s" "changes_in P w v" "\<forall>st'. y = Some st' \<longrightarrow> at_field flds body d st'" by blast
      show "returns P s w (dec_then (decode_loop (Suc (unat (is_bytes_left s))) (Suc n) (pb_decoders n E) E ?q ?st) ?after s w)"
      proof (cases y)
        case None
        with l show ?thesis by (simp add: dec_then_def returns_def del: decode_loop.simps)
      next
        case (Some st)
        with l have "returns P s w (?after st t v)" using returns_from [OF after] by blast
        with l(1) Some show ?thesis by (simp add: dec_then_def [of "decode_loop _ _ _ _ _ _"] del: decode_loop.simps)
      qed
    qed
    then have "safe ?D P (\<lambda>_. True) (\<lambda>s w. do {
        (iter, _) \<leftarrow> pb_field_iter_begin ?T flds d;
        dec_then (decode_loop (Suc (unat (is_bytes_left s))) (Suc n) (pb_decoders n E) E ?q
          \<lparr> ds_iter = iter, ds_fields_seen = [0, 0], ds_extension_range_start = 0, ds_fixed_count_field = None \<rparr>) ?after s w })"
      using iter_begin [OF t b(1), of d] by (simp del: decode_loop.simps)
    then show ?thesis
      unfolding decode_noinit_step_def Let_def
      using Suc.prems by (intro dec_local_safe) (simp_all only: four, auto simp: frames_off_def)
  qed
  have "safe D P (\<lambda>_. True) (decode_step (Suc n) (decode_noinit_step (Suc n) (pb_decoders n E) E) E flds d)"
    if sm: "static_message (Suc n) ?T flds sz" and W: "writable D P d sz" for flds d sz
    unfolding safe_returns
  proof (intro allI impI)
    fix s w assume r: "ready D s w"
    then have "dom (wd_mem w) = D" by (simp add: ready_def)
    with safe_updE [OF defaults_safe [OF sm W]] obtain w1 where w1: "pb_message_set_to_defaults (Suc n) ?T flds d w = Some w1"
      "changes_in P w w1" "dom (wd_mem w1) = D" by metis
    have "ready D s w1" using r w1(3) by (simp add: ready_def)
    from safeE [OF noinit [OF sm W] this] obtain t v y where
      t: "decode_noinit_step (Suc n) (pb_decoders n E) E flds d s w1 = Some (t, v, y)" "within t s" "changes_in P w1 v" "ready D t v"
      by metis
    then have "dom (wd_mem v) = D" by (simp add: ready_def)
    with safe_updE [OF release_safe [OF sm W]] obtain w2 where w2: "pb_release (Suc n) ?T flds d v = Some w2" "changes_in P v w2" by metis
    have ch: "changes_in P w v" using w1(2) t(3) by (rule changes_in_trans)
    from ch w2(2) have "changes_in P w w2" by (rule changes_in_trans)
    with ch w1(1) t(1,2) w2(1) show "returns P s w (decode_step (Suc n) (decode_noinit_step (Suc n) (pb_decoders n E) E) E flds d s w)"
      by (cases y) (simp_all add: decode_step_def returns_def)
  qed
  with noinit show ?case by (simp add: safe_subs_def Let_def del: static_message.simps)
qed

subsection \<open>Decoding from a buffer\<close>

lemma decode_returns:
  assumes sm: "static_message n (de_tables E) flds sz" and dest: "mapped (wd_mem w) dest sz"
    and buf: "mapped (wd_mem w) buf (unat len)" and fr: "frames_free n E w"
  shows "\<exists>s' w' r. pb_decode n E flds dest (pb_istream_from_buffer buf len) w = Some (s', w', r) \<and>
    within s' (pb_istream_from_buffer buf len) \<and> changes dest sz w w'"
proof -
  let ?D = "dom (wd_mem w)" and ?s = "pb_istream_from_buffer buf len"
  have "safe_subs ?D (in_block dest sz) n (de_tables E) (pb_decoders n E)"
    using fr by (intro decoders_safe) (simp add: frames_free_off)
  moreover have "writable ?D (in_block dest sz) dest sz"
    using mapped_block [OF dest] by (auto simp: writable_def)
  ultimately have "safe ?D (in_block dest sz) (\<lambda>_. True) (pb_decode n E flds dest)"
    using sm unfolding safe_subs_def pb_decode_def by blast
  moreover have "ready ?D ?s w" using mapped_block [OF buf] by (auto simp: ready_def pb_istream_from_buffer_def)
  ultimately show ?thesis unfolding safe_returns returns_def changes_block by blast
qed

text \<open>A message with an array of up to four numbers, an optional string and a oneof of a number and a submessage:
  the count at 0, the array at 4, the flag at 20, the string at 21, the tag of the oneof at 32, its value at 36.\<close>

definition array_field :: "u32 \<Rightarrow> u8 \<Rightarrow> u32 \<Rightarrow> u32 \<Rightarrow> u32 \<Rightarrow> u32 \<Rightarrow> addr \<Rightarrow> pb_field_t" where
  "array_field tag type data_off size_off data_sz array_sz p = \<lparr> fld_tag = tag, fld_type = type, fld_data_offset = data_off,
     fld_size_offset = size_off, fld_data_size = data_sz, fld_array_size = array_sz, fld_ptr = p \<rparr>"

definition static_fields :: "pb_field_t list" where
  "static_fields = [array_field 1 0x22 4 0xFFFFFFFC 4 4 0, array_field 2 0x17 1 0xFFFFFFFF 8 0 0,
     array_field 3 0x32 7 0xFFFFFFFC 4 0 0, array_field 4 0x38 0xFFFFFFFF 0xFFFFFFFC 4 0 0x6000]"

definition static_submessage :: "pb_field_t list" where
  "static_submessage = [array_field 1 0x03 0 0 4 0 0]"

definition static_tables :: pb_tables where
  "static_tables a =
     (if a = 0x5000 then Some (static_fields @ [PB_LAST_FIELD])
      else if a = 0x6000 then Some (static_submessage @ [PB_LAST_FIELD]) else None)"

text \<open>Five items for an array of four, and the beginning of a string that goes past the end of the input.\<close>

definition hostile_bytes :: "u8 list" where
  "hostile_bytes = [0x0A, 0x05, 1, 2, 3, 4, 5, 0x12, 0xFF, 0x01, 0x41]"

definition hostile_env :: pb_decode_env where
  "hostile_env = \<lparr> de_tables = static_tables, de_read = (\<lambda>cb state count w. Some (state, w, [], False)),
     de_callback = (\<lambda>f field arg. dec_false), de_extension = (\<lambda>f ext tag wire_type. dec_return ()),
     de_choose = (\<lambda>w n. 0), de_fresh = (\<lambda>a. 0), de_frame = (\<lambda>n. 0x8000 + 32 * of_nat n) \<rparr>"

definition hostile_world :: "pb_world" where
  "hostile_world = \<lparr> wd_mem = map_block 0x3000 (replicate 40 0xFF) (bytes_at 0x2000 hostile_bytes), wd_heap = (\<lambda>p. None) \<rparr>"

lemma array_field_simps [simp]:
  "fld_tag (array_field tag type data_off size_off data_sz array_sz p) = tag"
  "fld_type (array_field tag type data_off size_off data_sz array_sz p) = type"
  "fld_data_offset (array_field tag type data_off size_off data_sz array_sz p) = data_off"
  "fld_size_offset (array_field tag type data_off size_off data_sz array_sz p) = size_off"
  "fld_data_size (array_field tag type data_off size_off data_sz array_sz p) = data_sz"
  "fld_array_size (array_field tag type data_off size_off data_sz array_sz p) = array_sz"
  "fld_ptr (array_field tag type data_off size_off data_sz array_sz p) = p"
  by (simp_all add: array_field_def)

lemma static_bodies:
  "table_fields static_tables 0x5000 = Some static_fields" "table_fields static_tables 0x6000 = Some static_submessage"
  by code_simp+

lemma static_places:
  "data_at static_fields 0 0 = 4" "size_at static_fields 0 0 = 0" "data_at static_fields 0 (Suc 0) = 21" "size_at static_fields 0 (Suc 0) = 20"
  "data_at static_fields 0 2 = 36" "size_at static_fields 0 2 = 32" "data_at static_fields 0 3 = 36" "size_at static_fields 0 3 = 32"
  "data_at static_submessage 0 0 = 0"
  by code_simp+

lemma static_nth:
  "static_fields ! 0 = array_field 1 0x22 4 0xFFFFFFFC 4 4 0" "static_fields ! Suc 0 = array_field 2 0x17 1 0xFFFFFFFF 8 0 0"
  "static_fields ! 2 = array_field 3 0x32 7 0xFFFFFFFC 4 0 0" "static_fields ! 3 = array_field 4 0x38 0xFFFFFFFF 0xFFFFFFFC 4 0 0x6000"
  "static_submessage ! 0 = array_field 1 0x03 0 0 4 0 0"
  by (simp_all add: static_fields_def static_submessage_def)

lemma static_example_fields: "i < 4 \<Longrightarrow> static_field static_fields 40 i" "static_field static_submessage 4 0"
proof -
  note defs = static_field_def data_length_def count_length_def PB_ATYPE_def PB_HTYPE_def PB_LTYPE_def pb_types static_nth static_places
  show "static_field static_submessage 4 0" by (simp add: defs del: data_at.simps size_at.simps)
  show "static_field static_fields 40 i" if "i < 4"
  proof -
    from that have "i = 0 \<or> i = Suc 0 \<or> i = 2 \<or> i = 3" by arith
    then show ?thesis by (elim disjE) (simp_all add: defs del: data_at.simps size_at.simps)
  qed
qed

lemma static_example: "static_message 2 static_tables 0x5000 40"
proof -
  have "static_message (Suc 0) static_tables 0x6000 4"
    using static_example_fields(2) by (simp add: static_bodies static_submessage_def PB_LTYPE_def ltypes)
  moreover have "i < 4 \<Longrightarrow> PB_LTYPE (fld_type (static_fields ! i)) = PB_LTYPE_SUBMESSAGE \<Longrightarrow>
      fld_ptr (static_fields ! i) = 0x6000 \<and> fld_data_size (static_fields ! i) = 4" for i :: nat
  proof -
    assume "i < 4" and l: "PB_LTYPE (fld_type (static_fields ! i)) = PB_LTYPE_SUBMESSAGE"
    then have "i = 0 \<or> i = Suc 0 \<or> i = 2 \<or> i = 3" by arith
    with l show ?thesis by (elim disjE) (simp_all add: static_nth PB_LTYPE_def ltypes)
  qed
  moreover have "length static_fields = 4" by (simp add: static_fields_def)
  moreover have "static_fields \<noteq> []" by (simp add: static_fields_def)
  ultimately have "static_message (Suc (Suc 0)) static_tables 0x5000 40"
    using static_example_fields(1) by (subst static_message.simps(2)) (simp add: static_bodies list_all_iff del: static_message.simps)
  then show ?thesis by (simp add: numeral_2_eq_2)
qed

text \<open>C5 (type): a table whose fields are all in the structure is well typed, and decoding any bytes with it from
  a buffer returns, with success or with failure: it does not run forever, it accesses no memory but what is accessible, the
  stream stays in the buffer, and nothing is changed but the structure.\<close>

theorem decode_safe:
  assumes "static_message n (de_tables E) flds sz" and "mapped (wd_mem w) dest sz"
    and "mapped (wd_mem w) buf (unat len)" and "frames_free n E w"
  shows "\<exists>s' w' r. pb_decode n E flds dest (pb_istream_from_buffer buf len) w = Some (s', w', r) \<and>
    within s' (pb_istream_from_buffer buf len) \<and> changes dest sz w w'"
  using assms by (rule decode_returns)

lemma hostile_block:
  "wd_mem hostile_world x = (if in_block 0x3000 40 x then Some 0xFF else bytes_at 0x2000 hostile_bytes x)"
  by (simp add: hostile_world_def map_block_def in_block_def)

lemma hostile_frames: "frames_free 2 hostile_env hostile_world"
proof -
  have k: "k \<le> 2 \<longleftrightarrow> k = 0 \<or> k = 1 \<or> k = 2" for k :: nat by arith
  have "disjoint_blocks 0x3000 40 (de_frame hostile_env k + 16) 4 \<and> disjoint_blocks 0x2000 11 (de_frame hostile_env k + 16) 4"
    if "k \<le> 2" for k
    using that unfolding k by (auto simp: hostile_env_def intro!: blocks_apart)
  then have "wd_mem hostile_world x = None" if "k \<le> 2" "in_block (de_frame hostile_env k + 16) 4 x" for k x
    using that by (auto simp: hostile_block hostile_bytes_def disjoint_blocks_def bytes_at_def in_block_def)
  moreover have "de_frame hostile_env = de_frame example_decode_env" by (simp add: hostile_env_def example_decode_env_def)
  ultimately show ?thesis using example_frames by (simp add: frames_free_def)
qed

theorem decode_safe_witness:
  "\<exists>s' w' r. pb_decode 2 hostile_env 0x5000 0x3000 (pb_istream_from_buffer 0x2000 11) hostile_world = Some (s', w', r) \<and>
    within s' (pb_istream_from_buffer 0x2000 11) \<and> changes 0x3000 40 hostile_world w'"
proof (rule decode_safe)
  show "static_message 2 (de_tables hostile_env) 0x5000 40" using static_example by (simp add: hostile_env_def)
  show "mapped (wd_mem hostile_world) 0x3000 40" "mapped (wd_mem hostile_world) 0x2000 (unat (11 :: u64))"
    by (auto simp: mapped_def hostile_block in_block_def unat_of_nat bytes_at_def hostile_bytes_def)
  show "frames_free 2 hostile_env hostile_world" by (rule hostile_frames)
qed

end
