(* ===== verification/PbUnion.thy ===== *)
theory PbUnion
  imports PbSafety
begin

text \<open>
  The oneofs of \<open>Pods/nanopb/pb_decode.c\<close> whose members are pointers: what \<open>pb_release_union_field\<close> leaves in the
  union when the member changes, and what \<open>decode_pointer_field\<close> does with it.

  \<^item> Changing from a static member to a pointer, the bytes of the old member are still in the place of the
    pointer when \<open>allocate_field\<close> hands it to \<open>realloc\<close>: \<open>union_pointer_stuck\<close>.
  \<^item> Changing to a member from a pointer that is released, the pointer is left null: \<open>union_pointer_released\<close>.
\<close>

subsection \<open>Releasing the member before\<close>

lemma scalar_not_released:
  assumes t: "table T a body" and j: "j < length body" and h: "PB_HTYPE (fld_type (body ! j)) = PB_HTYPE_ONEOF"
    and at: "PB_ATYPE (fld_type (body ! j)) = PB_ATYPE_STATIC" and l: "PB_LTYPE (fld_type (body ! j)) \<le> PB_LTYPE_LAST_PACKABLE"
    and w: "wd_load 4 (size_at body d j) w = Some (fld_tag (body ! j) :: pb_size_t)"
  shows "pb_release_single_field (Suc n) T (iter_at a body d j) w = Some w"
proof -
  have "PB_LTYPE (fld_type (body ! j)) \<noteq> PB_LTYPE_EXTENSION" "PB_LTYPE (fld_type (body ! j)) \<noteq> PB_LTYPE_SUBMESSAGE"
    using l by (auto simp: ltypes)
  with assms show ?thesis by (simp add: release_field_step_def release_contents_def field_of_at [OF t] Let_def)
qed

lemma union_release_scalar:
  assumes t: "table T a body" and i: "i < length body" and j: "j < length body" and d: "distinct (map fld_tag body)"
    and s: "size_at body d i = size_at body d j" and e: "PB_LTYPE (fld_type (body ! i)) \<noteq> PB_LTYPE_EXTENSION"
    and old: "PB_HTYPE (fld_type (body ! j)) = PB_HTYPE_ONEOF" "PB_ATYPE (fld_type (body ! j)) = PB_ATYPE_STATIC"
      "PB_LTYPE (fld_type (body ! j)) \<le> PB_LTYPE_LAST_PACKABLE"
    and w: "wd_load 4 (size_at body d j) w = Some (fld_tag (body ! j) :: pb_size_t)"
  shows "pb_release_union_field (Suc n) T (iter_at a body d i) stream w = Some (stream, w, Some (iter_at a body d i))"
proof -
  have e': "PB_LTYPE (fld_type (body ! j)) \<noteq> PB_LTYPE_EXTENSION" using old(3) by (auto simp: ltypes)
  show ?thesis
    using w s i j scalar_not_released [OF t j old w, of n] find_tag [OF t i j d e'] find_tag [OF t j i d e]
    by (simp add: pb_release_union_field_def field_of_at [OF t] Let_def del: pb_release_single_field.simps)
qed

subsection \<open>A pointer that is no pointer\<close>

lemma string_on_bad_pointer:
  assumes at: "at_bytes s w (counted bs)" and len: "length bs + 1 < 2 ^ 32"
    and p: "wd_load 8 dest w = Some (p :: addr)" "p \<noteq> 0" "wd_heap w p = None"
    and ty: "PB_ATYPE (fld_type field) = PB_ATYPE_POINTER"
  shows "pb_dec_string E field dest s w = None"
proof -
  let ?u = "uleb_bytes (length bs)"
  have 1: "pb_decode_varint32 E s w = Some (behind s (length ?u), w, Some (of_nat (length bs)))"
    using at_bytes_append(1) [of s w ?u bs] at len by (intro decode_varint32_at) (simp_all add: counted_def)
  have u: "unat (ucast x :: u64) = unat x" for x :: u32
    using unsigned_less [of x, where 'a = nat] by (simp add: unsigned_ucast_eq take_bit_nat_eq_self)
  have "unat (of_nat (length bs) + 1 :: u32) = length bs + 1"
    using len by (simp add: unat_word_ariths unat_of_nat)
  then have "unat (ucast (of_nat (length bs) + 1 :: u32) :: u64) = length bs + 1" by (simp only: u)
  moreover have "unat (ucast (of_nat (length bs) :: u32) :: u64) = length bs"
    using len by (simp add: u unat_of_nat)
  ultimately have 2: "\<not> (ucast (of_nat (length bs) + 1 :: u32) :: u64) < ucast (of_nat (length bs) :: u32)"
    "(ucast (of_nat (length bs) + 1 :: u32) :: u64) \<noteq> 0"
    by (simp_all add: word_less_nat_alt, metis unsigned_0 nat.distinct(1) Suc_eq_plus1)
  have "allocate_field E dest (ucast (of_nat (length bs) + 1 :: u32)) 1 t w = None" for t
  proof -
    have "\<not> (- 1 :: u64) div 1 < x" for x by (simp add: not_less)
    with 2(2) p show ?thesis by (simp add: allocate_field_def dec_then_def dec_load_def pb_realloc_def wd_load_def)
  qed
  with 1 2(1) ty show ?thesis by (simp add: pb_dec_string_def dec_then_def dest_or_alloc_def Let_def)
qed

lemma pointer_string_decoder:
  assumes i: "table (de_tables E) a body" "i < length body"
    and ty: "PB_HTYPE (fld_type (body ! i)) = PB_HTYPE_ONEOF" "PB_LTYPE (fld_type (body ! i)) = PB_LTYPE_STRING"
    and st: "dec_store 4 (size_at body d i) (fld_tag (body ! i) :: pb_size_t) s w = Some (s, v, Some ())"
  shows "decode_pointer_field n sub E wt (iter_at a body d i) s w = pb_dec_string E (body ! i) (data_at body d i) s v"
  using assms
  by (simp add: decode_pointer_field_def field_of_at [OF i(1)] PB_DECODERS_def ltypes dec_then_def [of "dec_store _ _ _"]
      dec_then_def [of "dec_return _"] dec_return_def Let_def)

lemma union_pointer_stuck:
  assumes t: "table (de_tables E) a body" and i: "i < length body" and j: "j < length body" and d: "distinct (map fld_tag body)"
    and new: "PB_HTYPE (fld_type (body ! i)) = PB_HTYPE_ONEOF" "PB_ATYPE (fld_type (body ! i)) = PB_ATYPE_POINTER"
      "PB_LTYPE (fld_type (body ! i)) = PB_LTYPE_STRING"
    and old: "PB_HTYPE (fld_type (body ! j)) = PB_HTYPE_ONEOF" "PB_ATYPE (fld_type (body ! j)) = PB_ATYPE_STATIC"
      "PB_LTYPE (fld_type (body ! j)) \<le> PB_LTYPE_LAST_PACKABLE"
    and s: "size_at body d i = size_at body d j"
    and w: "wd_load 4 (size_at body d j) w = Some (fld_tag (body ! j) :: pb_size_t)"
    and p: "wd_load 8 (data_at body d i) w = Some (p :: addr)" "p \<noteq> 0" "wd_heap w p = None"
    and dj: "disjoint_blocks (size_at body d j) 4 (data_at body d i) 8"
      "disjoint_blocks (size_at body d j) 4 (is_state stream) (length (counted bs))"
    and at: "at_bytes stream w (counted bs)" and len: "length bs + 1 < 2 ^ 32"
  shows "decode_field (Suc n) sub E wt (iter_at a body d i) stream w = None"
proof -
  have e: "PB_LTYPE (fld_type (body ! i)) \<noteq> PB_LTYPE_EXTENSION" using new(3) by (simp add: ltypes)
  note release = union_release_scalar [OF t i j d s e old w, of n stream]
  let ?tag = "le_of_word 4 (fld_tag (body ! i))"
  have n: "length ?tag = 4" by simp
  from w have "mapped (wd_mem w) (size_at body d i) (length ?tag)"
    unfolding wd_load_def n s by (metis load_le_None_iff option.distinct(1))
  from store_there [OF this] n obtain v where v: "dec_store_bytes (size_at body d i) ?tag stream w = Some (stream, v, Some ())"
    "changes (size_at body d j) 4 w v" using s by auto
  have st: "dec_store 4 (size_at body d i) (fld_tag (body ! i)) stream w = Some (stream, v, Some ())"
    using v(1) by (simp add: dec_store_def)
  have "at_bytes stream v (counted bs)" by (rule changes_at_bytes [OF v(2) dj(2) at])
  moreover have "wd_load 8 (data_at body d i) v = Some p"
    using p(1) changes_load [OF v(2) _ dj(1)] by (simp add: wd_load_def load_le_def)
  moreover have "wd_heap v p = None" using v(2) p(3) by (simp add: changes_def)
  ultimately have "decode_pointer_field (Suc n) sub E wt (iter_at a body d i) stream w = None"
    using p(2) len new pointer_string_decoder [OF t i new(1,3) st] by (simp add: string_on_bad_pointer)
  moreover have "decode_field (Suc n) sub E wt (iter_at a body d i) stream w =
      decode_pointer_field (Suc n) sub E wt (iter_at a body d i) stream w"
    using release new i by (simp add: decode_field_def field_of_at [OF t] dec_then_def pb_types Let_def)
  ultimately show ?thesis by simp
qed

text \<open>Between members that are pointers the block of the one before is freed, and the pointer is null for the other.\<close>

lemma union_pointer_released:
  assumes t: "table T a body" and i: "i < length body" and j: "j < length body" and d: "distinct (map fld_tag body)"
    and new: "PB_LTYPE (fld_type (body ! i)) \<noteq> PB_LTYPE_EXTENSION" "fld_tag (body ! i) \<noteq> fld_tag (body ! j)"
      "fld_tag (body ! j) \<noteq> 0"
    and old: "PB_HTYPE (fld_type (body ! j)) = PB_HTYPE_ONEOF" "PB_ATYPE (fld_type (body ! j)) = PB_ATYPE_POINTER"
      "PB_LTYPE (fld_type (body ! j)) = PB_LTYPE_STRING"
    and s: "size_at body d i = size_at body d j"
    and w: "wd_load 4 (size_at body d j) w = Some (fld_tag (body ! j) :: pb_size_t)"
    and p: "wd_load 8 (data_at body d j) w = Some (p :: addr)" "p \<noteq> 0" "wd_heap w p = Some k"
    and dj: "disjoint_blocks p k (data_at body d j) 8"
  shows "\<exists>v. pb_release_union_field (Suc n) T (iter_at a body d i) stream w = Some (stream, v, Some (iter_at a body d i)) \<and>
    wd_heap v = (wd_heap w)(p := None) \<and> wd_load 8 (data_at body d j) v = Some (0 :: addr)"
proof -
  let ?u = "w\<lparr>wd_mem := unmap_block p k (wd_mem w), wd_heap := (wd_heap w)(p := None)\<rparr>"
  have e: "PB_LTYPE (fld_type (body ! j)) \<noteq> PB_LTYPE_EXTENSION" using old(3) by (simp add: ltypes)
  have "load_bytes (wd_mem ?u) (data_at body d j) 8 = load_bytes (wd_mem w) (data_at body d j) 8"
    using dj by (intro load_bytes_cong) (auto simp: unmap_block_def disjoint_blocks_def in_block_def)
  then have "mapped (wd_mem ?u) (data_at body d j) (length (le_of_word 8 (0 :: addr)))"
    using p(1) unfolding length_le_of_word wd_load_def by (metis load_bytes_eq_None_iff load_le_None_iff option.distinct(1))
  from store_there [OF this] obtain v where v: "wd_store 8 (data_at body d j) (0 :: addr) ?u = Some v"
    "changes (data_at body d j) 8 ?u v" "load_bytes (wd_mem v) (data_at body d j) 8 = Some (le_of_word 8 (0 :: addr))"
    by (auto simp: wd_store_def)
  have "pb_release_single_field (Suc n) T (iter_at a body d j) w = Some v"
    using old w p v(1) j
    by (simp add: release_field_step_def release_contents_def release_pointer_def field_of_at [OF t] pb_free_def Let_def
        ltypes PB_HTYPE_ONEOF_def PB_HTYPE_REPEATED_def)
  then have "pb_release_union_field (Suc n) T (iter_at a body d i) stream w = Some (stream, v, Some (iter_at a body d i))"
    using w s i j new find_tag [OF t i j d e] find_tag [OF t j i d new(1)]
    by (simp add: pb_release_union_field_def field_of_at [OF t] Let_def del: pb_release_single_field.simps)
  moreover have "wd_load 8 (data_at body d j) v = Some (0 :: addr)" using v(3) by (simp add: wd_load_def load_le_def)
  ultimately show ?thesis using v(2) by (simp add: changes_def)
qed

subsection \<open>The oneof that is not released\<close>

text \<open>C36 (error): in a oneof whose value is at first a number and then a string held by pointer, the
  bytes of the number are given to \<open>realloc\<close> as the pointer: if they are not 0 and not the address of a live block,
  decoding the string is undefined behaviour, whatever the string.\<close>

theorem oneof_pointer_confused:
  assumes "table (de_tables E) a body" and "i < length body" and "j < length body" and "distinct (map fld_tag body)"
    and "PB_HTYPE (fld_type (body ! i)) = PB_HTYPE_ONEOF" "PB_ATYPE (fld_type (body ! i)) = PB_ATYPE_POINTER"
      "PB_LTYPE (fld_type (body ! i)) = PB_LTYPE_STRING"
    and "PB_HTYPE (fld_type (body ! j)) = PB_HTYPE_ONEOF" "PB_ATYPE (fld_type (body ! j)) = PB_ATYPE_STATIC"
      "PB_LTYPE (fld_type (body ! j)) \<le> PB_LTYPE_LAST_PACKABLE"
    and "size_at body d i = size_at body d j"
    and "wd_load 4 (size_at body d j) w = Some (fld_tag (body ! j) :: pb_size_t)"
    and "wd_load 8 (data_at body d i) w = Some (p :: addr)" "p \<noteq> 0" "wd_heap w p = None"
    and "disjoint_blocks (size_at body d j) 4 (data_at body d i) 8"
      "disjoint_blocks (size_at body d j) 4 (is_state stream) (length (counted bs))"
    and "at_bytes stream w (counted bs)" and "length bs + 1 < 2 ^ 32"
  shows "decode_field (Suc n) sub E wt (iter_at a body d i) stream w = None"
  using assms by (rule union_pointer_stuck)

text \<open>The tag of the oneof at 0, the value at 8: a number of 64 bits or the pointer to a string.\<close>

definition union_fields :: "pb_field_t list" where
  "union_fields = [array_field 1 0x32 8 0xFFFFFFF8 8 0 0, array_field 2 0xB7 0xFFFFFFFF 0xFFFFFFF8 1 0 0]"

definition union_env :: pb_decode_env where
  "union_env = hostile_env\<lparr>de_tables := (\<lambda>a. if a = 0x5000 then Some (union_fields @ [PB_LAST_FIELD]) else None)\<rparr>"

definition union_world :: "pb_world" where
  "union_world = \<lparr> wd_mem = bytes_at 0x3000 ([1, 0, 0, 0, 0, 0, 0, 0] @ replicate 8 0x41) ++ bytes_at 0x2000 [2, 0x68, 0x69],
     wd_heap = (\<lambda>p. None) \<rparr>"

lemma union_places:
  "data_at union_fields 0x3000 0 = 0x3008" "size_at union_fields 0x3000 0 = 0x3000" "data_at union_fields 0x3000 (Suc 0) = 0x3008"
  "size_at union_fields 0x3000 (Suc 0) = 0x3000"
  by code_simp+

lemma union_nth:
  "union_fields ! 0 = array_field 1 0x32 8 0xFFFFFFF8 8 0 0" "union_fields ! Suc 0 = array_field 2 0xB7 0xFFFFFFFF 0xFFFFFFF8 1 0 0"
  by (simp_all add: union_fields_def)

lemma union_kinds:
  "PB_HTYPE 0x32 = PB_HTYPE_ONEOF" "PB_ATYPE 0x32 = PB_ATYPE_STATIC" "PB_LTYPE 0x32 \<le> PB_LTYPE_LAST_PACKABLE"
  "PB_HTYPE 0xB7 = PB_HTYPE_ONEOF" "PB_ATYPE 0xB7 = PB_ATYPE_POINTER" "PB_LTYPE 0xB7 = PB_LTYPE_STRING"
  by code_simp+

lemma union_memory:
  "wd_load 4 0x3000 union_world = Some (1 :: pb_size_t)" "wd_load 8 0x3008 union_world = Some (0x4141414141414141 :: addr)"
  "load_bytes (wd_mem union_world) 0x2000 3 = Some [2, 0x68, 0x69]" "counted [0x68, 0x69] = [2, 0x68, 0x69]"
  by code_simp+

theorem oneof_pointer_confused_witness:
  "decode_field 1 (pb_decoders 0 union_env) union_env 2 (iter_at 0x5000 union_fields 0x3000 1)
     (pb_istream_from_buffer 0x2000 3) union_world = None"
proof -
  have t: "table (de_tables union_env) 0x5000 union_fields"
    by (simp add: table_def union_env_def union_fields_def)
  have l: "length union_fields = 2" "map fld_tag union_fields = [1, 2]" by (simp_all add: union_fields_def)
  have at: "at_bytes (pb_istream_from_buffer 0x2000 3) union_world (counted [0x68, 0x69])"
    using union_memory(3) [unfolded numeral_3_eq_3]
    by (simp add: at_bytes_def union_memory(4) pb_istream_from_buffer_def del: load_bytes.simps)
  have dj: "disjoint_blocks 0x3000 4 0x3008 8" "disjoint_blocks 0x3000 4 0x2000 (Suc (Suc (Suc 0)))" by (rule blocks_apart; simp)+
  show ?thesis
    using oneof_pointer_confused [where E = union_env and i = 1 and j = 0 and d = "0x3000" and w = union_world and n = 0 and
        p = "0x4141414141414141" and stream = "pb_istream_from_buffer 0x2000 3" and bs = "[0x68, 0x69]" and
        sub = "pb_decoders 0 union_env" and wt = 2, OF t] l at dj
    by (simp add: union_nth union_places union_kinds union_memory union_world_def [THEN arg_cong [of _ _ wd_heap]]
        pb_istream_from_buffer_def del: size_at.simps data_at.simps)
qed

end
