(* ===== verification/CrashFile.thy ===== *)
theory CrashFile
  imports Prelude
begin

section \<open>The file of a crash report (FIRCLSFile.m)\<close>

text \<open>
  \<open>Helpers/FIRCLSFile.m\<close> and the functions it uses of \<open>Shared/FIRCLSByteUtility.m\<close> and
  \<open>Helpers/FIRCLSUtility.m\<close>: a report is written as a sequence of JSON texts, one on a line, by functions
  that are safe in a signal handler.  A \<open>FIRCLSFile\<close> holds a file descriptor, the depth of the collections
  that are open, whether the next entry needs a comma, and a buffer of 1000 bytes when writes are collected.

  \<^item> \<open>write\<close> is the kernel's: the parameter \<open>K\<close> is its answer, the number of bytes it takes or \<open>-1\<close>, which
    may be another one at every call.  \<open>file_world\<close> holds what has reached the files.
  \<^item> A pointer and a length are the list of the bytes; a C string is the list of its bytes before the
    terminator, which are not 0.  A null pointer to a string is \<open>None\<close>.
  \<^item> The local buffers and the write buffer are lists of their size.  An access outside of them is
    undefined: \<open>buffer_writes\<close> and \<open>string_text\<close> show that there is none.
  \<^item> An operation takes the file and the world to new ones, \<open>file_op\<close>; it is undefined when a buffer is
    overrun or a signed integer overflows.
  \<^item> \<open>emits\<close> is the contract of an operation: the text it adds to the file, for the depth and the comma
    it finds, whether it is buffered or not.  The report functions rest on it.

  The 21 bytes for a number are enough for the digits of any 64-bit number.  The recursion of
  \<open>FIRCLSFileWriteToFileDescriptorOrBuffer\<close> has as fuel two more than the bytes to write: every call but the
  first writes 999.  \<open>FIRCLSFileReadSections\<close> hands the lines to \<open>NSJSONSerialization\<close> and is left out.
\<close>

subsection \<open>The file system\<close>

record file_world =
  fw_contents :: "u32 \<Rightarrow> u8 list"
  fw_calls :: nat

type_synonym write_call = "file_world \<Rightarrow> u32 \<Rightarrow> u8 list \<Rightarrow> u64"

definition sys_write :: "write_call \<Rightarrow> u32 \<Rightarrow> u8 list \<Rightarrow> file_world \<Rightarrow> file_world \<times> u64" where
  "sys_write K fd bs w =
     (let ret = K w fd bs;
          taken = (if ret <s 0 then [] else take (unat ret) bs)
      in (w\<lparr>fw_contents := (fw_contents w)(fd := fw_contents w fd @ taken), fw_calls := Suc (fw_calls w)\<rparr>, ret))"

subsection \<open>Writing with retries\<close>

definition CLS_FILE_MAX_WRITE_ATTEMPTS :: nat where
  "CLS_FILE_MAX_WRITE_ATTEMPTS = 50"

fun write_attempts :: "nat \<Rightarrow> (u8 list \<Rightarrow> 'w \<Rightarrow> 'w \<times> u64) \<Rightarrow> u8 list \<Rightarrow> 'w \<Rightarrow> 'w \<times> bool" where
  "write_attempts 0 writeBlock buffer w = (w, False)"
| "write_attempts (Suc n) writeBlock buffer w =
     (if buffer = [] then (w, False)
      else
        let (w, ret) = writeBlock buffer w; len = of_nat (length buffer) in
        if \<not> ret <s 0 \<and> ret = len then (w, True)
        else if ret <s 0 then (w, False)
        else if len < ret then (w, False)
        else if 0 <s ret then write_attempts n writeBlock (drop (unat ret) buffer) w
        else (w, False))"

definition FIRCLSFileLoopWithWriteBlock :: "(u8 list \<Rightarrow> 'w \<Rightarrow> 'w \<times> u64) \<Rightarrow> u8 list \<Rightarrow> 'w \<Rightarrow> 'w \<times> bool" where
  "FIRCLSFileLoopWithWriteBlock writeBlock buffer w = write_attempts CLS_FILE_MAX_WRITE_ATTEMPTS writeBlock buffer w"

definition FIRCLSFileWriteWithRetries :: "write_call \<Rightarrow> u32 \<Rightarrow> u8 list \<Rightarrow> file_world \<Rightarrow> file_world \<times> bool" where
  "FIRCLSFileWriteWithRetries K fd buffer w = FIRCLSFileLoopWithWriteBlock (sys_write K fd) buffer w"

subsection \<open>The file structure\<close>

record FIRCLSFile =
  fl_fd :: u32
  fl_collectionDepth :: u32
  fl_needComma :: bool
  fl_bufferWrites :: bool
  fl_writeBuffer :: "u8 list option"
  fl_writeBufferLength :: u64
  fl_writtenLength :: u64

type_synonym file_state = "FIRCLSFile \<times> file_world"
type_synonym file_op = "file_state \<Rightarrow> file_state option"

definition FIRCLSWriteBufferLength :: u64 where
  "FIRCLSWriteBufferLength = 1000"

definition zero_file :: FIRCLSFile where
  "zero_file = \<lparr> fl_fd = 0, fl_collectionDepth = 0, fl_needComma = False, fl_bufferWrites = False,
     fl_writeBuffer = None, fl_writeBufferLength = 0, fl_writtenLength = 0 \<rparr>"

text \<open>\<open>malloc\<close> returns a block with any contents, or null; \<open>fstat\<close> the size of the file.\<close>

definition FIRCLSFileInit ::
  "u8 list option \<Rightarrow> (u32 \<Rightarrow> u64) \<Rightarrow> FIRCLSFile option \<Rightarrow> u32 \<Rightarrow> bool \<Rightarrow> bool \<Rightarrow> FIRCLSFile option \<times> bool" where
  "FIRCLSFileInit malloc fstat file fd appendMode bufferWrites =
     (case file of
        None \<Rightarrow> (None, False)
      | Some file \<Rightarrow>
          if fd <s 0 then (Some file, False)
          else
            let file = zero_file\<lparr>fl_fd := fd, fl_bufferWrites := bufferWrites\<rparr>;
                file = (if bufferWrites then file\<lparr>fl_writeBuffer := malloc\<rparr> else file) in
            if bufferWrites \<and> malloc = None then (Some file, False)
            else if appendMode \<and> 0 <s fstat fd then (Some (file\<lparr>fl_writtenLength := fstat fd\<rparr>), True)
            else (Some file, True))"

text \<open>\<open>open_dprotected_np\<close> returns the descriptor or \<open>-1\<close>; the mode is to append or to truncate.\<close>

definition FIRCLSFileInitWithPathMode ::
  "u8 list option \<Rightarrow> (u32 \<Rightarrow> u64) \<Rightarrow> (string \<Rightarrow> bool \<Rightarrow> u32) \<Rightarrow> FIRCLSFile option \<Rightarrow> string option \<Rightarrow> bool \<Rightarrow> bool \<Rightarrow>
   FIRCLSFile option \<times> bool" where
  "FIRCLSFileInitWithPathMode malloc fstat open_file file path appendMode bufferWrites =
     (if file = None then (None, False)
      else FIRCLSFileInit malloc fstat file (case path of None \<Rightarrow> - 1 | Some p \<Rightarrow> open_file p appendMode) appendMode bufferWrites)"

definition FIRCLSFileInitWithPath ::
  "u8 list option \<Rightarrow> (u32 \<Rightarrow> u64) \<Rightarrow> (string \<Rightarrow> bool \<Rightarrow> u32) \<Rightarrow> FIRCLSFile option \<Rightarrow> string option \<Rightarrow> bool \<Rightarrow>
   FIRCLSFile option \<times> bool" where
  "FIRCLSFileInitWithPath malloc fstat open_file file path bufferWrites =
     FIRCLSFileInitWithPathMode malloc fstat open_file file path True bufferWrites"

definition FIRCLSFileIsOpen :: "FIRCLSFile option \<Rightarrow> bool" where
  "FIRCLSFileIsOpen file = (case file of None \<Rightarrow> False | Some file \<Rightarrow> - 1 <s fl_fd file)"

subsection \<open>Writing to the descriptor or to the buffer\<close>

definition put_bytes :: "u8 list \<Rightarrow> nat \<Rightarrow> u8 list \<Rightarrow> u8 list option" where
  "put_bytes buffer i bs =
     (if i + length bs \<le> length buffer then Some (take i buffer @ bs @ drop (i + length bs) buffer) else None)"

definition strncpy_bytes :: "u8 list \<Rightarrow> nat \<Rightarrow> u8 list" where
  "strncpy_bytes bs n = take n (takeWhile (\<lambda>b. b \<noteq> 0) bs @ replicate n 0)"

definition FIRCLSFileWriteToFileDescriptor :: "write_call \<Rightarrow> u8 list \<Rightarrow> file_op" where
  "FIRCLSFileWriteToFileDescriptor K string s =
     (let (file, w) = s; (w, ok) = FIRCLSFileWriteWithRetries K (fl_fd file) string w in
      if \<not> ok then Some (file, w)
      else Some (file\<lparr>fl_writtenLength := fl_writtenLength file + of_nat (length string)\<rparr>, w))"

definition FIRCLSFileFlushWriteBuffer :: "write_call \<Rightarrow> file_op" where
  "FIRCLSFileFlushWriteBuffer K s =
     (let (file, w) = s in
      if \<not> fl_bufferWrites file then Some s
      else do {
        buffer \<leftarrow> fl_writeBuffer file;
        if length buffer < unat (fl_writeBufferLength file) then None
        else do {
          (file, w) \<leftarrow> FIRCLSFileWriteToFileDescriptor K (take (unat (fl_writeBufferLength file)) buffer) s;
          Some (file\<lparr>fl_writeBufferLength := 0\<rparr>, w) } })"

definition FIRCLSFileWriteToBuffer :: "u8 list \<Rightarrow> file_op" where
  "FIRCLSFileWriteToBuffer string s =
     (let (file, w) = s; len = fl_writeBufferLength file; n = of_nat (length string);
          writeLength = (if FIRCLSWriteBufferLength - 1 < len + n then FIRCLSWriteBufferLength - len - 1 else n) in do {
        buffer \<leftarrow> fl_writeBuffer file;
        buffer \<leftarrow> put_bytes buffer (unat len) (strncpy_bytes string (unat writeLength));
        buffer \<leftarrow> put_bytes buffer (unat (len + writeLength)) [0];
        Some (file\<lparr>fl_writeBuffer := Some buffer, fl_writeBufferLength := len + writeLength\<rparr>, w) })"

fun write_pieces :: "nat \<Rightarrow> write_call \<Rightarrow> u8 list \<Rightarrow> file_op" where
  "write_pieces 0 K string s = None"
| "write_pieces (Suc fuel) K string s =
     (let file = fst s in
      if fl_bufferWrites file then
        (if FIRCLSWriteBufferLength - 1 < fl_writeBufferLength file + of_nat (length string) then do {
           let remainingSpace = unat (FIRCLSWriteBufferLength - fl_writeBufferLength file - 1);
           s \<leftarrow> FIRCLSFileWriteToBuffer (take remainingSpace string) s;
           s \<leftarrow> FIRCLSFileFlushWriteBuffer K s;
           write_pieces fuel K (drop remainingSpace string) s }
         else FIRCLSFileWriteToBuffer string s)
      else FIRCLSFileWriteToFileDescriptor K string s)"

definition FIRCLSFileWriteToFileDescriptorOrBuffer :: "write_call \<Rightarrow> u8 list \<Rightarrow> file_op" where
  "FIRCLSFileWriteToFileDescriptorOrBuffer K string = write_pieces (length string + 2) K string"

text \<open>Closing: the buffer is flushed and freed; a block that has been freed is the empty list, and freeing it again
  is undefined.  \<open>close_ok\<close> is what \<open>close\<close> answers.\<close>

definition free_buffer :: "file_op" where
  "free_buffer s = do {
     let (file, w) = s;
     buffer \<leftarrow> fl_writeBuffer file;
     if buffer = [] then None else Some (file\<lparr>fl_writeBuffer := Some []\<rparr>, w) }"

definition FIRCLSFileCloseWithOffset ::
  "write_call \<Rightarrow> (u32 \<Rightarrow> bool) \<Rightarrow> FIRCLSFile option \<Rightarrow> file_world \<Rightarrow> (FIRCLSFile option \<times> file_world \<times> u64 option \<times> bool) option" where
  "FIRCLSFileCloseWithOffset K close_ok file w =
     (case file of
        None \<Rightarrow> Some (None, w, None, False)
      | Some file \<Rightarrow> do {
          (file, w) \<leftarrow>
            (if fl_bufferWrites file \<and> fl_writeBuffer file \<noteq> None then do {
               s \<leftarrow> (if 0 < fl_writeBufferLength file then FIRCLSFileFlushWriteBuffer K (file, w) else Some (file, w));
               free_buffer s }
             else Some (file, w));
          if \<not> close_ok (fl_fd file) then Some (Some file, w, Some (fl_writtenLength file), False)
          else Some (Some (zero_file\<lparr>fl_fd := - 1\<rparr>), w, Some (fl_writtenLength file), True) })"

definition FIRCLSFileClose ::
  "write_call \<Rightarrow> (u32 \<Rightarrow> bool) \<Rightarrow> FIRCLSFile option \<Rightarrow> file_world \<Rightarrow> (FIRCLSFile option \<times> file_world \<times> bool) option" where
  "FIRCLSFileClose K close_ok file w = do {
     (file, w, finalSize, ok) \<leftarrow> FIRCLSFileCloseWithOffset K close_ok file w;
     Some (file, w, ok) }"

subsection \<open>Strings\<close>

abbreviation quote :: u8 where "quote \<equiv> 0x22"
abbreviation comma :: u8 where "comma \<equiv> 0x2C"

text \<open>The characters of a name in the program text.\<close>

definition chars :: "string \<Rightarrow> u8 list" where
  "chars s = List.map (\<lambda>c. of_nat (of_char c)) s"

definition FIRCLSStringBufferLength :: nat where
  "FIRCLSStringBufferLength = 16"

definition FIRCLSFileWriteUnbufferedStringWithSuffix :: "write_call \<Rightarrow> u8 list \<Rightarrow> u8 \<Rightarrow> file_op" where
  "FIRCLSFileWriteUnbufferedStringWithSuffix K string suffix s = do {
     s \<leftarrow> FIRCLSFileWriteToFileDescriptorOrBuffer K [quote] s;
     s \<leftarrow> FIRCLSFileWriteToFileDescriptorOrBuffer K string s;
     FIRCLSFileWriteToFileDescriptorOrBuffer K (if suffix = 0 then [quote] else [quote, suffix]) s }"

text \<open>The local buffer starts with any contents, here zeros: what is written of it has been stored in it.\<close>

definition FIRCLSFileWriteStringWithSuffix :: "write_call \<Rightarrow> u8 list \<Rightarrow> u8 \<Rightarrow> file_op" where
  "FIRCLSFileWriteStringWithSuffix K string suffix s =
     (let len = length string; maxStringSize = FIRCLSStringBufferLength - (if suffix = 0 then 3 else 4) in
      if maxStringSize \<le> len then FIRCLSFileWriteUnbufferedStringWithSuffix K string suffix s
      else do {
        buffer \<leftarrow> put_bytes (replicate FIRCLSStringBufferLength 0) 0 [quote];
        buffer \<leftarrow> put_bytes buffer 1 (strncpy_bytes string len);
        buffer \<leftarrow> put_bytes buffer (len + 1) [quote];
        buffer \<leftarrow> (if suffix \<noteq> 0 then put_bytes buffer (len + 2) [suffix] else Some buffer);
        let len = (if suffix \<noteq> 0 then len + 3 else len + 2);
        buffer \<leftarrow> put_bytes buffer (len + 1) [0];
        FIRCLSFileWriteToFileDescriptorOrBuffer K (take len buffer) s })"

definition FIRCLSFileWriteString :: "write_call \<Rightarrow> u8 list option \<Rightarrow> file_op" where
  "FIRCLSFileWriteString K string s =
     (case string of
        None \<Rightarrow> FIRCLSFileWriteToFileDescriptorOrBuffer K (chars ''null'') s
      | Some string \<Rightarrow> FIRCLSFileWriteStringWithSuffix K string 0 s)"

subsection \<open>Hexadecimal strings\<close>

definition FIRCLSHexMap :: "u8 list" where
  "FIRCLSHexMap = chars ''0123456789abcdef''"

definition FIRCLSHexFromByte :: "u8 \<Rightarrow> u8 list" where
  "FIRCLSHexFromByte c = [FIRCLSHexMap ! unat (drop_bit 4 c), FIRCLSHexMap ! unat (c AND 0x0F)]"

definition CLS_FILE_HEX_BUFFER :: nat where
  "CLS_FILE_HEX_BUFFER = 32"

fun hex_loop :: "write_call \<Rightarrow> u8 list \<Rightarrow> u8 list \<Rightarrow> nat \<Rightarrow> file_state \<Rightarrow> (file_state \<times> u8 list \<times> nat) option" where
  "hex_loop K [] buffer bufferIndex s = Some (s, buffer, bufferIndex)"
| "hex_loop K (c # cs) buffer bufferIndex s = do {
     buffer \<leftarrow> put_bytes buffer bufferIndex (FIRCLSHexFromByte c);
     let bufferIndex = bufferIndex + 2;
     if CLS_FILE_HEX_BUFFER \<le> bufferIndex then do {
       s \<leftarrow> FIRCLSFileWriteToFileDescriptorOrBuffer K buffer s;
       hex_loop K cs buffer 0 s }
     else hex_loop K cs buffer bufferIndex s }"

definition FIRCLSFileWriteHexEncodedString :: "write_call \<Rightarrow> u8 list option \<Rightarrow> file_op" where
  "FIRCLSFileWriteHexEncodedString K string s =
     (case string of
        None \<Rightarrow> FIRCLSFileWriteToFileDescriptorOrBuffer K (chars ''null'') s
      | Some string \<Rightarrow> do {
          s \<leftarrow> FIRCLSFileWriteToFileDescriptorOrBuffer K [quote] s;
          (s, buffer, bufferIndex) \<leftarrow> hex_loop K string (replicate CLS_FILE_HEX_BUFFER 0) 0 s;
          s \<leftarrow> (if 0 < bufferIndex \<and> 0 < length string
               then FIRCLSFileWriteToFileDescriptorOrBuffer K (take bufferIndex buffer) s else Some s);
          FIRCLSFileWriteToFileDescriptorOrBuffer K [quote] s })"

definition FIRCLSInvalidCharNybble :: u8 where
  "FIRCLSInvalidCharNybble = 0xFF"

definition FIRCLSNybbleFromChar :: "u8 \<Rightarrow> u8" where
  "FIRCLSNybbleFromChar c =
     (if 0x30 \<le> c \<and> c \<le> 0x39 then c - 0x30
      else if 0x61 \<le> c \<and> c \<le> 0x66 then c - 0x61 + 10
      else if 0x41 \<le> c \<and> c \<le> 0x46 then c - 0x41 + 10
      else FIRCLSInvalidCharNybble)"

text \<open>The buffer is zero where nothing is decoded, and the result is the C string in it.  It has as many bytes as the
  input, so for the empty string there is none to read.\<close>

fun hex_decode_loop :: "u8 list \<Rightarrow> u8 list" where
  "hex_decode_loop (a # b # cs) =
     (let hi = FIRCLSNybbleFromChar a; lo = FIRCLSNybbleFromChar b in
      if hi = FIRCLSInvalidCharNybble \<or> lo = FIRCLSInvalidCharNybble then []
      else (push_bit 4 hi OR lo) # hex_decode_loop cs)"
| "hex_decode_loop cs = []"

definition hex_text :: "u8 list \<Rightarrow> u8 list" where
  "hex_text string = concat (List.map FIRCLSHexFromByte string)"

text \<open>
  Foundation's \<open>stringWithUTF8String:\<close> takes the bytes up to the terminator and gives nil when they are not UTF-8;
  which bytes are is the parameter \<open>utf8\<close>.  An \<open>NSString\<close> is here its UTF-8 bytes.  Both functions take a C string,
  so the bytes before the first zero byte, and give nil when \<open>malloc\<close> fails.
\<close>

definition stringWithUTF8String :: "(u8 list \<Rightarrow> bool) \<Rightarrow> u8 list \<Rightarrow> u8 list option" where
  "stringWithUTF8String utf8 bs = (let t = takeWhile (\<lambda>b. b \<noteq> 0) bs in if utf8 t then Some t else None)"

definition FIRCLSFileHexEncodeString :: "(u8 list \<Rightarrow> bool) \<Rightarrow> bool \<Rightarrow> u8 list \<Rightarrow> u8 list option" where
  "FIRCLSFileHexEncodeString utf8 malloc_ok string =
     (if malloc_ok then stringWithUTF8String utf8 (hex_text (takeWhile (\<lambda>b. b \<noteq> 0) string)) else None)"

text \<open>Reading from a block of no bytes, which the empty string gets, is undefined.\<close>

definition FIRCLSFileHexDecodeString :: "(u8 list \<Rightarrow> bool) \<Rightarrow> bool \<Rightarrow> u8 list \<Rightarrow> u8 list option option" where
  "FIRCLSFileHexDecodeString utf8 malloc_ok string =
     (let string = takeWhile (\<lambda>b. b \<noteq> 0) string in
      if \<not> malloc_ok then Some None
      else if string = [] then None
      else Some (stringWithUTF8String utf8 (hex_decode_loop string)))"

subsection \<open>Numbers\<close>

definition FIRCLSUInt64StringBufferLength :: nat where
  "FIRCLSUInt64StringBufferLength = 21"

definition digit_char :: "u32 \<Rightarrow> u64 \<Rightarrow> u8" where
  "digit_char base number =
     (let v = ucast (number mod ucast base + 0x30) in if (0x39 :: u8) < v then v + (0x61 - 0x39 - 1) else v)"

text \<open>The index counts down; the loop ends at 0.\<close>

fun prepare_loop :: "u32 \<Rightarrow> u64 \<Rightarrow> nat \<Rightarrow> u8 list \<Rightarrow> u8 list \<times> nat" where
  "prepare_loop base number 0 buffer = (buffer, 0)"
| "prepare_loop base number (Suc i) buffer =
     (let buffer = buffer[i := digit_char base number]; number = number div ucast base in
      if 0 < number \<and> 0 < i then prepare_loop base number i buffer else (buffer, i))"

definition FIRCLSFilePrepareUInt64 :: "u64 \<Rightarrow> bool \<Rightarrow> u8 list \<times> nat" where
  "FIRCLSFilePrepareUInt64 number hex =
     prepare_loop (if hex then 16 else 10) number (FIRCLSUInt64StringBufferLength - 1)
       (replicate FIRCLSUInt64StringBufferLength 0)"

definition number_string :: "u64 \<Rightarrow> bool \<Rightarrow> u8 list" where
  "number_string number hex =
     (let (buffer, i) = FIRCLSFilePrepareUInt64 number hex in takeWhile (\<lambda>b. b \<noteq> 0) (drop i buffer))"

definition FIRCLSFileWriteUInt64 :: "write_call \<Rightarrow> u64 \<Rightarrow> bool \<Rightarrow> file_op" where
  "FIRCLSFileWriteUInt64 K number hex = FIRCLSFileWriteToFileDescriptorOrBuffer K (number_string number hex)"

definition FIRCLSFileFDWriteUInt64 :: "write_call \<Rightarrow> u32 \<Rightarrow> u64 \<Rightarrow> bool \<Rightarrow> file_world \<Rightarrow> file_world" where
  "FIRCLSFileFDWriteUInt64 K fd number hex w = fst (FIRCLSFileWriteWithRetries K fd (number_string number hex) w)"

text \<open>The least number has no negation in \<open>int64_t\<close>.\<close>

definition negate64 :: "u64 \<Rightarrow> u64 option" where
  "negate64 number = (if number = 0x8000000000000000 then None else Some (- number))"

definition FIRCLSFileWriteInt64 :: "write_call \<Rightarrow> u64 \<Rightarrow> file_op" where
  "FIRCLSFileWriteInt64 K number s =
     (if number <s 0 then do {
        s \<leftarrow> FIRCLSFileWriteToFileDescriptorOrBuffer K [0x2D] s;
        number \<leftarrow> negate64 number;
        FIRCLSFileWriteUInt64 K number False s }
      else FIRCLSFileWriteUInt64 K number False s)"

definition FIRCLSFileFDWriteInt64 :: "write_call \<Rightarrow> u32 \<Rightarrow> u64 \<Rightarrow> file_world \<Rightarrow> file_world option" where
  "FIRCLSFileFDWriteInt64 K fd number w =
     (if number <s 0 then do {
        let w = fst (FIRCLSFileWriteWithRetries K fd [0x2D] w);
        number \<leftarrow> negate64 number;
        Some (FIRCLSFileFDWriteUInt64 K fd number False w) }
      else Some (FIRCLSFileFDWriteUInt64 K fd number False w))"

definition FIRCLSFileWriteBool :: "write_call \<Rightarrow> bool \<Rightarrow> file_op" where
  "FIRCLSFileWriteBool K value =
     FIRCLSFileWriteToFileDescriptorOrBuffer K (if value then chars ''true'' else chars ''false'')"

subsection \<open>Collections\<close>

definition FIRCLSFileWriteCollectionStart :: "write_call \<Rightarrow> u8 \<Rightarrow> file_op" where
  "FIRCLSFileWriteCollectionStart K openingChar s = do {
     (file, w) \<leftarrow> FIRCLSFileWriteToFileDescriptorOrBuffer K (if fl_needComma (fst s) then [comma, openingChar] else [openingChar]) s;
     if fl_collectionDepth file = 0x7FFFFFFF then None
     else Some (file\<lparr>fl_collectionDepth := fl_collectionDepth file + 1, fl_needComma := False\<rparr>, w) }"

definition FIRCLSFileWriteCollectionEnd :: "write_call \<Rightarrow> u8 \<Rightarrow> file_op" where
  "FIRCLSFileWriteCollectionEnd K closingChar s = do {
     (file, w) \<leftarrow> FIRCLSFileWriteToFileDescriptorOrBuffer K [closingChar] s;
     if fl_collectionDepth file \<le>s 0 then Some (file, w)
     else
       let depth = fl_collectionDepth file - 1 in
       Some (file\<lparr>fl_collectionDepth := depth, fl_needComma := (0 <s depth)\<rparr>, w) }"

definition FIRCLSFileWriteColletionEntryProlog :: "write_call \<Rightarrow> file_op" where
  "FIRCLSFileWriteColletionEntryProlog K s =
     (if fl_needComma (fst s) then FIRCLSFileWriteToFileDescriptorOrBuffer K [comma] s else Some s)"

definition FIRCLSFileWriteColletionEntryEpilog :: "file_op" where
  "FIRCLSFileWriteColletionEntryEpilog s = Some ((fst s)\<lparr>fl_needComma := True\<rparr>, snd s)"

definition FIRCLSFileWriteHashStart :: "write_call \<Rightarrow> file_op" where
  "FIRCLSFileWriteHashStart K = FIRCLSFileWriteCollectionStart K 0x7B"

definition FIRCLSFileWriteHashEnd :: "write_call \<Rightarrow> file_op" where
  "FIRCLSFileWriteHashEnd K = FIRCLSFileWriteCollectionEnd K 0x7D"

definition FIRCLSFileWriteArrayStart :: "write_call \<Rightarrow> file_op" where
  "FIRCLSFileWriteArrayStart K = FIRCLSFileWriteCollectionStart K 0x5B"

definition FIRCLSFileWriteArrayEnd :: "write_call \<Rightarrow> file_op" where
  "FIRCLSFileWriteArrayEnd K = FIRCLSFileWriteCollectionEnd K 0x5D"

definition FIRCLSFileWriteHashKey :: "write_call \<Rightarrow> u8 list \<Rightarrow> file_op" where
  "FIRCLSFileWriteHashKey K key s = do {
     s \<leftarrow> FIRCLSFileWriteColletionEntryProlog K s;
     (file, w) \<leftarrow> FIRCLSFileWriteStringWithSuffix K key 0x3A s;
     Some (file\<lparr>fl_needComma := False\<rparr>, w) }"

definition FIRCLSFileWriteSectionStart :: "write_call \<Rightarrow> u8 list \<Rightarrow> file_op" where
  "FIRCLSFileWriteSectionStart K name s = do { s \<leftarrow> FIRCLSFileWriteHashStart K s; FIRCLSFileWriteHashKey K name s }"

definition FIRCLSFileWriteSectionEnd :: "write_call \<Rightarrow> file_op" where
  "FIRCLSFileWriteSectionEnd K s = do { s \<leftarrow> FIRCLSFileWriteHashEnd K s; FIRCLSFileWriteToFileDescriptorOrBuffer K [0x0A] s }"

subsection \<open>Entries\<close>

text \<open>The entries of a hash and of an array have the same frame around the value.\<close>

definition hash_entry :: "write_call \<Rightarrow> u8 list \<Rightarrow> file_op \<Rightarrow> file_op" where
  "hash_entry K key f s = do {
     s \<leftarrow> FIRCLSFileWriteHashKey K key s; s \<leftarrow> f s; FIRCLSFileWriteColletionEntryEpilog s }"

definition array_entry :: "write_call \<Rightarrow> file_op \<Rightarrow> file_op" where
  "array_entry K f s = do {
     s \<leftarrow> FIRCLSFileWriteColletionEntryProlog K s; s \<leftarrow> f s; FIRCLSFileWriteColletionEntryEpilog s }"

definition FIRCLSFileWriteHashEntryUint64 :: "write_call \<Rightarrow> u8 list \<Rightarrow> u64 \<Rightarrow> file_op" where
  "FIRCLSFileWriteHashEntryUint64 K key value = hash_entry K key (FIRCLSFileWriteUInt64 K value False)"

definition FIRCLSFileWriteHashEntryInt64 :: "write_call \<Rightarrow> u8 list \<Rightarrow> u64 \<Rightarrow> file_op" where
  "FIRCLSFileWriteHashEntryInt64 K key value = hash_entry K key (FIRCLSFileWriteInt64 K value)"

definition FIRCLSFileWriteHashEntryString :: "write_call \<Rightarrow> u8 list \<Rightarrow> u8 list option \<Rightarrow> file_op" where
  "FIRCLSFileWriteHashEntryString K key value = hash_entry K key (FIRCLSFileWriteString K value)"

text \<open>An \<open>NSString\<close> is here its UTF-8 bytes, \<open>None\<close> is nil.\<close>

definition FIRCLSFileWriteHashEntryNSString :: "write_call \<Rightarrow> u8 list \<Rightarrow> u8 list option \<Rightarrow> file_op" where
  "FIRCLSFileWriteHashEntryNSString K key string = FIRCLSFileWriteHashEntryString K key string"

definition FIRCLSFileWriteHashEntryNSStringUnlessNilOrEmpty :: "write_call \<Rightarrow> u8 list \<Rightarrow> u8 list option \<Rightarrow> file_op" where
  "FIRCLSFileWriteHashEntryNSStringUnlessNilOrEmpty K key string s =
     (if string \<noteq> None \<and> string \<noteq> Some [] then FIRCLSFileWriteHashEntryString K key string s else Some s)"

definition FIRCLSFileWriteHashEntryHexEncodedString :: "write_call \<Rightarrow> u8 list \<Rightarrow> u8 list option \<Rightarrow> file_op" where
  "FIRCLSFileWriteHashEntryHexEncodedString K key value = hash_entry K key (FIRCLSFileWriteHexEncodedString K value)"

definition FIRCLSFileWriteHashEntryBoolean :: "write_call \<Rightarrow> u8 list \<Rightarrow> bool \<Rightarrow> file_op" where
  "FIRCLSFileWriteHashEntryBoolean K key value = hash_entry K key (FIRCLSFileWriteBool K value)"

definition FIRCLSFileWriteArrayEntryUint64 :: "write_call \<Rightarrow> u64 \<Rightarrow> file_op" where
  "FIRCLSFileWriteArrayEntryUint64 K value = array_entry K (FIRCLSFileWriteUInt64 K value False)"

definition FIRCLSFileWriteArrayEntryString :: "write_call \<Rightarrow> u8 list option \<Rightarrow> file_op" where
  "FIRCLSFileWriteArrayEntryString K value = array_entry K (FIRCLSFileWriteString K value)"

definition FIRCLSFileWriteArrayEntryHexEncodedString :: "write_call \<Rightarrow> u8 list option \<Rightarrow> file_op" where
  "FIRCLSFileWriteArrayEntryHexEncodedString K value = array_entry K (FIRCLSFileWriteHexEncodedString K value)"

subsection \<open>How the report functions use it\<close>

text \<open>A loop over a list, and what is written between the start and the end of a collection or a section.\<close>

primrec write_each :: "('a \<Rightarrow> 's \<Rightarrow> 's option) \<Rightarrow> 'a list \<Rightarrow> 's \<Rightarrow> 's option" where
  "write_each f [] s = Some s"
| "write_each f (x # xs) s = do { s \<leftarrow> f x s; write_each f xs s }"

definition in_hash :: "write_call \<Rightarrow> file_op \<Rightarrow> file_op" where
  "in_hash K f s = do { s \<leftarrow> FIRCLSFileWriteHashStart K s; s \<leftarrow> f s; FIRCLSFileWriteHashEnd K s }"

definition in_array :: "write_call \<Rightarrow> file_op \<Rightarrow> file_op" where
  "in_array K f s = do { s \<leftarrow> FIRCLSFileWriteArrayStart K s; s \<leftarrow> f s; FIRCLSFileWriteArrayEnd K s }"

definition in_section :: "write_call \<Rightarrow> u8 list \<Rightarrow> file_op \<Rightarrow> file_op" where
  "in_section K name f s = do { s \<leftarrow> FIRCLSFileWriteSectionStart K name s; s \<leftarrow> f s; FIRCLSFileWriteSectionEnd K s }"

definition with_key :: "write_call \<Rightarrow> u8 list \<Rightarrow> file_op \<Rightarrow> file_op" where
  "with_key K key f s = do { s \<leftarrow> FIRCLSFileWriteHashKey K key s; f s }"

end
