(* ===== verification/CrashEmit.thy ===== *)
theory CrashEmit
  imports CrashFile
begin

section \<open>What the operations on a report write\<close>

text \<open>
  The contract of the operations of \<open>CrashFile\<close>: \<open>emits K f x bs y\<close> says that \<open>f\<close> is defined and adds the bytes
  \<open>bs\<close> to the text of the file, from the depth and comma flag \<open>x\<close> to \<open>y\<close>.  The text of a file is what has
  reached the descriptor and what is pending in the buffer.  It is stated for a kernel on which a write succeeds once it is
  retried, \<open>reliable\<close>: a single call may take a part of what it is given.  What happens with any other kernel is
  \<open>attempts_write\<close>.

  The locale \<open>report_sink\<close> is what the operations rely on: bytes that are put one after the other are a text,
  whatever the pieces.
\<close>

subsection \<open>Retries\<close>

text \<open>A kernel writes no more than it is given.\<close>

definition honest :: "write_call \<Rightarrow> bool" where
  "honest K \<longleftrightarrow> (\<forall>w fd bs. length bs < 2 ^ 63 \<longrightarrow> K w fd bs <s 0 \<or> unat (K w fd bs) \<le> length bs)"

text \<open>In the end the retries bring every piece to the file.\<close>

definition reliable :: "write_call \<Rightarrow> bool" where
  "reliable K \<longleftrightarrow> honest K \<and>
     (\<forall>w fd bs. bs \<noteq> [] \<longrightarrow> length bs < 2 ^ 63 \<longrightarrow> snd (FIRCLSFileWriteWithRetries K fd bs w))"

lemma nonneg_word: "n < 2 ^ 63 \<Longrightarrow> \<not> (of_nat n :: u64) <s 0"
  by (simp add: word_sless_alt sint_uint uint_nat unat_of_nat signed_take_bit_int_eq_self)

lemma unat_length: "n < 2 ^ 63 \<Longrightarrow> unat (of_nat n :: u64) = n"
  by (simp add: unat_of_nat)

definition added :: "u32 \<Rightarrow> u8 list \<Rightarrow> file_world \<Rightarrow> file_world \<Rightarrow> bool" where
  "added fd bs w w' \<longleftrightarrow> fw_contents w' = (fw_contents w)(fd := fw_contents w fd @ bs)"

lemma attempts_write:
  assumes h: "honest K"
  shows "length bs < 2 ^ 63 \<Longrightarrow> write_attempts n (sys_write K fd) bs w = (w', ok) \<Longrightarrow>
    (\<exists>k \<le> length bs. added fd (take k bs) w w' \<and> (ok \<longleftrightarrow> bs \<noteq> [] \<and> k = length bs)) \<and> fw_calls w' \<le> fw_calls w + n"
proof (induction n arbitrary: bs w)
  case 0
  then show ?case by (auto simp: added_def intro: exI [of _ 0])
next
  case (Suc n)
  let ?ret = "K w fd bs"
  obtain v where v: "v = fst (sys_write K fd bs w)" by blast
  then have sw: "sys_write K fd bs w = (v, ?ret)" and calls: "fw_calls v = Suc (fw_calls w)"
    and con: "added fd (if ?ret <s 0 then [] else take (unat ?ret) bs) w v"
    by (simp_all add: sys_write_def added_def Let_def)
  consider "bs = []" | "bs \<noteq> []" "?ret <s 0" | "bs \<noteq> []" "\<not> ?ret <s 0" "?ret = of_nat (length bs)"
    | "bs \<noteq> []" "\<not> ?ret <s 0" "?ret \<noteq> of_nat (length bs)" by blast
  then show ?case
  proof cases
    case 1
    with Suc.prems show ?thesis by (auto simp: added_def)
  next
    case 2
    then have "added fd (take 0 bs) w v" using con by simp
    with 2 Suc.prems(2) calls show ?thesis by (auto simp: sw intro: exI [of _ 0])
  next
    case 3
    then have "added fd (take (length bs) bs) w v"
      using con unat_length [OF Suc.prems(1)] by simp
    with 3 Suc.prems(2) calls show ?thesis by (auto simp: sw intro: exI [of _ "length bs"])
  next
    case 4
    let ?k = "unat ?ret"
    have "?k \<le> length bs" using h Suc.prems(1) 4(2) by (auto simp: honest_def)
    moreover have "?k \<noteq> length bs" using 4(3) by (metis of_nat_unat ucast_id)
    ultimately have k: "?k < length bs" by simp
    have add: "added fd (take ?k bs) w v" using con 4(2) by simp
    have nlt: "\<not> of_nat (length bs) < ?ret"
      using k unat_length [OF Suc.prems(1)] by (simp add: word_less_nat_alt)
    show ?thesis
    proof (cases "0 <s ?ret")
      case False
      with 4 Suc.prems(2) nlt have "w' = v" "\<not> ok" by (simp_all add: sw Let_def)
      with add k calls show ?thesis by (auto intro!: exI [of _ ?k])
    next
      case True
      with 4 Suc.prems(2) nlt have "write_attempts n (sys_write K fd) (drop ?k bs) v = (w', ok)" by (simp add: sw Let_def)
      moreover have "length (drop ?k bs) < 2 ^ 63" using Suc.prems(1) by simp
      ultimately have "(\<exists>k \<le> length (drop ?k bs). added fd (take k (drop ?k bs)) v w' \<and> (ok \<longleftrightarrow> drop ?k bs \<noteq> [] \<and> k = length (drop ?k bs))) \<and>
          fw_calls w' \<le> fw_calls v + n" by (intro Suc.IH)
      then obtain j where j: "j \<le> length bs - ?k" "added fd (take j (drop ?k bs)) v w'"
        "ok \<longleftrightarrow> drop ?k bs \<noteq> [] \<and> j = length bs - ?k" "fw_calls w' \<le> fw_calls v + n" by auto
      have "added fd (take (?k + j) bs) w w'"
        using add j(2) by (simp add: added_def take_add)
      moreover have "ok \<longleftrightarrow> bs \<noteq> [] \<and> ?k + j = length bs" using j(1,3) k 4(1) by auto
      ultimately show ?thesis using j(1,4) k calls by (intro conjI exI [of _ "?k + j"]) auto
    qed
  qed
qed

lemma attempts_Suc: "FIRCLSFileWriteWithRetries K fd bs w = write_attempts (Suc 49) (sys_write K fd) bs w"
  by (simp add: FIRCLSFileWriteWithRetries_def FIRCLSFileLoopWithWriteBlock_def CLS_FILE_MAX_WRITE_ATTEMPTS_def)

lemma retries_reliable:
  assumes "reliable K" "bs \<noteq> []" "length bs < 2 ^ 63"
  shows "\<exists>w'. FIRCLSFileWriteWithRetries K fd bs w = (w', True) \<and> added fd bs w w'"
proof -
  obtain w' ok where r: "FIRCLSFileWriteWithRetries K fd bs w = (w', ok)" by fastforce
  moreover have ok using r assms unfolding reliable_def by (metis snd_conv)
  moreover have "\<exists>k \<le> length bs. added fd (take k bs) w w' \<and> (ok \<longleftrightarrow> bs \<noteq> [] \<and> k = length bs)"
    using attempts_write [of K bs "Suc 49" fd w w' ok] assms r by (simp add: reliable_def attempts_Suc)
  ultimately show ?thesis by auto
qed

text \<open>A kernel that takes everything at once, and one that takes only half of it in every other call.\<close>

lemma full_reliable: "reliable (\<lambda>w fd bs. of_nat (length bs))"
  unfolding reliable_def honest_def attempts_Suc write_attempts.simps
  by (simp add: sys_write_def nonneg_word unat_length Let_def)

definition half_kernel :: write_call where
  "half_kernel w fd bs = of_nat (if even (fw_calls w) then (length bs + 1) div 2 else length bs)"

lemma half_parts:
  assumes "length bs < 2 ^ 63" "0 < k" "k < length (bs :: u8 list)"
  shows "\<not> (of_nat k :: u64) <s 0" "(of_nat k :: u64) \<noteq> of_nat (length bs)" "\<not> of_nat (length bs) < (of_nat k :: u64)"
    "0 <s (of_nat k :: u64)" "unat (of_nat k :: u64) = k"
proof -
  have u: "unat (of_nat k :: u64) = k" "unat (of_nat (length bs) :: u64) = length bs"
    using assms by (auto intro!: unat_length)
  then show "\<not> of_nat (length bs) < (of_nat k :: u64)" "(of_nat k :: u64) \<noteq> of_nat (length bs)"
    using assms(3) by (auto simp: word_less_nat_alt)
  show "\<not> (of_nat k :: u64) <s 0" using assms by (intro nonneg_word) simp
  show "0 <s (of_nat k :: u64)"
    using assms u(1) by (simp add: word_sless_alt sint_uint uint_nat signed_take_bit_int_eq_self)
  show "unat (of_nat k :: u64) = k" by (rule u)
qed

lemma half_reliable: "reliable half_kernel"
proof -
  have h: "honest half_kernel" by (auto simp: honest_def half_kernel_def unat_length)
  have full: "snd (write_attempts (Suc n) (sys_write half_kernel fd) bs w)"
    if "bs \<noteq> []" "length bs < 2 ^ 63" "odd (fw_calls w)" for n fd bs w
    using that by (simp add: half_kernel_def sys_write_def nonneg_word unat_length Let_def)
  have "snd (write_attempts (Suc (Suc n)) (sys_write half_kernel fd) bs w)"
    if "bs \<noteq> []" "length bs < 2 ^ 63" for n fd bs w
  proof (cases "odd (fw_calls w) \<or> length bs = 1")
    case True
    then show ?thesis using that full [of bs w "Suc n" fd]
      by (auto simp: half_kernel_def sys_write_def nonneg_word unat_length Let_def simp del: write_attempts.simps(2))
        (simp add: half_kernel_def sys_write_def nonneg_word unat_length Let_def)
  next
    case False
    let ?k = "(length bs + 1) div 2"
    have "length bs \<noteq> 0" "length bs \<noteq> 1" using that False by auto
    then have k: "0 < ?k" "?k < length bs" by presburger+
    have ret: "half_kernel w fd bs = of_nat ?k" using False by (simp add: half_kernel_def)
    let ?w = "fst (sys_write half_kernel fd bs w)"
    have "odd (fw_calls ?w)" using False by (simp add: sys_write_def Let_def)
    with k that have "snd (write_attempts (Suc n) (sys_write half_kernel fd) (drop ?k bs) ?w)"
      by (intro full) simp_all
    moreover have "snd (sys_write half_kernel fd bs w) = of_nat ?k" by (simp add: sys_write_def ret Let_def)
    then have "write_attempts (Suc (Suc n)) (sys_write half_kernel fd) bs w =
        write_attempts (Suc n) (sys_write half_kernel fd) (drop ?k bs) ?w"
      using k that half_parts [OF that(2) k]
      by (subst write_attempts.simps(2)) (simp add: split_beta Let_def del: write_attempts.simps)
    ultimately show ?thesis by simp
  qed
  with h show ?thesis unfolding reliable_def attempts_Suc by (metis numeral_eq_Suc pred_numeral_simps)
qed

lemma retries_nothing: "FIRCLSFileWriteWithRetries K fd [] w = (w, False)"
  unfolding attempts_Suc write_attempts.simps by simp

subsection \<open>The buffer\<close>

definition file_ok :: "FIRCLSFile \<Rightarrow> bool" where
  "file_ok f \<longleftrightarrow> (fl_bufferWrites f \<longrightarrow>
     (\<exists>b. fl_writeBuffer f = Some b \<and> length b = 1000) \<and> unat (fl_writeBufferLength f) \<le> 999)"

definition pending :: "FIRCLSFile \<Rightarrow> u8 list" where
  "pending f =
     (if fl_bufferWrites f then take (unat (fl_writeBufferLength f)) (case fl_writeBuffer f of None \<Rightarrow> [] | Some b \<Rightarrow> b) else [])"

definition file_text :: "file_state \<Rightarrow> u8 list" where
  "file_text s = fw_contents (snd s) (fl_fd (fst s)) @ pending (fst s)"

text \<open>Two states of one file: nothing but its text differs.\<close>

definition same_file :: "file_state \<Rightarrow> file_state \<Rightarrow> bool" where
  "same_file s s' \<longleftrightarrow> fl_fd (fst s') = fl_fd (fst s) \<and> fl_bufferWrites (fst s') = fl_bufferWrites (fst s) \<and>
     (\<forall>fd. fd \<noteq> fl_fd (fst s) \<longrightarrow> fw_contents (snd s') fd = fw_contents (snd s) fd)"

definition writes :: "file_op \<Rightarrow> u8 list \<Rightarrow> file_state \<Rightarrow> file_state \<Rightarrow> bool" where
  "writes f bs s s' \<longleftrightarrow> f s = Some s' \<and> file_ok (fst s') \<and> file_text s' = file_text s @ bs \<and> same_file s s' \<and>
     fl_needComma (fst s') = fl_needComma (fst s) \<and> fl_collectionDepth (fst s') = fl_collectionDepth (fst s)"

text \<open>C strings hold no 0; a report is shorter than the address space.\<close>

definition plain_bytes :: "u8 list \<Rightarrow> bool" where
  "plain_bytes bs \<longleftrightarrow> 0 \<notin> set bs \<and> length bs < 2 ^ 62"

lemma strncpy_plain: "0 \<notin> set bs \<Longrightarrow> n \<le> length bs \<Longrightarrow> strncpy_bytes bs n = take n bs"
proof -
  assume "0 \<notin> set bs" "n \<le> length bs"
  then have "takeWhile (\<lambda>b. b \<noteq> 0) bs = bs" by (auto simp: takeWhile_eq_all_conv)
  then show ?thesis using \<open>n \<le> length bs\<close> by (simp only: strncpy_bytes_def take_append) simp
qed

lemma put_bytes_Some: "i + length bs \<le> length buf \<Longrightarrow>
    put_bytes buf i bs = Some (take i buf @ bs @ drop (i + length bs) buf)"
  by (simp add: put_bytes_def)

lemma buffer_room:
  fixes l :: u64
  assumes "unat l \<le> 999" "n < 2 ^ 62"
  shows "FIRCLSWriteBufferLength - 1 < l + of_nat n \<longleftrightarrow> 999 < unat l + n"
    and "unat (FIRCLSWriteBufferLength - l - 1) = 999 - unat l"
    and "unat l + n \<le> 999 \<Longrightarrow> unat (l + of_nat n) = unat l + n"
proof -
  have n: "unat (of_nat n :: u64) = n" using assms(2) by (simp add: unat_of_nat)
  have s: "unat (l + of_nat n) = unat l + n" using assms by (subst unat_plus_simple [THEN iffD1]) (simp_all add: n no_olen_add_nat)
  show "FIRCLSWriteBufferLength - 1 < l + of_nat n \<longleftrightarrow> 999 < unat l + n"
    by (simp add: word_less_nat_alt s FIRCLSWriteBufferLength_def)
  show "unat l + n \<le> 999 \<Longrightarrow> unat (l + of_nat n) = unat l + n" by (rule s)
  have "l \<le> 999" using assms(1) by (simp add: word_le_nat_alt)
  then show "unat (FIRCLSWriteBufferLength - l - 1) = 999 - unat l"
    by (simp add: FIRCLSWriteBufferLength_def unat_sub diff_diff_eq [symmetric] word_le_nat_alt)
qed

lemma writes_trans:
  assumes "writes f a s t" "writes g b t u"
  shows "writes (\<lambda>s. Option.bind (f s) g) (a @ b) s u"
  using assms by (auto simp: writes_def same_file_def)

lemma descriptor_writes:
  assumes K: "reliable K" and bs: "length bs < 2 ^ 62" and ok: "file_ok (fst s)" and b: "pending (fst s) = []"
  shows "\<exists>s'. writes (FIRCLSFileWriteToFileDescriptor K bs) bs s s' \<and> fl_writeBuffer (fst s') = fl_writeBuffer (fst s) \<and>
    fl_writeBufferLength (fst s') = fl_writeBufferLength (fst s)"
proof (cases "bs = []")
  case True
  with ok show ?thesis by (simp add: writes_def same_file_def FIRCLSFileWriteToFileDescriptor_def retries_nothing split_beta)
next
  case False
  obtain f w where s: "s = (f, w)" by (cases s) auto
  from bs have "length bs < 2 ^ 63" by simp
  from retries_reliable [OF K False this] obtain w' where
    w': "FIRCLSFileWriteWithRetries K (fl_fd f) bs w = (w', True)" "added (fl_fd f) bs w w'" by blast
  have "pending (f\<lparr>fl_writtenLength := n\<rparr>) = pending f" "file_ok (f\<lparr>fl_writtenLength := n\<rparr>) = file_ok f" for n
    by (simp_all add: pending_def file_ok_def)
  with w' ok b show ?thesis
    by (simp add: s writes_def same_file_def FIRCLSFileWriteToFileDescriptor_def file_text_def added_def)
qed

lemma flush_writes:
  assumes K: "reliable K" and ok: "file_ok (fst s)" and b: "fl_bufferWrites (fst s)"
  shows "\<exists>s'. writes (FIRCLSFileFlushWriteBuffer K) [] s s' \<and> fl_writeBufferLength (fst s') = 0"
proof -
  obtain f w where s: "s = (f, w)" by (cases s) auto
  from ok b obtain buf where buf: "fl_writeBuffer f = Some buf" "length buf = 1000" "unat (fl_writeBufferLength f) \<le> 999"
    by (auto simp: s file_ok_def)
  let ?p = "take (unat (fl_writeBufferLength f)) buf"
  have "length ?p < 2 ^ 62" "pending (f\<lparr>fl_bufferWrites := False\<rparr>) = []" using buf by (simp_all add: pending_def)
  then obtain t where t: "FIRCLSFileWriteToFileDescriptor K ?p (f, w) = Some t" "fl_fd (fst t) = fl_fd f"
    "fl_writeBuffer (fst t) = Some buf" "fl_bufferWrites (fst t) = fl_bufferWrites f" "fl_needComma (fst t) = fl_needComma f"
    "fl_collectionDepth (fst t) = fl_collectionDepth f" "added (fl_fd f) ?p w (snd t)"
    using buf(1) K retries_reliable [OF K, of ?p "fl_fd f" w] retries_nothing [of K "fl_fd f" w]
    by (cases "?p = []") (auto simp: FIRCLSFileWriteToFileDescriptor_def added_def split_beta)
  have "FIRCLSFileFlushWriteBuffer K s = Some ((fst t)\<lparr>fl_writeBufferLength := 0\<rparr>, snd t)"
    using b buf t(1) by (simp add: s FIRCLSFileFlushWriteBuffer_def split_beta)
  with t b buf show ?thesis
    by (auto simp: s writes_def same_file_def file_text_def file_ok_def pending_def added_def)
qed

lemma buffer_writes:
  assumes ok: "file_ok (fst s)" and b: "fl_bufferWrites (fst s)" and bs: "plain_bytes bs"
    and room: "unat (fl_writeBufferLength (fst s)) + length bs \<le> 999"
  shows "\<exists>s'. writes (FIRCLSFileWriteToBuffer bs) bs s s'"
proof -
  obtain f w where s: "s = (f, w)" by (cases s) auto
  from ok b obtain buf where buf: "fl_writeBuffer f = Some buf" "length buf = 1000" "unat (fl_writeBufferLength f) \<le> 999"
    by (auto simp: s file_ok_def)
  let ?l = "unat (fl_writeBufferLength f)"
  have n: "unat (of_nat (length bs) :: u64) = length bs" "0 \<notin> set bs" "length bs < 2 ^ 62" "?l + length bs \<le> 999"
    using bs room by (simp_all add: plain_bytes_def unat_of_nat s)
  note r = buffer_room [OF buf(3) n(3)]
  let ?b1 = "take ?l buf @ bs @ drop (?l + length bs) buf"
  let ?b2 = "take (?l + length bs) ?b1 @ [0] @ drop (?l + length bs + 1) ?b1"
  have p1: "put_bytes buf ?l (strncpy_bytes bs (length bs)) = Some ?b1"
    using n buf(2) by (simp add: strncpy_plain put_bytes_Some)
  have p2: "put_bytes ?b1 (?l + length bs) [0] = Some ?b2"
    using n buf(2) by (subst put_bytes_Some) simp_all
  have "FIRCLSFileWriteToBuffer bs s =
      Some (f\<lparr>fl_writeBuffer := Some ?b2, fl_writeBufferLength := fl_writeBufferLength f + of_nat (length bs)\<rparr>, w)"
    using n r(1,3) buf(1) p1 p2 by (simp add: FIRCLSFileWriteToBuffer_def s Let_def)
  moreover have "take (?l + length bs) ?b2 = take ?l buf @ bs" using n(4) buf(2) by simp
  moreover have "length ?b2 = 1000" using n(4) buf(2) by simp
  ultimately show ?thesis
    using b n(4) r(3) buf by (auto simp: s writes_def same_file_def file_text_def file_ok_def pending_def)
qed

lemma pieces_write:
  assumes K: "reliable K"
  shows "file_ok (fst s) \<Longrightarrow> plain_bytes bs \<Longrightarrow>
    length bs + (if unat (fl_writeBufferLength (fst s)) = 999 then 2 else 1) \<le> fuel \<Longrightarrow>
    \<exists>s'. writes (write_pieces fuel K bs) bs s s'"
proof (induction fuel arbitrary: s bs)
  case 0
  then show ?case by (simp split: if_splits)
next
  case (Suc fuel)
  let ?l = "unat (fl_writeBufferLength (fst s))"
  have n: "length bs < 2 ^ 62" using Suc.prems(2) by (simp add: plain_bytes_def)
  consider "\<not> fl_bufferWrites (fst s)" | "fl_bufferWrites (fst s)" "?l + length bs \<le> 999" | "fl_bufferWrites (fst s)" "999 < ?l + length bs"
    by linarith
  then show ?case
  proof cases
    case 1
    then have "pending (fst s) = []" by (simp add: pending_def)
    from descriptor_writes [OF K n Suc.prems(1) this] 1 show ?thesis by (auto simp: writes_def)
  next
    case 2
    then have "?l \<le> 999" by simp
    from buffer_room(1) [OF this n] buffer_writes [OF Suc.prems(1) 2(1) Suc.prems(2) 2(2)] 2 show ?thesis by (auto simp: writes_def)
  next
    case 3
    then have l: "?l \<le> 999" using Suc.prems(1) by (auto simp: file_ok_def)
    note r = buffer_room [OF l n]
    let ?k = "999 - ?l"
    have "plain_bytes (take ?k bs)" "plain_bytes (drop ?k bs)"
      using Suc.prems(2) by (auto simp: plain_bytes_def dest: in_set_takeD in_set_dropD)
    note pl = this
    have "?l + length (take ?k bs) \<le> 999" using l by simp
    from buffer_writes [OF Suc.prems(1) 3(1) pl(1) this] obtain t where t: "writes (FIRCLSFileWriteToBuffer (take ?k bs)) (take ?k bs) s t"
      by blast
    then have "file_ok (fst t)" "fl_bufferWrites (fst t)" using 3(1) by (auto simp: writes_def same_file_def)
    from flush_writes [OF K this] obtain u where u: "writes (FIRCLSFileFlushWriteBuffer K) [] t u" "fl_writeBufferLength (fst u) = 0"
      by blast
    then have "file_ok (fst u)" by (simp add: writes_def)
    moreover have "length (drop ?k bs) + (if unat (fl_writeBufferLength (fst u)) = 999 then 2 else 1) \<le> fuel"
      using Suc.prems(3) 3(2) u(2) l by (auto split: if_splits)
    ultimately obtain v where v: "writes (write_pieces fuel K (drop ?k bs)) (drop ?k bs) u v"
      using Suc.IH pl(2) by blast
    have "writes (write_pieces (Suc fuel) K bs) (take ?k bs @ ([] @ drop ?k bs)) s v"
      using writes_trans [OF t writes_trans [OF u(1) v]] 3 r(1,2)
      by (simp add: writes_def Let_def)
    then show ?thesis unfolding append_Nil append_take_drop_id by blast
  qed
qed

lemma put_writes:
  assumes "reliable K" "file_ok (fst s)" "plain_bytes bs"
  shows "\<exists>s'. writes (FIRCLSFileWriteToFileDescriptorOrBuffer K bs) bs s s'"
  unfolding FIRCLSFileWriteToFileDescriptorOrBuffer_def using assms by (intro pieces_write) auto

subsection \<open>The contract of an operation\<close>

definition ready_file :: "file_state \<Rightarrow> nat \<times> bool \<Rightarrow> bool" where
  "ready_file s x \<longleftrightarrow> file_ok (fst s) \<and> unat (fl_collectionDepth (fst s)) = fst x \<and> fl_needComma (fst s) = snd x"

definition emits :: "file_op \<Rightarrow> nat \<times> bool \<Rightarrow> u8 list \<Rightarrow> nat \<times> bool \<Rightarrow> bool" where
  "emits f x bs y \<longleftrightarrow> (\<forall>s. ready_file s x \<longrightarrow>
     (\<exists>s'. f s = Some s' \<and> ready_file s' y \<and> file_text s' = file_text s @ bs \<and> same_file s s'))"

named_theorems emits \<open>what operations write\<close>

lemma emits_text: "emits f x bs y \<Longrightarrow> bs = bs' \<Longrightarrow> emits f x bs' y"
  by simp

lemma same_file_trans: "same_file s t \<Longrightarrow> same_file t u \<Longrightarrow> same_file s u"
  by (simp add: same_file_def)

lemma same_file_refl [simp]: "same_file s s"
  by (simp add: same_file_def)

lemma emits_put [emits]:
  "reliable K \<Longrightarrow> plain_bytes bs \<Longrightarrow> emits (FIRCLSFileWriteToFileDescriptorOrBuffer K bs) x bs x"
  using put_writes [of K _ bs] by (fastforce simp: emits_def ready_file_def writes_def)

lemma emits_bind [emits]:
  assumes "emits f x a y" "emits g y b z"
  shows "emits (\<lambda>s. Option.bind (f s) g) x (a @ b) z"
  unfolding emits_def
proof (intro allI impI)
  fix s assume "ready_file s x"
  with assms(1) obtain t where t: "f s = Some t" "ready_file t y" "file_text t = file_text s @ a" "same_file s t"
    unfolding emits_def by blast
  with assms(2) obtain u where u: "g t = Some u" "ready_file u z" "file_text u = file_text t @ b" "same_file t u"
    unfolding emits_def by blast
  with t show "\<exists>s'. Option.bind (f s) g = Some s' \<and> ready_file s' z \<and> file_text s' = file_text s @ a @ b \<and> same_file s s'"
    by (auto intro: same_file_trans)
qed

lemma emits_Some [emits]: "emits Some x [] x"
  by (simp add: emits_def)

lemma plain_small: "0 \<notin> set bs \<Longrightarrow> length bs < 100 \<Longrightarrow> plain_bytes bs"
  by (simp add: plain_bytes_def)

lemma string_text:
  assumes K: "reliable K" and t: "plain_bytes t"
  shows "emits (FIRCLSFileWriteStringWithSuffix K t suffix) x (quote # t @ quote # (if suffix = 0 then [] else [suffix])) x"
proof (cases "FIRCLSStringBufferLength - (if suffix = 0 then 3 else 4) \<le> length t")
  case True
  then have "FIRCLSFileWriteStringWithSuffix K t suffix = FIRCLSFileWriteUnbufferedStringWithSuffix K t suffix"
    by (simp add: FIRCLSFileWriteStringWithSuffix_def Let_def fun_eq_iff)
  moreover have "emits (FIRCLSFileWriteUnbufferedStringWithSuffix K t suffix) x
      ([quote] @ t @ (if suffix = 0 then [quote] else [quote, suffix])) x"
    unfolding FIRCLSFileWriteUnbufferedStringWithSuffix_def [abs_def]
    by (rule emits K t | simp add: plain_bytes_def)+
  ultimately show ?thesis by (auto elim: emits_text)
next
  case False
  let ?n = "length t"
  let ?text = "quote # t @ quote # (if suffix = 0 then [] else [suffix])"
  from False have n: "?n + (if suffix = 0 then 2 else 3) < 15" by (simp add: FIRCLSStringBufferLength_def split: if_splits)
  have nz: "0 \<notin> set t" using t by (simp add: plain_bytes_def)
  have "FIRCLSFileWriteStringWithSuffix K t suffix = FIRCLSFileWriteToFileDescriptorOrBuffer K ?text"
  proof (cases "suffix = 0")
    case True
    with False n nz show ?thesis
      by (simp add: FIRCLSFileWriteStringWithSuffix_def fun_eq_iff put_bytes_def strncpy_plain FIRCLSStringBufferLength_def Let_def)
  next
    case nonzero: False
    have "take (?n + 3) (quote # t @ quote # suffix # zs) = quote # t @ [quote, suffix]" for zs
      by (simp add: take_Cons' Suc_diff_le numeral_3_eq_3)
    with False n nz nonzero show ?thesis
      by (simp add: FIRCLSFileWriteStringWithSuffix_def fun_eq_iff put_bytes_def strncpy_plain FIRCLSStringBufferLength_def Let_def)
  qed
  moreover have "plain_bytes ?text" using n nz by (intro plain_small) auto
  ultimately show ?thesis by (simp add: emits_put K)
qed

subsection \<open>Numbers\<close>

text \<open>The digits of a number: the specification of \<open>FIRCLSFilePrepareUInt64\<close>.\<close>

definition digit :: "nat \<Rightarrow> u8" where
  "digit n = (if n < 10 then of_nat (0x30 + n) else of_nat (0x57 + n))"

function digits :: "nat \<Rightarrow> nat \<Rightarrow> u8 list" where
  "digits b n = (if n < b \<or> b < 2 then [digit n] else digits b (n div b) @ [digit (n mod b)])"
  by auto
termination by (relation "measure snd") auto

declare digits.simps [simp del]

lemma digit_table:
  "list_all (\<lambda>k. (let v = of_nat (k + 0x30) in if (0x39 :: u8) < v then v + (0x61 - 0x39 - 1) else v) = digit k \<and> digit k \<noteq> 0)
     [0..<16]"
  by code_simp

lemma digit_small:
  assumes "k < 16"
  shows "(let v = of_nat (k + 0x30) in if (0x39 :: u8) < v then v + (0x61 - 0x39 - 1) else v) = digit k" "digit k \<noteq> 0"
  using digit_table assms unfolding list_all_iff by simp_all

lemma digit_char_digit:
  assumes "1 < b" "b \<le> 16"
  shows "digit_char (of_nat b) number = digit (unat number mod b)"
proof -
  have b: "unat (of_nat b :: u32) = b" using assms by (simp add: unat_of_nat)
  have ub: "unat (ucast (of_nat b :: u32) :: u64) = b" using assms by (simp add: unsigned_ucast_eq unat_of_nat take_bit_nat_eq_self)
  let ?m = "unat number mod b"
  have m: "?m < b" using assms by simp
  have um: "number mod ucast (of_nat b :: u32) = of_nat ?m"
    by (metis ub unat_mod of_nat_unat ucast_id)
  have "unat (of_nat ?m + 0x30 :: u64) = ?m + 0x30"
    using m assms(2) unat_of_nat [of "?m + 0x30", where 'a = 64] by simp
  then have v: "(ucast (number mod ucast (of_nat b :: u32) + 0x30 :: u64) :: u8) = of_nat (?m + 0x30)"
    unfolding um by (metis of_nat_unat)
  show ?thesis
    unfolding digit_char_def v using m assms(2) by (intro digit_small(1)) simp
qed

lemma digits_nonempty [simp]: "digits b n \<noteq> []"
  by (subst digits.simps) simp

lemma digits_length:
  assumes "1 < b"
  shows "n < b ^ i \<Longrightarrow> 0 < i \<Longrightarrow> length (digits b n) \<le> i"
proof (induction i arbitrary: n)
  case (Suc i)
  show ?case
  proof (cases "n < b")
    case True
    then show ?thesis by (subst digits.simps) simp
  next
    case False
    then have "0 < i" using Suc.prems assms by (cases i) auto
    moreover have "n div b < b ^ i" using Suc.prems(1) assms by (simp add: less_mult_imp_div_less mult.commute)
    ultimately have "length (digits b (n div b)) \<le> i" by (intro Suc.IH)
    with False assms show ?thesis by (subst digits.simps) simp
  qed
qed simp

lemma prepare_digits:
  assumes b: "1 < b" "b \<le> 16"
  shows "i < length buffer \<Longrightarrow> unat number < b ^ i \<Longrightarrow> 0 < i \<Longrightarrow>
    prepare_loop (of_nat b) number i buffer =
      (take (i - length (digits b (unat number))) buffer @ digits b (unat number) @ drop i buffer,
       i - length (digits b (unat number)))"
proof (induction i arbitrary: number buffer)
  case (Suc i)
  let ?n = "unat number"
  have ub: "unat (ucast (of_nat b :: u32) :: u64) = b" using b by (simp add: unsigned_ucast_eq unat_of_nat take_bit_nat_eq_self)
  have div: "unat (number div ucast (of_nat b :: u32)) = ?n div b" by (simp add: unat_div ub)
  let ?buf = "buffer[i := digit (?n mod b)]"
  have buf: "take k ?buf = take k buffer" "drop i ?buf = digit (?n mod b) # drop (Suc i) buffer" if "k \<le> i" for k
    using Suc.prems(1) that by (simp_all add: drop_update_swap Cons_nth_drop_Suc [symmetric])
  show ?case
  proof (cases "?n < b")
    case True
    then have "digits b ?n = [digit ?n]" by (subst digits.simps) simp
    moreover have "number div ucast (of_nat b :: u32) = 0"
      using True div by (metis div_less unsigned_eq_0_iff)
    moreover have "?buf = take i buffer @ [digit ?n] @ drop (Suc i) buffer"
      using True Suc.prems(1) by (simp only: upd_conv_take_nth_drop mod_less) simp
    ultimately show ?thesis
      using True by (simp add: digit_char_digit [OF b] Let_def)
  next
    case False
    then have d: "digits b ?n = digits b (?n div b) @ [digit (?n mod b)]" using b by (subst digits.simps) simp
    have i: "0 < i" using Suc.prems False by (cases i) auto
    have small: "?n div b < b ^ i" using Suc.prems(2) by (simp add: less_mult_imp_div_less mult.commute)
    have "0 < number div ucast (of_nat b :: u32)" using False b by (simp add: word_less_nat_alt div div_greater_zero_iff)
    with i have "prepare_loop (of_nat b) number (Suc i) buffer = prepare_loop (of_nat b) (number div ucast (of_nat b :: u32)) i ?buf"
      by (simp add: digit_char_digit [OF b] Let_def)
    also have "\<dots> = (take (i - length (digits b (?n div b))) ?buf @ digits b (?n div b) @ drop i ?buf, i - length (digits b (?n div b)))"
      using Suc.IH [of ?buf "number div ucast (of_nat b :: u32)"] Suc.prems(1) small i by (simp add: div)
    finally show ?thesis using d buf(1) buf(2) [OF le_refl] by simp
  qed
qed simp

lemma digits_nonzero: "b \<le> 16 \<Longrightarrow> 1 < b \<Longrightarrow> 0 \<notin> set (digits b n)"
proof (induction b n rule: digits.induct)
  case (1 b n)
  note nz = digit_small(2)
  have "n mod b < 16" "n < b \<Longrightarrow> n < 16" using 1 by (auto intro: less_le_trans [OF mod_less_divisor])
  then show ?case
    using 1 nz [of n] nz [of "n mod b"] by (subst digits.simps) (auto simp del: digits.simps)
qed

lemma number_digits: "number_string number hex = digits (if hex then 16 else 10) (unat number)"
proof -
  let ?b = "if hex then 16 else 10 :: nat"
  let ?d = "digits ?b (unat number)"
  have b: "1 < ?b" "?b \<le> 16" by simp_all
  have "unat number < 2 ^ LENGTH(64)" by (rule unsigned_less)
  then have n: "unat number < ?b ^ 20" by simp
  have l: "length ?d \<le> 20" using digits_length [OF b(1) n] by simp
  have w: "(if hex then 16 else 10 :: u32) = of_nat ?b" by simp
  have "FIRCLSFilePrepareUInt64 number hex =
      (take (20 - length ?d) (replicate 21 0) @ ?d @ drop 20 (replicate 21 0), 20 - length ?d)"
    using prepare_digits [OF b, of 20 "replicate 21 0" number] n
    unfolding FIRCLSFilePrepareUInt64_def FIRCLSUInt64StringBufferLength_def w by simp
  moreover have "drop 20 (replicate 21 (0 :: u8)) = [0]" by (simp add: drop_replicate)
  ultimately have "number_string number hex = takeWhile (\<lambda>b. b \<noteq> 0) (?d @ [0])"
    using l by (simp add: number_string_def Let_def)
  also have "\<dots> = ?d" using digits_nonzero [OF b(2,1), of "unat number"] by (subst takeWhile_append2) auto
  finally show ?thesis .
qed

subsection \<open>Strings in hexadecimal\<close>

lemma emitsE:
  assumes "emits f x bs y" "ready_file s x"
  obtains s' where "f s = Some s'" "ready_file s' y" "file_text s' = file_text s @ bs" "same_file s s'"
  using assms unfolding emits_def by blast

lemma hex_table:
  "list_all (\<lambda>k. FIRCLSHexMap ! k = digit k \<and> FIRCLSNybbleFromChar (digit k) = of_nat k \<and> digit k \<noteq> quote \<and> digit k < 0x80) [0..<16]"
  by code_simp

lemma hex_small:
  assumes "k < 16"
  shows "FIRCLSHexMap ! k = digit k" "FIRCLSNybbleFromChar (digit k) = of_nat k" "digit k \<noteq> quote" "digit k < 0x80"
  using hex_table assms unfolding list_all_iff by simp_all

lemma nybbles:
  fixes c :: u8
  shows "unat (drop_bit 4 c) < 16" "unat (c AND 0x0F) < 16" "push_bit 4 (drop_bit 4 c) OR (c AND 0x0F) = c"
    "drop_bit 4 c \<noteq> 0xFF" "c AND 0x0F \<noteq> 0xFF"
proof -
  have c: "unat c < 256" using unsigned_less [of c, where 'a = nat] by simp
  have "unat (drop_bit 4 c) = unat c div 16" by (simp add: drop_bit_eq_div unat_div)
  then show hi: "unat (drop_bit 4 c) < 16" using c by simp
  have m: "(0x0F :: u8) = mask 4" by (simp add: mask_eq_exp_minus_1)
  have "c AND 0x0F = take_bit 4 c" by (simp add: m flip: take_bit_eq_mask)
  then have "unat (c AND 0x0F) = unat c mod 16" by (simp add: take_bit_eq_mod unat_mod)
  then show lo: "unat (c AND 0x0F) < 16" by simp
  show "push_bit 4 (drop_bit 4 c) OR (c AND 0x0F) = c"
    unfolding m take_bit_eq_mask [symmetric] by (rule bit_word_eqI) (auto simp: bit_simps)
  show "drop_bit 4 c \<noteq> 0xFF" "c AND 0x0F \<noteq> 0xFF" using hi lo by auto
qed

lemma hex_byte_digits: "FIRCLSHexFromByte c = [digit (unat (drop_bit 4 c)), digit (unat (c AND 0x0F))]"
  by (simp add: FIRCLSHexFromByte_def hex_small nybbles)

lemma hex_byte:
  "0 \<notin> set (FIRCLSHexFromByte c)" "length (FIRCLSHexFromByte c) = 2"
  "hex_decode_loop (FIRCLSHexFromByte c @ cs) = c # hex_decode_loop cs"
  "quote \<notin> set (FIRCLSHexFromByte c)" "\<forall>b \<in> set (FIRCLSHexFromByte c). b < 0x80"
  using nybbles [of c] digit_small(2) hex_small(3,4)
  by (auto simp: hex_byte_digits hex_small FIRCLSInvalidCharNybble_def Let_def)

lemma hex_text_Cons: "hex_text (c # cs) = FIRCLSHexFromByte c @ hex_text cs"
  by (simp add: hex_text_def)

lemma hex_text_bytes: "0 \<notin> set (hex_text cs)" "length (hex_text cs) = 2 * length cs" "quote \<notin> set (hex_text cs)"
  by (induction cs) (simp_all add: hex_text_Cons hex_byte, simp_all add: hex_text_def)

lemma hex_text_ascii: "\<forall>b \<in> set (hex_text cs). b < 0x80"
  using hex_byte(5) by (auto simp: hex_text_def)

lemma hex_loop_emits:
  assumes K: "reliable K"
  shows "ready_file s x \<Longrightarrow> length buffer = 32 \<Longrightarrow> even i \<Longrightarrow> i < 32 \<Longrightarrow> 0 \<notin> set (take i buffer) \<Longrightarrow>
    \<exists>s' buffer' i'. hex_loop K cs buffer i s = Some (s', buffer', i') \<and> ready_file s' x \<and> same_file s s' \<and>
      file_text s' @ take i' buffer' = file_text s @ take i buffer @ hex_text cs \<and> i' < 32 \<and> 0 \<notin> set (take i' buffer') \<and>
      length buffer' = 32 \<and> (cs = [] \<longrightarrow> i' = i)"
proof (induction cs arbitrary: s buffer i)
  case Nil
  then show ?case by (auto simp: hex_text_def)
next
  case (Cons c cs)
  let ?h = "FIRCLSHexFromByte c"
  have i: "i + 2 \<le> 32" "even (i + 2)" using Cons.prems(3,4) by presburger+
  let ?b = "take i buffer @ ?h @ drop (i + 2) buffer"
  have b: "put_bytes buffer i ?h = Some ?b" "length ?b = 32" "take (i + 2) ?b = take i buffer @ ?h" "0 \<notin> set (take (i + 2) ?b)"
    using Cons.prems(2,5) i(1) by (simp_all add: put_bytes_def hex_byte min_def)
  show ?case
  proof (cases "i + 2 = 32")
    case False
    then have "i + 2 < 32" using i(1) by simp
    from Cons.IH [OF Cons.prems(1) b(2) i(2) this b(4)] b(1,3) this show ?thesis
      by (auto simp: CLS_FILE_HEX_BUFFER_def hex_text_Cons)
  next
    case True
    then have whole: "?b = take i buffer @ ?h" using b(2,3) by (metis order_refl take_all)
    have "plain_bytes ?b" using b(2,4) True by (auto simp: plain_bytes_def)
    then have "emits (FIRCLSFileWriteToFileDescriptorOrBuffer K ?b) x ?b x" by (rule emits_put [OF K])
    then obtain t where t: "FIRCLSFileWriteToFileDescriptorOrBuffer K ?b s = Some t" "ready_file t x"
      "file_text t = file_text s @ ?b" "same_file s t"
      using Cons.prems(1) unfolding emits_def by blast
    obtain s' buffer' i' where "hex_loop K cs ?b 0 t = Some (s', buffer', i')" "ready_file s' x" "same_file t s'"
      "file_text s' @ take i' buffer' = file_text t @ hex_text cs" "i' < 32" "0 \<notin> set (take i' buffer')" "length buffer' = 32"
      using Cons.IH [OF t(2) b(2), of 0] by auto
    with t True b(1) whole show ?thesis
      by (auto simp: CLS_FILE_HEX_BUFFER_def hex_text_Cons intro: same_file_trans)
  qed
qed

lemma hex_string_text [emits]:
  assumes K: "reliable K"
  shows "emits (FIRCLSFileWriteHexEncodedString K (Some t)) x (quote # hex_text t @ [quote]) x"
  unfolding emits_def
proof (intro allI impI)
  fix s assume s: "ready_file s x"
  have q: "emits (FIRCLSFileWriteToFileDescriptorOrBuffer K [quote]) x [quote] x"
    by (rule emits_put [OF K]) (simp add: plain_bytes_def)
  from q s obtain s1 where s1: "FIRCLSFileWriteToFileDescriptorOrBuffer K [quote] s = Some s1" "ready_file s1 x"
    "file_text s1 = file_text s @ [quote]" "same_file s s1" unfolding emits_def by blast
  obtain s2 b i where s2: "hex_loop K t (replicate 32 0) 0 s1 = Some (s2, b, i)" "ready_file s2 x" "same_file s1 s2"
    "file_text s2 @ take i b = file_text s1 @ hex_text t" "i < 32" "0 \<notin> set (take i b)" "length b = 32" "t = [] \<longrightarrow> i = 0"
    using hex_loop_emits [OF K s1(2), of "replicate 32 0" 0 t] by auto
  have "plain_bytes (take i b)" using s2(5-7) by (simp add: plain_bytes_def)
  then have "emits (FIRCLSFileWriteToFileDescriptorOrBuffer K (take i b)) x (take i b) x" by (rule emits_put [OF K])
  note out = this
  obtain s3 where s3: "(if 0 < i \<and> 0 < length t then FIRCLSFileWriteToFileDescriptorOrBuffer K (take i b) s2 else Some s2) = Some s3"
    "ready_file s3 x" "file_text s3 = file_text s2 @ take i b" "same_file s2 s3"
  proof (cases "0 < i \<and> 0 < length t")
    case True
    then show ?thesis using emitsE [OF out s2(2)] that by simp metis
  next
    case False
    then have "i = 0" using s2(8) by auto
    then show ?thesis using s2(2) that [of s2] by simp
  qed
  from q s3(2) obtain s4 where s4: "FIRCLSFileWriteToFileDescriptorOrBuffer K [quote] s3 = Some s4" "ready_file s4 x"
    "file_text s4 = file_text s3 @ [quote]" "same_file s3 s4" unfolding emits_def by blast
  show "\<exists>s'. FIRCLSFileWriteHexEncodedString K (Some t) s = Some s' \<and> ready_file s' x \<and>
      file_text s' = file_text s @ quote # hex_text t @ [quote] \<and> same_file s s'"
    using s1 s2(1-4) s3 s4
    by (auto simp: FIRCLSFileWriteHexEncodedString_def CLS_FILE_HEX_BUFFER_def intro: same_file_trans)
qed

subsection \<open>Pieces of text\<close>

locale report_sink =
  fixes put :: "u8 list \<Rightarrow> 's \<Rightarrow> 's option"
    and sunk :: "'s \<Rightarrow> u8 list"
    and fine :: "'s \<Rightarrow> bool"
    and fits :: "u8 list \<Rightarrow> bool"
  assumes put: "fine s \<Longrightarrow> fits bs \<Longrightarrow> \<exists>s'. put bs s = Some s' \<and> fine s' \<and> sunk s' = sunk s @ bs"
begin

lemma put_each:
  "fine s \<Longrightarrow> list_all fits bss \<Longrightarrow> \<exists>s'. write_each put bss s = Some s' \<and> fine s' \<and> sunk s' = sunk s @ concat bss"
proof (induction bss arbitrary: s)
  case (Cons bs bss)
  with put obtain t where t: "put bs s = Some t" "fine t" "sunk t = sunk s @ bs" by fastforce
  with Cons obtain u where "write_each put bss t = Some u" "fine u" "sunk u = sunk t @ concat bss" by fastforce
  with t show ?case by simp
qed simp

lemma pieces_irrelevant:
  assumes "fine s" "list_all fits a" "list_all fits b" "concat a = concat b"
    and "write_each put a s = Some s1" "write_each put b s = Some s2"
  shows "sunk s1 = sunk s2"
  using put_each [of s a] put_each [of s b] assms by simp

end

text \<open>A file, from the state \<open>s0\<close> on, is such a sink.\<close>

definition goes_on :: "write_call \<Rightarrow> file_state \<Rightarrow> file_state \<Rightarrow> bool" where
  "goes_on K s0 s \<longleftrightarrow> reliable K \<and> file_ok (fst s) \<and> same_file s0 s"

interpretation file_sink: report_sink "FIRCLSFileWriteToFileDescriptorOrBuffer K" file_text "goes_on K s0" plain_bytes for K s0
proof
  fix s bs assume "goes_on K s0 s" "plain_bytes bs"
  with put_writes [of K s bs] show "\<exists>s'. FIRCLSFileWriteToFileDescriptorOrBuffer K bs s = Some s' \<and> goes_on K s0 s' \<and>
      file_text s' = file_text s @ bs"
    by (auto simp: goes_on_def writes_def intro: same_file_trans)
qed

subsection \<open>Closing\<close>

text \<open>The block of \<open>malloc\<close> is the one that was asked for.\<close>

lemma init_state:
  assumes "FIRCLSFileInit malloc fstat (Some f0) fd appendMode buffered = (Some f, True)" and "\<And>b. malloc = Some b \<Longrightarrow> length b = 1000"
  shows "file_ok f" "fl_fd f = fd" "pending f = []" "fl_collectionDepth f = 0" "\<not> fl_needComma f" "fl_bufferWrites f = buffered"
    "fl_writeBufferLength f = 0"
  using assms by (auto simp: FIRCLSFileInit_def zero_file_def file_ok_def pending_def Let_def split: if_splits)

lemma close_text:
  assumes K: "reliable K" and ok: "file_ok f"
  shows "\<exists>f' w'. FIRCLSFileClose K close_ok (Some f) w = Some (f', w', close_ok (fl_fd f)) \<and>
    fw_contents w' (fl_fd f) = file_text (f, w) \<and> (\<forall>fd. fd \<noteq> fl_fd f \<longrightarrow> fw_contents w' fd = fw_contents w fd)"
proof (cases "fl_bufferWrites f")
  case False
  then show ?thesis by (simp add: FIRCLSFileClose_def FIRCLSFileCloseWithOffset_def file_text_def pending_def)
next
  case True
  from flush_writes [OF K, of "(f, w)"] ok True obtain s where s: "writes (FIRCLSFileFlushWriteBuffer K) [] (f, w) s"
    "fl_writeBufferLength (fst s) = 0" by auto
  let ?t = "if 0 < fl_writeBufferLength f then s else (f, w)"
  have t: "(if 0 < fl_writeBufferLength f then FIRCLSFileFlushWriteBuffer K (f, w) else Some (f, w)) = Some ?t"
    using s(1) by (simp add: writes_def)
  have ft: "file_ok (fst ?t)" "file_text ?t = file_text (f, w)" "same_file (f, w) ?t" "fl_writeBufferLength (fst ?t) = 0"
    using s ok by (simp_all add: writes_def not_less)
  then obtain b where b: "fl_writeBuffer (fst ?t) = Some b" "length b = 1000"
    using True by (auto simp: file_ok_def same_file_def split: if_splits)
  then have nb: "b \<noteq> []" by auto
  have con: "fw_contents (snd ?t) (fl_fd f) = file_text (f, w)"
    using ft by (auto simp: file_text_def same_file_def pending_def split: if_splits)
  have buf: "\<exists>c. fl_writeBuffer f = Some c" using ok True by (auto simp: file_ok_def)
  obtain g v where gv: "?t = (g, v)" by fastforce
  have "FIRCLSFileClose K close_ok (Some f) w = Some
      (if close_ok (fl_fd g) then Some (zero_file\<lparr>fl_fd := - 1\<rparr>) else Some (g\<lparr>fl_writeBuffer := Some []\<rparr>), v, close_ok (fl_fd g))"
    using True buf t b(1) nb unfolding gv
    by (auto simp: FIRCLSFileClose_def FIRCLSFileCloseWithOffset_def free_buffer_def)
  with con ft(3) show ?thesis unfolding gv by (simp add: same_file_def)
qed

end
