(* ===== verification/CrashJson.thy ===== *)
theory CrashJson
  imports CrashEmit
begin

section \<open>The JSON text of a report\<close>

text \<open>
  What the operations of \<open>CrashFile\<close> write when they are called in the right order: the text of a JSON value.
  \<open>json\<close> has the values a report is made of and \<open>json_text\<close> the text, without spaces and with strings as they
  are; \<open>parse_json\<close> is a reader of such texts, and \<open>parse_text\<close> shows that it reads back the value when the strings
  have no quote and no backslash in them.

  \<open>items d f ts\<close>: within an open collection at depth \<open>d\<close> the operation \<open>f\<close> writes the entries with the texts
  \<open>ts\<close>, and the commas that are needed before and between them.
\<close>

subsection \<open>Values and their text\<close>

datatype json =
    J_null
  | J_bool bool
  | J_num int
  | J_str "u8 list"
  | J_arr "json list"
  | J_obj "(u8 list \<times> json) list"

fun listing :: "bool \<Rightarrow> u8 list list \<Rightarrow> u8 list" where
  "listing c [] = []"
| "listing c (t # ts) = (if c then [comma] else []) @ t @ listing True ts"

definition string_lit :: "u8 list \<Rightarrow> u8 list" where
  "string_lit s = quote # s @ [quote]"

definition number_text :: "int \<Rightarrow> u8 list" where
  "number_text i = (if i < 0 then 0x2D # digits 10 (nat (- i)) else digits 10 (nat i))"

primrec json_text :: "json \<Rightarrow> u8 list" where
  "json_text J_null = chars ''null''"
| "json_text (J_bool b) = (if b then chars ''true'' else chars ''false'')"
| "json_text (J_num i) = number_text i"
| "json_text (J_str s) = string_lit s"
| "json_text (J_arr js) = 0x5B # listing False (map json_text js) @ [0x5D]"
| "json_text (J_obj es) =
     0x7B # listing False (map (\<lambda>(k, t). string_lit k @ 0x3A # t) (map (map_prod id json_text) es)) @ [0x7D]"

definition entry_text :: "u8 list \<times> json \<Rightarrow> u8 list" where
  "entry_text e = string_lit (fst e) @ 0x3A # json_text (snd e)"

lemma json_text_obj: "json_text (J_obj es) = 0x7B # listing False (map entry_text es) @ [0x7D]"
proof -
  have "map (\<lambda>(k, t). string_lit k @ 0x3A # t) (map (map_prod id json_text) es) = map entry_text es"
    by (auto simp: entry_text_def)
  then show ?thesis by (simp only: json_text.simps)
qed

text \<open>A section is a line of the file.\<close>

definition section_text :: "u8 list \<Rightarrow> json \<Rightarrow> u8 list" where
  "section_text name j = json_text (J_obj [(name, j)]) @ [0x0A]"

lemma listing_append: "listing c (a @ b) = listing c a @ listing (c \<or> a \<noteq> []) b"
  by (induction a arbitrary: c) simp_all

subsection \<open>Operations that write entries\<close>

definition items :: "nat \<Rightarrow> file_op \<Rightarrow> u8 list list \<Rightarrow> bool" where
  "items d f ts \<longleftrightarrow> (\<forall>c. emits f (d, c) (listing c ts) (d, c \<or> ts \<noteq> []))"

named_theorems items \<open>operations that write entries\<close>

lemma items_none [items]: "items d Some []"
  using emits_Some by (simp add: items_def)

lemma items_bind [items]:
  assumes "items d f a" "items d g b"
  shows "items d (\<lambda>s. Option.bind (f s) g) (a @ b)"
  unfolding items_def
proof
  fix c
  have "emits f (d, c) (listing c a) (d, c \<or> a \<noteq> [])" "emits g (d, c \<or> a \<noteq> []) (listing (c \<or> a \<noteq> []) b) (d, (c \<or> a \<noteq> []) \<or> b \<noteq> [])"
    using assms unfolding items_def by blast+
  from emits_bind [OF this] show "emits (\<lambda>s. Option.bind (f s) g) (d, c) (listing c (a @ b)) (d, c \<or> a @ b \<noteq> [])"
    by (simp add: listing_append disj_assoc)
qed

lemma items_texts: "items d f a \<Longrightarrow> a = b \<Longrightarrow> items d f b"
  by simp

text \<open>The frame of an entry.\<close>

lemma prolog_emits:
  assumes K: "reliable K"
  shows "emits (FIRCLSFileWriteColletionEntryProlog K) (d, c) (if c then [comma] else []) (d, c)"
proof (cases c)
  case True
  have "emits (FIRCLSFileWriteToFileDescriptorOrBuffer K [comma]) (d, c) [comma] (d, c)"
    by (rule emits_put [OF K]) (simp add: plain_bytes_def)
  with True show ?thesis by (auto simp: emits_def FIRCLSFileWriteColletionEntryProlog_def ready_file_def)
next
  case False
  then show ?thesis by (auto simp: emits_def FIRCLSFileWriteColletionEntryProlog_def ready_file_def)
qed

lemma same_text_flags:
  "file_ok (f\<lparr>fl_needComma := c\<rparr>) = file_ok f" "pending (f\<lparr>fl_needComma := c\<rparr>) = pending f"
  "file_ok (f\<lparr>fl_collectionDepth := d\<rparr>) = file_ok f" "pending (f\<lparr>fl_collectionDepth := d\<rparr>) = pending f"
  by (simp_all add: file_ok_def pending_def)

lemma epilog_emits: "emits FIRCLSFileWriteColletionEntryEpilog (d, c) [] (d, True)"
  by (simp add: emits_def FIRCLSFileWriteColletionEntryEpilog_def ready_file_def file_text_def same_file_def same_text_flags)

lemma array_entry_items:
  assumes K: "reliable K" and f: "\<And>c. emits f (d, c) t (d, c)"
  shows "items d (array_entry K f) [t]"
  unfolding items_def
proof
  fix c
  have "emits (array_entry K f) (d, c) ((if c then [comma] else []) @ t @ []) (d, True)"
    unfolding array_entry_def [abs_def] by (rule emits_bind prolog_emits [OF K] f epilog_emits)+
  then show "emits (array_entry K f) (d, c) (listing c [t]) (d, c \<or> [t] \<noteq> [])" by simp
qed

lemma hash_key_emits:
  assumes K: "reliable K" and k: "plain_bytes key"
  shows "emits (FIRCLSFileWriteHashKey K key) (d, c) ((if c then [comma] else []) @ string_lit key @ [0x3A]) (d, False)"
proof -
  have comma: "emits (\<lambda>s. case s of (file, w) \<Rightarrow> Some (file\<lparr>fl_needComma := False\<rparr>, w)) (d, c) [] (d, False)"
    by (auto simp: emits_def ready_file_def file_text_def same_file_def same_text_flags)
  have str: "emits (FIRCLSFileWriteStringWithSuffix K key 0x3A) (d, c) (string_lit key @ [0x3A]) (d, c)"
    using string_text [OF K k, of "0x3A"] by (simp add: string_lit_def)
  have "emits (FIRCLSFileWriteHashKey K key) (d, c) ((if c then [comma] else []) @ (string_lit key @ [0x3A]) @ []) (d, False)"
    unfolding FIRCLSFileWriteHashKey_def [abs_def] by (rule emits_bind prolog_emits [OF K] str comma)+
  then show ?thesis by simp
qed

lemma hash_entry_items:
  assumes K: "reliable K" and k: "plain_bytes key" and f: "\<And>c. emits f (d, c) t (d, c)"
  shows "items d (hash_entry K key f) [string_lit key @ 0x3A # t]"
  unfolding items_def
proof
  fix c
  have "emits (hash_entry K key f) (d, c) (((if c then [comma] else []) @ string_lit key @ [0x3A]) @ t @ []) (d, True)"
    unfolding hash_entry_def [abs_def] by (rule emits_bind hash_key_emits [OF K k] f epilog_emits)+
  then show "emits (hash_entry K key f) (d, c) (listing c [string_lit key @ 0x3A # t]) (d, c \<or> [string_lit key @ 0x3A # t] \<noteq> [])"
    by simp
qed

text \<open>A key and the entry written after it.\<close>

lemma key_items:
  assumes K: "reliable K" and k: "plain_bytes key" and f: "items d f [t]"
  shows "items d (with_key K key f) [string_lit key @ 0x3A # t]"
  unfolding items_def
proof
  fix c
  have "emits f (d, False) t (d, True)" using f unfolding items_def by (auto dest: spec [of _ False])
  from emits_bind [OF hash_key_emits [OF K k] this] have "emits (with_key K key f) (d, c)
      (((if c then [comma] else []) @ string_lit key @ [0x3A]) @ t) (d, True)"
    by (simp add: with_key_def [abs_def])
  then
  show "emits (with_key K key f) (d, c) (listing c [string_lit key @ 0x3A # t])
      (d, c \<or> [string_lit key @ 0x3A # t] \<noteq> [])" by simp
qed

text \<open>The values.\<close>

lemma plain_chars:
  "plain_bytes (chars ''null'')" "plain_bytes (chars ''true'')" "plain_bytes (chars ''false'')"
  by (simp_all add: plain_bytes_def chars_def)

lemma uint_emits: "reliable K \<Longrightarrow> emits (FIRCLSFileWriteUInt64 K v False) x (json_text (J_num (int (unat v)))) x"
proof -
  assume K: "reliable K"
  have "unat v < 2 ^ LENGTH(64)" by (rule unsigned_less)
  then have "length (digits 10 (unat v)) \<le> 20" by (intro digits_length) simp_all
  then have "plain_bytes (digits 10 (unat v))" using digits_nonzero [of 10 "unat v"] by (simp add: plain_bytes_def)
  then show ?thesis
    unfolding FIRCLSFileWriteUInt64_def number_digits using emits_put [OF K] by (simp add: number_text_def)
qed

lemma int_emits:
  assumes K: "reliable K" and v: "v \<noteq> 0x8000000000000000"
  shows "emits (FIRCLSFileWriteInt64 K v) x (json_text (J_num (sint v))) x"
proof (cases "v <s 0")
  case True
  then have neg: "sint v < 0" by (simp add: word_sless_alt)
  have "- v = word_of_int (- sint v)" by simp
  then have "uint (- v) = (- sint v) mod 2 ^ 64" by (simp only: uint_word_of_int) simp
  moreover have "- sint v \<le> 2 ^ 63" using sint_ge [of v] by simp
  ultimately have u: "int (unat (- v)) = - sint v" using neg by simp
  then have un: "unat (- v) = nat (- sint v)" by (metis nat_int)
  have m: "emits (FIRCLSFileWriteToFileDescriptorOrBuffer K [0x2D]) x [0x2D] x"
    by (rule emits_put [OF K]) (simp add: plain_bytes_def)
  have "emits (\<lambda>s. Option.bind (FIRCLSFileWriteToFileDescriptorOrBuffer K [0x2D] s) (FIRCLSFileWriteUInt64 K (- v) False)) x
      ([0x2D] @ json_text (J_num (int (unat (- v))))) x"
    by (rule emits_bind m uint_emits [OF K])+
  moreover have "FIRCLSFileWriteInt64 K v =
      (\<lambda>s. Option.bind (FIRCLSFileWriteToFileDescriptorOrBuffer K [0x2D] s) (FIRCLSFileWriteUInt64 K (- v) False))"
    using True v by (simp add: FIRCLSFileWriteInt64_def negate64_def fun_eq_iff)
  ultimately show ?thesis using neg by (simp add: number_text_def un)
next
  case False
  then have "0 \<le> sint v" by (simp add: word_sless_alt)
  moreover have "uint v = sint v mod 2 ^ 64" using uint_word_of_int [where 'a = 64, of "sint v"] by simp
  ultimately have "int (unat v) = sint v" using sint_lt [of v] by simp
  with False uint_emits [OF K, of v x] show ?thesis by (simp add: FIRCLSFileWriteInt64_def emits_def)
qed

lemma bool_emits: "reliable K \<Longrightarrow> emits (FIRCLSFileWriteBool K b) x (json_text (J_bool b)) x"
  unfolding FIRCLSFileWriteBool_def using emits_put plain_chars by (cases b) auto

definition string_json :: "u8 list option \<Rightarrow> json" where
  "string_json t = (case t of None \<Rightarrow> J_null | Some t \<Rightarrow> J_str t)"

definition hex_json :: "u8 list option \<Rightarrow> json" where
  "hex_json t = (case t of None \<Rightarrow> J_null | Some t \<Rightarrow> J_str (hex_text t))"

lemma null_emits: "reliable K \<Longrightarrow> emits (FIRCLSFileWriteToFileDescriptorOrBuffer K (chars ''null'')) x (chars ''null'') x"
  using emits_put plain_chars by blast

lemma string_emits:
  "reliable K \<Longrightarrow> (\<And>s. t = Some s \<Longrightarrow> plain_bytes s) \<Longrightarrow> emits (FIRCLSFileWriteString K t) x (json_text (string_json t)) x"
  using null_emits string_text [of K _ 0]
  by (cases t) (auto simp: FIRCLSFileWriteString_def [abs_def] string_json_def string_lit_def)

lemma hex_emits: "reliable K \<Longrightarrow> emits (FIRCLSFileWriteHexEncodedString K t) x (json_text (hex_json t)) x"
  using null_emits hex_string_text
  by (cases t) (auto simp: FIRCLSFileWriteHexEncodedString_def [abs_def] hex_json_def string_lit_def)

lemmas value_emits = uint_emits bool_emits string_emits hex_emits int_emits

lemma array_value_items [items]:
  "reliable K \<Longrightarrow> items d (FIRCLSFileWriteArrayEntryUint64 K v) [json_text (J_num (int (unat v)))]"
  "reliable K \<Longrightarrow> (\<And>s. t = Some s \<Longrightarrow> plain_bytes s) \<Longrightarrow>
     items d (FIRCLSFileWriteArrayEntryString K t) [json_text (string_json t)]"
  "reliable K \<Longrightarrow> items d (FIRCLSFileWriteArrayEntryHexEncodedString K t) [json_text (hex_json t)]"
  by (simp_all only: FIRCLSFileWriteArrayEntryUint64_def FIRCLSFileWriteArrayEntryString_def
      FIRCLSFileWriteArrayEntryHexEncodedString_def array_entry_items value_emits)

lemma hash_value_items [items]:
  "reliable K \<Longrightarrow> plain_bytes k \<Longrightarrow> items d (FIRCLSFileWriteHashEntryUint64 K k v) [entry_text (k, J_num (int (unat v)))]"
  "reliable K \<Longrightarrow> plain_bytes k \<Longrightarrow> v \<noteq> 0x8000000000000000 \<Longrightarrow>
     items d (FIRCLSFileWriteHashEntryInt64 K k v) [entry_text (k, J_num (sint v))]"
  "reliable K \<Longrightarrow> plain_bytes k \<Longrightarrow> (\<And>s. t = Some s \<Longrightarrow> plain_bytes s) \<Longrightarrow>
     items d (FIRCLSFileWriteHashEntryString K k t) [entry_text (k, string_json t)]"
  "reliable K \<Longrightarrow> plain_bytes k \<Longrightarrow> items d (FIRCLSFileWriteHashEntryHexEncodedString K k t) [entry_text (k, hex_json t)]"
  "reliable K \<Longrightarrow> plain_bytes k \<Longrightarrow> items d (FIRCLSFileWriteHashEntryBoolean K k b) [entry_text (k, J_bool b)]"
  unfolding FIRCLSFileWriteHashEntryUint64_def FIRCLSFileWriteHashEntryInt64_def FIRCLSFileWriteHashEntryString_def
    FIRCLSFileWriteHashEntryHexEncodedString_def FIRCLSFileWriteHashEntryBoolean_def entry_text_def fst_conv snd_conv
  by (rule hash_entry_items; (assumption | rule value_emits; assumption | rule value_emits; blast))+

subsection \<open>Collections\<close>

lemma sint_small: "n < 2 ^ 31 \<Longrightarrow> sint (of_nat n :: u32) = int n"
  by (simp add: sint_uint uint_nat unat_of_nat signed_take_bit_int_eq_self)

lemma unat_small_depth: "n < 2 ^ 31 \<Longrightarrow> unat (of_nat n :: u32) = n"
  by (simp add: unat_of_nat)

lemma start_emits:
  assumes K: "reliable K" and o: "o1 \<noteq> 0" and d: "Suc d < 2 ^ 31"
  shows "emits (FIRCLSFileWriteCollectionStart K o1) (d, c) ((if c then [comma] else []) @ [o1]) (Suc d, False)"
  unfolding emits_def
proof (intro allI impI)
  fix s assume s: "ready_file s (d, c)"
  have p: "emits (FIRCLSFileWriteToFileDescriptorOrBuffer K (if c then [comma, o1] else [o1])) (d, c) (if c then [comma, o1] else [o1]) (d, c)"
    by (rule emits_put [OF K]) (use o in \<open>simp add: plain_bytes_def\<close>)
  from emitsE [OF p s] obtain t where t: "FIRCLSFileWriteToFileDescriptorOrBuffer K (if c then [comma, o1] else [o1]) s = Some t"
    "ready_file t (d, c)" "file_text t = file_text s @ (if c then [comma, o1] else [o1])" "same_file s t" by blast
  have dt: "unat (fl_collectionDepth (fst t)) = d" using t(2) by (simp add: ready_file_def)
  then have "fl_collectionDepth (fst t) \<noteq> 0x7FFFFFFF" using d by auto
  moreover have "unat (fl_collectionDepth (fst t) + 1) = Suc d"
    using dt d by (simp add: unat_word_ariths)
  ultimately show "\<exists>s'. FIRCLSFileWriteCollectionStart K o1 s = Some s' \<and> ready_file s' (Suc d, False) \<and>
      file_text s' = file_text s @ (if c then [comma] else []) @ [o1] \<and> same_file s s'"
    using s t by (auto simp: FIRCLSFileWriteCollectionStart_def ready_file_def file_text_def same_file_def file_ok_def pending_def split_beta)
qed

lemma end_emits:
  assumes K: "reliable K" and o: "o1 \<noteq> 0" and d: "Suc d < 2 ^ 31"
  shows "emits (FIRCLSFileWriteCollectionEnd K o1) (Suc d, c) [o1] (d, 0 < d)"
  unfolding emits_def
proof (intro allI impI)
  fix s assume s: "ready_file s (Suc d, c)"
  have p: "emits (FIRCLSFileWriteToFileDescriptorOrBuffer K [o1]) (Suc d, c) [o1] (Suc d, c)"
    by (rule emits_put [OF K]) (use o in \<open>simp add: plain_bytes_def\<close>)
  from emitsE [OF p s] obtain t where t: "FIRCLSFileWriteToFileDescriptorOrBuffer K [o1] s = Some t"
    "ready_file t (Suc d, c)" "file_text t = file_text s @ [o1]" "same_file s t" by blast
  let ?e = "fl_collectionDepth (fst t)"
  have dt: "?e = of_nat (Suc d)" using t(2) by (metis fst_conv of_nat_unat ready_file_def ucast_id)
  have dm: "?e - 1 = of_nat d" by (simp add: dt)
  have "sint ?e = int (Suc d)" "sint (?e - 1) = int d" "unat (?e - 1) = d"
    unfolding dm using d by (simp_all only: dt sint_small Suc_lessD unat_small_depth)
  then have pos: "\<not> ?e \<le>s 0" "0 <s ?e - 1 \<longleftrightarrow> 0 < d" "unat (?e - 1) = d"
    by (simp_all add: word_sle_eq word_sless_alt)
  from s t pos show "\<exists>s'. FIRCLSFileWriteCollectionEnd K o1 s = Some s' \<and> ready_file s' (d, 0 < d) \<and>
      file_text s' = file_text s @ [o1] \<and> same_file s s'"
    by (auto simp: FIRCLSFileWriteCollectionEnd_def ready_file_def file_text_def same_file_def file_ok_def pending_def split_beta Let_def)
qed

lemma in_array_items [items]:
  assumes K: "reliable K" and f: "items (Suc d) f (map json_text js)" and d: "0 < d" "Suc d < 2 ^ 31"
  shows "items d (in_array K f) [json_text (J_arr js)]"
  unfolding items_def
proof
  fix c
  have "emits f (Suc d, False) (listing False (map json_text js)) (Suc d, False \<or> map json_text js \<noteq> [])"
    using f unfolding items_def by blast
  then have "emits (in_array K f) (d, c) (((if c then [comma] else []) @ [0x5B]) @ listing False (map json_text js) @ [0x5D]) (d, 0 < d)"
    unfolding in_array_def [abs_def] FIRCLSFileWriteArrayStart_def FIRCLSFileWriteArrayEnd_def
    using start_emits [OF K _ d(2)] end_emits [OF K _ d(2)] by (intro emits_bind) auto
  then show "emits (in_array K f) (d, c) (listing c [json_text (J_arr js)]) (d, c \<or> [json_text (J_arr js)] \<noteq> [])"
    using d(1) by simp
qed

lemma in_hash_emits:
  assumes K: "reliable K" and f: "items (Suc d) f (map entry_text es)" and d: "Suc d < 2 ^ 31"
  shows "emits (in_hash K f) (d, c) ((if c then [comma] else []) @ json_text (J_obj es)) (d, 0 < d)"
proof -
  have "emits f (Suc d, False) (listing False (map entry_text es)) (Suc d, False \<or> map entry_text es \<noteq> [])"
    using f unfolding items_def by blast
  then have "emits (in_hash K f) (d, c) (((if c then [comma] else []) @ [0x7B]) @ listing False (map entry_text es) @ [0x7D]) (d, 0 < d)"
    unfolding in_hash_def [abs_def] FIRCLSFileWriteHashStart_def FIRCLSFileWriteHashEnd_def
    using start_emits [OF K _ d] end_emits [OF K _ d] by (intro emits_bind) auto
  then show ?thesis unfolding json_text_obj by simp
qed

lemma in_hash_items [items]:
  assumes "reliable K" "items (Suc d) f (map entry_text es)" "0 < d" "Suc d < 2 ^ 31"
  shows "items d (in_hash K f) [json_text (J_obj es)]"
  unfolding items_def using in_hash_emits [OF assms(1,2,4)] assms(3) by simp

lemma with_key_items [items]:
  assumes "reliable K" "plain_bytes k" "items d f [json_text j]"
  shows "items d (with_key K k f) [entry_text (k, j)]"
  using key_items [OF assms] by (simp add: entry_text_def)

lemma section_emits:
  assumes K: "reliable K" and k: "plain_bytes name" and f: "items 1 f [json_text j]"
  shows "emits (in_section K name f) (0, False) (section_text name j) (0, False)"
proof -
  have line: "emits (FIRCLSFileWriteToFileDescriptorOrBuffer K [0x0A]) (0, 0 < (0 :: nat)) [0x0A] (0, False)"
    using emits_put [OF K, of "[0x0A]"] by (simp add: plain_bytes_def)
  have "emits f (1, False) (listing False [json_text j]) (1, False \<or> [json_text j] \<noteq> [])" using f unfolding items_def by blast
  then have v: "emits f (1, False) (json_text j) (1, True)" by simp
  have start: "emits (FIRCLSFileWriteCollectionStart K 0x7B) (0, False) [0x7B] (1, False)"
    and close: "emits (FIRCLSFileWriteCollectionEnd K 0x7D) (1, True) [0x7D] (0, 0 < (0 :: nat))"
    using start_emits [OF K, of "0x7B" 0 False] end_emits [OF K, of "0x7D" 0 True] by simp_all
  have key: "emits (FIRCLSFileWriteHashKey K name) (1, False) (string_lit name @ [0x3A]) (1, False)"
    using hash_key_emits [OF K k, of 1 False] by simp
  have "in_section K name f = (\<lambda>s. Option.bind
      (Option.bind (FIRCLSFileWriteCollectionStart K 0x7B s) (FIRCLSFileWriteHashKey K name))
      (\<lambda>s. Option.bind (f s) (\<lambda>s. Option.bind (FIRCLSFileWriteCollectionEnd K 0x7D s) (FIRCLSFileWriteToFileDescriptorOrBuffer K [0x0A]))))"
    by (simp add: in_section_def [abs_def] FIRCLSFileWriteSectionStart_def [abs_def] FIRCLSFileWriteSectionEnd_def [abs_def]
        FIRCLSFileWriteHashStart_def FIRCLSFileWriteHashEnd_def)
  with emits_bind [OF emits_bind [OF start key] emits_bind [OF v emits_bind [OF close line]]] show ?thesis
    unfolding section_text_def json_text_obj by (simp add: entry_text_def)
qed

lemma write_each_items [items]:
  "(\<And>x. x \<in> set xs \<Longrightarrow> items d (f x) (ts x)) \<Longrightarrow> items d (write_each f xs) (concat (map ts xs))"
proof (induction xs)
  case (Cons x xs)
  then have "items d (f x) (ts x)" "items d (write_each f xs) (concat (map ts xs))" by simp_all
  from items_bind [OF this] show ?case by simp
next
  case Nil
  then show ?case using items_none by (simp add: items_def emits_def)
qed

subsection \<open>Reading a report back\<close>

text \<open>A reader of JSON without spaces and escapes, with the length of the input as fuel.\<close>

definition is_digit :: "u8 \<Rightarrow> bool" where
  "is_digit c \<longleftrightarrow> 0x30 \<le> c \<and> c \<le> 0x39"

definition value_of :: "u8 list \<Rightarrow> nat" where
  "value_of ds = foldl (\<lambda>n c. 10 * n + (unat c - 0x30)) 0 ds"

definition parse_number :: "u8 list \<Rightarrow> (nat \<times> u8 list) option" where
  "parse_number cs =
     (let ds = takeWhile is_digit cs in
      if ds = [] \<or> (1 < length ds \<and> hd ds = 0x30) then None else Some (value_of ds, dropWhile is_digit cs))"

definition parse_string :: "u8 list \<Rightarrow> (u8 list \<times> u8 list) option" where
  "parse_string cs =
     (let s = takeWhile (\<lambda>c. c \<noteq> quote \<and> c \<noteq> 0x5C) cs; rest = dropWhile (\<lambda>c. c \<noteq> quote \<and> c \<noteq> 0x5C) cs in
      case rest of [] \<Rightarrow> None | c # cs \<Rightarrow> if c = quote then Some (s, cs) else None)"

definition parse_literal :: "string \<Rightarrow> 'a \<Rightarrow> u8 list \<Rightarrow> ('a \<times> u8 list) option" where
  "parse_literal s x cs = (if take (length s) cs = chars s then Some (x, drop (length s) cs) else None)"

definition ends_with :: "u8 \<Rightarrow> (u8 list \<Rightarrow> ('a list \<times> u8 list) option) \<Rightarrow> 'a \<Rightarrow> u8 list \<Rightarrow> ('a list \<times> u8 list) option" where
  "ends_with close others x cs =
     (case cs of [] \<Rightarrow> None
      | c # cs \<Rightarrow>
          if c = close then Some ([x], cs)
          else if c = comma then do { (xs, cs) \<leftarrow> others cs; Some (x # xs, cs) }
          else None)"

fun parse_json :: "nat \<Rightarrow> u8 list \<Rightarrow> (json \<times> u8 list) option"
  and parse_elements :: "nat \<Rightarrow> u8 list \<Rightarrow> (json list \<times> u8 list) option"
  and parse_members :: "nat \<Rightarrow> u8 list \<Rightarrow> ((u8 list \<times> json) list \<times> u8 list) option"
where
  "parse_json 0 cs = None"
| "parse_json (Suc n) [] = None"
| "parse_json (Suc n) (c # cs) =
     (if c = quote then do { (s, cs) \<leftarrow> parse_string cs; Some (J_str s, cs) }
      else if c = 0x5B then
        (if take 1 cs = [0x5D] then Some (J_arr [], drop 1 cs) else do { (js, cs) \<leftarrow> parse_elements n cs; Some (J_arr js, cs) })
      else if c = 0x7B then
        (if take 1 cs = [0x7D] then Some (J_obj [], drop 1 cs) else do { (es, cs) \<leftarrow> parse_members n cs; Some (J_obj es, cs) })
      else if c = 0x6E then parse_literal ''null'' J_null (c # cs)
      else if c = 0x74 then parse_literal ''true'' (J_bool True) (c # cs)
      else if c = 0x66 then parse_literal ''false'' (J_bool False) (c # cs)
      else if c = 0x2D then do { (k, cs) \<leftarrow> parse_number cs; Some (J_num (- int k), cs) }
      else do { (k, cs) \<leftarrow> parse_number (c # cs); Some (J_num (int k), cs) })"
| "parse_elements 0 cs = None"
| "parse_elements (Suc n) cs = do { (j, cs) \<leftarrow> parse_json n cs; ends_with 0x5D (parse_elements n) j cs }"
| "parse_members 0 cs = None"
| "parse_members (Suc n) cs = do {
     (s, cs) \<leftarrow> (case cs of [] \<Rightarrow> None | c # cs \<Rightarrow> if c = quote then parse_string cs else None);
     cs \<leftarrow> (case cs of [] \<Rightarrow> None | c # cs \<Rightarrow> if c = 0x3A then Some cs else None);
     (j, cs) \<leftarrow> parse_json n cs;
     ends_with 0x7D (parse_members n) (s, j) cs }"

definition parse_line :: "u8 list \<Rightarrow> (json \<times> u8 list) option" where
  "parse_line cs = parse_json (length cs) cs"

text \<open>Strings that a reader gets back as they are.\<close>

definition readable_string :: "u8 list \<Rightarrow> bool" where
  "readable_string s \<longleftrightarrow> quote \<notin> set s \<and> 0x5C \<notin> set s"

primrec readable :: "json \<Rightarrow> bool" where
  "readable J_null = True"
| "readable (J_bool b) = True"
| "readable (J_num i) = True"
| "readable (J_str s) = readable_string s"
| "readable (J_arr js) = list_all id (map readable js)"
| "readable (J_obj es) = list_all (\<lambda>(k, b). readable_string k \<and> b) (map (map_prod id readable) es)"

lemma parse_string_lit: "readable_string s \<Longrightarrow> parse_string (s @ quote # rest) = Some (s, rest)"
proof -
  let ?p = "\<lambda>c. c \<noteq> quote \<and> c \<noteq> (0x5C :: u8)"
  assume "readable_string s"
  then have all: "\<forall>c \<in> set s. ?p c" by (auto simp: readable_string_def)
  then have "takeWhile ?p (s @ quote # rest) = s" "dropWhile ?p (s @ quote # rest) = quote # rest"
    by (simp_all add: takeWhile_append dropWhile_append)
  then show ?thesis by (simp add: parse_string_def Let_def)
qed

lemma digit_10: "k < 10 \<Longrightarrow> is_digit (digit k) \<and> unat (digit k) = 0x30 + k \<and> (digit k = 0x30 \<longrightarrow> k = 0)"
proof -
  have "list_all (\<lambda>k. is_digit (digit k) \<and> unat (digit k) = 0x30 + k \<and> (digit k = 0x30 \<longrightarrow> k = 0)) [0..<10]" by code_simp
  moreover assume "k < 10"
  ultimately show ?thesis unfolding list_all_iff by simp
qed

lemma digits_10:
  "list_all is_digit (digits 10 n) \<and> value_of (digits 10 n) = n \<and> (hd (digits 10 n) = 0x30 \<longrightarrow> n = 0)"
proof (induction n rule: less_induct)
  case (less n)
  show ?case
  proof (cases "n < 10")
    case True
    then show ?thesis using digit_10 [of n] by (subst (1 2 3) digits.simps) (simp add: value_of_def)
  next
    case False
    then have d: "digits 10 n = digits 10 (n div 10) @ [digit (n mod 10)]" by (subst digits.simps) simp
    have "n div 10 < n" "n div 10 \<noteq> 0" using False by auto
    with less.IH [of "n div 10"] digit_10 [of "n mod 10"] show ?thesis
      by (simp add: d value_of_def)
  qed
qed

lemma parse_digits:
  assumes "rest = [] \<or> \<not> is_digit (hd rest)"
  shows "parse_number (digits 10 n @ rest) = Some (n, rest)"
proof -
  let ?d = "digits 10 n"
  have all: "\<forall>c \<in> set ?d. is_digit c" using digits_10 [of n] by (simp add: list_all_iff)
  with assms have t: "takeWhile is_digit (?d @ rest) = ?d" "dropWhile is_digit (?d @ rest) = rest"
    by (cases rest; simp add: takeWhile_append dropWhile_append)+
  have "\<not> (1 < length ?d \<and> hd ?d = 0x30)"
  proof
    assume a: "1 < length ?d \<and> hd ?d = 0x30"
    then have "n = 0" using digits_10 [of n] by blast
    with a show False by (simp add: digits.simps)
  qed
  with t digits_10 [of n] show ?thesis by (simp add: parse_number_def Let_def)
qed

lemma digits_first: "\<exists>c cs. digits 10 n = c # cs \<and> is_digit c"
  using digits_10 [of n] by (cases "digits 10 n") simp_all

lemma digit_not_mark:
  assumes "is_digit c"
  shows "c \<noteq> quote" "c \<noteq> 0x5B" "c \<noteq> 0x7B" "c \<noteq> 0x6E" "c \<noteq> 0x74" "c \<noteq> 0x66" "c \<noteq> 0x2D" "c \<noteq> 0x5D" "c \<noteq> 0x7D"
  using assms by (auto simp: is_digit_def)

lemma text_first: "\<exists>c cs. json_text j = c # cs \<and> c \<noteq> 0x5D \<and> c \<noteq> 0x7D"
proof (cases j)
  case (J_num i)
  then show ?thesis
    using digits_first [of "nat i"] digit_not_mark by (auto simp: number_text_def)
qed (auto simp: chars_def string_lit_def)

lemma parse_number_text:
  assumes "rest = [] \<or> \<not> is_digit (hd rest)"
  shows "parse_json (Suc n) (number_text i @ rest) = Some (J_num i, rest)"
proof (cases "i < 0")
  case True
  then show ?thesis using parse_digits [OF assms, of "nat (- i)"] by (simp add: number_text_def)
next
  case False
  obtain c cs where c: "digits 10 (nat i) = c # cs" "is_digit c" using digits_first by blast
  have "parse_number (c # cs @ rest) = Some (nat i, rest)" using parse_digits [OF assms, of "nat i"] c(1) by simp
  with False c digit_not_mark [OF c(2)] show ?thesis by (simp add: number_text_def)
qed

lemma parse_elements_listing:
  assumes "\<And>j n rest. j \<in> set js \<Longrightarrow> length (json_text j) \<le> n \<Longrightarrow> rest = [] \<or> \<not> is_digit (hd rest) \<Longrightarrow>
    parse_json n (json_text j @ rest) = Some (j, rest)"
  shows "js \<noteq> [] \<Longrightarrow> length (listing False (map json_text js)) < n \<Longrightarrow>
    parse_elements n (listing False (map json_text js) @ 0x5D # rest) = Some (js, rest)"
  using assms
proof (induction js arbitrary: n)
  case (Cons j js)
  then obtain k where n: "n = Suc k" by (cases n) auto
  show ?case
  proof (cases "js = []")
    case True
    with Cons.prems n show ?thesis
      using Cons.prems(3) [of j k "0x5D # rest"] by (simp add: ends_with_def is_digit_def)
  next
    case False
    then have l: "listing True (map json_text js) = comma # listing False (map json_text js)" by (cases js) simp_all
    have "length (listing False (map json_text js)) < k" using Cons.prems(2) n text_first [of j] l by auto
    then have "parse_elements k (listing False (map json_text js) @ 0x5D # rest) = Some (js, rest)"
      using Cons.IH [OF False] Cons.prems(3) by simp
    with Cons.prems(2) n l show ?thesis
      using Cons.prems(3) [of j k "comma # listing False (map json_text js) @ 0x5D # rest"]
      by (simp add: ends_with_def is_digit_def)
  qed
qed simp

lemma parse_members_listing:
  assumes "\<And>e n rest. e \<in> set es \<Longrightarrow> length (json_text (snd e)) \<le> n \<Longrightarrow> rest = [] \<or> \<not> is_digit (hd rest) \<Longrightarrow>
    parse_json n (json_text (snd e) @ rest) = Some (snd e, rest)"
    and "\<And>e. e \<in> set es \<Longrightarrow> readable_string (fst e)"
  shows "es \<noteq> [] \<Longrightarrow> length (listing False (map entry_text es)) < n \<Longrightarrow>
    parse_members n (listing False (map entry_text es) @ 0x7D # rest) = Some (es, rest)"
  using assms
proof (induction es arbitrary: n)
  case (Cons e es)
  then obtain k where n: "n = Suc k" by (cases n) auto
  have et: "entry_text e = quote # fst e @ quote # 0x3A # json_text (snd e)" by (simp add: entry_text_def string_lit_def)
  have len: "length (json_text (snd e)) \<le> k" using Cons.prems(2) n by (simp add: entry_text_def string_lit_def)
  have str: "parse_string (fst e @ quote # 0x3A # json_text (snd e) @ cs) = Some (fst e, 0x3A # json_text (snd e) @ cs)" for cs
    using parse_string_lit Cons.prems(4) by simp
  show ?case
  proof (cases "es = []")
    case True
    with Cons.prems n len str show ?thesis
      using Cons.prems(3) [of e k "0x7D # rest"] by (simp add: ends_with_def is_digit_def et)
  next
    case False
    then have l: "listing True (map entry_text es) = comma # listing False (map entry_text es)" by (cases es) simp_all
    have "length (listing True (map entry_text es)) = Suc (length (listing False (map entry_text es)))" using l by simp
    then have "length (listing False (map entry_text es)) < k" using Cons.prems(2) n by simp
    then have "parse_members k (listing False (map entry_text es) @ 0x7D # rest) = Some (es, rest)"
      using Cons.IH [OF False] Cons.prems(3,4) by simp
    with n l len str show ?thesis
      using Cons.prems(3) [of e k "comma # listing False (map entry_text es) @ 0x7D # rest"]
      by (simp add: ends_with_def is_digit_def et)
  qed
qed simp

lemma parse_text:
  "readable j \<Longrightarrow> length (json_text j) \<le> n \<Longrightarrow> rest = [] \<or> \<not> is_digit (hd rest) \<Longrightarrow>
    parse_json n (json_text j @ rest) = Some (j, rest)"
proof (induction j arbitrary: n rest)
  case J_null
  then obtain k where "n = Suc k" by (cases n) (auto simp: chars_def)
  then show ?case by (simp add: chars_def parse_literal_def)
next
  case (J_bool b)
  then obtain k where "n = Suc k" by (cases n) (auto simp: chars_def split: if_splits)
  then show ?case by (simp add: chars_def parse_literal_def)
next
  case (J_num i)
  then obtain k where "n = Suc k" using text_first [of "J_num i"] by (cases n) auto
  then show ?case using parse_number_text [OF J_num(3)] by simp
next
  case (J_str s)
  then obtain k where "n = Suc k" by (cases n) (auto simp: string_lit_def)
  then show ?case using J_str parse_string_lit [of s rest] by (simp add: string_lit_def)
next
  case (J_arr js)
  then obtain k where n: "n = Suc k" by (cases n) auto
  show ?case
  proof (cases js)
    case Nil
    then show ?thesis by (simp add: n)
  next
    case (Cons j js')
    have "parse_elements k (listing False (map json_text js) @ 0x5D # rest) = Some (js, rest)"
      using J_arr n Cons by (intro parse_elements_listing) (auto simp: list_all_iff)
    moreover obtain c cs where "json_text j = c # cs" "c \<noteq> 0x5D" using text_first by blast
    ultimately show ?thesis using Cons by (simp add: n)
  qed
next
  case (J_obj es)
  then obtain k where n: "n = Suc k" by (cases n) auto
  show ?case
  proof (cases es)
    case Nil
    then show ?thesis by (simp add: n)
  next
    case (Cons e es')
    have ih: "e \<in> set es \<Longrightarrow> readable (snd e) \<Longrightarrow> length (json_text (snd e)) \<le> n \<Longrightarrow> rest = [] \<or> \<not> is_digit (hd rest) \<Longrightarrow>
        parse_json n (json_text (snd e) @ rest) = Some (snd e, rest)" for e n rest
      by (rule J_obj.IH [of e]) (cases e; simp)+
    have rd: "readable_string (fst e) \<and> readable (snd e)" if "e \<in> set es" for e
      using J_obj.prems(1) that by (cases e) (force simp: list_all_iff)
    have "length (listing False (map entry_text es)) < k" using J_obj.prems(2) n unfolding json_text_obj by simp
    then have "parse_members k (listing False (map entry_text es) @ 0x7D # rest) = Some (es, rest)"
      using ih rd Cons by (intro parse_members_listing) simp_all
    then show ?thesis using Cons unfolding json_text_obj by (simp add: n entry_text_def string_lit_def)
  qed
qed

lemma parse_section:
  assumes "readable_string name" "readable j"
  shows "parse_line (section_text name j) = Some (J_obj [(name, j)], [0x0A])"
proof -
  have "readable (J_obj [(name, j)])" using assms by simp
  from parse_text [OF this, of "length (section_text name j)" "[0x0A]"] show ?thesis
    by (simp add: parse_line_def section_text_def is_digit_def)
qed

end
