(* ===== verification/CrashReport.thy ===== *)
theory CrashReport
  imports CrashJson Unwind
begin

section \<open>The sections of a crash report (FIRCLSProcess.c, FIRCLSHandler.m, FIRCLSSignal.c, FIRCLSMachException.c)\<close>

text \<open>
  What a crash handler writes: \<open>Components/FIRCLSProcess.c\<close> records the threads, the queues and the statistics of
  the process, \<open>Components/FIRCLSHost.m\<close> the disk, \<open>Handlers/FIRCLSSignal.c\<close> and \<open>Handlers/FIRCLSMachException.c\<close>
  what happened, and \<open>FIRCLSHandler\<close> is the order of all that.

  The answers of the kernel and of the system libraries are the parameter \<open>process_env\<close>: the state of a thread,
  its name, the label of a dispatch queue, the memory counters.  It also holds the unwinder of the architecture
  (\<open>Unwind\<close>) and the answers of \<open>write\<close>.  The memory of the process is passed along: redacting the device's
  identifier changes it.  Logging is left out: it goes to another file.  A function of the code that returns
  false or nothing after an error does so here; a read of an uninitialised variable is undefined.
\<close>

subsection \<open>Strings in memory\<close>

partial_function (option) c_string :: "mem \<Rightarrow> addr \<Rightarrow> u8 list option" where
  "c_string m a = do {
     b \<leftarrow> m a;
     if b = 0 then Some [] else do { bs \<leftarrow> c_string m (a + 1); Some (b # bs) } }"

declare c_string.simps [code]

fun read_string_loop :: "nat \<Rightarrow> mem \<Rightarrow> addr \<Rightarrow> addr \<Rightarrow> bool" where
  "read_string_loop 0 m address limit = True"
| "read_string_loop (Suc n) m address limit =
     (if \<not> address < limit then True
      else case FIRCLSReadMemory m address 1 of
        None \<Rightarrow> False
      | Some c \<Rightarrow> if c = [0] then True else read_string_loop n m (address + 1) limit)"

text \<open>The string may have no end within \<open>maxlen\<close>; it is taken as it is.\<close>

definition FIRCLSReadString :: "mem \<Rightarrow> addr \<Rightarrow> nat \<Rightarrow> bool" where
  "FIRCLSReadString m src maxlen = read_string_loop maxlen m src (src + of_nat maxlen)"

text \<open>The search for a pair of parentheses 37 apart, from the first open one on.\<close>

fun redact :: "u8 list \<Rightarrow> u8 list" where
  "redact [] = []"
| "redact (c # cs) =
     (if c \<noteq> 0x28 then c # redact cs
      else if 0x29 \<notin> set cs then c # cs
      else if length (takeWhile (\<lambda>b. b \<noteq> 0x29) cs) = 36
      then c # map (\<lambda>b. if b \<noteq> 0x2D then 0x2A else b) (take 36 cs) @ drop 36 cs
      else c # redact cs)"

definition FIRCLSRedactUUID :: "mem \<Rightarrow> addr \<Rightarrow> mem option" where
  "FIRCLSRedactUUID m value = (if value = 0 then Some m else do { cs \<leftarrow> c_string m value; store_bytes m value (redact cs) })"

subsection \<open>The process\<close>

record 'r FIRCLSProcess =
  pr_thisThread :: u32
  pr_crashedThread :: u32
  pr_threads :: "u32 list"
  pr_uapVoid :: "'r option"

record vm_counters =
  vm_active :: u32
  vm_inactive :: u32
  vm_wire :: u32
  vm_free :: u32

record task_counters =
  tk_virtual_size :: u64
  tk_resident_size :: u64
  tk_user :: "u32 \<times> u32"
  tk_system :: "u32 \<times> u32"

record 'r process_env =
  pe_kernel :: write_call
  pe_unwind :: "'r unwind_env"
  pe_dump :: "'r \<Rightarrow> (string \<times> u64) list"
  pe_get_state :: "u32 \<Rightarrow> 'r option"
  pe_has_link :: bool
  pe_zero_context :: 'r
  pe_current_pc :: u64
  pe_frame_address :: u64
  pe_return_address :: u64
  pe_task_threads :: "u32 list option"
  pe_this_thread :: u32
  pe_thread_name :: "u32 \<Rightarrow> u8 list"
  pe_queue :: "u32 \<Rightarrow> addr option"
  pe_label :: "addr \<Rightarrow> addr"
  pe_selector :: "'r \<Rightarrow> addr"
  pe_crash_infos :: "addr list"
  pe_page_size :: u64
  pe_vm :: "vm_counters option"
  pe_task :: "task_counters option"
  pe_disk :: "(u64 \<times> u64 \<times> u64) option"
  pe_suspend :: "u32 \<Rightarrow> bool"
  pe_resume :: "u32 \<Rightarrow> bool"

definition MACH_PORT_INDEX :: "u32 \<Rightarrow> u32" where
  "MACH_PORT_INDEX name = drop_bit 8 name"

definition FIRCLSProcessInit :: "'r process_env \<Rightarrow> u32 \<Rightarrow> 'r option \<Rightarrow> 'r FIRCLSProcess \<times> bool" where
  "FIRCLSProcessInit E crashedThread uapVoid =
     (\<lparr> pr_thisThread = pe_this_thread E, pr_crashedThread = crashedThread,
        pr_threads = (case pe_task_threads E of None \<Rightarrow> [] | Some ts \<Rightarrow> ts), pr_uapVoid = uapVoid \<rparr>,
      pe_task_threads E \<noteq> None)"

definition FIRCLSProcessIsCurrentThread :: "'r FIRCLSProcess \<Rightarrow> u32 \<Rightarrow> bool" where
  "FIRCLSProcessIsCurrentThread process thread \<longleftrightarrow> MACH_PORT_INDEX (pr_thisThread process) = MACH_PORT_INDEX thread"

definition FIRCLSProcessIsCrashedThread :: "'r FIRCLSProcess \<Rightarrow> u32 \<Rightarrow> bool" where
  "FIRCLSProcessIsCrashedThread process thread \<longleftrightarrow> MACH_PORT_INDEX (pr_crashedThread process) = MACH_PORT_INDEX thread"

text \<open>The calls that are made and whether all succeeded: after a failure none is made any more.\<close>

fun each_other_thread :: "(u32 \<Rightarrow> bool) \<Rightarrow> 'r FIRCLSProcess \<Rightarrow> u32 list \<Rightarrow> bool \<Rightarrow> u32 list \<times> bool" where
  "each_other_thread call process [] success = ([], success)"
| "each_other_thread call process (thread # threads) success =
     (if FIRCLSProcessIsCurrentThread process thread then each_other_thread call process threads success
      else if success then
        (let (called, ok) = each_other_thread call process threads (call thread) in (thread # called, ok))
      else each_other_thread call process threads False)"

definition FIRCLSProcessSuspendAllOtherThreads :: "'r process_env \<Rightarrow> 'r FIRCLSProcess \<Rightarrow> u32 list \<times> bool" where
  "FIRCLSProcessSuspendAllOtherThreads E process = each_other_thread (pe_suspend E) process (pr_threads process) True"

definition FIRCLSProcessResumeAllOtherThreads :: "'r process_env \<Rightarrow> 'r FIRCLSProcess \<Rightarrow> u32 list \<times> bool" where
  "FIRCLSProcessResumeAllOtherThreads E process = each_other_thread (pe_resume E) process (pr_threads process) True"

text \<open>The state of the crashed thread is in the context of the signal; that of the current thread is made up.\<close>

definition faked_context :: "'r process_env \<Rightarrow> 'r" where
  "faked_context E =
     (let A = env_arch (pe_unwind E);
          r = SET_FP_REGISTER A (SET_IP_REGISTER A (pe_zero_context E) (pe_current_pc E)) (pe_frame_address E);
          r = (if pe_has_link E then SET_LR_REGISTER A r (pe_return_address E) else r)
      in SET_SP_REGISTER A r (pe_frame_address E + 2 * 8))"

definition FIRCLSProcessGetThreadState :: "'r process_env \<Rightarrow> 'r FIRCLSProcess \<Rightarrow> u32 \<Rightarrow> 'r option" where
  "FIRCLSProcessGetThreadState E process thread =
     (if FIRCLSProcessIsCrashedThread process thread \<and> pr_uapVoid process \<noteq> None then pr_uapVoid process
      else if FIRCLSProcessIsCurrentThread process thread then Some (faked_context E)
      else pe_get_state E thread)"

subsection \<open>A thread\<close>

definition x86_64_dump :: "(x86_thread_state64 \<Rightarrow> string \<Rightarrow> u64) \<Rightarrow> x86_thread_state64 \<Rightarrow> (string \<times> u64) list" where
  "x86_64_dump other r =
     [(''rax'', ss_rax r), (''rbx'', ss_rbx r), (''rcx'', ss_rcx r), (''rdx'', ss_rdx r), (''rdi'', ss_rdi r),
      (''rsi'', ss_rsi r), (''rbp'', ss_rbp r), (''rsp'', ss_rsp r), (''r8'', ss_r8 r), (''r9'', ss_r9 r),
      (''r10'', ss_r10 r), (''r11'', ss_r11 r), (''r12'', ss_r12 r), (''r13'', ss_r13 r), (''r14'', ss_r14 r),
      (''r15'', ss_r15 r), (''rip'', ss_rip r), (''rflags'', other r ''rflags''), (''cs'', other r ''cs''),
      (''fs'', other r ''fs''), (''gs'', other r ''gs'')]"

definition arm64_x_names :: "string list" where
  "arm64_x_names =
     [''x0'', ''x1'', ''x2'', ''x3'', ''x4'', ''x5'', ''x6'', ''x7'', ''x8'', ''x9'', ''x10'', ''x11'', ''x12'', ''x13'', ''x14'',
      ''x15'', ''x16'', ''x17'', ''x18'', ''x19'', ''x20'', ''x21'', ''x22'', ''x23'', ''x24'', ''x25'', ''x26'', ''x27'', ''x28'']"

definition arm64_dump :: "'r arm64_sdk \<Rightarrow> ('r \<Rightarrow> u64) \<Rightarrow> 'r \<Rightarrow> (string \<times> u64) list" where
  "arm64_dump S cpsr r =
     map (\<lambda>(name, i). (name, sdk_x S r i)) (zip arm64_x_names [0..<29]) @
     [(''fp'', arm_thread_state64_get_fp S r), (''sp'', arm_thread_state64_get_sp S r),
      (''lr'', arm_thread_state64_get_lr S r), (''pc'', arm_thread_state64_get_pc S r), (''cpsr'', cpsr r)]"

definition FIRCLSProcessRecordThreadRegisters :: "'r process_env \<Rightarrow> 'r \<Rightarrow> file_op" where
  "FIRCLSProcessRecordThreadRegisters E context =
     write_each (\<lambda>(name, v). FIRCLSFileWriteHashEntryUint64 (pe_kernel E) (chars name) v) (pe_dump E context)"

fun write_stacktrace ::
  "'r process_env \<Rightarrow> nat \<Rightarrow> 'r FIRCLSUnwindContext \<Rightarrow> u64 \<Rightarrow> u32 \<Rightarrow> file_state \<Rightarrow> (u64 \<times> u32 \<times> file_state) option" where
  "write_stacktrace E 0 context repeatedPC repeatedPCCount s = None"
| "write_stacktrace E (Suc fuel) context repeatedPC repeatedPCCount s = do {
     (context, ok) \<leftarrow> FIRCLSUnwindNextFrame (pe_unwind E) context;
     if \<not> ok then Some (repeatedPC, repeatedPCCount, s)
     else
       let pc = FIRCLSUnwindGetPC (pe_unwind E) context; frameCount = FIRCLSUnwindGetFrameRepeatCount context in
       if repeatedPC = pc \<and> repeatedPC \<noteq> 0 then write_stacktrace E fuel context repeatedPC frameCount s
       else if FIRCLSUnwindInfiniteRecursionCountThreshold \<le> frameCount \<and> repeatedPC = 0
       then write_stacktrace E fuel context pc repeatedPCCount s
       else do {
         s \<leftarrow> FIRCLSFileWriteArrayEntryUint64 (pe_kernel E) pc s;
         write_stacktrace E fuel context repeatedPC repeatedPCCount s } }"

definition write_thread :: "'r process_env \<Rightarrow> 'r FIRCLSProcess \<Rightarrow> u32 \<Rightarrow> 'r \<Rightarrow> file_op" where
  "write_thread E process thread context s = (let K = pe_kernel E in do {
     s \<leftarrow> FIRCLSFileWriteHashStart K s;
     s \<leftarrow> with_key K (chars ''registers'') (in_hash K (FIRCLSProcessRecordThreadRegisters E context)) s;
     s \<leftarrow> FIRCLSFileWriteHashKey K (chars ''stacktrace'') s;
     s \<leftarrow> FIRCLSFileWriteArrayStart K s;
     (repeatedPC, repeatedPCCount, s) \<leftarrow>
       write_stacktrace E (unat (env_max_frames (pe_unwind E)) + 1) (FIRCLSUnwindInit context) 0 0 s;
     s \<leftarrow> FIRCLSFileWriteArrayEnd K s;
     s \<leftarrow> (if FIRCLSProcessIsCrashedThread process thread
          then FIRCLSFileWriteHashEntryBoolean K (chars ''crashed'') True s else Some s);
     s \<leftarrow> (if repeatedPC \<noteq> 0 then do {
             s \<leftarrow> FIRCLSFileWriteHashEntryUint64 K (chars ''repeated_pc'') repeatedPC s;
             FIRCLSFileWriteHashEntryUint64 K (chars ''repeat_count'') (ucast repeatedPCCount) s }
          else Some s);
     FIRCLSFileWriteHashEnd K s })"

definition FIRCLSProcessRecordThread ::
  "'r process_env \<Rightarrow> 'r FIRCLSProcess \<Rightarrow> u32 \<Rightarrow> file_state \<Rightarrow> (file_state \<times> bool) option" where
  "FIRCLSProcessRecordThread E process thread s =
     (case FIRCLSProcessGetThreadState E process thread of
        None \<Rightarrow> Some (s, False)
      | Some context \<Rightarrow> do { s \<leftarrow> write_thread E process thread context s; Some (s, True) })"

fun record_threads :: "'r process_env \<Rightarrow> 'r FIRCLSProcess \<Rightarrow> u32 list \<Rightarrow> file_state \<Rightarrow> (file_state \<times> bool) option" where
  "record_threads E process [] s = Some (s, True)"
| "record_threads E process (thread # threads) s = do {
     (s, ok) \<leftarrow> FIRCLSProcessRecordThread E process thread s;
     if ok then record_threads E process threads s else Some (s, False) }"

definition FIRCLSProcessRecordAllThreads :: "'r process_env \<Rightarrow> 'r FIRCLSProcess \<Rightarrow> file_state \<Rightarrow> (file_state \<times> bool) option" where
  "FIRCLSProcessRecordAllThreads E process s = (let K = pe_kernel E in do {
     s \<leftarrow> FIRCLSFileWriteSectionStart K (chars ''threads'') s;
     s \<leftarrow> FIRCLSFileWriteArrayStart K s;
     (s, ok) \<leftarrow> record_threads E process (pr_threads process) s;
     s \<leftarrow> FIRCLSFileWriteArrayEnd K s;
     s \<leftarrow> FIRCLSFileWriteSectionEnd K s;
     Some (s, ok) })"

subsection \<open>Names\<close>

text \<open>The buffer for a thread's name is terminated at its start, so that a name that cannot be read is empty.\<close>

definition FIRCLSProcessRecordThreadNames :: "'r process_env \<Rightarrow> 'r FIRCLSProcess \<Rightarrow> file_op" where
  "FIRCLSProcessRecordThreadNames E process =
     (let K = pe_kernel E in
      in_section K (chars ''thread_names'') (in_array K
        (write_each (\<lambda>thread. FIRCLSFileWriteArrayEntryString K (Some (pe_thread_name E thread))) (pr_threads process))))"

text \<open>The label of the queue a thread runs on, as far as it can be read; null when the kernel has none.\<close>

definition FIRCLSProcessGetThreadDispatchQueueName :: "'r process_env \<Rightarrow> mem \<Rightarrow> u32 \<Rightarrow> u8 list option option" where
  "FIRCLSProcessGetThreadDispatchQueueName E m thread =
     (case pe_queue E thread of
        None \<Rightarrow> Some None
      | Some queueAddress \<Rightarrow>
          if queueAddress = 0 then Some (Some [])
          else case FIRCLSReadMemory_word m queueAddress of
            None \<Rightarrow> Some (Some [])
          | Some queue \<Rightarrow>
              if queue = 0 then Some (Some [])
              else if \<not> FIRCLSReadString m (pe_label E queue) 128 then Some (Some [])
              else map_option Some (c_string m (pe_label E queue)))"

definition FIRCLSProcessRecordDispatchQueueNames :: "'r process_env \<Rightarrow> 'r FIRCLSProcess \<Rightarrow> mem \<Rightarrow> file_op" where
  "FIRCLSProcessRecordDispatchQueueNames E process m =
     (let K = pe_kernel E in
      in_section K (chars ''dispatch_queue_names'') (in_array K
        (write_each (\<lambda>thread s. do {
           name \<leftarrow> FIRCLSProcessGetThreadDispatchQueueName E m thread;
           FIRCLSFileWriteArrayEntryString K name s }) (pr_threads process))))"

subsection \<open>Statistics\<close>

definition FIRCLSProcessGetMemoryUsage :: "'r process_env \<Rightarrow> (u64 \<times> u64 \<times> u64 \<times> u64) option" where
  "FIRCLSProcessGetMemoryUsage E =
     map_option (\<lambda>v. (ucast (vm_active v) * pe_page_size E, ucast (vm_inactive v) * pe_page_size E,
       ucast (vm_wire v) * pe_page_size E, ucast (vm_free v) * pe_page_size E)) (pe_vm E)"

definition FIRCLSProcessGetInfo :: "'r process_env \<Rightarrow> (u64 \<times> u64 \<times> (u32 \<times> u32) \<times> (u32 \<times> u32)) option" where
  "FIRCLSProcessGetInfo E =
     map_option (\<lambda>t. (tk_virtual_size t, tk_resident_size t, tk_user t, tk_system t)) (pe_task E)"

text \<open>The seconds are an \<open>int\<close>, and so are the products; the sum is converted to 64 bits.\<close>

definition int_value :: "int \<Rightarrow> u32 option" where
  "int_value i = (if - (2 ^ 31) \<le> i \<and> i < 2 ^ 31 then Some (word_of_int i) else None)"

definition time_in_us :: "u32 \<times> u32 \<Rightarrow> u64 option" where
  "time_in_us t = do {
     a \<leftarrow> int_value (sint (fst t) * 1000);
     b \<leftarrow> int_value (sint a * 1000);
     c \<leftarrow> int_value (sint b + sint (snd t));
     Some (scast c) }"

definition FIRCLSProcessRecordStats :: "'r process_env \<Rightarrow> file_op" where
  "FIRCLSProcessRecordStats E s =
     (let K = pe_kernel E; uint = (\<lambda>name. FIRCLSFileWriteHashEntryUint64 K (chars name)) in
      case FIRCLSProcessGetMemoryUsage E of
        None \<Rightarrow> Some s
      | Some (active, inactive, wired, freeMem) \<Rightarrow>
          (case FIRCLSProcessGetInfo E of
             None \<Rightarrow> Some s
           | Some (virtualSize, residentSize, userTime, systemTime) \<Rightarrow>
               in_section K (chars ''process_stats'') (in_hash K (\<lambda>s. do {
                 s \<leftarrow> uint ''active'' active s;
                 s \<leftarrow> uint ''inactive'' inactive s;
                 s \<leftarrow> uint ''wired'' wired s;
                 s \<leftarrow> uint ''freeMem'' freeMem s;
                 s \<leftarrow> uint ''free_mem'' freeMem s;
                 s \<leftarrow> uint ''virtual'' virtualSize s;
                 s \<leftarrow> uint ''resident'' active s;
                 user \<leftarrow> time_in_us userTime;
                 s \<leftarrow> uint ''user_time'' user s;
                 system \<leftarrow> time_in_us systemTime;
                 uint ''sys_time'' system s })) s))"

definition FIRCLSHostWriteDiskUsage :: "'r process_env \<Rightarrow> file_op" where
  "FIRCLSHostWriteDiskUsage E =
     (let K = pe_kernel E in
      in_section K (chars ''storage'') (in_hash K (\<lambda>s.
        case pe_disk E of
          None \<Rightarrow> Some s
        | Some (bavail, blocks, bsize) \<Rightarrow> do {
            s \<leftarrow> FIRCLSFileWriteHashEntryUint64 K (chars ''free'') (bavail * bsize) s;
            FIRCLSFileWriteHashEntryUint64 K (chars ''total'') (blocks * bsize) s })))"

subsection \<open>The runtime\<close>

record objc_addresses =
  OBJC_MSG_SEND_START :: addr
  OBJC_MSG_SEND_SUPER_START :: addr
  OBJC_MSG_SEND_STRET_START :: addr
  OBJC_MSG_SEND_SUPER_STRET_START :: addr
  OBJC_MSG_SEND_FPRET_START :: addr

definition pc_in :: "addr \<Rightarrow> addr \<Rightarrow> bool" where
  "pc_in start pc \<longleftrightarrow> start \<le> pc \<and> pc \<le> start + 66"

text \<open>The register that holds the selector, when the thread is in \<open>objc_msgSend\<close>.\<close>

definition x86_64_selector :: "objc_addresses \<Rightarrow> x86_thread_state64 \<Rightarrow> addr" where
  "x86_64_selector objc r =
     (let pc = ss_rip r; sel = ss_rsi r; stret = ss_rdx r; p = 0;
          p = (if pc_in (OBJC_MSG_SEND_START objc) pc then sel else p);
          p = (if pc_in (OBJC_MSG_SEND_SUPER_START objc) pc then sel else p);
          p = (if pc_in (OBJC_MSG_SEND_STRET_START objc) pc then stret else p);
          p = (if pc_in (OBJC_MSG_SEND_SUPER_STRET_START objc) pc then stret else p)
      in if pc_in (OBJC_MSG_SEND_FPRET_START objc) pc then sel else p)"

definition arm64_selector :: "objc_addresses \<Rightarrow> 'r arm64_sdk \<Rightarrow> 'r \<Rightarrow> addr" where
  "arm64_selector objc S r = (if pc_in (OBJC_MSG_SEND_START objc) (arm_thread_state64_get_pc S r) then sdk_x S r 1 else 0)"

definition FIRCLSProcessGetObjCSelectorName :: "'r process_env \<Rightarrow> mem \<Rightarrow> 'r \<Rightarrow> u8 list option" where
  "FIRCLSProcessGetObjCSelectorName E m mcontext =
     (let p = pe_selector E mcontext in
      if p = 0 then Some [] else if \<not> FIRCLSReadString m p 128 then Some [] else c_string m p)"

text \<open>One node of the image table: its \<open>crash_info_t\<close> has the version at 0 and the message at 8, and is 56 bytes.\<close>

definition record_crash_info :: "write_call \<Rightarrow> addr \<Rightarrow> mem \<times> file_state \<Rightarrow> (mem \<times> file_state) option" where
  "record_crash_info K crashInfo st =
     (let (m, s) = st in
      if crashInfo = 0 then Some st
      else case FIRCLSReadMemory m crashInfo 56 of
        None \<Rightarrow> Some st
      | Some info \<Rightarrow>
          let version = (word_of_le (take 4 info) :: u32); message = (word_of_le (take 8 (drop 8 info)) :: addr) in
          if 5 < version then Some st
          else if message = 0 then Some st
          else if \<not> FIRCLSReadString m message 256 then Some st
          else do {
            m \<leftarrow> FIRCLSRedactUUID m message;
            string \<leftarrow> c_string m message;
            s \<leftarrow> FIRCLSFileWriteArrayEntryHexEncodedString K (Some string) s;
            Some (m, s) })"

definition FIRCLSProcessRecordCrashInfo :: "'r process_env \<Rightarrow> mem \<times> file_state \<Rightarrow> (mem \<times> file_state) option" where
  "FIRCLSProcessRecordCrashInfo E = write_each (record_crash_info (pe_kernel E)) (pe_crash_infos E)"

text \<open>Without a state of the crashed thread the context is read uninitialised.\<close>

definition FIRCLSProcessRecordRuntimeInfo ::
  "'r process_env \<Rightarrow> 'r FIRCLSProcess \<Rightarrow> mem \<times> file_state \<Rightarrow> (mem \<times> file_state) option" where
  "FIRCLSProcessRecordRuntimeInfo E process st = (let K = pe_kernel E; (m, s) = st in do {
     s \<leftarrow> FIRCLSFileWriteSectionStart K (chars ''runtime'') s;
     s \<leftarrow> FIRCLSFileWriteHashStart K s;
     mcontext \<leftarrow> FIRCLSProcessGetThreadState E process (pr_crashedThread process);
     selector \<leftarrow> FIRCLSProcessGetObjCSelectorName E m mcontext;
     s \<leftarrow> FIRCLSFileWriteHashEntryString K (chars ''objc_selector'') (Some selector) s;
     s \<leftarrow> FIRCLSFileWriteHashKey K (chars ''crash_info_entries'') s;
     s \<leftarrow> FIRCLSFileWriteArrayStart K s;
     (m, s) \<leftarrow> FIRCLSProcessRecordCrashInfo E (m, s);
     s \<leftarrow> FIRCLSFileWriteArrayEnd K s;
     s \<leftarrow> FIRCLSFileWriteHashEnd K s;
     s \<leftarrow> FIRCLSFileWriteSectionEnd K s;
     Some (m, s) })"

subsection \<open>The handler\<close>

text \<open>The order of a crash handler.  \<open>marker\<close> is the file that tells of the crash at the next start, which is opened
  and closed; the threads that were suspended and resumed are part of the result.\<close>

definition FIRCLSCreateCrashedMarkerFile :: "write_call \<Rightarrow> (string \<Rightarrow> bool \<Rightarrow> u32) \<Rightarrow> (u32 \<Rightarrow> u64) \<Rightarrow> (u32 \<Rightarrow> bool) \<Rightarrow> string \<Rightarrow> file_world \<Rightarrow> file_world option" where
  "FIRCLSCreateCrashedMarkerFile K open_file fstat close_ok path w =
     (case FIRCLSFileInitWithPath None fstat open_file (Some zero_file) (Some path) False of
        (Some file, True) \<Rightarrow> do { (file, w, ok) \<leftarrow> FIRCLSFileClose K close_ok (Some file) w; Some w }
      | _ \<Rightarrow> Some w)"

definition FIRCLSHandler ::
  "'r process_env \<Rightarrow> (file_world \<Rightarrow> file_world option) \<Rightarrow> u32 \<Rightarrow> 'r option \<Rightarrow> mem \<times> file_state \<Rightarrow>
   (mem \<times> file_state \<times> u32 list \<times> u32 list) option" where
  "FIRCLSHandler E marker crashedThread uapVoid st = (let
     (m, s) = st;
     process = fst (FIRCLSProcessInit E crashedThread uapVoid);
     suspended = fst (FIRCLSProcessSuspendAllOtherThreads E process) in do {
     (s, ok) \<leftarrow> FIRCLSProcessRecordAllThreads E process s;
     (m, s) \<leftarrow> FIRCLSProcessRecordRuntimeInfo E process (m, s);
     s \<leftarrow> FIRCLSProcessRecordDispatchQueueNames E process m s;
     s \<leftarrow> FIRCLSProcessRecordThreadNames E process s;
     s \<leftarrow> FIRCLSProcessRecordStats E s;
     s \<leftarrow> FIRCLSHostWriteDiskUsage E s;
     w \<leftarrow> marker (snd s);
     Some (m, (fst s, w), suspended, fst (FIRCLSProcessResumeAllOtherThreads E process)) })"

subsection \<open>What a thread is recorded as\<close>

definition num :: "u64 \<Rightarrow> json" where
  "num v = J_num (int (unat v))"

definition registers_json :: "(string \<times> u64) list \<Rightarrow> json" where
  "registers_json dump = J_obj (map (\<lambda>(name, v). (chars name, num v)) dump)"

definition thread_json :: "(string \<times> u64) list \<Rightarrow> stacktrace \<Rightarrow> bool \<Rightarrow> json" where
  "thread_json dump tr has_crashed = J_obj (
     [(chars ''registers'', registers_json dump), (chars ''stacktrace'', J_arr (map num (tr_pcs tr)))] @
     (if has_crashed then [(chars ''crashed'', J_bool True)] else []) @
     (if tr_repeatedPC tr \<noteq> 0
      then [(chars ''repeated_pc'', num (tr_repeatedPC tr)), (chars ''repeat_count'', num (ucast (tr_repeatedPCCount tr)))] else []))"

lemma stacktrace_written:
  assumes "stacktrace_loop (pe_unwind E) fuel c tr = Some tr'"
  shows "\<exists>ps. tr_pcs tr' = tr_pcs tr @ ps \<and>
    write_stacktrace E fuel c (tr_repeatedPC tr) (tr_repeatedPCCount tr) s =
      Option.bind (write_each (FIRCLSFileWriteArrayEntryUint64 (pe_kernel E)) ps s)
        (\<lambda>s. Some (tr_repeatedPC tr', tr_repeatedPCCount tr', s))"
  using assms
proof (induction fuel arbitrary: c tr s)
  case (Suc fuel)
  from Suc.prems obtain c' ok where c': "FIRCLSUnwindNextFrame (pe_unwind E) c = Some (c', ok)"
    by (auto simp: bind_Some_iff)
  show ?case
  proof (cases ok)
    case False
    with Suc.prems c' show ?thesis by auto
  next
    case True
    let ?pc = "FIRCLSUnwindGetPC (pe_unwind E) c'" and ?n = "FIRCLSUnwindGetFrameRepeatCount c'"
    let ?tr = "record_frame ?pc ?n tr"
    from Suc.prems c' True have loop: "stacktrace_loop (pe_unwind E) fuel c' ?tr = Some tr'" by simp
    note ih = Suc.IH [OF loop]
    consider "tr_repeatedPC tr = ?pc \<and> tr_repeatedPC tr \<noteq> 0"
      | "\<not> (tr_repeatedPC tr = ?pc \<and> tr_repeatedPC tr \<noteq> 0)" "FIRCLSUnwindInfiniteRecursionCountThreshold \<le> ?n \<and> tr_repeatedPC tr = 0"
      | "\<not> (tr_repeatedPC tr = ?pc \<and> tr_repeatedPC tr \<noteq> 0)" "\<not> (FIRCLSUnwindInfiniteRecursionCountThreshold \<le> ?n \<and> tr_repeatedPC tr = 0)"
      by blast
    then show ?thesis
    proof cases
      case 1
      then have "?tr = tr\<lparr>tr_repeatedPCCount := ?n\<rparr>" unfolding record_frame_def by (rule if_P)
      moreover from 1 have "tr_repeatedPC tr = ?pc" "?pc \<noteq> 0" by auto
      ultimately show ?thesis using ih [of s] c' True by (simp add: Let_def)
    next
      case 2
      then have "?tr = tr\<lparr>tr_repeatedPC := ?pc\<rparr>" unfolding record_frame_def by simp
      with ih [of s] 2 c' True show ?thesis by (auto simp add: Let_def)
    next
      case 3
      then have f: "?tr = tr\<lparr>tr_pcs := tr_pcs tr @ [?pc]\<rparr>" unfolding record_frame_def by (simp only: if_False)
      obtain ps where "tr_pcs tr' = tr_pcs ?tr @ ps" using ih [of s] by blast
      moreover from this have "write_stacktrace E fuel c' (tr_repeatedPC tr) (tr_repeatedPCCount tr) =
          (\<lambda>s. Option.bind (write_each (FIRCLSFileWriteArrayEntryUint64 (pe_kernel E)) ps s)
            (\<lambda>s. Some (tr_repeatedPC tr', tr_repeatedPCCount tr', s)))"
        using ih f by fastforce
      moreover have "write_stacktrace E (Suc fuel) c (tr_repeatedPC tr) (tr_repeatedPCCount tr) s =
          Option.bind (FIRCLSFileWriteArrayEntryUint64 (pe_kernel E) ?pc s)
            (write_stacktrace E fuel c' (tr_repeatedPC tr) (tr_repeatedPCCount tr))"
        using 3 c' True by (auto simp: Let_def)
      ultimately show ?thesis by (intro exI [of _ "?pc # ps"]) (simp add: f)
    qed
  qed
qed simp

lemma plain_names:
  "plain_bytes (chars ''registers'')" "plain_bytes (chars ''stacktrace'')" "plain_bytes (chars ''crashed'')"
  "plain_bytes (chars ''repeated_pc'')" "plain_bytes (chars ''repeat_count'')" "plain_bytes (chars ''threads'')"
  "plain_bytes (chars ''thread_names'')" "plain_bytes (chars ''dispatch_queue_names'')" "plain_bytes (chars ''process_stats'')"
  "plain_bytes (chars ''storage'')" "plain_bytes (chars ''runtime'')" "plain_bytes (chars ''objc_selector'')"
  "plain_bytes (chars ''crash_info_entries'')"
  by (simp_all add: plain_bytes_def chars_def)

text \<open>The strings and keys of a value are C strings.\<close>

primrec plain_json :: "json \<Rightarrow> bool" where
  "plain_json J_null = True"
| "plain_json (J_bool b) = True"
| "plain_json (J_num i) = True"
| "plain_json (J_str s) = plain_bytes s"
| "plain_json (J_arr js) = list_all id (map plain_json js)"
| "plain_json (J_obj es) = list_all (\<lambda>(k, b). plain_bytes k \<and> b) (map (map_prod id plain_json) es)"

definition plain_section :: "u8 list \<times> json \<Rightarrow> bool" where
  "plain_section s \<longleftrightarrow> plain_bytes (fst s) \<and> plain_json (snd s)"

definition named_dump :: "(string \<times> u64) list \<Rightarrow> bool" where
  "named_dump dump \<longleftrightarrow> list_all (\<lambda>(name, v). plain_bytes (chars name)) dump"

lemma plain_thread: "plain_json (thread_json dump tr b) \<Longrightarrow> named_dump dump"
  by (simp add: thread_json_def registers_json_def named_dump_def list_all_iff split_beta)

lemma registers_items:
  assumes "reliable (pe_kernel E)" "named_dump (pe_dump E c)"
  shows "items d (FIRCLSProcessRecordThreadRegisters E c) (map entry_text (map (\<lambda>(name, v). (chars name, num v)) (pe_dump E c)))"
proof -
  let ?f = "\<lambda>(name, v). FIRCLSFileWriteHashEntryUint64 (pe_kernel E) (chars name) v"
  have "items d (?f x) [entry_text (chars (fst x), num (snd x))]" if "x \<in> set (pe_dump E c)" for x
    using assms that hash_value_items(1) [of "pe_kernel E" "chars (fst x)"]
    by (force simp: named_dump_def list_all_iff num_def split_beta)
  from write_each_items [where f = ?f and xs = "pe_dump E c", OF this] show ?thesis
    by (simp add: FIRCLSProcessRecordThreadRegisters_def split_beta concat_map_singleton comp_def)
qed

lemma trace_items:
  "reliable K \<Longrightarrow> items d (write_each (FIRCLSFileWriteArrayEntryUint64 K) ps) (map json_text (map num ps))"
  using write_each_items [of ps d "FIRCLSFileWriteArrayEntryUint64 K" "\<lambda>v. [json_text (num v)]"] array_value_items(1)
  by (simp add: num_def concat_map_singleton comp_def)

definition thread_body :: "'r process_env \<Rightarrow> 'r \<Rightarrow> stacktrace \<Rightarrow> bool \<Rightarrow> file_op" where
  "thread_body E c tr has_crashed s = (let K = pe_kernel E in do {
     s \<leftarrow> with_key K (chars ''registers'') (in_hash K (FIRCLSProcessRecordThreadRegisters E c)) s;
     s \<leftarrow> with_key K (chars ''stacktrace'') (in_array K (write_each (FIRCLSFileWriteArrayEntryUint64 K) (tr_pcs tr))) s;
     s \<leftarrow> (if has_crashed then FIRCLSFileWriteHashEntryBoolean K (chars ''crashed'') True s else Some s);
     (if tr_repeatedPC tr \<noteq> 0 then do {
        s \<leftarrow> FIRCLSFileWriteHashEntryUint64 K (chars ''repeated_pc'') (tr_repeatedPC tr) s;
        FIRCLSFileWriteHashEntryUint64 K (chars ''repeat_count'') (ucast (tr_repeatedPCCount tr)) s }
      else Some s) })"

lemma items_if: "items d f (map entry_text es) \<Longrightarrow>
    items d (\<lambda>s. if b then f s else Some s) (map entry_text (if b then es else []))"
  using items_none [of d] by (cases b) simp_all

lemma write_thread_body:
  assumes "record_stacktrace (pe_unwind E) c = Some tr"
  shows "write_thread E process thread c =
    in_hash (pe_kernel E) (thread_body E c tr (FIRCLSProcessIsCrashedThread process thread))"
proof -
  have loop: "stacktrace_loop (pe_unwind E) (unat (env_max_frames (pe_unwind E)) + 1) (FIRCLSUnwindInit c)
      \<lparr> tr_pcs = [], tr_repeatedPC = 0, tr_repeatedPCCount = 0 \<rparr> = Some tr"
    using assms by (simp add: record_stacktrace_def)
  have "write_stacktrace E (unat (env_max_frames (pe_unwind E)) + 1) (FIRCLSUnwindInit c) 0 0 =
      (\<lambda>s. Option.bind (write_each (FIRCLSFileWriteArrayEntryUint64 (pe_kernel E)) (tr_pcs tr) s)
        (\<lambda>s. Some (tr_repeatedPC tr, tr_repeatedPCCount tr, s)))"
    using stacktrace_written [OF loop] by fastforce
  then show ?thesis
    unfolding write_thread_def in_hash_def thread_body_def Let_def
    by (intro ext) (simp add: with_key_def in_array_def Option.bind_assoc)
qed

lemma write_thread_items:
  assumes K: "reliable (pe_kernel E)" and tr: "record_stacktrace (pe_unwind E) c = Some tr" and n: "named_dump (pe_dump E c)"
    and d: "0 < d" "d + 2 < 2 ^ 31"
  shows "items d (write_thread E process thread c)
    [json_text (thread_json (pe_dump E c) tr (FIRCLSProcessIsCrashedThread process thread))]"
proof -
  let ?K = "pe_kernel E" and ?cr = "FIRCLSProcessIsCrashedThread process thread"
  have repeated: "items d (\<lambda>s. do {
        s \<leftarrow> FIRCLSFileWriteHashEntryUint64 ?K (chars ''repeated_pc'') v s;
        FIRCLSFileWriteHashEntryUint64 ?K (chars ''repeat_count'') n s })
      (map entry_text [(chars ''repeated_pc'', num v), (chars ''repeat_count'', num n)])" for d v n
    using items_bind [OF hash_value_items(1) [OF K plain_names(4)] hash_value_items(1) [OF K plain_names(5)]]
    by (simp add: num_def)
  have "Suc (Suc d) < 2 ^ 31" using d by simp
  then have "items (Suc d) (with_key ?K (chars ''registers'') (in_hash ?K (FIRCLSProcessRecordThreadRegisters E c)))
      [entry_text (chars ''registers'', registers_json (pe_dump E c))]"
    "items (Suc d) (with_key ?K (chars ''stacktrace'') (in_array ?K (write_each (FIRCLSFileWriteArrayEntryUint64 ?K) (tr_pcs tr))))
      [entry_text (chars ''stacktrace'', J_arr (map num (tr_pcs tr)))]"
    unfolding registers_json_def
    by (intro with_key_items in_hash_items in_array_items K plain_names registers_items n trace_items; simp)+
  moreover have "items (Suc d) (\<lambda>s. if ?cr then FIRCLSFileWriteHashEntryBoolean ?K (chars ''crashed'') True s else Some s)
      (map entry_text (if ?cr then [(chars ''crashed'', J_bool True)] else []))"
    using hash_value_items(5) [OF K plain_names(3)] by (intro items_if) simp
  moreover have "items (Suc d) (\<lambda>s. if tr_repeatedPC tr \<noteq> 0 then do {
        s \<leftarrow> FIRCLSFileWriteHashEntryUint64 ?K (chars ''repeated_pc'') (tr_repeatedPC tr) s;
        FIRCLSFileWriteHashEntryUint64 ?K (chars ''repeat_count'') (ucast (tr_repeatedPCCount tr)) s } else Some s)
      (map entry_text (if tr_repeatedPC tr \<noteq> 0
        then [(chars ''repeated_pc'', num (tr_repeatedPC tr)), (chars ''repeat_count'', num (ucast (tr_repeatedPCCount tr)))] else []))"
    by (intro items_if repeated)
  ultimately have "items (Suc d) (thread_body E c tr ?cr) ([entry_text (chars ''registers'', registers_json (pe_dump E c))] @
      [entry_text (chars ''stacktrace'', J_arr (map num (tr_pcs tr)))] @
      map entry_text (if ?cr then [(chars ''crashed'', J_bool True)] else []) @
      map entry_text (if tr_repeatedPC tr \<noteq> 0
        then [(chars ''repeated_pc'', num (tr_repeatedPC tr)), (chars ''repeat_count'', num (ucast (tr_repeatedPCCount tr)))] else []))"
    unfolding thread_body_def [abs_def] Let_def by (intro items_bind)
  then show ?thesis
    unfolding write_thread_body [OF tr] thread_json_def using K d by (intro in_hash_items) simp_all
qed

subsection \<open>The sections\<close>

text \<open>The threads up to the first whose state cannot be read.\<close>

definition recorded_threads :: "'r process_env \<Rightarrow> 'r FIRCLSProcess \<Rightarrow> u32 list" where
  "recorded_threads E process = takeWhile (\<lambda>t. FIRCLSProcessGetThreadState E process t \<noteq> None) (pr_threads process)"

definition thread_json_of :: "'r process_env \<Rightarrow> 'r FIRCLSProcess \<Rightarrow> u32 \<Rightarrow> json option" where
  "thread_json_of E process thread = do {
     c \<leftarrow> FIRCLSProcessGetThreadState E process thread;
     tr \<leftarrow> record_stacktrace (pe_unwind E) c;
     Some (thread_json (pe_dump E c) tr (FIRCLSProcessIsCrashedThread process thread)) }"

lemma record_threads_each:
  "record_threads E process ts s =
     Option.bind (write_each (\<lambda>t. write_thread E process t (the (FIRCLSProcessGetThreadState E process t)))
         (takeWhile (\<lambda>t. FIRCLSProcessGetThreadState E process t \<noteq> None) ts) s)
       (\<lambda>s. Some (s, list_all (\<lambda>t. FIRCLSProcessGetThreadState E process t \<noteq> None) ts))"
proof (induction ts arbitrary: s)
  case (Cons t ts)
  then have ih: "record_threads E process ts = (\<lambda>s. Option.bind (write_each (\<lambda>t. write_thread E process t (the (FIRCLSProcessGetThreadState E process t)))
         (takeWhile (\<lambda>t. FIRCLSProcessGetThreadState E process t \<noteq> None) ts) s)
       (\<lambda>s. Some (s, list_all (\<lambda>t. FIRCLSProcessGetThreadState E process t \<noteq> None) ts)))" by (intro ext)
  show ?case
    by (cases "FIRCLSProcessGetThreadState E process t") (simp_all add: FIRCLSProcessRecordThread_def ih Option.bind_assoc)
qed simp

lemma those_map: "those (map f xs) = Some ys \<Longrightarrow> ys = map (\<lambda>x. the (f x)) xs \<and> (\<forall>x \<in> set xs. f x \<noteq> None)"
  by (induction xs arbitrary: ys) (auto split: option.splits)

lemma threads_section:
  assumes K: "reliable (pe_kernel E)" and n: "plain_json (J_arr js)"
    and js: "those (map (thread_json_of E process) (recorded_threads E process)) = Some js"
  shows "\<exists>f. FIRCLSProcessRecordAllThreads E process =
      (\<lambda>s. Option.bind (f s) (\<lambda>s. Some (s, list_all (\<lambda>t. FIRCLSProcessGetThreadState E process t \<noteq> None) (pr_threads process)))) \<and>
    emits f (0, False) (section_text (chars ''threads'') (J_arr js)) (0, False)"
proof (intro exI conjI)
  let ?K = "pe_kernel E" and ?ts = "recorded_threads E process"
  let ?each = "write_each (\<lambda>t. write_thread E process t (the (FIRCLSProcessGetThreadState E process t))) ?ts"
  note js' = those_map [OF js]
  have "items 2 (write_thread E process t (the (FIRCLSProcessGetThreadState E process t))) [json_text (the (thread_json_of E process t))]"
    if "t \<in> set ?ts" for t
  proof -
    from js' that have "thread_json_of E process t \<noteq> None" by blast
    then obtain c tr where c: "FIRCLSProcessGetThreadState E process t = Some c" "record_stacktrace (pe_unwind E) c = Some tr"
      unfolding thread_json_of_def by (auto simp: bind_Some_iff)
    from js' that have "the (thread_json_of E process t) \<in> set js" by simp
    with n c have "named_dump (pe_dump E c)" by (auto simp: list_all_iff thread_json_of_def intro: plain_thread)
    with write_thread_items [OF K c(2), of 2] c show ?thesis by (simp add: thread_json_of_def)
  qed
  from write_each_items [where f = "\<lambda>t. write_thread E process t (the (FIRCLSProcessGetThreadState E process t))", OF this]
  have "items (Suc 1) ?each (map json_text js)"
    using js' by (simp add: concat_map_singleton comp_def numeral_2_eq_2)
  then have "items 1 (in_array ?K ?each) [json_text (J_arr js)]" using K by (intro in_array_items) simp_all
  then show "emits (in_section ?K (chars ''threads'') (in_array ?K ?each)) (0, False) (section_text (chars ''threads'') (J_arr js)) (0, False)"
    by (intro section_emits K plain_names)
  show "FIRCLSProcessRecordAllThreads E process = (\<lambda>s. Option.bind (in_section ?K (chars ''threads'') (in_array ?K ?each) s)
      (\<lambda>s. Some (s, list_all (\<lambda>t. FIRCLSProcessGetThreadState E process t \<noteq> None) (pr_threads process))))"
    by (simp add: FIRCLSProcessRecordAllThreads_def record_threads_each recorded_threads_def in_section_def in_array_def
        Option.bind_assoc Let_def fun_eq_iff)
qed

lemma thread_names_section:
  assumes K: "reliable (pe_kernel E)" and n: "list_all (\<lambda>t. plain_bytes (pe_thread_name E t)) (pr_threads process)"
  shows "emits (FIRCLSProcessRecordThreadNames E process) (0, False)
    (section_text (chars ''thread_names'') (J_arr (map (\<lambda>t. J_str (pe_thread_name E t)) (pr_threads process)))) (0, False)"
proof -
  let ?K = "pe_kernel E"
  have "items 2 (FIRCLSFileWriteArrayEntryString ?K (Some (pe_thread_name E t))) [json_text (J_str (pe_thread_name E t))]"
    if "t \<in> set (pr_threads process)" for t
    using array_value_items(2) [OF K, of "Some (pe_thread_name E t)" 2] n that by (simp add: list_all_iff string_json_def)
  from write_each_items [where f = "\<lambda>t. FIRCLSFileWriteArrayEntryString ?K (Some (pe_thread_name E t))", OF this]
  have "items (Suc 1) (write_each (\<lambda>t. FIRCLSFileWriteArrayEntryString ?K (Some (pe_thread_name E t))) (pr_threads process))
      (map json_text (map (\<lambda>t. J_str (pe_thread_name E t)) (pr_threads process)))"
    by (simp add: concat_map_singleton comp_def numeral_2_eq_2)
  then show ?thesis
    unfolding FIRCLSProcessRecordThreadNames_def Let_def using K by (intro section_emits in_array_items plain_names) simp_all
qed

lemma queue_names_section:
  assumes K: "reliable (pe_kernel E)"
    and q: "those (map (FIRCLSProcessGetThreadDispatchQueueName E m) (pr_threads process)) = Some names"
    and n: "\<And>name. Some name \<in> set names \<Longrightarrow> plain_bytes name"
  shows "emits (FIRCLSProcessRecordDispatchQueueNames E process m) (0, False)
    (section_text (chars ''dispatch_queue_names'') (J_arr (map string_json names))) (0, False)"
proof -
  let ?K = "pe_kernel E"
  let ?f = "\<lambda>thread s. Option.bind (FIRCLSProcessGetThreadDispatchQueueName E m thread) (\<lambda>name. FIRCLSFileWriteArrayEntryString ?K name s)"
  note q' = those_map [OF q]
  have "items 2 (?f t) [json_text (string_json (the (FIRCLSProcessGetThreadDispatchQueueName E m t)))]"
    if "t \<in> set (pr_threads process)" for t
  proof -
    from q' that obtain name where name: "FIRCLSProcessGetThreadDispatchQueueName E m t = Some name" "name \<in> set names" by force
    have "items 2 (FIRCLSFileWriteArrayEntryString ?K name) [json_text (string_json name)]"
      using n name(2) by (intro array_value_items(2) K) blast
    with name(1) show ?thesis by simp
  qed
  from write_each_items [where f = ?f, OF this]
  have "items (Suc 1) (write_each ?f (pr_threads process)) (map json_text (map string_json names))"
    using q' by (simp add: concat_map_singleton comp_def numeral_2_eq_2)
  then show ?thesis
    unfolding FIRCLSProcessRecordDispatchQueueNames_def Let_def using K by (intro section_emits in_array_items plain_names) simp_all
qed

lemma uint_items:
  assumes "reliable K" "plain_bytes (chars name)"
  shows "items d (FIRCLSFileWriteHashEntryUint64 K (chars name) v) (map entry_text [(chars name, num v)])"
  using hash_value_items(1) [OF assms, of d v] by (simp add: num_def)

lemma items_bind_map:
  assumes "items d f (map g a)" "items d h (map g b)"
  shows "items d (\<lambda>s. Option.bind (f s) h) (map g (a @ b))"
  using items_bind [OF assms] by simp

definition stats_sections :: "'r process_env \<Rightarrow> (u8 list \<times> json) list option" where
  "stats_sections E =
     (case FIRCLSProcessGetMemoryUsage E of
        None \<Rightarrow> Some []
      | Some (active, inactive, wired, freeMem) \<Rightarrow>
          (case FIRCLSProcessGetInfo E of
             None \<Rightarrow> Some []
           | Some (virtualSize, residentSize, userTime, systemTime) \<Rightarrow> do {
               user \<leftarrow> time_in_us userTime;
               system \<leftarrow> time_in_us systemTime;
               Some [(chars ''process_stats'', J_obj
                 [(chars ''active'', num active), (chars ''inactive'', num inactive), (chars ''wired'', num wired),
                  (chars ''freeMem'', num freeMem), (chars ''free_mem'', num freeMem), (chars ''virtual'', num virtualSize),
                  (chars ''resident'', num active), (chars ''user_time'', num user), (chars ''sys_time'', num system)])] }))"

definition sections_text :: "(u8 list \<times> json) list \<Rightarrow> u8 list" where
  "sections_text ss = concat (map (\<lambda>(name, j). section_text name j) ss)"

lemma stats_emits:
  assumes K: "reliable (pe_kernel E)" and st: "stats_sections E = Some ss"
  shows "emits (FIRCLSProcessRecordStats E) (0, False) (sections_text ss) (0, False)"
proof -
  let ?K = "pe_kernel E"
  have none: "emits Some (0, False) (sections_text []) (0, False)" using emits_Some by (simp add: sections_text_def)
  show ?thesis
  proof (cases "FIRCLSProcessGetMemoryUsage E")
    case None
    with st none show ?thesis by (simp add: stats_sections_def FIRCLSProcessRecordStats_def [abs_def] Let_def)
  next
    case (Some u)
    obtain active inactive wired freeMem where u: "u = (active, inactive, wired, freeMem)" by (cases u)
    show ?thesis
    proof (cases "FIRCLSProcessGetInfo E")
      case None
      with st none Some u show ?thesis by (simp add: stats_sections_def FIRCLSProcessRecordStats_def [abs_def] Let_def)
    next
      case info: (Some i)
      obtain virtualSize residentSize userTime systemTime where i: "i = (virtualSize, residentSize, userTime, systemTime)"
        by (cases i)
      from st Some u info i obtain user system where us: "time_in_us userTime = Some user" "time_in_us systemTime = Some system"
        by (auto simp: stats_sections_def bind_Some_iff)
      let ?uint = "\<lambda>name. FIRCLSFileWriteHashEntryUint64 ?K (chars name)"
      let ?body = "\<lambda>s. do { s \<leftarrow> ?uint ''active'' active s; s \<leftarrow> ?uint ''inactive'' inactive s; s \<leftarrow> ?uint ''wired'' wired s;
        s \<leftarrow> ?uint ''freeMem'' freeMem s; s \<leftarrow> ?uint ''free_mem'' freeMem s; s \<leftarrow> ?uint ''virtual'' virtualSize s;
        s \<leftarrow> ?uint ''resident'' active s; s \<leftarrow> ?uint ''user_time'' user s; ?uint ''sys_time'' system s }"
      have p: "plain_bytes (chars name)"
        if "name \<in> {''active'', ''inactive'', ''wired'', ''freeMem'', ''free_mem'', ''virtual'', ''resident'', ''user_time'', ''sys_time''}" for name
        using that by (auto simp: plain_bytes_def chars_def)
      have "items (Suc 1) ?body (map entry_text ([(chars ''active'', num active)] @ [(chars ''inactive'', num inactive)] @
        [(chars ''wired'', num wired)] @ [(chars ''freeMem'', num freeMem)] @ [(chars ''free_mem'', num freeMem)] @
        [(chars ''virtual'', num virtualSize)] @ [(chars ''resident'', num active)] @ [(chars ''user_time'', num user)] @
        [(chars ''sys_time'', num system)]))"
        by (intro items_bind_map uint_items K p) simp_all
      then have "emits (in_section ?K (chars ''process_stats'') (in_hash ?K ?body)) (0, False) (sections_text ss) (0, False)"
        using st Some u info i us section_emits [OF K plain_names(9) in_hash_items [OF K]]
        by (auto simp: stats_sections_def sections_text_def simp del: json_text.simps)
      moreover have "FIRCLSProcessRecordStats E = in_section ?K (chars ''process_stats'') (in_hash ?K ?body)"
        using Some u info i us by (simp add: FIRCLSProcessRecordStats_def [abs_def] Let_def)
      ultimately show ?thesis by simp
    qed
  qed
qed

definition storage_json :: "'r process_env \<Rightarrow> json" where
  "storage_json E = J_obj (case pe_disk E of None \<Rightarrow> []
     | Some (bavail, blocks, bsize) \<Rightarrow> [(chars ''free'', num (bavail * bsize)), (chars ''total'', num (blocks * bsize))])"

lemma storage_emits:
  assumes K: "reliable (pe_kernel E)"
  shows "emits (FIRCLSHostWriteDiskUsage E) (0, False) (section_text (chars ''storage'') (storage_json E)) (0, False)"
proof -
  let ?K = "pe_kernel E"
  have p: "plain_bytes (chars ''free'')" "plain_bytes (chars ''total'')" by (simp_all add: plain_bytes_def chars_def)
  have "items (Suc 1) (\<lambda>s. case pe_disk E of None \<Rightarrow> Some s
        | Some (bavail, blocks, bsize) \<Rightarrow> do {
            s \<leftarrow> FIRCLSFileWriteHashEntryUint64 ?K (chars ''free'') (bavail * bsize) s;
            FIRCLSFileWriteHashEntryUint64 ?K (chars ''total'') (blocks * bsize) s })
      (map entry_text (case pe_disk E of None \<Rightarrow> []
        | Some (bavail, blocks, bsize) \<Rightarrow> [(chars ''free'', num (bavail * bsize)), (chars ''total'', num (blocks * bsize))]))"
    using items_none items_bind_map [OF uint_items [OF K p(1)] uint_items [OF K p(2)]]
    by (cases "pe_disk E") (auto split: prod.split)
  from in_hash_items [OF K this] show ?thesis
    unfolding FIRCLSHostWriteDiskUsage_def Let_def storage_json_def by (intro section_emits K plain_names) simp_all
qed

text \<open>The strings of the crash information that is found, redacted, and the memory after that.\<close>

definition crash_string :: "mem \<Rightarrow> addr \<Rightarrow> (mem \<times> u8 list option) option" where
  "crash_string m crashInfo =
     (if crashInfo = 0 then Some (m, None)
      else case FIRCLSReadMemory m crashInfo 56 of
        None \<Rightarrow> Some (m, None)
      | Some info \<Rightarrow>
          let version = (word_of_le (take 4 info) :: u32); message = (word_of_le (take 8 (drop 8 info)) :: addr) in
          if 5 < version \<or> message = 0 \<or> \<not> FIRCLSReadString m message 256 then Some (m, None)
          else do {
            m \<leftarrow> FIRCLSRedactUUID m message;
            string \<leftarrow> c_string m message;
            Some (m, Some string) })"

fun crash_strings :: "addr list \<Rightarrow> mem \<Rightarrow> (mem \<times> u8 list list) option" where
  "crash_strings [] m = Some (m, [])"
| "crash_strings (a # as) m = do {
     (m, string) \<leftarrow> crash_string m a;
     (m, strings) \<leftarrow> crash_strings as m;
     Some (m, (case string of None \<Rightarrow> strings | Some s \<Rightarrow> s # strings)) }"

lemma crash_info_recorded:
  assumes "crash_strings as m = Some (m', strings)"
  shows "write_each (record_crash_info K) as (m, s) =
    Option.bind (write_each (\<lambda>t. FIRCLSFileWriteArrayEntryHexEncodedString K (Some t)) strings s) (\<lambda>s. Some (m', s))"
  using assms
proof (induction as arbitrary: m s strings)
  case (Cons a as)
  then obtain m1 string rest where a: "crash_string m a = Some (m1, string)" "crash_strings as m1 = Some (m', rest)"
    "strings = (case string of None \<Rightarrow> rest | Some s \<Rightarrow> s # rest)"
    by (auto simp: bind_Some_iff)
  have "record_crash_info K a (m, s) = (case string of None \<Rightarrow> Some (m1, s)
      | Some t \<Rightarrow> Option.bind (FIRCLSFileWriteArrayEntryHexEncodedString K (Some t) s) (\<lambda>s. Some (m1, s)))"
    using a(1) by (auto simp: crash_string_def record_crash_info_def Let_def bind_Some_iff split: option.splits if_splits)
  with Cons.IH [OF a(2)] a(3) show ?case by (cases string) (simp_all add: Option.bind_assoc)
qed simp

definition runtime_json :: "u8 list \<Rightarrow> u8 list list \<Rightarrow> json" where
  "runtime_json selector strings = J_obj
     [(chars ''objc_selector'', J_str selector), (chars ''crash_info_entries'', J_arr (map (\<lambda>t. J_str (hex_text t)) strings))]"

lemma runtime_section:
  assumes K: "reliable (pe_kernel E)" and c: "FIRCLSProcessGetThreadState E process (pr_crashedThread process) = Some c"
    and sel: "FIRCLSProcessGetObjCSelectorName E m c = Some selector" "plain_bytes selector"
    and cs: "crash_strings (pe_crash_infos E) m = Some (m', strings)"
  shows "\<exists>f. (\<forall>s. FIRCLSProcessRecordRuntimeInfo E process (m, s) = Option.bind (f s) (\<lambda>s. Some (m', s))) \<and>
    emits f (0, False) (section_text (chars ''runtime'') (runtime_json selector strings)) (0, False)"
proof (intro exI conjI allI)
  let ?K = "pe_kernel E"
  let ?each = "write_each (\<lambda>t. FIRCLSFileWriteArrayEntryHexEncodedString ?K (Some t)) strings"
  let ?body = "\<lambda>s. Option.bind (FIRCLSFileWriteHashEntryString ?K (chars ''objc_selector'') (Some selector) s)
    (with_key ?K (chars ''crash_info_entries'') (in_array ?K ?each))"
  have "items 3 (FIRCLSFileWriteArrayEntryHexEncodedString ?K (Some t)) [json_text (J_str (hex_text t))]" for t
    using array_value_items(3) [OF K, of 3 "Some t"] by (simp add: hex_json_def)
  from write_each_items [where f = "\<lambda>t. FIRCLSFileWriteArrayEntryHexEncodedString ?K (Some t)" and xs = strings, OF this]
  have "items (Suc 2) ?each (map json_text (map (\<lambda>t. J_str (hex_text t)) strings))"
    by (simp add: concat_map_singleton comp_def numeral_3_eq_3 numeral_2_eq_2)
  then have "items 2 (in_array ?K ?each) [json_text (J_arr (map (\<lambda>t. J_str (hex_text t)) strings))]"
    using K by (intro in_array_items) simp_all
  from with_key_items [OF K plain_names(13) this] hash_value_items(3) [OF K plain_names(12), of "Some selector" 2] sel(2)
  have "items 2 ?body (map entry_text ([(chars ''objc_selector'', J_str selector)] @
      [(chars ''crash_info_entries'', J_arr (map (\<lambda>t. J_str (hex_text t)) strings))]))"
    by (intro items_bind_map) (simp_all add: string_json_def)
  then have "items (Suc 1) ?body (map entry_text ([(chars ''objc_selector'', J_str selector)] @
      [(chars ''crash_info_entries'', J_arr (map (\<lambda>t. J_str (hex_text t)) strings))]))"
    by (simp only: Suc_1)
  from in_hash_items [OF K this] have "items 1 (in_hash ?K ?body) [json_text (runtime_json selector strings)]"
    unfolding runtime_json_def by simp
  then show "emits (in_section ?K (chars ''runtime'') (in_hash ?K ?body)) (0, False)
      (section_text (chars ''runtime'') (runtime_json selector strings)) (0, False)"
    by (intro section_emits K plain_names)
  fix s
  show "FIRCLSProcessRecordRuntimeInfo E process (m, s) =
      Option.bind (in_section ?K (chars ''runtime'') (in_hash ?K ?body) s) (\<lambda>s. Some (m', s))"
    using c sel(1)
    by (simp add: FIRCLSProcessRecordRuntimeInfo_def FIRCLSProcessRecordCrashInfo_def crash_info_recorded [OF cs]
        in_section_def in_hash_def with_key_def in_array_def Option.bind_assoc Let_def)
qed

subsection \<open>The report of a crash\<close>

text \<open>The sections, in their order, as far as everything they need can be read, and the memory in the end.\<close>

definition report_sections :: "'r process_env \<Rightarrow> 'r FIRCLSProcess \<Rightarrow> mem \<Rightarrow> (mem \<times> (u8 list \<times> json) list) option" where
  "report_sections E process m = do {
     threads \<leftarrow> those (map (thread_json_of E process) (recorded_threads E process));
     c \<leftarrow> FIRCLSProcessGetThreadState E process (pr_crashedThread process);
     selector \<leftarrow> FIRCLSProcessGetObjCSelectorName E m c;
     (m, strings) \<leftarrow> crash_strings (pe_crash_infos E) m;
     queues \<leftarrow> those (map (FIRCLSProcessGetThreadDispatchQueueName E m) (pr_threads process));
     stats \<leftarrow> stats_sections E;
     Some (m,
       [(chars ''threads'', J_arr threads), (chars ''runtime'', runtime_json selector strings),
        (chars ''dispatch_queue_names'', J_arr (map string_json queues)),
        (chars ''thread_names'', J_arr (map (\<lambda>t. J_str (pe_thread_name E t)) (pr_threads process)))] @
       stats @ [(chars ''storage'', storage_json E)]) }"

lemma sections_text_append [simp]: "sections_text (a @ b) = sections_text a @ sections_text b"
  by (simp add: sections_text_def)

lemma sections_text_simps [simp]: "sections_text [] = []" "sections_text ((name, j) # ss) = section_text name j @ sections_text ss"
  by (simp_all add: sections_text_def)

lemma handler_emits:
  assumes K: "reliable (pe_kernel E)" and p: "list_all plain_section ss"
    and r: "report_sections E (fst (FIRCLSProcessInit E crashedThread uapVoid)) m = Some (m', ss)"
    and s: "ready_file s (0, False)" and marker: "\<And>w. marker w = Some w"
  shows "\<exists>s' suspended resumed. FIRCLSHandler E marker crashedThread uapVoid (m, s) = Some (m', s', suspended, resumed) \<and>
    ready_file s' (0, False) \<and> file_text s' = file_text s @ sections_text ss \<and> same_file s s'"
proof -
  let ?P = "fst (FIRCLSProcessInit E crashedThread uapVoid)"
  from r obtain threads c selector strings queues stats where r':
    "those (map (thread_json_of E ?P) (recorded_threads E ?P)) = Some threads"
    "FIRCLSProcessGetThreadState E ?P (pr_crashedThread ?P) = Some c" "FIRCLSProcessGetObjCSelectorName E m c = Some selector"
    "crash_strings (pe_crash_infos E) m = Some (m', strings)"
    "those (map (FIRCLSProcessGetThreadDispatchQueueName E m') (pr_threads ?P)) = Some queues" "stats_sections E = Some stats"
    "ss = [(chars ''threads'', J_arr threads), (chars ''runtime'', runtime_json selector strings),
        (chars ''dispatch_queue_names'', J_arr (map string_json queues)),
        (chars ''thread_names'', J_arr (map (\<lambda>t. J_str (pe_thread_name E t)) (pr_threads ?P)))] @
       stats @ [(chars ''storage'', storage_json E)]"
    by (auto simp: report_sections_def bind_Some_iff)
  have n: "plain_json (J_arr threads)" and sel: "plain_bytes selector" and tn: "list_all (\<lambda>t. plain_bytes (pe_thread_name E t)) (pr_threads ?P)"
    and qj: "plain_json (J_arr (map string_json queues))"
    using p unfolding r'(7) by (simp_all add: plain_section_def runtime_json_def list_all_iff)
  have qn: "plain_bytes name" if "Some name \<in> set queues" for name
    using qj that by (force simp: list_all_iff string_json_def)
  from threads_section [OF K n r'(1)] obtain f1 ok where f1: "FIRCLSProcessRecordAllThreads E ?P = (\<lambda>s. Option.bind (f1 s) (\<lambda>s. Some (s, ok)))"
    "emits f1 (0, False) (section_text (chars ''threads'') (J_arr threads)) (0, False)" by metis
  from runtime_section [OF K r'(2,3) sel r'(4)] obtain f2 where f2:
    "\<forall>s. FIRCLSProcessRecordRuntimeInfo E ?P (m, s) = Option.bind (f2 s) (\<lambda>s. Some (m', s))"
    "emits f2 (0, False) (section_text (chars ''runtime'') (runtime_json selector strings)) (0, False)" by blast
  have q: "emits (FIRCLSProcessRecordDispatchQueueNames E ?P m') (0, False)
      (section_text (chars ''dispatch_queue_names'') (J_arr (map string_json queues))) (0, False)"
    using qn by (intro queue_names_section [OF K r'(5)])
  let ?all = "\<lambda>s. do { s \<leftarrow> f1 s; s \<leftarrow> f2 s; s \<leftarrow> FIRCLSProcessRecordDispatchQueueNames E ?P m' s;
      s \<leftarrow> FIRCLSProcessRecordThreadNames E ?P s; s \<leftarrow> FIRCLSProcessRecordStats E s; FIRCLSHostWriteDiskUsage E s }"
  have "emits ?all (0, False) (section_text (chars ''threads'') (J_arr threads) @
      section_text (chars ''runtime'') (runtime_json selector strings) @
      section_text (chars ''dispatch_queue_names'') (J_arr (map string_json queues)) @
      section_text (chars ''thread_names'') (J_arr (map (\<lambda>t. J_str (pe_thread_name E t)) (pr_threads ?P))) @
      sections_text stats @ section_text (chars ''storage'') (storage_json E)) (0, False)"
    by (rule emits_bind f1(2) f2(2) q thread_names_section [OF K tn] stats_emits [OF K r'(6)] storage_emits [OF K])+
  from emitsE [OF this s] obtain t where t: "?all s = Some t" "ready_file t (0, False)" "file_text t = file_text s @ sections_text ss" "same_file s t"
    unfolding r'(7) by auto
  have "FIRCLSHandler E marker crashedThread uapVoid (m, s) = Some (m', t,
      fst (FIRCLSProcessSuspendAllOtherThreads E ?P), fst (FIRCLSProcessResumeAllOtherThreads E ?P))"
    using t(1) marker f2(1) f1(1) by (cases t) (auto simp: FIRCLSHandler_def bind_Some_iff Let_def)
  with t show ?thesis by blast
qed

end
