(* ===== verification/CrashHandler.thy ===== *)
theory CrashHandler
  imports CrashReport
begin

section \<open>The crash handlers (FIRCLSSignal.c, FIRCLSMachException.c) and their log (FIRCLSInternalLogging.c)\<close>

text \<open>
  \<open>Handlers/FIRCLSSignal.c\<close>: the handlers of the fatal signals are installed, the ones before are kept, and are
  put back when a crash has been recorded.  \<open>Handlers/FIRCLSMachException.c\<close>: the same crash as a Mach exception.
  Both write a section and hand the file to \<open>FIRCLSHandler\<close>.  \<open>FIRCLSSDKFileLog\<close> of
  \<open>Helpers/FIRCLSInternalLogging.c\<close> formats the lines of the log.

  The numbers of the signals and of the exceptions are those of the target.  \<open>sigaction\<close> is a table of actions
  and the parameter \<open>sg_ok\<close>, which calls succeed; an action is the address of its function, 0 for the default.
  The ports of the task are a table as well, and \<open>mach_kernel\<close> tells which of the calls on it succeed.
  Messages are received and answered by the kernel: \<open>FIRCLSMachExceptionServer\<close>, its messages and its thread are
  left out, as are the names of the exceptions of i386 and x86-64.
\<close>

subsection \<open>Signals\<close>

type_synonym action = addr

record signal_table =
  sg_action :: "u32 \<Rightarrow> action"
  sg_blocked :: "u32 \<Rightarrow> bool"
  sg_ok :: "u32 \<Rightarrow> bool"
  sg_mask_ok :: bool

definition SIGILL :: u32 where "SIGILL = 4"
definition SIGTRAP :: u32 where "SIGTRAP = 5"
definition SIGABRT :: u32 where "SIGABRT = 6"
definition SIGFPE :: u32 where "SIGFPE = 8"
definition SIGBUS :: u32 where "SIGBUS = 10"
definition SIGSEGV :: u32 where "SIGSEGV = 11"
definition SIGSYS :: u32 where "SIGSYS = 12"

lemmas signals = SIGILL_def SIGTRAP_def SIGABRT_def SIGFPE_def SIGBUS_def SIGSEGV_def SIGSYS_def

definition FIRCLSFatalSignals :: "u32 list" where
  "FIRCLSFatalSignals = [SIGABRT, SIGBUS, SIGFPE, SIGILL, SIGSEGV, SIGSYS, SIGTRAP]"

definition sigaction :: "u32 \<Rightarrow> action \<Rightarrow> signal_table \<Rightarrow> signal_table \<times> bool" where
  "sigaction signal act t =
     (if sg_ok t signal then (t\<lparr>sg_action := (sg_action t)(signal := act)\<rparr>, True) else (t, False))"

definition sigprocmask_unblock :: "signal_table \<Rightarrow> signal_table" where
  "sigprocmask_unblock t = (if sg_mask_ok t then t\<lparr>sg_blocked := (\<lambda>_. False)\<rparr> else t)"

text \<open>The action before is kept, null when the call has failed or there was none.\<close>

fun install_handlers :: "action \<Rightarrow> u32 list \<Rightarrow> signal_table \<Rightarrow> action list \<times> signal_table" where
  "install_handlers handler [] t = ([], t)"
| "install_handlers handler (signal # signals) t =
     (let previous = (if sg_ok t signal then sg_action t signal else 0);
          t = fst (sigaction signal handler t);
          (originals, t) = install_handlers handler signals t
      in (previous # originals, t))"

definition FIRCLSSignalInstallHandlers :: "action \<Rightarrow> signal_table \<Rightarrow> action list \<times> signal_table" where
  "FIRCLSSignalInstallHandlers handler t = install_handlers handler FIRCLSFatalSignals t"

fun remove_handlers :: "bool \<Rightarrow> u32 list \<Rightarrow> signal_table \<Rightarrow> signal_table" where
  "remove_handlers includingAbort [] t = t"
| "remove_handlers includingAbort (signal # signals) t =
     (if \<not> includingAbort \<and> signal = SIGABRT then remove_handlers includingAbort signals t
      else remove_handlers includingAbort signals (fst (sigaction signal 0 t)))"

definition FIRCLSSignalSafeRemoveHandlers :: "bool \<Rightarrow> signal_table \<Rightarrow> signal_table" where
  "FIRCLSSignalSafeRemoveHandlers includingAbort t = remove_handlers includingAbort FIRCLSFatalSignals t"

fun reinstall_handlers :: "(u32 \<times> action) list \<Rightarrow> signal_table \<Rightarrow> bool \<Rightarrow> signal_table \<times> bool" where
  "reinstall_handlers [] t success = (t, success)"
| "reinstall_handlers ((signal, original) # rest) t success =
     (if original = 0 then reinstall_handlers rest t success
      else let (t, ok) = sigaction signal original t in reinstall_handlers rest t (success \<and> ok))"

text \<open>\<open>alt_stack\<close> is the answer of \<open>sigaltstack\<close> when there was another stack.\<close>

definition FIRCLSSignalSafeInstallPreexistingHandlers ::
  "bool option \<Rightarrow> action list \<Rightarrow> signal_table \<Rightarrow> signal_table \<times> bool" where
  "FIRCLSSignalSafeInstallPreexistingHandlers alt_stack originalActions t =
     (let t = FIRCLSSignalSafeRemoveHandlers True t in
      if alt_stack = Some False then (t, False)
      else reinstall_handlers (zip FIRCLSFatalSignals originalActions) t True)"

definition FIRCLSSignalNameLookup :: "u32 \<Rightarrow> u32 \<Rightarrow> string \<times> string option" where
  "FIRCLSSignalNameLookup number code =
     (if number = SIGABRT then (''SIGABRT'', Some ''ABORT'')
      else if number = SIGBUS then (''SIGBUS'', None)
      else if number = SIGFPE then (''SIGFPE'', None)
      else if number = SIGILL then (''SIGILL'', None)
      else if number = SIGSEGV then (''SIGSEGV'', None)
      else if number = SIGSYS then (''SIGSYS'', None)
      else if number = SIGTRAP then (''SIGTRAP'', None)
      else (''UNKNOWN'', None))"

subsection \<open>Recording a signal\<close>

record siginfo =
  si_signo :: u32
  si_code :: u32
  si_addr :: addr

record crash_context =
  cx_readonly :: bool
  cx_initialized :: bool
  cx_crashOccurred :: bool

definition FIRCLSContextMarkAndCheckIfCrashed :: "crash_context \<Rightarrow> crash_context \<times> bool" where
  "FIRCLSContextMarkAndCheckIfCrashed C =
     (if \<not> cx_initialized C then (C, False)
      else if cx_crashOccurred C then (C, True)
      else (C\<lparr>cx_crashOccurred := True\<rparr>, False))"

text \<open>An \<open>int\<close> that is passed as a \<open>uint64_t\<close> is sign extended.\<close>

definition write_signal :: "write_call \<Rightarrow> u32 \<Rightarrow> siginfo option \<Rightarrow> u64 \<Rightarrow> file_op" where
  "write_signal K savedErrno info now =
     (let uint = (\<lambda>name. FIRCLSFileWriteHashEntryUint64 K (chars name));
          text_of = (\<lambda>name v. FIRCLSFileWriteHashEntryString K (chars name) (map_option chars v)) in
      in_section K (chars ''signal'') (in_hash K (\<lambda>s. do {
        s \<leftarrow> (case info of None \<Rightarrow> Some s
             | Some i \<Rightarrow> do {
                 s \<leftarrow> uint ''number'' (scast (si_signo i)) s;
                 s \<leftarrow> uint ''code'' (scast (si_code i)) s;
                 s \<leftarrow> uint ''address'' (si_addr i) s;
                 let (name, codeName) = FIRCLSSignalNameLookup (si_signo i) (si_code i);
                 s \<leftarrow> text_of ''name'' (Some name) s;
                 text_of ''code_name'' codeName s });
        s \<leftarrow> uint ''errno'' (scast savedErrno) s;
        uint ''time'' now s })))"

text \<open>What a handler needs of its surroundings: the file of the report, the clock, the marker.\<close>

record 'r handler_env =
  he_process :: "'r process_env"
  he_open :: "string \<Rightarrow> bool \<Rightarrow> u32"
  he_fstat :: "u32 \<Rightarrow> u64"
  he_close :: "u32 \<Rightarrow> bool"
  he_time :: u64
  he_path :: string
  he_marker_path :: string

text \<open>A handler returns, or the process exits because it has crashed before.\<close>

datatype 'a handled = Returned 'a | Exited

definition record_crash ::
  "'r handler_env \<Rightarrow> (write_call \<Rightarrow> file_op) \<Rightarrow> u32 \<Rightarrow> 'r option \<Rightarrow> mem \<times> file_world \<Rightarrow> (mem \<times> file_world \<times> bool) option" where
  "record_crash H section thread uapVoid st =
     (let (m, w) = st; E = he_process H; K = pe_kernel E in
      case FIRCLSFileInitWithPath None (he_fstat H) (he_open H) (Some zero_file) (Some (he_path H)) False of
        (Some file, True) \<Rightarrow> do {
          s \<leftarrow> section K (file, w);
          (m, s, suspended, resumed) \<leftarrow>
            FIRCLSHandler E (FIRCLSCreateCrashedMarkerFile K (he_open H) (he_fstat H) (he_close H) (he_marker_path H))
              thread uapVoid (m, s);
          (file, w, ok) \<leftarrow> FIRCLSFileClose K (he_close H) (Some (fst s)) (snd s);
          Some (m, w, True) }
      | _ \<Rightarrow> Some (m, w, False))"

definition FIRCLSSignalRecordSignal ::
  "'r handler_env \<Rightarrow> u32 \<Rightarrow> siginfo option \<Rightarrow> 'r option \<Rightarrow> crash_context \<times> mem \<times> file_world \<Rightarrow>
   (crash_context \<times> mem \<times> file_world) handled option" where
  "FIRCLSSignalRecordSignal H savedErrno info uapVoid st =
     (let (C, m, w) = st in
      if \<not> cx_readonly C then Some (Returned st)
      else
        let (C, crashed) = FIRCLSContextMarkAndCheckIfCrashed C in
        if crashed then Some Exited
        else do {
          (m, w, ok) \<leftarrow> record_crash H (\<lambda>K. write_signal K savedErrno info (he_time H)) (pe_this_thread (he_process H)) uapVoid (m, w);
          Some (Returned (C, m, w)) })"

text \<open>\<open>errno\<close> is part of the state: the handler keeps it.\<close>

definition FIRCLSSignalHandler ::
  "'r handler_env \<Rightarrow> bool option \<Rightarrow> action list \<Rightarrow> siginfo option \<Rightarrow> 'r option \<Rightarrow>
   u32 \<times> signal_table \<times> crash_context \<times> mem \<times> file_world \<Rightarrow>
   (u32 \<times> signal_table \<times> crash_context \<times> mem \<times> file_world) handled option" where
  "FIRCLSSignalHandler H alt_stack originalActions info uapVoid st =
     (let (savedErrno, t, C, m, w) = st;
          t = FIRCLSSignalSafeRemoveHandlers True t;
          t = sigprocmask_unblock t in do {
        r \<leftarrow> FIRCLSSignalRecordSignal H savedErrno info uapVoid (C, m, w);
        (case r of
           Exited \<Rightarrow> Some Exited
         | Returned (C, m, w) \<Rightarrow>
             let t = (if cx_readonly C then fst (FIRCLSSignalSafeInstallPreexistingHandlers alt_stack originalActions t) else t)
             in Some (Returned (savedErrno, t, C, m, w))) })"

subsection \<open>Mach exceptions\<close>

definition EXC_BAD_ACCESS :: u32 where "EXC_BAD_ACCESS = 1"
definition EXC_BAD_INSTRUCTION :: u32 where "EXC_BAD_INSTRUCTION = 2"
definition EXC_ARITHMETIC :: u32 where "EXC_ARITHMETIC = 3"
definition EXC_BREAKPOINT :: u32 where "EXC_BREAKPOINT = 6"
definition EXC_CRASH :: u32 where "EXC_CRASH = 10"
definition EXC_GUARD :: u32 where "EXC_GUARD = 12"

definition exc_mask :: "u32 \<Rightarrow> u32" where
  "exc_mask e = push_bit (unat e) 1"

definition FIRCLSMachExceptionMask :: u32 where
  "FIRCLSMachExceptionMask =
     exc_mask EXC_BAD_ACCESS OR exc_mask EXC_BAD_INSTRUCTION OR exc_mask EXC_ARITHMETIC OR exc_mask EXC_BREAKPOINT OR exc_mask EXC_GUARD"

definition FIRCLSMachExceptionMaskForSignal :: "u32 \<Rightarrow> u32" where
  "FIRCLSMachExceptionMaskForSignal signal =
     (if signal = SIGTRAP then exc_mask EXC_BREAKPOINT
      else if signal = SIGSEGV then exc_mask EXC_BAD_ACCESS
      else if signal = SIGBUS then exc_mask EXC_BAD_ACCESS
      else if signal = SIGILL then exc_mask EXC_BAD_INSTRUCTION
      else if signal = SIGABRT then exc_mask EXC_CRASH
      else if signal = SIGSYS then exc_mask EXC_CRASH
      else if signal = SIGFPE then exc_mask EXC_ARITHMETIC
      else 0)"

text \<open>The ports of the task, one for every kind of exception; an original port with the kinds it was for.  The kernel
  may refuse to allocate a port or a right, to swap the ports or to set one.\<close>

type_synonym exception_ports = "nat \<Rightarrow> u32"

record mach_kernel =
  mk_allocate :: "u32 option"
  mk_insert_right :: bool
  mk_swap :: "u32 \<Rightarrow> exception_ports \<Rightarrow> (u32 \<times> u32) list option"
  mk_set :: "u32 \<Rightarrow> u32 \<Rightarrow> bool"

record FIRCLSMachExceptionReadContext =
  mx_port :: u32
  mx_mask :: u32
  mx_originalPorts :: "(u32 \<times> u32) list"

definition set_ports :: "u32 \<Rightarrow> u32 \<Rightarrow> exception_ports \<Rightarrow> exception_ports" where
  "set_ports kinds port ports = (\<lambda>e. if bit kinds e then port else ports e)"

definition task_set_exception_ports :: "mach_kernel \<Rightarrow> u32 \<Rightarrow> u32 \<Rightarrow> exception_ports \<Rightarrow> exception_ports \<times> bool" where
  "task_set_exception_ports M kinds port ports =
     (if mk_set M kinds port then (set_ports kinds port ports, True) else (ports, False))"

definition FIRCLSMachExceptionRegister ::
  "mach_kernel \<Rightarrow> u32 \<Rightarrow> FIRCLSMachExceptionReadContext \<times> exception_ports \<Rightarrow>
   (FIRCLSMachExceptionReadContext \<times> exception_ports) \<times> bool" where
  "FIRCLSMachExceptionRegister M ignoreMask st =
     (let (X, ports) = st in
      case mk_allocate M of
        None \<Rightarrow> (st, False)
      | Some port \<Rightarrow>
          let X = X\<lparr>mx_port := port\<rparr> in
          if \<not> mk_insert_right M then ((X, ports), False)
          else
            let X = X\<lparr>mx_mask := FIRCLSMachExceptionMask AND NOT ignoreMask\<rparr> in
            (case mk_swap M (mx_mask X) ports of
               None \<Rightarrow> ((X, ports), False)
             | Some originals \<Rightarrow> ((X\<lparr>mx_originalPorts := originals\<rparr>, set_ports (mx_mask X) port ports), True)))"

fun restore_ports :: "mach_kernel \<Rightarrow> (u32 \<times> u32) list \<Rightarrow> u32 \<Rightarrow> exception_ports \<Rightarrow> u32 \<times> exception_ports" where
  "restore_ports M [] kinds ports = (kinds, ports)"
| "restore_ports M ((m, port) # originals) kinds ports =
     restore_ports M originals (kinds AND NOT m) (fst (task_set_exception_ports M m port ports))"

definition FIRCLSMachExceptionUnregister ::
  "mach_kernel \<Rightarrow> (u32 \<times> u32) list \<Rightarrow> u32 \<Rightarrow> exception_ports \<Rightarrow> exception_ports \<times> bool" where
  "FIRCLSMachExceptionUnregister M originalPorts kinds ports =
     (let (kinds, ports) = restore_ports M originalPorts kinds ports in task_set_exception_ports M kinds 0 ports)"

definition FIRCLSMachExceptionNameLookup :: "u32 \<Rightarrow> u64 \<Rightarrow> string option \<times> string option" where
  "FIRCLSMachExceptionNameLookup number code =
     (if number = EXC_BAD_ACCESS then
        (Some ''EXC_BAD_ACCESS'',
         if code = 1 then Some ''KERN_INVALID_ADDRESS'' else if code = 2 then Some ''KERN_PROTECTION_FAILURE'' else None)
      else if number = EXC_BAD_INSTRUCTION then (Some ''EXC_BAD_INSTRUCTION'', None)
      else if number = EXC_ARITHMETIC then (Some ''EXC_ARITHMETIC'', None)
      else if number = EXC_BREAKPOINT then (Some ''EXC_BREAKPOINT'', None)
      else if number = EXC_GUARD then (Some ''EXC_GUARD'', None)
      else (None, None))"

record mach_message =
  mm_exception :: u32
  mm_codes :: "u64 list"
  mm_thread :: u32
  mm_task :: u32

definition write_exception :: "write_call \<Rightarrow> mach_message \<Rightarrow> u32 \<Rightarrow> u64 \<Rightarrow> file_op" where
  "write_exception K message original_count now =
     (let uint = (\<lambda>name. FIRCLSFileWriteHashEntryUint64 K (chars name));
          text_of = (\<lambda>name v. FIRCLSFileWriteHashEntryString K (chars name) (map_option chars v)) in
      in_section K (chars ''mach_exception'') (in_hash K (\<lambda>s. do {
        s \<leftarrow> uint ''exception'' (scast (mm_exception message)) s;
        s \<leftarrow> with_key K (chars ''codes'') (in_array K (write_each (FIRCLSFileWriteArrayEntryUint64 K) (mm_codes message))) s;
        let (name, codeName) = FIRCLSMachExceptionNameLookup (mm_exception message)
          (case mm_codes message of [] \<Rightarrow> 0 | c # cs \<Rightarrow> c);
        s \<leftarrow> text_of ''name'' name s;
        s \<leftarrow> text_of ''code_name'' codeName s;
        s \<leftarrow> uint ''original_ports'' (ucast original_count) s;
        uint ''time'' now s })))"

definition FIRCLSMachExceptionRecord ::
  "'r handler_env \<Rightarrow> mach_message \<Rightarrow> u32 \<Rightarrow> crash_context \<times> mem \<times> file_world \<Rightarrow>
   (crash_context \<times> mem \<times> file_world \<times> bool) handled option" where
  "FIRCLSMachExceptionRecord H message original_count st =
     (let (C, m, w) = st; (C, crashed) = FIRCLSContextMarkAndCheckIfCrashed C in
      if crashed then Some Exited
      else do {
        (m, w, ok) \<leftarrow> record_crash H (\<lambda>K. write_exception K message original_count (he_time H)) (mm_thread message) None (m, w);
        Some (Returned (C, m, w, ok)) })"

text \<open>What is done with a message; \<open>KERN_FAILURE\<close> is 5.\<close>

definition KERN_FAILURE :: u32 where "KERN_FAILURE = 5"

definition FIRCLSMachExceptionDispatchMessage ::
  "'r handler_env \<Rightarrow> mach_kernel \<Rightarrow> u32 \<Rightarrow> bool option \<Rightarrow> action list \<Rightarrow> FIRCLSMachExceptionReadContext \<Rightarrow> mach_message \<Rightarrow>
   exception_ports \<times> signal_table \<times> crash_context \<times> mem \<times> file_world \<Rightarrow>
   (u32 \<times> exception_ports \<times> signal_table \<times> crash_context \<times> mem \<times> file_world) handled option" where
  "FIRCLSMachExceptionDispatchMessage H M self alt_stack originalActions X message st =
     (let (ports, t, C, m, w) = st in
      if mm_task message \<noteq> self then Some (Returned (KERN_FAILURE, st))
      else
        let (ports, ok) = FIRCLSMachExceptionUnregister M (mx_originalPorts X) (mx_mask X) ports in
        if \<not> ok then Some (Returned (KERN_FAILURE, ports, t, C, m, w))
        else
          let (t, ok) = FIRCLSSignalSafeInstallPreexistingHandlers alt_stack originalActions t in
          if \<not> ok then Some (Returned (KERN_FAILURE, ports, t, C, m, w))
          else do {
            r \<leftarrow> FIRCLSMachExceptionRecord H message (of_nat (length (mx_originalPorts X))) (C, m, w);
            (case r of
               Exited \<Rightarrow> Some Exited
             | Returned (C, m, w, ok) \<Rightarrow> Some (Returned (if ok then 0 else KERN_FAILURE, ports, t, C, m, w))) })"

subsection \<open>The log\<close>

text \<open>The arguments of the log as they are passed; reading one at another type is undefined.\<close>

datatype log_arg = Arg32 u32 | Arg64 u64 | ArgString "u8 list option"

fun log_args :: "u8 \<Rightarrow> log_arg list \<Rightarrow> (log_arg \<times> log_arg list) option" where
  "log_args c [] = None"
| "log_args c (a # args) =
     (case a of
        Arg32 v \<Rightarrow> if c = 0x64 \<or> c = 0x75 \<or> c = 0x78 then Some (a, args) else None
      | Arg64 v \<Rightarrow> if c = 0x70 then Some (a, args) else None
      | ArgString v \<Rightarrow> if c = 0x73 then Some (a, args) else None)"

definition log_arg_out :: "write_call \<Rightarrow> u32 \<Rightarrow> u8 \<Rightarrow> log_arg \<Rightarrow> file_world \<Rightarrow> file_world option" where
  "log_arg_out K fd c a w =
     (case a of
        Arg32 v \<Rightarrow>
          if c = 0x64 then FIRCLSFileFDWriteInt64 K fd (scast v) w
          else Some (FIRCLSFileFDWriteUInt64 K fd (ucast v) (c = 0x78) w)
      | Arg64 v \<Rightarrow> Some (FIRCLSFileFDWriteUInt64 K fd v True (fst (sys_write K fd (chars ''0x'') w)))
      | ArgString v \<Rightarrow> Some (fst (sys_write K fd (case v of None \<Rightarrow> chars ''(null)'' | Some cs \<Rightarrow> cs) w)))"

text \<open>A percent sign at the end is followed by the terminator.\<close>

fun log_loop :: "write_call \<Rightarrow> u32 \<Rightarrow> u8 list \<Rightarrow> log_arg list \<Rightarrow> file_world \<Rightarrow> file_world option" where
  "log_loop K fd [] args w = Some w"
| "log_loop K fd [b] args w =
     (if b \<noteq> 0x25 then Some (fst (sys_write K fd [b] w)) else Some (fst (sys_write K fd [0x25, 0] w)))"
| "log_loop K fd (b # c # cs) args w =
     (if b \<noteq> 0x25 then log_loop K fd (c # cs) args (fst (sys_write K fd [b] w))
      else if c \<in> {0x64, 0x75, 0x70, 0x73, 0x78} then do {
        (a, args) \<leftarrow> log_args c args;
        w \<leftarrow> log_arg_out K fd c a w;
        log_loop K fd cs args w }
      else log_loop K fd cs args (fst (sys_write K fd [0x25, c] w)))"

text \<open>The descriptor is opened once; whether that has been tried is part of the state.\<close>

definition FIRCLSSDKFileLog ::
  "write_call \<Rightarrow> bool \<Rightarrow> u32 \<Rightarrow> u32 \<Rightarrow> u32 \<Rightarrow> u8 list \<Rightarrow> log_arg list \<Rightarrow> bool \<times> u32 \<times> file_world \<Rightarrow>
   (bool \<times> u32 \<times> file_world) option" where
  "FIRCLSSDKFileLog K ready logLevel opened level format args st =
     (let (once, logFd, w) = st in
      if \<not> ready then Some st
      else if level < logLevel then Some st
      else
        let logFd = (if \<not> once \<and> logFd = - 1 then opened else logFd) in
        if logFd <s 0 then Some (True, logFd, w)
        else do { w \<leftarrow> log_loop K logFd format args w; Some (True, logFd, w) })"

subsection \<open>What is recorded\<close>

text \<open>The marker is created empty.\<close>

lemma marker_empty: "FIRCLSCreateCrashedMarkerFile K open_file fstat close_ok path w = Some w"
  by (auto simp: FIRCLSCreateCrashedMarkerFile_def FIRCLSFileInitWithPath_def FIRCLSFileInitWithPathMode_def FIRCLSFileInit_def
      zero_file_def FIRCLSFileClose_def FIRCLSFileCloseWithOffset_def Let_def split: option.splits)

lemma record_crash_text:
  fixes H :: "'r handler_env"
  defines "E \<equiv> he_process H" and "fd \<equiv> he_open H (he_path H) True"
  assumes K: "reliable (pe_kernel E)" and p: "list_all plain_section ss" and open_ok: "\<not> fd <s 0"
    and sec: "emits (section (pe_kernel E)) (0, False) (section_text name j) (0, False)"
    and r: "report_sections E (fst (FIRCLSProcessInit E thread uapVoid)) m = Some (m', ss)"
  shows "\<exists>w'. record_crash H section thread uapVoid (m, w) = Some (m', w', True) \<and>
    fw_contents w' = (fw_contents w)(fd := fw_contents w fd @ sections_text ((name, j) # ss))"
proof -
  let ?K = "pe_kernel E"
  obtain f where f: "FIRCLSFileInitWithPath None (he_fstat H) (he_open H) (Some zero_file) (Some (he_path H)) False = (Some f, True)"
    "fl_fd f = fd" "file_ok f" "pending f = []" "fl_collectionDepth f = 0" "\<not> fl_needComma f" "\<not> fl_bufferWrites f"
    using open_ok unfolding fd_def FIRCLSFileInitWithPath_def FIRCLSFileInitWithPathMode_def
    by (cases "0 <s he_fstat H (he_open H (he_path H) True)") (auto simp: FIRCLSFileInit_def zero_file_def Let_def file_ok_def pending_def)
  then have ready: "ready_file (f, w) (0, False)" by (simp add: ready_file_def)
  from emitsE [OF sec this] obtain s where s: "section ?K (f, w) = Some s" "ready_file s (0, False)"
    "file_text s = file_text (f, w) @ section_text name j" "same_file (f, w) s" by blast
  let ?marker = "FIRCLSCreateCrashedMarkerFile ?K (he_open H) (he_fstat H) (he_close H) (he_marker_path H)"
  have mk: "?marker v = Some v" for v by (rule marker_empty)
  from handler_emits [where marker = ?marker, OF K p r s(2) mk] obtain t a b where t:
    "FIRCLSHandler E ?marker thread uapVoid (m, s) = Some (m', t, a, b)" "ready_file t (0, False)"
    "file_text t = file_text s @ sections_text ss" "same_file s t" by blast
  have "file_ok (fst t)" using t(2) by (simp add: ready_file_def)
  from close_text [OF K this, of "he_close H" "snd t"] obtain g v where v:
    "FIRCLSFileClose ?K (he_close H) (Some (fst t)) (snd t) = Some (g, v, he_close H (fl_fd (fst t)))"
    "fw_contents v (fl_fd (fst t)) = file_text t" "\<forall>d. d \<noteq> fl_fd (fst t) \<longrightarrow> fw_contents v d = fw_contents (snd t) d" by auto
  have "record_crash H section thread uapVoid (m, w) = Some (m', v, True)"
    using f(1) s(1) t(1) v(1) by (simp add: record_crash_def Let_def E_def)
  moreover have "same_file (f, w) t" using s(4) t(4) by (rule same_file_trans)
  then have "fw_contents v d = ((fw_contents w)(fd := fw_contents w fd @ sections_text ((name, j) # ss))) d" for d
    using v(2,3) t(3) s(3) f(2,4) by (cases "d = fd") (simp_all add: same_file_def file_text_def)
  ultimately show ?thesis by blast
qed


text \<open>What the two handlers tell of the crash.\<close>

definition signed_num :: "u32 \<Rightarrow> json" where
  "signed_num v = num (scast v)"

definition name_json :: "string option \<Rightarrow> json" where
  "name_json v = string_json (map_option chars v)"

definition signal_json :: "u32 \<Rightarrow> siginfo option \<Rightarrow> u64 \<Rightarrow> json" where
  "signal_json savedErrno info now = J_obj (
     (case info of None \<Rightarrow> []
      | Some i \<Rightarrow>
          [(chars ''number'', signed_num (si_signo i)), (chars ''code'', signed_num (si_code i)), (chars ''address'', num (si_addr i)),
           (chars ''name'', name_json (Some (fst (FIRCLSSignalNameLookup (si_signo i) (si_code i))))),
           (chars ''code_name'', name_json (snd (FIRCLSSignalNameLookup (si_signo i) (si_code i))))]) @
     [(chars ''errno'', signed_num savedErrno), (chars ''time'', num now)])"

definition exception_json :: "mach_message \<Rightarrow> u32 \<Rightarrow> u64 \<Rightarrow> json" where
  "exception_json message original_count now =
     (let names = FIRCLSMachExceptionNameLookup (mm_exception message) (case mm_codes message of [] \<Rightarrow> 0 | c # cs \<Rightarrow> c) in
      J_obj [(chars ''exception'', signed_num (mm_exception message)), (chars ''codes'', J_arr (map num (mm_codes message))),
        (chars ''name'', name_json (fst names)), (chars ''code_name'', name_json (snd names)),
        (chars ''original_ports'', num (ucast original_count)), (chars ''time'', num now)])"

lemma field_names:
  "plain_bytes (chars ''number'')" "plain_bytes (chars ''code'')" "plain_bytes (chars ''address'')" "plain_bytes (chars ''name'')"
  "plain_bytes (chars ''code_name'')" "plain_bytes (chars ''errno'')" "plain_bytes (chars ''time'')" "plain_bytes (chars ''signal'')"
  "plain_bytes (chars ''mach_exception'')" "plain_bytes (chars ''exception'')" "plain_bytes (chars ''codes'')"
  "plain_bytes (chars ''original_ports'')"
  by (simp_all add: plain_bytes_def chars_def)

lemma looked_up_names:
  "plain_bytes (chars (fst (FIRCLSSignalNameLookup n c)))"
  "map_option chars (snd (FIRCLSSignalNameLookup n c)) = Some t \<Longrightarrow> plain_bytes t"
  "map_option chars (fst (FIRCLSMachExceptionNameLookup n d)) = Some t \<Longrightarrow> plain_bytes t"
  "map_option chars (snd (FIRCLSMachExceptionNameLookup n d)) = Some t \<Longrightarrow> plain_bytes t"
  by (auto simp: FIRCLSSignalNameLookup_def FIRCLSMachExceptionNameLookup_def plain_bytes_def chars_def split: if_splits)

lemma name_items:
  assumes "reliable K" "plain_bytes (chars name)" "\<And>t. map_option chars v = Some t \<Longrightarrow> plain_bytes t"
  shows "items d (FIRCLSFileWriteHashEntryString K (chars name) (map_option chars v)) (map entry_text [(chars name, name_json v)])"
proof -
  have "items d (FIRCLSFileWriteHashEntryString K (chars name) (map_option chars v)) [entry_text (chars name, string_json (map_option chars v))]"
    by (rule hash_value_items(3) [OF assms])
  then show ?thesis by (simp add: name_json_def)
qed

lemma signed_items:
  assumes "reliable K" "plain_bytes (chars name)"
  shows "items d (FIRCLSFileWriteHashEntryUint64 K (chars name) (scast v)) (map entry_text [(chars name, signed_num v)])"
  using uint_items [OF assms] by (simp add: signed_num_def)

lemma signal_emits:
  assumes K: "reliable K"
  shows "emits (write_signal K savedErrno info now) (0, False) (section_text (chars ''signal'') (signal_json savedErrno info now)) (0, False)"
proof -
  let ?uint = "\<lambda>name. FIRCLSFileWriteHashEntryUint64 K (chars name)"
  let ?name = "\<lambda>name v. FIRCLSFileWriteHashEntryString K (chars name) (map_option chars v)"
  let ?rest = "\<lambda>s. do { s \<leftarrow> ?uint ''errno'' (scast savedErrno) s; ?uint ''time'' now s }"
  let ?restj = "[(chars ''errno'', signed_num savedErrno)] @ [(chars ''time'', num now)]"
  have rest: "items (Suc 1) ?rest (map entry_text ?restj)"
    by (rule items_bind_map signed_items [OF K] uint_items [OF K] field_names)+
  have "items (Suc 1) (\<lambda>s. Option.bind (case info of None \<Rightarrow> Some s
      | Some i \<Rightarrow> do { s \<leftarrow> ?uint ''number'' (scast (si_signo i)) s; s \<leftarrow> ?uint ''code'' (scast (si_code i)) s;
          s \<leftarrow> ?uint ''address'' (si_addr i) s;
          let (name, codeName) = FIRCLSSignalNameLookup (si_signo i) (si_code i);
          s \<leftarrow> ?name ''name'' (Some name) s; ?name ''code_name'' codeName s }) ?rest)
    (map entry_text ((case info of None \<Rightarrow> []
      | Some i \<Rightarrow> [(chars ''number'', signed_num (si_signo i))] @ [(chars ''code'', signed_num (si_code i))] @ [(chars ''address'', num (si_addr i))] @
           [(chars ''name'', name_json (Some (fst (FIRCLSSignalNameLookup (si_signo i) (si_code i)))))] @
           [(chars ''code_name'', name_json (snd (FIRCLSSignalNameLookup (si_signo i) (si_code i))))]) @ ?restj))"
  proof (cases info)
    case None
    then show ?thesis using rest by simp
  next
    case (Some i)
    obtain name codeName where names: "FIRCLSSignalNameLookup (si_signo i) (si_code i) = (name, codeName)" by fastforce
    have pl: "plain_bytes t" if "map_option chars (Some name) = Some t" for t
      using looked_up_names(1) [of "si_signo i" "si_code i"] that by (simp add: names)
    have plc: "plain_bytes t" if "map_option chars codeName = Some t" for t
      using looked_up_names(2) [of "si_signo i" "si_code i" t] that by (simp add: names)
    show ?thesis
      unfolding Some option.case names prod.case fst_conv snd_conv Let_def
      by (rule items_bind_map signed_items [OF K] uint_items [OF K] field_names name_items [OF K _ pl] name_items [OF K _ plc] rest | assumption)+
  qed
  from in_hash_items [OF K this] have "items 1 (in_hash K (\<lambda>s. Option.bind (case info of None \<Rightarrow> Some s
      | Some i \<Rightarrow> do { s \<leftarrow> ?uint ''number'' (scast (si_signo i)) s; s \<leftarrow> ?uint ''code'' (scast (si_code i)) s;
          s \<leftarrow> ?uint ''address'' (si_addr i) s;
          let (name, codeName) = FIRCLSSignalNameLookup (si_signo i) (si_code i);
          s \<leftarrow> ?name ''name'' (Some name) s; ?name ''code_name'' codeName s }) ?rest)) [json_text (signal_json savedErrno info now)]"
    unfolding signal_json_def by (simp add: option.case_distrib [where h = "\<lambda>x. x @ _"] cong: option.case_cong)
  then show ?thesis unfolding write_signal_def Let_def by (rule section_emits [OF K field_names(8)])
qed

lemma exception_emits:
  assumes K: "reliable K"
  shows "emits (write_exception K message count now) (0, False)
    (section_text (chars ''mach_exception'') (exception_json message count now)) (0, False)"
proof -
  obtain name codeName where names:
    "FIRCLSMachExceptionNameLookup (mm_exception message) (case mm_codes message of [] \<Rightarrow> 0 | c # cs \<Rightarrow> c) = (name, codeName)" by fastforce
  have pl: "plain_bytes t" if "map_option chars name = Some t" for t using looked_up_names(3) that names by (metis fst_conv)
  have plc: "plain_bytes t" if "map_option chars codeName = Some t" for t using looked_up_names(4) that names by (metis snd_conv)
  have "items 3 (FIRCLSFileWriteArrayEntryUint64 K c) [json_text (num c)]" for c
    using array_value_items(1) [OF K] by (simp add: num_def)
  from write_each_items [where f = "FIRCLSFileWriteArrayEntryUint64 K" and xs = "mm_codes message", OF this]
  have "items (Suc (Suc 1)) (write_each (FIRCLSFileWriteArrayEntryUint64 K) (mm_codes message)) (map json_text (map num (mm_codes message)))"
    by (simp add: concat_map_singleton comp_def numeral_3_eq_3)
  from with_key_items [OF K field_names(11) in_array_items [OF K this]]
  have codes: "items (Suc 1) (with_key K (chars ''codes'') (in_array K (write_each (FIRCLSFileWriteArrayEntryUint64 K) (mm_codes message))))
      (map entry_text [(chars ''codes'', J_arr (map num (mm_codes message)))])" by simp
  have "items (Suc 1) (\<lambda>s. do {
        s \<leftarrow> FIRCLSFileWriteHashEntryUint64 K (chars ''exception'') (scast (mm_exception message)) s;
        s \<leftarrow> with_key K (chars ''codes'') (in_array K (write_each (FIRCLSFileWriteArrayEntryUint64 K) (mm_codes message))) s;
        s \<leftarrow> FIRCLSFileWriteHashEntryString K (chars ''name'') (map_option chars name) s;
        s \<leftarrow> FIRCLSFileWriteHashEntryString K (chars ''code_name'') (map_option chars codeName) s;
        s \<leftarrow> FIRCLSFileWriteHashEntryUint64 K (chars ''original_ports'') (ucast count) s;
        FIRCLSFileWriteHashEntryUint64 K (chars ''time'') now s })
    (map entry_text ([(chars ''exception'', signed_num (mm_exception message))] @ [(chars ''codes'', J_arr (map num (mm_codes message)))] @
        [(chars ''name'', name_json name)] @ [(chars ''code_name'', name_json codeName)] @
        [(chars ''original_ports'', num (ucast count))] @ [(chars ''time'', num now)]))"
    by (rule items_bind_map codes signed_items [OF K] uint_items [OF K] field_names name_items [OF K _ pl] name_items [OF K _ plc] | assumption)+
  from in_hash_items [OF K this] show ?thesis
    unfolding write_exception_def Let_def names prod.case exception_json_def fst_conv snd_conv
    by (intro section_emits K field_names) simp
qed


subsection \<open>Reading a report\<close>

text \<open>A report is read line by line; every line takes at least one byte.\<close>

fun parse_report :: "nat \<Rightarrow> u8 list \<Rightarrow> json list option" where
  "parse_report 0 cs = None"
| "parse_report (Suc n) cs =
     (if cs = [] then Some []
      else do {
        (j, cs) \<leftarrow> parse_line cs;
        (case cs of
           [] \<Rightarrow> None
         | c # cs \<Rightarrow> if c = 0x0A then do { js \<leftarrow> parse_report n cs; Some (j # js) } else None) })"

definition read_report :: "u8 list \<Rightarrow> json list option" where
  "read_report cs = parse_report (Suc (length cs)) cs"

definition readable_section :: "u8 list \<times> json \<Rightarrow> bool" where
  "readable_section s \<longleftrightarrow> readable_string (fst s) \<and> readable (snd s)"

lemma parse_sections:
  "list_all readable_section ss \<Longrightarrow> length (sections_text ss) < n \<Longrightarrow>
    parse_report n (sections_text ss) = Some (map (\<lambda>s. J_obj [s]) ss)"
proof (induction ss arbitrary: n)
  case Nil
  then obtain k where "n = Suc k" by (cases n) auto
  then show ?case by simp
next
  case (Cons s ss)
  obtain name j where s: "s = (name, j)" by (cases s)
  then obtain k where n: "n = Suc k" using Cons.prems(2) by (cases n) auto
  let ?t = "json_text (J_obj [(name, j)])"
  have st: "sections_text (s # ss) = ?t @ 0x0A # sections_text ss" by (simp add: s section_text_def)
  have r: "readable (J_obj [(name, j)])" using Cons.prems(1) by (simp add: s readable_section_def)
  have "parse_line (?t @ 0x0A # sections_text ss) = Some (J_obj [(name, j)], 0x0A # sections_text ss)"
    unfolding parse_line_def by (rule parse_text [OF r]) (simp_all add: is_digit_def)
  moreover have "parse_report k (sections_text ss) = Some (map (\<lambda>s. J_obj [s]) ss)"
    using Cons.prems by (intro Cons.IH) (simp_all add: n st)
  moreover have "?t \<noteq> []" using text_first [of "J_obj [(name, j)]"] by auto
  ultimately show ?case unfolding st n by (simp add: s del: json_text.simps)
qed

lemma read_sections: "list_all readable_section ss \<Longrightarrow> read_report (sections_text ss) = Some (map (\<lambda>s. J_obj [s]) ss)"
  unfolding read_report_def by (rule parse_sections) simp_all

lemma readable_names:
  "readable (name_json (Some (fst (FIRCLSSignalNameLookup n c))))" "readable (name_json (snd (FIRCLSSignalNameLookup n c)))"
  "readable (name_json (fst (FIRCLSMachExceptionNameLookup n d)))" "readable (name_json (snd (FIRCLSMachExceptionNameLookup n d)))"
  by (simp_all add: FIRCLSSignalNameLookup_def FIRCLSMachExceptionNameLookup_def name_json_def string_json_def readable_string_def chars_def)

lemma readable_crash:
  "readable_section (chars ''signal'', signal_json e info now)"
  "readable_section (chars ''mach_exception'', exception_json message count now)"
proof -
  have strings: "readable_string (chars s)"
    if "s \<in> {''signal'', ''number'', ''code'', ''address'', ''name'', ''code_name'', ''errno'', ''time'', ''mach_exception'', ''exception'',
      ''codes'', ''original_ports''}" for s
    using that by (auto simp: readable_string_def chars_def)
  note simps = readable_section_def signal_json_def exception_json_def signed_num_def num_def readable_names strings Let_def
  show "readable_section (chars ''signal'', signal_json e info now)" by (cases info) (simp_all add: simps)
  show "readable_section (chars ''mach_exception'', exception_json message count now)"
    by (simp add: simps list_all_iff)
qed

subsection \<open>Putting back what was there\<close>

lemma installed:
  "distinct signals \<Longrightarrow> (\<forall>s \<in> set signals. sg_ok t s) \<Longrightarrow> fst (install_handlers h signals t) = map (sg_action t) signals"
proof (induction signals arbitrary: t)
  case (Cons s signals)
  then have "fst (install_handlers h signals (fst (sigaction s h t))) = map (sg_action (fst (sigaction s h t))) signals"
    by (intro Cons.IH) (simp_all add: sigaction_def)
  moreover have "map (sg_action (fst (sigaction s h t))) signals = map (sg_action t) signals"
    using Cons.prems(1) by (intro map_cong) (auto simp: sigaction_def)
  ultimately show ?case using Cons.prems(2) by (simp add: split_beta Let_def)
qed simp

lemma removed_actions:
  "(\<forall>s \<in> set signals. sg_ok t s) \<Longrightarrow>
    sg_action (remove_handlers True signals t) = (\<lambda>s. if s \<in> set signals then 0 else sg_action t s) \<and>
    sg_ok (remove_handlers True signals t) = sg_ok t"
  by (induction signals arbitrary: t) (auto simp: sigaction_def fun_eq_iff)

lemma reinstalled_actions:
  "distinct (map fst rest) \<Longrightarrow> (\<forall>s \<in> fst ` set rest. sg_ok t s) \<Longrightarrow>
    snd (reinstall_handlers rest t ok) = ok \<and>
    sg_action (fst (reinstall_handlers rest t ok)) =
      (\<lambda>s. case map_of rest s of None \<Rightarrow> sg_action t s | Some a \<Rightarrow> if a = 0 then sg_action t s else a)"
proof (induction rest arbitrary: t ok)
  case (Cons r rest)
  obtain s a where r: "r = (s, a)" by (cases r)
  have s: "map_of rest s = None" using Cons.prems(1) by (simp add: r map_of_eq_None_iff)
  show ?case
  proof (cases "a = 0")
    case True
    then show ?thesis using Cons s by (auto simp: r fun_eq_iff split: option.split)
  next
    case False
    have ok: "sg_ok t s" "\<forall>q \<in> fst ` set rest. sg_ok (t\<lparr>sg_action := (sg_action t)(s := a)\<rparr>) q" using Cons.prems(2) by (auto simp: r)
    have "distinct (map fst rest)" using Cons.prems(1) by simp
    from Cons.IH [OF this ok(2), of ok] False ok(1) s show ?thesis
      by (auto simp: r sigaction_def Let_def fun_eq_iff split: option.split)
  qed
qed simp

lemma fatal_distinct: "distinct FIRCLSFatalSignals"
  by (simp add: FIRCLSFatalSignals_def signals)

lemma set_ports_same: "set_ports m p (set_ports m q ports) = set_ports m p ports"
  by (simp add: set_ports_def fun_eq_iff)

lemma restored_ports:
  assumes "\<forall>m p. mk_set M m p"
  shows "restore_ports M originals kinds ports =
    (kinds AND NOT (foldr (\<lambda>(m, p) ms. m OR ms) originals 0), foldl (\<lambda>ports (m, p). set_ports m p ports) ports originals)"
  using assms
proof (induction originals arbitrary: kinds ports)
  case (Cons o1 originals)
  obtain m p where "o1 = (m, p)" by (cases o1)
  with Cons show ?case by (simp add: task_set_exception_ports_def ac_simps)
qed simp

end
