(* ===== verification/CrashRecord.thy ===== *)
theory CrashRecord
  imports CrashHandler
begin

section \<open>Properties of the crash report writer\<close>

text \<open>
  What a crash leaves behind: a report that holds what there was to record, in a text that a reader of JSON takes
  apart again, and the signal handlers and exception ports that were there before.  The surroundings of the
  witnesses are a process with one thread on arm64, the crashed one of \<open>Unwind\<close>.
\<close>

subsection \<open>A process with one thread\<close>

text \<open>The thread crashed in \<open>objc_msgSend\<close> with the selector \<open>foo:\<close>, on the queue \<open>com.demo\<close>; the memory holds both
  names and the pointer to the queue.  The kernel takes only half of every other write.\<close>

definition sending_thread :: arm_thread_state64 where
  "sending_thread = crashed_thread\<lparr>ss_x := (\<lambda>i. if i = 1 then 0x9000 else 0)\<rparr>"

definition demo_memory :: mem where
  "demo_memory = bytes_at 0x9000
     (chars ''foo:'' @ [0, 0, 0, 0] @ le_of_word 8 (0x9010 :: u64) @ chars ''com.demo'' @ [0])"

definition demo_objc :: objc_addresses where
  "demo_objc = \<lparr> OBJC_MSG_SEND_START = 0x101140, OBJC_MSG_SEND_SUPER_START = 0x101200, OBJC_MSG_SEND_STRET_START = 0x101300,
     OBJC_MSG_SEND_SUPER_STRET_START = 0x101400, OBJC_MSG_SEND_FPRET_START = 0x101500 \<rparr>"

definition demo_process :: "u32 \<Rightarrow> arm_thread_state64 process_env" where
  "demo_process this = \<lparr>
     pe_kernel = half_kernel,
     pe_unwind = arm64_env True plain_sdk apple_abi apple_arm64 zero_record no_table crashed_stack,
     pe_dump = arm64_dump plain_sdk (\<lambda>_. 0x60000000), pe_get_state = (\<lambda>_. Some sending_thread), pe_has_link = True, pe_zero_context = crashed_thread,
     pe_current_pc = 0, pe_frame_address = 0, pe_return_address = 0,
     pe_task_threads = Some [0x103], pe_this_thread = this, pe_thread_name = (\<lambda>_. chars ''main''), pe_queue = (\<lambda>_. Some 0x9008),
     pe_label = (\<lambda>queue. queue), pe_selector = arm64_selector demo_objc plain_sdk, pe_crash_infos = [], pe_page_size = 16384,
     pe_vm = Some \<lparr> vm_active = 1, vm_inactive = 2, vm_wire = 3, vm_free = 4 \<rparr>,
     pe_task = Some \<lparr> tk_virtual_size = 5, tk_resident_size = 6, tk_user = (7, 8), tk_system = (0, 9) \<rparr>,
     pe_disk = Some (10, 20, 4096), pe_suspend = (\<lambda>_. True), pe_resume = (\<lambda>_. True) \<rparr>"

definition demo_handler :: "u32 \<Rightarrow> arm_thread_state64 handler_env" where
  "demo_handler this = \<lparr> he_process = demo_process this, he_open = (\<lambda>path append. 3), he_fstat = (\<lambda>_. 0), he_close = (\<lambda>_. True),
     he_time = 1600000000, he_path = ''signal.clsrecord'', he_marker_path = ''previously-crashed'' \<rparr>"

definition demo_sections :: "(u8 list \<times> json) list" where
  "demo_sections =
     [(chars ''threads'', J_arr [thread_json (arm64_dump plain_sdk (\<lambda>_. 0x60000000) sending_thread)
         \<lparr> tr_pcs = [0x101150, 0x102000, 0x103000, 0x104000], tr_repeatedPC = 0, tr_repeatedPCCount = 0 \<rparr> True]),
      (chars ''runtime'', runtime_json (chars ''foo:'') []), (chars ''dispatch_queue_names'', J_arr [J_str (chars ''com.demo'')]),
      (chars ''thread_names'', J_arr [J_str (chars ''main'')]),
      (chars ''process_stats'', J_obj
        [(chars ''active'', num 16384), (chars ''inactive'', num 32768), (chars ''wired'', num 49152), (chars ''freeMem'', num 65536),
         (chars ''free_mem'', num 65536), (chars ''virtual'', num 5), (chars ''resident'', num 16384),
         (chars ''user_time'', num 7000008), (chars ''sys_time'', num 9)]),
      (chars ''storage'', J_obj [(chars ''free'', num 40960), (chars ''total'', num 81920)])]"

lemma demo_fields [simp]:
  "pe_kernel (demo_process this) = half_kernel" "pe_dump (demo_process this) = arm64_dump plain_sdk (\<lambda>_. 0x60000000)"
  "pe_get_state (demo_process this) = (\<lambda>_. Some sending_thread)" "pe_task_threads (demo_process this) = Some [0x103]"
  "pe_this_thread (demo_process this) = this" "pe_thread_name (demo_process this) = (\<lambda>_. chars ''main'')" "pe_queue (demo_process this) = (\<lambda>_. Some 0x9008)"
  "pe_label (demo_process this) = (\<lambda>queue. queue)" "pe_selector (demo_process this) = arm64_selector demo_objc plain_sdk" "pe_crash_infos (demo_process this) = []" "pe_page_size (demo_process this) = 16384"
  "pe_vm (demo_process this) = Some \<lparr> vm_active = 1, vm_inactive = 2, vm_wire = 3, vm_free = 4 \<rparr>"
  "pe_task (demo_process this) = Some \<lparr> tk_virtual_size = 5, tk_resident_size = 6, tk_user = (7, 8), tk_system = (0, 9) \<rparr>"
  "pe_disk (demo_process this) = Some (10, 20, 4096)"
  "he_process (demo_handler this) = demo_process this" "he_open (demo_handler this) = (\<lambda>path append. 3)" "he_time (demo_handler this) = 1600000000"
  by (simp_all add: demo_process_def demo_handler_def)

lemma demo_trace:
  "record_stacktrace (pe_unwind (demo_process this)) sending_thread =
    Some \<lparr> tr_pcs = [0x101150, 0x102000, 0x103000, 0x104000], tr_repeatedPC = 0, tr_repeatedPCCount = 0 \<rparr>"
proof -
  have c: "frame_chain crashed_stack 0x10000 [0x103000, 0x104000]" "crashed plain_sdk sending_thread 0x101150 0x102000 0x10000"
    by code_simp+
  have l: "length [0x103000, 0x104000 :: u64] + 2 < unat (FIRCLSUnwindMaxFrames True)" by (simp add: FIRCLSUnwindMaxFrames_def)
  show ?thesis
    by (simp add: demo_process_def arm64_trace [OF plain_sdk_laws no_table_no_images c(2,1) _ l])
qed

lemma arm64_names:
  "name \<in> fst ` set (arm64_dump S cpsr r) \<Longrightarrow> plain_bytes (chars name) \<and> readable_string (chars name)"
proof -
  have "list_all (\<lambda>n. plain_bytes (chars n) \<and> readable_string (chars n)) (arm64_x_names @ [''fp'', ''sp'', ''lr'', ''pc'', ''cpsr''])"
    by (simp add: arm64_x_names_def plain_bytes_def readable_string_def chars_def)
  moreover assume "name \<in> fst ` set (arm64_dump S cpsr r)"
  then have "name \<in> set (arm64_x_names @ [''fp'', ''sp'', ''lr'', ''pc'', ''cpsr''])"
    by (auto simp: arm64_dump_def dest: set_zip_leftD)
  ultimately show ?thesis unfolding list_all_iff by blast
qed

lemma demo_names [simp]:
  "FIRCLSProcessGetObjCSelectorName (demo_process this) demo_memory sending_thread = Some (chars ''foo:'')"
  "FIRCLSProcessGetThreadDispatchQueueName (demo_process this) demo_memory t = Some (Some (chars ''com.demo''))"
proof -
  have "arm64_selector demo_objc plain_sdk sending_thread = 0x9000" "FIRCLSReadString demo_memory 0x9000 128"
    "FIRCLSReadString demo_memory 0x9010 128" "FIRCLSReadMemory_word demo_memory 0x9008 = Some 0x9010"
    "c_string demo_memory 0x9000 = Some (chars ''foo:'')" "c_string demo_memory 0x9010 = Some (chars ''com.demo'')"
    by code_simp+
  then show "FIRCLSProcessGetObjCSelectorName (demo_process this) demo_memory sending_thread = Some (chars ''foo:'')"
    "FIRCLSProcessGetThreadDispatchQueueName (demo_process this) demo_memory t = Some (Some (chars ''com.demo''))"
    by (simp_all add: FIRCLSProcessGetObjCSelectorName_def FIRCLSProcessGetThreadDispatchQueueName_def)
qed

lemma demo_report:
  assumes "uapVoid = Some sending_thread \<or> uapVoid = None \<and> MACH_PORT_INDEX this \<noteq> MACH_PORT_INDEX 0x103"
  shows "report_sections (demo_process this) (fst (FIRCLSProcessInit (demo_process this) 0x103 uapVoid)) demo_memory = Some (demo_memory, demo_sections)"
proof -
  let ?P = "fst (FIRCLSProcessInit (demo_process this) 0x103 uapVoid)"
  have state: "FIRCLSProcessGetThreadState (demo_process this) ?P 0x103 = Some sending_thread"
    using assms by (auto simp: FIRCLSProcessGetThreadState_def FIRCLSProcessInit_def FIRCLSProcessIsCrashedThread_def
        FIRCLSProcessIsCurrentThread_def)
  have P: "pr_threads ?P = [0x103]" "pr_crashedThread ?P = 0x103" by (simp_all add: FIRCLSProcessInit_def)
  then have th: "recorded_threads (demo_process this) ?P = [0x103]" "FIRCLSProcessIsCrashedThread ?P 0x103"
    using state by (simp_all add: recorded_threads_def FIRCLSProcessIsCrashedThread_def)
  have stats: "stats_sections (demo_process this) = Some [demo_sections ! 4]"
    by (simp add: stats_sections_def FIRCLSProcessGetMemoryUsage_def FIRCLSProcessGetInfo_def time_in_us_def
        int_value_def demo_sections_def) 
  show ?thesis
    using th state P stats
    by (simp add: report_sections_def thread_json_of_def demo_trace demo_sections_def string_json_def storage_json_def)
qed

lemma readable_registers: "readable (registers_json (arm64_dump S cpsr r))"
  using arm64_names [of _ S cpsr r] by (force simp: registers_json_def list_all_iff num_def)

lemma plain_registers: "plain_json (registers_json (arm64_dump S cpsr r))"
  using arm64_names [of _ S cpsr r] by (force simp: registers_json_def list_all_iff num_def)

lemma demo_plain: "list_all plain_section demo_sections"
proof -
  have "plain_bytes (chars s)"
    if "s \<in> {''process_stats'', ''active'', ''inactive'', ''wired'', ''freeMem'', ''free_mem'', ''virtual'', ''resident'', ''user_time'',
      ''sys_time'', ''free'', ''total'', ''main'', ''foo:'', ''com.demo''}" for s
    using that by (auto simp: plain_bytes_def chars_def)
  then show ?thesis
    using plain_registers plain_names
    by (simp add: demo_sections_def plain_section_def thread_json_def runtime_json_def num_def list_all_iff)
qed

lemma demo_readable: "list_all readable_section demo_sections"
proof -
  have "readable_string (chars s)"
    if "s \<in> {''threads'', ''runtime'', ''dispatch_queue_names'', ''thread_names'', ''process_stats'', ''storage'', ''active'', ''inactive'',
      ''wired'', ''freeMem'', ''free_mem'', ''virtual'', ''resident'', ''user_time'', ''sys_time'', ''free'', ''total'', ''main'', ''foo:'', ''com.demo'',
      ''registers'', ''stacktrace'', ''crashed'', ''objc_selector'', ''crash_info_entries''}" for s
    using that by (auto simp: readable_string_def chars_def)
  then show ?thesis
    using readable_registers
    by (simp add: demo_sections_def readable_section_def thread_json_def runtime_json_def num_def list_all_iff)
qed

subsection \<open>The report of a signal\<close>

lemma signal_recorded:
  fixes H :: "'r handler_env"
  defines "E \<equiv> he_process H" and "fd \<equiv> he_open H (he_path H) True"
  assumes "reliable (pe_kernel E)" "list_all plain_section ss" "\<not> fd <s 0"
    and "cx_readonly C" "cx_initialized C" "\<not> cx_crashOccurred C"
    and "report_sections E (fst (FIRCLSProcessInit E (pe_this_thread E) uapVoid)) m = Some (m', ss)"
  shows "\<exists>w'. FIRCLSSignalRecordSignal H savedErrno info uapVoid (C, m, w) =
      Some (Returned (C\<lparr>cx_crashOccurred := True\<rparr>, m', w')) \<and>
    fw_contents w' = (fw_contents w)(fd := fw_contents w fd @
      sections_text ((chars ''signal'', signal_json savedErrno info (he_time H)) # ss))"
proof -
  from signal_emits [OF assms(3)] record_crash_text [of H ss "\<lambda>K. write_signal K savedErrno info (he_time H)"] assms
  obtain w' where "record_crash H (\<lambda>K. write_signal K savedErrno info (he_time H)) (pe_this_thread E) uapVoid (m, w) = Some (m', w', True)"
    "fw_contents w' = (fw_contents w)(fd := fw_contents w fd @
      sections_text ((chars ''signal'', signal_json savedErrno info (he_time H)) # ss))" by blast
  with assms show ?thesis
    by (auto simp: FIRCLSSignalRecordSignal_def FIRCLSContextMarkAndCheckIfCrashed_def Let_def)
qed

text \<open>C11 (refinement): when the first signal arrives, every section of the report has a value (\<open>report_sections\<close>: no
  step, read or sum in it is undefined), the strings in them are C strings, every write succeeds when it is
  retried and the file can be opened, the handler adds to the file of the report one line for the signal and one for each section, every one the
  text of its JSON value, and touches no other file.  It keeps \<open>errno\<close>, leaves the actions of
  \<open>FIRCLSSignalSafeInstallPreexistingHandlers\<close> behind and has marked the crash, so that a second signal or
  exception exits.\<close>

theorem signal_report:
  assumes "reliable (pe_kernel (he_process H))" "list_all plain_section ss" "\<not> he_open H (he_path H) True <s 0"
    and "cx_readonly C" "cx_initialized C" "\<not> cx_crashOccurred C"
    and "report_sections (he_process H) (fst (FIRCLSProcessInit (he_process H) (pe_this_thread (he_process H)) uapVoid)) m = Some (m', ss)"
  shows "\<exists>w' C'. FIRCLSSignalHandler H alt_stack originals info uapVoid (errno, t, C, m, w) =
      Some (Returned (errno, fst (FIRCLSSignalSafeInstallPreexistingHandlers alt_stack originals
        (sigprocmask_unblock (FIRCLSSignalSafeRemoveHandlers True t))), C', m', w')) \<and>
    fw_contents w' = (fw_contents w)(he_open H (he_path H) True := fw_contents w (he_open H (he_path H) True) @
      sections_text ((chars ''signal'', signal_json errno info (he_time H)) # ss)) \<and>
    FIRCLSSignalHandler H alt_stack originals info2 uap2 (errno2, t2, C', m2, w2) = Some Exited \<and>
    FIRCLSMachExceptionRecord H message count (C', m2, w2) = Some Exited"
proof -
  from signal_recorded [OF assms, of errno info w] obtain w' where w':
    "FIRCLSSignalRecordSignal H errno info uapVoid (C, m, w) = Some (Returned (C\<lparr>cx_crashOccurred := True\<rparr>, m', w'))"
    "fw_contents w' = (fw_contents w)(he_open H (he_path H) True := fw_contents w (he_open H (he_path H) True) @
      sections_text ((chars ''signal'', signal_json errno info (he_time H)) # ss))" by blast
  with assms(4,5) show ?thesis
    by (intro exI [of _ w'] exI [of _ "C\<lparr>cx_crashOccurred := True\<rparr>"])
      (simp add: FIRCLSSignalHandler_def FIRCLSSignalRecordSignal_def FIRCLSMachExceptionRecord_def
        FIRCLSContextMarkAndCheckIfCrashed_def Let_def)
qed

definition demo_table :: signal_table where
  "demo_table = \<lparr> sg_action = (\<lambda>s. if s \<in> set FIRCLSFatalSignals then 0x5000 else 0), sg_blocked = (\<lambda>s. s = SIGSEGV),
     sg_ok = (\<lambda>_. True), sg_mask_ok = True \<rparr>"

definition demo_context :: crash_context where
  "demo_context = \<lparr> cx_readonly = True, cx_initialized = True, cx_crashOccurred = False \<rparr>"

definition empty_files :: file_world where
  "empty_files = \<lparr> fw_contents = (\<lambda>_. []), fw_calls = 0 \<rparr>"

lemmas demo_states = demo_table_def demo_context_def empty_files_def

theorem signal_report_witness:
  "\<exists>t w' C'. FIRCLSSignalHandler (demo_handler 0x103) None [0, 0x6000, 0, 0, 0x7000, 0, 0]
      (Some \<lparr> si_signo = SIGSEGV, si_code = 2, si_addr = 0xDEAD \<rparr>) (Some sending_thread)
      (35, demo_table, demo_context, demo_memory, empty_files) = Some (Returned (35, t, C', demo_memory, w')) \<and>
    fw_contents w' 3 = sections_text ((chars ''signal'', signal_json 35 (Some \<lparr> si_signo = SIGSEGV, si_code = 2, si_addr = 0xDEAD \<rparr>) 1600000000) # demo_sections)"
proof -
  have o: "\<not> he_open (demo_handler 0x103) (he_path (demo_handler 0x103)) True <s 0" by (simp add: word_sless_alt)
  have c: "cx_readonly demo_context" "cx_initialized demo_context" "\<not> cx_crashOccurred demo_context" by (simp_all add: demo_states)
  have r: "report_sections (he_process (demo_handler 0x103)) (fst (FIRCLSProcessInit (he_process (demo_handler 0x103))
      (pe_this_thread (he_process (demo_handler 0x103))) (Some sending_thread))) demo_memory = Some (demo_memory, demo_sections)"
    using demo_report [of "Some sending_thread" "0x103"] by simp
  have k: "reliable (pe_kernel (he_process (demo_handler 0x103)))" using half_reliable by simp
  from signal_report [OF k demo_plain o c r, of None "[0, 0x6000, 0, 0, 0x7000, 0, 0]"
      "Some \<lparr> si_signo = SIGSEGV, si_code = 2, si_addr = 0xDEAD \<rparr>" 35 demo_table empty_files None None 0 demo_table demo_memory empty_files
      "\<lparr> mm_exception = 1, mm_codes = [], mm_thread = 0x103, mm_task = 0 \<rparr>" 0]
  show ?thesis by (auto simp: empty_files_def)
qed


subsection \<open>The report of an exception is read back\<close>

text \<open>C12 (roundtrip): the report of a Mach exception, written to an empty file under the conditions of a signal's
  report, is read back line by line as the JSON objects of the exception and of the sections, as long as no string
  in it has a quote or a backslash.\<close>

theorem exception_report_read:
  assumes "reliable (pe_kernel (he_process H))" "list_all plain_section ss" "\<not> he_open H (he_path H) True <s 0"
    and "\<not> (cx_initialized C \<and> cx_crashOccurred C)"
    and "report_sections (he_process H) (fst (FIRCLSProcessInit (he_process H) (mm_thread message) None)) m = Some (m', ss)"
    and "list_all readable_section ss" "fw_contents w (he_open H (he_path H) True) = []"
  shows "\<exists>C' w'. FIRCLSMachExceptionRecord H message count (C, m, w) = Some (Returned (C', m', w', True)) \<and>
    read_report (fw_contents w' (he_open H (he_path H) True)) =
      Some (map (\<lambda>s. J_obj [s]) ((chars ''mach_exception'', exception_json message count (he_time H)) # ss))"
proof -
  let ?s = "(chars ''mach_exception'', exception_json message count (he_time H))"
  from record_crash_text [of H ss "\<lambda>K. write_exception K message count (he_time H)", OF assms(1-3) exception_emits [OF assms(1)] assms(5)]
  obtain w' where w': "record_crash H (\<lambda>K. write_exception K message count (he_time H)) (mm_thread message) None (m, w) = Some (m', w', True)"
    "fw_contents w' (he_open H (he_path H) True) = sections_text (?s # ss)" using assms(7) by fastforce
  moreover have "read_report (sections_text (?s # ss)) = Some (map (\<lambda>s. J_obj [s]) (?s # ss))"
    using assms(6) readable_crash(2) by (intro read_sections) simp
  ultimately show ?thesis
    using assms(4) by (auto simp: FIRCLSMachExceptionRecord_def FIRCLSContextMarkAndCheckIfCrashed_def Let_def)
qed

theorem exception_report_read_witness:
  "\<exists>C' w'. FIRCLSMachExceptionRecord (demo_handler 0x203) \<lparr> mm_exception = EXC_BAD_ACCESS, mm_codes = [1, 0xDEAD], mm_thread = 0x103, mm_task = 7 \<rparr> 1
      (demo_context, demo_memory, empty_files) = Some (Returned (C', demo_memory, w', True)) \<and>
    read_report (fw_contents w' 3) = Some (map (\<lambda>s. J_obj [s])
      ((chars ''mach_exception'',
         exception_json \<lparr> mm_exception = EXC_BAD_ACCESS, mm_codes = [1, 0xDEAD], mm_thread = 0x103, mm_task = 7 \<rparr> 1 1600000000) # demo_sections))"
proof -
  let ?message = "\<lparr> mm_exception = EXC_BAD_ACCESS, mm_codes = [1, 0xDEAD], mm_thread = 0x103, mm_task = 7 \<rparr>"
  have o: "\<not> he_open (demo_handler 0x203) (he_path (demo_handler 0x203)) True <s 0" by (simp add: word_sless_alt)
  have c: "\<not> (cx_initialized demo_context \<and> cx_crashOccurred demo_context)" by (simp add: demo_states)
  have r: "report_sections (he_process (demo_handler 0x203)) (fst (FIRCLSProcessInit (he_process (demo_handler 0x203)) (mm_thread ?message) None))
      demo_memory = Some (demo_memory, demo_sections)" using demo_report [of None "0x203"] by (simp add: MACH_PORT_INDEX_def)
  have p: "reliable (pe_kernel (he_process (demo_handler 0x203)))" "fw_contents empty_files (he_open (demo_handler 0x203) (he_path (demo_handler 0x203)) True) = []"
    using half_reliable by (simp_all add: empty_files_def)
  from exception_report_read [OF p(1) demo_plain o c r demo_readable p(2), of 1] show ?thesis by simp
qed

subsection \<open>The handlers and ports that were there before\<close>

lemma installs:
  "(\<forall>s \<in> set signals. sg_ok t s) \<Longrightarrow>
    sg_action (snd (install_handlers h signals t)) = (\<lambda>s. if s \<in> set signals then h else sg_action t s)"
  by (induction signals arbitrary: t) (auto simp: sigaction_def fun_eq_iff split_beta Let_def)

text \<open>C19 (roundtrip): installing makes the handler the action of every fatal signal, and when the handlers are put
  back, whatever the actions of the fatal signals are by then, every signal has the action it had before.\<close>

theorem signals_restored:
  assumes "\<forall>s \<in> set FIRCLSFatalSignals. sg_ok t s" "FIRCLSSignalInstallHandlers h t = (originals, t1)"
    and "sg_ok t2 = sg_ok t" "\<forall>s. s \<notin> set FIRCLSFatalSignals \<longrightarrow> sg_action t2 s = sg_action t s" "alt_stack \<noteq> Some False"
  shows "(\<forall>s \<in> set FIRCLSFatalSignals. sg_action t1 s = h) \<and>
    (\<exists>t3. FIRCLSSignalSafeInstallPreexistingHandlers alt_stack originals t2 = (t3, True) \<and> sg_action t3 = sg_action t)"
proof (intro conjI)
  show "\<forall>s \<in> set FIRCLSFatalSignals. sg_action t1 s = h"
    using installs [OF assms(1), of h] assms(2) by (simp add: FIRCLSSignalInstallHandlers_def)
  have o: "originals = map (sg_action t) FIRCLSFatalSignals"
    using installed [OF fatal_distinct assms(1), of h] assms(2) by (simp add: FIRCLSSignalInstallHandlers_def)
  let ?t = "FIRCLSSignalSafeRemoveHandlers True t2"
  have r: "sg_action ?t = (\<lambda>s. if s \<in> set FIRCLSFatalSignals then 0 else sg_action t2 s)" "sg_ok ?t = sg_ok t"
    using removed_actions [of FIRCLSFatalSignals t2] assms(1,3) by (simp_all add: FIRCLSSignalSafeRemoveHandlers_def)
  let ?rest = "zip FIRCLSFatalSignals originals"
  have keys: "map fst ?rest = FIRCLSFatalSignals" by (simp add: o)
  then have d: "distinct (map fst ?rest)" "\<forall>s \<in> fst ` set ?rest. sg_ok ?t s"
    using fatal_distinct assms(1) r(2) by (simp_all add: o flip: set_map)
  have m: "map_of ?rest = (\<lambda>s. if s \<in> set FIRCLSFatalSignals then Some (sg_action t s) else None)"
    by (simp add: o map_of_zip_map)
  from reinstalled_actions [OF d, of True] have
    "reinstall_handlers ?rest ?t True = (fst (reinstall_handlers ?rest ?t True), True)"
    "sg_action (fst (reinstall_handlers ?rest ?t True)) = sg_action t"
    unfolding m r using assms(4) by (auto simp: fun_eq_iff prod_eq_iff)
  then show "\<exists>t3. FIRCLSSignalSafeInstallPreexistingHandlers alt_stack originals t2 = (t3, True) \<and> sg_action t3 = sg_action t"
    using assms(5) by (auto simp: FIRCLSSignalSafeInstallPreexistingHandlers_def Let_def)
qed

theorem signals_restored_witness:
  "\<exists>t3. FIRCLSSignalSafeInstallPreexistingHandlers None (fst (FIRCLSSignalInstallHandlers 0x9000 demo_table))
      (demo_table\<lparr>sg_action := (\<lambda>_. 0)\<rparr>) = (t3, True) \<and> sg_action t3 SIGBUS = 0x5000"
proof -
  have "\<forall>s \<in> set FIRCLSFatalSignals. sg_ok demo_table s" "(None :: bool option) \<noteq> Some False" by (simp_all add: demo_states)
  moreover have "\<forall>s. s \<notin> set FIRCLSFatalSignals \<longrightarrow> sg_action (demo_table\<lparr>sg_action := (\<lambda>_. 0)\<rparr>) s = sg_action demo_table s"
    by (simp add: demo_states)
  ultimately have "\<exists>t3. FIRCLSSignalSafeInstallPreexistingHandlers None (fst (FIRCLSSignalInstallHandlers 0x9000 demo_table))
      (demo_table\<lparr>sg_action := (\<lambda>_. 0)\<rparr>) = (t3, True) \<and> sg_action t3 = sg_action demo_table"
    using signals_restored [of demo_table "0x9000" "fst (FIRCLSSignalInstallHandlers 0x9000 demo_table)"
        "snd (FIRCLSSignalInstallHandlers 0x9000 demo_table)" "demo_table\<lparr>sg_action := (\<lambda>_. 0)\<rparr>" None] by simp
  moreover have "sg_action demo_table SIGBUS = 0x5000" by (simp add: demo_states FIRCLSFatalSignals_def)
  ultimately show ?thesis by metis
qed

text \<open>What the kernel documents: the old ports come with the kinds they were for, and a kind without one had none.\<close>

definition swap_law :: "mach_kernel \<Rightarrow> bool" where
  "swap_law M \<longleftrightarrow> (\<forall>kinds ports originals. mk_swap M kinds ports = Some originals \<longrightarrow>
     (\<forall>(m, p) \<in> set originals. \<forall>e. bit m e \<longrightarrow> bit kinds e \<and> p = ports e) \<and>
     (\<forall>e. bit kinds e \<and> ports e \<noteq> 0 \<longrightarrow> (\<exists>(m, p) \<in> set originals. bit m e)))"

lemma set_ports_fold:
  "(\<forall>(m, p) \<in> set originals. bit m e \<longrightarrow> p = v) \<Longrightarrow>
    foldl (\<lambda>ports (m, p). set_ports m p ports) ports originals e = (if \<exists>(m, p) \<in> set originals. bit m e then v else ports e)"
  by (induction originals arbitrary: ports) (auto simp: set_ports_def)

lemma masks_bits: "bit (foldr (\<lambda>(m, p) ms. m OR ms) originals 0) e \<longleftrightarrow> (\<exists>(m, p) \<in> set originals. bit (m :: u32) e)"
  by (induction originals) (auto simp: bit_or_iff)

text \<open>C18 (roundtrip): registering takes the ports of the exceptions that are handled and not ignored, and no others,
  and unregistering gives every kind of exception the port it had.\<close>

theorem ports_restored:
  assumes "swap_law M" "\<forall>m p. mk_set M m p" "FIRCLSMachExceptionRegister M ignoreMask (X, ports) = ((X', ports'), True)"
  shows "(\<forall>e. ports' e = (if bit FIRCLSMachExceptionMask e \<and> \<not> bit ignoreMask e then mx_port X' else ports e)) \<and>
    FIRCLSMachExceptionUnregister M (mx_originalPorts X') (mx_mask X') ports' = (ports, True)"
proof -
  let ?mask = "FIRCLSMachExceptionMask AND NOT ignoreMask"
  from assms(3) have X': "mx_mask X' = ?mask" "mk_swap M ?mask ports = Some (mx_originalPorts X')" "ports' = set_ports ?mask (mx_port X') ports"
    by (auto simp: FIRCLSMachExceptionRegister_def Let_def split: option.splits if_splits)
  let ?os = "mx_originalPorts X'"
  have law: "\<forall>(m, p) \<in> set ?os. \<forall>e. bit m e \<longrightarrow> bit ?mask e \<and> p = ports e"
    "\<forall>e. bit ?mask e \<and> ports e \<noteq> 0 \<longrightarrow> (\<exists>(m, p) \<in> set ?os. bit m e)"
    using assms(1) X'(2) unfolding swap_law_def by blast+
  have bits: "bit ?mask e \<longleftrightarrow> bit FIRCLSMachExceptionMask e \<and> \<not> bit ignoreMask e" for e
    by (auto simp: bit_and_iff bit_not_iff dest: bit_imp_le_length)
  have same: "set_ports (?mask AND NOT (foldr (\<lambda>(m, p) ms. m OR ms) ?os 0)) 0
      (foldl (\<lambda>ports (m, p). set_ports m p ports) ports' ?os) e = ports e" for e
  proof -
    have "\<forall>(m, p) \<in> set ?os. bit m e \<longrightarrow> p = ports e" using law(1) by blast
    from set_ports_fold [OF this, of ports'] law X'(3) show ?thesis
      unfolding set_ports_def bit_and_iff bit_not_iff masks_bits by (auto dest: bit_imp_le_length)
  qed
  show ?thesis
  proof (intro conjI allI)
    fix e show "ports' e = (if bit FIRCLSMachExceptionMask e \<and> \<not> bit ignoreMask e then mx_port X' else ports e)"
      using bits by (simp add: X'(3) set_ports_def)
  next
    show "FIRCLSMachExceptionUnregister M ?os (mx_mask X') ports' = (ports, True)"
      using assms(2) same
      by (simp add: FIRCLSMachExceptionUnregister_def restored_ports [OF assms(2)] X'(1) task_set_exception_ports_def fun_eq_iff)
  qed
qed

definition demo_kernel :: mach_kernel where
  "demo_kernel = \<lparr> mk_allocate = Some 0x1103, mk_insert_right = True,
     mk_swap = (\<lambda>kinds ports. Some (map (\<lambda>e. (push_bit e 1, ports e)) (filter (\<lambda>e. bit kinds e) [0..<32]))), mk_set = (\<lambda>_ _. True) \<rparr>"

lemma demo_swap: "swap_law demo_kernel"
  by (auto simp: swap_law_def demo_kernel_def bit_push_bit_iff bit_1_iff bit_exp_iff dest: bit_imp_le_length)

theorem ports_restored_witness:
  "fst (FIRCLSMachExceptionUnregister demo_kernel
      (mx_originalPorts (fst (fst (FIRCLSMachExceptionRegister demo_kernel 0 (\<lparr> mx_port = 0, mx_mask = 0, mx_originalPorts = [] \<rparr>, (\<lambda>e. if e = 1 then 0x707 else 0))))))
      (mx_mask (fst (fst (FIRCLSMachExceptionRegister demo_kernel 0 (\<lparr> mx_port = 0, mx_mask = 0, mx_originalPorts = [] \<rparr>, (\<lambda>e. if e = 1 then 0x707 else 0))))))
      (snd (fst (FIRCLSMachExceptionRegister demo_kernel 0 (\<lparr> mx_port = 0, mx_mask = 0, mx_originalPorts = [] \<rparr>, (\<lambda>e. if e = 1 then 0x707 else 0)))))) 1 = 0x707"
proof -
  let ?ports = "\<lambda>e :: nat. if e = 1 then 0x707 else 0 :: u32"
  let ?r = "FIRCLSMachExceptionRegister demo_kernel 0 (\<lparr> mx_port = 0, mx_mask = 0, mx_originalPorts = [] \<rparr>, ?ports)"
  have "snd ?r" "\<forall>m p. mk_set demo_kernel m p" by (simp_all add: FIRCLSMachExceptionRegister_def demo_kernel_def Let_def)
  moreover have "?r = ((fst (fst ?r), snd (fst ?r)), snd ?r)" by simp
  ultimately have r: "?r = ((fst (fst ?r), snd (fst ?r)), True)" and s: "\<forall>m p. mk_set demo_kernel m p" by simp_all
  from ports_restored [OF demo_swap s r] show ?thesis by simp
qed

subsection \<open>Writing\<close>

text \<open>C17 (equivalence): as long as every write succeeds when it is retried, whether a file is opened to be buffered
  or not and whatever C strings (no zero byte, as the buffer is filled by \<open>strncpy\<close>) it is given, when it has been
  closed its contents are those from before and the strings one after the other.\<close>

theorem buffering_same:
  assumes "reliable K" "list_all plain_bytes pieces"
    and "FIRCLSFileInitWithPathMode malloc fstat open_file (Some f0) (Some path) appendMode buffered = (Some f, True)"
    and "\<forall>b. malloc = Some b \<longrightarrow> length b = 1000"
  shows "(do {
      s \<leftarrow> write_each (FIRCLSFileWriteToFileDescriptorOrBuffer K) pieces (f, w);
      (f', w', ok) \<leftarrow> FIRCLSFileClose K close_ok (Some (fst s)) (snd s);
      Some (fw_contents w', ok) }) =
    Some ((fw_contents w)(open_file path appendMode := fw_contents w (open_file path appendMode) @ concat pieces),
      close_ok (open_file path appendMode))"
proof -
  let ?fd = "open_file path appendMode"
  have "FIRCLSFileInit malloc fstat (Some f0) ?fd appendMode buffered = (Some f, True)"
    using assms(3) by (simp add: FIRCLSFileInitWithPathMode_def)
  note init = init_state [OF this assms(4) [rule_format]]
  have "goes_on K (f, w) (f, w)" using assms(1) init(1) by (simp add: goes_on_def)
  from file_sink.put_each [OF this assms(2)] obtain s where
    s: "write_each (FIRCLSFileWriteToFileDescriptorOrBuffer K) pieces (f, w) = Some s" "goes_on K (f, w) s"
    "file_text s = file_text (f, w) @ concat pieces" by blast
  then have t: "file_ok (fst s)" "fl_fd (fst s) = ?fd" "same_file (f, w) s" using init(2) by (auto simp: goes_on_def same_file_def)
  from close_text [OF assms(1) t(1), of close_ok "snd s"] obtain g v where v:
    "FIRCLSFileClose K close_ok (Some (fst s)) (snd s) = Some (g, v, close_ok ?fd)"
    "fw_contents v ?fd = file_text s" "\<forall>d. d \<noteq> ?fd \<longrightarrow> fw_contents v d = fw_contents (snd s) d" by (auto simp: t(2))
  have "fw_contents v d = ((fw_contents w)(?fd := fw_contents w ?fd @ concat pieces)) d" for d
    using v(2,3) s(3) t(3) init(2,3) by (cases "d = ?fd") (simp_all add: same_file_def file_text_def)
  then have "fw_contents v = (fw_contents w)(?fd := fw_contents w ?fd @ concat pieces)" by blast
  with s(1) v(1) show ?thesis by simp
qed

theorem buffering_same_witness:
  "(do {
      s \<leftarrow> write_each (FIRCLSFileWriteToFileDescriptorOrBuffer half_kernel) (replicate 400 [1, 2, 3])
        (zero_file\<lparr>fl_fd := 3, fl_bufferWrites := True, fl_writeBuffer := Some (replicate 1000 0)\<rparr>, \<lparr> fw_contents = (\<lambda>_. []), fw_calls = 0 \<rparr>);
      (f', w', ok) \<leftarrow> FIRCLSFileClose half_kernel (\<lambda>_. True) (Some (fst s)) (snd s);
      Some (fw_contents w' 3, ok) }) = Some (concat (replicate 400 [1, 2, 3]), True)"
proof -
  let ?f = "zero_file\<lparr>fl_fd := 3, fl_bufferWrites := True, fl_writeBuffer := Some (replicate 1000 0)\<rparr>"
  have "reliable half_kernel" "list_all plain_bytes (replicate 400 [1, 2, 3])"
    using half_reliable by (simp_all add: plain_bytes_def list_all_iff)
  moreover have "FIRCLSFileInitWithPathMode (Some (replicate 1000 0)) (\<lambda>_. 0) (\<lambda>_ _. 3) (Some zero_file) (Some ''x'') True True = (Some ?f, True)"
    by (simp add: FIRCLSFileInitWithPathMode_def FIRCLSFileInit_def word_sless_alt Let_def)
  moreover have "\<forall>b :: u8 list. Some (replicate 1000 0) = Some b \<longrightarrow> length b = 1000" by auto
  ultimately have eq: "(do { s \<leftarrow> write_each (FIRCLSFileWriteToFileDescriptorOrBuffer half_kernel) (replicate 400 [1, 2, 3]) (?f, \<lparr> fw_contents = (\<lambda>_. []), fw_calls = 0 \<rparr>);
      (f', w', ok) \<leftarrow> FIRCLSFileClose half_kernel (\<lambda>_. True) (Some (fst s)) (snd s); Some (fw_contents w', ok) }) =
    Some ((\<lambda>_. [])(3 := [] @ concat (replicate 400 [1, 2, 3])), True)"
    using buffering_same [of half_kernel "replicate 400 [1, 2, 3]" "Some (replicate 1000 0)" "\<lambda>_. 0" "\<lambda>_ _. 3" zero_file "''x''" True True ?f
        "\<lparr> fw_contents = (\<lambda>_. []), fw_calls = 0 \<rparr>" "\<lambda>_. True"] by simp
  from arg_cong [where f = "map_option (\<lambda>(c, ok). (c 3, ok))", OF eq] show ?thesis
    by (simp add: map_option_bind comp_def split_def)
qed

text \<open>C26 (bounds): a write that is retried calls the kernel at most 50 times; what reaches the file is a prefix of what
  was to be written, and it is all of it, and there was something, exactly when success is reported.\<close>

theorem writes_retried:
  assumes "honest K" "length bs < 2 ^ 63" "FIRCLSFileWriteWithRetries K fd bs w = (w', ok)"
  shows "(\<exists>k \<le> length bs. fw_contents w' = (fw_contents w)(fd := fw_contents w fd @ take k bs) \<and>
      (ok \<longleftrightarrow> bs \<noteq> [] \<and> k = length bs)) \<and> fw_calls w' \<le> fw_calls w + 50"
  using attempts_write [OF assms(1,2), of 50 fd w w' ok] assms(3)
  by (simp add: FIRCLSFileWriteWithRetries_def FIRCLSFileLoopWithWriteBlock_def CLS_FILE_MAX_WRITE_ATTEMPTS_def added_def)

theorem writes_retried_witness:
  "\<exists>k \<le> 60. fw_contents (fst (FIRCLSFileWriteWithRetries (\<lambda>w fd bs. if bs = [] then 0 else 1) 3 (replicate 60 7) \<lparr> fw_contents = (\<lambda>_. []), fw_calls = 0 \<rparr>)) 3 =
    replicate k 7"
proof -
  let ?w = "\<lparr> fw_contents = (\<lambda>_. []), fw_calls = 0 \<rparr>"
  let ?K = "\<lambda>w fd bs. if bs = [] then 0 else 1"
  have "honest ?K" by (simp add: honest_def Suc_le_eq)
  let ?r = "FIRCLSFileWriteWithRetries ?K 3 (replicate 60 7) ?w"
  have "?r = (fst ?r, snd ?r)" by simp
  with writes_retried [OF \<open>honest ?K\<close>, of "replicate 60 7" 3 ?w "fst ?r" "snd ?r"]
  show ?thesis by (auto simp: min_def)
qed

text \<open>C27 (roundtrip): decoding what a C string is encoded to gives the string, up to its first zero byte, when it is
  UTF-8 and nil when it is not, except that the decoding of the empty string reads outside of its block.  Of the
  system's check for UTF-8 it is only used that it accepts ASCII.\<close>

theorem hex_round_trip:
  assumes "\<forall>bs. (\<forall>b \<in> set bs. b < 0x80) \<longrightarrow> utf8 bs" "t = takeWhile (\<lambda>b. b \<noteq> 0) s"
  shows "Option.bind (FIRCLSFileHexEncodeString utf8 True s) (FIRCLSFileHexDecodeString utf8 True) =
    (if t = [] then None else Some (if utf8 t then Some t else None))"
proof -
  have dec: "hex_decode_loop (hex_text t) = t" by (induction t) (simp_all add: hex_text_Cons hex_byte, simp add: hex_text_def)
  have empty: "hex_text t = [] \<longleftrightarrow> t = []" using hex_text_bytes(2) [of t] by auto
  have str: "takeWhile (\<lambda>b. b \<noteq> 0) (hex_text t) = hex_text t" "takeWhile (\<lambda>b. b \<noteq> 0) t = t"
    using hex_text_bytes(1) [of t] by (auto simp: takeWhile_eq_all_conv assms(2))
  have ascii: "utf8 (hex_text t)" using assms(1) hex_text_ascii [of t] by blast
  show ?thesis
    unfolding FIRCLSFileHexEncodeString_def FIRCLSFileHexDecodeString_def stringWithUTF8String_def Let_def assms(2) [symmetric]
    by (simp only: str ascii dec empty if_True not_True_eq_False if_False bind.bind_lunit)
qed

text \<open>The byte sequences that are UTF-8, by RFC 3629.\<close>

fun utf8_valid :: "u8 list \<Rightarrow> bool" where
  "utf8_valid [] = True"
| "utf8_valid (b # bs) =
     (let cont = (\<lambda>c :: u8. 0x80 \<le> c \<and> c \<le> 0xBF) in
      if b < 0x80 then utf8_valid bs
      else case bs of
        [] \<Rightarrow> False
      | c # cs \<Rightarrow>
          if 0xC2 \<le> b \<and> b \<le> 0xDF then cont c \<and> utf8_valid cs
          else case cs of
            [] \<Rightarrow> False
          | d # ds \<Rightarrow>
              if 0xE0 \<le> b \<and> b \<le> 0xEF
              then cont c \<and> (b = 0xE0 \<longrightarrow> 0xA0 \<le> c) \<and> (b = 0xED \<longrightarrow> c \<le> 0x9F) \<and> cont d \<and> utf8_valid ds
              else case ds of
                [] \<Rightarrow> False
              | e # es \<Rightarrow>
                  0xF0 \<le> b \<and> b \<le> 0xF4 \<and> cont c \<and> (b = 0xF0 \<longrightarrow> 0x90 \<le> c) \<and> (b = 0xF4 \<longrightarrow> c \<le> 0x8F) \<and> cont d \<and> cont e \<and>
                  utf8_valid es)"

lemma utf8_ascii: "(\<forall>b \<in> set bs. b < 0x80) \<Longrightarrow> utf8_valid bs"
  by (induction bs) simp_all

theorem hex_round_trip_witness:
  "Option.bind (FIRCLSFileHexEncodeString utf8_valid True [0x68, 0xC3, 0xA9, 0, 7]) (FIRCLSFileHexDecodeString utf8_valid True) =
     Some (Some [0x68, 0xC3, 0xA9]) \<and>
   Option.bind (FIRCLSFileHexEncodeString utf8_valid True [0x68, 0xFF]) (FIRCLSFileHexDecodeString utf8_valid True) = Some None"
  using hex_round_trip [of utf8_valid "[0x68, 0xC3, 0xA9]" "[0x68, 0xC3, 0xA9, 0, 7]"]
    hex_round_trip [of utf8_valid "[0x68, 0xFF]" "[0x68, 0xFF]"] utf8_ascii
  by simp

subsection \<open>What goes wrong\<close>

text \<open>The digits of a number have no leading zero: a reader that refuses one takes them all.\<close>

lemma number_reads_back: "parse_number (number_string v False) = Some (unat v, [])"
  using parse_digits [of "[]" "unat v"] by (simp add: number_digits)

text \<open>A quote in a string is not escaped: one entry with a quote, a comma and a quote in it has the text of two.\<close>

lemma quote_not_escaped: "json_text (J_arr [J_str (a @ quote # comma # quote # b)]) = json_text (J_arr [J_str a, J_str b])"
  by (simp add: string_lit_def)

text \<open>When one thread cannot be suspended or resumed, the call is not made for the threads after it.\<close>

lemma no_more_calls: "each_other_thread call process threads False = ([], False)"
  by (induction threads) simp_all

lemma one_failure_stops:
  assumes "\<not> FIRCLSProcessIsCurrentThread process thread" "\<not> call thread"
  shows "each_other_thread call process (thread # threads) True = ([thread], False)"
  using assms by (simp add: no_more_calls)

text \<open>From 2148 seconds of processor time on the conversion to microseconds overflows.\<close>

lemma processor_time_overflows:
  assumes "2148 \<le> sint (fst t)"
  shows "time_in_us t = None"
proof (cases "sint (fst t) * 1000 < 2 ^ 31")
  case True
  then have "sint (word_of_int (sint (fst t) * 1000) :: u32) = sint (fst t) * 1000"
    using assms unfolding sint_sbintrunc' by (subst signed_take_bit_int_eq_self) simp_all
  with True assms show ?thesis by (simp add: time_in_us_def int_value_def)
next
  case False
  then show ?thesis by (simp add: time_in_us_def int_value_def)
qed

end
