(* ===== verification/Spec2Isabelle.thy ===== *)
theory Spec2Isabelle
  imports DwarfCFI Unwind Allocate PbUnion CrashRecord
begin

text \<open>
  Toonstreet is an iOS application in Swift; the C code of its repository is in the pods it vendors under
  \<open>src/Toonstreet/Pods\<close>.  This development models two parts of it, in which a mistake costs memory safety or the
  evidence of a crash: the crash reporter of Firebase Crashlytics (\<open>FirebaseCrashlytics/Crashlytics/Crashlytics\<close>,
  "CL" below), and nanopb (\<open>nanopb\<close>), the Protocol Buffers library that encodes the reports for the upload.

  \<^bold>\<open>How the parts work together.\<close>  A fatal signal or a Mach exception reaches a handler (\<open>CL/Handlers\<close>).  It
  marks the crash, opens the file of the report and writes a section on what happened; \<open>FIRCLSHandler\<close> then suspends
  the other threads and lets \<open>CL/Components/FIRCLSProcess.c\<close> write the sections on the threads and the process.  The
  stack trace of a thread comes from the unwinder (\<open>CL/Unwind\<close>): it finds the image of a program counter in the table
  of loaded images, looks the function up in its compact unwind information, and undoes the frame as the encoding
  says, by the frame pointer, or by the DWARF call frame instructions and their expressions.  Everything is written
  by \<open>CL/Helpers/FIRCLSFile.m\<close>, without the heap; what the handlers read lies in memory of
  \<open>CL/Helpers/FIRCLSAllocate.c\<close>.  After the next start the report is read, and nanopb encodes it.

  \<^bold>\<open>Conventions\<close> (\<open>Prelude\<close>).  The target is LP64, little-endian and two's complement, the flags are those of the
  pods.  An integer of the C code is a word of its width and wraps; a signed operation that overflows, an access to
  unmapped memory, to an uninitialised variable or outside of an array is undefined, which is the result \<open>None\<close>.
  A failure the code reports is a value: \<open>False\<close>, a null pointer or an error message, as in the code.  A function
  that changes an object gets it and returns it.  Memory is a partial map from addresses to bytes.

  \<^bold>\<open>The unwinder.\<close>
  \<^item> \<open>ThreadState\<close>: \<open>FIRCLSThreadState.c\<close> and the register access of \<open>FIRCLSUnwind_x86.c\<close> and \<open>FIRCLSUnwind_arm.c\<close>.
    The locale \<open>register_file\<close> is what the DWARF unwinder relies on: a register that is set is read back, and
    another is not changed.  It is interpreted for x86-64 and for arm64.
  \<^item> \<open>DwarfData\<close>: \<open>FIRCLSDataParsing.c\<close>, the readers of numbers, LEB128, strings and encoded pointers; they invert the
    DWARF encodings as far as they are defined.
  \<^item> \<open>DwarfExpr\<close>: \<open>FIRCLSDwarfExpressionMachine.c\<close>.  The locale \<open>bounded_stack\<close> is a stack with sticky over- and underflow,
    interpreted on the array of the code; an opcode refines its meaning on a list.
  \<^item> \<open>DwarfUnwind\<close> and \<open>DwarfCFI\<close>: \<open>FIRCLSDwarfUnwind.c\<close>, the parser of CIE and FDE records, the interpreter of call
    frame instructions and the restoration of registers.  \<open>cfa_op\<close> is an instruction with its encoding and its meaning
    on a row of the unwind table, \<open>cfi_table\<close> the rows of a whole program; the interpreter computes the row in force
    just before an offset, ends, and keeps its state well formed.  \<open>cfi_ok\<close> leaves out the two kinds of programs on
    which the code departs from the DWARF standard, a second short advance and a register rule after a CFA expression.
  \<^item> \<open>BinaryImage\<close>: the table of images of \<open>FIRCLSBinaryImage.m\<close>, searched by the unwinder and updated without locks;
    an update is a sequence of atomic steps, and schedules interleave them.
  \<^item> \<open>CompactUnwind\<close>: \<open>FIRCLSCompactUnwind.c\<close>, the search of the two-level table, on any bytes and on well-formed tables.
  \<^item> \<open>ArchUnwind\<close> and \<open>Unwind\<close>: the rest of \<open>FIRCLSUnwind_x86.c\<close>, \<open>FIRCLSUnwind_arm.c\<close> and \<open>FIRCLSUnwind.c\<close>, and the loop of
    \<open>FIRCLSProcessRecordThread\<close>: frameless functions with permuted registers, frame records, the stack scan, the step
    to the next frame with its counters, whole stack traces.
  \<^item> \<open>Allocate\<close>: \<open>FIRCLSAllocate.c\<close>; \<open>alloc_step\<close> is an atomic step of a thread that allocates, \<open>alloc_trans\<close> the
    relation of all threads, and disjointness is an invariant of its reachable states.

  \<^bold>\<open>The report.\<close>
  \<^item> \<open>CrashFile\<close>: the writing functions of \<open>FIRCLSFile.m\<close>, retries, buffer, strings, numbers, collections.
  \<^item> \<open>CrashEmit\<close>: \<open>emits\<close>, the text an operation adds to a file, buffered or not.  The locale \<open>report_sink\<close> is something
    that takes bytes one piece after the other; a file is one.
  \<^item> \<open>CrashJson\<close>: \<open>json_text\<close> is the text of a value, \<open>items\<close> what entries write in an open collection, \<open>parse_json\<close> a
    reader of such texts that gets readable values back.
  \<^item> \<open>CrashReport\<close>: \<open>FIRCLSProcess.c\<close>, \<open>FIRCLSHandler\<close> and what they call.  \<open>report_sections\<close> is the abstract report, a
    value for every section; the functions write its text.
  \<^item> \<open>CrashHandler\<close>: \<open>FIRCLSSignal.c\<close>, \<open>FIRCLSMachException.c\<close> and \<open>FIRCLSInternalLogging.c\<close>, the sections they write, the
    actions and ports they put back.
  \<^item> \<open>CrashRecord\<close>: the properties of all these.

  \<^bold>\<open>nanopb.\<close>
  \<^item> \<open>PbFields\<close>: \<open>pb.h\<close> and \<open>pb_common.c\<close>, field tables and the iterator over a structure in memory.
  \<^item> \<open>PbStream\<close>, \<open>PbEncode\<close>, \<open>PbWire\<close>: \<open>pb_encode.c\<close>.  The locale \<open>output_stream\<close> is the callback of a stream, interpreted
    on the buffer of \<open>pb_ostream_from_buffer\<close>, once with no change outside of the space and once with a prefix of the
    bytes as what a failing write leaves; \<open>pb_wire\<close> is the wire format of a message, what the encoder writes and
    the sizing pass counts.
  \<^item> \<open>PbDecode\<close>, \<open>PbRelease\<close>, \<open>PbMessage\<close>: \<open>pb_decode.c\<close>, the readers, the heap and the decoders of fields and messages.
  \<^item> \<open>PbPosition\<close>, \<open>PbSafe\<close>, \<open>PbSafety\<close>: for any table, memory and input a decoder keeps its stream in step; with a
    table whose fields are in the structure it is \<open>safe\<close>, on input nobody has checked.  \<open>static_message\<close> are these
    tables; it leaves out arrays of fixed count, empty tables and fields with default values, on which the code errs.
  \<^item> \<open>PbRoundTrip\<close>: a message that is encoded is decoded to the same fields.
  \<^item> \<open>PbUnion\<close>: a oneof with pointers, where the code is not safe.

  \<^bold>\<open>Fuel.\<close>  A loop of the code that is not structural has fuel, and \<open>None\<close> when it runs out.  The bound is always that of
  the loop: the bytes to the end of an expression or of an instruction sequence, the bytes left in a stream and one,
  the entries of a page and one for the bisection, the limit on frames and one for a stack trace, the length of a
  piece of a report and two; nested messages have the depth of their tables.  That it is enough is proved where a
  result is stated: the properties about decoding and about encoding say that there is a result, and \<open>pieces_write\<close>
  says it for the report.  For the loops of the unwinder the predicates \<open>expression_stuck\<close>, \<open>instructions_stuck\<close> and
  \<open>trace_stuck\<close> tell undefined behaviour from exhausted fuel: they say that the loop reaches a step that is undefined,
  and the loop has no result exactly then.

  \<^bold>\<open>Parameters.\<close>  What is not under \<open>src\<close> is an argument: \<open>arm64_sdk\<close> and \<open>compact_abi\<close> (accessors and layouts of Apple's
  headers), the field tables of a message, callbacks of the application, \<open>process_env\<close>, \<open>handler_env\<close>,
  \<open>signal_table\<close> and \<open>mach_kernel\<close> (answers of the kernel and of system libraries), the choices of \<open>malloc\<close>.  The
  hypotheses on them are named: \<open>arm64_sdk_laws\<close> (accessors read back what was set), \<open>honest\<close> (the kernel
  writes no more than it is given), \<open>reliable\<close> (besides, a write succeeds once it is retried; one call may take a
  part), \<open>swap_law\<close> (the ports that are replaced are handed out with their kinds).  Foundation's check for UTF-8 is
  the parameter \<open>utf8\<close> of the hexadecimal functions, which accepts ASCII.  A report is described under conditions on
  its own sections: \<open>plain_section\<close> (C strings) and, where it is read back, \<open>readable_section\<close> (no quote or
  backslash, which the code does not escape).

  \<^bold>\<open>Not modelled.\<close>
  \<^item> The application itself, in Swift: views, and calls of UIKit and Firebase.
  \<^item> gRPC, BoringSSL, Abseil, leveldb and Firestore, C and C++ libraries of several hundred thousand lines, which the
    pods vendor; the Objective-C pods, calls of Foundation; tables of constants that a generator wrote.
  \<^item> Of Crashlytics: the handler of C++ exceptions, the callbacks of the dynamic linker and the reading of Mach-O
    images, the thread that receives Mach messages, \<open>FIRCLSFileReadSections\<close> (it calls \<open>NSJSONSerialization\<close>), the
    32-bit variants, the code names of exceptions on x86, printing for debugging.  The calls that log are left out
    of the other functions, with one exception, the log message of the stack scan that reads memory.
  \<^item> Suspending a thread has no effect in the model: the memory of the process does not change while it is read.
\<close>

end
